(* ===== verification/Prelude.thy ===== *)
theory Prelude
  imports Main "HOL-Library.Word"
begin

unbundle bit_operations_syntax

text \<open>
  Shared vocabulary of the nhope development: the machine integers of the code
  (std::uint8_t ... std::uint64_t), std::memcpy into an array with its bounds made
  explicit, the libstdc++ bisection behind std::lower_bound, std::min on sizes, and the
  list lemmas that several components use.
\<close>

section \<open>Machine integers\<close>

type_synonym u8 = "8 word"
type_synonym u16 = "16 word"
type_synonym u32 = "32 word"
type_synonym u64 = "64 word"

text \<open>Two bytes are equal when their eight bits are.\<close>

lemma u8_eqI:
  fixes a b :: u8
  assumes "bit a 0 = bit b 0" "bit a 1 = bit b 1" "bit a 2 = bit b 2" "bit a 3 = bit b 3"
    "bit a 4 = bit b 4" "bit a 5 = bit b 5" "bit a 6 = bit b 6" "bit a 7 = bit b 7"
  shows "a = b"
proof (rule bit_word_eqI)
  fix n assume "n < LENGTH(8)"
  then have "n \<in> {0, 1, 2, 3, 4, 5, 6, 7}" by auto
  then show "bit a n = bit b n" using assms by blast
qed

lemma bit_u8_ge: "8 \<le> n \<Longrightarrow> \<not> bit (b :: u8) n"
  by (auto dest: bit_imp_le_length)

named_theorems abs_simps \<open>equations of the abstraction functions over the operations\<close>
named_theorems inv_intros \<open>preservation of the well-formedness invariants\<close>

section \<open>Arrays\<close>

text \<open>
  std::memcpy(dst + off, src, |src|): None when the copy would write outside the array,
  which is undefined behaviour in the source.
\<close>

definition memcpy :: "'a list \<Rightarrow> nat \<Rightarrow> 'a list \<Rightarrow> 'a list option" where
  "memcpy dst off src =
     (if off + length src \<le> length dst
      then Some (take off dst @ src @ drop (off + length src) dst)
      else None)"

lemma memcpy_Some_iff:
  "memcpy dst off src = Some dst' \<longleftrightarrow>
     off + length src \<le> length dst \<and>
     dst' = take off dst @ src @ drop (off + length src) dst"
  by (auto simp: memcpy_def)

lemma memcpy_length: "memcpy dst off src = Some dst' \<Longrightarrow> length dst' = length dst"
  by (auto simp: memcpy_def split: if_splits)

lemma memcpy_nth:
  assumes "memcpy dst off src = Some dst'" and "i < length dst"
  shows "dst' ! i = (if off \<le> i \<and> i < off + length src then src ! (i - off) else dst ! i)"
  using assms by (auto simp: memcpy_def nth_append split: if_splits)

text \<open>gsl::span::last(n) and the n-fold list of a constant byte.\<close>

definition span_last :: "nat \<Rightarrow> 'a list \<Rightarrow> 'a list" where
  "span_last n xs = drop (length xs - n) xs"

lemma length_span_last [simp]: "length (span_last n xs) = min n (length xs)"
  by (auto simp: span_last_def)

lemma span_last_append [simp]: "span_last (length ys) (xs @ ys) = ys"
  by (simp add: span_last_def)

section \<open>std::lower_bound\<close>

text \<open>
  The bisection of libstdc++ (std::__lower_bound): the half-open range of length len that
  starts at first is halved until it is empty; lt x says that x orders before the value.
\<close>

function lower_bound_loop :: "('a \<Rightarrow> bool) \<Rightarrow> 'a list \<Rightarrow> nat \<Rightarrow> nat \<Rightarrow> nat" where
  "lower_bound_loop lt xs first len =
     (if len = 0 then first
      else let half = len div 2; middle = first + half
           in if lt (xs ! middle)
              then lower_bound_loop lt xs (middle + 1) (len - half - 1)
              else lower_bound_loop lt xs first half)"
  by pat_completeness auto
termination
  by (relation "measure (\<lambda>(lt, xs, first, len). len)") auto

declare lower_bound_loop.simps [simp del]

definition lower_bound :: "('a \<Rightarrow> bool) \<Rightarrow> 'a list \<Rightarrow> nat" where
  "lower_bound lt xs = lower_bound_loop lt xs 0 (length xs)"

definition insert_at :: "nat \<Rightarrow> 'a \<Rightarrow> 'a list \<Rightarrow> 'a list" where
  "insert_at i x xs = take i xs @ x # drop i xs"

lemma length_insert_at [simp]: "i \<le> length xs \<Longrightarrow> length (insert_at i x xs) = Suc (length xs)"
  by (simp add: insert_at_def)

lemma set_insert_at [simp]: "set (insert_at i x xs) = insert x (set xs)"
proof -
  have "set xs = set (take i xs) \<union> set (drop i xs)"
    by (metis append_take_drop_id set_append)
  then show ?thesis by (auto simp: insert_at_def)
qed

text \<open>
  On a partitioned range (all elements that order before the value come first) the
  bisection finds the partition point.
\<close>

lemma lower_bound_loop_partition:
  assumes "\<forall>i < k. lt (xs ! i)" and "\<forall>i. k \<le> i \<longrightarrow> i < length xs \<longrightarrow> \<not> lt (xs ! i)"
    and "first \<le> k" and "k \<le> first + len" and "first + len \<le> length xs"
  shows "lower_bound_loop lt xs first len = k"
  using assms
proof (induction lt xs first len rule: lower_bound_loop.induct)
  case (1 lt xs first len)
  show ?case
  proof (cases "len = 0")
    case True
    with "1.prems" show ?thesis by (simp add: lower_bound_loop.simps)
  next
    case False
    let ?m = "first + len div 2"
    have m: "?m < first + len" using False by simp
    have lt_m: "lt (xs ! ?m) \<longleftrightarrow> ?m < k"
      using "1.prems"(1,2,5) m by (metis leI less_le_trans)
    show ?thesis
    proof (cases "lt (xs ! ?m)")
      case True
      with lt_m have "?m < k" by simp
      have "lower_bound_loop lt xs (?m + 1) (len - len div 2 - 1) = k"
        by (rule "1.IH"(1)[OF False refl refl True])
          (use "1.prems" \<open>?m < k\<close> m in auto)
      with True False show ?thesis by (subst lower_bound_loop.simps) (simp add: Let_def)
    next
      case nl: False
      with lt_m have "k \<le> ?m" by simp
      have "lower_bound_loop lt xs first (len div 2) = k"
        by (rule "1.IH"(2)[OF False refl refl nl])
          (use "1.prems" \<open>k \<le> ?m\<close> m in auto)
      with nl False show ?thesis by (subst lower_bound_loop.simps) (simp add: Let_def)
    qed
  qed
qed

lemma lower_bound_partition:
  assumes "\<forall>x \<in> set (take k xs). lt x" and "\<forall>x \<in> set (drop k xs). \<not> lt x"
    and "k \<le> length xs"
  shows "lower_bound lt xs = k"
  unfolding lower_bound_def
proof (rule lower_bound_loop_partition)
  show "\<forall>i < k. lt (xs ! i)"
    using assms(1,3) by (metis in_set_takeD in_set_conv_nth length_take min.absorb2 nth_take)
  show "\<forall>i. k \<le> i \<longrightarrow> i < length xs \<longrightarrow> \<not> lt (xs ! i)"
  proof (intro allI impI)
    fix i assume i: "k \<le> i" "i < length xs"
    then have "xs ! i = drop k xs ! (i - k)" by simp
    moreover have "i - k < length (drop k xs)" using i by simp
    ultimately have "xs ! i \<in> set (drop k xs)" by (metis nth_mem)
    with assms(2) show "\<not> lt (xs ! i)" by blast
  qed
qed (use assms(3) in auto)

text \<open>On a list sorted by a key the bisection is the length of the prefix of smaller keys.\<close>

lemma dropWhile_ge_sorted:
  fixes key :: "'a \<Rightarrow> 'k :: linorder"
  assumes "sorted (map key xs)" and "x \<in> set (dropWhile (\<lambda>y. key y < v) xs)"
  shows "v \<le> key x"
  using assms
proof (induction xs)
  case (Cons a xs)
  then show ?case by (cases "key a < v") (auto intro: order.trans)
qed simp

lemma lower_bound_sorted:
  fixes key :: "'a \<Rightarrow> 'k :: linorder"
  assumes "sorted (map key xs)"
  shows "lower_bound (\<lambda>x. key x < v) xs = length (takeWhile (\<lambda>x. key x < v) xs)"
proof (rule lower_bound_partition)
  let ?p = "\<lambda>x. key x < v"
  show "\<forall>x \<in> set (take (length (takeWhile ?p xs)) xs). ?p x"
    by (metis set_takeWhileD takeWhile_eq_take)
  show "\<forall>x \<in> set (drop (length (takeWhile ?p xs)) xs). \<not> ?p x"
    using dropWhile_ge_sorted[OF assms] by (fastforce simp flip: dropWhile_eq_drop)
qed (simp add: length_takeWhile_le)

lemma insert_at_takeWhile:
  "insert_at (length (takeWhile P xs)) x xs = takeWhile P xs @ x # dropWhile P xs"
  by (metis dropWhile_eq_drop insert_at_def takeWhile_eq_take)

lemma sorted_insert_lower_bound:
  fixes key :: "'a \<Rightarrow> 'k :: linorder"
  assumes "sorted (map key xs)"
  shows "sorted (map key (insert_at (lower_bound (\<lambda>y. key y < key x) xs) x xs))"
proof -
  let ?p = "\<lambda>y. key y < key x"
  have eq: "insert_at (lower_bound ?p xs) x xs = takeWhile ?p xs @ x # dropWhile ?p xs"
    by (simp add: lower_bound_sorted[OF assms] insert_at_takeWhile)
  have "sorted (map key (takeWhile ?p xs)) \<and> sorted (map key (dropWhile ?p xs))"
    using assms by (metis map_append sorted_append takeWhile_dropWhile_id)
  moreover have "\<forall>y \<in> set (takeWhile ?p xs). key y < key x"
    by (auto dest: set_takeWhileD)
  moreover have "\<forall>y \<in> set (dropWhile ?p xs). key x \<le> key y"
    using dropWhile_ge_sorted[OF assms] by blast
  ultimately show ?thesis
    by (auto simp: eq sorted_append intro: order.trans dest: less_imp_le)
qed

section \<open>The phases of an AOContext\<close>

text \<open>
  What work on a context and its close handlers see of it: it is open, a close has begun, or
  its handlers have been called. The phases are ordered by time.
\<close>

datatype ctx_phase = CtxOpen | CtxClosing | CtxClosed

instantiation ctx_phase :: linorder
begin

definition less_eq_ctx_phase :: "ctx_phase \<Rightarrow> ctx_phase \<Rightarrow> bool" where
  "less_eq_ctx_phase a b \<longleftrightarrow> a = CtxOpen \<or> b = CtxClosed \<or> a = b"

definition less_ctx_phase :: "ctx_phase \<Rightarrow> ctx_phase \<Rightarrow> bool" where
  "less_ctx_phase a b \<longleftrightarrow> a \<noteq> b \<and> (a = CtxOpen \<or> b = CtxClosed)"

instance
proof
  fix a b c :: ctx_phase
  show "(a < b) = (a \<le> b \<and> \<not> b \<le> a)"
    by (cases a; cases b) (simp_all add: less_eq_ctx_phase_def less_ctx_phase_def)
  show "a \<le> a" by (simp add: less_eq_ctx_phase_def)
  show "a \<le> b \<Longrightarrow> b \<le> c \<Longrightarrow> a \<le> c" by (cases a; cases b; cases c) (simp_all add: less_eq_ctx_phase_def)
  show "a \<le> b \<Longrightarrow> b \<le> a \<Longrightarrow> a = b" by (cases a; cases b) (simp_all add: less_eq_ctx_phase_def)
  show "a \<le> b \<or> b \<le> a" by (cases a; cases b) (simp_all add: less_eq_ctx_phase_def)
qed

end

end
