(* ===== verification/Bytes.thy ===== *)
theory Bytes
  imports Prelude
begin

text \<open>
  include/nhope/utils/bits.h and bytes.h: serialisation of unsigned integers in little and
  big endian order and byte swapping. A gsl::span of static extent is a list of that
  length; indexing follows the source.
\<close>

datatype Endian = Little | Big

definition toBytes16 :: "u16 \<Rightarrow> Endian \<Rightarrow> u8 list" where
  "toBytes16 val byteOrder = (case byteOrder of
     Little \<Rightarrow> [ucast val, ucast (drop_bit 8 val)]
   | Big \<Rightarrow> [ucast (drop_bit 8 val), ucast val])"

definition toBytes32 :: "u32 \<Rightarrow> Endian \<Rightarrow> u8 list" where
  "toBytes32 val byteOrder = (case byteOrder of
     Little \<Rightarrow> [ucast val, ucast (drop_bit 8 val), ucast (drop_bit 16 val),
                ucast (drop_bit 24 val)]
   | Big \<Rightarrow> [ucast (drop_bit 24 val), ucast (drop_bit 16 val), ucast (drop_bit 8 val),
             ucast val])"

definition toBytes64 :: "u64 \<Rightarrow> Endian \<Rightarrow> u8 list" where
  "toBytes64 val byteOrder = (case byteOrder of
     Little \<Rightarrow> [ucast val, ucast (drop_bit 8 val), ucast (drop_bit 16 val),
                ucast (drop_bit 24 val), ucast (drop_bit 32 val), ucast (drop_bit 40 val),
                ucast (drop_bit 48 val), ucast (drop_bit 56 val)]
   | Big \<Rightarrow> [ucast (drop_bit 56 val), ucast (drop_bit 48 val), ucast (drop_bit 40 val),
             ucast (drop_bit 32 val), ucast (drop_bit 24 val), ucast (drop_bit 16 val),
             ucast (drop_bit 8 val), ucast val])"

definition fromBytes16 :: "u8 list \<Rightarrow> Endian \<Rightarrow> u16" where
  "fromBytes16 bytes byteOrder = (case byteOrder of
     Little \<Rightarrow> push_bit 0 (ucast (bytes ! 0)) OR push_bit 8 (ucast (bytes ! 1))
   | Big \<Rightarrow> push_bit 8 (ucast (bytes ! 0)) OR ucast (bytes ! 1))"

definition fromBytes32 :: "u8 list \<Rightarrow> Endian \<Rightarrow> u32" where
  "fromBytes32 bytes byteOrder = (case byteOrder of
     Little \<Rightarrow> push_bit 0 (ucast (bytes ! 0)) OR push_bit 8 (ucast (bytes ! 1)) OR
       push_bit 16 (ucast (bytes ! 2)) OR push_bit 24 (ucast (bytes ! 3))
   | Big \<Rightarrow> push_bit 24 (ucast (bytes ! 0)) OR push_bit 16 (ucast (bytes ! 1)) OR
       push_bit 8 (ucast (bytes ! 2)) OR push_bit 0 (ucast (bytes ! 3)))"

definition fromBytes64 :: "u8 list \<Rightarrow> Endian \<Rightarrow> u64" where
  "fromBytes64 bytes byteOrder = (case byteOrder of
     Little \<Rightarrow> push_bit 0 (ucast (bytes ! 0)) OR push_bit 8 (ucast (bytes ! 1)) OR
       push_bit 16 (ucast (bytes ! 2)) OR push_bit 24 (ucast (bytes ! 3)) OR
       push_bit 32 (ucast (bytes ! 4)) OR push_bit 40 (ucast (bytes ! 5)) OR
       push_bit 48 (ucast (bytes ! 6)) OR push_bit 56 (ucast (bytes ! 7))
   | Big \<Rightarrow> push_bit 56 (ucast (bytes ! 0)) OR push_bit 48 (ucast (bytes ! 1)) OR
       push_bit 40 (ucast (bytes ! 2)) OR push_bit 32 (ucast (bytes ! 3)) OR
       push_bit 24 (ucast (bytes ! 4)) OR push_bit 16 (ucast (bytes ! 5)) OR
       push_bit 8 (ucast (bytes ! 6)) OR push_bit 0 (ucast (bytes ! 7)))"

text \<open>
  fromBytes<Int>(span): span::first<N>() is a gsl contract violation (the program
  terminates, None) on a span that is too short.
\<close>

definition fromBytes64_span :: "u8 list \<Rightarrow> Endian \<Rightarrow> u64 option" where
  "fromBytes64_span bytes byteOrder =
     (if length bytes < 8 then None else Some (fromBytes64 (take 8 bytes) byteOrder))"

definition fromBytes32_span :: "u8 list \<Rightarrow> Endian \<Rightarrow> u32 option" where
  "fromBytes32_span bytes byteOrder =
     (if length bytes < 4 then None else Some (fromBytes32 (take 4 bytes) byteOrder))"

definition fromBytes16_span :: "u8 list \<Rightarrow> Endian \<Rightarrow> u16 option" where
  "fromBytes16_span bytes byteOrder =
     (if length bytes < 2 then None else Some (fromBytes16 (take 2 bytes) byteOrder))"

text \<open>
  bytesSwap<Int> at an unsigned Int: digits = width - 8; i runs from digits down to 0 in
  steps of 8. The list of shift amounts is the loop's sequence of i.
\<close>

fun bytesSwap_loop :: "nat \<Rightarrow> nat list \<Rightarrow> 'a::len word \<Rightarrow> 'a word \<Rightarrow> 'a word" where
  "bytesSwap_loop digits [] value result = result"
| "bytesSwap_loop digits (i # is) value result =
     bytesSwap_loop digits is value
       (result OR push_bit (digits - i) (drop_bit i value AND 0xFF))"

definition bytesSwap16 :: "u16 \<Rightarrow> u16" where
  "bytesSwap16 value = bytesSwap_loop 8 [8, 0] value 0"

definition bytesSwap32 :: "u32 \<Rightarrow> u32" where
  "bytesSwap32 value = bytesSwap_loop 24 [24, 16, 8, 0] value 0"

definition bytesSwap64 :: "u64 \<Rightarrow> u64" where
  "bytesSwap64 value = bytesSwap_loop 56 [56, 48, 40, 32, 24, 16, 8, 0] value 0"

lemmas bytes_defs = toBytes16_def toBytes32_def toBytes64_def
  fromBytes16_def fromBytes32_def fromBytes64_def

text \<open>
  Every byte of a value, put back where it came from, is that value restricted to the
  byte's eight bits.
\<close>

lemma bit_mask_FF: "bit (0xFF :: 'a::len word) n \<longleftrightarrow> n < LENGTH('a) \<and> n < 8"
proof -
  have "(0xFF :: 'a word) = mask 8" by (simp add: mask_eq_exp_minus_1)
  then show ?thesis by (simp only: bit_mask_iff possible_bit_word)
qed

lemma bit_byte_part:
  fixes v :: "'a::len word"
  assumes "n < LENGTH('a)"
  shows "bit (push_bit k (ucast (ucast (drop_bit k v) :: u8)) :: 'a word) n \<longleftrightarrow>
           k \<le> n \<and> n < k + 8 \<and> bit v n"
  using assms by (auto simp: bit_simps)

lemma bit_low_byte:
  fixes v :: "'a::len word"
  assumes "n < LENGTH('a)"
  shows "bit (ucast (ucast v :: u8) :: 'a word) n \<longleftrightarrow> n < 8 \<and> bit v n"
  using assms by (auto simp: bit_simps)

lemma length_toBytes [simp]:
  "length (toBytes16 v16 e) = 2" "length (toBytes32 v32 e) = 4" "length (toBytes64 v64 e) = 8"
  by (cases e; simp add: bytes_defs)+

lemma fromBytes16_toBytes16: "fromBytes16 (toBytes16 v e) e = v"
  by (cases e; rule bit_word_eqI; auto simp: bytes_defs bit_or_iff bit_byte_part bit_low_byte)

lemma fromBytes32_toBytes32: "fromBytes32 (toBytes32 v e) e = v"
  by (cases e; rule bit_word_eqI; auto simp: bytes_defs bit_or_iff bit_byte_part bit_low_byte)

lemma fromBytes64_toBytes64: "fromBytes64 (toBytes64 v e) e = v"
  by (cases e; rule bit_word_eqI; auto simp: bytes_defs bit_or_iff bit_byte_part bit_low_byte)

text \<open>The other direction: reading a byte out of the assembled value.\<close>

lemma length_2_conv: "length bs = 2 \<longleftrightarrow> (\<exists>a b. bs = [a, b])"
  by (auto simp: numeral_eq_Suc length_Suc_conv)

lemma length_4_conv: "length bs = 4 \<longleftrightarrow> (\<exists>a b c d. bs = [a, b, c, d])"
  by (auto simp: numeral_eq_Suc length_Suc_conv)

lemma length_8_conv:
  "length bs = 8 \<longleftrightarrow> (\<exists>a b c d e f g h. bs = [a, b, c, d, e, f, g, h])"
  by (auto simp: numeral_eq_Suc length_Suc_conv)

lemma toBytes16_fromBytes16: "length bs = 2 \<Longrightarrow> toBytes16 (fromBytes16 bs e) e = bs"
  by (cases e; auto simp: length_2_conv bytes_defs bit_simps bit_u8_ge intro!: bit_word_eqI)

lemma toBytes32_fromBytes32: "length bs = 4 \<Longrightarrow> toBytes32 (fromBytes32 bs e) e = bs"
  by (cases e; auto simp: length_4_conv bytes_defs bit_simps bit_u8_ge intro!: bit_word_eqI)

lemma toBytes64_fromBytes64: "length bs = 8 \<Longrightarrow> toBytes64 (fromBytes64 bs e) e = bs"
  by (cases e; auto simp: length_8_conv bytes_defs bit_simps bit_u8_ge intro!: bit_word_eqI)

lemma and_FF_byte: "(v AND 0xFF :: 'a::len word) = ucast (ucast v :: u8)"
  by (rule bit_word_eqI) (simp only: bit_and_iff bit_mask_FF bit_low_byte, blast)

lemma bytesSwap16_reorders: "bytesSwap16 v = fromBytes16 (toBytes16 v Little) Big"
  by (simp only: bytesSwap16_def bytesSwap_loop.simps and_FF_byte)
    (simp add: bytes_defs ac_simps)

lemma bytesSwap32_reorders: "bytesSwap32 v = fromBytes32 (toBytes32 v Little) Big"
  by (simp only: bytesSwap32_def bytesSwap_loop.simps and_FF_byte)
    (simp add: bytes_defs ac_simps)

lemma bytesSwap64_reorders: "bytesSwap64 v = fromBytes64 (toBytes64 v Little) Big"
  by (simp only: bytesSwap64_def bytesSwap_loop.simps and_FF_byte)
    (simp add: bytes_defs ac_simps)

lemma toBytes_rev:
  "toBytes16 v16 Big = rev (toBytes16 v16 Little)"
  "toBytes32 v32 Big = rev (toBytes32 v32 Little)"
  "toBytes64 v64 Big = rev (toBytes64 v64 Little)"
  by (simp_all add: bytes_defs)

lemma toBytes64_bytesSwap64: "toBytes64 (bytesSwap64 v) Big = toBytes64 v Little"
  by (simp add: bytesSwap64_reorders toBytes64_fromBytes64)

lemma bytesSwap64_involution: "bytesSwap64 (bytesSwap64 v) = v"
proof -
  have "toBytes64 (bytesSwap64 (bytesSwap64 v)) Big = toBytes64 (bytesSwap64 v) Little"
    by (rule toBytes64_bytesSwap64)
  also have "\<dots> = rev (toBytes64 (bytesSwap64 v) Big)"
    by (simp add: toBytes_rev)
  also have "\<dots> = toBytes64 v Big"
    unfolding toBytes64_bytesSwap64 by (rule toBytes_rev(3)[symmetric])
  finally show ?thesis by (metis fromBytes64_toBytes64)
qed

end
