(* ===== verification/StringUtils.thy ===== *)
theory StringUtils
  imports Prelude
begin

text \<open>
  lib/utils/string-utils.cpp: removal of white space and HTML escaping. A std::string is
  a list of char (8-bit); capacity (reserve, shrink_to_fit) has no observable effect. The
  std::isspace of the "C" locale accepts blank and the codes 9 to 13.
\<close>

definition char_code :: "char \<Rightarrow> nat" where
  "char_code c = of_char c"

definition signed_char :: "char \<Rightarrow> int" where
  "signed_char c = (if char_code c < 128 then int (char_code c) else int (char_code c) - 256)"

definition isspace :: "char \<Rightarrow> bool" where
  "isspace c \<longleftrightarrow> char_code c = 32 \<or> (9 \<le> char_code c \<and> char_code c \<le> 13)"

fun removeWhitespaces_loop :: "string \<Rightarrow> string \<Rightarrow> string" where
  "removeWhitespaces_loop [] result = result"
| "removeWhitespaces_loop (symbol # s) result =
     removeWhitespaces_loop s (if \<not> isspace symbol then result @ [symbol] else result)"

definition removeWhitespaces :: "string \<Rightarrow> string" where
  "removeWhitespaces s = removeWhitespaces_loop s []"

fun toHtmlEscaped_loop :: "string \<Rightarrow> string \<Rightarrow> string" where
  "toHtmlEscaped_loop [] rich = rich"
| "toHtmlEscaped_loop (c # s) rich = toHtmlEscaped_loop s
     (if c = CHR ''<'' then rich @ ''&lt;''
      else if c = CHR ''>'' then rich @ ''&gt;''
      else if c = CHR ''&'' then rich @ ''&amp;''
      else if c = CHR 0x22 then rich @ ''&quot;''
      else rich @ [c])"

definition toHtmlEscaped :: "string \<Rightarrow> string" where
  "toHtmlEscaped s = toHtmlEscaped_loop s []"

section \<open>Characters\<close>

lemma char_code_less: "char_code c < 256"
  unfolding char_code_def by (metis mod_less_divisor of_char_mod_256 zero_less_numeral)

lemma char_of_char_code [simp]: "char_of (char_code c) = c"
  by (simp add: char_code_def)

lemma char_code_inject: "char_code c = char_code d \<longleftrightarrow> c = d"
  by (simp add: char_code_def of_char_eq_iff)

section \<open>White space\<close>

lemma removeWhitespaces_loop_filter:
  "removeWhitespaces_loop s result = result @ filter (\<lambda>c. \<not> isspace c) s"
  by (induction s arbitrary: result) auto

lemma removeWhitespaces_filter: "removeWhitespaces s = filter (\<lambda>c. \<not> isspace c) s"
  by (simp add: removeWhitespaces_def removeWhitespaces_loop_filter)

lemma removeWhitespaces_id: "\<forall>c \<in> set s. \<not> isspace c \<Longrightarrow> removeWhitespaces s = s"
  by (simp add: removeWhitespaces_filter)

section \<open>HTML\<close>

definition html_escape_char :: "char \<Rightarrow> string" where
  "html_escape_char c =
     (if c = CHR ''<'' then ''&lt;'' else if c = CHR ''>'' then ''&gt;''
      else if c = CHR ''&'' then ''&amp;'' else if c = CHR 0x22 then ''&quot;'' else [c])"

lemma toHtmlEscaped_loop_concat:
  "toHtmlEscaped_loop s rich = rich @ concat (map html_escape_char s)"
  by (induction s arbitrary: rich) (auto simp: html_escape_char_def)

lemma toHtmlEscaped_concat: "toHtmlEscaped s = concat (map html_escape_char s)"
  by (simp add: toHtmlEscaped_def toHtmlEscaped_loop_concat)

text \<open>
  The reader of HTML text: an entity stands for its character, everything else for
  itself. None on a metacharacter that is not part of one of the four entities.
\<close>

fun html_text :: "string \<Rightarrow> string option" where
  "html_text [] = Some []"
| "html_text (c # s) =
     (if take 4 (c # s) = ''&lt;'' then map_option (Cons (CHR ''<'')) (html_text (drop 3 s))
      else if take 4 (c # s) = ''&gt;'' then map_option (Cons (CHR ''>'')) (html_text (drop 3 s))
      else if take 5 (c # s) = ''&amp;'' then map_option (Cons (CHR ''&'')) (html_text (drop 4 s))
      else if take 6 (c # s) = ''&quot;'' then map_option (Cons (CHR 0x22)) (html_text (drop 5 s))
      else if c \<in> {CHR ''<'', CHR ''>'', CHR ''&'', CHR 0x22} then None
      else map_option (Cons c) (html_text s))"

lemma html_text_escape_char:
  "html_text (html_escape_char c @ s) = map_option (Cons c) (html_text s)"
  by (auto simp: html_escape_char_def)

text \<open>
  HTML escaping loses nothing and is safe: reading the escaped text gives back the
  plain string, so no metacharacter survives outside one of the four entities.
\<close>

theorem toHtmlEscaped_roundtrip: "html_text (toHtmlEscaped s) = Some s"
  by (induction s) (simp_all add: toHtmlEscaped_concat html_text_escape_char)

section \<open>Arrays of characters\<close>

text \<open>
  include/nhope/utils/array.h: res is the array of the result, zero at first. The index is not
  checked; one past the end of the text is None. The literal's array has its terminator at the end.
\<close>

fun toArray_loop :: "nat \<Rightarrow> string \<Rightarrow> nat \<Rightarrow> string \<Rightarrow> string option" where
  "toArray_loop 0 val i res = Some res"
| "toArray_loop (Suc n) val i res =
     (if length val \<le> i then None else toArray_loop n val (Suc i) (res[i := val ! i]))"

definition toArray :: "nat \<Rightarrow> string \<Rightarrow> string option" where
  "toArray n val = toArray_loop n val 0 (replicate n (CHR 0x00))"

definition toArray_literal :: "string \<Rightarrow> string option" where
  "toArray_literal a = toArray_loop (length a - 1) a 0 (replicate (length a - 1) (CHR 0x00))"

fun concat_into :: "'c list \<Rightarrow> nat \<times> 'c list \<Rightarrow> nat \<times> 'c list" where
  "concat_into [] (i, res) = (i, res)"
| "concat_into (c # a) (i, res) = concat_into a (i + 1, res[i := c])"

definition concatArrays :: "'c \<Rightarrow> 'c list list \<Rightarrow> 'c list" where
  "concatArrays zero as = snd (fold concat_into as (0, replicate (sum_list (map length as)) zero))"

lemma toArray_loop_eq:
  assumes "i + n \<le> length val" and "length res = i + n" and "take i res = take i val"
  shows "toArray_loop n val i res = Some (take (i + n) val)"
  using assms
proof (induction n arbitrary: i res)
  case (Suc n)
  then have i: "i < length val" "i < length res" by auto
  then have "take (Suc i) (res[i := val ! i]) = take (Suc i) val"
    using Suc.prems(3) by (simp add: take_Suc_conv_app_nth)
  then show ?case using Suc.IH[of "Suc i" "res[i := val ! i]"] Suc.prems i by simp
qed simp

text \<open>toArray takes the front of the text, and reads past its end when it is too short.\<close>

lemma toArray_take: "n \<le> length val \<Longrightarrow> toArray n val = Some (take n val)"
  using toArray_loop_eq[of 0 n val] by (simp add: toArray_def)

lemma toArray_short: "length val < n \<Longrightarrow> toArray n val = None"
proof -
  have "toArray_loop m val i res = None" if "length val < i + m" "i \<le> length val" for m i res
    using that by (induction m arbitrary: i res) auto
  then show "length val < n \<Longrightarrow> toArray n val = None" by (simp add: toArray_def)
qed

lemma toArray_literal_butlast: "toArray_literal (s @ [CHR 0x00]) = Some s"
  using toArray_loop_eq[of 0 "length s" "s @ [CHR 0x00]"] by (simp add: toArray_literal_def)

lemma concat_into_eq:
  assumes "length pre = i" and "length a \<le> length rest"
  shows "concat_into a (i, pre @ rest) = (i + length a, (pre @ a) @ drop (length a) rest)"
  using assms
proof (induction a arbitrary: i pre rest)
  case (Cons c a)
  then obtain x rest' where r: "rest = x # rest'" by (cases rest) auto
  then show ?case using Cons.IH[of "pre @ [c]" "i + 1" rest'] Cons.prems by (simp add: list_update_append)
qed simp

text \<open>concatArrays joins its arguments.\<close>

theorem concatArrays_concat: "concatArrays zero as = concat as"
proof -
  have "snd (fold concat_into as (length pre, pre @ rest)) = pre @ concat as"
    if "length rest = sum_list (map length as)" for pre rest
    using that
  proof (induction as arbitrary: pre rest)
    case (Cons a as)
    then have "concat_into a (length pre, pre @ rest) = (length (pre @ a), (pre @ a) @ drop (length a) rest)"
      using concat_into_eq[of pre "length pre" a rest] by simp
    then show ?case using Cons.IH[of "drop (length a) rest" "pre @ a"] Cons.prems by simp
  qed simp
  from this[of "replicate (sum_list (map length as)) zero" "[]"] show ?thesis by (simp add: concatArrays_def)
qed

end
