(* ===== verification/Hex.thy ===== *)
theory Hex
  imports StringUtils
begin

text \<open>
  lib/utils/hex.cpp: bytes to lower-case hexadecimal text and back. HexParseError is the
  error of a sum, with the data its message shows. The two operands of the expression in
  fromHex(hi, lo) are read from left to right.
\<close>

datatype hex_error = InvalidHexValue char | IncorrectHexSize nat

definition hex_digits :: string where
  "hex_digits = ''0123456789abcdef''"

definition byteToHex :: "u8 \<Rightarrow> string" where
  "byteToHex v = [hex_digits ! unat (drop_bit 4 v), hex_digits ! unat (v AND 0xF)]"

definition invalidHexValue :: u8 where
  "invalidHexValue = 16"

definition makeDecodeEntry :: "nat \<Rightarrow> u8" where
  "makeDecodeEntry ch =
     (if char_code (CHR ''0'') \<le> ch \<and> ch \<le> char_code (CHR ''9'')
      then of_nat (ch - char_code (CHR ''0''))
      else if char_code (CHR ''a'') \<le> ch \<and> ch \<le> char_code (CHR ''f'')
      then of_nat (ch - char_code (CHR ''a'') + 10)
      else if char_code (CHR ''A'') \<le> ch \<and> ch \<le> char_code (CHR ''F'')
      then of_nat (ch - char_code (CHR ''A'') + 10)
      else invalidHexValue)"

definition decodeTable :: "u8 list" where
  "decodeTable = map makeDecodeEntry [0..<256]"

definition fromHexDigit :: "char \<Rightarrow> hex_error + u8" where
  "fromHexDigit ch =
     (let val = decodeTable ! char_code ch
      in if val = invalidHexValue then Inl (InvalidHexValue ch) else Inr val)"

definition fromHexPair :: "char \<Rightarrow> char \<Rightarrow> hex_error + u8" where
  "fromHexPair hi lo =
     (case fromHexDigit hi of Inl e \<Rightarrow> Inl e
      | Inr h \<Rightarrow> (case fromHexDigit lo of Inl e \<Rightarrow> Inl e
                | Inr l \<Rightarrow> Inr (push_bit 4 h OR l)))"

function fromHex_loop :: "string \<Rightarrow> nat \<Rightarrow> u8 list \<Rightarrow> hex_error + u8 list" where
  "fromHex_loop stripped i res =
     (if i < length stripped
      then (case fromHexPair (stripped ! i) (stripped ! (i + 1)) of
              Inl e \<Rightarrow> Inl e
            | Inr byte \<Rightarrow> fromHex_loop stripped (i + 2) (res @ [byte]))
      else Inr res)"
  by pat_completeness auto
termination by (relation "measure (\<lambda>(s, i, res). length s - i)") auto

declare fromHex_loop.simps [simp del]

definition fromHex :: "string \<Rightarrow> hex_error + u8 list" where
  "fromHex hex =
     (let stripped = removeWhitespaces hex
      in if odd (length stripped) then Inl (IncorrectHexSize (length hex))
         else fromHex_loop stripped 0 [])"

fun toHex_loop :: "u8 list \<Rightarrow> string \<Rightarrow> string" where
  "toHex_loop [] hexStr = hexStr"
| "toHex_loop (v # bytes) hexStr = toHex_loop bytes (hexStr @ byteToHex v)"

definition toHex :: "u8 list \<Rightarrow> string" where
  "toHex bytes = toHex_loop bytes []"

section \<open>Digits\<close>

lemma decodeTable_entry: "decodeTable ! char_code ch = makeDecodeEntry (char_code ch)"
  using char_code_less[of ch] by (simp add: decodeTable_def)

lemma fromHexDigit_entry [code]:
  "fromHexDigit ch = (let val = makeDecodeEntry (char_code ch)
     in if val = invalidHexValue then Inl (InvalidHexValue ch) else Inr val)"
  by (simp add: fromHexDigit_def decodeTable_entry)

lemma take_bit_4_and: "v AND 0xF = take_bit 4 (v :: u8)"
  by (simp add: take_bit_eq_mask mask_eq_exp_minus_1)

lemma nibble_less: "unat (drop_bit 4 (v :: u8)) < 16" "unat (v AND 0xF) < 16"
proof -
  have "unat v < 256" using unsigned_less[where 'a = nat, of v] by simp
  then show "unat (drop_bit 4 v) < 16"
    unfolding unat_drop_bit_eq by (simp add: drop_bit_eq_div)
  show "unat (v AND 0xF) < 16"
    unfolding take_bit_4_and unsigned_take_bit_eq by (simp add: take_bit_eq_mod)
qed

lemma nibbles_join: "push_bit 4 (drop_bit 4 v) OR (v AND 0xF) = (v :: u8)"
  unfolding take_bit_4_and by (rule bit_word_eqI) (auto simp: bit_simps)

text \<open>The digit tables are finite: the facts about them are evaluated by the kernel.\<close>

lemma fromHexDigit_hex_digits_all:
  "list_all (\<lambda>n. fromHexDigit (hex_digits ! n) = Inr (of_nat n) \<and> \<not> isspace (hex_digits ! n))
     [0..<16]"
  by code_simp

lemma fromHexDigit_hex_digits:
  assumes "n < 16"
  shows "fromHexDigit (hex_digits ! n) = Inr (of_nat n)" and "\<not> isspace (hex_digits ! n)"
  using fromHexDigit_hex_digits_all assms by (auto simp: list_all_iff)

definition hex_lower :: "char \<Rightarrow> char" where
  "hex_lower c = (if char_code (CHR ''A'') \<le> char_code c \<and> char_code c \<le> char_code (CHR ''F'')
     then char_of (char_code c + 32) else c)"

definition is_hex_digit :: "char \<Rightarrow> bool" where
  "is_hex_digit c \<longleftrightarrow> c \<in> set ''0123456789abcdefABCDEF''"

lemma hex_alphabet_all:
  "list_all (\<lambda>c. fromHexDigit c \<noteq> Inl (InvalidHexValue c) \<and>
      (\<forall>v \<in> set_option (case fromHexDigit c of Inl _ \<Rightarrow> None | Inr v \<Rightarrow> Some v).
         hex_digits ! unat v = hex_lower c \<and> drop_bit 4 v = 0)) ''0123456789abcdefABCDEF''"
  by code_simp

lemma makeDecodeEntry_other:
  assumes "\<not> is_hex_digit c"
  shows "makeDecodeEntry (char_code c) = invalidHexValue"
proof -
  define n where "n = char_code c"
  have "n \<notin> char_code ` set ''0123456789abcdefABCDEF''"
    using assms by (auto simp: is_hex_digit_def char_code_inject n_def)
  then have n: "n \<noteq> 48" "n \<noteq> 49" "n \<noteq> 50" "n \<noteq> 51" "n \<noteq> 52" "n \<noteq> 53" "n \<noteq> 54" "n \<noteq> 55"
    "n \<noteq> 56" "n \<noteq> 57" "n \<noteq> 97" "n \<noteq> 98" "n \<noteq> 99" "n \<noteq> 100" "n \<noteq> 101" "n \<noteq> 102" "n \<noteq> 65"
    "n \<noteq> 66" "n \<noteq> 67" "n \<noteq> 68" "n \<noteq> 69" "n \<noteq> 70"
    by (simp_all add: char_code_def)
  then have "\<not> (48 \<le> n \<and> n \<le> 57)" "\<not> (97 \<le> n \<and> n \<le> 102)" "\<not> (65 \<le> n \<and> n \<le> 70)"
    by presburger+
  then show ?thesis
    unfolding n_def[symmetric] makeDecodeEntry_def by (auto simp: char_code_def)
qed

lemma fromHexDigit_cases:
  "(\<exists>v. fromHexDigit c = Inr v \<and> is_hex_digit c \<and> hex_digits ! unat v = hex_lower c \<and>
        drop_bit 4 v = 0) \<or>
   (fromHexDigit c = Inl (InvalidHexValue c) \<and> \<not> is_hex_digit c)"
proof (cases "is_hex_digit c")
  case True
  then have "fromHexDigit c \<noteq> Inl (InvalidHexValue c)"
    and lower: "\<forall>v \<in> set_option (case fromHexDigit c of Inl _ \<Rightarrow> None | Inr v \<Rightarrow> Some v).
         hex_digits ! unat v = hex_lower c \<and> drop_bit 4 v = 0"
    using hex_alphabet_all unfolding list_all_iff is_hex_digit_def by blast+
  then obtain v where "fromHexDigit c = Inr v"
    by (auto simp: fromHexDigit_entry Let_def split: if_splits)
  with lower True show ?thesis by auto
next
  case False
  then show ?thesis by (simp add: fromHexDigit_entry makeDecodeEntry_other)
qed

section \<open>Bytes\<close>

lemma fromHexPair_byteToHex:
  "fromHexPair (byteToHex v ! 0) (byteToHex v ! 1) = Inr v"
  by (simp add: fromHexPair_def byteToHex_def fromHexDigit_hex_digits nibble_less nibbles_join)

lemma nibbles_split:
  assumes "drop_bit 4 h = (0 :: u8)" and "drop_bit 4 l = (0 :: u8)"
  shows "drop_bit 4 (push_bit 4 h OR l) = h" and "(push_bit 4 h OR l) AND 0xF = l"
    and "drop_bit 4 (push_bit 4 h) = h"
proof -
  have h: "\<not> bit h n" if "4 \<le> n" for n
    using arg_cong[OF assms(1), of "\<lambda>w. bit w (n - 4)"] that by (simp add: bit_drop_bit_eq)
  have l: "\<not> bit l n" if "4 \<le> n" for n
    using arg_cong[OF assms(2), of "\<lambda>w. bit w (n - 4)"] that by (simp add: bit_drop_bit_eq)
  show "drop_bit 4 (push_bit 4 h OR l) = h"
    by (rule bit_word_eqI) (use h l in \<open>auto simp: bit_simps intro: ccontr\<close>)
  show "(push_bit 4 h OR l) AND 0xF = l"
    unfolding take_bit_4_and
    by (rule bit_word_eqI) (use l in \<open>auto simp: bit_simps intro: ccontr\<close>)
  show "drop_bit 4 (push_bit 4 h) = h"
    by (rule bit_word_eqI) (use h in \<open>auto simp: bit_simps intro: ccontr\<close>)
qed

lemma fromHexPair_cases:
  "(\<exists>b. fromHexPair hi lo = Inr b \<and> is_hex_digit hi \<and> is_hex_digit lo \<and>
        byteToHex b = [hex_lower hi, hex_lower lo]) \<or>
   (\<exists>c. fromHexPair hi lo = Inl (InvalidHexValue c) \<and> c \<in> {hi, lo} \<and> \<not> is_hex_digit c)"
  using fromHexDigit_cases[of hi] fromHexDigit_cases[of lo]
  by (auto simp: fromHexPair_def byteToHex_def nibbles_split)

lemma toHex_loop_concat: "toHex_loop bytes s = s @ concat (map byteToHex bytes)"
  by (induction bytes arbitrary: s) auto

lemma toHex_concat: "toHex bytes = concat (map byteToHex bytes)"
  by (simp add: toHex_def toHex_loop_concat)

lemma byteToHex_pair: "\<exists>a b. byteToHex v = [a, b] \<and> \<not> isspace a \<and> \<not> isspace b"
  by (simp add: byteToHex_def fromHexDigit_hex_digits nibble_less)

lemma length_toHex: "length (toHex bytes) = 2 * length bytes"
  by (induction bytes) (auto simp: toHex_concat byteToHex_def)

lemma toHex_no_space: "removeWhitespaces (toHex bytes) = toHex bytes"
proof (rule removeWhitespaces_id)
  show "\<forall>c \<in> set (toHex bytes). \<not> isspace c"
    by (auto simp: toHex_concat byteToHex_def fromHexDigit_hex_digits nibble_less)
qed

lemma fromHex_loop_toHex:
  "fromHex_loop (pre @ toHex bytes) (length pre) res = Inr (res @ bytes)"
proof (induction bytes arbitrary: pre res)
  case Nil
  then show ?case by (simp add: fromHex_loop.simps toHex_concat)
next
  case (Cons v bytes)
  obtain a b where ab: "byteToHex v = [a, b]" using byteToHex_pair by blast
  then have pair: "fromHexPair a b = Inr v" using fromHexPair_byteToHex[of v] by simp
  have str: "pre @ toHex (v # bytes) = (pre @ [a, b]) @ toHex bytes"
    by (simp add: toHex_concat ab)
  have "fromHex_loop ((pre @ [a, b]) @ toHex bytes) (length pre) res =
        fromHex_loop ((pre @ [a, b]) @ toHex bytes) (length (pre @ [a, b])) (res @ [v])"
    by (subst fromHex_loop.simps) (simp add: nth_append pair)
  then show ?case unfolding str by (simp only: Cons.IH) simp
qed

text \<open>
  decoding the hexadecimal text of any byte string gives the byte string back.
\<close>

theorem fromHex_toHex: "fromHex (toHex bytes) = Inr bytes"
  using fromHex_loop_toHex[of "[]" bytes "[]"]
  by (simp add: fromHex_def toHex_no_space length_toHex Let_def)

text \<open>The loop from position i on, for text of even length.\<close>

lemma fromHex_loop_cases:
  assumes "even (length s)" and "even i" and "i \<le> length s"
  shows "(\<exists>bs. fromHex_loop s i res = Inr (res @ bs) \<and> toHex bs = map hex_lower (drop i s) \<and>
            (\<forall>c \<in> set (drop i s). is_hex_digit c)) \<or>
         (\<exists>c. fromHex_loop s i res = Inl (InvalidHexValue c) \<and> c \<in> set (drop i s) \<and>
            \<not> is_hex_digit c)"
  using assms
proof (induction s i res rule: fromHex_loop.induct)
  case (1 s i res)
  show ?case
  proof (cases "i < length s")
    case False
    then show ?thesis using "1.prems" by (simp add: fromHex_loop.simps toHex_concat)
  next
    case True
    then have i1: "i + 1 < length s" using "1.prems" by presburger
    have dr: "drop i s = s ! i # s ! (i + 1) # drop (i + 2) s"
      using True i1 by (metis Cons_nth_drop_Suc Suc_eq_plus1 add_2_eq_Suc')
    consider b where "fromHexPair (s ! i) (s ! (i + 1)) = Inr b"
        "byteToHex b = [hex_lower (s ! i), hex_lower (s ! (i + 1))]"
        "is_hex_digit (s ! i)" "is_hex_digit (s ! (i + 1))"
      | c where "fromHexPair (s ! i) (s ! (i + 1)) = Inl (InvalidHexValue c)"
        "c \<in> {s ! i, s ! (i + 1)}" "\<not> is_hex_digit c"
      using fromHexPair_cases by metis
    then show ?thesis
    proof cases
      case (1 b)
      have step: "fromHex_loop s i res = fromHex_loop s (i + 2) (res @ [b])"
        using True 1(1) by (subst fromHex_loop.simps) simp
      have "i + 2 \<le> length s" "even (i + 2)" using i1 "1.prems" by auto
      from "1.IH"[OF True 1(1) "1.prems"(1) this(2,1)] show ?thesis
        unfolding step dr using 1 by (fastforce simp: toHex_concat)
    next
      case (2 c)
      then show ?thesis
        using True unfolding dr by (subst fromHex_loop.simps) auto
    qed
  qed
qed

text \<open>
  fromHex accepts exactly the texts that, without white space, have even length and
  hexadecimal digits only; what it accepts is, up to the case of the digits, the text of
  the bytes it returns; and it names an offending character otherwise.
\<close>

theorem fromHex_complete:
  "case fromHex s of
     Inr bs \<Rightarrow> toHex bs = map hex_lower (removeWhitespaces s) \<and>
       (\<forall>c \<in> set (removeWhitespaces s). is_hex_digit c)
   | Inl (IncorrectHexSize n) \<Rightarrow> n = length s \<and> odd (length (removeWhitespaces s))
   | Inl (InvalidHexValue c) \<Rightarrow> c \<in> set (removeWhitespaces s) \<and> \<not> is_hex_digit c"
  using fromHex_loop_cases[of "removeWhitespaces s" 0 "[]"]
  by (auto simp: fromHex_def Let_def)

theorem fromHex_complete_witness:
  "fromHex ''zz'' = Inl (InvalidHexValue CHR ''z'') \<and> \<not> is_hex_digit CHR ''z''"
proof -
  have "fromHex ''zz'' = Inl (InvalidHexValue CHR ''z'')" by code_simp
  with fromHex_complete[of "''zz''"] show ?thesis by simp
qed

end
