(* ===== verification/Base64.thy ===== *)
theory Base64
  imports StringUtils
begin

text \<open>
  lib/utils/base64.cpp: base64 text (RFC 4648 alphabet, with padding). The loops keep the
  source's index i; std::string_view::substr and operator[] are read only in range, which
  the length check at the head of fromBase64Impl guarantees. A char is signed on the
  platforms of the build, so the range tests compare signed values.
\<close>

datatype base64_error = Base64InvalidSymbol char | Base64IllegalLength

definition b64_decode :: "char \<Rightarrow> base64_error + u8" where
  "b64_decode c =
     (if signed_char c \<ge> signed_char (CHR ''A'') \<and> signed_char c \<le> signed_char (CHR ''Z'')
      then Inr (of_int (signed_char c - signed_char (CHR ''A'')))
      else if signed_char c \<ge> signed_char (CHR ''a'') \<and> signed_char c \<le> signed_char (CHR ''z'')
      then Inr (of_int (signed_char c - signed_char (CHR ''a'') + 26))
      else if signed_char c \<ge> signed_char (CHR ''0'') \<and> signed_char c \<le> signed_char (CHR ''9'')
      then Inr (of_int (signed_char c - signed_char (CHR ''0'') + 52))
      else if c = CHR ''+'' then Inr 62
      else if c = CHR ''/'' then Inr 63
      else Inl (Base64InvalidSymbol c))"

text \<open>Sequencing of computations that may throw.\<close>

fun sum_bind :: "'e + 'a \<Rightarrow> ('a \<Rightarrow> 'e + 'b) \<Rightarrow> 'e + 'b" where
  "sum_bind (Inl e) f = Inl e"
| "sum_bind (Inr x) f = f x"

function fromBase64_loop :: "string \<Rightarrow> nat \<Rightarrow> nat \<Rightarrow> u8 list \<Rightarrow> base64_error + u8 list" where
  "fromBase64_loop str n i retval =
     (if i < n then
        sum_bind (b64_decode (str ! i)) (\<lambda>by1.
        sum_bind (b64_decode (str ! (i + 1))) (\<lambda>by2.
        sum_bind (b64_decode (str ! (i + 2))) (\<lambda>by3.
        sum_bind (b64_decode (str ! (i + 3))) (\<lambda>by4.
          fromBase64_loop str n (i + 4)
            (retval @ [push_bit 2 by1 OR drop_bit 4 by2,
                       push_bit 4 (by2 AND 0xf) OR drop_bit 2 by3,
                       push_bit 6 (by3 AND 0x3) OR by4])))))
      else Inr retval)"
  by pat_completeness auto
termination by (relation "measure (\<lambda>(str, n, i, retval). n - i)") auto

declare fromBase64_loop.simps [simp del]

definition fromBase64Impl :: "string \<Rightarrow> base64_error + u8 list" where
  "fromBase64Impl str =
     (let strLen = length str in
      if strLen = 0 then Inr []
      else if strLen mod 4 \<noteq> 0 then Inl Base64IllegalLength
      else let n = (if last str = CHR ''='' then strLen - 4 else strLen) in
        sum_bind (fromBase64_loop str n 0 []) (\<lambda>retval.
          if drop (strLen - 2) str = ''=='' then
            sum_bind (b64_decode (str ! (strLen - 4))) (\<lambda>by1.
            sum_bind (b64_decode (str ! (strLen - 3))) (\<lambda>by2.
              Inr (retval @ [push_bit 2 by1 OR drop_bit 4 by2])))
          else if last str = CHR ''='' then
            sum_bind (b64_decode (str ! (strLen - 4))) (\<lambda>by1.
            sum_bind (b64_decode (str ! (strLen - 3))) (\<lambda>by2.
            sum_bind (b64_decode (str ! (strLen - 2))) (\<lambda>by3.
              Inr (retval @ [push_bit 2 by1 OR drop_bit 4 by2,
                             push_bit 4 (by2 AND 0xf) OR drop_bit 2 by3]))))
          else Inr retval))"

definition fromBase64 :: "string \<Rightarrow> bool \<Rightarrow> base64_error + u8 list" where
  "fromBase64 str skipSpaces =
     (if skipSpaces then fromBase64Impl (removeWhitespaces str) else fromBase64Impl str)"

definition base64_table :: string where
  "base64_table = ''ABCDEFGHIJKLMNOPQRSTUVWXYZabcdefghijklmnopqrstuvwxyz0123456789+/''"

text \<open>The main loop of toBase64 returns the text so far and the final value of i.\<close>

function toBase64_loop :: "u8 list \<Rightarrow> nat \<Rightarrow> string \<Rightarrow> nat \<times> string" where
  "toBase64_loop plainSeq i retval =
     (if i + 2 < length plainSeq then
        (let by1 = plainSeq ! i; by2 = plainSeq ! (i + 1); by3 = plainSeq ! (i + 2)
         in toBase64_loop plainSeq (i + 3)
              (retval @ [base64_table ! unat (drop_bit 2 by1),
                         base64_table ! unat (push_bit 4 (by1 AND 0x3) OR drop_bit 4 by2),
                         base64_table ! unat (push_bit 2 (by2 AND 0xf) OR drop_bit 6 by3),
                         base64_table ! unat (by3 AND 0x3f)]))
      else (i, retval))"
  by pat_completeness auto
termination by (relation "measure (\<lambda>(s, i, r). length s - i)") auto

declare toBase64_loop.simps [simp del]

definition toBase64 :: "u8 list \<Rightarrow> string" where
  "toBase64 plainSeq =
     (case toBase64_loop plainSeq 0 [] of (i, retval) \<Rightarrow>
        if i + 1 = length plainSeq then
          (let by1 = plainSeq ! i
           in retval @ [base64_table ! unat (drop_bit 2 by1),
                        base64_table ! unat (push_bit 4 (by1 AND 0x3))] @ ''=='')
        else if i + 2 = length plainSeq then
          (let by1 = plainSeq ! i; by2 = plainSeq ! (i + 1)
           in retval @ [base64_table ! unat (drop_bit 2 by1),
                        base64_table ! unat (push_bit 4 (by1 AND 0x3) OR drop_bit 4 by2),
                        base64_table ! unat (push_bit 2 (by2 AND 0xf))] @ ''='')
        else retval)"

section \<open>The alphabet\<close>

lemma b64_table_all:
  "list_all (\<lambda>n. b64_decode (base64_table ! n) = Inr (of_nat n) \<and>
      base64_table ! n \<noteq> CHR ''='' \<and> \<not> isspace (base64_table ! n)) [0..<64]"
  by code_simp

lemma b64_table:
  fixes v :: u8
  assumes "v < 64"
  shows "b64_decode (base64_table ! unat v) = Inr v"
    and "base64_table ! unat v \<noteq> CHR ''=''" and "\<not> isspace (base64_table ! unat v)"
proof -
  have "unat v < 64" using assms by (simp add: word_less_nat_alt)
  then show "b64_decode (base64_table ! unat v) = Inr v"
    and "base64_table ! unat v \<noteq> CHR ''=''" and "\<not> isspace (base64_table ! unat v)"
    using b64_table_all by (auto simp: list_all_iff)
qed

text \<open>A sextet is a byte whose two high bits are clear.\<close>

lemma sextet_less: "(v :: u8) < 64 \<longleftrightarrow> take_bit 6 v = v"
proof -
  have "take_bit 6 v = v \<longleftrightarrow> unat (take_bit 6 v) = unat v" by (metis unsigned_word_eqI)
  also have "\<dots> \<longleftrightarrow> unat v < 64"
    unfolding unsigned_take_bit_eq by (auto simp: take_bit_eq_mod mod_eq_self_iff_div_eq_0)
  finally show ?thesis by (simp add: word_less_nat_alt)
qed

declare push_bit_and [simp del] drop_bit_or [simp del]

lemma and_masks:
  "v AND 0x3 = take_bit 2 (v :: u8)" "v AND 0xF = take_bit 4 v" "v AND 0x3F = take_bit 6 v"
  by (simp_all add: take_bit_eq_mask mask_eq_exp_minus_1)

lemma sextets_less:
  fixes b1 b2 b3 :: u8
  shows "drop_bit 2 b1 < 64" "push_bit 4 (b1 AND 0x3) OR drop_bit 4 b2 < 64"
    "push_bit 2 (b2 AND 0xF) OR drop_bit 6 b3 < 64" "b3 AND 0x3F < 64"
    "push_bit 4 (b1 AND 0x3) < 64" "push_bit 2 (b2 AND 0xF) < 64"
  unfolding sextet_less and_masks by (rule u8_eqI; simp add: bit_simps bit_u8_ge)+

text \<open>Three bytes cut into four sextets and assembled again.\<close>

lemma sextets_join:
  fixes b1 b2 b3 :: u8
  defines "s2 \<equiv> push_bit 4 (b1 AND 0x3) OR drop_bit 4 b2"
    and "s3 \<equiv> push_bit 2 (b2 AND 0xF) OR drop_bit 6 b3"
  shows "push_bit 2 (drop_bit 2 b1) OR drop_bit 4 s2 = b1"
    and "push_bit 4 (s2 AND 0xF) OR drop_bit 2 s3 = b2"
    and "push_bit 6 (s3 AND 0x3) OR (b3 AND 0x3F) = b3"
  unfolding s2_def s3_def and_masks
  by (rule u8_eqI; simp add: bit_simps bit_u8_ge)+

lemma sextets_join_padded:
  fixes b1 b2 :: u8
  shows "push_bit 2 (drop_bit 2 b1) OR drop_bit 4 (push_bit 4 (b1 AND 0x3)) = b1"
    and "push_bit 4 ((push_bit 4 (b1 AND 0x3) OR drop_bit 4 b2) AND 0xF) OR
         drop_bit 2 (push_bit 2 (b2 AND 0xF)) = b2"
  unfolding and_masks by (rule u8_eqI; simp add: bit_simps bit_u8_ge)+

section \<open>Encoding as a function of the list\<close>

fun full3 :: "'a list \<Rightarrow> 'a list" where
  "full3 (a # b # c # bs) = a # b # c # full3 bs"
| "full3 _ = []"

fun rest3 :: "'a list \<Rightarrow> 'a list" where
  "rest3 (a # b # c # bs) = rest3 bs"
| "rest3 bs = bs"

lemma full3_rest3: "full3 bs @ rest3 bs = bs"
  by (induction bs rule: full3.induct) auto

lemma rest3_cases: "rest3 bs = [] \<or> (\<exists>a. rest3 bs = [a]) \<or> (\<exists>a b. rest3 bs = [a, b])"
  by (induction bs rule: rest3.induct) auto

definition b64_quad :: "u8 \<Rightarrow> u8 \<Rightarrow> u8 \<Rightarrow> string" where
  "b64_quad by1 by2 by3 =
     [base64_table ! unat (drop_bit 2 by1),
      base64_table ! unat (push_bit 4 (by1 AND 0x3) OR drop_bit 4 by2),
      base64_table ! unat (push_bit 2 (by2 AND 0xf) OR drop_bit 6 by3),
      base64_table ! unat (by3 AND 0x3f)]"

fun b64_quads :: "u8 list \<Rightarrow> string" where
  "b64_quads (a # b # c # bs) = b64_quad a b c @ b64_quads bs"
| "b64_quads _ = []"

definition b64_tail :: "u8 list \<Rightarrow> string" where
  "b64_tail bs = (case bs of
     [a] \<Rightarrow> [base64_table ! unat (drop_bit 2 a),
             base64_table ! unat (push_bit 4 (a AND 0x3)), CHR ''='', CHR ''='']
   | [a, b] \<Rightarrow> [base64_table ! unat (drop_bit 2 a),
                base64_table ! unat (push_bit 4 (a AND 0x3) OR drop_bit 4 b),
                base64_table ! unat (push_bit 2 (b AND 0xf)), CHR ''='']
   | _ \<Rightarrow> [])"

lemma toBase64_loop_quads:
  "toBase64_loop (pre @ bs) (length pre) r = (length pre + length (full3 bs), r @ b64_quads bs)"
proof (induction bs arbitrary: pre r rule: full3.induct)
  case (1 a b c bs)
  have "toBase64_loop (pre @ a # b # c # bs) (length pre) r =
        toBase64_loop (pre @ a # b # c # bs) (length pre + 3) (r @ b64_quad a b c)"
    by (subst toBase64_loop.simps) (simp add: nth_append b64_quad_def Let_def)
  also have "\<dots> = toBase64_loop ((pre @ [a, b, c]) @ bs) (length (pre @ [a, b, c])) (r @ b64_quad a b c)"
    by (simp add: numeral_3_eq_3)
  finally show ?case by (simp only: "1.IH") simp
qed (subst toBase64_loop.simps; simp)+

lemma toBase64_of_loop:
  assumes "toBase64_loop (F @ R) 0 [] = (length F, Q)"
    and "R = [] \<or> (\<exists>a. R = [a]) \<or> (\<exists>a b. R = [a, b])"
  shows "toBase64 (F @ R) = Q @ b64_tail R"
proof -
  have eval: "toBase64 (F @ R) = (case (length F, Q) of (i, retval) \<Rightarrow>
        if i + 1 = length (F @ R) then
          (let by1 = (F @ R) ! i
           in retval @ [base64_table ! unat (drop_bit 2 by1),
                        base64_table ! unat (push_bit 4 (by1 AND 0x3))] @ ''=='')
        else if i + 2 = length (F @ R) then
          (let by1 = (F @ R) ! i; by2 = (F @ R) ! (i + 1)
           in retval @ [base64_table ! unat (drop_bit 2 by1),
                        base64_table ! unat (push_bit 4 (by1 AND 0x3) OR drop_bit 4 by2),
                        base64_table ! unat (push_bit 2 (by2 AND 0xf))] @ ''='')
        else retval)"
    unfolding toBase64_def assms(1) by (rule refl)
  from assms(2) consider "R = []" | a where "R = [a]" | a b where "R = [a, b]" by blast
  then show ?thesis
    unfolding eval b64_tail_def Let_def by cases (simp_all add: nth_append)
qed

lemma toBase64_eq: "toBase64 bs = b64_quads bs @ b64_tail (rest3 bs)"
  using toBase64_of_loop[of "full3 bs" "rest3 bs" "b64_quads bs"]
    toBase64_loop_quads[of "[]" bs "[]"] rest3_cases[of bs]
  by (simp add: full3_rest3)

section \<open>Round trip\<close>

lemma fromBase64_loop_step:
  "fromBase64_loop (pre @ b64_quad a b c @ post) (length pre + 4 + k) (length pre) r =
   fromBase64_loop (pre @ b64_quad a b c @ post) (length pre + 4 + k) (length pre + 4)
     (r @ [a, b, c])"
  by (subst fromBase64_loop.simps)
    (simp add: nth_append b64_quad_def b64_table sextets_less sextets_join)

lemma fromBase64_loop_quads:
  "fromBase64_loop (pre @ b64_quads bs @ post) (length pre + length (b64_quads bs)) (length pre) r
     = Inr (r @ full3 bs)"
proof (induction bs arbitrary: pre r rule: full3.induct)
  case (1 a b c bs)
  have len: "length (b64_quad a b c) = 4" by (simp add: b64_quad_def)
  show ?case
    using fromBase64_loop_step[of pre a b c "b64_quads bs @ post" "length (b64_quads bs)" r]
      "1.IH"[of "pre @ b64_quad a b c" "r @ [a, b, c]"]
    by (simp add: len add.assoc)
qed (subst fromBase64_loop.simps; simp)+

lemma b64_quads_length: "length (b64_quads bs) mod 4 = 0"
  by (induction bs rule: b64_quads.induct) (auto simp: b64_quad_def)

lemma b64_quads_chars: "c \<in> set (b64_quads bs) \<Longrightarrow> c \<noteq> CHR ''='' \<and> \<not> isspace c"
  by (induction bs rule: b64_quads.induct) (auto simp: b64_quad_def b64_table sextets_less)

lemma fromBase64Impl_toBase64: "fromBase64Impl (toBase64 bs) = Inr bs"
proof -
  note loop = fromBase64_loop_quads[of "[]" bs, simplified]
  have "length (b64_quads bs) mod 4 = 0" by (rule b64_quads_length)
  then have m4: "length (b64_quads bs) mod 4 = 0" "(4 + length (b64_quads bs)) mod 4 = 0"
    "(length (b64_quads bs) + 4) mod 4 = 0"
    by presburger+
  consider "rest3 bs = []" | a where "rest3 bs = [a]" | a b where "rest3 bs = [a, b]"
    using rest3_cases by blast
  then show ?thesis
  proof cases
    case 1
    then have bs: "full3 bs = bs" using full3_rest3[of bs] by simp
    have enc: "toBase64 bs = b64_quads bs" by (simp add: toBase64_eq b64_tail_def 1)
    show ?thesis
    proof (cases "b64_quads bs = []")
      case True
      then have "bs = []" using bs by (cases bs rule: b64_quads.cases) (auto simp: b64_quad_def)
      moreover have "toBase64 bs = []" using enc True by simp
      ultimately show ?thesis by (simp add: fromBase64Impl_def)
    next
      case False
      have last: "last (b64_quads bs) \<noteq> CHR ''=''"
        using b64_quads_chars last_in_set[OF False] by blast
      then have "drop (length (b64_quads bs) - 2) (b64_quads bs) \<noteq> ''==''"
        by (metis last.simps last_drop drop_Nil drop_eq_Nil list.distinct(1) not_le)
      then show ?thesis
        using loop[of "[]" "[]"] False last m4 bs by (simp add: enc fromBase64Impl_def Let_def)
    qed
  next
    case (2 a)
    then have bs: "full3 bs @ [a] = bs" using full3_rest3[of bs] by simp
    show ?thesis
      using loop[of _ "[]"] m4 bs
      by (simp add: toBase64_eq b64_tail_def 2 fromBase64Impl_def Let_def nth_append
          b64_table sextets_less sextets_join_padded)
  next
    case (3 a b)
    then have bs: "full3 bs @ [a, b] = bs" using full3_rest3[of bs] by simp
    show ?thesis
      using loop[of _ "[]"] m4 bs
      by (simp add: toBase64_eq b64_tail_def 3 fromBase64Impl_def Let_def nth_append
          b64_table sextets_less sextets_join sextets_join_padded)
  qed
qed

lemma toBase64_no_space: "removeWhitespaces (toBase64 bs) = toBase64 bs"
proof (rule removeWhitespaces_id)
  have pad: "\<not> isspace (CHR ''='')" by code_simp
  have "\<not> isspace c" if "c \<in> set (b64_tail (rest3 xs))" for c xs
    using that rest3_cases[of xs]
    by (auto simp: b64_tail_def b64_table sextets_less pad)
  then show "\<forall>c \<in> set (toBase64 bs). \<not> isspace c"
    using b64_quads_chars by (auto simp: toBase64_eq)
qed

text \<open>
  C14: decoding the base64 text of any byte string gives the byte string back, whether or
  not white space is skipped.
\<close>

theorem fromBase64_toBase64: "fromBase64 (toBase64 bs) skipSpaces = Inr bs"
  by (simp add: fromBase64_def toBase64_no_space fromBase64Impl_toBase64)

section \<open>What the decoder accepts\<close>

lemma base64_table_codes:
  "map char_code base64_table = [65..<91] @ [97..<123] @ [48..<58] @ [43, 47]"
  by code_simp

lemma b64_decode_codes:
  assumes "b64_decode c = Inr v"
  shows "65 \<le> char_code c \<and> char_code c \<le> 90 \<or> 97 \<le> char_code c \<and> char_code c \<le> 122 \<or>
      48 \<le> char_code c \<and> char_code c \<le> 57 \<or> char_code c = 43 \<or> char_code c = 47"
proof -
  have codes: "signed_char (CHR ''A'') = 65" "signed_char (CHR ''Z'') = 90"
    "signed_char (CHR ''a'') = 97" "signed_char (CHR ''z'') = 122"
    "signed_char (CHR ''0'') = 48" "signed_char (CHR ''9'') = 57"
    "char_code (CHR ''+'') = 43" "char_code (CHR ''/'') = 47" by code_simp+
  show ?thesis
    using assms char_code_less[of c] unfolding b64_decode_def codes
    by (auto simp: signed_char_def codes split: if_splits)
qed

lemma b64_decode_Inr:
  assumes "b64_decode c = Inr v"
  shows "v < 64" and "base64_table ! unat v = c"
proof -
  have "char_code c \<in> set (map char_code base64_table)"
    using b64_decode_codes[OF assms] unfolding base64_table_codes
    by (auto simp only: set_append set_upt atLeastLessThan_iff Un_iff list.set insert_iff)
  then have "c \<in> set base64_table" by (auto simp: char_code_inject)
  moreover have "length base64_table = 64" by (simp add: base64_table_def)
  ultimately obtain n where n: "n < 64" "c = base64_table ! n" by (metis in_set_conv_nth)
  then have "b64_decode c = Inr (of_nat n)" using b64_table_all by (auto simp: list_all_iff)
  then have "v = of_nat n" using assms by simp
  moreover have "unat (of_nat n :: u8) = n" using n(1) by (simp add: unat_of_nat)
  ultimately show "v < 64" and "base64_table ! unat v = c"
    using n by (simp_all add: word_less_nat_alt)
qed

lemma sextets_split:
  fixes v1 v2 v3 v4 :: u8
  assumes "v1 < 64" "v2 < 64" "v3 < 64" "v4 < 64"
  defines "b1 \<equiv> push_bit 2 v1 OR drop_bit 4 v2"
    and "b2 \<equiv> push_bit 4 (v2 AND 0xf) OR drop_bit 2 v3"
    and "b3 \<equiv> push_bit 6 (v3 AND 0x3) OR v4"
  shows "drop_bit 2 b1 = v1" "push_bit 4 (b1 AND 0x3) OR drop_bit 4 b2 = v2"
    "push_bit 2 (b2 AND 0xF) OR drop_bit 6 b3 = v3" "b3 AND 0x3F = v4"
proof -
  have high: "\<not> bit v 6 \<and> \<not> bit v 7" if "v < 64" for v :: u8
  proof -
    have "take_bit 6 v = v" using that sextet_less[of v] by simp
    then have "bit (take_bit 6 v) n = bit v n" for n by simp
    from this[of 6] this[of 7] show ?thesis by (simp add: bit_take_bit_iff)
  qed
  note hs = assms(1-4)[THEN high]
  show "drop_bit 2 b1 = v1" "push_bit 4 (b1 AND 0x3) OR drop_bit 4 b2 = v2"
    "push_bit 2 (b2 AND 0xF) OR drop_bit 6 b3 = v3" "b3 AND 0x3F = v4"
    unfolding b1_def b2_def b3_def and_masks
    by (rule u8_eqI; simp add: bit_simps bit_u8_ge hs)+
qed

lemma sum_bind_Inr_iff: "sum_bind x f = Inr y \<longleftrightarrow> (\<exists>v. x = Inr v \<and> f v = Inr y)"
  by (cases x) auto

lemma drop_4:
  "i + 4 \<le> length xs \<Longrightarrow>
   drop i xs = xs ! i # xs ! (i + 1) # xs ! (i + 2) # xs ! (i + 3) # drop (i + 4) xs"
  by (simp add: Cons_nth_drop_Suc eval_nat_numeral)

lemma take_4: "4 \<le> n \<Longrightarrow> take n (a # b # c # d # xs) = a # b # c # d # take (n - 4) xs"
  by (cases n; simp add: take_Cons' eval_nat_numeral)

lemma fromBase64_loop_Inr:
  assumes "fromBase64_loop str n i r = Inr out" and "n \<le> length str" and "4 dvd (n - i)"
  shows "\<exists>bs. out = r @ bs \<and> b64_quads bs = take (n - i) (drop i str) \<and> rest3 bs = []"
  using assms
proof (induction str n i r rule: fromBase64_loop.induct)
  case (1 str n i r)
  show ?case
  proof (cases "i < n")
    case False
    then show ?thesis
      using "1.prems" by (subst (asm) fromBase64_loop.simps) (auto intro!: exI[of _ "[]"])
  next
    case True
    then have i4: "i + 4 \<le> n" using "1.prems"(3) by (metis dvd_imp_le less_diff_conv2
          add.commute le_diff_conv2 less_imp_le_nat zero_less_diff)
    obtain v1 v2 v3 v4 where v: "b64_decode (str ! i) = Inr v1"
        "b64_decode (str ! (i + 1)) = Inr v2" "b64_decode (str ! (i + 2)) = Inr v3"
        "b64_decode (str ! (i + 3)) = Inr v4"
      and rec: "fromBase64_loop str n (i + 4)
            (r @ [push_bit 2 v1 OR drop_bit 4 v2, push_bit 4 (v2 AND 0xf) OR drop_bit 2 v3,
                  push_bit 6 (v3 AND 0x3) OR v4]) = Inr out"
      using "1.prems"(1) True by (subst (asm) fromBase64_loop.simps) (auto simp: sum_bind_Inr_iff)
    have "4 dvd n - (i + 4)" using "1.prems"(3) i4 by (metis dvd_diff_nat dvd_refl diff_diff_left)
    from "1.IH"[OF True rec "1.prems"(2) this] obtain bs where
      bs: "out = (r @ [push_bit 2 v1 OR drop_bit 4 v2, push_bit 4 (v2 AND 0xf) OR drop_bit 2 v3,
                  push_bit 6 (v3 AND 0x3) OR v4]) @ bs"
        "b64_quads bs = take (n - (i + 4)) (drop (i + 4) str)" "rest3 bs = []" by blast
    have "take (n - i) (drop i str) =
        [str ! i, str ! (i + 1), str ! (i + 2), str ! (i + 3)] @ take (n - (i + 4)) (drop (i + 4) str)"
      using drop_4[of i str] i4 "1.prems"(2) take_4[of "n - i"] by (simp add: le_diff_conv2)
    then show ?thesis
      using bs v[THEN b64_decode_Inr(2)] sextets_split[OF v[THEN b64_decode_Inr(1)]]
      by (intro exI[of _ "[push_bit 2 v1 OR drop_bit 4 v2, push_bit 4 (v2 AND 0xf) OR drop_bit 2 v3,
                  push_bit 6 (v3 AND 0x3) OR v4] @ bs"]) (simp add: b64_quad_def)
  qed
qed

text \<open>
  without padding the decoder is injective: a text it accepts that does not end in
  the padding character is exactly the text that toBase64 produces for the result.
\<close>

theorem fromBase64_canonical:
  assumes "fromBase64 str False = Inr bs" and "str \<noteq> []" and "last str \<noteq> CHR ''=''"
  shows "toBase64 bs = str"
proof -
  have m4: "length str mod 4 = 0"
    using assms by (auto simp: fromBase64_def fromBase64Impl_def Let_def split: if_splits)
  have no_pad: "drop (length str - 2) str \<noteq> ''==''"
    using assms(2,3) by (metis last.simps last_drop drop_Nil drop_eq_Nil list.distinct(1) not_le)
  have "fromBase64_loop str (length str) 0 [] = Inr bs"
    using assms m4 no_pad
    by (auto simp: fromBase64_def fromBase64Impl_def Let_def sum_bind_Inr_iff split: if_splits)
  from fromBase64_loop_Inr[OF this] m4 have "b64_quads bs = str" "rest3 bs = []"
    by (auto simp: mod_eq_0_iff_dvd)
  then show ?thesis by (simp add: toBase64_eq b64_tail_def)
qed

theorem fromBase64_canonical_witness:
  "fromBase64 ''QUJD'' False = Inr [65, 66, 67] \<and> toBase64 [65, 66, 67] = ''QUJD''"
proof -
  have "fromBase64 ''QUJD'' False = Inr [65, 66, 67]" by code_simp
  with fromBase64_canonical[OF this] show ?thesis by simp
qed

text \<open>With padding it is not: bits of the last symbol that carry no data are ignored.\<close>

lemma fromBase64_padding_bits: "fromBase64 ''QQ=='' False = fromBase64 ''QR=='' False"
  by code_simp

end
