(* ===== verification/Md5.thy ===== *)
theory Md5
  imports Bytes
begin

text \<open>
  lib/utils/md5.cpp and include/nhope/utils/md5.h: the MD5 digest (RFC 1321). All
  arithmetic is on 32-bit words and wraps. The names f, g, h, i, ff, gg, hh, ii of the source carry the
  prefix md5_. The rounds are written out step by step in the source's order. A std::memcpy that
  left its array would be undefined behaviour: update returns None there, and
  md5_update_repr shows that it never does.
\<close>

definition md5_f :: "u32 \<Rightarrow> u32 \<Rightarrow> u32 \<Rightarrow> u32" where
  "md5_f x y z = (x AND y) OR (NOT x AND z)"

definition md5_g :: "u32 \<Rightarrow> u32 \<Rightarrow> u32 \<Rightarrow> u32" where
  "md5_g x y z = (x AND z) OR (y AND NOT z)"

definition md5_h :: "u32 \<Rightarrow> u32 \<Rightarrow> u32 \<Rightarrow> u32" where
  "md5_h x y z = x XOR y XOR z"

definition md5_i :: "u32 \<Rightarrow> u32 \<Rightarrow> u32 \<Rightarrow> u32" where
  "md5_i x y z = y XOR (x OR NOT z)"

definition rotateLeft :: "u32 \<Rightarrow> nat \<Rightarrow> u32" where
  "rotateLeft x n = push_bit n x OR drop_bit (32 - n) x"

text \<open>The transformations return the new value of their reference parameter a.\<close>

definition md5_ff :: "u32 \<Rightarrow> u32 \<Rightarrow> u32 \<Rightarrow> u32 \<Rightarrow> u32 \<Rightarrow> nat \<Rightarrow> u32 \<Rightarrow> u32" where
  "md5_ff a b c d x s ac = rotateLeft (a + (md5_f b c d + x + ac)) s + b"

definition md5_gg :: "u32 \<Rightarrow> u32 \<Rightarrow> u32 \<Rightarrow> u32 \<Rightarrow> u32 \<Rightarrow> nat \<Rightarrow> u32 \<Rightarrow> u32" where
  "md5_gg a b c d x s ac = rotateLeft (a + (md5_g b c d + x + ac)) s + b"

definition md5_hh :: "u32 \<Rightarrow> u32 \<Rightarrow> u32 \<Rightarrow> u32 \<Rightarrow> u32 \<Rightarrow> nat \<Rightarrow> u32 \<Rightarrow> u32" where
  "md5_hh a b c d x s ac = rotateLeft (a + (md5_h b c d + x + ac)) s + b"

definition md5_ii :: "u32 \<Rightarrow> u32 \<Rightarrow> u32 \<Rightarrow> u32 \<Rightarrow> u32 \<Rightarrow> nat \<Rightarrow> u32 \<Rightarrow> u32" where
  "md5_ii a b c d x s ac = rotateLeft (a + (md5_i b c d + x + ac)) s + b"

text \<open>The shift amounts s11 ... s44.\<close>

definition md5_round1 :: "u32 list \<Rightarrow> u32 \<times> u32 \<times> u32 \<times> u32 \<Rightarrow> u32 \<times> u32 \<times> u32 \<times> u32" where
  "md5_round1 x abcd = (case abcd of (a, b, c, d) \<Rightarrow>
     let s11 = 7; s12 = 12; s13 = 17; s14 = 22;
         a = md5_ff a b c d (x ! 0) s11 0xd76aa478;
         d = md5_ff d a b c (x ! 1) s12 0xe8c7b756;
         c = md5_ff c d a b (x ! 2) s13 0x242070db;
         b = md5_ff b c d a (x ! 3) s14 0xc1bdceee;
         a = md5_ff a b c d (x ! 4) s11 0xf57c0faf;
         d = md5_ff d a b c (x ! 5) s12 0x4787c62a;
         c = md5_ff c d a b (x ! 6) s13 0xa8304613;
         b = md5_ff b c d a (x ! 7) s14 0xfd469501;
         a = md5_ff a b c d (x ! 8) s11 0x698098d8;
         d = md5_ff d a b c (x ! 9) s12 0x8b44f7af;
         c = md5_ff c d a b (x ! 10) s13 0xffff5bb1;
         b = md5_ff b c d a (x ! 11) s14 0x895cd7be;
         a = md5_ff a b c d (x ! 12) s11 0x6b901122;
         d = md5_ff d a b c (x ! 13) s12 0xfd987193;
         c = md5_ff c d a b (x ! 14) s13 0xa679438e;
         b = md5_ff b c d a (x ! 15) s14 0x49b40821
     in (a, b, c, d))"

definition md5_round2 :: "u32 list \<Rightarrow> u32 \<times> u32 \<times> u32 \<times> u32 \<Rightarrow> u32 \<times> u32 \<times> u32 \<times> u32" where
  "md5_round2 x abcd = (case abcd of (a, b, c, d) \<Rightarrow>
     let s21 = 5; s22 = 9; s23 = 14; s24 = 20;
         a = md5_gg a b c d (x ! 1) s21 0xf61e2562;
         d = md5_gg d a b c (x ! 6) s22 0xc040b340;
         c = md5_gg c d a b (x ! 11) s23 0x265e5a51;
         b = md5_gg b c d a (x ! 0) s24 0xe9b6c7aa;
         a = md5_gg a b c d (x ! 5) s21 0xd62f105d;
         d = md5_gg d a b c (x ! 10) s22 0x2441453;
         c = md5_gg c d a b (x ! 15) s23 0xd8a1e681;
         b = md5_gg b c d a (x ! 4) s24 0xe7d3fbc8;
         a = md5_gg a b c d (x ! 9) s21 0x21e1cde6;
         d = md5_gg d a b c (x ! 14) s22 0xc33707d6;
         c = md5_gg c d a b (x ! 3) s23 0xf4d50d87;
         b = md5_gg b c d a (x ! 8) s24 0x455a14ed;
         a = md5_gg a b c d (x ! 13) s21 0xa9e3e905;
         d = md5_gg d a b c (x ! 2) s22 0xfcefa3f8;
         c = md5_gg c d a b (x ! 7) s23 0x676f02d9;
         b = md5_gg b c d a (x ! 12) s24 0x8d2a4c8a
     in (a, b, c, d))"

definition md5_round3 :: "u32 list \<Rightarrow> u32 \<times> u32 \<times> u32 \<times> u32 \<Rightarrow> u32 \<times> u32 \<times> u32 \<times> u32" where
  "md5_round3 x abcd = (case abcd of (a, b, c, d) \<Rightarrow>
     let s31 = 4; s32 = 11; s33 = 16; s34 = 23;
         a = md5_hh a b c d (x ! 5) s31 0xfffa3942;
         d = md5_hh d a b c (x ! 8) s32 0x8771f681;
         c = md5_hh c d a b (x ! 11) s33 0x6d9d6122;
         b = md5_hh b c d a (x ! 14) s34 0xfde5380c;
         a = md5_hh a b c d (x ! 1) s31 0xa4beea44;
         d = md5_hh d a b c (x ! 4) s32 0x4bdecfa9;
         c = md5_hh c d a b (x ! 7) s33 0xf6bb4b60;
         b = md5_hh b c d a (x ! 10) s34 0xbebfbc70;
         a = md5_hh a b c d (x ! 13) s31 0x289b7ec6;
         d = md5_hh d a b c (x ! 0) s32 0xeaa127fa;
         c = md5_hh c d a b (x ! 3) s33 0xd4ef3085;
         b = md5_hh b c d a (x ! 6) s34 0x4881d05;
         a = md5_hh a b c d (x ! 9) s31 0xd9d4d039;
         d = md5_hh d a b c (x ! 12) s32 0xe6db99e5;
         c = md5_hh c d a b (x ! 15) s33 0x1fa27cf8;
         b = md5_hh b c d a (x ! 2) s34 0xc4ac5665
     in (a, b, c, d))"

definition md5_round4 :: "u32 list \<Rightarrow> u32 \<times> u32 \<times> u32 \<times> u32 \<Rightarrow> u32 \<times> u32 \<times> u32 \<times> u32" where
  "md5_round4 x abcd = (case abcd of (a, b, c, d) \<Rightarrow>
     let s41 = 6; s42 = 10; s43 = 15; s44 = 21;
         a = md5_ii a b c d (x ! 0) s41 0xf4292244;
         d = md5_ii d a b c (x ! 7) s42 0x432aff97;
         c = md5_ii c d a b (x ! 14) s43 0xab9423a7;
         b = md5_ii b c d a (x ! 5) s44 0xfc93a039;
         a = md5_ii a b c d (x ! 12) s41 0x655b59c3;
         d = md5_ii d a b c (x ! 3) s42 0x8f0ccc92;
         c = md5_ii c d a b (x ! 10) s43 0xffeff47d;
         b = md5_ii b c d a (x ! 1) s44 0x85845dd1;
         a = md5_ii a b c d (x ! 8) s41 0x6fa87e4f;
         d = md5_ii d a b c (x ! 15) s42 0xfe2ce6e0;
         c = md5_ii c d a b (x ! 6) s43 0xa3014314;
         b = md5_ii b c d a (x ! 13) s44 0x4e0811a1;
         a = md5_ii a b c d (x ! 4) s41 0xf7537e82;
         d = md5_ii d a b c (x ! 11) s42 0xbd3af235;
         c = md5_ii c d a b (x ! 2) s43 0x2ad7d2bb;
         b = md5_ii b c d a (x ! 9) s44 0xeb86d391
     in (a, b, c, d))"

text \<open>encode and decode between bytes and words, by recursion on the span as in the source.\<close>

fun md5_encode :: "u32 list \<Rightarrow> u8 list" where
  "md5_encode [] = []"
| "md5_encode [w] = toBytes32 w Little"
| "md5_encode (w # ws) = toBytes32 w Little @ md5_encode ws"

function md5_decode :: "u8 list \<Rightarrow> u32 list" where
  "md5_decode input =
     (if length input \<le> 4 then [fromBytes32 input Little]
      else fromBytes32 (take 4 input) Little # md5_decode (drop 4 input))"
  by pat_completeness auto
termination by (relation "measure length") auto

declare md5_decode.simps [simp del]

definition md5_transform :: "u32 list \<Rightarrow> u8 list \<Rightarrow> u32 list" where
  "md5_transform state block =
     (let x = md5_decode block
      in case md5_round4 x (md5_round3 x (md5_round2 x (md5_round1 x
           (state ! 0, state ! 1, state ! 2, state ! 3)))) of
           (a, b, c, d) \<Rightarrow> [state ! 0 + a, state ! 1 + b, state ! 2 + c, state ! 3 + d])"

record md5_context =
  md5_state :: "u32 list"
  md5_count :: u64
  md5_buffer :: "u8 list"

definition md5_Context :: md5_context where
  "md5_Context = \<lparr>md5_state = [0x67452301, 0xefcdab89, 0x98badcfe, 0x10325476],
     md5_count = 0, md5_buffer = replicate 64 0\<rparr>"

definition md5_reset :: "md5_context \<Rightarrow> md5_context" where
  "md5_reset ctx = md5_Context"

definition md5_index :: "md5_context \<Rightarrow> nat" where
  "md5_index ctx = unat (drop_bit 3 (md5_count ctx) AND 0x3f)"

text \<open>The loop that consumes whole blocks; it returns the new state and the remaining data.\<close>

function md5_blocks_loop :: "u32 list \<Rightarrow> u8 list \<Rightarrow> u32 list \<times> u8 list" where
  "md5_blocks_loop state data =
     (if length data \<ge> 64
      then md5_blocks_loop (md5_transform state (take 64 data)) (drop 64 data)
      else (state, data))"
  by pat_completeness auto
termination by (relation "measure (\<lambda>(s, d). length d)") auto

declare md5_blocks_loop.simps [simp del]

definition md5_update :: "md5_context \<Rightarrow> u8 list \<Rightarrow> md5_context option" where
  "md5_update ctx data =
     (let index = md5_index ctx;
          ctx = ctx\<lparr>md5_count := md5_count ctx + push_bit 3 (of_nat (length data))\<rparr>;
          partLen = 64 - index
      in Option.bind
        (if length data \<ge> partLen
         then Option.bind (memcpy (md5_buffer ctx) index (take partLen data)) (\<lambda>buffer.
           case md5_blocks_loop (md5_transform (md5_state ctx) buffer) (drop partLen data) of
             (state, rest) \<Rightarrow> Some (ctx\<lparr>md5_buffer := buffer, md5_state := state\<rparr>, rest, 0))
         else Some (ctx, data, index))
        (\<lambda>(ctx, data, index).
          if data \<noteq> []
          then Option.bind (memcpy (md5_buffer ctx) index data)
                 (\<lambda>buffer. Some (ctx\<lparr>md5_buffer := buffer\<rparr>))
          else Some ctx))"

definition md5_padding :: "u8 list" where
  "md5_padding = 0x80 # replicate 63 0"

definition md5_digest :: "md5_context \<Rightarrow> (u8 list \<times> md5_context) option" where
  "md5_digest ctx =
     (let bits = toBytes64 (md5_count ctx) Little;
          index = md5_index ctx;
          padLen = (if index < 56 then 56 - index else 120 - index)
      in Option.bind (md5_update ctx (take padLen md5_padding)) (\<lambda>ctx.
         Option.bind (md5_update ctx bits) (\<lambda>ctx.
           Some (md5_encode (md5_state ctx), md5_reset ctx))))"

definition md5_digest_data :: "u8 list \<Rightarrow> u8 list option" where
  "md5_digest_data data =
     Option.bind (md5_update md5_Context data) (\<lambda>ctx. map_option fst (md5_digest ctx))"

text \<open>
  A std::istream: the bytes that are still to come, whether they end in end-of-file or in
  a device error, and the stream's state. istream::read delivers as many of the requested
  bytes as there are and leaves the good state when there are fewer.
\<close>

datatype stream_state = Good | Eof | Bad

record istream =
  is_data :: "u8 list"
  is_ends_in_error :: bool
  is_state :: stream_state

definition md5_read :: "istream \<Rightarrow> nat \<Rightarrow> u8 list \<times> istream" where
  "md5_read stream n =
     (if is_state stream \<noteq> Good then ([], stream)
      else if n \<le> length (is_data stream)
      then (take n (is_data stream), stream\<lparr>is_data := drop n (is_data stream)\<rparr>)
      else (is_data stream, stream\<lparr>is_data := [],
              is_state := (if is_ends_in_error stream then Bad else Eof)\<rparr>))"

datatype md5_error = Md5StreamError | Md5OpenError | Md5MemoryError

function md5_stream_loop :: "md5_context \<Rightarrow> istream \<Rightarrow> (md5_context \<times> istream) option" where
  "md5_stream_loop md5 stream =
     (case md5_read stream 4096 of (buf, stream') \<Rightarrow>
        if buf = [] then Some (md5, stream')
        else case md5_update md5 buf of None \<Rightarrow> None
             | Some md5' \<Rightarrow> md5_stream_loop md5' stream')"
  by pat_completeness auto
termination
  by (relation "measure (\<lambda>(m, s). length (is_data s))")
    (auto simp: md5_read_def split: if_splits)

declare md5_stream_loop.simps [simp del]

definition md5_digest_stream :: "istream \<Rightarrow> md5_error + u8 list" where
  "md5_digest_stream stream =
     (case md5_stream_loop md5_Context stream of
        None \<Rightarrow> Inl Md5MemoryError
      | Some (md5, stream') \<Rightarrow>
          if is_state stream' \<noteq> Eof then Inl Md5StreamError
          else (case md5_digest md5 of None \<Rightarrow> Inl Md5MemoryError | Some (d, _) \<Rightarrow> Inr d))"

text \<open>The file system is outside the model: open gives the stream, or None.\<close>

definition md5_fileDigest :: "(string \<Rightarrow> istream option) \<Rightarrow> string \<Rightarrow> md5_error + u8 list" where
  "md5_fileDigest open_file path =
     (case open_file path of None \<Rightarrow> Inl Md5OpenError | Some stream \<Rightarrow> md5_digest_stream stream)"

section \<open>The reference: RFC 1321 on the whole message\<close>

definition md5_pad :: "nat \<Rightarrow> u8 list" where
  "md5_pad n = 0x80 # replicate ((119 - n mod 64) mod 64) 0 @ toBytes64 (of_nat (8 * n)) Little"

function chunks64 :: "'a list \<Rightarrow> 'a list list" where
  "chunks64 xs = (if length xs \<ge> 64 then take 64 xs # chunks64 (drop 64 xs) else [])"
  by pat_completeness auto
termination by (relation "measure length") auto

declare chunks64.simps [simp del]

definition md5_reference :: "u8 list \<Rightarrow> u8 list" where
  "md5_reference msg = md5_encode
     (foldl md5_transform [0x67452301, 0xefcdab89, 0x98badcfe, 0x10325476]
        (chunks64 (msg @ md5_pad (length msg))))"

section \<open>The block loop\<close>

lemma md5_blocks_loop_small [simp]: "length d < 64 \<Longrightarrow> md5_blocks_loop s d = (s, d)"
  by (simp add: md5_blocks_loop.simps)

lemma md5_blocks_loop_step:
  "64 \<le> length d \<Longrightarrow> md5_blocks_loop s d = md5_blocks_loop (md5_transform s (take 64 d)) (drop 64 d)"
  by (simp add: md5_blocks_loop.simps[of s d])

lemma md5_blocks_loop_append:
  "md5_blocks_loop s (xs @ ys) =
     (case md5_blocks_loop s xs of (s', rest) \<Rightarrow> md5_blocks_loop s' (rest @ ys))"
proof (induction s xs rule: md5_blocks_loop.induct)
  case (1 s xs)
  then show ?case
    by (cases "64 \<le> length xs") (simp_all add: md5_blocks_loop_step)
qed

lemma md5_blocks_loop_rest: "length (snd (md5_blocks_loop s xs)) = length xs mod 64"
proof (induction s xs rule: md5_blocks_loop.induct)
  case (1 s xs)
  then show ?case
    by (cases "64 \<le> length xs") (simp_all add: md5_blocks_loop_step le_mod_geq)
qed

lemma md5_blocks_loop_chunks: "fst (md5_blocks_loop s xs) = foldl md5_transform s (chunks64 xs)"
proof (induction s xs rule: md5_blocks_loop.induct)
  case (1 s xs)
  then show ?case
    by (cases "64 \<le> length xs") (simp_all add: md5_blocks_loop_step chunks64.simps[of xs])
qed

section \<open>The context after a message\<close>

text \<open>
  md5_repr ctx msg: the context has consumed exactly msg. The state has absorbed its
  whole blocks, the buffer starts with the rest, the counter is its length in bits.
\<close>

definition md5_absorbed :: "u8 list \<Rightarrow> u32 list \<times> u8 list" where
  "md5_absorbed msg = md5_blocks_loop (md5_state md5_Context) msg"

definition md5_repr :: "md5_context \<Rightarrow> u8 list \<Rightarrow> bool" where
  "md5_repr ctx msg \<longleftrightarrow>
     length (md5_buffer ctx) = 64 \<and> md5_count ctx = of_nat (8 * length msg) \<and>
     md5_absorbed msg = (md5_state ctx, take (length msg mod 64) (md5_buffer ctx))"

lemma md5_repr_init: "md5_repr md5_Context []"
  by (simp add: md5_repr_def md5_absorbed_def md5_Context_def)

lemma md5_index_count:
  assumes "md5_count ctx = of_nat (8 * n)"
  shows "md5_index ctx = n mod 64"
proof -
  have and63: "w AND 0x3f = take_bit 6 w" for w :: u64
    by (simp add: take_bit_eq_mask mask_eq_exp_minus_1)
  have "unat (md5_count ctx) = 8 * n mod 2 ^ 64"
    unfolding assms by (simp add: unat_of_nat del: of_nat_mult)
  then have "md5_index ctx = take_bit 6 (drop_bit 3 (8 * n mod 2 ^ 64 :: nat))"
    unfolding md5_index_def and63 unsigned_take_bit_eq unat_drop_bit_eq by simp
  also have "\<dots> = (8 * n mod 2 ^ 64) div 8 mod 64"
    by (simp add: take_bit_eq_mod drop_bit_eq_div)
  also have "8 * n mod 2 ^ 64 = 8 * (n mod 2 ^ 61)"
    by (simp add: mult_mod_right)
  finally show ?thesis by (simp add: mod_mod_cancel)
qed

lemma md5_count_add:
  "of_nat (8 * n) + push_bit 3 (of_nat k) = (of_nat (8 * (n + k)) :: u64)"
  by (simp add: push_bit_eq_mult algebra_simps)

text \<open>
  update never writes outside its buffer, and absorbs its data behind what the context has
  already absorbed.
\<close>

text \<open>The context before an update: how much of its buffer is used, and what was absorbed.\<close>

lemma md5_repr_parts:
  assumes "md5_repr ctx msg"
  defines "m \<equiv> length msg mod 64"
  defines "t \<equiv> take m (md5_buffer ctx)"
  shows "length (md5_buffer ctx) = 64" and "m < 64" and "length t = m" and "md5_index ctx = m"
    and "md5_count ctx + push_bit 3 (of_nat (length data)) = of_nat (8 * length (msg @ data))"
    and "md5_absorbed (msg @ data) = md5_blocks_loop (md5_state ctx) (t @ data)"
proof -
  have buf: "length (md5_buffer ctx) = 64" and cnt: "md5_count ctx = of_nat (8 * length msg)"
    and abs: "md5_absorbed msg = (md5_state ctx, t)"
    using assms(1) by (auto simp: md5_repr_def m_def t_def)
  show "length (md5_buffer ctx) = 64" "m < 64" "length t = m" using buf by (auto simp: m_def t_def)
  show "md5_index ctx = m" using md5_index_count[OF cnt] by (simp add: m_def)
  show "md5_count ctx + push_bit 3 (of_nat (length data)) = of_nat (8 * length (msg @ data))"
    unfolding cnt md5_count_add by simp
  show "md5_absorbed (msg @ data) = md5_blocks_loop (md5_state ctx) (t @ data)"
    using abs unfolding md5_absorbed_def by (subst md5_blocks_loop_append) simp
qed

lemma md5_update_fills:
  assumes r: "md5_repr ctx msg" and len: "64 - length msg mod 64 \<le> length data"
  shows "\<exists>ctx'. md5_update ctx data = Some ctx' \<and> md5_repr ctx' (msg @ data)"
proof -
  define m where "m = length msg mod 64"
  define t where "t = take m (md5_buffer ctx)"
  note p = md5_repr_parts[OF r, folded m_def, folded t_def]
  define b where "b = t @ take (64 - m) data"
  have b: "length b = 64" using len p(2,3) by (simp add: b_def m_def[symmetric])
  have cp: "memcpy (md5_buffer ctx) m (take (64 - m) data) = Some b"
    using len p(1,2) by (simp add: memcpy_def b_def t_def min_def m_def[symmetric])
  obtain s rest where loop: "md5_blocks_loop (md5_transform (md5_state ctx) b) (drop (64 - m) data) = (s, rest)"
    by fastforce
  have absd: "md5_absorbed (msg @ data) = (s, rest)"
    unfolding p(6) using len p(2,3) loop by (simp add: md5_blocks_loop_step b_def m_def[symmetric])
  have rest: "length rest = length (msg @ data) mod 64"
    using md5_blocks_loop_rest[of "md5_state md5_Context" "msg @ data"] absd
    by (simp add: md5_absorbed_def)
  have "rest \<noteq> [] \<Longrightarrow> memcpy b 0 rest = Some (rest @ drop (length rest) b)"
    using rest b by (simp add: memcpy_def)
  then show ?thesis using cp loop absd rest b p(4,5) len
    by (cases "rest = []") (simp_all add: md5_update_def md5_repr_def Let_def m_def[symmetric])
qed

lemma md5_update_repr:
  assumes r: "md5_repr ctx msg"
  shows "\<exists>ctx'. md5_update ctx data = Some ctx' \<and> md5_repr ctx' (msg @ data)"
proof (cases "64 - length msg mod 64 \<le> length data")
  case False
  define m where "m = length msg mod 64"
  define t where "t = take m (md5_buffer ctx)"
  note p = md5_repr_parts[OF r, folded m_def, folded t_def]
  have absd: "md5_absorbed (msg @ data) = (md5_state ctx, t @ data)"
    unfolding p(6) using p(3) False by (simp add: m_def[symmetric])
  have len: "m + length data = length (msg @ data) mod 64"
    using md5_blocks_loop_rest[of "md5_state md5_Context" "msg @ data"] absd p(3)
    by (simp add: md5_absorbed_def)
  have "memcpy (md5_buffer ctx) m data = Some (t @ data @ drop (m + length data) (md5_buffer ctx))"
    using False p(1) by (simp add: memcpy_def t_def m_def[symmetric])
  then show ?thesis
    using False absd len p t_def
    by (auto simp: md5_update_def md5_repr_def Let_def m_def[symmetric])
qed (rule md5_update_fills[OF r])

section \<open>The digest\<close>

lemma md5_padLen_pad:
  fixes n :: nat
  defines "m \<equiv> n mod 64"
  shows "take (if m < 56 then 56 - m else 120 - m) md5_padding @ toBytes64 (of_nat (8 * n)) Little
           = md5_pad n"
proof -
  have m: "m < 64" by (simp add: m_def)
  have "(119 - m) mod 64 = (if m < 56 then 55 - m else 119 - m)"
    using m by (auto simp: mod_if)
  then show ?thesis
    using m by (simp add: md5_pad_def md5_padding_def take_Cons' m_def[symmetric] min_def) arith
qed

lemma md5_digest_repr:
  assumes "md5_repr ctx msg"
  shows "md5_digest ctx = Some (md5_reference msg, md5_Context)"
proof -
  let ?pad = "take (if md5_index ctx < 56 then 56 - md5_index ctx else 120 - md5_index ctx) md5_padding"
  let ?bits = "toBytes64 (md5_count ctx) Little"
  have cnt: "md5_count ctx = of_nat (8 * length msg)" using assms by (simp add: md5_repr_def)
  obtain c1 where c1: "md5_update ctx ?pad = Some c1" "md5_repr c1 (msg @ ?pad)"
    using md5_update_repr[OF assms] by blast
  obtain c2 where c2: "md5_update c1 ?bits = Some c2" "md5_repr c2 ((msg @ ?pad) @ ?bits)"
    using md5_update_repr[OF c1(2)] by blast
  have "?pad @ ?bits = md5_pad (length msg)"
    unfolding cnt md5_index_count[OF cnt] by (rule md5_padLen_pad)
  then have "md5_repr c2 (msg @ md5_pad (length msg))" using c2(2) by simp
  then have "md5_state c2 = fst (md5_absorbed (msg @ md5_pad (length msg)))"
    by (simp add: md5_repr_def)
  then show ?thesis
    using c1(1) c2(1)
    by (simp add: md5_digest_def Let_def md5_reset_def md5_reference_def md5_absorbed_def
        md5_blocks_loop_chunks md5_Context_def)
qed

section \<open>Whole messages, chunks and streams\<close>

fun md5_updates :: "md5_context \<Rightarrow> u8 list list \<Rightarrow> md5_context option" where
  "md5_updates ctx [] = Some ctx"
| "md5_updates ctx (data # rest) = Option.bind (md5_update ctx data) (\<lambda>ctx. md5_updates ctx rest)"

lemma md5_updates_repr:
  "md5_repr ctx msg \<Longrightarrow>
   \<exists>ctx'. md5_updates ctx parts = Some ctx' \<and> md5_repr ctx' (msg @ concat parts)"
proof (induction parts arbitrary: ctx msg)
  case (Cons data parts)
  obtain c where c: "md5_update ctx data = Some c" "md5_repr c (msg @ data)"
    using md5_update_repr[OF Cons.prems] by blast
  from Cons.IH[OF c(2)] c(1) show ?case by auto
qed simp

text \<open>
  C13: however a message is cut into calls of update, no call writes outside the buffer, and
  digest then returns the digest that RFC 1321 defines for the whole message, and leaves the
  object ready for the next message.
\<close>

theorem md5_digest_chunks:
  "Option.bind (md5_updates md5_Context parts) md5_digest =
     Some (md5_reference (concat parts), md5_Context)"
  using md5_updates_repr[OF md5_repr_init, of parts] md5_digest_repr by fastforce

lemma md5_digest_data_reference: "md5_digest_data data = Some (md5_reference data)"
  using md5_updates_repr[OF md5_repr_init, of "[data]"] md5_digest_repr
  by (fastforce simp: md5_digest_data_def)

lemma md5_stream_loop_repr:
  assumes "md5_repr md5 msg"
  shows "\<exists>md5' s'. md5_stream_loop md5 s = Some (md5', s') \<and>
     (if is_state s = Good
      then md5_repr md5' (msg @ is_data s) \<and> is_state s' = (if is_ends_in_error s then Bad else Eof)
      else md5' = md5 \<and> s' = s)"
  using assms
proof (induction md5 s arbitrary: msg rule: md5_stream_loop.induct)
  case (1 md5 s)
  obtain buf s1 where rd: "md5_read s 4096 = (buf, s1)" by fastforce
  show ?case
  proof (cases "buf = []")
    case True
    have "md5_stream_loop md5 s = Some (md5, s1)"
      by (simp add: md5_stream_loop.simps[of md5 s] rd True)
    then show ?thesis
      using rd True "1.prems" by (auto simp: md5_read_def split: if_splits)
  next
    case False
    obtain m1 where m1: "md5_update md5 buf = Some m1" "md5_repr m1 (msg @ buf)"
      using md5_update_repr[OF "1.prems"] by blast
    have step: "md5_stream_loop md5 s = md5_stream_loop m1 s1"
      by (simp add: md5_stream_loop.simps[of md5 s] rd False m1)
    show ?thesis
      using "1.IH"[OF rd[symmetric] False m1(1) m1(2)] rd False m1(2)
      unfolding step
      by (auto simp: md5_read_def split: if_splits)
  qed
qed

text \<open>
  reading a stream to its end in portions of 4096 bytes gives the RFC 1321 digest of
  its content; a device error is reported and no digest is returned.
\<close>

theorem md5_digest_stream_reference:
  assumes "is_state stream = Good"
  shows "md5_digest_stream stream =
    (if is_ends_in_error stream then Inl Md5StreamError else Inr (md5_reference (is_data stream)))"
  using md5_stream_loop_repr[OF md5_repr_init, of stream] assms
  by (auto simp: md5_digest_stream_def md5_digest_repr)

theorem md5_digest_stream_reference_witness:
  "md5_digest_stream \<lparr>is_data = [1, 2, 3], is_ends_in_error = False, is_state = Good\<rparr> =
     Inr (md5_reference [1, 2, 3])"
  using md5_digest_stream_reference
    [of "\<lparr>is_data = [1, 2, 3], is_ends_in_error = False, is_state = Good\<rparr>"] by simp

end
