(* ===== verification/QueueSpec.thy ===== *)
theory QueueSpec
  imports Prelude
begin

text \<open>
  The contract of a bounded first-in-first-out queue as its clients see it: a push either
  appends the element or, when the queue is full (or closed), leaves it alone and says so; a
  pop returns the oldest element. The operations may fail (None: undefined behaviour); the
  provider promises that they do not. Everything a client needs about a history of
  operations is proved once here.
\<close>

datatype 'a queue_op = Push 'a | Pop

locale bounded_queue =
  fixes push :: "'q \<Rightarrow> 'a \<Rightarrow> ('q \<times> bool) option"
    and pop :: "'q \<Rightarrow> ('q \<times> 'a option) option"
    and content :: "'q \<Rightarrow> 'a list"
    and inv :: "'q \<Rightarrow> bool"
    and bound :: nat
  assumes push_spec: "inv q \<Longrightarrow> \<exists>q' ok. push q x = Some (q', ok) \<and> inv q' \<and>
      content q' = (if ok then content q @ [x] else content q) \<and>
      (ok \<longrightarrow> length (content q) < bound)"
    and pop_spec: "inv q \<Longrightarrow> \<exists>q' r. pop q = Some (q', r) \<and> inv q' \<and>
      (case content q of [] \<Rightarrow> r = None \<and> content q' = [] | x # xs \<Rightarrow> r = Some x \<and> content q' = xs)"
    and content_bound: "inv q \<Longrightarrow> length (content q) \<le> bound"
begin

text \<open>A history: the accepted elements and the returned elements, in order.\<close>

fun history :: "'q \<Rightarrow> 'a queue_op list \<Rightarrow> ('q \<times> 'a list \<times> 'a list) option" where
  "history q [] = Some (q, [], [])"
| "history q (Push x # ops) = Option.bind (push q x) (\<lambda>(q', ok).
     map_option (\<lambda>(qn, ins, outs). (qn, if ok then x # ins else ins, outs)) (history q' ops))"
| "history q (Pop # ops) = Option.bind (pop q) (\<lambda>(q', r).
     map_option (\<lambda>(qn, ins, outs). (qn, ins, case r of None \<Rightarrow> outs | Some x \<Rightarrow> x # outs))
       (history q' ops))"

lemma history_fifo:
  assumes "inv q"
  shows "\<exists>qn ins outs. history q ops = Some (qn, ins, outs) \<and> inv qn \<and>
     content q @ ins = outs @ content qn"
  using assms
proof (induction ops arbitrary: q)
  case Nil
  then show ?case by simp
next
  case (Cons p ops)
  show ?case
  proof (cases p)
    case (Push x)
    obtain q' ok where p: "push q x = Some (q', ok)" "inv q'"
        "content q' = (if ok then content q @ [x] else content q)"
      using push_spec[OF Cons.prems] by blast
    from Cons.IH[OF p(2)] p Push show ?thesis by (auto split: if_splits)
  next
    case Pop
    obtain q' r where p: "pop q = Some (q', r)" "inv q'"
        "case content q of [] \<Rightarrow> r = None \<and> content q' = [] | x # xs \<Rightarrow> r = Some x \<and> content q' = xs"
      using pop_spec[OF Cons.prems] by blast
    from Cons.IH[OF p(2)] p Pop show ?thesis by (fastforce split: list.splits)
  qed
qed

text \<open>Starting empty, what has been returned is a prefix of what has been accepted.\<close>

lemma history_prefix:
  assumes "inv q" and "content q = []" and "history q ops = Some (qn, ins, outs)"
  shows "outs = take (length outs) ins \<and> length ins - length outs \<le> bound"
proof -
  from history_fifo[OF assms(1), of ops] assms(2,3)
  have "ins = outs @ content qn" and "inv qn" by auto
  then show ?thesis using content_bound[OF \<open>inv qn\<close>] by simp
qed

end

end
