(* ===== verification/Fifo.thy ===== *)
theory Fifo
  imports QueueSpec
begin

text \<open>
  include/nhope/seq/fifo.h: the ring buffer Fifo<T, Size>. The buffer has a power of two of
  cells (capacity), head is the next cell to write, tail the next cell to read, count the
  number of live elements. Size is a template parameter, a parameter fsize of the model.
  std::memcpy outside the array is undefined behaviour and the operation returns None.

  The wrapping branch of push copies data.subspan(firstPartCount), the whole rest of the
  argument, and not only the part that fits: push is therefore right only when the argument
  fits into the free space or does not wrap (push_fits), and fifo_push_overrun shows a run
  of the code that destroys a live element.
\<close>

section \<open>The capacity\<close>

text \<open>The loop of nextPowerOf2: v is halved until it is zero, power doubled each time.\<close>

function nextPowerOf2_loop :: "nat \<Rightarrow> nat \<Rightarrow> nat" where
  "nextPowerOf2_loop v pw =
     (let v' = v div 2 in if v' \<noteq> 0 then nextPowerOf2_loop v' (2 * pw) else pw)"
  by pat_completeness auto
termination by (relation "measure (\<lambda>(v, pw). v)") (auto simp: Let_def)

declare nextPowerOf2_loop.simps [simp del]

definition nextPowerOf2 :: "nat \<Rightarrow> nat" where
  "nextPowerOf2 value = nextPowerOf2_loop (value - 1) 2"

section \<open>State and operations\<close>

record 'a fifo =
  m_buffer :: "'a list"
  m_head :: nat
  m_tail :: nat
  m_count :: nat

definition fifo_capacity :: "'a fifo \<Rightarrow> nat" where
  "fifo_capacity q = length (m_buffer q)"

definition fifo_make :: "nat \<Rightarrow> 'a \<Rightarrow> 'a fifo" where
  "fifo_make fsize dflt = \<lparr>m_buffer = replicate (nextPowerOf2 fsize) dflt,
     m_head = 0, m_tail = 0, m_count = 0\<rparr>"

definition fifo_size :: "'a fifo \<Rightarrow> nat" where
  "fifo_size q = m_count q"

definition fifo_empty :: "'a fifo \<Rightarrow> bool" where
  "fifo_empty q \<longleftrightarrow> m_count q = 0"

definition fifo_clear :: "'a fifo \<Rightarrow> 'a fifo" where
  "fifo_clear q = q\<lparr>m_count := 0, m_head := 0, m_tail := 0\<rparr>"

text \<open>
  The mask (x & (capacity - 1)) is written on nat; capacity is a power of two, so it is
  x mod capacity (fifo_mask_mod).
\<close>

definition fifo_mask :: "'a fifo \<Rightarrow> nat \<Rightarrow> nat" where
  "fifo_mask q x = x AND (fifo_capacity q - 1)"

definition fifo_push :: "nat \<Rightarrow> 'a fifo \<Rightarrow> 'a list \<Rightarrow> ('a fifo \<times> nat) option" where
  "fifo_push fsize q data =
     (let freeSpace = fsize - m_count q; count = min (length data) freeSpace in
      if count = 0 then Some (q, 0)
      else if m_head q + count \<le> fifo_capacity q then
        Option.bind (memcpy (m_buffer q) (m_head q) (take count data)) (\<lambda>buffer.
          Some (q\<lparr>m_buffer := buffer, m_head := fifo_mask q (m_head q + count),
                  m_count := m_count q + count\<rparr>, count))
      else
        (let firstPartCount = fifo_capacity q - m_head q in
         Option.bind (memcpy (m_buffer q) (m_head q) (take firstPartCount data)) (\<lambda>buffer.
         Option.bind (memcpy buffer 0 (drop firstPartCount data)) (\<lambda>buffer.
           Some (q\<lparr>m_buffer := buffer, m_head := fifo_mask q (m_head q + count),
                   m_count := m_count q + count\<rparr>, count)))))"

definition fifo_push_value :: "nat \<Rightarrow> 'a fifo \<Rightarrow> 'a \<Rightarrow> ('a fifo \<times> nat) option" where
  "fifo_push_value fsize q v = fifo_push fsize q [v]"

text \<open>
  pop(data): the argument is the span to fill; the result is the new fifo, the new content
  of the span and the number of elements written.
\<close>

definition fifo_pop :: "'a fifo \<Rightarrow> 'a list \<Rightarrow> ('a fifo \<times> 'a list \<times> nat) option" where
  "fifo_pop q data =
     (let count = min (length data) (m_count q) in
      if count = 0 then Some (q, data, count)
      else Option.bind
        (if m_tail q + count \<le> fifo_capacity q
         then memcpy data 0 (take count (drop (m_tail q) (m_buffer q)))
         else (let firstPart = drop (m_tail q) (m_buffer q); firstPartSize = length firstPart in
           Option.bind (memcpy data 0 firstPart) (\<lambda>data.
             memcpy data firstPartSize (take (count - firstPartSize) (m_buffer q)))))
        (\<lambda>data. Some (q\<lparr>m_count := m_count q - count,
                          m_tail := fifo_mask q (m_tail q + count)\<rparr>, data, count)))"

definition fifo_pop_value :: "'a fifo \<Rightarrow> 'a \<Rightarrow> ('a fifo \<times> 'a option) option" where
  "fifo_pop_value q dflt =
     Option.bind (fifo_pop q [dflt]) (\<lambda>(q, data, n).
       Some (q, if n = 0 then None else Some (data ! 0)))"

section \<open>The capacity is the next power of two\<close>

lemma nextPowerOf2_loop_bounds:
  assumes "pw = 2 ^ k" and "0 < k"
  shows "\<exists>j. nextPowerOf2_loop v pw = 2 ^ (k + j) \<and> v < 2 ^ Suc j \<and> (j = 0 \<or> 2 ^ j \<le> v)"
  using assms
proof (induction v pw arbitrary: k rule: nextPowerOf2_loop.induct)
  case (1 v pw)
  show ?case
  proof (cases "v div 2 = 0")
    case True
    then show ?thesis
      using "1.prems" by (intro exI[of _ 0]) (auto simp: nextPowerOf2_loop.simps[of v] Let_def)
  next
    case False
    have p: "2 * pw = 2 ^ Suc k" using "1.prems" by simp
    from "1.IH"[OF refl False p] obtain j where
      j: "nextPowerOf2_loop (v div 2) (2 * pw) = 2 ^ (Suc k + j)" "v div 2 < 2 ^ Suc j"
        "j = 0 \<or> 2 ^ j \<le> v div 2" by auto
    show ?thesis
    proof (intro exI[of _ "Suc j"] conjI)
      show "nextPowerOf2_loop v pw = 2 ^ (k + Suc j)"
        using j False by (simp add: nextPowerOf2_loop.simps[of v] Let_def)
      show "v < 2 ^ Suc (Suc j)" using j(2) by simp
      have "2 ^ j \<le> v div 2" using j(3) False by (cases "j = 0") auto
      then show "Suc j = 0 \<or> 2 ^ Suc j \<le> v" by simp
    qed
  qed
qed

lemma nextPowerOf2_bounds:
  assumes "0 < value"
  shows "\<exists>k. nextPowerOf2 value = 2 ^ Suc k \<and> value \<le> nextPowerOf2 value \<and>
           (1 < value \<longrightarrow> nextPowerOf2 value < 2 * value)"
proof -
  obtain j where j: "nextPowerOf2 value = 2 ^ (1 + j)" "value - 1 < 2 ^ Suc j"
      "j = 0 \<or> 2 ^ j \<le> value - 1"
    using nextPowerOf2_loop_bounds[of 2 1 "value - 1"] by (auto simp: nextPowerOf2_def)
  then show ?thesis using assms by (intro exI[of _ j]) auto
qed

text \<open>
  the buffer is large enough for Size elements, its length is a power of two (at least
  2), and it is less than twice as long as needed.
\<close>

theorem nextPowerOf2_least:
  assumes "0 < value"
  shows "\<exists>k. nextPowerOf2 value = 2 ^ Suc k \<and> value \<le> nextPowerOf2 value \<and>
           (1 < value \<longrightarrow> nextPowerOf2 value < 2 * value)"
  using nextPowerOf2_bounds[OF assms] .

theorem nextPowerOf2_least_witness: "nextPowerOf2 5 = 8 \<and> 5 \<le> nextPowerOf2 5"
proof -
  have "5 \<le> nextPowerOf2 5" using nextPowerOf2_least[of 5] by auto
  then show ?thesis by (simp add: nextPowerOf2_def nextPowerOf2_loop.simps)
qed

section \<open>The invariant and the abstraction\<close>

definition fifo_inv :: "nat \<Rightarrow> 'a fifo \<Rightarrow> bool" where
  "fifo_inv fsize q \<longleftrightarrow>
     (\<exists>k. fifo_capacity q = 2 ^ k) \<and> fsize \<le> fifo_capacity q \<and>
     m_count q \<le> fsize \<and> m_tail q < fifo_capacity q \<and>
     m_head q = (m_tail q + m_count q) mod fifo_capacity q"

definition fifo_list :: "'a fifo \<Rightarrow> 'a list" where
  "fifo_list q =
     map (\<lambda>i. m_buffer q ! ((m_tail q + i) mod fifo_capacity q)) [0..<m_count q]"

lemma length_fifo_list [simp]: "length (fifo_list q) = m_count q"
  by (simp add: fifo_list_def)

lemma fifo_mask_mod: "fifo_inv fsize q \<Longrightarrow> fifo_mask q x = x mod fifo_capacity q"
  unfolding fifo_mask_def fifo_inv_def
  by (metis mask_eq_exp_minus_1 take_bit_eq_mask take_bit_eq_mod)

lemma fifo_make_inv:
  assumes "0 < fsize"
  shows "fifo_inv fsize (fifo_make fsize d)" and "fifo_list (fifo_make fsize d) = []"
proof -
  obtain k where "nextPowerOf2 fsize = 2 ^ Suc k" "fsize \<le> nextPowerOf2 fsize"
    using nextPowerOf2_bounds[OF assms] by blast
  then show "fifo_inv fsize (fifo_make fsize d)" and "fifo_list (fifo_make fsize d) = []"
    by (auto simp: fifo_inv_def fifo_make_def fifo_capacity_def fifo_list_def
        intro!: exI[of _ "Suc k"])
qed

lemma fifo_clear_inv:
  assumes "fifo_inv fsize q"
  shows "fifo_inv fsize (fifo_clear q)" and "fifo_list (fifo_clear q) = []"
  using assms by (auto simp: fifo_inv_def fifo_clear_def fifo_capacity_def fifo_list_def)

text \<open>Offsets of less than one turn address different cells.\<close>

lemma ring_index_inj:
  fixes c :: nat
  assumes "(t + i) mod c = (t + j) mod c" and "i < c" and "j < c"
  shows "i = j"
proof -
  have le: "a = b" if "(t + b) mod c = (t + a) mod c" "a \<le> b" "b < c" for a b
  proof -
    have "c dvd b - a" using that mod_eq_dvd_iff_nat[of "t + a" "t + b" c] by simp
    then show ?thesis using that by (metis dvd_imp_le le_antisym diff_is_0_eq leD less_imp_diff_less
          le_add_diff_inverse zero_less_iff_neq_zero)
  qed
  show ?thesis using le[of i j] le[of j i] assms by (cases "i \<le> j") auto
qed

text \<open>The n cells from head on hold the first n elements of data, all others are kept.\<close>

definition ring_written :: "'a list \<Rightarrow> nat \<Rightarrow> nat \<Rightarrow> 'a list \<Rightarrow> 'a list \<Rightarrow> bool" where
  "ring_written buf h n data buf' \<longleftrightarrow> length buf' = length buf \<and>
     (\<forall>j < n. buf' ! ((h + j) mod length buf) = data ! j) \<and>
     (\<forall>p < length buf. (\<forall>j < n. p \<noteq> (h + j) mod length buf) \<longrightarrow> buf' ! p = buf ! p)"

lemma ring_written_flat:
  assumes "h + n \<le> length buf" and "n \<le> length data"
  shows "\<exists>buf'. memcpy buf h (take n data) = Some buf' \<and> ring_written buf h n data buf'"
proof -
  obtain buf' where b: "memcpy buf h (take n data) = Some buf'"
    using assms by (simp add: memcpy_def)
  have "buf' ! p = buf ! p" if "p < length buf" "\<forall>j < n. p \<noteq> (h + j) mod length buf" for p
  proof -
    have "\<not> (h \<le> p \<and> p < h + n)"
    proof
      assume a: "h \<le> p \<and> p < h + n"
      then have "p - h < n" by auto
      with that(2) have "p \<noteq> (h + (p - h)) mod length buf" by blast
      then show False using a that(1) by simp
    qed
    then show ?thesis using memcpy_nth[OF b that(1)] assms by auto
  qed
  then show ?thesis
    using assms memcpy_length[OF b] memcpy_nth[OF b]
    by (intro exI[of _ buf']) (auto simp: b ring_written_def)
qed

lemma ring_written_wrap:
  assumes "h < length buf" and "length buf < h + length data" and "length data \<le> length buf"
  defines "f \<equiv> length buf - h"
  shows "\<exists>b1 b2. memcpy buf h (take f data) = Some b1 \<and> memcpy b1 0 (drop f data) = Some b2 \<and>
     ring_written buf h (length data) data b2"
proof -
  obtain b1 where b1: "memcpy buf h (take f data) = Some b1"
    using assms by (simp add: memcpy_def)
  have l1: "length b1 = length buf" by (rule memcpy_length[OF b1])
  have "length data - f \<le> length b1" using assms(1-3) l1 by (simp add: f_def)
  then obtain b2 where b2: "memcpy b1 0 (drop f data) = Some b2"
    by (simp add: memcpy_def)
  have l2: "length b2 = length buf" using memcpy_length[OF b2] l1 by simp
  have n1: "b1 ! p = (if h \<le> p then data ! (p - h) else buf ! p)" if "p < length buf" for p
    using memcpy_nth[OF b1 that] that assms by (auto simp: f_def)
  have n2: "b2 ! p = (if p < length data - f then data ! (f + p) else b1 ! p)"
    if "p < length buf" for p
    using memcpy_nth[OF b2, of p] that l1 assms by (auto simp: f_def)
  have w: "b2 ! ((h + j) mod length buf) = data ! j" if "j < length data" for j
  proof (cases "j < f")
    case True
    then have "(h + j) mod length buf = h + j" "\<not> h + j < length data - f" "h + j < length buf"
      using assms(1-3) by (auto simp: f_def)
    then show ?thesis using n1 n2 by simp
  next
    case False
    then have "(h + j) mod length buf = j - f"
      using that assms(1-3) by (auto simp: f_def mod_if)
    moreover have "j - f < length data - f" "j - f < length buf"
      using that False assms(1-3) by (auto simp: f_def)
    ultimately show ?thesis using n2 False by simp
  qed
  have k: "b2 ! p = buf ! p"
    if p: "p < length buf" and free: "\<forall>j < length data. p \<noteq> (h + j) mod length buf" for p
  proof -
    have "\<not> h \<le> p"
    proof
      assume "h \<le> p"
      then have "p - h < length data" "(h + (p - h)) mod length buf = p"
        using p assms(1-3) by auto
      then show False using free by metis
    qed
    moreover have "\<not> p < length data - f"
    proof
      assume "p < length data - f"
      then have "f + p < length data" "(h + (f + p)) mod length buf = p"
        using p assms(1-3) by (auto simp: f_def)
      then show False using free by metis
    qed
    ultimately show ?thesis using n1[OF p] n2[OF p] by simp
  qed
  show ?thesis using b1 b2 l2 w k by (auto simp: ring_written_def)
qed

text \<open>Writing behind the live elements appends to the abstract list.\<close>

lemma fifo_list_written:
  assumes "fifo_inv fsize q" and "ring_written (m_buffer q) (m_head q) n data buf'"
    and "n \<le> length data" and "m_count q + n \<le> fsize"
  defines "q' \<equiv> q\<lparr>m_buffer := buf', m_head := fifo_mask q (m_head q + n), m_count := m_count q + n\<rparr>"
  shows "fifo_inv fsize q'" and "fifo_list q' = fifo_list q @ take n data"
proof -
  let ?c = "fifo_capacity q"
  have inv: "m_head q = (m_tail q + m_count q) mod ?c" "fsize \<le> ?c" "m_tail q < ?c"
    using assms(1) by (auto simp: fifo_inv_def)
  have cap: "fifo_capacity q' = ?c" using assms(2) by (simp add: fifo_capacity_def q'_def ring_written_def)
  show "fifo_inv fsize q'"
    using assms(1,4) cap fifo_mask_mod[OF assms(1)] inv(1)
    by (simp add: fifo_inv_def q'_def mod_add_left_eq add.assoc)
  show "fifo_list q' = fifo_list q @ take n data"
  proof (rule nth_equalityI)
    show "length (fifo_list q') = length (fifo_list q @ take n data)"
      using assms(3) by (simp add: q'_def)
    fix i assume "i < length (fifo_list q')"
    then have i: "i < m_count q + n" by (simp add: q'_def)
    have nth: "fifo_list q' ! i = buf' ! ((m_tail q + i) mod ?c)"
      using i cap by (simp add: fifo_list_def q'_def)
    show "fifo_list q' ! i = (fifo_list q @ take n data) ! i"
    proof (cases "i < m_count q")
      case True
      have "(m_tail q + i) mod ?c \<noteq> (m_head q + j) mod ?c" if "j < n" for j
      proof
        assume "(m_tail q + i) mod ?c = (m_head q + j) mod ?c"
        then have "(m_tail q + i) mod ?c = (m_tail q + (m_count q + j)) mod ?c"
          using inv(1) by (simp add: mod_add_left_eq add.assoc)
        from ring_index_inj[OF this] show False using True that assms(4) inv(2) by simp
      qed
      then have "buf' ! ((m_tail q + i) mod ?c) = m_buffer q ! ((m_tail q + i) mod ?c)"
        using assms(2) inv(3) mod_less_divisor[of ?c "m_tail q + i"]
        unfolding ring_written_def fifo_capacity_def by (metis gr_zeroI not_less0)
      then show ?thesis using True nth by (simp add: nth_append fifo_list_def)
    next
      case False
      then have "m_tail q + i = m_tail q + m_count q + (i - m_count q)" by simp
      then have "(m_tail q + i) mod ?c = (m_head q + (i - m_count q)) mod ?c"
        unfolding inv(1) mod_add_left_eq by (rule arg_cong)
      then have "buf' ! ((m_tail q + i) mod ?c) = data ! (i - m_count q)"
        using assms(2) i False unfolding ring_written_def fifo_capacity_def
        by (metis add.commute less_diff_conv2 linorder_not_less)
      then show ?thesis using False i nth by (simp add: nth_append)
    qed
  qed
qed

section \<open>push and pop\<close>

lemma push_fits_aux:
  assumes "fifo_inv fsize q"
    and "length data \<le> fsize - m_count q \<or>
         m_head q + min (length data) (fsize - m_count q) \<le> fifo_capacity q"
  shows "\<exists>q'. fifo_push fsize q data = Some (q', min (length data) (fsize - m_count q)) \<and>
           fifo_inv fsize q' \<and>
           fifo_list q' = fifo_list q @ take (fsize - m_count q) data"
proof -
  let ?n = "min (length data) (fsize - m_count q)"
  have head: "m_head q < fifo_capacity q" and cap: "fsize \<le> fifo_capacity q"
    and cnt: "m_count q \<le> fsize"
    using assms(1) by (auto simp: fifo_inv_def intro!: mod_less_divisor gr0I)
  have tk: "take (fsize - m_count q) data = take ?n data" by (simp add: min_def)
  consider (zero) "?n = 0" | (flat) "?n \<noteq> 0" "m_head q + ?n \<le> fifo_capacity q"
    | (wrap) "?n \<noteq> 0" "\<not> m_head q + ?n \<le> fifo_capacity q" by blast
  then show ?thesis
  proof cases
    case zero
    then show ?thesis using assms(1) by (auto simp: fifo_push_def min_def split: if_splits)
  next
    case flat
    obtain buf' where b: "memcpy (m_buffer q) (m_head q) (take ?n data) = Some buf'"
        "ring_written (m_buffer q) (m_head q) ?n data buf'"
      using ring_written_flat[of "m_head q" ?n "m_buffer q" data] flat
      by (auto simp: fifo_capacity_def)
    from fifo_list_written[OF assms(1) b(2)] b(1) flat cnt show ?thesis
      unfolding tk by (simp add: fifo_push_def Let_def del: min_less_iff_conj)
  next
    case wrap
    then have n: "?n = length data" "length data \<le> fifo_capacity q" using assms(2) cap by auto
    obtain b1 b2 where b:
        "memcpy (m_buffer q) (m_head q) (take (fifo_capacity q - m_head q) data) = Some b1"
        "memcpy b1 0 (drop (fifo_capacity q - m_head q) data) = Some b2"
        "ring_written (m_buffer q) (m_head q) (length data) data b2"
      using ring_written_wrap[of "m_head q" "m_buffer q" data, folded fifo_capacity_def]
        wrap n head cap cnt by (auto simp: not_le)
    from fifo_list_written[OF assms(1) b(3)] b(1,2) wrap cnt n show ?thesis
      unfolding tk by (simp add: fifo_push_def Let_def del: min_less_iff_conj)
  qed
qed

text \<open>
  C15: as long as the argument does not both exceed the free space and wrap, push appends
  the largest prefix of the argument that fits, reports its length and keeps the invariant.
\<close>

theorem push_fits:
  assumes "fifo_inv fsize q"
    and "length data \<le> fsize - m_count q \<or>
         m_head q + min (length data) (fsize - m_count q) \<le> fifo_capacity q"
  shows "\<exists>q'. fifo_push fsize q data = Some (q', min (length data) (fsize - m_count q)) \<and>
           fifo_inv fsize q' \<and>
           fifo_list q' = fifo_list q @ take (fsize - m_count q) data"
  using push_fits_aux[OF assms] .

theorem push_fits_witness:
  "fifo_inv 4 \<lparr>m_buffer = [3,4,1,2::nat], m_head = 1, m_tail = 3, m_count = 2\<rparr> \<and>
   (\<exists>q'. fifo_push 4 \<lparr>m_buffer = [3,4,1,2], m_head = 1, m_tail = 3, m_count = 2\<rparr> [7, 8::nat] =
      Some (q', 2) \<and> fifo_list q' = [2, 3, 7, 8])"
proof -
  let ?q = "\<lparr>m_buffer = [3,4,1,2::nat], m_head = 1, m_tail = 3, m_count = 2\<rparr>"
  have i: "fifo_inv 4 ?q"
    by (auto simp: fifo_inv_def fifo_capacity_def intro!: exI[of _ 2])
  have l: "fifo_list ?q = [2, 3]"
    by (simp add: fifo_list_def fifo_capacity_def upt_rec)
  show ?thesis using i push_fits[of 4 ?q "[7, 8]"] l by auto
qed

text \<open>
  A run of push that overruns: four elements of a Fifo of size 4 whose head has moved to 3.
  The argument has five elements and three fit; the wrapped copy writes all of the
  remaining four, over the live element 30 at the tail and over the 1 just written.
\<close>

theorem fifo_push_overrun:
  "\<exists>q q'. fifo_inv 4 q \<and> fifo_list q = [30::nat] \<and>
     fifo_push 4 q [1, 2, 3, 4, 5] = Some (q', 3) \<and>
     fifo_list q' = [4, 5, 2, 3]"
proof -
  let ?q = "\<lparr>m_buffer = [10, 20, 30::nat, 0], m_head = 3, m_tail = 2, m_count = (1::nat)\<rparr>"
  have i: "fifo_inv 4 ?q"
    by (auto simp: fifo_inv_def fifo_capacity_def intro!: exI[of _ 2])
  show ?thesis
    by (rule exI[of _ ?q]) (use i in \<open>simp add: fifo_list_def fifo_capacity_def upt_rec fifo_push_def
        fifo_mask_def memcpy_def Let_def\<close>)
qed

lemma drop_take_ring:
  assumes "fifo_inv fsize q" and "m_tail q + n \<le> fifo_capacity q" and "n \<le> m_count q"
  shows "take n (drop (m_tail q) (m_buffer q)) = take n (fifo_list q)"
  using assms by (intro nth_equalityI) (auto simp: fifo_list_def fifo_capacity_def)

lemma take_ring_wrap:
  assumes "fifo_inv fsize q" and "fifo_capacity q < m_tail q + n" and "n \<le> m_count q"
  shows "drop (m_tail q) (m_buffer q) @ take (n - (fifo_capacity q - m_tail q)) (m_buffer q)
         = take n (fifo_list q)"
proof (rule nth_equalityI)
  have t: "m_tail q < fifo_capacity q" "n \<le> fifo_capacity q"
    using assms by (auto simp: fifo_inv_def)
  then show "length (drop (m_tail q) (m_buffer q) @
      take (n - (fifo_capacity q - m_tail q)) (m_buffer q)) = length (take n (fifo_list q))"
    using assms by (auto simp: fifo_capacity_def)
  fix i assume "i < length (drop (m_tail q) (m_buffer q) @
      take (n - (fifo_capacity q - m_tail q)) (m_buffer q))"
  then have i: "i < n" using t assms(2) by (auto simp: fifo_capacity_def)
  have r: "take n (fifo_list q) ! i = m_buffer q ! ((m_tail q + i) mod fifo_capacity q)"
    using i assms(3) by (simp add: fifo_list_def)
  show "(drop (m_tail q) (m_buffer q) @ take (n - (fifo_capacity q - m_tail q)) (m_buffer q)) ! i
      = take n (fifo_list q) ! i"
  proof (cases "m_tail q + i < fifo_capacity q")
    case True
    then show ?thesis using r by (auto simp: nth_append fifo_capacity_def)
  next
    case False
    then have "(m_tail q + i) mod fifo_capacity q = i - (fifo_capacity q - m_tail q)"
      using t i le_mod_geq[of "fifo_capacity q" "m_tail q + i"] by simp
    then show ?thesis using r False t i by (auto simp: nth_append fifo_capacity_def)
  qed
qed

lemma fifo_popped:
  assumes "fifo_inv fsize q" and "n \<le> m_count q"
  defines "q' \<equiv> q\<lparr>m_count := m_count q - n, m_tail := fifo_mask q (m_tail q + n)\<rparr>"
  shows "fifo_inv fsize q'" and "fifo_list q' = drop n (fifo_list q)"
proof -
  have cap: "fifo_capacity q' = fifo_capacity q" by (simp add: q'_def fifo_capacity_def)
  have m: "m_tail q' = (m_tail q + n) mod fifo_capacity q"
    using fifo_mask_mod[OF assms(1)] by (simp add: q'_def)
  show "fifo_inv fsize q'"
  proof -
    have "(m_tail q + m_count q) mod c = ((m_tail q + n) mod c + (m_count q - n)) mod c" for c
    proof -
      have "m_tail q + m_count q = m_tail q + n + (m_count q - n)" using assms(2) by simp
      then show ?thesis by (simp only: mod_add_left_eq)
    qed
    then show ?thesis
      using assms(1,2) m cap unfolding fifo_inv_def by (auto simp: q'_def)
  qed
  show "fifo_list q' = drop n (fifo_list q)"
    using assms(2) m cap
    by (intro nth_equalityI) (auto simp: fifo_list_def q'_def mod_add_left_eq add.assoc)
qed

lemma fifo_pop_aux:
  assumes "fifo_inv fsize q"
  shows "\<exists>q'. fifo_pop q data =
      Some (q', take (length data) (fifo_list q) @ drop (m_count q) data,
            min (length data) (m_count q)) \<and>
      fifo_inv fsize q' \<and> fifo_list q' = drop (length data) (fifo_list q)"
proof -
  let ?n = "min (length data) (m_count q)"
  let ?q' = "q\<lparr>m_count := m_count q - ?n, m_tail := fifo_mask q (m_tail q + ?n)\<rparr>"
  have tk: "take (length data) (fifo_list q) = take ?n (fifo_list q)"
    and dr: "drop (length data) (fifo_list q) = drop ?n (fifo_list q)"
    and dd: "drop (m_count q) data = drop ?n data" by (auto simp: min_def)
  have "fifo_pop q data = Some (?q', take ?n (fifo_list q) @ drop ?n data, ?n)" if "?n \<noteq> 0"
  proof (cases "m_tail q + ?n \<le> fifo_capacity q")
    case True
    have "length (take ?n (drop (m_tail q) (m_buffer q))) = ?n"
      unfolding drop_take_ring[OF assms True min.cobounded2] by simp
    then show ?thesis using that True drop_take_ring[OF assms True min.cobounded2]
      unfolding fifo_pop_def Let_def by (simp add: memcpy_def del: min_less_iff_conj)
  next
    case False
    let ?f = "fifo_capacity q - m_tail q"
    have f: "?f \<le> ?n" "?n - ?f \<le> length (m_buffer q)" "length (drop (m_tail q) (m_buffer q)) = ?f"
      using False assms by (auto simp: fifo_inv_def fifo_capacity_def)
    have "memcpy data 0 (drop (m_tail q) (m_buffer q)) =
        Some (drop (m_tail q) (m_buffer q) @ drop ?f data)"
      using f by (simp add: memcpy_def)
    moreover have "memcpy (drop (m_tail q) (m_buffer q) @ drop ?f data) ?f
        (take (?n - ?f) (m_buffer q)) =
        Some ((drop (m_tail q) (m_buffer q) @ take (?n - ?f) (m_buffer q)) @ drop ?n data)"
      using f by (auto simp: memcpy_def min_absorb2)
    ultimately show ?thesis
      using that False f take_ring_wrap[OF assms _ min.cobounded2, of "length data"]
      unfolding fifo_pop_def Let_def by (simp del: min_less_iff_conj)
  qed
  moreover have "fifo_pop q data = Some (q, data, 0)" if "?n = 0"
    using that unfolding fifo_pop_def Let_def by simp
  ultimately show ?thesis
    using fifo_popped[OF assms min.cobounded2, of "length data"] assms
    unfolding tk dr dd by (cases "?n = 0") auto
qed

text \<open>
  pop hands out the oldest elements in order: it fills the front of the argument with
  them, leaves the rest of the argument alone, reports how many it wrote, removes exactly
  those from the fifo and keeps the invariant.
\<close>

theorem fifo_pop_spec:
  assumes "fifo_inv fsize q"
  shows "\<exists>q'. fifo_pop q data =
      Some (q', take (length data) (fifo_list q) @ drop (m_count q) data,
            min (length data) (m_count q)) \<and>
      fifo_inv fsize q' \<and> fifo_list q' = drop (length data) (fifo_list q)"
  using fifo_pop_aux[OF assms] .

theorem fifo_pop_spec_witness:
  "fifo_inv 4 \<lparr>m_buffer = [3,4,1,2::nat], m_head = 1, m_tail = 3, m_count = 2\<rparr> \<and>
   (\<exists>q'. fifo_pop \<lparr>m_buffer = [3,4,1,2::nat], m_head = 1, m_tail = 3, m_count = 2\<rparr> [0,0,0] =
      Some (q', [2, 3, 0], 2))"
proof -
  let ?q = "\<lparr>m_buffer = [3,4,1,2::nat], m_head = 1, m_tail = 3, m_count = 2\<rparr>"
  have i: "fifo_inv 4 ?q"
    by (auto simp: fifo_inv_def fifo_capacity_def intro!: exI[of _ 2])
  have l: "fifo_list ?q = [2, 3]"
    by (simp add: fifo_list_def fifo_capacity_def upt_rec)
  show ?thesis using i fifo_pop_spec[of 4 ?q "[0,0,0]"] l by auto
qed

section \<open>The contract of a bounded queue\<close>

text \<open>push(const T&) and pop() with the result of push read as accepted or not.\<close>

definition fifo_push_ok :: "nat \<Rightarrow> 'a fifo \<Rightarrow> 'a \<Rightarrow> ('a fifo \<times> bool) option" where
  "fifo_push_ok fsize q v = map_option (\<lambda>(q', n). (q', n = 1)) (fifo_push_value fsize q v)"

lemma fifo_push_ok_spec:
  assumes "fifo_inv fsize q"
  shows "\<exists>q' ok. fifo_push_ok fsize q x = Some (q', ok) \<and> fifo_inv fsize q' \<and>
      fifo_list q' = (if ok then fifo_list q @ [x] else fifo_list q) \<and>
      (ok \<longrightarrow> length (fifo_list q) < fsize)"
proof -
  have head: "m_head q < fifo_capacity q"
    using assms by (auto simp: fifo_inv_def intro!: mod_less_divisor gr0I)
  obtain q' where "fifo_push fsize q [x] = Some (q', min 1 (fsize - m_count q))"
      "fifo_inv fsize q'" "fifo_list q' = fifo_list q @ take (fsize - m_count q) [x]"
    using push_fits_aux[OF assms, of "[x]"] head
    by (cases "fsize - m_count q") auto
  then show ?thesis by (auto simp: fifo_push_ok_def fifo_push_value_def min_def)
qed

lemma fifo_pop_value_spec:
  assumes "fifo_inv fsize q"
  shows "\<exists>q' r. fifo_pop_value q d = Some (q', r) \<and> fifo_inv fsize q' \<and>
      (case fifo_list q of [] \<Rightarrow> r = None \<and> fifo_list q' = []
       | x # xs \<Rightarrow> r = Some x \<and> fifo_list q' = xs)"
proof -
  have "length (fifo_list q) = m_count q" by simp
  then show ?thesis
    using fifo_pop_aux[OF assms, of "[d]"]
    by (cases "fifo_list q") (auto simp: fifo_pop_value_def)
qed

interpretation fifo_queue: bounded_queue "fifo_push_ok fsize" "\<lambda>q. fifo_pop_value q d"
  fifo_list "fifo_inv fsize" fsize
  by unfold_locales
    (rule fifo_push_ok_spec, assumption, rule fifo_pop_value_spec, assumption,
     simp add: fifo_inv_def)

text \<open>
  in any sequence of single pushes and pops on a new Fifo no operation is undefined,
  the popped elements are the accepted ones in the order in which they were accepted, and at
  most Size accepted elements are still inside.
\<close>

theorem fifo_history:
  assumes "0 < fsize"
  shows "\<exists>qn ins outs. fifo_queue.history fsize d (fifo_make fsize d) ops = Some (qn, ins, outs) \<and>
     outs = take (length outs) ins \<and> length ins - length outs \<le> fsize"
proof -
  obtain qn ins outs where
    h: "fifo_queue.history fsize d (fifo_make fsize d) ops = Some (qn, ins, outs)"
    using fifo_queue.history_fifo[OF fifo_make_inv(1)[OF assms], of d d ops] by metis
  from fifo_queue.history_prefix[OF fifo_make_inv(1,2)[OF assms] h] h show ?thesis by auto
qed

theorem fifo_history_witness:
  "\<exists>qn ins outs. fifo_queue.history 2 (0::nat) (fifo_make 2 0) [Push 1, Push 2, Push 3, Pop, Push 4]
     = Some (qn, ins, outs) \<and> outs = take (length outs) ins"
  using fifo_history[of 2 0 "[Push 1, Push 2, Push 3, Pop, Push 4::nat queue_op]"] by (metis zero_less_numeral)

end
