(* ===== verification/PriorityQueue.thy ===== *)
theory PriorityQueue
  imports QueueSpec "HOL-Library.Multiset"
begin

text \<open>
  include/nhope/seq/priority-queue.h: a list of (priority, value) kept in ascending order of
  priority. push inserts in front of the entries of the same priority (std::lower_bound), pop
  takes the last entry: the oldest one of the highest priority. The contract is the locale
  stable_queue: one first-in-first-out list per priority.
\<close>

section \<open>State and operations\<close>

type_synonym 'v pq = "(int \<times> 'v) list"

definition pq_push :: "'v pq \<Rightarrow> 'v \<Rightarrow> int \<Rightarrow> 'v pq" where
  "pq_push m_queue value priority =
     (let it = lower_bound (\<lambda>lhs. fst lhs < priority) m_queue
      in insert_at it (priority, value) m_queue)"

text \<open>The loop of remove_if with its iterator as the position in the list.\<close>

function pq_remove_loop :: "('v \<Rightarrow> int \<Rightarrow> bool) \<Rightarrow> 'v pq \<Rightarrow> nat \<Rightarrow> 'v pq" where
  "pq_remove_loop fn m_queue it =
     (if it < length m_queue then
        (if fn (snd (m_queue ! it)) (fst (m_queue ! it))
         then pq_remove_loop fn (take it m_queue @ drop (Suc it) m_queue) it
         else pq_remove_loop fn m_queue (Suc it))
      else m_queue)"
  by pat_completeness auto
termination by (relation "measure (\<lambda>(fn, q, it). length q - it)") auto

declare pq_remove_loop.simps [simp del]

definition pq_remove_if :: "('v \<Rightarrow> int \<Rightarrow> bool) \<Rightarrow> 'v pq \<Rightarrow> 'v pq" where
  "pq_remove_if fn m_queue = pq_remove_loop fn m_queue 0"

definition pq_clear :: "'v pq \<Rightarrow> 'v pq" where
  "pq_clear m_queue = []"

definition pq_pop :: "'v pq \<Rightarrow> 'v pq \<times> 'v option" where
  "pq_pop m_queue =
     (if m_queue = [] then (m_queue, None)
      else (butlast m_queue, Some (snd (last m_queue))))"

definition pq_size :: "'v pq \<Rightarrow> nat" where
  "pq_size m_queue = length m_queue"

definition pq_empty :: "'v pq \<Rightarrow> bool" where
  "pq_empty m_queue \<longleftrightarrow> m_queue = []"

definition pq_inv :: "'v pq \<Rightarrow> bool" where
  "pq_inv q \<longleftrightarrow> sorted (map fst q)"

section \<open>The contract: one queue per priority\<close>

locale stable_queue =
  fixes push :: "'q \<Rightarrow> 'v \<Rightarrow> int \<Rightarrow> 'q"
    and pop :: "'q \<Rightarrow> 'q \<times> 'v option"
    and items :: "'q \<Rightarrow> int \<Rightarrow> 'v list"
    and inv :: "'q \<Rightarrow> bool"
  assumes push_spec: "inv q \<Longrightarrow> inv (push q v p) \<and>
      items (push q v p) = (items q)(p := items q p @ [v])"
    and pop_none: "inv q \<Longrightarrow> snd (pop q) = None \<Longrightarrow> fst (pop q) = q \<and> items q = (\<lambda>_. [])"
    and pop_some: "inv q \<Longrightarrow> snd (pop q) = Some v \<Longrightarrow> inv (fst (pop q)) \<and>
      (\<exists>p. items q p = v # items (fst (pop q)) p \<and> (\<forall>p' > p. items q p' = []) \<and>
           (\<forall>p'. p' \<noteq> p \<longrightarrow> items (fst (pop q)) p' = items q p'))"
begin

definition push_all :: "'q \<Rightarrow> ('v \<times> int) list \<Rightarrow> 'q" where
  "push_all q xs = foldl (\<lambda>q (v, p). push q v p) q xs"

lemma push_all_spec:
  assumes "inv q"
  shows "inv (push_all q xs) \<and>
    items (push_all q xs) = (\<lambda>p. items q p @ map fst (filter (\<lambda>(v, p'). p' = p) xs))"
  using assms
proof (induction xs arbitrary: q)
  case Nil
  then show ?case by (simp add: push_all_def)
next
  case (Cons x xs)
  obtain v p where x: "x = (v, p)" by (cases x)
  from Cons.IH[OF push_spec[OF Cons.prems, THEN conjunct1], of v p]
  show ?case
    using push_spec[OF Cons.prems, of v p] by (auto simp: push_all_def x fun_eq_iff)
qed

text \<open>
  Nobody is overtaken: what is popped is the oldest pushed value among those of the highest
  priority that were pushed.
\<close>

lemma pop_highest_oldest:
  assumes "inv q" and "items q = (\<lambda>_. [])" and "snd (pop (push_all q xs)) = Some v"
  shows "\<exists>p. v = fst (hd (filter (\<lambda>(v, p'). p' = p) xs)) \<and> (v, p) \<in> set xs \<and>
           (\<forall>(v', p') \<in> set xs. p' \<le> p)"
proof -
  note s = push_all_spec[OF assms(1), of xs]
  from pop_some[OF s[THEN conjunct1] assms(3)] obtain p where
    p: "items (push_all q xs) p = v # items (fst (pop (push_all q xs))) p"
       "\<forall>p' > p. items (push_all q xs) p' = []" by blast
  have f: "map fst (filter (\<lambda>(v, p'). p' = p) xs) = v # items (fst (pop (push_all q xs))) p"
    using p(1) s assms(2) by simp
  then have v: "v = fst (hd (filter (\<lambda>(v, p'). p' = p) xs))"
    by (cases "filter (\<lambda>(v, p'). p' = p) xs") auto
  have "v \<in> set (map fst (filter (\<lambda>(v, p'). p' = p) xs))" unfolding f by simp
  then have "(v, p) \<in> set xs" by auto
  moreover have "p' \<le> p" if "(v', p') \<in> set xs" for v' p'
  proof (rule ccontr)
    assume "\<not> p' \<le> p"
    then have "map fst (filter (\<lambda>(v, p''). p'' = p') xs) = []" using p(2) s assms(2) by simp
    then show False using that by (auto simp: filter_empty_conv)
  qed
  ultimately show ?thesis using v by blast
qed

end

section \<open>The list model implements the contract\<close>

definition pq_items :: "'v pq \<Rightarrow> int \<Rightarrow> 'v list" where
  "pq_items q p = rev (map snd (filter (\<lambda>e. fst e = p) q))"

lemma pq_push_split:
  assumes "pq_inv q"
  shows "pq_push q v p = takeWhile (\<lambda>e. fst e < p) q @ (p, v) # dropWhile (\<lambda>e. fst e < p) q"
  using assms lower_bound_sorted[of fst q p]
  by (simp add: pq_push_def pq_inv_def insert_at_takeWhile)

lemma pq_push_inv: "pq_inv q \<Longrightarrow> pq_inv (pq_push q v p)"
  using sorted_insert_lower_bound[of fst q "(p, v)"] by (simp add: pq_inv_def pq_push_def)

lemma filter_takeWhile_less:
  fixes p :: int
  shows "filter (\<lambda>e. fst e = p) (takeWhile (\<lambda>e. fst e < p) q) = []"
  by (auto simp: filter_empty_conv dest: set_takeWhileD)

lemma filter_pq_push:
  assumes "pq_inv q"
  shows "filter (\<lambda>e. fst e = p') (pq_push q v p) =
    (if p' = p then (p, v) # filter (\<lambda>e. fst e = p) q else filter (\<lambda>e. fst e = p') q)"
proof -
  have "filter P q = filter P (takeWhile R q) @ filter P (dropWhile R q)" for P R
    by (metis filter_append takeWhile_dropWhile_id)
  from this[of "\<lambda>e. fst e = p" "\<lambda>e. fst e < p"] this[of "\<lambda>e. fst e = p'" "\<lambda>e. fst e < p"]
  show ?thesis using filter_takeWhile_less[of p q] by (simp add: pq_push_split[OF assms])
qed

lemma pq_pop_none: "snd (pq_pop q) = None \<Longrightarrow> fst (pq_pop q) = q \<and> pq_items q = (\<lambda>_. [])"
  by (auto simp: pq_pop_def pq_items_def fun_eq_iff split: if_splits)

lemma pq_pop_some:
  assumes "pq_inv q" and "snd (pq_pop q) = Some v"
  shows "\<exists>q' p. q = q' @ [(p, v)] \<and> fst (pq_pop q) = q' \<and> pq_inv q' \<and> (\<forall>e \<in> set q'. fst e \<le> p)"
proof -
  obtain q' e where q: "q = q' @ [e]"
    using assms(2) by (cases q rule: rev_cases) (auto simp: pq_pop_def)
  then show ?thesis
    using assms by (cases e) (auto simp: pq_pop_def pq_inv_def sorted_append)
qed

interpretation pq: stable_queue pq_push pq_pop pq_items pq_inv
proof
  fix q :: "'a pq" and v p
  assume i: "pq_inv q"
  show "pq_inv (pq_push q v p) \<and> pq_items (pq_push q v p) = (pq_items q)(p := pq_items q p @ [v])"
    using pq_push_inv[OF i] by (auto simp: pq_items_def filter_pq_push[OF i] fun_eq_iff)
next
  fix q :: "'a pq"
  assume "snd (pq_pop q) = None"
  then show "fst (pq_pop q) = q \<and> pq_items q = (\<lambda>_. [])" by (rule pq_pop_none)
next
  fix q :: "'a pq" and v
  assume "pq_inv q" "snd (pq_pop q) = Some v"
  from pq_pop_some[OF this] obtain q' p where
    q: "q = q' @ [(p, v)]" "fst (pq_pop q) = q'" "pq_inv q'" "\<forall>e \<in> set q'. fst e \<le> p" by blast
  have "pq_items q p' = []" if "p' > p" for p'
    using q(1,4) that by (auto simp: pq_items_def filter_empty_conv)
  then show "pq_inv (fst (pq_pop q)) \<and>
      (\<exists>p. pq_items q p = v # pq_items (fst (pq_pop q)) p \<and> (\<forall>p' > p. pq_items q p' = []) \<and>
           (\<forall>p'. p' \<noteq> p \<longrightarrow> pq_items (fst (pq_pop q)) p' = pq_items q p'))"
    using q by (intro conjI exI[of _ p]) (auto simp: pq_items_def)
qed

section \<open>Properties\<close>

text \<open>Popping until the queue is empty.\<close>

function pq_drain :: "'v pq \<Rightarrow> 'v list" where
  "pq_drain q = (case pq_pop q of (q', None) \<Rightarrow> [] | (q', Some v) \<Rightarrow> v # pq_drain q')"
  by pat_completeness auto
termination
  by (relation "measure length") (auto simp: pq_pop_def split: if_splits)

declare pq_drain.simps [simp del]

lemma pq_drain_rev: "pq_drain q = map snd (rev q)"
proof (induction q rule: rev_induct)
  case Nil
  then show ?case by (subst pq_drain.simps) (simp add: pq_pop_def)
next
  case (snoc e q)
  then show ?case by (subst pq_drain.simps) (simp add: pq_pop_def)
qed

lemma pq_push_all_sort:
  "rev (pq.push_all [] xs) = map prod.swap (sort_key (\<lambda>e. - snd e) xs)"
proof -
  let ?q = "pq.push_all [] xs"
  have i: "pq_inv ([] :: 'a pq)" by (simp add: pq_inv_def)
  have inv: "pq_inv ?q" and it: "pq_items ?q p = map fst (filter (\<lambda>(v, p'). p' = p) xs)" for p
    using pq.push_all_spec[OF i, of xs] by (simp_all add: pq_items_def)
  let ?ys = "map prod.swap (rev ?q)"
  have fy: "filter (\<lambda>e. snd e = p) ?ys = filter (\<lambda>e. snd e = p) xs" for p
  proof -
    have a: "filter (\<lambda>e. snd e = p) zs = map (\<lambda>v. (v, p)) (map fst (filter (\<lambda>e. snd e = p) zs))"
      for zs :: "('a \<times> int) list"
      by (induction zs) auto
    have "map fst (filter (\<lambda>e. snd e = p) ?ys) = map fst (filter (\<lambda>e. snd e = p) xs)"
      using it[of p]
      by (simp add: pq_items_def rev_map rev_filter filter_map comp_def case_prod_beta')
    then show ?thesis by (metis a)
  qed
  have "sort_key (\<lambda>e. - snd e) xs = ?ys"
  proof (rule properties_for_sort_key)
    show "mset ?ys = mset xs"
    proof (rule multiset_eqI)
      fix e :: "'a \<times> int"
      have "count (mset zs) e = length (filter (\<lambda>e'. e' = e) (filter (\<lambda>e'. snd e' = snd e) zs))"
        for zs by (induction zs) auto
      then show "count (mset ?ys) e = count (mset xs) e" by (metis fy)
    qed
    show "filter (\<lambda>x. - snd k = - snd x) ?ys = filter (\<lambda>x. - snd k = - snd x) xs"
      if "k \<in> set ?ys" for k
      using fy[of "snd k"] by (simp add: eq_commute)
    have "sorted (rev (map uminus (map fst ?q)))" if "sorted (map fst ?q)"
      using that by (simp add: sorted_wrt_rev sorted_wrt_map)
    then show "sorted (map (\<lambda>e. - snd e) ?ys)"
      using inv by (simp add: pq_inv_def rev_map comp_def)
  qed
  then show ?thesis by simp
qed

text \<open>
  C16: pushing any values with any priorities into an empty queue and popping them all
  returns them in descending order of priority, and in the order of the pushes within one
  priority: the queue is a stable sort.
\<close>

theorem pq_drain_stable_sort:
  "pq_drain (pq.push_all [] xs) = map fst (sort_key (\<lambda>(v, p). - p) xs)"
proof -
  have "snd \<circ> prod.swap = (fst :: 'a \<times> int \<Rightarrow> 'a)" by auto
  then show ?thesis by (simp add: pq_drain_rev pq_push_all_sort case_prod_beta')
qed

lemma pq_remove_loop_filter:
  "it \<le> length q \<Longrightarrow> pq_remove_loop fn q it =
     take it q @ filter (\<lambda>e. \<not> fn (snd e) (fst e)) (drop it q)"
proof (induction fn q it rule: pq_remove_loop.induct)
  case (1 fn q it)
  show ?case
  proof (cases "it < length q")
    case True
    then have d: "drop it q = q ! it # drop (Suc it) q" by (rule Cons_nth_drop_Suc[symmetric])
    show ?thesis
      using "1.IH" True
      by (subst pq_remove_loop.simps) (auto simp: d min_def take_Suc_conv_app_nth)
  next
    case False
    then show ?thesis using "1.prems" by (simp add: pq_remove_loop.simps)
  qed
qed

text \<open>
  remove_if removes exactly the entries its predicate selects; the others keep their
  order, so the first-in-first-out list of every priority loses just those values.
\<close>

theorem pq_remove_if_items:
  assumes "pq_inv q"
  shows "pq_inv (pq_remove_if fn q) \<and>
    (\<forall>p. pq_items (pq_remove_if fn q) p = filter (\<lambda>v. \<not> fn v p) (pq_items q p))"
proof -
  have r: "pq_remove_if fn q = filter (\<lambda>e. \<not> fn (snd e) (fst e)) q"
    by (simp add: pq_remove_if_def pq_remove_loop_filter)
  have h: "filter (\<lambda>v. \<not> fn v p) (map snd (filter (\<lambda>e. fst e = p) q)) =
      map snd (filter (\<lambda>e. fst e = p) (filter (\<lambda>e. \<not> fn (snd e) (fst e)) q))" for p
    by (induction q) auto
  have "pq_items (pq_remove_if fn q) p = filter (\<lambda>v. \<not> fn v p) (pq_items q p)" for p
    by (simp only: r pq_items_def rev_filter[symmetric] h)
  then show ?thesis using assms by (simp add: r pq_inv_def sorted_filter)
qed

theorem pq_remove_if_items_witness:
  "pq_items (pq_remove_if (\<lambda>v p. v = 7) [(1, 7), (1, 8), (2, 7::nat)]) 1 = [8]"
  using pq_remove_if_items[of "[(1, 7), (1, 8), (2, 7::nat)]" "\<lambda>v p. v = 7"]
  by (simp add: pq_inv_def pq_items_def)

end
