(* ===== verification/TSQueue.thy ===== *)
theory TSQueue
  imports QueueSpec
begin

text \<open>
  include/nhope/async/ts-queue.h and include/nhope/seq/chan.h. First the critical sections
  (what a thread does while it holds m_mutex) as functions, then the threads that block on
  the two condition variables as a step relation, then Chan, the channel built on the queue.

  m_rcv and m_wcv are modelled by the threads that wait on them. A thread inside write or
  read is waiting (asleep on the condition variable), woken (notified or woken spuriously,
  about to take the mutex and evaluate the predicate again) or expired (its timeout has
  passed, about to evaluate the predicate for the last time).
\<close>

section \<open>The critical sections\<close>

record 'a tsqueue =
  m_capacity :: nat
  m_closed :: bool
  m_values :: "'a list"

definition tsq_make :: "nat \<Rightarrow> 'a tsqueue" where
  "tsq_make capacity = \<lparr>m_capacity = capacity, m_closed = False, m_values = []\<rparr>"

definition tsq_close :: "'a tsqueue \<Rightarrow> 'a tsqueue" where
  "tsq_close q = q\<lparr>m_closed := True\<rparr>"

text \<open>The predicates the two waits test.\<close>

definition tsq_write_ready :: "'a tsqueue \<Rightarrow> bool" where
  "tsq_write_ready q \<longleftrightarrow> m_closed q \<or> length (m_values q) < m_capacity q"

definition tsq_read_ready :: "'a tsqueue \<Rightarrow> bool" where
  "tsq_read_ready q \<longleftrightarrow> m_closed q \<or> m_values q \<noteq> []"

text \<open>
  The rest of write and read, behind the wait. The result says what the call returns; the
  other condition variable is notified exactly when the call succeeds.
\<close>

definition tsq_write_body :: "'a tsqueue \<Rightarrow> 'a \<Rightarrow> 'a tsqueue \<times> bool" where
  "tsq_write_body q value =
     (if m_closed q then (q, False) else (q\<lparr>m_values := m_values q @ [value]\<rparr>, True))"

definition tsq_read_body :: "'a tsqueue \<Rightarrow> 'a tsqueue \<times> 'a option" where
  "tsq_read_body q =
     (case m_values q of [] \<Rightarrow> (q, None) | v # vs \<Rightarrow> (q\<lparr>m_values := vs\<rparr>, Some v))"

text \<open>write and read with a timeout, at the moment the wait is over.\<close>

definition tsq_write_timeout :: "'a tsqueue \<Rightarrow> 'a \<Rightarrow> 'a tsqueue \<times> bool" where
  "tsq_write_timeout q value =
     (let waitSuccess = tsq_write_ready q in
      if \<not> waitSuccess \<or> m_closed q then (q, False) else tsq_write_body q value)"

definition tsq_read_timeout :: "'a tsqueue \<Rightarrow> 'a tsqueue \<times> 'a option" where
  "tsq_read_timeout q =
     (let waitSuccess = tsq_read_ready q in
      if \<not> waitSuccess \<or> m_values q = [] then (q, None) else tsq_read_body q)"

definition tsq_size :: "'a tsqueue \<Rightarrow> nat" where
  "tsq_size q = length (m_values q)"

definition tsq_empty :: "'a tsqueue \<Rightarrow> bool" where
  "tsq_empty q \<longleftrightarrow> m_values q = []"

definition tsq_inv :: "nat \<Rightarrow> 'a tsqueue \<Rightarrow> bool" where
  "tsq_inv cap q \<longleftrightarrow> m_capacity q = cap \<and> length (m_values q) \<le> cap"

lemmas tsq_defs = tsq_write_body_def tsq_read_body_def tsq_write_timeout_def
  tsq_read_timeout_def tsq_write_ready_def tsq_read_ready_def tsq_close_def

interpretation tsq: bounded_queue "\<lambda>q v. Some (tsq_write_timeout q v)"
  "\<lambda>q. Some (tsq_read_timeout q)" m_values "tsq_inv cap" cap
  by unfold_locales (auto simp: tsq_defs tsq_inv_def Let_def split: list.splits)

section \<open>The threads\<close>

text \<open>
  The state of the queue with its blocked threads. Writers carry the value they want to
  write. log_in and log_out are ghost state: the values that write accepted and that read
  returned, in the order of the critical sections.
\<close>

type_synonym tid = nat

record 'a tsq_sys =
  queue :: "'a tsqueue"
  r_waiting :: "tid set"
  r_woken :: "tid set"
  r_expired :: "tid set"
  w_waiting :: "(tid \<times> 'a) set"
  w_woken :: "(tid \<times> 'a) set"
  w_expired :: "(tid \<times> 'a) set"
  log_in :: "'a list"
  log_out :: "'a list"

definition tsq_init :: "nat \<Rightarrow> 'a tsq_sys" where
  "tsq_init cap = \<lparr>queue = tsq_make cap, r_waiting = {}, r_woken = {}, r_expired = {},
     w_waiting = {}, w_woken = {}, w_expired = {}, log_in = [], log_out = []\<rparr>"

text \<open>notify_one wakes some waiting thread, if there is one.\<close>

inductive notify_one :: "'t set \<Rightarrow> 't set \<Rightarrow> 't set \<Rightarrow> 't set \<Rightarrow> bool" where
  notify_none: "notify_one {} wo {} wo"
| notify_some: "t \<in> wa \<Longrightarrow> notify_one wa wo (wa - {t}) (insert t wo)"

text \<open>A thread that holds the mutex and whose predicate holds finishes its call.\<close>

inductive finish_write :: "'a tsq_sys \<Rightarrow> 'a \<Rightarrow> 'a tsq_sys \<Rightarrow> bool" where
  finish_write_closed: "tsq_write_body (queue s) v = (q', False) \<Longrightarrow>
     finish_write s v (s\<lparr>queue := q'\<rparr>)"
| finish_write_ok: "tsq_write_body (queue s) v = (q', True) \<Longrightarrow>
     notify_one (r_waiting s) (r_woken s) wa wo \<Longrightarrow>
     finish_write s v (s\<lparr>queue := q', r_waiting := wa, r_woken := wo, log_in := log_in s @ [v]\<rparr>)"

inductive finish_read :: "'a tsq_sys \<Rightarrow> 'a tsq_sys \<Rightarrow> bool" where
  finish_read_none: "tsq_read_body (queue s) = (q', None) \<Longrightarrow> finish_read s (s\<lparr>queue := q'\<rparr>)"
| finish_read_ok: "tsq_read_body (queue s) = (q', Some v) \<Longrightarrow>
     notify_one (w_waiting s) (w_woken s) wa wo \<Longrightarrow>
     finish_read s (s\<lparr>queue := q', w_waiting := wa, w_woken := wo, log_out := log_out s @ [v]\<rparr>)"

definition busy :: "'a tsq_sys \<Rightarrow> tid set" where
  "busy s = r_waiting s \<union> r_woken s \<union> r_expired s \<union>
     fst ` (w_waiting s \<union> w_woken s \<union> w_expired s)"

inductive tsq_step :: "'a tsq_sys \<Rightarrow> 'a tsq_sys \<Rightarrow> bool" where
  close: "tsq_step s (s\<lparr>queue := tsq_close (queue s),
     r_woken := r_woken s \<union> r_waiting s, r_waiting := {},
     w_woken := w_woken s \<union> w_waiting s, w_waiting := {}\<rparr>)"
| write_enter_ready: "t \<notin> busy s \<Longrightarrow> tsq_write_ready (queue s) \<Longrightarrow> finish_write s v s' \<Longrightarrow>
     tsq_step s s'"
| write_enter_wait: "t \<notin> busy s \<Longrightarrow> \<not> tsq_write_ready (queue s) \<Longrightarrow>
     tsq_step s (s\<lparr>w_waiting := insert (t, v) (w_waiting s)\<rparr>)"
| write_woken_ready: "(t, v) \<in> w_woken s \<Longrightarrow> tsq_write_ready (queue s) \<Longrightarrow>
     finish_write (s\<lparr>w_woken := w_woken s - {(t, v)}\<rparr>) v s' \<Longrightarrow> tsq_step s s'"
| write_woken_wait: "(t, v) \<in> w_woken s \<Longrightarrow> \<not> tsq_write_ready (queue s) \<Longrightarrow>
     tsq_step s (s\<lparr>w_woken := w_woken s - {(t, v)}, w_waiting := insert (t, v) (w_waiting s)\<rparr>)"
| write_expire: "(t, v) \<in> w_waiting s \<Longrightarrow>
     tsq_step s (s\<lparr>w_waiting := w_waiting s - {(t, v)}, w_expired := insert (t, v) (w_expired s)\<rparr>)"
| write_expired_ready: "(t, v) \<in> w_expired s \<Longrightarrow> tsq_write_ready (queue s) \<Longrightarrow>
     finish_write (s\<lparr>w_expired := w_expired s - {(t, v)}\<rparr>) v s' \<Longrightarrow> tsq_step s s'"
| write_expired_fail: "(t, v) \<in> w_expired s \<Longrightarrow> \<not> tsq_write_ready (queue s) \<Longrightarrow>
     tsq_step s (s\<lparr>w_expired := w_expired s - {(t, v)}\<rparr>)"
| write_spurious: "(t, v) \<in> w_waiting s \<Longrightarrow>
     tsq_step s (s\<lparr>w_waiting := w_waiting s - {(t, v)}, w_woken := insert (t, v) (w_woken s)\<rparr>)"
| read_enter_ready: "t \<notin> busy s \<Longrightarrow> tsq_read_ready (queue s) \<Longrightarrow> finish_read s s' \<Longrightarrow> tsq_step s s'"
| read_enter_wait: "t \<notin> busy s \<Longrightarrow> \<not> tsq_read_ready (queue s) \<Longrightarrow>
     tsq_step s (s\<lparr>r_waiting := insert t (r_waiting s)\<rparr>)"
| read_woken_ready: "t \<in> r_woken s \<Longrightarrow> tsq_read_ready (queue s) \<Longrightarrow>
     finish_read (s\<lparr>r_woken := r_woken s - {t}\<rparr>) s' \<Longrightarrow> tsq_step s s'"
| read_woken_wait: "t \<in> r_woken s \<Longrightarrow> \<not> tsq_read_ready (queue s) \<Longrightarrow>
     tsq_step s (s\<lparr>r_woken := r_woken s - {t}, r_waiting := insert t (r_waiting s)\<rparr>)"
| read_expire: "t \<in> r_waiting s \<Longrightarrow>
     tsq_step s (s\<lparr>r_waiting := r_waiting s - {t}, r_expired := insert t (r_expired s)\<rparr>)"
| read_expired_ready: "t \<in> r_expired s \<Longrightarrow> tsq_read_ready (queue s) \<Longrightarrow>
     finish_read (s\<lparr>r_expired := r_expired s - {t}\<rparr>) s' \<Longrightarrow> tsq_step s s'"
| read_expired_fail: "t \<in> r_expired s \<Longrightarrow> \<not> tsq_read_ready (queue s) \<Longrightarrow>
     tsq_step s (s\<lparr>r_expired := r_expired s - {t}\<rparr>)"
| read_spurious: "t \<in> r_waiting s \<Longrightarrow>
     tsq_step s (s\<lparr>r_waiting := r_waiting s - {t}, r_woken := insert t (r_woken s)\<rparr>)"

inductive tsq_reachable :: "nat \<Rightarrow> 'a tsq_sys \<Rightarrow> bool" for cap where
  reach_init: "tsq_reachable cap (tsq_init cap)"
| reach_step: "tsq_reachable cap s \<Longrightarrow> tsq_step s s' \<Longrightarrow> tsq_reachable cap s'"

section \<open>No wake-up is lost\<close>

text \<open>
  The two sides are alike: of n things to hand out (values for readers, free cells for
  writers) as many as there are were signalled to threads on their way, or nobody waits.
\<close>

definition served :: "nat \<Rightarrow> 't set \<Rightarrow> 't set \<Rightarrow> bool" where
  "served n wa wo \<longleftrightarrow> finite wa \<and> finite wo \<and> wa \<inter> wo = {} \<and> (wa = {} \<or> n \<le> card wo)"

lemma served_notify:
  assumes "notify_one wa wo wa' wo'" and "served n wa wo"
  shows "served (Suc n) wa' wo'"
  using assms by cases (auto simp: served_def card_insert_if)

lemma served_less: "served n wa wo \<Longrightarrow> m \<le> n \<Longrightarrow> served m wa wo"
  by (auto simp: served_def)

lemma served_leave_waiting: "served n wa wo \<Longrightarrow> served n (wa - {t}) wo"
  by (auto simp: served_def)

lemma served_woken_take: "served n wa wo \<Longrightarrow> t \<in> wo \<Longrightarrow> served (n - 1) wa (wo - {t})"
  by (auto simp: served_def card_Diff_singleton)

lemma served_woken_back: "served 0 wa wo \<Longrightarrow> served 0 (insert t wa) (wo - {t})"
  by (auto simp: served_def)

lemma served_enter: "served 0 wa wo \<Longrightarrow> t \<notin> wo \<Longrightarrow> served 0 (insert t wa) wo"
  by (auto simp: served_def)

lemma served_spurious: "served n wa wo \<Longrightarrow> t \<in> wa \<Longrightarrow> served n (wa - {t}) (insert t wo)"
  by (auto simp: served_def card_insert_if)

lemma served_all: "served n wa wo \<Longrightarrow> served m {} (wo \<union> wa)"
  by (auto simp: served_def)

lemma served_take_notify:
  assumes "notify_one wa wo wa' wo'" and "served n wa wo"
  shows "served n wa' wo'"
  using served_less[OF served_notify[OF assms]] by simp

definition tsq_sys_inv :: "nat \<Rightarrow> 'a tsq_sys \<Rightarrow> bool" where
  "tsq_sys_inv cap s \<longleftrightarrow> tsq_inv cap (queue s) \<and>
     log_in s = log_out s @ m_values (queue s) \<and>
     (m_closed (queue s) \<longrightarrow> r_waiting s = {} \<and> w_waiting s = {}) \<and>
     served (length (m_values (queue s))) (r_waiting s) (r_woken s) \<and>
     served (cap - length (m_values (queue s))) (w_waiting s) (w_woken s)"

lemma served_empty: "served n {} wo \<Longrightarrow> served m {} wo"
  by (auto simp: served_def)

lemma finish_write_inv:
  assumes "finish_write s v s'" and "tsq_write_ready (queue s)" and "tsq_inv cap (queue s)"
    and "log_in s = log_out s @ m_values (queue s)"
    and "m_closed (queue s) \<longrightarrow> r_waiting s = {} \<and> w_waiting s = {}"
    and "served (length (m_values (queue s))) (r_waiting s) (r_woken s)"
    and "served (cap - length (m_values (queue s)) - 1) (w_waiting s) (w_woken s)"
  shows "tsq_sys_inv cap s'"
  using assms(1)
proof cases
  case (finish_write_closed q')
  then have "m_closed (queue s)" "q' = queue s"
    by (auto simp: tsq_write_body_def split: if_splits)
  then show ?thesis using assms finish_write_closed
    by (auto simp: tsq_sys_inv_def intro: served_empty)
next
  case (finish_write_ok q' wa wo)
  then have "\<not> m_closed (queue s)" "q' = (queue s)\<lparr>m_values := m_values (queue s) @ [v]\<rparr>"
    by (auto simp: tsq_write_body_def split: if_splits)
  then show ?thesis using assms finish_write_ok served_notify[OF finish_write_ok(3) assms(6)]
    by (auto simp: tsq_sys_inv_def tsq_inv_def tsq_write_ready_def)
qed

lemma finish_read_inv:
  assumes "finish_read s s'" and "tsq_read_ready (queue s)" and "tsq_inv cap (queue s)"
    and "log_in s = log_out s @ m_values (queue s)"
    and "m_closed (queue s) \<longrightarrow> r_waiting s = {} \<and> w_waiting s = {}"
    and "served (length (m_values (queue s)) - 1) (r_waiting s) (r_woken s)"
    and "served (cap - length (m_values (queue s))) (w_waiting s) (w_woken s)"
  shows "tsq_sys_inv cap s'"
  using assms(1)
proof cases
  case (finish_read_none q')
  then have "m_values (queue s) = []" "q' = queue s"
    by (auto simp: tsq_read_body_def split: list.splits)
  then show ?thesis using assms finish_read_none
    by (auto simp: tsq_sys_inv_def)
next
  case (finish_read_ok q' v wa wo)
  then obtain vs where q: "m_values (queue s) = v # vs" "q' = (queue s)\<lparr>m_values := vs\<rparr>"
    by (auto simp: tsq_read_body_def split: list.splits)
  have "Suc (cap - length (m_values (queue s))) = cap - length vs"
    using q assms(3) by (auto simp: tsq_inv_def)
  moreover have "m_closed (queue s) \<longrightarrow> wa = {}"
    using finish_read_ok(3) assms(5) by (auto elim: notify_one.cases)
  ultimately show ?thesis
    using assms q finish_read_ok served_notify[OF finish_read_ok(3) assms(7)]
    by (auto simp: tsq_sys_inv_def tsq_inv_def)
qed

lemma busy_woken: "t \<notin> busy s \<Longrightarrow> t \<notin> r_woken s \<and> (t, v) \<notin> w_woken s"
  by (force simp: busy_def)

lemma tsq_init_inv: "tsq_sys_inv cap (tsq_init cap)"
  by (auto simp: tsq_sys_inv_def tsq_init_def tsq_make_def tsq_inv_def served_def)

lemma tsq_step_inv:
  assumes "tsq_step s s'" and "tsq_sys_inv cap s"
  shows "tsq_sys_inv cap s'"
proof -
  let ?n = "length (m_values (queue s))"
  have inv: "tsq_inv cap (queue s)" "log_in s = log_out s @ m_values (queue s)"
      "m_closed (queue s) \<longrightarrow> r_waiting s = {} \<and> w_waiting s = {}"
    and r: "served ?n (r_waiting s) (r_woken s)"
    and w: "served (cap - ?n) (w_waiting s) (w_woken s)"
    using assms(2) by (auto simp: tsq_sys_inv_def)
  have nr: "served 0 (r_waiting s) (r_woken s)" using r served_less by blast
  have nw: "served 0 (w_waiting s) (w_woken s)" using w served_less by blast
  have emp: "?n = 0" if "\<not> tsq_read_ready (queue s)" using that by (simp add: tsq_read_ready_def)
  have full: "cap - ?n = 0" if "\<not> tsq_write_ready (queue s)"
    using that inv(1) by (simp add: tsq_write_ready_def tsq_inv_def)
  note waits = served_enter[OF nr] served_woken_back[OF nr] served_enter[OF nw] served_woken_back[OF nw]
    served_leave_waiting[OF w] served_leave_waiting[OF r] served_spurious[OF w] served_spurious[OF r]
  from assms(1) show ?thesis
  proof cases
    case close
    then show ?thesis using inv r w
      by (auto simp: tsq_sys_inv_def tsq_close_def tsq_inv_def intro: served_all)
  next
    case (write_enter_ready t v)
    then show ?thesis
      by (intro finish_write_inv[OF write_enter_ready(3)] inv r served_less[OF w]) auto
  next
    case (write_woken_ready t v)
    show ?thesis
      by (rule finish_write_inv[OF write_woken_ready(3)])
        (use inv r served_woken_take[OF w write_woken_ready(1)] write_woken_ready(2) in auto)
  next
    case (write_expired_ready t v)
    show ?thesis
      by (rule finish_write_inv[OF write_expired_ready(3)])
        (use inv r served_less[OF w] write_expired_ready(2) in auto)
  next
    case (read_enter_ready t)
    then show ?thesis
      by (intro finish_read_inv[OF read_enter_ready(3)] inv w served_less[OF r]) auto
  next
    case (read_woken_ready t)
    show ?thesis
      by (rule finish_read_inv[OF read_woken_ready(3)])
        (use inv w served_woken_take[OF r read_woken_ready(1)] read_woken_ready(2) in auto)
  next
    case (read_expired_ready t)
    show ?thesis
      by (rule finish_read_inv[OF read_expired_ready(3)])
        (use inv w served_less[OF r] read_expired_ready(2) in auto)
  qed (use inv r w waits emp full busy_woken[of _ s] in
      \<open>auto simp: tsq_sys_inv_def tsq_read_ready_def tsq_write_ready_def\<close>)
qed

lemma tsq_reachable_inv: "tsq_reachable cap s \<Longrightarrow> tsq_sys_inv cap s"
  by (induction rule: tsq_reachable.induct) (auto intro: tsq_init_inv tsq_step_inv)

text \<open>
  C9: with any number of threads, and with timeouts and spurious wake-ups at any moment,
  what the reads have returned followed by what is in the queue is exactly what the writes
  have accepted, in that order, and the capacity is never exceeded.
\<close>

theorem tsq_fifo:
  assumes "tsq_reachable cap s"
  shows "log_in s = log_out s @ m_values (queue s) \<and> length (m_values (queue s)) \<le> cap"
  using tsq_reachable_inv[OF assms] by (auto simp: tsq_sys_inv_def tsq_inv_def)

text \<open>
  C8: notify_one is enough. Whenever a reader sleeps on the condition variable, the queue
  is open and every value in it belongs to a reader that has been woken and has not run yet;
  whenever a writer sleeps, the same holds for the free cells. So a queue with a value never
  leaves all its readers asleep, nor one with a free cell all its writers, and nobody sleeps
  once the queue is closed.
\<close>

theorem tsq_no_lost_wakeup:
  assumes "tsq_reachable cap s"
  shows "(r_waiting s \<noteq> {} \<longrightarrow> \<not> m_closed (queue s) \<and>
            length (m_values (queue s)) \<le> card (r_woken s)) \<and>
         (w_waiting s \<noteq> {} \<longrightarrow> \<not> m_closed (queue s) \<and>
            cap - length (m_values (queue s)) \<le> card (w_woken s))"
  using tsq_reachable_inv[OF assms] by (auto simp: tsq_sys_inv_def served_def)

text \<open>A run for the two witnesses: two readers wait, a writer wakes the first of them.\<close>

definition tsq_example :: "nat tsq_sys" where
  "tsq_example = \<lparr>queue = \<lparr>m_capacity = 2, m_closed = False, m_values = [7]\<rparr>,
     r_waiting = {2}, r_woken = {1}, r_expired = {}, w_waiting = {}, w_woken = {},
     w_expired = {}, log_in = [7], log_out = []\<rparr>"

lemma tsq_example_reachable: "tsq_reachable 2 tsq_example"
proof -
  let ?s0 = "tsq_init 2 :: nat tsq_sys"
  let ?s1 = "?s0\<lparr>r_waiting := insert 1 (r_waiting ?s0)\<rparr>"
  let ?s2 = "?s1\<lparr>r_waiting := insert 2 (r_waiting ?s1)\<rparr>"
  have s1: "tsq_reachable 2 ?s1"
    by (rule reach_step[OF reach_init read_enter_wait])
      (simp_all add: busy_def tsq_init_def tsq_make_def tsq_read_ready_def)
  have s2: "tsq_reachable 2 ?s2"
    by (rule reach_step[OF s1 read_enter_wait])
      (simp_all add: busy_def tsq_init_def tsq_make_def tsq_read_ready_def)
  have n: "notify_one (r_waiting ?s2) (r_woken ?s2) {2} {1}"
    using notify_some[of 1 "r_waiting ?s2" "r_woken ?s2"]
    by (simp add: tsq_init_def insert_Diff_if)
  have "finish_write ?s2 7 tsq_example"
    using finish_write_ok[of ?s2 7, OF _ n]
    by (simp add: tsq_write_body_def tsq_init_def tsq_make_def tsq_example_def)
  then have "tsq_step ?s2 tsq_example"
    by (rule write_enter_ready[of 3, rotated 2])
      (simp_all add: busy_def tsq_init_def tsq_make_def tsq_write_ready_def)
  with s2 show ?thesis by (rule reach_step)
qed

theorem tsq_fifo_witness:
  "log_in tsq_example = [7] \<and> log_in tsq_example = log_out tsq_example @ m_values (queue tsq_example)"
  using tsq_fifo[OF tsq_example_reachable] by (simp add: tsq_example_def)

theorem tsq_no_lost_wakeup_witness:
  "r_waiting tsq_example \<noteq> {} \<and> length (m_values (queue tsq_example)) \<le> card (r_woken tsq_example)"
  using tsq_no_lost_wakeup[OF tsq_example_reachable] by (simp add: tsq_example_def)

end
