(* ===== verification/Consumers.thy ===== *)
theory Consumers
  imports TSQueue
begin

text \<open>
  The consumers of include/nhope/seq: the enum Consumer::Status, ConsumerList
  (consumer-list.h), Chan and its inputs (chan.h), TakeOneConsumer (take-one-consumer.h,
  take.h), the input of Notifier (notifier.h) and FuncProducer (func-producer.h).

  A consumer is any object with a state 'c and a function consume that returns the new state
  and either a status or an exception (Inl).
\<close>

datatype consume_status = Status_Ok | Status_Closed

type_synonym ('c, 'v, 'e) consume_fn = "'c \<Rightarrow> 'v \<Rightarrow> 'c \<times> ('e + consume_status)"

section \<open>ConsumerList\<close>

record 'c consumer_list =
  cl_closed :: bool
  cl_list :: "'c list"

definition cl_make :: "'c consumer_list" where
  "cl_make = \<lparr>cl_closed = False, cl_list = []\<rparr>"

definition cl_close :: "'c consumer_list \<Rightarrow> 'c consumer_list" where
  "cl_close l = l\<lparr>cl_closed := True, cl_list := []\<rparr>"

definition cl_addConsumer :: "'c consumer_list \<Rightarrow> 'c \<Rightarrow> 'c consumer_list" where
  "cl_addConsumer l c = (if cl_closed l then l else l\<lparr>cl_list := cl_list l @ [c]\<rparr>)"

definition exceptionSafeConsume ::
  "('c, 'v, 'e) consume_fn \<Rightarrow> 'c \<Rightarrow> 'v \<Rightarrow> 'c \<times> consume_status" where
  "exceptionSafeConsume consume c v =
     (case consume c v of (c', Inr st) \<Rightarrow> (c', st) | (c', Inl e) \<Rightarrow> (c', Status_Ok))"

fun cl_loop :: "('c, 'v, 'e) consume_fn \<Rightarrow> 'v \<Rightarrow> 'c list \<Rightarrow> 'c list" where
  "cl_loop consume v [] = []"
| "cl_loop consume v (c # cs) =
     (case exceptionSafeConsume consume c v of
        (c', Status_Ok) \<Rightarrow> c' # cl_loop consume v cs
      | (c', Status_Closed) \<Rightarrow> cl_loop consume v cs)"

text \<open>
  consume gives the mutex back while it walks over the spliced-out list (ReverseLock); env is
  what other threads, or the consumers themselves, do to the list object meanwhile.
\<close>

definition cl_consume ::
  "('c, 'v, 'e) consume_fn \<Rightarrow> ('c consumer_list \<Rightarrow> 'c consumer_list) \<Rightarrow>
   'c consumer_list \<Rightarrow> 'v \<Rightarrow> 'c consumer_list \<times> consume_status" where
  "cl_consume consume env l v =
     (if cl_closed l then (l, Status_Closed)
      else
        (let list = cl_list l;
             l = env (l\<lparr>cl_list := []\<rparr>);
             list = cl_loop consume v list
         in (l\<lparr>cl_list := list @ cl_list l\<rparr>, Status_Ok)))"

text \<open>Calls on an open list; a Consume lists the consumers that are added while it runs.\<close>

datatype ('c, 'v) cl_event = Add 'c | Consume 'v "'c list"

fun cl_run :: "('c, 'v, 'e) consume_fn \<Rightarrow> 'c consumer_list \<Rightarrow> ('c, 'v) cl_event list \<Rightarrow>
    'c consumer_list" where
  "cl_run consume l [] = l"
| "cl_run consume l (Add c # es) = cl_run consume (cl_addConsumer l c) es"
| "cl_run consume l (Consume v cs # es) =
     cl_run consume (fst (cl_consume consume (\<lambda>l. foldl cl_addConsumer l cs) l v)) es"

text \<open>What one consumer sees: its values in order, until it says Closed.\<close>

fun feed :: "('c, 'v, 'e) consume_fn \<Rightarrow> 'c \<Rightarrow> 'v list \<Rightarrow> 'c option" where
  "feed consume c [] = Some c"
| "feed consume c (v # vs) =
     (case exceptionSafeConsume consume c v of
        (c', Status_Ok) \<Rightarrow> feed consume c' vs
      | (c', Status_Closed) \<Rightarrow> None)"

fun consumed :: "('c, 'v) cl_event list \<Rightarrow> 'v list" where
  "consumed [] = []"
| "consumed (Add c # es) = consumed es"
| "consumed (Consume v cs # es) = v # consumed es"

fun attached :: "('c, 'v) cl_event list \<Rightarrow> ('c \<times> 'v list) list" where
  "attached [] = []"
| "attached (Add c # es) = (c, consumed es) # attached es"
| "attached (Consume v cs # es) = map (\<lambda>c. (c, consumed es)) cs @ attached es"

definition feed_all :: "('c, 'v, 'e) consume_fn \<Rightarrow> ('c \<times> 'v list) list \<Rightarrow> 'c list" where
  "feed_all consume cvs = List.map_filter (\<lambda>(c, vs). feed consume c vs) cvs"

lemma feed_all_simps [simp]:
  "feed_all consume [] = []"
  "feed_all consume (xs @ ys) = feed_all consume xs @ feed_all consume ys"
  "feed_all consume ((c, vs) # xs) =
     (case feed consume c vs of None \<Rightarrow> feed_all consume xs | Some c' \<Rightarrow> c' # feed_all consume xs)"
  by (simp_all add: feed_all_def List.map_filter_def split: option.splits)

lemma feed_all_loop:
  "feed_all consume (map (\<lambda>c. (c, v # vs)) cs) =
   feed_all consume (map (\<lambda>c. (c, vs)) (cl_loop consume v cs))"
  by (induction cs) (auto split: prod.splits consume_status.splits option.splits)

lemma foldl_addConsumer:
  "\<not> cl_closed l \<Longrightarrow> foldl cl_addConsumer l cs = l\<lparr>cl_list := cl_list l @ cs\<rparr>"
  by (induction cs arbitrary: l) (simp_all add: cl_addConsumer_def)

lemma feed_all_nil: "feed_all consume (map (\<lambda>c. (c, [])) cs) = cs"
  by (induction cs) simp_all

lemma cl_run_feed:
  assumes "\<not> cl_closed l"
  shows "\<not> cl_closed (cl_run consume l es) \<and>
    cl_list (cl_run consume l es) =
      feed_all consume (map (\<lambda>c. (c, consumed es)) (cl_list l) @ attached es)"
  using assms
proof (induction es arbitrary: l)
  case Nil
  then show ?case by (simp add: feed_all_nil)
next
  case (Cons e es)
  show ?case
  proof (cases e)
    case (Add c)
    have "\<not> cl_closed (cl_addConsumer l c)" using Cons.prems by (simp add: cl_addConsumer_def)
    from Cons.IH[OF this] show ?thesis
      using Cons.prems by (simp add: Add cl_addConsumer_def)
  next
    case (Consume v cs)
    let ?l = "fst (cl_consume consume (\<lambda>l. foldl cl_addConsumer l cs) l v)"
    have l: "\<not> cl_closed ?l" "cl_list ?l = cl_loop consume v (cl_list l) @ cs"
      using Cons.prems by (simp_all add: cl_consume_def foldl_addConsumer Let_def)
    from Cons.IH[OF l(1)] show ?thesis by (simp add: Consume l feed_all_loop)
  qed
qed

text \<open>
  Consumes that follow one another: every consumer attached to the list sees exactly the values whose consume began
  after it was attached, up to the one for which it returned Closed. Consumers attached while a value is
  being delivered take their place behind the others. ConsumerThreads has the calls that overlap.
\<close>

theorem sequential_consumes_deliver:
  "cl_list (cl_run consume cl_make es) =
     List.map_filter (\<lambda>(c, vs). feed consume c vs) (attached es)"
  using cl_run_feed[of cl_make consume es] by (simp add: cl_make_def feed_all_def)

text \<open>
  close() during the delivery does not reach the consumers that are being served: they are
  spliced back into the closed list, where they stay until the list object is destroyed.
\<close>

lemma cl_close_during_consume:
  assumes "\<not> cl_closed l"
  shows "cl_consume consume cl_close l v =
    (\<lparr>cl_closed = True, cl_list = cl_loop consume v (cl_list l)\<rparr>, Status_Ok)"
  using assms by (cases l) (simp add: cl_consume_def cl_close_def Let_def)

section \<open>TakeOneConsumer\<close>

datatype 'v promise_call = SetValue 'v | SetCancelled

record 'v take_one =
  m_full :: bool
  m_promise :: "'v promise_call list"  \<comment> \<open>the calls on the promise so far\<close>

definition takeOne_make :: "'v take_one" where
  "takeOne_make = \<lparr>m_full = False, m_promise = []\<rparr>"

definition takeOne_consume :: "('v take_one, 'v, unit) consume_fn" where
  "takeOne_consume c value =
     (if m_full c then (c, Inr Status_Closed)
      else (c\<lparr>m_full := True, m_promise := m_promise c @ [SetValue value]\<rparr>, Inr Status_Closed))"

definition takeOne_destroy :: "'v take_one \<Rightarrow> 'v take_one" where
  "takeOne_destroy c =
     (if \<not> m_full c then c\<lparr>m_promise := m_promise c @ [SetCancelled]\<rparr> else c)"

lemma takeOne_full: "m_full c \<Longrightarrow> foldl (\<lambda>c v. fst (takeOne_consume c v)) c vs = c"
  by (induction vs) (simp_all add: takeOne_consume_def)

text \<open>
  the promise of takeOne is fulfilled exactly once over the life of its consumer: with
  the first value, however many follow, or with the cancellation if there was none.
\<close>

theorem takeOne_once:
  "m_promise (takeOne_destroy (foldl (\<lambda>c v. fst (takeOne_consume c v)) takeOne_make vs)) =
     [case vs of [] \<Rightarrow> SetCancelled | v # _ \<Rightarrow> SetValue v]"
proof (cases vs)
  case (Cons v vs')
  let ?c = "fst (takeOne_consume takeOne_make v)"
  have "m_full ?c" "m_promise ?c = [SetValue v]"
    by (simp_all add: takeOne_consume_def takeOne_make_def)
  then show ?thesis using Cons takeOne_full[of ?c vs'] by (simp add: takeOne_destroy_def)
qed (simp add: takeOne_destroy_def takeOne_make_def)

section \<open>The input of Notifier\<close>

text \<open>
  safeHandler is the callback makeSafeCallback returns: it posts the handler to the context
  or throws AOContextClosed.
\<close>

datatype 'e notifier_exn = AOContextClosedExn | HandlerExn 'e

definition notifier_consume ::
  "('s \<Rightarrow> 'v \<Rightarrow> 's \<times> ('e notifier_exn + unit)) \<Rightarrow> ('s, 'v, 'e notifier_exn) consume_fn" where
  "notifier_consume safeHandler s value =
     (case safeHandler s value of
        (s', Inr _) \<Rightarrow> (s', Inr Status_Ok)
      | (s', Inl AOContextClosedExn) \<Rightarrow> (s', Inr Status_Closed)
      | (s', Inl (HandlerExn e)) \<Rightarrow> (s', Inl (HandlerExn e)))"

section \<open>Chan\<close>

record 'v chan =
  autoClose :: bool
  chan_queue :: "'v tsqueue"
  inputCount :: nat

definition chan_make :: "bool \<Rightarrow> nat \<Rightarrow> 'v chan" where
  "chan_make auto capacity =
     \<lparr>autoClose = auto, chan_queue = tsq_make capacity, inputCount = 0\<rparr>"

definition chan_close :: "'v chan \<Rightarrow> 'v chan" where
  "chan_close c = c\<lparr>chan_queue := tsq_close (chan_queue c)\<rparr>"

definition chan_makeInput :: "'v chan \<Rightarrow> 'v chan" where
  "chan_makeInput c = c\<lparr>inputCount := inputCount c + 1\<rparr>"

definition chan_destroyInput :: "'v chan \<Rightarrow> 'v chan" where
  "chan_destroyInput c =
     (let c = c\<lparr>inputCount := inputCount c - 1\<rparr> in
      if inputCount c = 0 then (if autoClose c then chan_close c else c) else c)"

text \<open>consume and get of one thread; None: the call blocks in this state.\<close>

definition chan_consume :: "'v chan \<Rightarrow> 'v \<Rightarrow> ('v chan \<times> consume_status) option" where
  "chan_consume c v =
     (if tsq_write_ready (chan_queue c) then
        (let (q, ok) = tsq_write_body (chan_queue c) v
         in Some (c\<lparr>chan_queue := q\<rparr>, if ok then Status_Ok else Status_Closed))
      else None)"

definition chan_get :: "'v chan \<Rightarrow> ('v chan \<times> 'v option) option" where
  "chan_get c =
     (if tsq_read_ready (chan_queue c) then
        (let (q, r) = tsq_read_body (chan_queue c) in Some (c\<lparr>chan_queue := q\<rparr>, r))
      else None)"

fun chan_gets :: "nat \<Rightarrow> 'v chan \<Rightarrow> ('v chan \<times> 'v option list) option" where
  "chan_gets 0 c = Some (c, [])"
| "chan_gets (Suc n) c = Option.bind (chan_get c) (\<lambda>(c', r).
     map_option (\<lambda>(cn, rs). (cn, r # rs)) (chan_gets n c'))"

lemma chan_gets_closed:
  assumes "m_closed (chan_queue c)"
  shows "\<exists>c'. chan_gets (length (m_values (chan_queue c)) + n) c =
     Some (c', map Some (m_values (chan_queue c)) @ replicate n None)"
  using assms
proof (induction "m_values (chan_queue c)" arbitrary: c)
  case Nil
  have "chan_gets n c = Some (c, replicate n None)"
    using Nil by (induction n) (simp_all add: chan_get_def tsq_defs)
  then show ?case using Nil(1)[symmetric] by simp
next
  case (Cons v vs)
  let ?c = "c\<lparr>chan_queue := (chan_queue c)\<lparr>m_values := vs\<rparr>\<rparr>"
  have "chan_get c = Some (?c, Some v)"
    using Cons(2)[symmetric] Cons.prems by (simp add: chan_get_def tsq_defs)
  moreover obtain c' where "chan_gets (length vs + n) ?c = Some (c', map Some vs @ replicate n None)"
    using Cons(1)[of ?c] Cons.prems by auto
  ultimately show ?case using Cons(2)[symmetric] by simp
qed

text \<open>
  when the last input of an auto-closing channel is destroyed, no later get blocks:
  the gets return every value still in the channel, in order, and from then on nothing; and
  every further consume is refused.
\<close>

theorem chan_drains_after_last_input:
  assumes "autoClose c" and "inputCount c = 1"
  shows "(\<exists>c'. chan_gets (length (m_values (chan_queue c)) + n) (chan_destroyInput c) =
            Some (c', map Some (m_values (chan_queue c)) @ replicate n None)) \<and>
         (\<forall>v. chan_consume (chan_destroyInput c) v = Some (chan_destroyInput c, Status_Closed))"
proof -
  let ?c = "chan_destroyInput c"
  have "m_closed (chan_queue ?c)" "m_values (chan_queue ?c) = m_values (chan_queue c)"
    using assms by (simp_all add: chan_destroyInput_def chan_close_def tsq_close_def)
  with chan_gets_closed[of ?c n] show ?thesis
    by (simp add: chan_consume_def tsq_defs)
qed

theorem chan_drains_after_last_input_witness:
  "\<exists>c'. chan_gets 3 (chan_destroyInput \<lparr>autoClose = True,
     chan_queue = \<lparr>m_capacity = 5, m_closed = False, m_values = [1, 2::nat]\<rparr>, inputCount = 1\<rparr>)
   = Some (c', [Some 1, Some 2, None])"
  using chan_drains_after_last_input[of "\<lparr>autoClose = True,
     chan_queue = \<lparr>m_capacity = 5, m_closed = False, m_values = [1, 2::nat]\<rparr>, inputCount = 1\<rparr>" 1]
  by (simp add: numeral_3_eq_3)

section \<open>FuncProducer\<close>

datatype fp_state = FP_ReadyToStart | FP_Running | FP_Stopping | FP_Finished

text \<open>start reports whether the worker thread was started.\<close>

definition fp_start :: "fp_state \<Rightarrow> fp_state \<times> bool" where
  "fp_start st = (if st = FP_ReadyToStart then (FP_Running, True) else (st, False))"

definition fp_stop :: "fp_state \<Rightarrow> fp_state" where
  "fp_stop st = (if st = FP_Running then FP_Stopping else st)"

text \<open>
  The loop of run. running i says whether the i-th test finds the state Running (stop may be
  called by another thread at any moment), adds i are the consumers attached during the i-th
  delivery. func gets the variable value and may write it. The loop returns the values it
  delivered; None: the fuel did not suffice.
\<close>

fun fp_run :: "nat \<Rightarrow> (nat \<Rightarrow> bool) \<Rightarrow> (nat \<Rightarrow> 'c list) \<Rightarrow> ('f \<Rightarrow> 'v \<Rightarrow> 'f \<times> 'v \<times> bool) \<Rightarrow>
    ('c, 'v, 'e) consume_fn \<Rightarrow> 'f \<Rightarrow> 'v \<Rightarrow> 'c consumer_list \<Rightarrow> nat \<Rightarrow>
    ('c consumer_list \<times> ('c, 'v) cl_event list) option" where
  "fp_run 0 running adds func consume f value l i = None"
| "fp_run (Suc n) running adds func consume f value l i =
     (if running i then
        (case func f value of
           (f', value', True) \<Rightarrow>
             map_option (\<lambda>(l', es). (l', Consume value' (adds i) # es))
               (fp_run n running adds func consume f' value'
                  (fst (cl_consume consume (\<lambda>l. foldl cl_addConsumer l (adds i)) l value'))
                  (Suc i))
         | (f', value', False) \<Rightarrow> Some (cl_close l, []))
      else Some (cl_close l, []))"

text \<open>The values func produces in its first n calls, and whether it said true each time.\<close>

fun produce :: "nat \<Rightarrow> ('f \<Rightarrow> 'v \<Rightarrow> 'f \<times> 'v \<times> bool) \<Rightarrow> 'f \<Rightarrow> 'v \<Rightarrow> ('f \<times> 'v \<times> 'v list) option" where
  "produce 0 func f value = Some (f, value, [])"
| "produce (Suc n) func f value =
     (case func f value of
        (f', value', True) \<Rightarrow> map_option (\<lambda>(f, v, vs). (f, v, value' # vs)) (produce n func f' value')
      | (f', value', False) \<Rightarrow> None)"

lemma fp_run_values:
  assumes "produce n func f value = Some (f', value', vs)"
    and "\<forall>j < n. running (i + j)" and "\<not> running (i + n) \<or> \<not> snd (snd (func f' value'))"
    and "n < fuel" and "\<not> cl_closed l"
  shows "\<exists>es. fp_run fuel running adds func consume f value l i = Some (cl_close (cl_run consume l es), es)
           \<and> consumed es = vs"
  using assms
proof (induction n arbitrary: f "value" i l vs fuel)
  case 0
  then obtain m where "fuel = Suc m" by (cases fuel) auto
  with 0 show ?case by (auto split: prod.splits intro!: exI[of _ "[]"])
next
  case (Suc n)
  obtain f1 v1 ws where f: "func f value = (f1, v1, True)" "produce n func f1 v1 = Some (f', value', ws)"
      "vs = v1 # ws"
    using Suc.prems(1) by (auto split: prod.splits bool.splits)
  obtain m where m: "fuel = Suc m" using Suc.prems(4) by (cases fuel) auto
  let ?l = "fst (cl_consume consume (\<lambda>l. foldl cl_addConsumer l (adds i)) l v1)"
  have "\<not> cl_closed ?l"
    using Suc.prems(5) by (simp add: cl_consume_def foldl_addConsumer Let_def)
  moreover have "\<forall>j < n. running (Suc i + j)" "running i"
    using Suc.prems(2) by (auto dest: spec[of _ "Suc _"] spec[of _ 0])
  ultimately obtain es where
    "fp_run m running adds func consume f1 v1 ?l (Suc i) = Some (cl_close (cl_run consume ?l es), es)"
    "consumed es = ws"
    using Suc.IH[OF f(2), of "Suc i" m ?l] Suc.prems(3,4) m by auto
  then show ?case
    using f m \<open>running i\<close> by (intro exI[of _ "Consume v1 (adds i) # es"]) simp
qed

text \<open>
  the worker of FuncProducer stops as soon as its function returns false or a stop is
  seen, and not before: the list has then consumed exactly the values produced up to there,
  in order, and is closed.
\<close>

theorem fp_run_delivers:
  assumes "produce n func f value = Some (f', value', vs)"
    and "\<forall>j < n. running j" and "\<not> running n \<or> \<not> snd (snd (func f' value'))"
    and "n < fuel"
  shows "\<exists>es. fp_run fuel running adds func consume f value cl_make 0 =
             Some (cl_close (cl_run consume cl_make es), es) \<and> consumed es = vs"
  using fp_run_values[OF assms(1), of running 0 fuel cl_make adds consume] assms(2-4)
  by (simp add: cl_make_def)

theorem fp_run_delivers_witness:
  "\<exists>es. fp_run 9 (\<lambda>_. True) (\<lambda>_. []) (\<lambda>f v. (Suc f, f * 10, f < 3)) takeOne_consume 0 (0::nat) cl_make 0
     = Some (cl_close (cl_run takeOne_consume cl_make es), es) \<and>
   consumed es = [0, 10, 20]"
  by (rule fp_run_delivers[where n = 3 and f' = 3 and value' = 20])
    (simp_all add: numeral_3_eq_3)

end
