(* ===== verification/ManageableTask.thy ===== *)
theory ManageableTask
  imports Prelude "HOL-Library.Multiset"
begin

text \<open>
  lib/async/manageable-task.cpp: ManageableTaskImpl, a worker thread that other threads
  pause, resume and stop. The critical sections are functions on the object's fields; the
  worker is a program counter; the threads interleave as the step relation mt_step. Promises
  are numbered in the order in which they are made, and the ghost field resolved lists those
  that have been resolved.
\<close>

section \<open>The object\<close>

datatype mt_state = WaitForStart | Running | Pausing | Paused | Resuming | Stopping | Stopped

datatype 'e mt_exn = InvalidState | TaskExn 'e

datatype mt_future = ReadyFuture | PromiseFuture nat

record 'e mt =
  m_state :: mt_state
  m_pausePromises :: "nat list"
  m_resumePromises :: "nat list"
  m_stopPromises :: "nat list"
  m_error :: "'e mt_exn option"
  m_beforePause :: bool   \<comment> \<open>whether the callback is set\<close>
  m_afterPause :: bool
  next_promise :: nat     \<comment> \<open>ghost: the number of promises made\<close>

definition mt_new :: "'e mt" where
  "mt_new = \<lparr>m_state = WaitForStart, m_pausePromises = [], m_resumePromises = [],
     m_stopPromises = [], m_error = None, m_beforePause = False, m_afterPause = False,
     next_promise = 0\<rparr>"

text \<open>The emplace_back().future() of the three lists.\<close>

definition add_pausePromise :: "'e mt \<Rightarrow> 'e mt \<times> mt_future" where
  "add_pausePromise t = (t\<lparr>m_pausePromises := m_pausePromises t @ [next_promise t],
     next_promise := Suc (next_promise t)\<rparr>, PromiseFuture (next_promise t))"

definition add_resumePromise :: "'e mt \<Rightarrow> 'e mt \<times> mt_future" where
  "add_resumePromise t = (t\<lparr>m_resumePromises := m_resumePromises t @ [next_promise t],
     next_promise := Suc (next_promise t)\<rparr>, PromiseFuture (next_promise t))"

definition add_stopPromise :: "'e mt \<Rightarrow> 'e mt \<times> mt_future" where
  "add_stopPromise t = (t\<lparr>m_stopPromises := m_stopPromises t @ [next_promise t],
     next_promise := Suc (next_promise t)\<rparr>, PromiseFuture (next_promise t))"

text \<open>
  The operations of the controlling threads. The result: the new fields, the future, the
  outdated promises (resolved after the mutex is released) and whether m_stateChangedCV is
  notified.
\<close>

definition asyncPause :: "'e mt \<Rightarrow> 'e mt \<times> mt_future \<times> nat list \<times> bool" where
  "asyncPause t = (case m_state t of
     Running \<Rightarrow> (let (t', f) = add_pausePromise (t\<lparr>m_state := Pausing\<rparr>) in (t', f, [], True))
   | Resuming \<Rightarrow> (t\<lparr>m_state := Paused, m_resumePromises := []\<rparr>, ReadyFuture, m_resumePromises t, False)
   | Pausing \<Rightarrow> (let (t', f) = add_pausePromise t in (t', f, [], False))
   | Stopping \<Rightarrow> (let (t', f) = add_pausePromise t in (t', f, [], False))
   | Paused \<Rightarrow> (t, ReadyFuture, [], False)
   | WaitForStart \<Rightarrow> (t, ReadyFuture, [], False)
   | Stopped \<Rightarrow> (t, ReadyFuture, [], False))"

definition asyncResume :: "'e mt \<Rightarrow> 'e mt \<times> mt_future \<times> nat list \<times> bool" where
  "asyncResume t = (case m_state t of
     Stopping \<Rightarrow> (t, ReadyFuture, [], False)
   | Running \<Rightarrow> (t, ReadyFuture, [], False)
   | Stopped \<Rightarrow> (t, ReadyFuture, [], False)
   | Pausing \<Rightarrow> (t\<lparr>m_state := Running, m_pausePromises := []\<rparr>, ReadyFuture, m_pausePromises t, False)
   | Resuming \<Rightarrow> (let (t', f) = add_resumePromise t in (t', f, [], False))
   | WaitForStart \<Rightarrow> (t\<lparr>m_state := Running\<rparr>, ReadyFuture, [], True)
   | Paused \<Rightarrow> (let (t', f) = add_resumePromise (t\<lparr>m_state := Resuming\<rparr>) in (t', f, [], True)))"

definition asyncStop :: "'e mt \<Rightarrow> 'e mt \<times> bool" where
  "asyncStop t =
     (if m_state t \<in> {WaitForStart, Running, Pausing, Resuming, Paused}
      then (t\<lparr>m_state := Stopping\<rparr>, True) else (t, False))"

definition asyncWaitForStopped :: "'e mt \<Rightarrow> 'e mt \<times> mt_future" where
  "asyncWaitForStopped t =
     (if m_state t = Stopped then (t, ReadyFuture) else add_stopPromise t)"

text \<open>The critical sections of the worker; each returns the promises to resolve.\<close>

definition stopped :: "'e mt \<Rightarrow> 'e mt_exn option \<Rightarrow> 'e mt \<times> nat list" where
  "stopped t err =
     (t\<lparr>m_state := Stopped, m_error := err, m_pausePromises := [], m_resumePromises := [],
        m_stopPromises := []\<rparr>,
      m_pausePromises t @ m_resumePromises t @ m_stopPromises t)"

definition beginPause :: "'e mt \<Rightarrow> 'e mt \<times> nat list" where
  "beginPause t = (t\<lparr>m_state := Paused, m_pausePromises := []\<rparr>, m_pausePromises t)"

definition endPause :: "'e mt \<Rightarrow> 'e mt \<times> nat list" where
  "endPause t =
     (let t' = (if m_state t = Resuming then t\<lparr>m_state := Running\<rparr> else t)
      in (t'\<lparr>m_resumePromises := []\<rparr>, m_resumePromises t'))"

text \<open>r is what the callback does when it is called: an exception or its result.\<close>

definition pauseAllowed :: "'e mt \<Rightarrow> 'e + bool \<Rightarrow> 'e + bool" where
  "pauseAllowed t r = (if \<not> m_beforePause t then Inr True else r)"

text \<open>checkPoint up to the point where it returns, throws, or has released the mutex in beginPause.\<close>

datatype 'e check_point = CP_Return bool | CP_Throw "'e mt_exn" | CP_Pause "'e mt" "nat list"

definition checkPoint :: "'e mt \<Rightarrow> 'e + bool \<Rightarrow> 'e check_point" where
  "checkPoint t r = (case m_state t of
     Running \<Rightarrow> CP_Return True
   | Pausing \<Rightarrow>
      (case pauseAllowed t r of
         Inl e \<Rightarrow> CP_Throw (TaskExn e)
       | Inr True \<Rightarrow> (let (t', ps) = beginPause t in CP_Pause t' ps)
       | Inr False \<Rightarrow> CP_Return (m_state t \<noteq> Stopping))
   | Stopping \<Rightarrow> CP_Return False
   | _ \<Rightarrow> CP_Throw InvalidState)"

text \<open>The end of endPause and of checkPoint, with the mutex held again.\<close>

definition afterPause :: "'e mt \<Rightarrow> 'e + unit \<Rightarrow> 'e mt_exn + bool" where
  "afterPause t r =
     (case (if m_afterPause t then r else Inr ()) of
        Inl e \<Rightarrow> Inl (TaskExn e)
      | Inr _ \<Rightarrow> Inr (m_state t \<noteq> Stopping))"

section \<open>The threads\<close>

text \<open>
  The worker. PC_First is the first checkPoint of run, PC_Fun the task function, which may
  call checkPoint at any time, return or throw; the flag of the pause states says which of
  the two called checkPoint. PC_Sleep states are asleep on the condition variable.
\<close>

datatype 'e pc =
    PC_RunWait | PC_RunSleep | PC_First | PC_Fun
  | PC_PauseResolve bool "nat list" | PC_PauseCheck bool | PC_PauseSleep bool
  | PC_ResumeResolve bool "nat list"
  | PC_Stop "'e mt_exn option" | PC_StopResolve "nat list" | PC_Done

record 'e mt_sys =
  task :: "'e mt"
  worker :: "'e pc"
  outdated :: "nat list"   \<comment> \<open>promises the controlling threads are about to resolve\<close>
  resolved :: "nat list"

definition mt_init :: "'e mt_sys" where
  "mt_init = \<lparr>task = mt_new, worker = PC_RunWait, outdated = [], resolved = []\<rparr>"

fun wake :: "bool \<Rightarrow> 'e pc \<Rightarrow> 'e pc" where
  "wake True PC_RunSleep = PC_RunWait"
| "wake True (PC_PauseSleep b) = PC_PauseCheck b"
| "wake _ p = p"

text \<open>What the worker does with the outcome of checkPoint.\<close>

fun after_check :: "bool \<Rightarrow> 'e mt_exn + bool \<Rightarrow> 'e pc" where
  "after_check first (Inr True) = PC_Fun"
| "after_check first (Inr False) = (if first then PC_Stop None else PC_Fun)"
| "after_check first (Inl e) = (if first then PC_Stop (Some e) else PC_Fun)"

definition at_check :: "bool \<Rightarrow> 'e pc \<Rightarrow> bool" where
  "at_check first p \<longleftrightarrow> p = (if first then PC_First else PC_Fun)"

inductive ctl_step :: "'e mt_sys \<Rightarrow> 'e mt_sys \<Rightarrow> bool" where
  ctl_pause: "asyncPause (task s) = (t, f, od, nt) \<Longrightarrow>
     ctl_step s (s\<lparr>task := t, worker := wake nt (worker s), outdated := outdated s @ od\<rparr>)"
| ctl_resume: "asyncResume (task s) = (t, f, od, nt) \<Longrightarrow>
     ctl_step s (s\<lparr>task := t, worker := wake nt (worker s), outdated := outdated s @ od\<rparr>)"
| ctl_stop: "asyncStop (task s) = (t, nt) \<Longrightarrow>
     ctl_step s (s\<lparr>task := t, worker := wake nt (worker s)\<rparr>)"
| ctl_wait: "asyncWaitForStopped (task s) = (t, f) \<Longrightarrow> ctl_step s (s\<lparr>task := t\<rparr>)"
| ctl_resolve: "outdated s = xs @ p # ys \<Longrightarrow>
     ctl_step s (s\<lparr>outdated := xs @ ys, resolved := resolved s @ [p]\<rparr>)"

inductive worker_step :: "'e mt_sys \<Rightarrow> 'e mt_sys \<Rightarrow> bool" where
  run_go: "worker s = PC_RunWait \<Longrightarrow> m_state (task s) \<in> {Running, Stopping, Pausing} \<Longrightarrow>
     worker_step s (s\<lparr>worker := PC_First\<rparr>)"
| run_sleep: "worker s = PC_RunWait \<Longrightarrow> m_state (task s) \<notin> {Running, Stopping, Pausing} \<Longrightarrow>
     worker_step s (s\<lparr>worker := PC_RunSleep\<rparr>)"
| spurious: "worker_step s (s\<lparr>worker := wake True (worker s)\<rparr>)"
| check_return: "at_check first (worker s) \<Longrightarrow> checkPoint (task s) r = CP_Return b \<Longrightarrow>
     worker_step s (s\<lparr>worker := after_check first (Inr b)\<rparr>)"
| check_throw: "at_check first (worker s) \<Longrightarrow> checkPoint (task s) r = CP_Throw e \<Longrightarrow>
     worker_step s (s\<lparr>worker := after_check first (Inl e)\<rparr>)"
| check_pause: "at_check first (worker s) \<Longrightarrow> checkPoint (task s) r = CP_Pause t ps \<Longrightarrow>
     worker_step s (s\<lparr>task := t, worker := PC_PauseResolve first ps\<rparr>)"
| pause_resolve: "worker s = PC_PauseResolve first (p # ps) \<Longrightarrow>
     worker_step s (s\<lparr>worker := PC_PauseResolve first ps, resolved := resolved s @ [p]\<rparr>)"
| pause_resolved: "worker s = PC_PauseResolve first [] \<Longrightarrow>
     worker_step s (s\<lparr>worker := PC_PauseCheck first\<rparr>)"
| pause_sleep: "worker s = PC_PauseCheck first \<Longrightarrow> m_state (task s) = Paused \<Longrightarrow>
     worker_step s (s\<lparr>worker := PC_PauseSleep first\<rparr>)"
| pause_end: "worker s = PC_PauseCheck first \<Longrightarrow> m_state (task s) \<noteq> Paused \<Longrightarrow>
     endPause (task s) = (t, ps) \<Longrightarrow>
     worker_step s (s\<lparr>task := t, worker := PC_ResumeResolve first ps\<rparr>)"
| resume_resolve: "worker s = PC_ResumeResolve first (p # ps) \<Longrightarrow>
     worker_step s (s\<lparr>worker := PC_ResumeResolve first ps, resolved := resolved s @ [p]\<rparr>)"
| resume_resolved: "worker s = PC_ResumeResolve first [] \<Longrightarrow>
     worker_step s (s\<lparr>worker := after_check first (afterPause (task s) r)\<rparr>)"
| fun_hooks: "worker s = PC_Fun \<Longrightarrow>
     worker_step s (s\<lparr>task := (task s)\<lparr>m_beforePause := b, m_afterPause := a\<rparr>\<rparr>)"
| fun_return: "worker s = PC_Fun \<Longrightarrow> worker_step s (s\<lparr>worker := PC_Stop None\<rparr>)"
| fun_throw: "worker s = PC_Fun \<Longrightarrow> worker_step s (s\<lparr>worker := PC_Stop (Some (TaskExn e))\<rparr>)"
| stop: "worker s = PC_Stop err \<Longrightarrow> stopped (task s) err = (t, ps) \<Longrightarrow>
     worker_step s (s\<lparr>task := t, worker := PC_StopResolve ps\<rparr>)"
| stop_resolve: "worker s = PC_StopResolve (p # ps) \<Longrightarrow>
     worker_step s (s\<lparr>worker := PC_StopResolve ps, resolved := resolved s @ [p]\<rparr>)"
| stop_resolved: "worker s = PC_StopResolve [] \<Longrightarrow> worker_step s (s\<lparr>worker := PC_Done\<rparr>)"

inductive mt_reachable :: "'e mt_sys \<Rightarrow> bool" where
  mt_reach_init: "mt_reachable mt_init"
| mt_reach_ctl: "mt_reachable s \<Longrightarrow> ctl_step s s' \<Longrightarrow> mt_reachable s'"
| mt_reach_worker: "mt_reachable s \<Longrightarrow> worker_step s s' \<Longrightarrow> mt_reachable s'"

section \<open>The invariant\<close>

text \<open>Which states of the object each point of the worker's program can see.\<close>

fun pc_states :: "'e pc \<Rightarrow> mt_state set" where
  "pc_states PC_RunWait = {WaitForStart, Running, Pausing, Stopping}"
| "pc_states PC_RunSleep = {WaitForStart}"
| "pc_states PC_First = {Running, Pausing, Stopping}"
| "pc_states PC_Fun = {Running, Pausing, Stopping}"
| "pc_states (PC_PauseResolve _ _) = {Paused, Resuming, Stopping}"
| "pc_states (PC_PauseCheck _) = {Paused, Resuming, Stopping}"
| "pc_states (PC_PauseSleep _) = {Paused}"
| "pc_states (PC_ResumeResolve _ _) = {Running, Pausing, Stopping}"
| "pc_states (PC_Stop _) = {Running, Pausing, Stopping}"
| "pc_states (PC_StopResolve _) = {Stopped}"
| "pc_states PC_Done = {Stopped}"

fun pc_promises :: "'e pc \<Rightarrow> nat list" where
  "pc_promises (PC_PauseResolve _ ps) = ps"
| "pc_promises (PC_ResumeResolve _ ps) = ps"
| "pc_promises (PC_StopResolve ps) = ps"
| "pc_promises _ = []"

definition pending :: "'e mt \<Rightarrow> nat list" where
  "pending t = m_pausePromises t @ m_resumePromises t @ m_stopPromises t"

definition promises_ok :: "'e mt_sys \<Rightarrow> bool" where
  "promises_ok s \<longleftrightarrow>
     mset (pending (task s)) + mset (pc_promises (worker s)) + mset (outdated s) +
       mset (resolved s) = mset [0..<next_promise (task s)] \<and>
     (m_state (task s) = Stopped \<longrightarrow> pending (task s) = [])"

lemma pc_promises_wake [simp]: "pc_promises (wake nt p) = pc_promises p"
  by (cases "(nt, p)" rule: wake.cases) auto

lemma pc_promises_after_check [simp]: "pc_promises (after_check f r) = []"
  by (cases "(f, r)" rule: after_check.cases) auto

lemmas ctl_defs = asyncPause_def asyncResume_def asyncStop_def asyncWaitForStopped_def
  add_pausePromise_def add_resumePromise_def add_stopPromise_def Let_def

lemmas worker_defs = stopped_def beginPause_def endPause_def checkPoint_def pauseAllowed_def
  afterPause_def at_check_def Let_def

lemma asyncPause_pc:
  assumes "asyncPause t = (t', f, od, nt)" and "m_state t \<in> pc_states p"
  shows "m_state t' \<in> pc_states (wake nt p)"
  using assms by (cases p) (auto simp: ctl_defs split: mt_state.splits)

lemma asyncResume_pc:
  assumes "asyncResume t = (t', f, od, nt)" and "m_state t \<in> pc_states p"
  shows "m_state t' \<in> pc_states (wake nt p)"
  using assms by (cases p) (auto simp: ctl_defs split: mt_state.splits)

lemma asyncStop_pc:
  assumes "asyncStop t = (t', nt)" and "m_state t \<in> pc_states p"
  shows "m_state t' \<in> pc_states (wake nt p)"
  using assms by (cases p) (auto simp: ctl_defs split: if_splits)

lemma ctl_step_pc:
  assumes "ctl_step s s'" and "m_state (task s) \<in> pc_states (worker s)"
  shows "m_state (task s') \<in> pc_states (worker s')"
  using assms
  by cases (auto simp: asyncPause_pc asyncResume_pc asyncStop_pc asyncWaitForStopped_def
      add_stopPromise_def split: if_splits)

lemma checkPoint_pause_state:
  "checkPoint t r = CP_Pause t' ps \<Longrightarrow> m_state t' = Paused \<and> m_state t = Pausing"
  by (auto simp: worker_defs split: mt_state.splits sum.splits bool.splits if_splits)

lemma after_check_states:
  "m_state t \<in> {Running, Pausing, Stopping} \<Longrightarrow> m_state t \<in> pc_states (after_check first r)"
  by (cases "(first, r)" rule: after_check.cases) auto

lemma worker_step_pc:
  assumes "worker_step s s'" and "m_state (task s) \<in> pc_states (worker s)"
  shows "m_state (task s') \<in> pc_states (worker s')"
  using assms
proof cases
  case spurious
  then show ?thesis using assms(2) by (cases "worker s") auto
next
  case (check_return first r b)
  then have "m_state (task s) \<in> {Running, Pausing, Stopping}"
    using assms(2) by (auto simp: at_check_def split: if_splits)
  then show ?thesis using check_return after_check_states by auto
next
  case (check_throw first r e)
  then have "m_state (task s) \<in> {Running, Pausing, Stopping}"
    using assms(2) by (auto simp: at_check_def split: if_splits)
  then show ?thesis using check_throw after_check_states by auto
next
  case (check_pause first r t ps)
  then show ?thesis using checkPoint_pause_state by fastforce
next
  case (resume_resolved first r)
  then show ?thesis using assms(2) after_check_states by auto
qed (auto simp: worker_defs split: if_splits)

lemma mset_set_upt_Suc [simp]: "mset_set {0..<Suc n} = add_mset n (mset_set {0..<n})"
  by (simp add: atLeast0_lessThan_Suc)

lemma ctl_step_promises:
  assumes "ctl_step s s'" and "promises_ok s"
  shows "promises_ok s'"
  using assms
proof cases
  case (ctl_pause t f od nt)
  then show ?thesis using assms(2)
    by (auto simp: ctl_defs promises_ok_def pending_def ac_simps split: mt_state.splits)
next
  case (ctl_resume t f od nt)
  then show ?thesis using assms(2)
    by (auto simp: ctl_defs promises_ok_def pending_def ac_simps split: mt_state.splits)
qed (auto simp: ctl_defs promises_ok_def pending_def ac_simps split: if_splits)

lemma checkPoint_pause_lists:
  "checkPoint t r = CP_Pause t' ps \<Longrightarrow> t' = t\<lparr>m_state := Paused, m_pausePromises := []\<rparr> \<and>
     ps = m_pausePromises t"
  by (auto simp: worker_defs split: mt_state.splits sum.splits bool.splits if_splits)

lemma worker_step_promises:
  assumes "worker_step s s'" and "promises_ok s" and "m_state (task s) \<in> pc_states (worker s)"
  shows "promises_ok s'"
  using assms(1)
proof cases
  case (check_pause first r t ps)
  then have "pc_promises (worker s) = []" by (auto simp: at_check_def split: if_splits)
  then show ?thesis using check_pause assms(2) checkPoint_pause_lists[OF check_pause(3)]
    by (auto simp: promises_ok_def pending_def ac_simps)
next
  case (pause_end first t ps)
  then show ?thesis using assms(2,3)
    by (auto simp: promises_ok_def pending_def worker_defs ac_simps split: if_splits)
next
  case (check_return first r b)
  then have "pc_promises (worker s) = []" by (auto simp: at_check_def split: if_splits)
  then show ?thesis using assms(2) check_return by (auto simp: promises_ok_def)
next
  case (check_throw first r e)
  then have "pc_promises (worker s) = []" by (auto simp: at_check_def split: if_splits)
  then show ?thesis using assms(2) check_throw by (auto simp: promises_ok_def)
qed (use assms(2,3) in \<open>auto simp: promises_ok_def pending_def worker_defs ac_simps\<close>)

lemma mt_init_inv: "m_state (task mt_init) \<in> pc_states (worker mt_init) \<and> promises_ok mt_init"
  by (simp add: mt_init_def mt_new_def promises_ok_def pending_def)

lemma mt_reachable_inv:
  "mt_reachable s \<Longrightarrow> m_state (task s) \<in> pc_states (worker s) \<and> promises_ok s"
proof (induction rule: mt_reachable.induct)
  case mt_reach_init
  show ?case by (rule mt_init_inv)
next
  case (mt_reach_ctl s s')
  then show ?case using ctl_step_pc ctl_step_promises by blast
next
  case (mt_reach_worker s s')
  then show ?case using worker_step_pc worker_step_promises by blast
qed

lemma checkPoint_valid:
  "m_state t \<in> {Running, Pausing, Stopping} \<Longrightarrow> checkPoint t r \<noteq> CP_Throw InvalidState"
  by (auto simp: worker_defs split: sum.splits bool.splits)

lemma ctl_step_error:
  "ctl_step s s' \<Longrightarrow> m_error (task s') = m_error (task s) \<and>
     (worker s' = PC_Stop e \<longleftrightarrow> worker s = PC_Stop e)"
proof (induction rule: ctl_step.induct)
  case (ctl_pause s t f od nt)
  then show ?case
    by (cases "(nt, worker s)" rule: wake.cases) (auto simp: ctl_defs split: mt_state.splits)
next
  case (ctl_resume s t f od nt)
  then show ?case
    by (cases "(nt, worker s)" rule: wake.cases) (auto simp: ctl_defs split: mt_state.splits)
next
  case (ctl_stop s t nt)
  then show ?case
    by (cases "(nt, worker s)" rule: wake.cases) (auto simp: ctl_defs split: if_splits)
qed (auto simp: ctl_defs split: if_splits)

definition no_invalid :: "'e mt_sys \<Rightarrow> bool" where
  "no_invalid s \<longleftrightarrow> m_error (task s) \<noteq> Some InvalidState \<and> worker s \<noteq> PC_Stop (Some InvalidState)"

lemma worker_step_error:
  assumes "worker_step s s'" and "m_state (task s) \<in> pc_states (worker s)" and "no_invalid s"
  shows "no_invalid s'"
  using assms(1)
proof cases
  case spurious
  then show ?thesis using assms(3) by (cases "worker s") (auto simp: no_invalid_def)
next
  case (check_return first r b)
  then show ?thesis using assms(3)
    by (cases "(first, Inr b :: 'a mt_exn + bool)" rule: after_check.cases) (auto simp: no_invalid_def)
next
  case (check_throw first r e)
  then have "m_state (task s) \<in> {Running, Pausing, Stopping}"
    using assms(2) by (auto simp: at_check_def split: if_splits)
  then show ?thesis using assms(3) check_throw checkPoint_valid[of "task s" r]
    by (auto simp: no_invalid_def)
next
  case (check_pause first r t ps)
  then show ?thesis using assms(3) checkPoint_pause_lists[OF check_pause(3)]
    by (auto simp: no_invalid_def)
next
  case (resume_resolved first r)
  then show ?thesis using assms(3)
    by (cases "(first, afterPause (task s) r)" rule: after_check.cases)
      (auto simp: no_invalid_def afterPause_def split: sum.splits if_splits)
qed (use assms(3) in \<open>auto simp: no_invalid_def worker_defs split: if_splits\<close>)

lemma mt_reachable_no_invalid: "mt_reachable s \<Longrightarrow> no_invalid s"
proof (induction rule: mt_reachable.induct)
  case mt_reach_init
  show ?case by (simp add: no_invalid_def mt_init_def mt_new_def)
next
  case (mt_reach_ctl s s')
  then show ?case using ctl_step_error[OF mt_reach_ctl(2)] by (simp add: no_invalid_def)
next
  case (mt_reach_worker s s')
  then show ?case using worker_step_error mt_reachable_inv by blast
qed

section \<open>Properties\<close>

text \<open>
  A run used by the witnesses: the task is started, the worker enters its function, a
  controller asks for a pause and the worker reaches it.
\<close>

definition mt_example :: "nat mt_sys" where
  "mt_example = \<lparr>task = mt_new\<lparr>m_state := Paused, next_promise := 1\<rparr>,
     worker = PC_PauseResolve False [0], outdated = [], resolved = []\<rparr>"

lemma mt_example_reachable: "mt_reachable mt_example"
proof -
  let ?run = "mt_new\<lparr>m_state := Running\<rparr> :: nat mt"
  let ?sys = "\<lambda>t w. \<lparr>task = t, worker = w, outdated = [], resolved = []\<rparr> :: nat mt_sys"
  let ?pausing = "?run\<lparr>m_state := Pausing, m_pausePromises := [0], next_promise := 1\<rparr>"
  have 1: "mt_reachable (?sys ?run PC_RunWait)"
    by (rule mt_reach_ctl[OF mt_reach_init])
      (use ctl_resume[of mt_init ?run ReadyFuture "[]" True] in
        \<open>simp add: mt_init_def mt_new_def ctl_defs\<close>)
  have 2: "mt_reachable (?sys ?run PC_First)"
    by (rule mt_reach_worker[OF 1]) (use run_go[of "?sys ?run PC_RunWait"] in simp)
  have 3: "mt_reachable (?sys ?run PC_Fun)"
    by (rule mt_reach_worker[OF 2])
      (use check_return[of True "?sys ?run PC_First" _ True] in
        \<open>simp add: worker_defs\<close>)
  have 4: "mt_reachable (?sys ?pausing PC_Fun)"
    by (rule mt_reach_ctl[OF 3])
      (use ctl_pause[of "?sys ?run PC_Fun" ?pausing "PromiseFuture 0" "[]" True] in
        \<open>simp add: mt_new_def ctl_defs\<close>)
  show ?thesis
    by (rule mt_reach_worker[OF 4])
      (use check_pause[of False "?sys ?pausing PC_Fun" "Inr True"
          "?pausing\<lparr>m_state := Paused, m_pausePromises := []\<rparr>" "[0]"] in
        \<open>simp add: mt_new_def worker_defs mt_example_def\<close>)
qed

text \<open>
  C1: whatever the controlling threads do, checkPoint never finds the object in a state it
  does not expect (its "Invalid state" exception is dead code), the assertions of beginPause
  and endPause hold, a task never ends with that exception, and the object is paused or
  resuming only while the worker is inside checkPoint: a paused task does not run its
  function.
\<close>

theorem mt_states_consistent:
  assumes "mt_reachable s"
  shows "(at_check first (worker s) \<longrightarrow> checkPoint (task s) r \<noteq> CP_Throw InvalidState) \<and>
    (checkPoint (task s) r = CP_Pause t ps \<longrightarrow> m_state (task s) = Pausing) \<and>
    (worker s = PC_PauseCheck first \<and> m_state (task s) \<noteq> Paused \<longrightarrow>
       m_state (task s) = Resuming \<or> m_state (task s) = Stopping) \<and>
    m_error (task s) \<noteq> Some InvalidState \<and>
    (m_state (task s) \<in> {Paused, Resuming} \<longrightarrow>
       (\<exists>b ps. worker s = PC_PauseResolve b ps) \<or> (\<exists>b. worker s = PC_PauseCheck b) \<or>
       (\<exists>b. worker s = PC_PauseSleep b))"
proof -
  have pc: "m_state (task s) \<in> pc_states (worker s)" using mt_reachable_inv[OF assms] by simp
  have "checkPoint (task s) r \<noteq> CP_Throw InvalidState" if "at_check first (worker s)"
    using pc that by (intro checkPoint_valid) (auto simp: at_check_def split: if_splits)
  moreover have "m_state (task s) \<in> {Paused, Resuming} \<Longrightarrow>
       (\<exists>b ps. worker s = PC_PauseResolve b ps) \<or> (\<exists>b. worker s = PC_PauseCheck b) \<or>
       (\<exists>b. worker s = PC_PauseSleep b)"
    using pc by (cases "worker s") auto
  moreover have "m_error (task s) \<noteq> Some InvalidState"
    using mt_reachable_no_invalid[OF assms] by (simp add: no_invalid_def)
  ultimately show ?thesis using pc checkPoint_pause_state by fastforce
qed

theorem mt_states_consistent_witness:
  "m_state (task mt_example) \<in> {Paused, Resuming} \<and> (\<exists>b ps. worker mt_example = PC_PauseResolve b ps)"
  using mt_states_consistent[OF mt_example_reachable, where first = False]
  by (simp add: mt_example_def mt_new_def)

text \<open>
  C2: every future handed out is resolved at most once and none is forgotten: each promise is
  in exactly one of the three lists, in the hands of the thread that is resolving it, or
  resolved, and after the worker has ended and the controllers have resolved what they took
  out, all are resolved.
\<close>

theorem mt_promises_once:
  assumes "mt_reachable s"
  shows "distinct (pending (task s) @ pc_promises (worker s) @ outdated s @ resolved s) \<and>
    set (pending (task s) @ pc_promises (worker s) @ outdated s @ resolved s) =
      {0..<next_promise (task s)} \<and>
    (worker s = PC_Done \<and> outdated s = [] \<longrightarrow> set (resolved s) = {0..<next_promise (task s)})"
proof -
  let ?all = "pending (task s) @ pc_promises (worker s) @ outdated s @ resolved s"
  have ok: "promises_ok s" "m_state (task s) \<in> pc_states (worker s)"
    using mt_reachable_inv[OF assms] by auto
  then have m: "mset ?all = mset [0..<next_promise (task s)]"
    by (simp only: promises_ok_def mset_append ac_simps)
  have "distinct ?all" using mset_eq_imp_distinct_iff[OF m] by simp
  moreover have "set ?all = {0..<next_promise (task s)}"
    using mset_eq_setD[OF m] by simp
  moreover have "set (resolved s) = {0..<next_promise (task s)}"
    if "worker s = PC_Done" "outdated s = []"
  proof -
    have "pending (task s) = []" using ok that by (simp add: promises_ok_def)
    then show ?thesis using calculation(2) that by simp
  qed
  ultimately show ?thesis by blast
qed

theorem mt_promises_once_witness:
  "distinct (pending (task mt_example) @ pc_promises (worker mt_example) @ outdated mt_example
      @ resolved mt_example) \<and> pc_promises (worker mt_example) = [0]"
  using mt_promises_once[OF mt_example_reachable] by (simp add: mt_example_def)

text \<open>
  no wake-up of the worker is lost: it sleeps in run only while the task has not been
  started, and in doPause only while the task is paused.
\<close>

theorem mt_no_lost_wakeup:
  assumes "mt_reachable s"
  shows "(worker s = PC_RunSleep \<longrightarrow> m_state (task s) = WaitForStart) \<and>
    (\<forall>first. worker s = PC_PauseSleep first \<longrightarrow> m_state (task s) = Paused)"
  using mt_reachable_inv[OF assms] by auto

lemma mt_sleep_reachable: "mt_reachable (mt_init\<lparr>worker := PC_RunSleep\<rparr> :: nat mt_sys)"
  by (rule mt_reach_worker[OF mt_reach_init], rule run_sleep)
    (simp_all add: mt_init_def mt_new_def)

theorem mt_no_lost_wakeup_witness:
  "worker (mt_init\<lparr>worker := PC_RunSleep\<rparr> :: nat mt_sys) = PC_RunSleep \<and>
   m_state (task (mt_init\<lparr>worker := PC_RunSleep\<rparr> :: nat mt_sys)) = WaitForStart"
  using mt_no_lost_wakeup[OF mt_sleep_reachable] by simp

text \<open>
  Stopping. The rank of the worker's position: it falls with every step the worker takes
  once the task is stopping, apart from those the task function itself takes.
\<close>

fun pc_rank :: "'e pc \<Rightarrow> nat \<times> nat" where
  "pc_rank PC_RunSleep = (10, 0)"
| "pc_rank PC_RunWait = (9, 0)"
| "pc_rank PC_First = (8, 0)"
| "pc_rank (PC_PauseSleep _) = (7, 0)"
| "pc_rank (PC_PauseResolve _ ps) = (6, length ps)"
| "pc_rank (PC_PauseCheck _) = (5, 0)"
| "pc_rank (PC_ResumeResolve _ ps) = (4, length ps)"
| "pc_rank PC_Fun = (3, 0)"
| "pc_rank (PC_Stop _) = (2, 0)"
| "pc_rank (PC_StopResolve ps) = (1, length ps)"
| "pc_rank PC_Done = (0, 0)"

lemma checkPoint_stopping: "m_state t = Stopping \<Longrightarrow> checkPoint t r = CP_Return False"
  by (simp add: checkPoint_def)

lemma pc_rank_after_check:
  "m_state t = Stopping \<Longrightarrow> fst (pc_rank (after_check first (afterPause t r))) \<le> 3"
  by (auto simp: afterPause_def split: sum.splits)

lemma worker_stop_rank:
  assumes "worker_step s s'" and "m_state (task s) \<in> pc_states (worker s)"
    and "m_state (task s) \<in> {Stopping, Stopped}"
  shows "worker s' = worker s \<or> (pc_rank (worker s'), pc_rank (worker s)) \<in> less_than <*lex*> less_than"
  using assms(1)
proof cases
  case spurious
  then show ?thesis using assms(2,3) by (cases "worker s") auto
next
  case (check_return first r b)
  then show ?thesis using assms(2,3) checkPoint_stopping[of "task s" r]
    by (auto simp: at_check_def split: if_splits)
next
  case (check_throw first r e)
  then show ?thesis using assms(2,3) checkPoint_stopping[of "task s" r]
    by (auto simp: at_check_def split: if_splits)
next
  case (check_pause first r t ps)
  then show ?thesis using assms(2,3) checkPoint_stopping[of "task s" r]
    by (auto simp: at_check_def split: if_splits)
next
  case (resume_resolved first r)
  then have "m_state (task s) = Stopping" using assms(2,3) by auto
  from pc_rank_after_check[OF this, of first r] show ?thesis
    using resume_resolved by (cases "pc_rank (after_check first (afterPause (task s) r))") auto
qed (use assms(2,3) in auto)

lemma worker_stop_enabled:
  assumes "m_state (task s) \<in> pc_states (worker s)" and "m_state (task s) \<in> {Stopping, Stopped}"
    and "worker s \<noteq> PC_Done"
  shows "\<exists>s'. worker_step s s' \<and> worker s' \<noteq> worker s"
proof (cases "worker s")
  case PC_First
  have "worker_step s (s\<lparr>worker := after_check True (Inr False)\<rparr>)"
    by (rule check_return[of True s "Inr True"])
      (use PC_First assms in \<open>auto simp: at_check_def checkPoint_stopping\<close>)
  then show ?thesis using PC_First by (auto intro!: exI)
next
  case PC_RunWait
  then have "worker_step s (s\<lparr>worker := PC_First\<rparr>)" using assms by (intro run_go) auto
  then show ?thesis using PC_RunWait by (auto intro!: exI)
next
  case PC_Fun
  from fun_return[OF this] show ?thesis using PC_Fun by (auto intro!: exI)
next
  case (PC_PauseResolve b ps)
  then show ?thesis
    by (cases ps) (use pause_resolve[of s b] pause_resolved[of s b] in \<open>force intro!: exI\<close>)+
next
  case (PC_PauseCheck b)
  obtain t ps where "endPause (task s) = (t, ps)" by (cases "endPause (task s)")
  from pause_end[OF PC_PauseCheck _ this] show ?thesis
    using assms PC_PauseCheck by (auto intro!: exI)
next
  case (PC_ResumeResolve b ps)
  show ?thesis
  proof (cases ps)
    case Nil
    have "fst (pc_rank (after_check b (afterPause (task s) (Inr ())))) \<le> 3"
      using PC_ResumeResolve assms by (intro pc_rank_after_check) auto
    then have "after_check b (afterPause (task s) (Inr ())) \<noteq> worker s"
      using PC_ResumeResolve Nil by auto
    then show ?thesis
      using resume_resolved[of s b "Inr ()"] PC_ResumeResolve Nil by (auto intro!: exI)
  next
    case (Cons p qs)
    then show ?thesis using resume_resolve[of s b p qs] PC_ResumeResolve by (force intro!: exI)
  qed
next
  case (PC_Stop err)
  obtain t ps where "stopped (task s) err = (t, ps)" by (cases "stopped (task s) err")
  from stop[OF PC_Stop this] show ?thesis using PC_Stop by (auto intro!: exI)
next
  case (PC_StopResolve ps)
  then show ?thesis
    by (cases ps) (use stop_resolve[of s] stop_resolved[of s] in \<open>force intro!: exI\<close>)+
qed (use assms in auto)

lemma ctl_step_stopping:
  assumes "ctl_step s s'" and "m_state (task s) \<in> {Stopping, Stopped}"
  shows "m_state (task s') = m_state (task s)"
  using assms by cases (auto simp: ctl_defs split: mt_state.splits if_splits)

text \<open>
  C4: asyncStop cannot be undone and leads to the end: once a task is stopping no controller
  changes its state any more; the worker is never blocked before its end, and every step it
  takes either is a step of the task function or brings it closer to the end, in a
  well-founded order.
\<close>

theorem mt_stop_terminates:
  assumes "mt_reachable s" and "m_state (task s) \<in> {Stopping, Stopped}"
  shows "(\<forall>s'. ctl_step s s' \<longrightarrow> m_state (task s') = m_state (task s)) \<and>
    (worker s \<noteq> PC_Done \<longrightarrow> (\<exists>s'. worker_step s s' \<and> worker s' \<noteq> worker s)) \<and>
    (\<forall>s'. worker_step s s' \<longrightarrow> worker s' = worker s \<or>
       (pc_rank (worker s'), pc_rank (worker s)) \<in> less_than <*lex*> less_than) \<and>
    (worker s = PC_Done \<longrightarrow> m_state (task s) = Stopped)"
proof -
  have pc: "m_state (task s) \<in> pc_states (worker s)" using mt_reachable_inv[OF assms(1)] by simp
  have "\<forall>s'. ctl_step s s' \<longrightarrow> m_state (task s') = m_state (task s)"
    using ctl_step_stopping[OF _ assms(2)] by blast
  moreover have "worker s \<noteq> PC_Done \<longrightarrow> (\<exists>s'. worker_step s s' \<and> worker s' \<noteq> worker s)"
    using worker_stop_enabled[OF pc assms(2)] by blast
  moreover have "\<forall>s'. worker_step s s' \<longrightarrow> worker s' = worker s \<or>
       (pc_rank (worker s'), pc_rank (worker s)) \<in> less_than <*lex*> less_than"
    using worker_stop_rank[OF _ pc assms(2)] by blast
  ultimately show ?thesis using pc by auto
qed

lemma mt_stopping_reachable:
  "mt_reachable (mt_init\<lparr>task := mt_new\<lparr>m_state := Stopping\<rparr>\<rparr> :: nat mt_sys)"
  by (rule mt_reach_ctl[OF mt_reach_init])
    (use ctl_stop[of mt_init "mt_new\<lparr>m_state := Stopping\<rparr>" True] in
      \<open>simp add: mt_init_def mt_new_def asyncStop_def\<close>)

theorem mt_stop_terminates_witness:
  "\<exists>s'. worker_step (mt_init\<lparr>task := mt_new\<lparr>m_state := Stopping\<rparr>\<rparr> :: nat mt_sys) s' \<and>
     worker s' \<noteq> PC_RunWait"
  using mt_stop_terminates[OF mt_stopping_reachable] by (simp add: mt_init_def)

text \<open>
  what a future that is ready at once says: after a ready asyncPause the task is not
  running (it is paused, not started yet, or has ended), after a ready asyncResume it is
  running or on its way to the end, and the promises an operation withdraws are exactly
  those of the opposite request.
\<close>

theorem mt_ready_futures:
  "(case asyncPause t of (t', f, od, nt) \<Rightarrow>
      (f = ReadyFuture \<longleftrightarrow> m_state t' \<in> {Paused, WaitForStart, Stopped}) \<and>
      (od = (if m_state t = Resuming then m_resumePromises t else []))) \<and>
   (case asyncResume t of (t', f, od, nt) \<Rightarrow>
      (f = ReadyFuture \<longleftrightarrow> m_state t' \<in> {Running, Stopping, Stopped}) \<and>
      (od = (if m_state t = Pausing then m_pausePromises t else [])))"
  by (cases "m_state t") (simp_all add: ctl_defs)

end
