(* ===== verification/Scheduler.thy ===== *)
theory Scheduler
  imports ManageableTask
begin

text \<open>
  lib/async/scheduler.cpp: Scheduler::Impl, which lets one task run at a time, the one of
  the highest priority. All operations run one after the other on the scheduler's own
  thread (m_ao); None is a failed assertion. A task's controller is the ManageableTask of
  the theory of that name; here it is seen between the operations of the scheduler, where
  it is not started, running, paused, stopping or stopped. The parameter ends holds the
  tasks whose function happens to end while the scheduler waits for it to pause.

  Promises are numbered; resolved_promises (ghost) lists those that were resolved.
\<close>

section \<open>Tasks\<close>

record sch_task =
  task_id :: nat
  priority :: int
  isAlreadyStarted :: bool
  controller :: mt_state
  pausePromises :: "nat list"
  resumePromises :: "nat list"
  stopPromises :: "nat list"
  waitPromises :: "nat list"

text \<open>
  ManageableTask::pause, resume, stop and asyncStop as the scheduler, their only caller,
  sees them: the first three wait until the worker has answered.
\<close>

definition tc_pause :: "bool \<Rightarrow> mt_state \<Rightarrow> mt_state" where
  "tc_pause ended st = (case st of
     Running \<Rightarrow> (if ended then Stopped else Paused)
   | Stopping \<Rightarrow> Stopped
   | _ \<Rightarrow> st)"

definition tc_resume :: "mt_state \<Rightarrow> mt_state" where
  "tc_resume st = (if st \<in> {WaitForStart, Paused} then Running else st)"

definition tc_stop :: "mt_state \<Rightarrow> mt_state" where
  "tc_stop st = Stopped"

definition tc_asyncStop :: "mt_state \<Rightarrow> mt_state" where
  "tc_asyncStop st = (if st \<in> {Stopping, Stopped} then st else Stopping)"

lemma tc_asyncStop_refines: "m_state (fst (asyncStop t)) = tc_asyncStop (m_state t)"
  by (cases "m_state t") (simp_all add: asyncStop_def tc_asyncStop_def)

definition wasCancelled :: "sch_task \<Rightarrow> bool" where
  "wasCancelled t \<longleftrightarrow> stopPromises t \<noteq> []"

definition wasPaused :: "sch_task \<Rightarrow> bool" where
  "wasPaused t \<longleftrightarrow> pausePromises t \<noteq> []"

text \<open>resume and pause of a task, with the promises they resolve.\<close>

definition task_resume :: "sch_task \<Rightarrow> sch_task \<times> nat list" where
  "task_resume t =
     (let t = t\<lparr>isAlreadyStarted := True\<rparr> in
      if wasCancelled t then (t\<lparr>controller := tc_stop (controller t)\<rparr>, [])
      else (t\<lparr>controller := tc_resume (controller t), resumePromises := []\<rparr>, resumePromises t))"

definition task_pause :: "nat set \<Rightarrow> sch_task \<Rightarrow> sch_task \<times> nat list" where
  "task_pause ends t =
     (t\<lparr>controller := tc_pause (task_id t \<in> ends) (controller t), pausePromises := []\<rparr>,
      pausePromises t)"

text \<open>The promises that the destructor of a task resolves.\<close>

definition task_destroy :: "sch_task \<Rightarrow> nat list" where
  "task_destroy t = pausePromises t @ resumePromises t @ stopPromises t @ waitPromises t"

section \<open>The scheduler\<close>

record sched =
  m_waitedTasks :: "sch_task list"
  m_delayedTasks :: "sch_task list"
  m_activeTask :: "sch_task option"
  m_idCounter :: nat
  m_waitStopPromises :: "nat list"
  promise_counter :: nat
  resolved_promises :: "nat list"

definition sched_new :: sched where
  "sched_new = \<lparr>m_waitedTasks = [], m_delayedTasks = [], m_activeTask = None, m_idCounter = 0,
     m_waitStopPromises = [], promise_counter = 0, resolved_promises = []\<rparr>"

definition resolve :: "sched \<Rightarrow> nat list \<Rightarrow> sched" where
  "resolve s ps = s\<lparr>resolved_promises := resolved_promises s @ ps\<rparr>"

text \<open>The result of an operation: a ready future, a promise of the scheduler, or the future
  of a task's controller.\<close>

datatype sch_future = SF_Ready | SF_Promise nat | SF_Stopped nat

definition findTaskById :: "sch_task list \<Rightarrow> nat \<Rightarrow> (sch_task \<times> nat) option" where
  "findTaskById ts i =
     (case List.find (\<lambda>n. task_id (ts ! n) = i) [0..<length ts] of
        None \<Rightarrow> None | Some n \<Rightarrow> Some (ts ! n, n))"

definition erase_at :: "nat \<Rightarrow> 'a list \<Rightarrow> 'a list" where
  "erase_at n xs = take n xs @ drop (Suc n) xs"

definition queueTask :: "sched \<Rightarrow> sch_task \<Rightarrow> sched" where
  "queueTask s t =
     (let it = lower_bound (\<lambda>lhs. priority lhs < priority t) (m_waitedTasks s)
      in s\<lparr>m_waitedTasks := insert_at it t (m_waitedTasks s)\<rparr>)"

definition schedule :: "nat set \<Rightarrow> sched \<Rightarrow> sch_task \<Rightarrow> sched option" where
  "schedule ends s t =
     (case m_activeTask s of
        None \<Rightarrow>
          (if m_waitedTasks s \<noteq> [] then None
           else (let (t, ps) = task_resume t in Some (resolve (s\<lparr>m_activeTask := Some t\<rparr>) ps)))
      | Some a \<Rightarrow>
          if priority a < priority t then
            (let (a, ps) = task_pause ends a; (t, qs) = task_resume t
             in Some (resolve (s\<lparr>m_waitedTasks := m_waitedTasks s @ [a], m_activeTask := Some t\<rparr>)
                       (ps @ qs)))
          else Some (queueTask s t))"

text \<open>resumeNextTask, by recursion over the tasks it moves from the waiting to the delayed.\<close>

function resumeNextTask :: "nat set \<Rightarrow> sched \<Rightarrow> sched option" where
  "resumeNextTask ends s =
     (if m_activeTask s \<noteq> None then None
      else if m_waitedTasks s \<noteq> [] then
        (let t = last (m_waitedTasks s); s = s\<lparr>m_waitedTasks := butlast (m_waitedTasks s)\<rparr> in
         if wasPaused t then
           (let (t, ps) = task_pause ends t in
            resumeNextTask ends (resolve (s\<lparr>m_delayedTasks := m_delayedTasks s @ [t]\<rparr>) ps))
         else (let (t, ps) = task_resume t in Some (resolve (s\<lparr>m_activeTask := Some t\<rparr>) ps)))
      else if m_delayedTasks s = [] then
        Some (resolve (s\<lparr>m_waitStopPromises := []\<rparr>) (m_waitStopPromises s))
      else Some s)"
  by pat_completeness auto
termination
  by (relation "measure (\<lambda>(ends, s). length (m_waitedTasks s))")
    (auto simp: resolve_def task_pause_def)

declare resumeNextTask.simps [simp del]

definition createTask :: "sched \<Rightarrow> int \<Rightarrow> sched \<times> sch_task" where
  "createTask s p =
     (s\<lparr>m_idCounter := Suc (m_idCounter s)\<rparr>,
      \<lparr>task_id = m_idCounter s, priority = p, isAlreadyStarted = False, controller = WaitForStart,
       pausePromises = [], resumePromises = [], stopPromises = [], waitPromises = []\<rparr>)"

definition push :: "nat set \<Rightarrow> sched \<Rightarrow> int \<Rightarrow> (sched \<times> nat) option" where
  "push ends s p =
     (let (s, t) = createTask s p in map_option (\<lambda>s. (s, task_id t)) (schedule ends s t))"

definition getActiveTaskId :: "sched \<Rightarrow> nat option" where
  "getActiveTaskId s = map_option task_id (m_activeTask s)"

text \<open>The next promise number.\<close>

definition fresh :: "sched \<Rightarrow> sched \<times> nat" where
  "fresh s = (s\<lparr>promise_counter := Suc (promise_counter s)\<rparr>, promise_counter s)"

definition makeWaitAllPromise :: "sched \<Rightarrow> sched \<times> sch_future" where
  "makeWaitAllPromise s =
     (if m_activeTask s = None then (s, SF_Ready)
      else (let (s, p) = fresh s
            in (s\<lparr>m_waitStopPromises := m_waitStopPromises s @ [p]\<rparr>, SF_Promise p)))"

definition waitTask :: "sched \<Rightarrow> nat \<Rightarrow> sched \<times> sch_future" where
  "waitTask s i =
     (let (s', p) = fresh s; add = (\<lambda>t. t\<lparr>waitPromises := waitPromises t @ [p]\<rparr>) in
      if getActiveTaskId s = Some i
      then (s'\<lparr>m_activeTask := map_option add (m_activeTask s)\<rparr>, SF_Promise p)
      else case findTaskById (m_waitedTasks s) i of
        Some (t, n) \<Rightarrow> (s'\<lparr>m_waitedTasks := (m_waitedTasks s)[n := add t]\<rparr>, SF_Promise p)
      | None \<Rightarrow> (case findTaskById (m_delayedTasks s) i of
          Some (t, n) \<Rightarrow> (s'\<lparr>m_delayedTasks := (m_delayedTasks s)[n := add t]\<rparr>, SF_Promise p)
        | None \<Rightarrow> (s, SF_Ready)))"

definition cancelTask :: "nat set \<Rightarrow> sched \<Rightarrow> nat \<Rightarrow> (sched \<times> sch_future) option" where
  "cancelTask ends s i =
     (let (s', p) = fresh s; cancelLater = (\<lambda>t. t\<lparr>stopPromises := stopPromises t @ [p]\<rparr>) in
      if getActiveTaskId s = Some i
      then Some (s\<lparr>m_activeTask := map_option (\<lambda>t. t\<lparr>controller := tc_asyncStop (controller t)\<rparr>)
                                   (m_activeTask s)\<rparr>, SF_Stopped i)
      else case findTaskById (m_waitedTasks s) i of
        Some (t, n) \<Rightarrow>
          (if \<not> isAlreadyStarted t
           then Some (resolve (s'\<lparr>m_waitedTasks := erase_at n (m_waitedTasks s)\<rparr>)
                        (task_destroy (cancelLater t)), SF_Promise p)
           else Some (s'\<lparr>m_waitedTasks := (m_waitedTasks s)[n := cancelLater t]\<rparr>, SF_Promise p))
      | None \<Rightarrow> (case findTaskById (m_delayedTasks s) i of
          Some (t, n) \<Rightarrow>
            map_option (\<lambda>s. (s, SF_Promise p))
              (schedule ends (s'\<lparr>m_delayedTasks := erase_at n (m_delayedTasks s)\<rparr>) (cancelLater t))
        | None \<Rightarrow> Some (s, SF_Ready)))"

definition pause :: "nat set \<Rightarrow> sched \<Rightarrow> nat \<Rightarrow> (sched \<times> sch_future) option" where
  "pause ends s i =
     (if getActiveTaskId s = Some i then
        (let (a, ps) = task_pause ends (the (m_activeTask s)) in
         map_option (\<lambda>s. (s, SF_Ready))
           (resumeNextTask ends
             (resolve (s\<lparr>m_delayedTasks := m_delayedTasks s @ [a], m_activeTask := None\<rparr>) ps)))
      else case findTaskById (m_waitedTasks s) i of
        Some (t, n) \<Rightarrow>
          (let (s', p) = fresh s
           in Some (s'\<lparr>m_waitedTasks := (m_waitedTasks s)[n := t\<lparr>pausePromises := pausePromises t @ [p]\<rparr>]\<rparr>,
                    SF_Promise p))
      | None \<Rightarrow> Some (s, SF_Ready))"

definition resume :: "nat set \<Rightarrow> sched \<Rightarrow> nat \<Rightarrow> (sched \<times> sch_future) option" where
  "resume ends s i =
     (let (s', p) = fresh s; add = (\<lambda>t. t\<lparr>resumePromises := resumePromises t @ [p]\<rparr>) in
      case findTaskById (m_waitedTasks s) i of
        Some (t, n) \<Rightarrow> Some (s'\<lparr>m_waitedTasks := (m_waitedTasks s)[n := add t]\<rparr>, SF_Promise p)
      | None \<Rightarrow> (case findTaskById (m_delayedTasks s) i of
          Some (t, n) \<Rightarrow>
            map_option (\<lambda>s. (s, SF_Promise p))
              (schedule ends (s'\<lparr>m_delayedTasks := erase_at n (m_delayedTasks s)\<rparr>) (add t))
        | None \<Rightarrow> Some (s, SF_Ready)))"

definition sched_size :: "sched \<Rightarrow> nat" where
  "sched_size s = length (m_waitedTasks s) + length (m_delayedTasks s) +
     (if m_activeTask s = None then 0 else 1)"

definition sched_state :: "sched \<Rightarrow> nat \<Rightarrow> mt_state option" where
  "sched_state s i =
     (if getActiveTaskId s = Some i then map_option controller (m_activeTask s)
      else case findTaskById (m_waitedTasks s) i of
        Some (t, n) \<Rightarrow> Some (controller t)
      | None \<Rightarrow> map_option (controller \<circ> fst) (findTaskById (m_delayedTasks s) i))"

text \<open>
  The continuation createTask attaches to the end of a task, and the end itself, which
  happens on the task's thread: the continuation runs some time later.
\<close>

definition eraseTask :: "sched \<Rightarrow> nat \<Rightarrow> sched option" where
  "eraseTask s i =
     (case findTaskById (m_waitedTasks s) i of
        Some (t, n) \<Rightarrow>
          if controller t \<noteq> Stopped then None
          else Some (resolve (s\<lparr>m_waitedTasks := erase_at n (m_waitedTasks s)\<rparr>) (task_destroy t))
      | None \<Rightarrow> (case findTaskById (m_delayedTasks s) i of
          Some (t, n) \<Rightarrow>
            if controller t \<noteq> Stopped then None
            else Some (resolve (s\<lparr>m_delayedTasks := erase_at n (m_delayedTasks s)\<rparr>) (task_destroy t))
        | None \<Rightarrow> Some s))"

definition taskFinished :: "nat set \<Rightarrow> sched \<Rightarrow> nat \<Rightarrow> sched option" where
  "taskFinished ends s i =
     (case m_activeTask s of
        None \<Rightarrow> eraseTask s i
      | Some a \<Rightarrow>
          if i \<noteq> task_id a then eraseTask s i
          else if controller a \<noteq> Stopped then None
          else resumeNextTask ends (resolve (s\<lparr>m_activeTask := None\<rparr>) (task_destroy a)))"

definition task_ends :: "sched \<Rightarrow> sched" where
  "task_ends s = s\<lparr>m_activeTask := map_option (\<lambda>t. t\<lparr>controller := Stopped\<rparr>) (m_activeTask s)\<rparr>"

text \<open>
  clear: what it does at once (the tasks are then stopped one after the other by a chain of
  continuations, which SchedulerClear runs; the last of them empties m_waitedTasks).
\<close>

definition clear_now :: "sched \<Rightarrow> sched" where
  "clear_now s =
     (let s = s\<lparr>m_activeTask := map_option (\<lambda>t. t\<lparr>controller := tc_asyncStop (controller t)\<rparr>)
                                  (m_activeTask s)\<rparr>
      in foldl queueTask (s\<lparr>m_delayedTasks := []\<rparr>) (rev (m_delayedTasks s)))"

definition clear_last :: "sched \<Rightarrow> sched" where
  "clear_last s = resolve (s\<lparr>m_waitedTasks := []\<rparr>) (concat (map task_destroy (m_waitedTasks s)))"

section \<open>The invariant\<close>

text \<open>
  All tasks, with those an operation holds in its hands (extra): identifiers are unique,
  every promise is in one place, the waiting tasks are sorted, and only the active task may
  be running.
\<close>

definition tasks :: "sch_task multiset \<Rightarrow> sched \<Rightarrow> sch_task multiset" where
  "tasks extra s = extra + mset (m_waitedTasks s) + mset (m_delayedTasks s) +
     (case m_activeTask s of None \<Rightarrow> {#} | Some a \<Rightarrow> {#a#})"

definition ids_ok :: "nat multiset \<Rightarrow> nat \<Rightarrow> bool" where
  "ids_ok m c \<longleftrightarrow> (\<forall>i. count m i \<le> (if i < c then 1 else 0))"

definition promises_of :: "sch_task multiset \<Rightarrow> nat multiset" where
  "promises_of m = sum_mset (image_mset (\<lambda>t. mset (task_destroy t)) m)"

definition idle :: "sch_task \<Rightarrow> bool" where
  "idle t \<longleftrightarrow> controller t \<in> {WaitForStart, Paused, Stopped}"

definition on_turn :: "sch_task \<Rightarrow> bool" where
  "on_turn t \<longleftrightarrow> controller t \<in> {Running, Stopping, Stopped}"

definition core_ok :: "sch_task multiset \<Rightarrow> sched \<Rightarrow> bool" where
  "core_ok extra s \<longleftrightarrow>
     ids_ok (image_mset task_id (tasks extra s)) (m_idCounter s) \<and>
     promises_of (tasks extra s) + mset (m_waitStopPromises s) + mset (resolved_promises s) =
       mset_set {0..<promise_counter s} \<and>
     sorted (map priority (m_waitedTasks s)) \<and>
     (\<forall>t \<in> set (m_waitedTasks s @ m_delayedTasks s). idle t) \<and>
     (\<forall>a. m_activeTask s = Some a \<longrightarrow> on_turn a)"

definition turn_ok :: "sched \<Rightarrow> bool" where
  "turn_ok s \<longleftrightarrow>
     (\<forall>w \<in> set (m_waitedTasks s). \<exists>a. m_activeTask s = Some a \<and> priority w \<le> priority a)"

definition sched_inv :: "sched \<Rightarrow> bool" where
  "sched_inv s \<longleftrightarrow> core_ok {#} s \<and> turn_ok s"

lemma promises_of_simps [simp]:
  "promises_of {#} = {#}"
  "promises_of (add_mset t m) = mset (task_destroy t) + promises_of m"
  "promises_of (m + m') = promises_of m + promises_of m'"
  by (simp_all add: promises_of_def)

lemma ids_ok_remove: "ids_ok (add_mset i m) c \<Longrightarrow> ids_ok m c"
proof -
  have "count m j \<le> count (add_mset i m) j" for j by simp
  then show "ids_ok (add_mset i m) c \<Longrightarrow> ids_ok m c"
    unfolding ids_ok_def by (meson order_trans)
qed

lemma findTaskById_Some:
  assumes "findTaskById ts i = Some (t, n)"
  shows "\<exists>xs ys. ts = xs @ t # ys \<and> n = length xs \<and> task_id t = i"
proof -
  obtain k where f: "List.find (\<lambda>n. task_id (ts ! n) = i) [0..<length ts] = Some k"
    using assms unfolding findTaskById_def
    by (cases "List.find (\<lambda>n. task_id (ts ! n) = i) [0..<length ts]") simp_all
  have k: "t = ts ! k" "n = k" using assms unfolding findTaskById_def f by auto
  from f have b: "k < length ts" "task_id (ts ! k) = i" by (auto simp: find_Some_iff)
  show ?thesis
  proof (intro exI conjI)
    show "ts = take k ts @ t # drop (Suc k) ts" unfolding k(1) by (rule id_take_nth_drop[OF b(1)])
  qed (use b k in auto)
qed

lemma findTaskById_None: "findTaskById ts i = None \<longleftrightarrow> (\<forall>t \<in> set ts. task_id t \<noteq> i)"
  by (auto simp: findTaskById_def find_None_iff find_Some_iff split: option.splits)
    (auto simp: in_set_conv_nth)

lemma erase_at_append [simp]: "erase_at (length xs) (xs @ t # ys) = xs @ ys"
  by (simp add: erase_at_def)

lemma resolve_simps [simp]:
  "m_waitedTasks (resolve s ps) = m_waitedTasks s"
  "m_delayedTasks (resolve s ps) = m_delayedTasks s"
  "m_activeTask (resolve s ps) = m_activeTask s"
  "m_idCounter (resolve s ps) = m_idCounter s"
  "m_waitStopPromises (resolve s ps) = m_waitStopPromises s"
  "promise_counter (resolve s ps) = promise_counter s"
  "resolved_promises (resolve s ps) = resolved_promises s @ ps"
  by (simp_all add: resolve_def)

text \<open>What the operations on one task do to its identity and its promises.\<close>

lemma task_resume_keeps:
  assumes "task_resume t = (t', ps)"
  shows "task_id t' = task_id t" and "priority t' = priority t"
    and "mset (task_destroy t') + mset ps = mset (task_destroy t)"
    and "idle t \<or> on_turn t \<Longrightarrow> on_turn t'"
  using assms by (auto simp: task_resume_def task_destroy_def Let_def on_turn_def idle_def
      tc_resume_def tc_stop_def ac_simps split: if_splits)

lemma task_pause_keeps:
  assumes "task_pause ends t = (t', ps)"
  shows "task_id t' = task_id t" and "priority t' = priority t"
    and "mset (task_destroy t') + mset ps = mset (task_destroy t)"
    and "idle t \<or> on_turn t \<Longrightarrow> idle t'"
  using assms by (auto simp: task_pause_def task_destroy_def on_turn_def idle_def tc_pause_def
      ac_simps split: mt_state.splits if_splits)

lemma queueTask_split:
  assumes "sorted (map priority (m_waitedTasks s))"
  shows "queueTask s t = s\<lparr>m_waitedTasks :=
    takeWhile (\<lambda>w. priority w < priority t) (m_waitedTasks s) @
    t # dropWhile (\<lambda>w. priority w < priority t) (m_waitedTasks s)\<rparr>"
  using lower_bound_sorted[OF assms, of "priority t"]
  by (simp add: queueTask_def insert_at_takeWhile Let_def)

lemma mset_takeWhile_dropWhile: "mset (takeWhile P xs) + mset (dropWhile P xs) = mset xs"
  by (metis mset_append takeWhile_dropWhile_id)

lemma queueTask_ok:
  assumes "core_ok (add_mset t extra) s" and "idle t"
  shows "core_ok extra (queueTask s t)" and "m_activeTask (queueTask s t) = m_activeTask s"
    and "set (m_waitedTasks (queueTask s t)) = insert t (set (m_waitedTasks s))"
proof -
  have sorted: "sorted (map priority (m_waitedTasks s))" using assms(1) by (simp add: core_ok_def)
  note q = queueTask_split[OF sorted, of t]
  have "sorted (map priority (m_waitedTasks (queueTask s t)))"
    using sorted_insert_lower_bound[OF sorted, of t] by (simp add: queueTask_def Let_def)
  moreover show set: "set (m_waitedTasks (queueTask s t)) = insert t (set (m_waitedTasks s))"
    by (simp add: queueTask_def Let_def)
  moreover have "tasks extra (queueTask s t) = tasks (add_mset t extra) s"
    using mset_takeWhile_dropWhile[of "\<lambda>w. priority w < priority t" "m_waitedTasks s"]
    by (simp add: q tasks_def ac_simps)
  ultimately show "core_ok extra (queueTask s t)"
    using assms by (auto simp: core_ok_def q)
  show "m_activeTask (queueTask s t) = m_activeTask s" by (simp add: q)
qed

lemma schedule_ok:
  assumes "core_ok {#t#} s" and "turn_ok s" and "idle t"
  shows "\<exists>s'. schedule ends s t = Some s' \<and> sched_inv s'"
proof (cases "m_activeTask s")
  case None
  then have w: "m_waitedTasks s = []" using assms(2) by (auto simp: turn_ok_def)
  obtain t' ps where r: "task_resume t = (t', ps)" by (cases "task_resume t")
  note k = task_resume_keeps[OF r]
  have pr: "mset (task_destroy t) = mset (task_destroy t') + mset ps" using k by simp
  have "core_ok {#} (resolve (s\<lparr>m_activeTask := Some t'\<rparr>) ps)"
    using assms(1,3) None w k(1,4) by (simp add: core_ok_def tasks_def pr ac_simps)
  then show ?thesis using None w r
    by (simp add: schedule_def Let_def sched_inv_def turn_ok_def)
next
  case (Some a)
  show ?thesis
  proof (cases "priority a < priority t")
    case True
    obtain a' ps t' qs where r: "task_pause ends a = (a', ps)" "task_resume t = (t', qs)"
      by fastforce
    note k = task_pause_keeps[OF r(1)] task_resume_keeps[OF r(2)]
    let ?s = "resolve (s\<lparr>m_waitedTasks := m_waitedTasks s @ [a'], m_activeTask := Some t'\<rparr>) (ps @ qs)"
    have pr: "mset (task_destroy a) = mset (task_destroy a') + mset ps"
      "mset (task_destroy t) = mset (task_destroy t') + mset qs" using k by simp_all
    have "core_ok {#} ?s"
      using assms Some k(1,2,4-6,8) True
      by (auto simp: core_ok_def tasks_def pr sorted_append turn_ok_def ac_simps add_mset_commute)
    moreover have "turn_ok ?s"
      using assms(2) Some True k by (fastforce simp: turn_ok_def)
    ultimately show ?thesis using Some True r by (simp add: schedule_def sched_inv_def)
  next
    case False
    then show ?thesis
      using Some assms queueTask_ok[OF assms(1,3)]
      by (auto simp: schedule_def sched_inv_def turn_ok_def)
  qed
qed

text \<open>The three ends of a round of resumeNextTask: no task waits, the last one was paused, or it is resumed.\<close>

lemma resumeNextTask_none:
  assumes "core_ok {#} s" and "m_activeTask s = None" and "m_waitedTasks s = []"
  shows "\<exists>s'. resumeNextTask ends s = Some s' \<and> sched_inv s'"
proof -
  let ?s = "if m_delayedTasks s = []
    then resolve (s\<lparr>m_waitStopPromises := []\<rparr>) (m_waitStopPromises s) else s"
  have "resumeNextTask ends s = Some ?s"
    using assms(2,3) by (subst resumeNextTask.simps) simp
  moreover have "sched_inv ?s"
    using assms by (cases "m_delayedTasks s = []")
      (simp_all add: core_ok_def tasks_def sched_inv_def turn_ok_def ac_simps)
  ultimately show ?thesis by simp
qed

lemma core_ok_last_waits:
  "core_ok {#} s \<Longrightarrow> m_waitedTasks s = ws @ [t] \<Longrightarrow> idle t \<and> (\<forall>w \<in> set ws. priority w \<le> priority t)"
  by (auto simp: core_ok_def sorted_append)

lemma core_ok_delayed:
  assumes "core_ok {#} s" and "m_waitedTasks s = ws @ [t]" and r: "task_pause ends t = (t', ps)"
  shows "core_ok {#} (resolve (s\<lparr>m_waitedTasks := ws, m_delayedTasks := m_delayedTasks s @ [t']\<rparr>) ps)"
proof -
  note k = task_pause_keeps[OF r]
  have "mset (task_destroy t) = mset (task_destroy t') + mset ps" using k by simp
  then show ?thesis using assms(1,2) k(1,4) core_ok_last_waits[OF assms(1,2)]
    by (auto simp: core_ok_def tasks_def sorted_append ac_simps)
qed

lemma sched_inv_resumed:
  assumes c: "core_ok {#} s" "m_activeTask s = None" and w: "m_waitedTasks s = ws @ [t]" and r: "task_resume t = (t', ps)"
  shows "sched_inv (resolve (s\<lparr>m_waitedTasks := ws, m_activeTask := Some t'\<rparr>) ps)"
proof -
  let ?s = "resolve (s\<lparr>m_waitedTasks := ws, m_activeTask := Some t'\<rparr>) ps"
  note k = task_resume_keeps[OF r] and i = core_ok_last_waits[OF c(1) w]
  have "mset (task_destroy t) = mset (task_destroy t') + mset ps" using k by simp
  then have "core_ok {#} ?s" using c w k(1,4) i
    by (auto simp: core_ok_def tasks_def sorted_append ac_simps)
  moreover have "turn_ok ?s" using i k(2) by (simp add: turn_ok_def)
  ultimately show ?thesis by (simp add: sched_inv_def)
qed

lemma resumeNextTask_ok:
  assumes "core_ok {#} s" and "m_activeTask s = None"
  shows "\<exists>s'. resumeNextTask ends s = Some s' \<and> sched_inv s'"
  using assms
proof (induction ends s rule: resumeNextTask.induct)
  case (1 ends s)
  show ?case
  proof (cases "m_waitedTasks s" rule: rev_cases)
    case Nil
    then show ?thesis using resumeNextTask_none "1.prems" by blast
  next
    case (snoc ws t)
    show ?thesis
    proof (cases "wasPaused t")
      case True
      obtain t' ps where r: "task_pause ends t = (t', ps)" by (cases "task_pause ends t")
      let ?w = "s\<lparr>m_waitedTasks := ws\<rparr>"
      let ?s = "resolve (?w\<lparr>m_delayedTasks := m_delayedTasks ?w @ [t']\<rparr>) ps"
      have "resumeNextTask ends s = resumeNextTask ends ?s"
        using "1.prems"(2) snoc True r by (subst resumeNextTask.simps) (simp add: Let_def)
      moreover have "\<exists>s'. resumeNextTask ends ?s = Some s' \<and> sched_inv s'"
        by (rule "1.IH"[of t ?w "(t', ps)" t' ps])
          (use core_ok_delayed[OF "1.prems"(1) snoc r] in \<open>simp_all add: "1.prems"(2) snoc True r\<close>)
      ultimately show ?thesis by simp
    next
      case False
      obtain t' ps where r: "task_resume t = (t', ps)" by (cases "task_resume t")
      show ?thesis using sched_inv_resumed[OF "1.prems" snoc r] "1.prems"(2) snoc False r
        by (subst resumeNextTask.simps) (simp add: Let_def)
    qed
  qed
qed

text \<open>Adding a promise to a task that stays where it is.\<close>

definition adds_promise :: "(sch_task \<Rightarrow> sch_task) \<Rightarrow> nat \<Rightarrow> bool" where
  "adds_promise f p \<longleftrightarrow> (\<forall>t. task_id (f t) = task_id t \<and> priority (f t) = priority t \<and>
     controller (f t) = controller t \<and> mset (task_destroy (f t)) = add_mset p (mset (task_destroy t)))"

lemma adds_promise_simps:
  assumes "adds_promise f p"
  shows "task_id (f t) = task_id t" and "priority (f t) = priority t"
    and "mset (task_destroy (f t)) = add_mset p (mset (task_destroy t))"
    and "idle (f t) = idle t" and "on_turn (f t) = on_turn t"
  using assms by (auto simp: adds_promise_def idle_def on_turn_def)

lemma adds_promise_fields:
  "adds_promise (\<lambda>t. t\<lparr>waitPromises := waitPromises t @ [p]\<rparr>) p"
  "adds_promise (\<lambda>t. t\<lparr>stopPromises := stopPromises t @ [p]\<rparr>) p"
  "adds_promise (\<lambda>t. t\<lparr>pausePromises := pausePromises t @ [p]\<rparr>) p"
  "adds_promise (\<lambda>t. t\<lparr>resumePromises := resumePromises t @ [p]\<rparr>) p"
  by (simp_all add: adds_promise_def task_destroy_def)

lemma add_promise_waited:
  assumes "adds_promise f (promise_counter s)" and "sched_inv s" and "m_waitedTasks s = xs @ t # ys"
  shows "sched_inv (s\<lparr>promise_counter := Suc (promise_counter s), m_waitedTasks := xs @ f t # ys\<rparr>)"
  using assms(2,3)
  by (auto simp: sched_inv_def core_ok_def tasks_def turn_ok_def sorted_append
      adds_promise_simps[OF assms(1)] ac_simps)

lemma add_promise_active:
  assumes "adds_promise f (promise_counter s)" and "sched_inv s" and "m_activeTask s = Some a"
  shows "sched_inv (s\<lparr>promise_counter := Suc (promise_counter s), m_activeTask := Some (f a)\<rparr>)"
  using assms(2,3)
  by (auto simp: sched_inv_def core_ok_def tasks_def turn_ok_def adds_promise_simps[OF assms(1)] ac_simps)

lemma add_promise_delayed:
  assumes "adds_promise f (promise_counter s)" and "sched_inv s" and "m_delayedTasks s = xs @ t # ys"
  shows "sched_inv (s\<lparr>promise_counter := Suc (promise_counter s), m_delayedTasks := xs @ f t # ys\<rparr>)"
  using assms(2,3)
  by (auto simp: sched_inv_def core_ok_def tasks_def turn_ok_def adds_promise_simps[OF assms(1)] ac_simps)

text \<open>A delayed task is given a promise and scheduled.\<close>

lemma schedule_delayed:
  assumes "adds_promise f (promise_counter s)" and "sched_inv s" and "m_delayedTasks s = xs @ t # ys"
  shows "\<exists>s'. schedule ends (s\<lparr>promise_counter := Suc (promise_counter s), m_delayedTasks := xs @ ys\<rparr>) (f t)
      = Some s' \<and> sched_inv s'"
proof (rule schedule_ok)
  show "core_ok {#f t#} (s\<lparr>promise_counter := Suc (promise_counter s), m_delayedTasks := xs @ ys\<rparr>)"
    using assms(2,3)
    by (auto simp: sched_inv_def core_ok_def tasks_def adds_promise_simps[OF assms(1)] ac_simps)
  show "turn_ok (s\<lparr>promise_counter := Suc (promise_counter s), m_delayedTasks := xs @ ys\<rparr>)"
    using assms(2) by (simp add: sched_inv_def turn_ok_def)
  show "idle (f t)"
    using assms(2,3) by (auto simp: sched_inv_def core_ok_def adds_promise_simps[OF assms(1)])
qed

section \<open>Every operation keeps the invariant\<close>

lemma ids_ok_fresh: "ids_ok m c \<Longrightarrow> ids_ok (add_mset c m) (Suc c)"
  unfolding ids_ok_def
proof (intro allI)
  fix i assume a: "\<forall>i. count m i \<le> (if i < c then 1 else 0)"
  from a[rule_format, of i] a[rule_format, of c]
  show "count (add_mset c m) i \<le> (if i < Suc c then 1 else 0)"
    by (auto split: if_splits)
qed

lemma push_ok:
  assumes "sched_inv s"
  shows "\<exists>s' i. push ends s p = Some (s', i) \<and> sched_inv s'"
proof -
  obtain s1 t where c: "createTask s p = (s1, t)" by (cases "createTask s p")
  then have s1: "s1 = s\<lparr>m_idCounter := Suc (m_idCounter s)\<rparr>" and t: "task_id t = m_idCounter s"
      "task_destroy t = []" "idle t"
    by (auto simp: createTask_def task_destroy_def idle_def)
  have "core_ok {#t#} s1"
    using assms t by (simp add: s1 sched_inv_def core_ok_def tasks_def ids_ok_fresh)
  moreover have "turn_ok s1" using assms by (simp add: s1 sched_inv_def turn_ok_def)
  ultimately obtain s' where "schedule ends s1 t = Some s'" "sched_inv s'"
    using schedule_ok[OF _ _ t(3)] by blast
  then show ?thesis by (simp add: push_def c)
qed

lemma waitAll_ok: "sched_inv s \<Longrightarrow> sched_inv (fst (makeWaitAllPromise s))"
  by (auto simp: makeWaitAllPromise_def fresh_def sched_inv_def core_ok_def tasks_def turn_ok_def)

lemma active_id: "getActiveTaskId s = Some i \<Longrightarrow> \<exists>a. m_activeTask s = Some a \<and> task_id a = i"
  by (auto simp: getActiveTaskId_def)

lemma waitTask_ok:
  assumes "sched_inv s"
  shows "sched_inv (fst (waitTask s i))"
proof (cases "getActiveTaskId s = Some i")
  case True
  then obtain a where "m_activeTask s = Some a" using active_id by blast
  then show ?thesis
    using add_promise_active[OF adds_promise_fields(1) assms] True
    by (simp add: waitTask_def fresh_def Let_def)
next
  case False
  show ?thesis
  proof (cases "findTaskById (m_waitedTasks s) i")
    case (Some tn)
    obtain t n where tn: "tn = (t, n)" by (cases tn)
    from findTaskById_Some[OF Some[unfolded tn]] obtain xs ys where
      x: "m_waitedTasks s = xs @ t # ys" "n = length xs" by blast
    from add_promise_waited[OF adds_promise_fields(1) assms x(1)] show ?thesis
      using False Some tn x by (simp add: waitTask_def fresh_def Let_def)
  next
    case None
    show ?thesis
    proof (cases "findTaskById (m_delayedTasks s) i")
      case (Some tn)
      obtain t n where tn: "tn = (t, n)" by (cases tn)
      from findTaskById_Some[OF Some[unfolded tn]] obtain xs ys where
        x: "m_delayedTasks s = xs @ t # ys" "n = length xs" by blast
      from add_promise_delayed[OF adds_promise_fields(1) assms x(1)] show ?thesis
        using False None Some tn x by (simp add: waitTask_def fresh_def Let_def)
    next
      case n2: None
      then show ?thesis using assms False None by (simp add: waitTask_def fresh_def Let_def)
    qed
  qed
qed

lemma resume_ok:
  assumes "sched_inv s"
  shows "\<exists>s' f. resume ends s i = Some (s', f) \<and> sched_inv s'"
proof (cases "findTaskById (m_waitedTasks s) i")
  case (Some tn)
  obtain t n where tn: "tn = (t, n)" by (cases tn)
  from findTaskById_Some[OF Some[unfolded tn]] obtain xs ys where
    x: "m_waitedTasks s = xs @ t # ys" "n = length xs" by blast
  from add_promise_waited[OF adds_promise_fields(4) assms x(1)] show ?thesis
    using Some tn x by (simp add: resume_def fresh_def Let_def)
next
  case None
  show ?thesis
  proof (cases "findTaskById (m_delayedTasks s) i")
    case (Some tn)
    obtain t n where tn: "tn = (t, n)" by (cases tn)
    from findTaskById_Some[OF Some[unfolded tn]] obtain xs ys where
      x: "m_delayedTasks s = xs @ t # ys" "n = length xs" by blast
    from schedule_delayed[OF adds_promise_fields(4) assms x(1), of ends] show ?thesis
      using None Some tn x by (auto simp: resume_def fresh_def Let_def)
  next
    case n2: None
    then show ?thesis using assms None by (simp add: resume_def fresh_def Let_def)
  qed
qed

lemma asyncStop_active_ok:
  assumes "sched_inv s"
  shows "sched_inv (s\<lparr>m_activeTask := map_option (\<lambda>t. t\<lparr>controller := tc_asyncStop (controller t)\<rparr>)
     (m_activeTask s)\<rparr>)"
  using assms
  by (cases "m_activeTask s")
    (auto simp: sched_inv_def core_ok_def tasks_def turn_ok_def on_turn_def tc_asyncStop_def
      task_destroy_def)

lemma destroy_waited_ok:
  assumes "sched_inv s" and "m_waitedTasks s = xs @ t # ys"
  shows "sched_inv (resolve (s\<lparr>m_waitedTasks := xs @ ys\<rparr>) (task_destroy t))"
  using assms
  by (auto simp: sched_inv_def core_ok_def tasks_def turn_ok_def sorted_append ac_simps
      dest: ids_ok_remove)

lemma destroy_delayed_ok:
  assumes "sched_inv s" and "m_delayedTasks s = xs @ t # ys"
  shows "sched_inv (resolve (s\<lparr>m_delayedTasks := xs @ ys\<rparr>) (task_destroy t))"
  using assms
  by (auto simp: sched_inv_def core_ok_def tasks_def turn_ok_def ac_simps dest: ids_ok_remove)

lemma cancelTask_ok:
  assumes "sched_inv s"
  shows "\<exists>s' f. cancelTask ends s i = Some (s', f) \<and> sched_inv s'"
proof (cases "getActiveTaskId s = Some i")
  case True
  then show ?thesis using asyncStop_active_ok[OF assms]
    by (simp add: cancelTask_def fresh_def Let_def)
next
  case False
  show ?thesis
  proof (cases "findTaskById (m_waitedTasks s) i")
    case (Some tn)
    obtain t n where tn: "tn = (t, n)" by (cases tn)
    from findTaskById_Some[OF Some[unfolded tn]] obtain xs ys where
      x: "m_waitedTasks s = xs @ t # ys" "n = length xs" by blast
    note a = add_promise_waited[OF adds_promise_fields(2) assms x(1)]
    from destroy_waited_ok[OF a, of xs "t\<lparr>stopPromises := stopPromises t @ [promise_counter s]\<rparr>" ys] a
    show ?thesis
      using False Some tn x by (simp add: cancelTask_def fresh_def Let_def)
  next
    case None
    show ?thesis
    proof (cases "findTaskById (m_delayedTasks s) i")
      case (Some tn)
      obtain t n where tn: "tn = (t, n)" by (cases tn)
      from findTaskById_Some[OF Some[unfolded tn]] obtain xs ys where
        x: "m_delayedTasks s = xs @ t # ys" "n = length xs" by blast
      from schedule_delayed[OF adds_promise_fields(2) assms x(1), of ends] show ?thesis
        using False None Some tn x by (auto simp: cancelTask_def fresh_def Let_def)
    next
      case n2: None
      then show ?thesis using assms False None by (simp add: cancelTask_def fresh_def Let_def)
    qed
  qed
qed

lemma pause_ok:
  assumes "sched_inv s"
  shows "\<exists>s' f. pause ends s i = Some (s', f) \<and> sched_inv s'"
proof (cases "getActiveTaskId s = Some i")
  case True
  then obtain a where a: "m_activeTask s = Some a" using active_id by blast
  obtain a' ps where r: "task_pause ends a = (a', ps)" by (cases "task_pause ends a")
  note k = task_pause_keeps[OF r]
  have pr: "mset (task_destroy a) = mset (task_destroy a') + mset ps" using k by simp
  let ?s = "resolve (s\<lparr>m_delayedTasks := m_delayedTasks s @ [a'], m_activeTask := None\<rparr>) ps"
  have "core_ok {#} ?s"
    using assms a k(1,4)
    by (auto simp: sched_inv_def core_ok_def tasks_def pr ac_simps)
  from resumeNextTask_ok[OF this, of ends] show ?thesis
    using True a r by (auto simp: pause_def)
next
  case False
  show ?thesis
  proof (cases "findTaskById (m_waitedTasks s) i")
    case (Some tn)
    obtain t n where tn: "tn = (t, n)" by (cases tn)
    from findTaskById_Some[OF Some[unfolded tn]] obtain xs ys where
      x: "m_waitedTasks s = xs @ t # ys" "n = length xs" by blast
    from add_promise_waited[OF adds_promise_fields(3) assms x(1)] show ?thesis
      using False Some tn x by (simp add: pause_def fresh_def Let_def)
  next
    case None
    then show ?thesis using assms False by (simp add: pause_def)
  qed
qed

text \<open>The continuation runs only after the task of that number, if it is still there, has stopped.\<close>

definition may_finish :: "sched \<Rightarrow> nat \<Rightarrow> bool" where
  "may_finish s i \<longleftrightarrow> (\<forall>t \<in># tasks {#} s. task_id t = i \<longrightarrow> controller t = Stopped)"

lemma eraseTask_ok:
  assumes "sched_inv s" and "may_finish s i"
  shows "\<exists>s'. eraseTask s i = Some s' \<and> sched_inv s'"
proof (cases "findTaskById (m_waitedTasks s) i")
  case (Some tn)
  obtain t n where tn: "tn = (t, n)" by (cases tn)
  from findTaskById_Some[OF Some[unfolded tn]] obtain xs ys where
    x: "m_waitedTasks s = xs @ t # ys" "n = length xs" "task_id t = i" by blast
  then have "controller t = Stopped" using assms(2) by (simp add: may_finish_def tasks_def)
  then show ?thesis using destroy_waited_ok[OF assms(1) x(1)] Some tn x by (simp add: eraseTask_def)
next
  case None
  show ?thesis
  proof (cases "findTaskById (m_delayedTasks s) i")
    case (Some tn)
    obtain t n where tn: "tn = (t, n)" by (cases tn)
    from findTaskById_Some[OF Some[unfolded tn]] obtain xs ys where
      x: "m_delayedTasks s = xs @ t # ys" "n = length xs" "task_id t = i" by blast
    then have "controller t = Stopped" using assms(2) by (simp add: may_finish_def tasks_def)
    then show ?thesis
      using destroy_delayed_ok[OF assms(1) x(1)] None Some tn x by (simp add: eraseTask_def)
  next
    case n2: None
    then show ?thesis using assms None by (simp add: eraseTask_def)
  qed
qed

lemma taskFinished_ok:
  assumes "sched_inv s" and "may_finish s i"
  shows "\<exists>s'. taskFinished ends s i = Some s' \<and> sched_inv s'"
proof (cases "getActiveTaskId s = Some i")
  case True
  then obtain a where a: "m_activeTask s = Some a" "task_id a = i" using active_id by blast
  then have st: "controller a = Stopped" using assms(2) by (simp add: may_finish_def tasks_def)
  have "core_ok {#} (resolve (s\<lparr>m_activeTask := None\<rparr>) (task_destroy a))"
    using assms(1) a
    by (auto simp: sched_inv_def core_ok_def tasks_def ac_simps dest: ids_ok_remove)
  from resumeNextTask_ok[OF this, of ends] show ?thesis
    using a st by (simp add: taskFinished_def)
next
  case False
  then have "taskFinished ends s i = eraseTask s i"
    by (auto simp: taskFinished_def getActiveTaskId_def split: option.splits)
  then show ?thesis using eraseTask_ok[OF assms] by simp
qed

lemma task_ends_ok:
  assumes "sched_inv s"
  shows "sched_inv (task_ends s)"
  using assms
  by (cases "m_activeTask s")
    (auto simp: task_ends_def sched_inv_def core_ok_def tasks_def turn_ok_def on_turn_def task_destroy_def)

section \<open>Runs\<close>

text \<open>
  The operations of the interface apart from clear (SchedulerClear adds it), the end of the running task on its own
  thread, and the continuations of ended tasks.
\<close>

inductive sched_step :: "sched \<Rightarrow> sched \<Rightarrow> bool" where
  step_push: "push ends s p = Some (s', i) \<Longrightarrow> sched_step s s'"
| step_waitAll: "makeWaitAllPromise s = (s', f) \<Longrightarrow> sched_step s s'"
| step_wait: "waitTask s i = (s', f) \<Longrightarrow> sched_step s s'"
| step_cancel: "cancelTask ends s i = Some (s', f) \<Longrightarrow> sched_step s s'"
| step_pause: "pause ends s i = Some (s', f) \<Longrightarrow> sched_step s s'"
| step_resume: "resume ends s i = Some (s', f) \<Longrightarrow> sched_step s s'"
| step_ends: "sched_step s (task_ends s)"
| step_finished: "may_finish s i \<Longrightarrow> taskFinished ends s i = Some s' \<Longrightarrow> sched_step s s'"

inductive sched_reachable :: "sched \<Rightarrow> bool" where
  sched_reach_new: "sched_reachable sched_new"
| sched_reach_step: "sched_reachable s \<Longrightarrow> sched_step s s' \<Longrightarrow> sched_reachable s'"

lemma sched_step_inv:
  assumes "sched_step s s'" and "sched_inv s"
  shows "sched_inv s'"
  using assms(1)
proof cases
  case (step_push ends p i)
  then show ?thesis using push_ok[OF assms(2), of ends p] by simp
next
  case (step_waitAll f)
  then show ?thesis using waitAll_ok[OF assms(2)] by simp
next
  case (step_wait i f)
  then show ?thesis using waitTask_ok[OF assms(2), of i] by simp
next
  case (step_cancel ends i f)
  then show ?thesis using cancelTask_ok[OF assms(2), of ends i] by simp
next
  case (step_pause ends i f)
  then show ?thesis using pause_ok[OF assms(2), of ends i] by simp
next
  case (step_resume ends i f)
  then show ?thesis using resume_ok[OF assms(2), of ends i] by simp
next
  case step_ends
  then show ?thesis using task_ends_ok[OF assms(2)] by simp
next
  case (step_finished i ends)
  then show ?thesis using taskFinished_ok[OF assms(2), of i ends] by simp
qed

lemma sched_reachable_inv: "sched_reachable s \<Longrightarrow> sched_inv s"
proof (induction rule: sched_reachable.induct)
  case sched_reach_new
  show ?case
    by (simp add: sched_new_def sched_inv_def core_ok_def turn_ok_def tasks_def ids_ok_def)
next
  case (sched_reach_step s s')
  then show ?case using sched_step_inv by blast
qed

section \<open>Properties\<close>

text \<open>A run for the witnesses: three tasks of priorities 1, 5 and 3 are pushed.\<close>

definition sch_demo_task :: "nat \<Rightarrow> int \<Rightarrow> bool \<Rightarrow> mt_state \<Rightarrow> sch_task" where
  "sch_demo_task i p st c = \<lparr>task_id = i, priority = p, isAlreadyStarted = st, controller = c,
     pausePromises = [], resumePromises = [], stopPromises = [], waitPromises = []\<rparr>"

definition sch_demo :: sched where
  "sch_demo = \<lparr>m_waitedTasks = [sch_demo_task 0 1 True Paused, sch_demo_task 2 3 False WaitForStart],
     m_delayedTasks = [], m_activeTask = Some (sch_demo_task 1 5 True Running), m_idCounter = 3,
     m_waitStopPromises = [], promise_counter = 0, resolved_promises = []\<rparr>"

lemmas sch_eval = push_def createTask_def schedule_def task_resume_def task_pause_def
  wasCancelled_def wasPaused_def tc_resume_def tc_pause_def queueTask_def resolve_def
  lower_bound_def insert_at_def Let_def sch_demo_task_def

lemma sch_push_empty:
  "push {} sched_new 1 = Some (sched_new\<lparr>m_activeTask := Some (sch_demo_task 0 1 True Running),
     m_idCounter := 1\<rparr>, 0)"
  by (simp add: sch_eval sched_new_def)

lemma sch_demo_reachable: "sched_reachable sch_demo"
proof -
  let ?s1 = "sched_new\<lparr>m_activeTask := Some (sch_demo_task 0 1 True Running), m_idCounter := 1\<rparr>"
  let ?s2 = "?s1\<lparr>m_waitedTasks := [sch_demo_task 0 1 True Paused],
    m_activeTask := Some (sch_demo_task 1 5 True Running), m_idCounter := 2\<rparr>"
  have 1: "sched_reachable ?s1"
    by (rule sched_reach_step[OF sched_reach_new step_push[OF sch_push_empty]])
  have "push {} ?s1 5 = Some (?s2, 1)" by (simp add: sch_eval sched_new_def)
  from sched_reach_step[OF 1 step_push[OF this]] have 2: "sched_reachable ?s2" .
  have "push {} ?s2 3 = Some (sch_demo, 2)"
    by (simp add: sch_eval sched_new_def sch_demo_def lower_bound_loop.simps)
  from sched_reach_step[OF 2 step_push[OF this]] show ?thesis .
qed

text \<open>
  C6: every promise of the scheduler is in exactly one place, and so resolved at most once;
  when no task is left, only promises of waitAll can be unresolved.
\<close>

theorem scheduler_promises:
  assumes "sched_reachable s"
  shows "promises_of (tasks {#} s) + mset (m_waitStopPromises s) + mset (resolved_promises s) =
      mset_set {0..<promise_counter s} \<and>
    (sched_size s = 0 \<longrightarrow> set (m_waitStopPromises s @ resolved_promises s) = {0..<promise_counter s})"
proof -
  have e: "promises_of (tasks {#} s) + mset (m_waitStopPromises s) + mset (resolved_promises s) =
      mset_set {0..<promise_counter s}"
    using sched_reachable_inv[OF assms] by (simp add: sched_inv_def core_ok_def)
  moreover have "set (m_waitStopPromises s @ resolved_promises s) = {0..<promise_counter s}"
    if "sched_size s = 0"
  proof -
    have "tasks {#} s = {#}" using that by (auto simp: sched_size_def tasks_def split: if_splits)
    then have "mset (m_waitStopPromises s @ resolved_promises s) = mset_set {0..<promise_counter s}"
      using e by simp
    from arg_cong[OF this, of set_mset] show ?thesis by (simp only: set_mset_mset) simp
  qed
  ultimately show ?thesis by blast
qed

theorem scheduler_promises_witness:
  "promises_of (tasks {#} sch_demo) + mset (m_waitStopPromises sch_demo) +
     mset (resolved_promises sch_demo) = {#}"
  using scheduler_promises[OF sch_demo_reachable] by (simp add: sch_demo_def)

text \<open>
  a task is queued behind the waiting tasks of higher priority and of its own, which
  were queued before it, and in front of those of lower priority: the next task to run
  (the last of the list) is the one of the highest priority that has waited longest.
\<close>

theorem queueTask_order:
  assumes "sorted (map priority (m_waitedTasks s))"
  shows "\<exists>lower others. m_waitedTasks s = lower @ others \<and>
    m_waitedTasks (queueTask s t) = lower @ t # others \<and>
    (\<forall>w \<in> set lower. priority w < priority t) \<and> (\<forall>w \<in> set others. priority t \<le> priority w)"
  using queueTask_split[OF assms, of t] dropWhile_ge_sorted[OF assms]
  by (intro exI[of _ "takeWhile (\<lambda>w. priority w < priority t) (m_waitedTasks s)"]
      exI[of _ "dropWhile (\<lambda>w. priority w < priority t) (m_waitedTasks s)"])
    (auto dest: set_takeWhileD)

theorem queueTask_order_witness:
  "\<exists>lower others. m_waitedTasks sch_demo = lower @ others \<and>
    m_waitedTasks (queueTask sch_demo (sch_demo_task 7 3 False WaitForStart)) =
      lower @ sch_demo_task 7 3 False WaitForStart # others"
  using queueTask_order[of sch_demo "sch_demo_task 7 3 False WaitForStart"]
  by (auto simp: sch_demo_def sch_demo_task_def)

section \<open>Three runs that do not go well\<close>

text \<open>
  A waitAll that never ends: the only task ends on its own thread; before the continuation
  of its end has run, it is deactivated. It moves to the delayed tasks, from where eraseTask
  removes it without resolving m_waitStopPromises. No task and no continuation is left.
\<close>

definition sch_alone :: sched where
  "sch_alone = sched_new\<lparr>m_activeTask := Some (sch_demo_task 0 1 True Running), m_idCounter := 1\<rparr>"

lemma waitAll_lost:
  "\<exists>s2 s3. pause {} (task_ends (fst (makeWaitAllPromise sch_alone))) 0 = Some (s2, SF_Ready) \<and>
     may_finish s2 0 \<and> taskFinished {} s2 0 = Some s3 \<and>
     sched_size s3 = 0 \<and> m_waitStopPromises s3 = [0] \<and> resolved_promises s3 = []"
proof -
  let ?t = "sch_demo_task 0 1 True Stopped"
  let ?s2 = "sched_new\<lparr>m_delayedTasks := [?t], m_idCounter := 1, m_waitStopPromises := [0],
    promise_counter := 1\<rparr>"
  let ?s3 = "?s2\<lparr>m_delayedTasks := []\<rparr>"
  have p: "pause {} (task_ends (fst (makeWaitAllPromise sch_alone))) 0 = Some (?s2, SF_Ready)"
    by (simp add: sch_eval pause_def sch_alone_def makeWaitAllPromise_def task_ends_def fresh_def
        sched_new_def getActiveTaskId_def resumeNextTask.simps)
  have f: "taskFinished {} ?s2 0 = Some ?s3"
    by (simp add: taskFinished_def eraseTask_def findTaskById_def sched_new_def sch_eval
        erase_at_def task_destroy_def)
  show ?thesis
    using p f
    by (intro exI[of _ ?s2] exI[of _ ?s3])
      (simp add: may_finish_def tasks_def sched_new_def sched_size_def sch_demo_task_def)
qed

theorem waitAll_lost_reachable:
  "\<exists>s. sched_reachable s \<and> sched_size s = 0 \<and> m_waitStopPromises s = [0] \<and> resolved_promises s = []"
proof -
  obtain s2 s3 where s: "pause {} (task_ends (fst (makeWaitAllPromise sch_alone))) 0 = Some (s2, SF_Ready)"
      "may_finish s2 0" "taskFinished {} s2 0 = Some s3"
      "sched_size s3 = 0 \<and> m_waitStopPromises s3 = [0] \<and> resolved_promises s3 = []"
    using waitAll_lost by blast
  have "sched_reachable sch_alone"
    unfolding sch_alone_def by (rule sched_reach_step[OF sched_reach_new step_push[OF sch_push_empty]])
  then have "sched_reachable (fst (makeWaitAllPromise sch_alone))"
    by (rule sched_reach_step) (rule step_waitAll[OF prod.collapse[symmetric]])
  then have "sched_reachable (task_ends (fst (makeWaitAllPromise sch_alone)))"
    by (rule sched_reach_step) (rule step_ends)
  then have "sched_reachable s2" by (rule sched_reach_step) (rule step_pause[OF s(1)])
  then have "sched_reachable s3" by (rule sched_reach_step) (rule step_finished[OF s(2,3)])
  then show ?thesis using s(4) by blast
qed

text \<open>
  clear while the only task is delayed leaves a waiting task and no active one, until its
  last continuation has run: a push in between fails the assertion of schedule.
\<close>

theorem push_during_clear_fails:
  assumes "m_activeTask s = None" and "m_delayedTasks s \<noteq> []"
  shows "push ends (clear_now s) p = None"
proof -
  have "m_waitedTasks (foldl queueTask z ts) \<noteq> [] \<and> m_activeTask (foldl queueTask z ts) = m_activeTask z"
    if "ts \<noteq> [] \<or> m_waitedTasks z \<noteq> []" for z ts
    using that
    by (induction ts arbitrary: z) (auto simp: queueTask_def Let_def insert_at_def)
  from this[of "rev (m_delayedTasks s)"] show ?thesis
    using assms by (simp add: clear_now_def push_def createTask_def schedule_def Let_def)
qed

theorem push_during_clear_fails_witness:
  "push {} (clear_now (sched_new\<lparr>m_delayedTasks := [sch_demo_task 0 1 True Paused]\<rparr>)) 2 = None"
  by (rule push_during_clear_fails) (simp_all add: sched_new_def)

text \<open>
  activate does not take back a deactivate of a waiting task: the task is still delayed when
  its turn comes, and the promise of activate stays unresolved.
\<close>

lemma activate_keeps_deactivate:
  assumes "m_activeTask s = None" and "m_waitedTasks s = [t]" and "pausePromises t \<noteq> []"
    and "m_delayedTasks s = []"
  shows "\<exists>s'. resumeNextTask ends s = Some s' \<and> m_activeTask s' = None \<and>
    map resumePromises (m_delayedTasks s') = [resumePromises t]"
  using assms
  by (simp add: resumeNextTask.simps[of ends s] resumeNextTask.simps[of _ "resolve _ _"]
      wasPaused_def task_pause_def Let_def)

end
