(* ===== verification/SchedulerClear.thy ===== *)
theory SchedulerClear
  imports Scheduler
begin

text \<open>
  The public interface of the Scheduler (lib/async/scheduler.cpp), whose operations run one after
  the other on the thread of m_ao, and a whole run of clear: the chain of continuations that stops
  one task after the other, together with the ends of the tasks and their continuations, in every
  order the threads allow.
\<close>

section \<open>The interface\<close>

datatype sched_request =
    RqPush int | RqActiveTaskId | RqWait nat | RqWaitAll | RqCancel nat | RqDeactivate nat
  | RqActivate nat | RqSize | RqState nat | RqClear

datatype sched_answer =
    AnTask nat | AnTaskOpt "nat option" | AnFuture sch_future | AnSize nat | AnState "mt_state option"

text \<open>
  What a request does on m_ao and answers; wait, waitAll, cancel, clear, deactivate and activate
  then wait for the future of their asynchronous form. The future of clear is that of its chain,
  which is modelled below.
\<close>

fun sched_api :: "nat set \<Rightarrow> sched_request \<Rightarrow> sched \<Rightarrow> (sched \<times> sched_answer) option" where
  "sched_api ends (RqPush p) s = map_option (\<lambda>(s, i). (s, AnTask i)) (push ends s p)"
| "sched_api ends RqActiveTaskId s = Some (s, AnTaskOpt (getActiveTaskId s))"
| "sched_api ends (RqWait i) s = (let (s, f) = waitTask s i in Some (s, AnFuture f))"
| "sched_api ends RqWaitAll s = (let (s, f) = makeWaitAllPromise s in Some (s, AnFuture f))"
| "sched_api ends (RqCancel i) s = map_option (\<lambda>(s, f). (s, AnFuture f)) (cancelTask ends s i)"
| "sched_api ends (RqDeactivate i) s = map_option (\<lambda>(s, f). (s, AnFuture f)) (pause ends s i)"
| "sched_api ends (RqActivate i) s = map_option (\<lambda>(s, f). (s, AnFuture f)) (resume ends s i)"
| "sched_api ends RqSize s = Some (s, AnSize (sched_size s))"
| "sched_api ends (RqState i) s = Some (s, AnState (sched_state s i))"
| "sched_api ends RqClear s = Some (clear_now s, AnFuture SF_Ready)"

lemma sched_api_step:
  assumes "sched_api ends r s = Some (s', a)" and "r \<noteq> RqClear"
  shows "sched_step s s' \<or> s' = s"
  using assms by (cases r) (auto intro: sched_step.intros split: prod.splits)

lemma sched_api_inv:
  assumes "sched_inv s" and "r \<noteq> RqClear"
  shows "\<exists>s' a. sched_api ends r s = Some (s', a) \<and> sched_inv s'"
proof -
  have "sched_api ends r s \<noteq> None"
    using push_ok[OF assms(1), of ends] cancelTask_ok[OF assms(1), of ends] pause_ok[OF assms(1), of ends]
      resume_ok[OF assms(1), of ends]
    by (cases r) (auto split: prod.splits, fastforce+)
  then obtain s' a where "sched_api ends r s = Some (s', a)" by auto
  with sched_api_step[OF this assms(2)] sched_step_inv[OF _ assms(1)] assms(1) show ?thesis by blast
qed

section \<open>A run of clear\<close>

text \<open>
  The jobs of m_ao's thread: the continuation of the end of a task, which createTask attached, and
  the next continuation of clear's chain. A task that ends resolves its promises on its own thread,
  which posts these jobs one after the other (c_threads: what each such thread has left to post).

  c_chain: the tasks whose links have not run; c_wait: the task whose end the next link waits for.
\<close>

datatype clear_job = JobFinished nat | JobNext

record clear_run =
  c_sched :: sched
  c_jobs :: "clear_job list"
  c_threads :: "clear_job list list"
  c_chain :: "nat list"
  c_wait :: "nat option"
  c_done :: bool

definition all_tasks :: "sched \<Rightarrow> sch_task list" where
  "all_tasks s = m_waitedTasks s @ m_delayedTasks s @ (case m_activeTask s of None \<Rightarrow> [] | Some a \<Rightarrow> [a])"

definition controller_of :: "sched \<Rightarrow> nat \<Rightarrow> mt_state option" where
  "controller_of s i = map_option controller (List.find (\<lambda>t. task_id t = i) (all_tasks s))"

definition set_controller :: "nat \<Rightarrow> mt_state \<Rightarrow> sched \<Rightarrow> sched" where
  "set_controller i st s =
     (let f = (\<lambda>t. if task_id t = i then t\<lparr>controller := st\<rparr> else t) in
      s\<lparr>m_waitedTasks := map f (m_waitedTasks s), m_delayedTasks := map f (m_delayedTasks s),
        m_activeTask := map_option f (m_activeTask s)\<rparr>)"

text \<open>
  A link stops its task through a reference into the task: None when the task is gone. The future
  of a task that has already ended is ready, so that the next link runs at once; quick: the tasks
  that end between the link's asyncStop and its asyncWaitForStopped.
\<close>

fun run_links :: "nat set \<Rightarrow> nat list \<Rightarrow> sched \<Rightarrow> (sched \<times> nat list \<times> nat option \<times> bool \<times> nat list) option" where
  "run_links quick [] s = Some (clear_last s, [], None, True, [])"
| "run_links quick (i # is) s = (case controller_of s i of
     None \<Rightarrow> None
   | Some st \<Rightarrow>
       if st = Stopped then run_links quick is s
       else if i \<in> quick then map_option (\<lambda>(s, is, wait, done, ended). (s, is, wait, done, i # ended))
         (run_links quick is (set_controller i Stopped s))
       else Some (set_controller i (tc_asyncStop st) s, is, Some i, False, []))"

definition clear_start :: "sched \<Rightarrow> clear_run" where
  "clear_start s =
     (let wait = (case m_activeTask s of None \<Rightarrow> None
                  | Some a \<Rightarrow> if controller a = Stopped then None else Some (task_id a));
          s = clear_now s
      in \<lparr>c_sched = s, c_jobs = (if wait = None then [JobNext] else []), c_threads = [],
          c_chain = rev (map task_id (m_waitedTasks s)), c_wait = wait, c_done = False\<rparr>)"

text \<open>The tasks that an operation has stopped itself; their threads post the continuation of their end.\<close>

definition new_stops :: "sched \<Rightarrow> sched \<Rightarrow> nat list" where
  "new_stops s s' = map task_id (filter (\<lambda>t. controller t = Stopped \<and>
     controller_of s (task_id t) \<noteq> Some Stopped) (all_tasks s'))"

definition finished_job :: "nat \<Rightarrow> clear_run \<Rightarrow> clear_run option" where
  "finished_job i c = map_option (\<lambda>s. c\<lparr>c_sched := s,
       c_threads := c_threads c @ map (\<lambda>j. [JobFinished j]) (new_stops (c_sched c) s)\<rparr>)
     (taskFinished {} (c_sched c) i)"

definition next_job :: "nat set \<Rightarrow> clear_run \<Rightarrow> clear_run option" where
  "next_job quick c = map_option (\<lambda>(s, chain, wait, done, ended). c\<lparr>c_sched := s,
       c_threads := c_threads c @ map (\<lambda>j. [JobFinished j]) ended, c_chain := chain, c_wait := wait, c_done := done\<rparr>)
     (run_links quick (c_chain c) (c_sched c))"

definition task_stopped :: "nat \<Rightarrow> clear_run \<Rightarrow> clear_run" where
  "task_stopped i c = c\<lparr>c_sched := set_controller i Stopped (c_sched c),
     c_threads := c_threads c @ [JobFinished i # (if c_wait c = Some i then [JobNext] else [])],
     c_wait := (if c_wait c = Some i then None else c_wait c)\<rparr>"

text \<open>own: whether a running task may also end by itself.\<close>

inductive clear_step :: "bool \<Rightarrow> clear_run \<Rightarrow> clear_run option \<Rightarrow> bool" for own where
  clear_job_finished: "c_jobs c = JobFinished i # js \<Longrightarrow> clear_step own c (finished_job i (c\<lparr>c_jobs := js\<rparr>))"
| clear_job_next: "c_jobs c = JobNext # js \<Longrightarrow> clear_step own c (next_job quick (c\<lparr>c_jobs := js\<rparr>))"
| clear_task_ends: "controller_of (c_sched c) i = Some st \<Longrightarrow> st = Stopping \<or> own \<and> st = Running \<Longrightarrow>
    clear_step own c (Some (task_stopped i c))"
| clear_posts: "c_threads c = ts @ (j # js) # us \<Longrightarrow>
    clear_step own c (Some (c\<lparr>c_jobs := c_jobs c @ [j], c_threads := ts @ (if js = [] then us else js # us)\<rparr>))"

definition clear_next :: "clear_run \<Rightarrow> clear_run \<Rightarrow> bool" where
  "clear_next c c' = clear_step False c (Some c')"

section \<open>Tasks by their identifiers\<close>

definition task_ids :: "sched \<Rightarrow> nat set" where
  "task_ids s = task_id ` set (all_tasks s)"

lemma controller_of_task:
  assumes "distinct (map task_id (all_tasks s))" and "t \<in> set (all_tasks s)"
  shows "controller_of s (task_id t) = Some (controller t)"
proof -
  obtain u where u: "List.find (\<lambda>u. task_id u = task_id t) (all_tasks s) = Some u"
    using assms(2) by (cases "List.find (\<lambda>u. task_id u = task_id t) (all_tasks s)") (auto simp: find_None_iff)
  then have "u \<in> set (all_tasks s)" "task_id u = task_id t" by (auto simp: find_Some_iff)
  then have "u = t" using assms by (meson distinct_map inj_onD)
  then show ?thesis using u by (simp add: controller_of_def)
qed

lemma controller_of_Some:
  assumes "controller_of s i = Some st"
  shows "\<exists>t\<in>set (all_tasks s). task_id t = i \<and> controller t = st"
  using assms by (auto simp: controller_of_def find_Some_iff)

lemma controller_of_None: "controller_of s i = None \<longleftrightarrow> i \<notin> task_ids s"
  by (auto simp: controller_of_def find_None_iff task_ids_def)

lemma all_tasks_set_controller:
  "all_tasks (set_controller i st s) = map (\<lambda>t. if task_id t = i then t\<lparr>controller := st\<rparr> else t) (all_tasks s)"
  by (simp add: all_tasks_def set_controller_def Let_def split: option.splits)

lemma ids_set_controller [simp]:
  "map task_id (all_tasks (set_controller i st s)) = map task_id (all_tasks s)"
  by (simp add: all_tasks_set_controller)

lemma task_ids_map: "task_ids s = set (map task_id (all_tasks s))"
  by (simp add: task_ids_def)

lemma task_ids_set_controller [simp]: "task_ids (set_controller i st s) = task_ids s"
  by (simp only: task_ids_map ids_set_controller)

lemma set_controller_lists [simp]:
  "m_delayedTasks (set_controller i st s) = [] \<longleftrightarrow> m_delayedTasks s = []"
  "m_waitedTasks (set_controller i st s) = [] \<longleftrightarrow> m_waitedTasks s = []"
  by (simp_all add: set_controller_def Let_def)

text \<open>What the end of a task does to the others: the next one is resumed, the rest are left alone.\<close>

definition continues :: "sch_task \<Rightarrow> sch_task \<Rightarrow> bool" where
  "continues t t' \<longleftrightarrow> task_id t' = task_id t \<and> pausePromises t' = pausePromises t \<and> stopPromises t' = stopPromises t \<and>
     (controller t' = controller t \<or> controller t' = tc_resume (controller t))"

lemma continues_refl [simp]: "continues t t"
  by (simp add: continues_def)

lemma task_resume_continues: "stopPromises t = [] \<Longrightarrow> continues t (fst (task_resume t))"
  by (simp add: continues_def task_resume_def wasCancelled_def Let_def)

lemma resumeNextTask_quiet:
  assumes "m_activeTask s = None" and "m_delayedTasks s = []"
  shows "m_waitedTasks s = [] \<Longrightarrow>
      resumeNextTask ends s = Some (resolve (s\<lparr>m_waitStopPromises := []\<rparr>) (m_waitStopPromises s))"
    and "m_waitedTasks s = ws @ [t] \<Longrightarrow> pausePromises t = [] \<Longrightarrow>
      resumeNextTask ends s = Some (resolve (s\<lparr>m_waitedTasks := ws, m_activeTask := Some (fst (task_resume t))\<rparr>)
        (snd (task_resume t)))"
  using assms by (simp_all add: resumeNextTask.simps[of ends s] wasPaused_def case_prod_beta Let_def)

lemma ids_without:
  assumes "distinct (map f (xs @ t # ys))"
  shows "f ` set (xs @ ys) = f ` set (xs @ t # ys) - {f t}"
  using assms by (auto simp: image_iff)

text \<open>The end of the active task, and of one that waits.\<close>

lemma active_finished_continues:
  assumes d: "distinct (map task_id (all_tasks s))" and del: "m_delayedTasks s = []"
    and quiet: "\<And>t. t \<in> set (all_tasks s) \<Longrightarrow> pausePromises t = [] \<and> stopPromises t = []"
    and a: "m_activeTask s = Some a" "controller a = Stopped"
  shows "\<exists>s'. taskFinished {} s (task_id a) = Some s' \<and> m_delayedTasks s' = [] \<and> distinct (map task_id (all_tasks s')) \<and>
    task_ids s' = task_ids s - {task_id a} \<and> (\<forall>t'\<in>set (all_tasks s'). \<exists>t\<in>set (all_tasks s). continues t t') \<and>
    (m_waitedTasks s = [] \<longrightarrow> m_waitedTasks s' = [])"
proof -
  let ?s = "resolve (s\<lparr>m_activeTask := None\<rparr>) (task_destroy a)"
  have fin: "taskFinished {} s (task_id a) = resumeNextTask {} ?s" using a by (simp add: taskFinished_def)
  show ?thesis
  proof (cases "m_waitedTasks s" rule: rev_cases)
    case Nil
    then show ?thesis
      using resumeNextTask_quiet(1)[of ?s "{}"] fin a del by (simp add: all_tasks_def task_ids_def)
  next
    case (snoc ws t)
    have t: "pausePromises t = []" "stopPromises t = []" using quiet[of t] snoc by (auto simp: all_tasks_def)
    have "task_id (fst (task_resume t)) = task_id t" using task_resume_continues[OF t(2)] by (simp add: continues_def)
    then show ?thesis
      using resumeNextTask_quiet(2)[of ?s ws t "{}"] fin a del snoc t d task_resume_continues[OF t(2)]
      by (auto simp: all_tasks_def task_ids_def intro: continues_refl) (metis imageI)
  qed
qed

lemma waiting_finished_continues:
  assumes d: "distinct (map task_id (all_tasks s))" and del: "m_delayedTasks s = []"
    and x: "m_waitedTasks s = xs @ t # ys" "controller t = Stopped"
    and found: "findTaskById (m_waitedTasks s) (task_id t) = Some (t, length xs)"
  shows "\<exists>s'. eraseTask s (task_id t) = Some s' \<and> m_delayedTasks s' = [] \<and> distinct (map task_id (all_tasks s')) \<and>
    task_ids s' = task_ids s - {task_id t} \<and> (\<forall>t'\<in>set (all_tasks s'). \<exists>t\<in>set (all_tasks s). continues t t')"
proof -
  let ?s = "resolve (s\<lparr>m_waitedTasks := xs @ ys\<rparr>) (task_destroy t)"
  have e: "eraseTask s (task_id t) = Some ?s" using found x by (simp add: eraseTask_def)
  let ?a = "case m_activeTask s of None \<Rightarrow> [] | Some a \<Rightarrow> [a]"
  have all: "all_tasks s = xs @ t # ys @ ?a" "all_tasks ?s = xs @ ys @ ?a" using x(1) del by (simp_all add: all_tasks_def)
  then have "task_ids ?s = task_ids s - {task_id t}"
    using ids_without[of task_id xs t "ys @ ?a"] d by (simp add: task_ids_def)
  then show ?thesis using e d del x by (auto simp: all_tasks_def intro: continues_refl)
qed

lemma taskFinished_continues:
  assumes d: "distinct (map task_id (all_tasks s))" and del: "m_delayedTasks s = []"
    and quiet: "\<And>t. t \<in> set (all_tasks s) \<Longrightarrow> pausePromises t = [] \<and> stopPromises t = []"
    and st: "i \<in> task_ids s \<Longrightarrow> controller_of s i = Some Stopped"
  shows "\<exists>s'. taskFinished {} s i = Some s' \<and> m_delayedTasks s' = [] \<and> distinct (map task_id (all_tasks s')) \<and>
    task_ids s' = task_ids s - {i} \<and> (\<forall>t'\<in>set (all_tasks s'). \<exists>t\<in>set (all_tasks s). continues t t') \<and>
    (m_waitedTasks s = [] \<longrightarrow> m_waitedTasks s' = [])"
proof (cases "\<exists>a. m_activeTask s = Some a \<and> task_id a = i")
  case True
  then obtain a where a: "m_activeTask s = Some a" "task_id a = i" by blast
  then have m: "a \<in> set (all_tasks s)" by (simp add: all_tasks_def)
  then have "controller a = Stopped" using controller_of_task[OF d m] a st by (auto simp: task_ids_def)
  from active_finished_continues[OF d del quiet a(1) this] show ?thesis unfolding a(2) by blast
next
  case False
  then have fin: "taskFinished {} s i = eraseTask s i"
    by (auto simp: taskFinished_def split: option.splits)
  show ?thesis
  proof (cases "findTaskById (m_waitedTasks s) i")
    case None
    then have "i \<notin> task_ids s"
      using False del by (cases "m_activeTask s") (auto simp: task_ids_def all_tasks_def findTaskById_None)
    moreover have "eraseTask s i = Some s" using None del by (simp add: eraseTask_def findTaskById_def)
    ultimately show ?thesis using fin d del by (auto intro: continues_refl)
  next
    case (Some tn)
    obtain t n where tn: "tn = (t, n)" by (cases tn)
    from findTaskById_Some[OF Some[unfolded tn]] obtain xs ys where
      x: "m_waitedTasks s = xs @ t # ys" "n = length xs" "task_id t = i" by blast
    then have m: "t \<in> set (all_tasks s)" by (simp add: all_tasks_def)
    then have "controller t = Stopped" using controller_of_task[OF d m] st x(3) by (auto simp: task_ids_def)
    from waiting_finished_continues[OF d del x(1) this] show ?thesis using Some tn x fin by auto
  qed
qed

section \<open>The invariant of the run\<close>

text \<open>
  A task whose link has not run is untouched and its end not pending; the one the chain waits for
  is stopping; every other one has ended, and the continuation of its end is pending.
\<close>

definition clear_pending :: "clear_run \<Rightarrow> clear_job multiset" where
  "clear_pending c = mset (c_jobs c) + mset (concat (c_threads c))"

definition clear_task_ok :: "clear_run \<Rightarrow> sch_task \<Rightarrow> bool" where
  "clear_task_ok c t \<longleftrightarrow> pausePromises t = [] \<and> stopPromises t = [] \<and>
     (if task_id t \<in> set (c_chain c)
      then controller t \<in> {WaitForStart, Paused, Running} \<and> JobFinished (task_id t) \<notin># clear_pending c
      else if c_wait c = Some (task_id t)
      then controller t = Stopping \<and> JobFinished (task_id t) \<notin># clear_pending c
      else controller t = Stopped \<and> JobFinished (task_id t) \<in># clear_pending c)"

definition clear_core :: "clear_run \<Rightarrow> bool" where
  "clear_core c \<longleftrightarrow>
     m_delayedTasks (c_sched c) = [] \<and> distinct (map task_id (all_tasks (c_sched c))) \<and> distinct (c_chain c) \<and>
     (\<forall>t\<in>set (all_tasks (c_sched c)). clear_task_ok c t) \<and> set (c_chain c) \<subseteq> task_ids (c_sched c) \<and>
     (\<forall>i. c_wait c = Some i \<longrightarrow> i \<in> task_ids (c_sched c) \<and> i \<notin> set (c_chain c)) \<and>
     (\<forall>i. count (clear_pending c) (JobFinished i) \<le> 1)"

definition clear_inv :: "clear_run \<Rightarrow> bool" where
  "clear_inv c \<longleftrightarrow> clear_core c \<and>
     count (clear_pending c) JobNext = (if c_wait c = None \<and> \<not> c_done c then 1 else 0) \<and>
     (c_done c \<longrightarrow> c_chain c = [] \<and> c_wait c = None \<and> m_waitedTasks (c_sched c) = [])"

definition clear_measure :: "clear_run \<Rightarrow> nat" where
  "clear_measure c = 6 * length (c_chain c) + (if c_wait c = None then 0 else 5) +
     2 * length (concat (c_threads c)) + length (c_jobs c)"

text \<open>The steps, one by one. Posting moves a job from a thread to the queue of m_ao.\<close>

lemma clear_inv_posts:
  assumes "clear_inv c" and "c_threads c = ts @ (j # js) # us"
  defines "c' \<equiv> c\<lparr>c_jobs := c_jobs c @ [j], c_threads := ts @ (if js = [] then us else js # us)\<rparr>"
  shows "clear_inv c' \<and> clear_measure c' < clear_measure c"
proof -
  have "clear_pending c' = clear_pending c" using assms(2) by (simp add: c'_def clear_pending_def)
  moreover from this have "clear_task_ok c' t = clear_task_ok c t" for t by (simp add: clear_task_ok_def c'_def)
  ultimately show ?thesis using assms(1,2) by (simp add: clear_inv_def clear_core_def c'_def clear_measure_def)
qed

lemma clear_inv_task_ends:
  assumes inv: "clear_inv c" and st: "controller_of (c_sched c) i = Some Stopping"
  shows "clear_inv (task_stopped i c) \<and> clear_measure (task_stopped i c) < clear_measure c"
proof -
  obtain t where t: "t \<in> set (all_tasks (c_sched c))" "task_id t = i" "controller t = Stopping"
    using controller_of_Some[OF st] by blast
  then have w: "c_wait c = Some i" "i \<notin> set (c_chain c)" "JobFinished i \<notin># clear_pending c"
    using inv by (auto simp: clear_inv_def clear_core_def clear_task_ok_def split: if_splits)
  let ?c = "task_stopped i c"
  have p: "clear_pending ?c = clear_pending c + {#JobFinished i, JobNext#}" using w by (simp add: task_stopped_def clear_pending_def)
  have ok: "clear_task_ok ?c (if task_id u = i then u\<lparr>controller := Stopped\<rparr> else u)" if "clear_task_ok c u" for u
    using that w p by (auto simp: clear_task_ok_def task_stopped_def)
  have "all_tasks (c_sched ?c) = map (\<lambda>u. if task_id u = i then u\<lparr>controller := Stopped\<rparr> else u) (all_tasks (c_sched c))"
    by (simp add: task_stopped_def all_tasks_set_controller)
  then have "\<forall>u\<in>set (all_tasks (c_sched ?c)). clear_task_ok ?c u"
    using inv ok unfolding clear_inv_def clear_core_def by (simp only: set_map ball_simps(9)) blast
  moreover have "map task_id (all_tasks (c_sched ?c)) = map task_id (all_tasks (c_sched c))"
    "task_ids (c_sched ?c) = task_ids (c_sched c)" "c_chain ?c = c_chain c" "c_wait ?c = None" "c_done ?c = c_done c"
    "m_delayedTasks (c_sched ?c) = [] \<longleftrightarrow> m_delayedTasks (c_sched c) = []"
    using w by (simp_all add: task_stopped_def)
  ultimately have "clear_inv ?c" using inv p w unfolding clear_inv_def clear_core_def
    by (auto simp: not_in_iff simp del: map_map)
  then show ?thesis using w by (simp add: clear_measure_def task_stopped_def)
qed

text \<open>The links that run at once are those of the quick tasks in front of the chain.\<close>

definition stop_all :: "nat list \<Rightarrow> sched \<Rightarrow> sched" where
  "stop_all is s = fold (\<lambda>i. set_controller i Stopped) is s"

lemma controller_of_other: "i \<noteq> j \<Longrightarrow> controller_of (set_controller i st s) j = controller_of s j"
proof -
  assume "i \<noteq> j"
  then have "List.find (\<lambda>t. task_id t = j) (map (\<lambda>t. if task_id t = i then t\<lparr>controller := st\<rparr> else t) ts) =
      List.find (\<lambda>t. task_id t = j) ts" for ts :: "sch_task list"
    by (induction ts) auto
  then show ?thesis by (simp add: controller_of_def all_tasks_set_controller)
qed

lemma run_links_eq:
  assumes "distinct chain" and "\<And>i. i \<in> set chain \<Longrightarrow> \<exists>st. controller_of s i = Some st \<and> st \<in> {WaitForStart, Paused, Running}"
  shows "run_links quick chain s =
    (let ended = takeWhile (\<lambda>i. i \<in> quick) chain; s = stop_all ended s in
     case dropWhile (\<lambda>i. i \<in> quick) chain of
       [] \<Rightarrow> Some (clear_last s, [], None, True, ended)
     | i # is \<Rightarrow> Some (set_controller i Stopping s, is, Some i, False, ended))"
  using assms
proof (induction chain arbitrary: s)
  case (Cons i chain)
  obtain st where st: "controller_of s i = Some st" "st \<in> {WaitForStart, Paused, Running}" using Cons.prems(2) by auto
  show ?case
  proof (cases "i \<in> quick")
    case True
    have other: "controller_of (set_controller i Stopped s) j = controller_of s j" if "j \<in> set chain" for j
      using controller_of_other[of i j] that Cons.prems(1) by auto
    have "run_links quick chain (set_controller i Stopped s) =
      (let ended = takeWhile (\<lambda>i. i \<in> quick) chain; s = stop_all ended (set_controller i Stopped s) in
       case dropWhile (\<lambda>i. i \<in> quick) chain of
         [] \<Rightarrow> Some (clear_last s, [], None, True, ended)
       | i # is \<Rightarrow> Some (set_controller i Stopping s, is, Some i, False, ended))"
      by (rule Cons.IH) (use Cons.prems other in auto)
    then show ?thesis using True st
      by (cases "dropWhile (\<lambda>i. i \<in> quick) chain")
        (auto simp: stop_all_def Let_def simp del: dropWhile_eq_Nil_conv dropWhile_eq_Cons_conv)
  next
    case False
    then show ?thesis using st by (auto simp: stop_all_def tc_asyncStop_def)
  qed
qed (simp add: stop_all_def)

lemma all_tasks_stop_all:
  "all_tasks (stop_all is s) = map (\<lambda>t. if task_id t \<in> set is then t\<lparr>controller := Stopped\<rparr> else t) (all_tasks s)"
  by (induction "is" arbitrary: s) (auto simp: stop_all_def all_tasks_set_controller)

lemma stop_all_lists [simp]:
  "map task_id (all_tasks (stop_all is s)) = map task_id (all_tasks s)"
  "task_ids (stop_all is s) = task_ids s"
  "m_delayedTasks (stop_all is s) = [] \<longleftrightarrow> m_delayedTasks s = []"
  by (induction "is" arbitrary: s) (simp_all add: stop_all_def)

lemma clear_last_tasks [simp]:
  "m_waitedTasks (clear_last s) = []" "m_delayedTasks (clear_last s) = m_delayedTasks s"
  "m_activeTask (clear_last s) = m_activeTask s"
  by (simp_all add: clear_last_def)

lemma all_tasks_clear_last:
  "set (all_tasks (clear_last s)) \<subseteq> set (all_tasks s)"
  "distinct (map task_id (all_tasks s)) \<Longrightarrow> distinct (map task_id (all_tasks (clear_last s)))"
  by (auto simp: all_tasks_def)

text \<open>A task whose link has not run.\<close>

lemma chain_task:
  assumes inv: "clear_inv c" and i: "i \<in> set (c_chain c)"
  shows "\<exists>st. controller_of (c_sched c) i = Some st \<and> st \<in> {WaitForStart, Paused, Running}"
    and "JobFinished i \<notin># clear_pending c"
proof -
  have "i \<in> task_ids (c_sched c)" using inv i unfolding clear_inv_def clear_core_def by blast
  then obtain t where t: "t \<in> set (all_tasks (c_sched c))" "task_id t = i" by (auto simp: task_ids_def)
  then have ok: "clear_task_ok c t" using inv by (simp add: clear_inv_def clear_core_def)
  then have "controller t \<in> {WaitForStart, Paused, Running}" using i t by (simp add: clear_task_ok_def)
  then show "\<exists>st. controller_of (c_sched c) i = Some st \<and> st \<in> {WaitForStart, Paused, Running}"
    using controller_of_task[of "c_sched c" t] t inv by (auto simp: clear_inv_def clear_core_def)
  show "JobFinished i \<notin># clear_pending c" using ok i t by (simp add: clear_task_ok_def)
qed

text \<open>Running tasks at the front of the chain end: they are out of the chain, and their ends pending.\<close>

lemma count_ends: "count (image_mset JobFinished M) (JobFinished i) = count M i"
  by (induction M) auto

lemma clear_core_ended:
  assumes inv: "clear_inv c" and ch: "c_chain c = ended @ rest" and w: "c_wait c = None"
    and c1: "c_sched c1 = stop_all ended (c_sched c)" "c_chain c1 = rest" "c_wait c1 = None"
    and p: "clear_pending c = add_mset JobNext P" "clear_pending c1 = P + image_mset JobFinished (mset ended)"
  shows "clear_core c1"
proof -
  note q = chain_task(2)[OF inv, unfolded ch]
  have dis: "distinct (ended @ rest)" using inv ch by (simp add: clear_inv_def clear_core_def)
  have ok: "clear_task_ok c1 (if task_id t \<in> set ended then t\<lparr>controller := Stopped\<rparr> else t)" if "clear_task_ok c t" for t
    using that dis p w ch c1 by (auto simp: clear_task_ok_def)
  have "all_tasks (c_sched c1) =
      map (\<lambda>t. if task_id t \<in> set ended then t\<lparr>controller := Stopped\<rparr> else t) (all_tasks (c_sched c))"
    by (simp add: c1 all_tasks_stop_all)
  then have "\<forall>t\<in>set (all_tasks (c_sched c1)). clear_task_ok c1 t"
    using inv ok unfolding clear_inv_def clear_core_def by (simp only: set_map ball_simps(9)) blast
  moreover have "count (clear_pending c1) (JobFinished i) \<le> 1" for i
  proof (cases "i \<in> set ended")
    case True
    then have "count P (JobFinished i) = 0" using q[of i] p(1) by (simp add: not_in_iff)
    moreover have "count (mset ended) i \<le> 1" using dis by (simp add: distinct_count_atmost_1[of ended])
    ultimately show ?thesis using p(2) by (simp add: count_ends)
  next
    case False
    then have "count (mset ended) i = 0" by simp
    moreover have "count P (JobFinished i) \<le> 1" using inv p(1) by (simp add: clear_inv_def clear_core_def)
    ultimately show ?thesis using p(2) by (simp only: count_union count_ends)
  qed
  ultimately show ?thesis
    using inv dis ch unfolding clear_inv_def clear_core_def c1 by (auto simp del: map_map)
qed

lemma clear_core_last:
  assumes "clear_core c" and "c_chain c = []" and "c_wait c = None"
  shows "clear_core (c\<lparr>c_sched := clear_last (c_sched c), c_done := True\<rparr>)"
proof -
  have "clear_task_ok (c\<lparr>c_sched := s, c_done := True\<rparr>) t = clear_task_ok c t" for s t
    by (simp add: clear_task_ok_def clear_pending_def)
  then show ?thesis
    using assms all_tasks_clear_last(1)[of "c_sched c"] all_tasks_clear_last(2)[of "c_sched c"]
    by (auto simp: clear_core_def clear_pending_def)
qed

lemma clear_core_wait:
  assumes core: "clear_core c" and ch: "c_chain c = i # is" and w: "c_wait c = None"
  shows "clear_core (c\<lparr>c_sched := set_controller i Stopping (c_sched c), c_chain := is, c_wait := Some i\<rparr>)"
proof -
  let ?c = "c\<lparr>c_sched := set_controller i Stopping (c_sched c), c_chain := is, c_wait := Some i\<rparr>"
  have p: "clear_pending ?c = clear_pending c" by (simp add: clear_pending_def)
  have i: "i \<notin> set is" "i \<in> task_ids (c_sched c)" using core ch by (auto simp: clear_core_def)
  have ok: "clear_task_ok ?c (if task_id t = i then t\<lparr>controller := Stopping\<rparr> else t)" if "clear_task_ok c t" for t
    using that p ch w i(1) by (auto simp: clear_task_ok_def)
  have "all_tasks (c_sched ?c) =
      map (\<lambda>t. if task_id t = i then t\<lparr>controller := Stopping\<rparr> else t) (all_tasks (c_sched c))"
    by (simp add: all_tasks_set_controller)
  then have "\<forall>t\<in>set (all_tasks (c_sched ?c)). clear_task_ok ?c t"
    using core ok unfolding clear_core_def by (simp only: set_map ball_simps(9)) blast
  then show ?thesis using core ch i p unfolding clear_core_def by (auto simp del: map_map)
qed

text \<open>The next continuation runs: the chain gives up its quick tasks and the one it waits for then.\<close>

lemma clear_inv_next:
  assumes inv: "clear_inv c" and j: "c_jobs c = JobNext # js"
  shows "\<exists>c'. next_job quick (c\<lparr>c_jobs := js\<rparr>) = Some c' \<and> clear_inv c' \<and> clear_measure c' < clear_measure c"
proof -
  have w: "c_wait c = None" "\<not> c_done c" "count (clear_pending c) JobNext = 1"
    using inv j by (auto simp: clear_inv_def clear_pending_def split: if_splits)
  define ended where "ended = takeWhile (\<lambda>i. i \<in> quick) (c_chain c)"
  define rest where "rest = dropWhile (\<lambda>i. i \<in> quick) (c_chain c)"
  have ch: "c_chain c = ended @ rest" by (simp add: ended_def rest_def)
  define c1 where "c1 = c\<lparr>c_jobs := js, c_threads := c_threads c @ map (\<lambda>j. [JobFinished j]) ended,
    c_sched := stop_all ended (c_sched c), c_chain := rest\<rparr>"
  have conc: "mset (concat (map (\<lambda>j. [JobFinished j]) xs)) = image_mset JobFinished (mset xs)" for xs
    by (induction xs) auto
  have len: "length (concat (map (\<lambda>j. [JobFinished j]) xs)) = length xs" for xs by (induction xs) auto
  define P where "P = mset js + mset (concat (c_threads c))"
  have p: "clear_pending c = add_mset JobNext P" "clear_pending c1 = P + image_mset JobFinished (mset ended)"
    using j conc by (simp_all add: clear_pending_def c1_def P_def)
  have core: "clear_core c1"
    by (rule clear_core_ended[OF inv ch w(1) _ _ _ p]) (use w in \<open>simp_all add: c1_def\<close>)
  have n: "count (clear_pending c1) JobNext = 0" using w(3) p by (auto simp: count_eq_zero_iff)
  have m: "clear_measure c1 < clear_measure c"
    using ch j len[of ended] w(1) by (simp add: clear_measure_def c1_def)
  have sc: "c_sched c1 = stop_all ended (c_sched c)" by (simp add: c1_def)
  have links: "run_links quick (c_chain c) (c_sched c) = (case rest of
      [] \<Rightarrow> Some (clear_last (c_sched c1), [], None, True, ended)
    | i # is \<Rightarrow> Some (set_controller i Stopping (c_sched c1), is, Some i, False, ended))"
    using run_links_eq[of "c_chain c" "c_sched c" quick, folded ended_def rest_def] inv chain_task(1)[OF inv]
    unfolding sc by (simp add: clear_inv_def clear_core_def Let_def)
  show ?thesis
  proof (cases rest)
    case Nil
    let ?c = "c1\<lparr>c_sched := clear_last (c_sched c1), c_done := True\<rparr>"
    have "next_job quick (c\<lparr>c_jobs := js\<rparr>) = Some ?c" using links Nil w by (simp add: next_job_def c1_def)
    moreover have "clear_inv ?c"
      using clear_core_last[OF core] Nil w n by (simp add: clear_inv_def clear_pending_def c1_def)
    moreover have "clear_measure ?c = clear_measure c1" by (simp add: clear_measure_def)
    ultimately show ?thesis using m by auto
  next
    case (Cons i "is")
    let ?c = "c1\<lparr>c_sched := set_controller i Stopping (c_sched c1), c_chain := is, c_wait := Some i\<rparr>"
    have "next_job quick (c\<lparr>c_jobs := js\<rparr>) = Some ?c" using links Cons w by (simp add: next_job_def c1_def)
    moreover have "clear_inv ?c"
      using clear_core_wait[OF core] Cons w n by (simp add: clear_inv_def clear_pending_def c1_def)
    moreover have "clear_measure ?c < clear_measure c1" using Cons w by (simp add: clear_measure_def c1_def)
    ultimately show ?thesis using m by auto
  qed
qed

text \<open>The continuation of the end of a task: the task is gone, the next one of the waiting may be resumed.\<close>

lemma continues_ok:
  assumes ok: "clear_task_ok c t" and "continues t t'" and ne: "task_id t \<noteq> i"
    and c': "c_chain c' = c_chain c" "c_wait c' = c_wait c" and p: "clear_pending c = add_mset (JobFinished i) (clear_pending c')"
  shows "clear_task_ok c' t'"
proof -
  have t': "task_id t' = task_id t" "pausePromises t' = pausePromises t" "stopPromises t' = stopPromises t"
    "controller t' = controller t \<or> controller t' = tc_resume (controller t)"
    using assms(2) by (auto simp: continues_def)
  show ?thesis using ok t' ne c' p by (auto simp: clear_task_ok_def tc_resume_def)
qed

lemma continues_no_stops:
  assumes d: "distinct (map task_id (all_tasks s))"
    and c: "\<And>t'. t' \<in> set (all_tasks s') \<Longrightarrow> \<exists>t\<in>set (all_tasks s). continues t t'"
  shows "new_stops s s' = []"
proof -
  have "controller_of s (task_id t') = Some Stopped" if t': "t' \<in> set (all_tasks s')" "controller t' = Stopped" for t'
  proof -
    obtain t where t: "t \<in> set (all_tasks s)" "continues t t'" using c[OF t'(1)] by blast
    then have "controller t = Stopped" using t'(2) by (auto simp: continues_def tc_resume_def split: if_splits)
    then show ?thesis using controller_of_task[OF d t(1)] t(2) by (simp add: continues_def)
  qed
  then show ?thesis by (auto simp: new_stops_def filter_empty_conv)
qed

lemma clear_inv_finished:
  assumes inv: "clear_inv c" and j: "c_jobs c = JobFinished i # js"
  shows "\<exists>c'. finished_job i (c\<lparr>c_jobs := js\<rparr>) = Some c' \<and> clear_inv c' \<and> clear_measure c' < clear_measure c"
proof -
  let ?s = "c_sched c"
  have d: "distinct (map task_id (all_tasks ?s))" and del: "m_delayedTasks ?s = []"
    and ok: "\<And>t. t \<in> set (all_tasks ?s) \<Longrightarrow> clear_task_ok c t"
    using inv by (simp_all add: clear_inv_def clear_core_def)
  have fin: "JobFinished i \<in># clear_pending c" using j by (simp add: clear_pending_def)
  then have ni: "i \<notin> set (c_chain c)" using chain_task(2)[OF inv] by blast
  have gone: "c_wait c \<noteq> Some i \<and> controller_of ?s i = Some Stopped" if i: "i \<in> task_ids ?s"
  proof -
    obtain t where t: "t \<in> set (all_tasks ?s)" "task_id t = i" using i by (auto simp: task_ids_def)
    then show ?thesis using ok[OF t(1)] fin ni controller_of_task[OF d t(1)]
      by (simp add: clear_task_ok_def split: if_splits)
  qed
  then have nw: "c_wait c \<noteq> Some i" and st: "i \<in> task_ids ?s \<Longrightarrow> controller_of ?s i = Some Stopped"
    using inv unfolding clear_inv_def clear_core_def by blast+
  obtain s' where s': "taskFinished {} ?s i = Some s'" "m_delayedTasks s' = []" "distinct (map task_id (all_tasks s'))"
    "task_ids s' = task_ids ?s - {i}" "\<And>t'. t' \<in> set (all_tasks s') \<Longrightarrow> \<exists>t\<in>set (all_tasks ?s). continues t t'"
    "m_waitedTasks ?s = [] \<Longrightarrow> m_waitedTasks s' = []"
    using taskFinished_continues[OF d del _ st] ok by (auto simp: clear_task_ok_def)
  have none: "new_stops ?s s' = []" by (rule continues_no_stops[OF d s'(5)])
  let ?c = "c\<lparr>c_jobs := js, c_sched := s'\<rparr>"
  have p: "clear_pending c = add_mset (JobFinished i) (clear_pending ?c)" using j by (simp add: clear_pending_def)
  have "clear_task_ok ?c t'" if t': "t' \<in> set (all_tasks s')" for t'
  proof -
    obtain t where t: "t \<in> set (all_tasks ?s)" "continues t t'" using s'(5)[OF t'] by blast
    have "task_id t' \<in> task_ids s'" using t' by (simp add: task_ids_def)
    then have "task_id t \<noteq> i" using t(2) s'(4) by (simp add: continues_def)
    from continues_ok[OF ok[OF t(1)] t(2) this _ _ p] show ?thesis by simp
  qed
  moreover have "count (clear_pending ?c) (JobFinished k) \<le> 1" for k
  proof -
    have "count (clear_pending ?c) (JobFinished k) \<le> count (clear_pending c) (JobFinished k)" using p by simp
    also have "... \<le> 1" using inv by (simp add: clear_inv_def clear_core_def)
    finally show ?thesis .
  qed
  moreover have "count (clear_pending ?c) JobNext = count (clear_pending c) JobNext" using p by simp
  ultimately have "clear_inv ?c"
    using inv s'(2-4,6) ni nw unfolding clear_inv_def clear_core_def by (auto split: if_splits)
  moreover have "finished_job i (c\<lparr>c_jobs := js\<rparr>) = Some ?c" using s'(1) none by (simp add: finished_job_def)
  moreover have "clear_measure ?c < clear_measure c" using j by (simp add: clear_measure_def)
  ultimately show ?thesis by blast
qed

lemma clear_inv_step:
  assumes inv: "clear_inv c" and step: "clear_step False c r"
  shows "\<exists>c'. r = Some c' \<and> clear_inv c' \<and> clear_measure c' < clear_measure c"
  using step
proof cases
  case (clear_job_finished i js)
  then show ?thesis using clear_inv_finished[OF inv] by blast
next
  case (clear_job_next js quick)
  then show ?thesis using clear_inv_next[OF inv] by blast
next
  case (clear_task_ends i st)
  then show ?thesis using clear_inv_task_ends[OF inv] by blast
next
  case (clear_posts ts j js us)
  then show ?thesis using clear_inv_posts[OF inv] by blast
qed

section \<open>clear stops everything\<close>

text \<open>
  Where clear may start: nothing is about to be deactivated or cancelled, and no end of a task is
  still to be handled.
\<close>

definition clear_ready :: "sched \<Rightarrow> bool" where
  "clear_ready s \<longleftrightarrow> distinct (map task_id (all_tasks s)) \<and>
     (\<forall>t\<in>set (all_tasks s). pausePromises t = [] \<and> stopPromises t = []) \<and>
     (\<forall>t\<in>set (m_waitedTasks s @ m_delayedTasks s). controller t = WaitForStart \<or> controller t = Paused) \<and>
     (\<forall>a. m_activeTask s = Some a \<longrightarrow> controller a = Running \<or> controller a = Stopping)"

lemma foldl_queueTask:
  "mset (m_waitedTasks (foldl queueTask s ts)) = mset (m_waitedTasks s) + mset ts \<and>
   m_delayedTasks (foldl queueTask s ts) = m_delayedTasks s \<and> m_activeTask (foldl queueTask s ts) = m_activeTask s"
proof (induction ts arbitrary: s)
  case (Cons t ts)
  have "mset (insert_at n t xs) = add_mset t (mset xs)" for n and xs :: "sch_task list"
  proof -
    have "mset xs = mset (take n xs) + mset (drop n xs)" by (metis append_take_drop_id mset_append)
    then show ?thesis by (simp add: insert_at_def)
  qed
  then show ?case using Cons.IH[of "queueTask s t"] by (simp add: queueTask_def Let_def)
qed simp

lemma clear_now_tasks:
  "mset (m_waitedTasks (clear_now s)) = mset (m_waitedTasks s) + mset (m_delayedTasks s)"
  "m_delayedTasks (clear_now s) = []"
  "m_activeTask (clear_now s) = map_option (\<lambda>t. t\<lparr>controller := tc_asyncStop (controller t)\<rparr>) (m_activeTask s)"
  using foldl_queueTask by (simp_all add: clear_now_def Let_def)

lemma clear_start_inv:
  assumes "clear_ready s"
  shows "clear_inv (clear_start s)" and "clear_measure (clear_start s) \<le> 6 * sched_size s + 1"
proof -
  note now = clear_now_tasks[of s]
  have w: "set (m_waitedTasks (clear_now s)) = set (m_waitedTasks s) \<union> set (m_delayedTasks s)"
    using arg_cong[OF now(1), of set_mset] by simp
  have len: "length (m_waitedTasks (clear_now s)) = length (m_waitedTasks s) + length (m_delayedTasks s)"
    using arg_cong[OF now(1), of size] by simp
  have "mset (map task_id (m_waitedTasks (clear_now s))) = mset (map task_id (m_waitedTasks s @ m_delayedTasks s))"
    using now(1) by simp
  from mset_eq_imp_distinct_iff[OF this] have d: "distinct (map task_id (m_waitedTasks (clear_now s)))"
    using assms by (auto simp: clear_ready_def all_tasks_def)
  have "clear_inv (clear_start s)"
  proof (cases "m_activeTask s")
    case None
    then show ?thesis using assms d w now
      by (auto simp: clear_ready_def clear_inv_def clear_core_def clear_start_def clear_task_ok_def clear_pending_def
          all_tasks_def task_ids_def Let_def)
  next
    case (Some a)
    then have "task_id a \<notin> task_id ` set (m_waitedTasks (clear_now s))"
      using assms w by (auto simp: clear_ready_def all_tasks_def)
    then show ?thesis using assms d w now Some
      by (auto simp: clear_ready_def clear_inv_def clear_core_def clear_start_def clear_task_ok_def clear_pending_def
          all_tasks_def task_ids_def Let_def tc_asyncStop_def)
  qed
  then show "clear_inv (clear_start s)" .
  show "clear_measure (clear_start s) \<le> 6 * sched_size s + 1"
    using len by (simp add: clear_measure_def clear_start_def sched_size_def Let_def)
qed

lemma clear_next_inv:
  assumes "(clear_next ^^ n) c c'" and "clear_inv c"
  shows "clear_inv c' \<and> n + clear_measure c' \<le> clear_measure c"
  using assms(1)
proof (induction n arbitrary: c')
  case 0
  then show ?case using assms(2) by simp
next
  case (Suc n)
  then obtain c1 where c1: "(clear_next ^^ n) c c1" "clear_next c1 c'" by auto
  from clear_inv_step[of c1 "Some c'"] Suc.IH[OF c1(1)] c1(2) show ?case by (auto simp: clear_next_def)
qed

lemma clear_progress:
  assumes inv: "clear_inv c" and stuck: "\<And>c'. \<not> clear_next c c'"
  shows "c_done c \<and> sched_size (c_sched c) = 0"
proof -
  have step: "\<exists>c'. clear_next c c'" if "clear_step False c r" for r
    using clear_inv_step[OF inv that] that by (auto simp: clear_next_def)
  have "c_jobs c = []"
  proof (cases "c_jobs c")
    case (Cons j js)
    then show ?thesis using step clear_job_finished[of c] clear_job_next[of c] stuck by (cases j) blast+
  qed
  moreover have "concat (c_threads c) = []"
  proof (rule ccontr)
    assume "concat (c_threads c) \<noteq> []"
    then obtain t where "t \<in> set (c_threads c)" "t \<noteq> []" by auto
    then obtain ts us j js where "c_threads c = ts @ (j # js) # us" by (metis split_list list.exhaust)
    from step[OF clear_posts[OF this]] show False using stuck by blast
  qed
  ultimately have p: "clear_pending c = {#}" by (simp add: clear_pending_def)
  have none: "c_wait c = None"
  proof (cases "c_wait c")
    case (Some i)
    then obtain t where t: "t \<in> set (all_tasks (c_sched c))" "task_id t = i" "i \<notin> set (c_chain c)" "clear_task_ok c t"
      using inv by (auto simp: clear_inv_def clear_core_def task_ids_def)
    then have "controller t = Stopping" using Some by (simp add: clear_task_ok_def)
    then have "controller_of (c_sched c) i = Some Stopping"
      using controller_of_task[OF _ t(1)] t(2) inv by (simp add: clear_inv_def clear_core_def)
    from step[OF clear_task_ends[OF this]] show ?thesis using stuck by blast
  qed
  have "c_done c" using inv p none by (auto simp: clear_inv_def split: if_splits)
  moreover from this have "all_tasks (c_sched c) = []"
    using inv p none by (cases "all_tasks (c_sched c)") (auto simp: clear_inv_def clear_core_def clear_task_ok_def)
  ultimately show ?thesis by (auto simp: sched_size_def all_tasks_def split: option.splits)
qed

text \<open>
  C7: from a state with no pending cancel or deactivate and no end of a task that the scheduler has not handled yet
  (clear_ready), and as long as no task ends by itself and no other operation comes in between, clear stops every task:
  in every order in which its continuations, the ends of the tasks that it stops and the continuations of these ends
  can run, no link meets a task that is gone, the run is over after at most 6 * size + 1 steps, and then no task is left.
  Without these conditions a link can use a task that is gone (clear_cancel_dangles).
\<close>

theorem clear_stops_everything:
  assumes "clear_ready s" and "(clear_next ^^ n) (clear_start s) c"
  shows "n \<le> 6 * sched_size s + 1 \<and> \<not> clear_step False c None \<and>
    ((\<exists>c'. clear_next c c') \<or> c_done c \<and> sched_size (c_sched c) = 0)"
proof -
  from clear_next_inv[OF assms(2) clear_start_inv(1)[OF assms(1)]] clear_start_inv(2)[OF assms(1)]
  have inv: "clear_inv c" and n: "n \<le> 6 * sched_size s + 1" by auto
  have "\<not> clear_step False c None" using clear_inv_step[OF inv] by blast
  moreover have "(\<exists>c'. clear_next c c') \<or> c_done c \<and> sched_size (c_sched c) = 0" using clear_progress[OF inv] by blast
  ultimately show ?thesis using n by blast
qed

theorem clear_stops_everything_witness: "\<not> clear_step False (clear_start sch_demo) None"
proof -
  have "clear_ready sch_demo" by (simp add: clear_ready_def sch_demo_def sch_demo_task_def all_tasks_def)
  from clear_stops_everything[OF this, of 0] show ?thesis by simp
qed

text \<open>
  With another operation in between this is lost: a cancel of a waiting task that was not started
  destroys it at once, and its link, which holds a reference into it, runs later.
\<close>

definition clear_demo :: "clear_run" where
  "clear_demo = \<lparr>c_sched = sch_demo\<lparr>m_activeTask := Some (sch_demo_task 1 5 True Stopping)\<rparr>,
     c_jobs = [], c_threads = [], c_chain = [2, 0], c_wait = Some 1, c_done = False\<rparr>"

lemma clear_demo_start: "clear_start sch_demo = clear_demo"
  by (simp add: clear_start_def clear_now_def clear_demo_def sch_demo_def sch_demo_task_def tc_asyncStop_def Let_def)

lemma clear_demo_ended:
  assumes "clear_run.c_sched c = s" and "controller_of s 1 = Some Stopping" and "c_wait c = Some 1"
    and "c_jobs c = []" and "c_threads c = []"
  shows "(clear_next ^^ 3) c (c\<lparr>c_sched := set_controller 1 Stopped s, c_wait := None,
    c_jobs := [JobFinished 1, JobNext]\<rparr>)"
proof -
  let ?c1 = "c\<lparr>c_sched := set_controller 1 Stopped s, c_wait := None, c_threads := [[JobFinished 1, JobNext]]\<rparr>"
  let ?c2 = "?c1\<lparr>c_jobs := [JobFinished 1], c_threads := [[JobNext]]\<rparr>"
  have "clear_next c ?c1"
    using clear_task_ends[of c 1 Stopping False] assms
    by (cases c) (simp add: clear_next_def task_stopped_def)
  moreover have "clear_next ?c1 ?c2"
    using clear_posts[of ?c1 "[]" "JobFinished 1" "[JobNext]" "[]" False] assms by (simp add: clear_next_def)
  moreover have "clear_next ?c2 (c\<lparr>c_sched := set_controller 1 Stopped s, c_wait := None, c_jobs := [JobFinished 1, JobNext]\<rparr>)"
    using clear_posts[of ?c2 "[]" JobNext "[]" "[]" False] assms by (cases c) (simp add: clear_next_def)
  ultimately show ?thesis by (auto simp: numeral_3_eq_3)
qed

theorem clear_cancel_dangles:
  "\<exists>s f n c. cancelTask {} (c_sched (clear_start sch_demo)) 2 = Some (s, f) \<and>
    (clear_next ^^ n) (clear_start sch_demo\<lparr>c_sched := s\<rparr>) c \<and> clear_step False c None"
proof -
  let ?t = "sch_demo_task"
  let ?s = "sch_demo\<lparr>m_waitedTasks := [?t 0 1 True Paused], m_activeTask := Some (?t 1 5 True Stopping),
    promise_counter := 1, resolved_promises := [0]\<rparr>"
  let ?c1 = "clear_demo\<lparr>c_sched := set_controller 1 Stopped ?s, c_wait := None, c_jobs := [JobFinished 1, JobNext]\<rparr>"
  let ?s2 = "?s\<lparr>m_waitedTasks := [], m_activeTask := Some (?t 0 1 True Running)\<rparr>"
  let ?c2 = "?c1\<lparr>c_sched := ?s2, c_jobs := [JobNext]\<rparr>"
  have cancel: "cancelTask {} (c_sched clear_demo) 2 = Some (?s, SF_Promise 0)"
    by (simp add: clear_demo_def sch_demo_def sch_demo_task_def cancelTask_def getActiveTaskId_def findTaskById_def
        fresh_def erase_at_def resolve_def task_destroy_def Let_def)
  have "controller_of ?s 1 = Some Stopping"
    by (simp add: sch_demo_def controller_of_def all_tasks_def sch_demo_task_def)
  from clear_demo_ended[of "clear_demo\<lparr>c_sched := ?s\<rparr>", OF _ this]
  have "(clear_next ^^ 3) (clear_demo\<lparr>c_sched := ?s\<rparr>) ?c1" by (simp add: clear_demo_def)
  moreover have "finished_job 1 (?c1\<lparr>c_jobs := [JobNext]\<rparr>) = Some ?c2"
    by (simp add: finished_job_def clear_demo_def sch_demo_def set_controller_def taskFinished_def resumeNextTask.simps
        new_stops_def all_tasks_def task_destroy_def sch_eval)
  then have "clear_next ?c1 ?c2"
    using clear_job_finished[of ?c1 1 "[JobNext]" False] by (simp add: clear_next_def)
  ultimately have "(clear_next ^^ Suc 3) (clear_demo\<lparr>c_sched := ?s\<rparr>) ?c2" by (rule relpowp_Suc_I)
  moreover have "next_job {} (?c2\<lparr>c_jobs := []\<rparr>) = None"
    by (simp add: next_job_def clear_demo_def controller_of_def all_tasks_def sch_demo_def sch_demo_task_def)
  then have "clear_step False ?c2 None" using clear_job_next[of ?c2 "[]" False "{}"] by simp
  ultimately show ?thesis using cancel unfolding clear_demo_start by blast
qed

section \<open>The assertions, in runs with clears\<close>

text \<open>
  The operations and the ends of tasks in any order, and clears among them: what clear does at once, the
  links of its chain (the last one empties the waiting tasks), and the tasks that end meanwhile. clear is called
  while a task is active or none is deactivated. cleared: whether a clear has begun.
\<close>

inductive sched_history :: "bool \<Rightarrow> sched \<Rightarrow> bool" where
  sched_hist_new: "sched_history False sched_new"
| sched_hist_step: "sched_history cleared s \<Longrightarrow> sched_step s s' \<Longrightarrow> sched_history cleared s'"
| sched_hist_clear: "sched_history cleared s \<Longrightarrow> m_activeTask s \<noteq> None \<or> m_delayedTasks s = [] \<Longrightarrow>
    sched_history True (clear_now s)"
| sched_hist_links: "sched_history True s \<Longrightarrow> run_links quick chain s = Some (s', rest) \<Longrightarrow> sched_history True s'"
| sched_hist_ends: "sched_history True s \<Longrightarrow> controller_of s i = Some st \<Longrightarrow> st \<in> {Running, Stopping} \<Longrightarrow>
    sched_history True (set_controller i Stopped s)"

text \<open>What the assertions of schedule rest on: with no active task, none waits.\<close>

definition someone_runs :: "sched \<Rightarrow> bool" where
  "someone_runs s \<longleftrightarrow> (m_activeTask s = None \<longrightarrow> m_waitedTasks s = [])"

lemma someone_runs_new [simp]: "someone_runs sched_new"
  by (simp add: someone_runs_def sched_new_def)

lemma someone_runs_resolve [simp]: "someone_runs (resolve s ps) = someone_runs s"
  by (simp add: someone_runs_def)

lemma someone_runs_active [simp]: "m_activeTask s = Some a \<Longrightarrow> someone_runs s"
  by (simp add: someone_runs_def)

lemma schedule_someone:
  assumes "someone_runs s"
  shows "\<exists>s'. schedule ends s t = Some s' \<and> someone_runs s'"
  using assms
  by (cases "m_activeTask s")
    (auto simp: someone_runs_def schedule_def queueTask_def Let_def split: prod.splits)

lemma resumeNextTask_someone:
  "m_activeTask s = None \<Longrightarrow> \<exists>s'. resumeNextTask ends s = Some s' \<and> someone_runs s'"
proof (induction ends s rule: resumeNextTask.induct)
  case (1 ends s)
  show ?case
  proof (cases "m_waitedTasks s = []")
    case True
    then show ?thesis using "1.prems" by (subst resumeNextTask.simps) (simp add: someone_runs_def)
  next
    case False
    let ?t = "last (m_waitedTasks s)" and ?w = "s\<lparr>m_waitedTasks := butlast (m_waitedTasks s)\<rparr>"
    show ?thesis
    proof (cases "wasPaused ?t")
      case True
      obtain t' ps where r: "task_pause ends ?t = (t', ps)" by (cases "task_pause ends ?t")
      have "resumeNextTask ends s = resumeNextTask ends (resolve (?w\<lparr>m_delayedTasks := m_delayedTasks ?w @ [t']\<rparr>) ps)"
        using "1.prems" False True r by (subst resumeNextTask.simps) (simp add: Let_def)
      then show ?thesis
        using "1.IH"[of ?t ?w "(t', ps)" t' ps] "1.prems" False True r by simp
    next
      case paused: False
      obtain t' ps where "task_resume ?t = (t', ps)" by (cases "task_resume ?t")
      then show ?thesis using "1.prems" False paused
        by (subst resumeNextTask.simps) (simp add: Let_def someone_runs_def)
    qed
  qed
qed

lemma found_waits: "findTaskById (m_waitedTasks s) i = Some tn \<Longrightarrow> m_waitedTasks s \<noteq> []"
  by (auto simp: findTaskById_def)

lemma someone_runs_schedule_delayed:
  assumes "someone_runs s"
  shows "\<exists>s'. schedule ends (s\<lparr>promise_counter := n, m_delayedTasks := ts\<rparr>) t = Some s' \<and> someone_runs s'"
  by (rule schedule_someone) (use assms in \<open>simp add: someone_runs_def\<close>)

lemma operations_someone:
  assumes "someone_runs s"
  shows "\<exists>s' j. push ends s p = Some (s', j) \<and> someone_runs s'"
    and "\<exists>s' f. cancelTask ends s i = Some (s', f) \<and> someone_runs s'"
    and "\<exists>s' f. pause ends s i = Some (s', f) \<and> someone_runs s'"
    and "\<exists>s' f. resume ends s i = Some (s', f) \<and> someone_runs s'"
    and "someone_runs (fst (waitTask s i))" and "someone_runs (fst (makeWaitAllPromise s))"
    and "someone_runs (task_ends s)"
proof -
  note delayed = someone_runs_schedule_delayed[OF assms, where ends = ends and n = "Suc (promise_counter s)"]
  have "someone_runs (s\<lparr>m_idCounter := Suc (m_idCounter s)\<rparr>)" using assms by (simp add: someone_runs_def)
  from schedule_someone[OF this, of ends] show "\<exists>s' j. push ends s p = Some (s', j) \<and> someone_runs s'"
    by (fastforce simp: push_def createTask_def)
  show "\<exists>s' f. cancelTask ends s i = Some (s', f) \<and> someone_runs s'"
    using assms delayed
    by (cases "getActiveTaskId s = Some i"; cases "findTaskById (m_waitedTasks s) i";
        cases "findTaskById (m_delayedTasks s) i")
      (auto simp: cancelTask_def fresh_def Let_def someone_runs_def dest: found_waits split: if_splits)
  show "\<exists>s' f. pause ends s i = Some (s', f) \<and> someone_runs s'"
  proof (cases "getActiveTaskId s = Some i")
    case True
    obtain a ps where r: "task_pause ends (the (m_activeTask s)) = (a, ps)" by (cases "task_pause ends (the (m_activeTask s))")
    obtain s' where "resumeNextTask ends (resolve (s\<lparr>m_delayedTasks := m_delayedTasks s @ [a], m_activeTask := None\<rparr>) ps) = Some s'"
      "someone_runs s'" using resumeNextTask_someone[of "resolve (s\<lparr>m_delayedTasks := m_delayedTasks s @ [a], m_activeTask := None\<rparr>) ps" ends] by auto
    then show ?thesis using True r by (simp add: pause_def)
  next
    case False
    then show ?thesis using assms
      by (cases "findTaskById (m_waitedTasks s) i") (auto simp: pause_def fresh_def Let_def someone_runs_def)
  qed
  show "\<exists>s' f. resume ends s i = Some (s', f) \<and> someone_runs s'"
    using assms delayed
    by (cases "findTaskById (m_waitedTasks s) i"; cases "findTaskById (m_delayedTasks s) i")
      (auto simp: resume_def fresh_def Let_def someone_runs_def dest: found_waits)
  show "someone_runs (fst (waitTask s i))"
    using assms by (auto simp: waitTask_def fresh_def Let_def someone_runs_def split: option.splits)
  show "someone_runs (fst (makeWaitAllPromise s))"
    using assms by (auto simp: makeWaitAllPromise_def fresh_def someone_runs_def)
  show "someone_runs (task_ends s)" using assms by (simp add: task_ends_def someone_runs_def)
qed

lemma taskFinished_someone:
  assumes "someone_runs s" and "may_finish s i"
  shows "\<exists>s'. taskFinished ends s i = Some s' \<and> someone_runs s'"
proof (cases "\<exists>a. m_activeTask s = Some a \<and> task_id a = i")
  case True
  then obtain a where a: "m_activeTask s = Some a" "task_id a = i" by blast
  then have "controller a = Stopped" using assms(2) by (simp add: may_finish_def tasks_def)
  then show ?thesis using a resumeNextTask_someone[of "resolve (s\<lparr>m_activeTask := None\<rparr>) (task_destroy a)" ends]
    by (simp add: taskFinished_def)
next
  case False
  then have fin: "taskFinished ends s i = eraseTask s i" by (auto simp: taskFinished_def split: option.splits)
  show ?thesis
  proof (cases "findTaskById (m_waitedTasks s) i")
    case None
    show ?thesis
    proof (cases "findTaskById (m_delayedTasks s) i")
      case (Some tn)
      obtain t n where tn: "tn = (t, n)" by (cases tn)
      have "controller t = Stopped"
        using findTaskById_Some[OF Some[unfolded tn]] assms(2) by (auto simp: may_finish_def tasks_def)
      then show ?thesis using fin None Some tn assms(1) by (simp add: eraseTask_def someone_runs_def)
    qed (use fin None assms(1) in \<open>simp add: eraseTask_def\<close>)
  next
    case (Some tn)
    obtain t n where tn: "tn = (t, n)" by (cases tn)
    have "controller t = Stopped"
      using findTaskById_Some[OF Some[unfolded tn]] assms(2) by (auto simp: may_finish_def tasks_def)
    then show ?thesis using fin Some tn assms(1) found_waits[OF Some] by (auto simp: eraseTask_def someone_runs_def)
  qed
qed

lemma sched_step_someone:
  assumes "sched_step s s'" and "someone_runs s"
  shows "someone_runs s'"
  using assms(1)
proof cases
  case (step_push ends p i)
  then show ?thesis using operations_someone(1)[OF assms(2), of ends p] by simp
next
  case (step_waitAll f)
  then show ?thesis using operations_someone(6)[OF assms(2)] by simp
next
  case (step_wait i f)
  then show ?thesis using operations_someone(5)[OF assms(2), of i] by simp
next
  case (step_cancel ends i f)
  then show ?thesis using operations_someone(2)[OF assms(2), of ends i] by simp
next
  case (step_pause ends i f)
  then show ?thesis using operations_someone(3)[OF assms(2), of ends i] by simp
next
  case (step_resume ends i f)
  then show ?thesis using operations_someone(4)[OF assms(2), of ends i] by simp
next
  case step_ends
  then show ?thesis using operations_someone(7)[OF assms(2)] by simp
next
  case (step_finished i ends)
  then show ?thesis using taskFinished_someone[OF assms(2), of i ends] by simp
qed

text \<open>The steps of a clear.\<close>

lemma clear_now_someone:
  assumes "someone_runs s" and "m_activeTask s \<noteq> None \<or> m_delayedTasks s = []"
  shows "someone_runs (clear_now s)"
proof (cases "m_activeTask s")
  case None
  then have "m_waitedTasks (clear_now s) = []"
    using assms by (simp add: someone_runs_def clear_now_def)
  then show ?thesis by (simp add: someone_runs_def)
qed (simp add: someone_runs_def clear_now_tasks(3))

lemma set_controller_someone [simp]: "someone_runs (set_controller i st s) = someone_runs s"
  by (simp add: someone_runs_def set_controller_def Let_def)

lemma run_links_someone:
  "run_links quick chain s = Some (s', rest) \<Longrightarrow> someone_runs s \<Longrightarrow> someone_runs s'"
proof (induction quick chain s arbitrary: rest rule: run_links.induct)
  case (1 quick s)
  then show ?case by (auto simp: clear_last_def someone_runs_def)
next
  case (2 quick i chain s)
  then show ?case by (auto split: option.splits if_splits)
qed

lemma sched_history_someone: "sched_history cleared s \<Longrightarrow> someone_runs s"
  by (induction rule: sched_history.induct)
    (auto intro: sched_step_someone clear_now_someone run_links_someone)

lemma sched_history_plain: "sched_history cleared s \<Longrightarrow> \<not> cleared \<Longrightarrow> sched_reachable s"
  by (induction rule: sched_history.induct) (auto intro: sched_reachable.intros)

text \<open>
  C5: as long as no clear has begun, at any moment at most one task is running, the active one; no waiting
  task has a higher priority than the active one, and the waiting ones are in the order of their
  priorities. With no active task nothing waits, and no assertion of push, cancel, deactivate, activate
  or of the continuation of a task's end, which comes after that end, can fail: also while clears stop the tasks, if each of them was called while
  a task was active or none was deactivated. Where it was not, push_during_clear_fails has the assertion that fails.
\<close>

theorem scheduler_turns:
  assumes "sched_history cleared s"
  shows "(\<not> cleared \<longrightarrow>
      (\<forall>t \<in> set (m_waitedTasks s @ m_delayedTasks s).
        controller t = WaitForStart \<or> controller t = Paused \<or> controller t = Stopped) \<and>
      (\<forall>w \<in> set (m_waitedTasks s). \<exists>a. m_activeTask s = Some a \<and> priority w \<le> priority a) \<and>
      sorted (map priority (m_waitedTasks s))) \<and>
    (m_activeTask s = None \<longrightarrow> m_waitedTasks s = []) \<and>
    push ends s p \<noteq> None \<and> cancelTask ends s i \<noteq> None \<and> pause ends s i \<noteq> None \<and>
    resume ends s i \<noteq> None \<and> (may_finish s i \<longrightarrow> taskFinished ends s i \<noteq> None)"
proof -
  note runs = sched_history_someone[OF assms]
  have "\<not> cleared \<longrightarrow> sched_inv s" using sched_history_plain[OF assms] sched_reachable_inv by blast
  moreover have "push ends s p \<noteq> None" using operations_someone(1)[OF runs, of ends p] by auto
  moreover have "cancelTask ends s i \<noteq> None" using operations_someone(2)[OF runs, of ends i] by auto
  moreover have "pause ends s i \<noteq> None" using operations_someone(3)[OF runs, of ends i] by auto
  moreover have "resume ends s i \<noteq> None" using operations_someone(4)[OF runs, of ends i] by auto
  moreover have "may_finish s i \<longrightarrow> taskFinished ends s i \<noteq> None"
    using taskFinished_someone[OF runs, of i ends] by auto
  ultimately show ?thesis
    using runs by (auto simp: sched_inv_def core_ok_def turn_ok_def idle_def someone_runs_def)
qed

lemma sched_reachable_history: "sched_reachable s \<Longrightarrow> sched_history False s"
  by (induction rule: sched_reachable.induct) (auto intro: sched_history.intros)

theorem scheduler_turns_witness:
  "sorted (map priority (m_waitedTasks sch_demo)) \<and> push {} sch_demo 4 \<noteq> None \<and> push {} (clear_now sch_demo) 4 \<noteq> None"
proof -
  note demo = sched_reachable_history[OF sch_demo_reachable]
  have "m_activeTask sch_demo \<noteq> None" by (simp add: sch_demo_def)
  then have "sched_history True (clear_now sch_demo)" using sched_hist_clear[OF demo] by blast
  from scheduler_turns[OF this, of "{}" 4 0] scheduler_turns[OF demo, of "{}" 4 0] show ?thesis by simp
qed

end
