(* ===== verification/AOContextState.thy ===== *)
theory AOContextState
  imports Prelude
begin

text \<open>
  include/nhope/async/detail/ao-context-state.h: the state of an AOContext packed into one
  64-bit atomic: flags in bits 0 to 7, the reference counter in bits 8 to 39, the counter of
  close blockers in bits 40 to 63. Each operation is one atomic read-modify-write: a
  function from the word to the new word and the result. The refinement theorem shows that
  on the three fields they are the operations one would write on a structure.
\<close>

unbundle bit_operations_syntax

section \<open>The packed operations\<close>

definition PreparingForClosing :: u64 where "PreparingForClosing = push_bit 0 1"
definition Closing :: u64 where "Closing = push_bit 1 1"
definition Closed :: u64 where "Closed = push_bit 2 1"
definition LockCloseHandlerList :: u64 where "LockCloseHandlerList = push_bit 3 1"

definition refCounterOffset :: nat where "refCounterOffset = 8"
definition refCounterMask :: u64 where "refCounterMask = push_bit refCounterOffset 0xFFFFFFFF"
definition blockCloseCounterOffset :: nat where "blockCloseCounterOffset = 40"
definition blockCloseCounterMask :: u64 where
  "blockCloseCounterMask = push_bit blockCloseCounterOffset 0xFFFFFF"
definition oneRef :: u64 where "oneRef = push_bit refCounterOffset 1"
definition oneBlockClose :: u64 where "oneBlockClose = push_bit blockCloseCounterOffset 1"

definition state_init :: u64 where "state_init = oneRef"

definition unblockClose :: "u64 \<Rightarrow> u64" where
  "unblockClose w = w - oneBlockClose"

definition unblockCloseAndRemoveRef :: "u64 \<Rightarrow> u64 \<times> bool" where
  "unblockCloseAndRemoveRef w =
     (w - (oneBlockClose OR oneRef), w AND refCounterMask = oneRef)"

text \<open>
  blockClose adds first and looks at the old value then (the _add parts); a refused call takes
  its block back with a second atomic operation, between which others may run.
\<close>

definition blockClose_add :: "u64 \<Rightarrow> u64 \<times> bool" where
  "blockClose_add w = (w + oneBlockClose, w AND PreparingForClosing = 0)"

definition blockClose :: "u64 \<Rightarrow> u64 \<times> bool" where
  "blockClose w = (case blockClose_add w of (w, ok) \<Rightarrow> if ok then (w, True) else (unblockClose w, False))"

definition blockCloseAndAddRef_add :: "u64 \<Rightarrow> u64 \<times> bool" where
  "blockCloseAndAddRef_add w =
     (w + (oneBlockClose OR oneRef), w AND PreparingForClosing = 0)"

definition blockCloseAndAddRef :: "u64 \<Rightarrow> u64 \<times> bool" where
  "blockCloseAndAddRef w = (case blockCloseAndAddRef_add w of
     (w, ok) \<Rightarrow> if ok then (w, True) else (fst (unblockCloseAndRemoveRef w), False))"

definition addRef :: "u64 \<Rightarrow> u64" where
  "addRef w = w + oneRef"

definition removeRef :: "u64 \<Rightarrow> u64 \<times> bool" where
  "removeRef w = (w - oneRef, w AND refCounterMask = oneRef)"

definition startClose :: "u64 \<Rightarrow> u64 \<times> bool" where
  "startClose w = (w OR PreparingForClosing, w AND PreparingForClosing = 0)"

definition isOpen :: "u64 \<Rightarrow> bool" where
  "isOpen w \<longleftrightarrow> w AND PreparingForClosing = 0"

definition isClosed :: "u64 \<Rightarrow> bool" where
  "isClosed w \<longleftrightarrow> w AND Closed \<noteq> 0"

text \<open>None: the assertion fails.\<close>

definition setClosingFlag :: "u64 \<Rightarrow> u64 option" where
  "setClosingFlag w = (if w AND Closing = 0 then Some (w OR Closing) else None)"

definition setClosedFlag :: "u64 \<Rightarrow> u64 option" where
  "setClosedFlag w = (if w AND Closed = 0 then Some (w OR Closed) else None)"

definition getBlockCloseCounter :: "u64 \<Rightarrow> nat" where
  "getBlockCloseCounter w =
     unat (drop_bit blockCloseCounterOffset (w AND blockCloseCounterMask))"

text \<open>One attempt to take the lock of the handler list; the caller spins until it succeeds.\<close>

definition tryLockCloseHandlerList :: "u64 \<Rightarrow> u64 \<times> bool" where
  "tryLockCloseHandlerList w = (w OR LockCloseHandlerList, w AND LockCloseHandlerList = 0)"

definition unlockCloseHandlerList :: "u64 \<Rightarrow> u64 option" where
  "unlockCloseHandlerList w =
     (if w AND LockCloseHandlerList \<noteq> 0 then Some (w AND NOT LockCloseHandlerList) else None)"

section \<open>The fields\<close>

record ao_fields =
  preparing :: bool
  closing :: bool
  closed :: bool
  locked :: bool
  other_flags :: u64
  refs :: nat
  blocks :: nat

definition state_fields :: "u64 \<Rightarrow> ao_fields" where
  "state_fields w = \<lparr>preparing = bit w 0, closing = bit w 1, closed = bit w 2, locked = bit w 3,
     other_flags = take_bit 4 (drop_bit 4 w),
     refs = unat w div 2 ^ 8 mod 2 ^ 32, blocks = unat w div 2 ^ 40\<rparr>"

lemma flag_bits:
  "w AND PreparingForClosing = 0 \<longleftrightarrow> \<not> bit w 0"
  "w AND Closing = 0 \<longleftrightarrow> \<not> bit w 1"
  "w AND Closed = 0 \<longleftrightarrow> \<not> bit w 2"
  "w AND LockCloseHandlerList = 0 \<longleftrightarrow> \<not> bit w 3"
  using and_exp_eq_0_iff_not_bit[of w 0] and_exp_eq_0_iff_not_bit[of w 1]
    and_exp_eq_0_iff_not_bit[of w 2] and_exp_eq_0_iff_not_bit[of w 3]
  by (simp_all add: PreparingForClosing_def Closing_def Closed_def LockCloseHandlerList_def)

lemma ones: "oneRef = 2 ^ 8" "oneBlockClose = 2 ^ 40" "oneBlockClose OR oneRef = 2 ^ 40 + 2 ^ 8"
  by (simp_all add: oneRef_def oneBlockClose_def refCounterOffset_def blockCloseCounterOffset_def)

text \<open>The split of a word into its low byte and the two counters.\<close>

lemma unat_byte: "unat (take_bit 8 (w :: u64)) = unat w mod 2 ^ 8"
  unfolding unsigned_take_bit_eq by (rule take_bit_eq_mod)

lemma nat_split: "n = n mod 2 ^ 8 + n div 2 ^ 8 mod 2 ^ 32 * 2 ^ 8 + n div 2 ^ 40 * 2 ^ 40"
  for n :: nat
proof -
  have "n div 1099511627776 = n div 256 div 4294967296" by (simp add: div_mult2_eq [symmetric])
  moreover have "n div 256 = n div 256 div 4294967296 * 4294967296 + n div 256 mod 4294967296"
    "n = n div 256 * 256 + n mod 256"
    by (rule div_mult_mod_eq [symmetric])+
  ultimately have "n = n mod 256 + n div 256 mod 4294967296 * 256 + n div 1099511627776 * 1099511627776"
    by linarith
  then show ?thesis by simp
qed

lemma unat_fields:
  "unat w = unat (take_bit 8 w) + refs (state_fields w) * 2 ^ 8 + blocks (state_fields w) * 2 ^ 40"
  using nat_split[of "unat w"] by (simp only: unat_byte state_fields_def ao_fields.simps)

lemma nat_split_unique:
  fixes m r b :: nat
  assumes "n = m + r * 2 ^ 8 + b * 2 ^ 40" and "m < 2 ^ 8" and "r < 2 ^ 32"
  shows "n mod 2 ^ 8 = m" and "n div 2 ^ 8 mod 2 ^ 32 = r" and "n div 2 ^ 40 = b"
proof -
  have n: "n = m + 2 ^ 8 * (r + 2 ^ 32 * b)" using assms(1) by simp
  show "n mod 2 ^ 8 = m" unfolding n mod_mult_self2 using assms(2) by (rule mod_less)
  have q: "n div 2 ^ 8 = r + 2 ^ 32 * b" unfolding n using assms(2) by simp
  then show "n div 2 ^ 8 mod 2 ^ 32 = r" using assms(3) by simp
  have "n div 2 ^ 40 = n div 2 ^ 8 div 2 ^ 32" by (simp add: div_mult2_eq [symmetric])
  then show "n div 2 ^ 40 = b" using q assms(3) by simp
qed

lemma bit_byte: "i < 8 \<Longrightarrow> bit (w :: u64) i = bit (take_bit 8 w) i"
  by (simp add: bit_take_bit_iff)

lemma fields_unique:
  assumes "unat w' = unat (take_bit 8 w) + r * 2 ^ 8 + b * 2 ^ 40" and "r < 2 ^ 32"
  shows "state_fields w' = (state_fields w)\<lparr>refs := r, blocks := b\<rparr>"
proof -
  have "unat (take_bit 8 w) < 2 ^ 8" by (simp add: unat_byte)
  note u = nat_split_unique[OF assms(1) this assms(2)]
  have eq: "take_bit 8 w' = take_bit 8 w"
    using u(1) by (metis unat_byte unsigned_word_eqI)
  have "take_bit 4 (drop_bit 4 w') = take_bit 4 (drop_bit 4 (take_bit 8 w'))"
    by (rule bit_word_eqI) (auto simp: bit_simps)
  moreover have "take_bit 4 (drop_bit 4 w) = take_bit 4 (drop_bit 4 (take_bit 8 w))"
    by (rule bit_word_eqI) (auto simp: bit_simps)
  ultimately show ?thesis
    using u(2,3) eq bit_byte[of _ w] bit_byte[of _ w']
    by (simp add: state_fields_def)
qed

section \<open>Refinement\<close>

text \<open>Adding and subtracting multiples of the units changes the counters only.\<close>

lemma fields_add:
  assumes "refs (state_fields w) + r < 2 ^ 32" and "blocks (state_fields w) + b < 2 ^ 24"
  shows "state_fields (w + of_nat (r * 2 ^ 8 + b * 2 ^ 40)) =
    (state_fields w)\<lparr>refs := refs (state_fields w) + r, blocks := blocks (state_fields w) + b\<rparr>"
proof (rule fields_unique)
  have byte: "unat (take_bit 8 w) < 2 ^ 8" by (simp add: unat_byte)
  let ?d = "r * 2 ^ 8 + b * 2 ^ 40"
  have "unat w + ?d =
      unat (take_bit 8 w) + (refs (state_fields w) + r) * 2 ^ 8 + (blocks (state_fields w) + b) * 2 ^ 40"
    using unat_fields[of w] by (simp add: algebra_simps)
  moreover have "\<dots> < 2 ^ 64" using assms byte by simp
  moreover have "?d < 2 ^ 64" using calculation by linarith
  ultimately show "unat (w + of_nat ?d) = unat (take_bit 8 w) +
      (refs (state_fields w) + r) * 2 ^ 8 + (blocks (state_fields w) + b) * 2 ^ 40"
    by (simp add: unat_word_ariths unat_of_nat take_bit_eq_mod del: of_nat_add of_nat_mult)
qed (use assms in simp)

lemma fields_sub:
  assumes "r \<le> refs (state_fields w)" and "b \<le> blocks (state_fields w)"
  shows "state_fields (w - of_nat (r * 2 ^ 8 + b * 2 ^ 40)) =
    (state_fields w)\<lparr>refs := refs (state_fields w) - r, blocks := blocks (state_fields w) - b\<rparr>"
proof (rule fields_unique)
  let ?d = "r * 2 ^ 8 + b * 2 ^ 40"
  obtain r' b' where rb: "refs (state_fields w) = r + r'" "blocks (state_fields w) = b + b'"
    using assms le_Suc_ex by blast
  have w: "unat w = unat (take_bit 8 w) + r' * 2 ^ 8 + b' * 2 ^ 40 + ?d"
    using unat_fields[of w] rb by (simp add: algebra_simps)
  have "unat w < 2 ^ 64" using unsigned_less[of w] by simp
  then have "unat (of_nat ?d :: u64) = ?d"
    using w by (simp add: unat_of_nat take_bit_eq_mod del: of_nat_add of_nat_mult)
  then have "unat (w - of_nat ?d) = unat w - ?d"
    using w by (simp add: unat_sub word_le_nat_alt del: of_nat_add of_nat_mult)
  then show "unat (w - of_nat ?d) = unat (take_bit 8 w) +
      (refs (state_fields w) - r) * 2 ^ 8 + (blocks (state_fields w) - b) * 2 ^ 40"
    using w rb by simp
  have "refs (state_fields w) < 2 ^ 32" by (simp add: state_fields_def)
  then show "refs (state_fields w) - r < 2 ^ 32" by simp
qed

lemma unat_div: "unat w div 2 ^ n = unat (drop_bit n (w :: u64))"
  by (simp add: unat_drop_bit_eq flip: drop_bit_eq_div)

lemma bit_u64: "bit (w :: u64) i \<Longrightarrow> i < 64"
  using bit_imp_le_length[of w i] by simp

text \<open>Setting and clearing one of the four flags.\<close>

lemma fields_or_flag:
  assumes "k < 4"
  shows "state_fields (w OR 2 ^ k) = (state_fields w)
    \<lparr>preparing := bit w 0 \<or> k = 0, closing := bit w 1 \<or> k = 1, closed := bit w 2 \<or> k = 2,
     locked := bit w 3 \<or> k = 3\<rparr>"
proof -
  have d: "drop_bit n (w OR 2 ^ k) = drop_bit n w" if "4 \<le> n" for n
    using that assms by (intro bit_word_eqI) (auto simp: bit_simps simp del: drop_bit_or)
  have b: "bit (w OR 2 ^ k) i \<longleftrightarrow> bit w i \<or> k = i" if "i < 4" for i
    using that by (auto simp: bit_simps)
  show ?thesis
    unfolding state_fields_def unat_div d[of 4, simplified] d[of 8, simplified] d[of 40, simplified]
      b[of 0, simplified] b[of 1, simplified] b[of 2, simplified] b[of 3, simplified]
    by (simp add: b d del: drop_bit_or)
qed

lemma fields_and_not_flag:
  assumes "k < 4"
  shows "state_fields (w AND NOT (2 ^ k)) = (state_fields w)
    \<lparr>preparing := bit w 0 \<and> k \<noteq> 0, closing := bit w 1 \<and> k \<noteq> 1, closed := bit w 2 \<and> k \<noteq> 2,
     locked := bit w 3 \<and> k \<noteq> 3\<rparr>"
proof -
  have d: "drop_bit n (w AND NOT (2 ^ k)) = drop_bit n w" if "4 \<le> n" for n
    using that assms
    by (intro bit_word_eqI) (auto simp: bit_simps dest: bit_u64 simp del: drop_bit_and)
  have b: "bit (w AND NOT (2 ^ k)) i \<longleftrightarrow> bit w i \<and> k \<noteq> i" if "i < 4" for i
    using that by (auto simp: bit_simps)
  show ?thesis
    unfolding state_fields_def unat_div by (simp add: b d del: drop_bit_and)
qed

lemma masks: "(0xFFFFFFFF :: u64) = mask 32" "(0xFFFFFF :: u64) = mask 24"
  by (simp_all add: mask_eq_exp_minus_1)

lemma last_ref: "w AND refCounterMask = oneRef \<longleftrightarrow> refs (state_fields w) = 1"
proof -
  have "w AND refCounterMask = push_bit 8 (take_bit 32 (drop_bit 8 w))"
    by (rule bit_word_eqI)
      (auto simp: refCounterMask_def refCounterOffset_def masks bit_simps bit_mask_iff)
  moreover have "push_bit 8 a = oneRef \<longleftrightarrow> a = 1" if "take_bit 32 a = a" for a :: u64
  proof
    assume "push_bit 8 a = oneRef"
    then have "drop_bit 8 (push_bit 8 a) = drop_bit 8 oneRef" by simp
    moreover have "drop_bit 8 (push_bit 8 (take_bit 32 a)) = take_bit 32 a"
      by (rule bit_word_eqI) (auto simp: bit_simps dest: bit_u64)
    ultimately show "a = 1" using that by (simp add: oneRef_def refCounterOffset_def)
  qed (simp add: oneRef_def refCounterOffset_def)
  moreover have "take_bit 32 (drop_bit 8 w) = 1 \<longleftrightarrow> refs (state_fields w) = 1"
  proof -
    have "unat (take_bit 32 (drop_bit 8 w)) = unat (drop_bit 8 w) mod 2 ^ 32"
      unfolding unsigned_take_bit_eq by (rule take_bit_eq_mod)
    then have "refs (state_fields w) = unat (take_bit 32 (drop_bit 8 w))"
      by (simp only: state_fields_def ao_fields.simps unat_div)
    then show ?thesis by (metis unat_1 unsigned_word_eqI)
  qed
  ultimately show ?thesis by simp
qed

lemma counter_field: "getBlockCloseCounter w = blocks (state_fields w)"
proof -
  have "drop_bit 40 (w AND blockCloseCounterMask) = drop_bit 40 w"
    by (rule bit_word_eqI)
      (auto simp: blockCloseCounterMask_def blockCloseCounterOffset_def masks bit_simps bit_mask_iff
        dest: bit_u64 simp del: drop_bit_and)
  then show ?thesis
    by (simp only: getBlockCloseCounter_def state_fields_def ao_fields.simps unat_div
        blockCloseCounterOffset_def)
qed

text \<open>The operations on the fields, as long as the counters stay within their widths.\<close>

lemma add_fields:
  assumes "refs (state_fields w) < 2 ^ 32 - 1" and "blocks (state_fields w) < 2 ^ 24 - 1"
  shows "state_fields (w + oneBlockClose) = (state_fields w)\<lparr>blocks := blocks (state_fields w) + 1\<rparr>"
    "state_fields (w + oneRef) = (state_fields w)\<lparr>refs := refs (state_fields w) + 1\<rparr>"
    "state_fields (w + (oneBlockClose OR oneRef)) =
      (state_fields w)\<lparr>refs := refs (state_fields w) + 1, blocks := blocks (state_fields w) + 1\<rparr>"
  using assms fields_add[of w 0 1] fields_add[of w 1 0] fields_add[of w 1 1]
  unfolding ones by (simp_all add: add.commute)

lemma sub_fields:
  shows "0 < blocks (state_fields w) \<Longrightarrow> state_fields (w - oneBlockClose) = (state_fields w)\<lparr>blocks := blocks (state_fields w) - 1\<rparr>"
    "0 < refs (state_fields w) \<Longrightarrow> state_fields (w - oneRef) = (state_fields w)\<lparr>refs := refs (state_fields w) - 1\<rparr>"
    "0 < refs (state_fields w) \<Longrightarrow> 0 < blocks (state_fields w) \<Longrightarrow> state_fields (w - (oneBlockClose OR oneRef)) =
       (state_fields w)\<lparr>refs := refs (state_fields w) - 1, blocks := blocks (state_fields w) - 1\<rparr>"
  using fields_sub[of 0 w 1] fields_sub[of 1 w 0] fields_sub[of 1 w 1]
  unfolding ones by (simp_all add: add.commute Suc_le_eq)

lemma block_fields:
  assumes "refs (state_fields w) < 2 ^ 32 - 1" and "blocks (state_fields w) < 2 ^ 24 - 1"
  shows "snd (blockClose w) = (\<not> preparing (state_fields w))"
    "state_fields (fst (blockClose w)) =
      (if preparing (state_fields w) then state_fields w else (state_fields w)\<lparr>blocks := blocks (state_fields w) + 1\<rparr>)"
    "snd (blockCloseAndAddRef w) = (\<not> preparing (state_fields w))"
    "state_fields (fst (blockCloseAndAddRef w)) = (if preparing (state_fields w) then state_fields w
      else (state_fields w)\<lparr>refs := refs (state_fields w) + 1, blocks := blocks (state_fields w) + 1\<rparr>)"
proof -
  have "preparing (state_fields w) = bit w 0" by (simp add: state_fields_def)
  then show "snd (blockClose w) = (\<not> preparing (state_fields w))"
    "state_fields (fst (blockClose w)) =
      (if preparing (state_fields w) then state_fields w else (state_fields w)\<lparr>blocks := blocks (state_fields w) + 1\<rparr>)"
    "snd (blockCloseAndAddRef w) = (\<not> preparing (state_fields w))"
    "state_fields (fst (blockCloseAndAddRef w)) = (if preparing (state_fields w) then state_fields w
      else (state_fields w)\<lparr>refs := refs (state_fields w) + 1, blocks := blocks (state_fields w) + 1\<rparr>)"
    using add_fields[OF assms]
    by (auto simp: blockClose_def blockClose_add_def blockCloseAndAddRef_def blockCloseAndAddRef_add_def
        unblockClose_def unblockCloseAndRemoveRef_def flag_bits)
qed

lemma last_ref_fields:
  "snd (removeRef w) = (refs (state_fields w) = 1)" "snd (unblockCloseAndRemoveRef w) = (refs (state_fields w) = 1)"
  by (simp_all add: removeRef_def unblockCloseAndRemoveRef_def last_ref)

text \<open>
  C24: the packed word behaves as a structure of four flags and two counters. As long as the
  counters stay within their widths (32 and 24 bits), no operation disturbs another field,
  the returned values are the conditions the fields state, the last reference is recognised
  exactly, and the assertions fail exactly when the flag is set already (or, for the lock,
  is not set).
\<close>

theorem ao_state_refines:
  fixes w :: u64
  defines "f \<equiv> state_fields w"
  assumes "refs f < 2 ^ 32 - 1" and "blocks f < 2 ^ 24 - 1"
  shows "state_fields (fst (blockClose_add w)) = f\<lparr>blocks := blocks f + 1\<rparr> \<and>
     snd (blockClose_add w) = (\<not> preparing f) \<and>
     state_fields (fst (blockClose w)) = (if preparing f then f else f\<lparr>blocks := blocks f + 1\<rparr>) \<and>
     snd (blockClose w) = (\<not> preparing f) \<and>
     state_fields (fst (blockCloseAndAddRef w)) =
       (if preparing f then f else f\<lparr>refs := refs f + 1, blocks := blocks f + 1\<rparr>) \<and>
     snd (blockCloseAndAddRef w) = (\<not> preparing f) \<and>
     state_fields (addRef w) = f\<lparr>refs := refs f + 1\<rparr> \<and>
     (0 < refs f \<longrightarrow> state_fields (fst (removeRef w)) = f\<lparr>refs := refs f - 1\<rparr>) \<and>
     snd (removeRef w) = (refs f = 1) \<and>
     (0 < blocks f \<longrightarrow> state_fields (unblockClose w) = f\<lparr>blocks := blocks f - 1\<rparr>) \<and>
     (0 < refs f \<and> 0 < blocks f \<longrightarrow> state_fields (fst (unblockCloseAndRemoveRef w)) =
        f\<lparr>refs := refs f - 1, blocks := blocks f - 1\<rparr>) \<and>
     snd (unblockCloseAndRemoveRef w) = (refs f = 1) \<and>
     state_fields (fst (startClose w)) = f\<lparr>preparing := True\<rparr> \<and> snd (startClose w) = (\<not> preparing f) \<and>
     isOpen w = (\<not> preparing f) \<and> isClosed w = closed f \<and> getBlockCloseCounter w = blocks f \<and>
     map_option state_fields (setClosingFlag w) = (if closing f then None else Some (f\<lparr>closing := True\<rparr>)) \<and>
     map_option state_fields (setClosedFlag w) = (if closed f then None else Some (f\<lparr>closed := True\<rparr>)) \<and>
     state_fields (fst (tryLockCloseHandlerList w)) = f\<lparr>locked := True\<rparr> \<and>
     snd (tryLockCloseHandlerList w) = (\<not> locked f) \<and>
     map_option state_fields (unlockCloseHandlerList w) =
       (if locked f then Some (f\<lparr>locked := False\<rparr>) else None)"
proof -
  note bl = block_fields[OF assms(2,3)[unfolded f_def]] and a = add_fields[OF assms(2,3)[unfolded f_def]]
  note s = sub_fields[of w]
  have flags: "PreparingForClosing = 2 ^ 0" "Closing = 2 ^ 1" "Closed = 2 ^ 2"
      "LockCloseHandlerList = 2 ^ 3"
    by (simp_all add: PreparingForClosing_def Closing_def Closed_def LockCloseHandlerList_def)
  have b: "preparing f = bit w 0" "closing f = bit w 1" "closed f = bit w 2" "locked f = bit w 3"
    by (simp_all add: f_def state_fields_def)
  have o: "state_fields (w OR PreparingForClosing) = f\<lparr>preparing := True\<rparr>"
    "state_fields (w OR Closing) = f\<lparr>closing := True\<rparr>"
    "state_fields (w OR Closed) = f\<lparr>closed := True\<rparr>"
    "state_fields (w OR LockCloseHandlerList) = f\<lparr>locked := True\<rparr>"
    "state_fields (w AND NOT LockCloseHandlerList) = f\<lparr>locked := False\<rparr>"
    unfolding flags using fields_or_flag[of 0 w] fields_or_flag[of 1 w] fields_or_flag[of 2 w]
      fields_or_flag[of 3 w] fields_and_not_flag[of 3 w] b
    by (simp_all add: f_def)
  show ?thesis
    unfolding bl blockClose_add_def addRef_def removeRef_def unblockClose_def
      unblockCloseAndRemoveRef_def startClose_def isOpen_def isClosed_def setClosingFlag_def
      setClosedFlag_def tryLockCloseHandlerList_def unlockCloseHandlerList_def
      last_ref counter_field flag_bits fst_conv snd_conv
    by (simp add: a s o b f_def[symmetric])
qed

theorem ao_state_refines_witness:
  "refs (state_fields (fst (blockCloseAndAddRef state_init))) = 2 \<and>
   blocks (state_fields (fst (blockCloseAndAddRef state_init))) = 1 \<and>
   snd (removeRef state_init)"
proof -
  have i: "refs (state_fields state_init) = 1" "blocks (state_fields state_init) = 0"
    by (simp_all add: state_fields_def state_init_def ones)
  have h: "refs (state_fields state_init) < 2 ^ 32 - 1" "blocks (state_fields state_init) < 2 ^ 24 - 1"
    using i by simp_all
  have "\<not> preparing (state_fields state_init)"
    by (simp add: state_fields_def state_init_def oneRef_def refCounterOffset_def bit_simps)
  with ao_state_refines[OF h] i show ?thesis by simp
qed
end
