(* ===== verification/CloseHandlers.thy ===== *)
theory CloseHandlers
  imports Prelude
begin

text \<open>
  The list of close handlers of an AOContext (addCloseHandlerNonBlockClose,
  removeCloseHandler and callCloseHandlers of
  include/nhope/async/detail/ao-context-impl.h, the nodes of
  include/nhope/async/ao-context-close-handler.h): an intrusive doubly linked list. The
  nodes live in a store from addresses to nodes; the operations run under the lock of the
  list. They refine the operations on the list of addresses.
\<close>

section \<open>The linked list\<close>

type_synonym addr = nat

record node =
  m_prev :: "addr option"
  m_next :: "addr option"
  m_destroyed :: bool   \<comment> \<open>whether the pointer to the closing thread's flag is set\<close>
  m_done :: bool

record hlist =
  m_closeHandlerList :: "addr option"
  node_at :: "addr \<Rightarrow> node"

definition node_new :: node where
  "node_new = \<lparr>m_prev = None, m_next = None, m_destroyed = False, m_done = False\<rparr>"

definition set_next :: "addr \<Rightarrow> addr option \<Rightarrow> (addr \<Rightarrow> node) \<Rightarrow> addr \<Rightarrow> node" where
  "set_next a n f = f(a := (f a)\<lparr>m_next := n\<rparr>)"

definition set_prev :: "addr \<Rightarrow> addr option \<Rightarrow> (addr \<Rightarrow> node) \<Rightarrow> addr \<Rightarrow> node" where
  "set_prev a n f = f(a := (f a)\<lparr>m_prev := n\<rparr>)"

text \<open>None: an assertion fails.\<close>

definition addCloseHandlerNonBlockClose :: "hlist \<Rightarrow> addr \<Rightarrow> hlist option" where
  "addCloseHandlerNonBlockClose l h =
     (if m_next (node_at l h) \<noteq> None \<or> m_prev (node_at l h) \<noteq> None then None
      else case m_closeHandlerList l of
        None \<Rightarrow> Some \<lparr>m_closeHandlerList = Some h, node_at = set_next h None (node_at l)\<rparr>
      | Some f \<Rightarrow>
          if m_prev (node_at l f) \<noteq> None then None
          else Some \<lparr>m_closeHandlerList = Some h,
                     node_at = set_next h (Some f) (set_prev f (Some h) (node_at l))\<rparr>)"

text \<open>
  removeCloseHandler. Either the node was in the list; or the calling thread is the one that
  closes, and the handler is being destroyed by its own callback; or another thread is
  calling it and the caller has to wait for m_done.
\<close>

datatype remove_result = Removed hlist | DestroyedInCallback bool | WaitDone

definition removeCloseHandler :: "hlist \<Rightarrow> addr \<Rightarrow> bool \<Rightarrow> remove_result" where
  "removeCloseHandler l h closing_here =
     (if m_closeHandlerList l = Some h then
        (let nx = m_next (node_at l h);
             f = (case nx of None \<Rightarrow> node_at l | Some n \<Rightarrow> set_prev n None (node_at l))
         in Removed \<lparr>m_closeHandlerList = nx, node_at = set_next h None f\<rparr>)
      else case m_prev (node_at l h) of
        Some p \<Rightarrow>
          (let nx = m_next (node_at l h);
               f = set_next p nx (node_at l);
               f = (case nx of None \<Rightarrow> f | Some n \<Rightarrow> set_prev n (Some p) f)
           in Removed (l\<lparr>node_at := set_prev h None (set_next h None f)\<rparr>))
      | None \<Rightarrow>
          if closing_here then DestroyedInCallback (m_destroyed (node_at l h)) else WaitDone)"

text \<open>The step of callCloseHandlers that takes the first handler out of the list.\<close>

definition takeCloseHandler :: "hlist \<Rightarrow> (addr \<times> hlist) option" where
  "takeCloseHandler l =
     (case m_closeHandlerList l of
        None \<Rightarrow> None
      | Some h \<Rightarrow>
          (let nx = m_next (node_at l h);
               f = (case nx of None \<Rightarrow> node_at l | Some n \<Rightarrow> set_prev n None (node_at l));
               f = set_next h None f
           in Some (h, \<lparr>m_closeHandlerList = nx, node_at = f(h := (f h)\<lparr>m_destroyed := True\<rparr>)\<rparr>)))"

section \<open>The representation\<close>

text \<open>The element after a in a list; the one before it is the one after it in the reverse.\<close>

fun next_of :: "'a list \<Rightarrow> 'a \<Rightarrow> 'a option" where
  "next_of [] a = None"
| "next_of (x # xs) a = (if a = x then (case xs of [] \<Rightarrow> None | y # _ \<Rightarrow> Some y) else next_of xs a)"

lemma next_of_notin: "a \<notin> set xs \<Longrightarrow> next_of xs a = None"
  by (induction xs) auto

lemma next_of_snoc:
  assumes "distinct (us @ [h])"
  shows "next_of (us @ [h]) a = (if us \<noteq> [] \<and> a = last us then Some h else next_of us a)"
  using assms
proof (induction us)
  case (Cons u us)
  then show ?case by (cases us) auto
qed simp

lemma next_of_at:
  assumes "distinct (ys @ h # zs)"
  shows "next_of (ys @ h # zs) h = (if zs = [] then None else Some (hd zs))"
  using assms
proof (induction ys)
  case Nil
  then show ?case by (cases zs) auto
qed auto

text \<open>Taking h out links its neighbours to each other.\<close>

lemma next_of_without:
  assumes "distinct (ys @ h # zs)"
  shows "next_of (ys @ zs) a = (if a = h then None
    else if ys \<noteq> [] \<and> a = last ys then next_of (ys @ h # zs) h else next_of (ys @ h # zs) a)"
  using assms
proof (induction ys)
  case Nil
  then show ?case by (simp add: next_of_notin)
next
  case (Cons y ys)
  show ?case
  proof (cases ys)
    case Nil
    then show ?thesis using Cons.prems by (auto simp: next_of_notin)
  next
    case (Cons x us)
    have y: "h \<noteq> y" "last ys \<noteq> y" "distinct (ys @ h # zs)" using Cons.prems Cons by auto
    have ne: "ys \<noteq> []" using Cons by simp
    show ?thesis
    proof (cases "a = y")
      case True
      then show ?thesis using y Cons by simp
    next
      case False
      then show ?thesis using Cons.IH[OF y(3)] y ne by simp
    qed
  qed
qed

text \<open>The nodes of xs are linked in that order; every other node is free of links.\<close>

definition linked :: "hlist \<Rightarrow> addr list \<Rightarrow> bool" where
  "linked l xs \<longleftrightarrow> distinct xs \<and>
     m_closeHandlerList l = (case xs of [] \<Rightarrow> None | x # _ \<Rightarrow> Some x) \<and>
     (\<forall>a. m_next (node_at l a) = next_of xs a \<and> m_prev (node_at l a) = next_of (rev xs) a)"

lemma node_upd_simps [simp]:
  "m_next (set_next a n f b) = (if a = b then n else m_next (f b))"
  "m_prev (set_next a n f b) = m_prev (f b)"
  "m_prev (set_prev a n f b) = (if a = b then n else m_prev (f b))"
  "m_next (set_prev a n f b) = m_next (f b)"
  by (simp_all add: set_next_def set_prev_def)

lemma add_linked:
  assumes "linked l xs" and "h \<notin> set xs"
  shows "\<exists>l'. addCloseHandlerNonBlockClose l h = Some l' \<and> linked l' (h # xs)"
proof -
  have free: "next_of xs h = None" "next_of (rev xs) h = None" using assms(2) by (simp_all add: next_of_notin)
  have "distinct (rev xs @ [h])" using assms by (simp add: linked_def)
  note bk = next_of_snoc[OF this]
  have first: "next_of (rev ys @ [x]) x = None" if "xs = x # ys" for x ys
    using next_of_at[of "rev ys" x "[]"] assms(1) that by (simp add: linked_def)
  show ?thesis using assms bk free first
    by (cases xs) (auto simp: linked_def addCloseHandlerNonBlockClose_def)
qed

text \<open>
  A store in which the neighbours of h have been linked to each other represents the list
  without h.
\<close>

lemma linked_without:
  assumes l: "linked l (ys @ h # zs)"
    and hd: "m_closeHandlerList l' = (case ys @ zs of [] \<Rightarrow> None | x # _ \<Rightarrow> Some x)"
    and nx: "\<And>a. m_next (node_at l' a) = (if a = h then None
              else if ys \<noteq> [] \<and> a = last ys then m_next (node_at l h) else m_next (node_at l a))"
    and pv: "\<And>a. m_prev (node_at l' a) = (if a = h then None
              else if zs \<noteq> [] \<and> a = hd zs then m_prev (node_at l h) else m_prev (node_at l a))"
  shows "linked l' (ys @ zs)"
proof -
  have d: "distinct (ys @ h # zs)" "distinct (rev zs @ h # rev ys)" using l by (auto simp: linked_def)
  show ?thesis using l hd nx pv next_of_without[OF d(1)] next_of_without[OF d(2)]
    by (simp add: linked_def last_rev)
qed

lemma linked_ends:
  assumes "linked l (ys @ h # zs)"
  shows "m_next (node_at l h) = (if zs = [] then None else Some (hd zs))"
    and "m_prev (node_at l h) = (if ys = [] then None else Some (last ys))"
    and "m_closeHandlerList l = Some (if ys = [] then h else hd ys)"
    and "h \<notin> set ys" and "h \<notin> set zs" and "set ys \<inter> set zs = {}"
proof -
  have d: "distinct (ys @ h # zs)" "distinct (rev zs @ h # rev ys)" using assms by (auto simp: linked_def)
  show "m_next (node_at l h) = (if zs = [] then None else Some (hd zs))"
    "m_prev (node_at l h) = (if ys = [] then None else Some (last ys))"
    using assms next_of_at[OF d(1)] next_of_at[OF d(2)] by (auto simp: linked_def hd_rev)
  show "m_closeHandlerList l = Some (if ys = [] then h else hd ys)"
    using assms by (cases ys) (auto simp: linked_def)
qed (use assms in \<open>auto simp: linked_def\<close>)

lemma last_notin: "distinct (ys @ h # zs) \<Longrightarrow> ys \<noteq> [] \<Longrightarrow> last ys \<noteq> h \<and> last ys \<notin> set zs"
proof -
  assume d: "distinct (ys @ h # zs)" and "ys \<noteq> []"
  then have "last ys \<in> set ys" by simp
  moreover have "set ys \<inter> set (h # zs) = {}" using d by (simp only: distinct_append)
  ultimately show ?thesis by auto
qed

lemma remove_linked:
  assumes "linked l (ys @ h # zs)"
  shows "\<exists>l'. removeCloseHandler l h c = Removed l' \<and> linked l' (ys @ zs)"
proof -
  note e = linked_ends[OF assms]
  have dist: "distinct (ys @ h # zs)" using assms by (simp add: linked_def)
  have hz: "zs \<noteq> [] \<Longrightarrow> hd zs \<noteq> h" using e(5) hd_in_set[of zs] by metis
  show ?thesis
  proof (cases "ys = []")
    case True
    let ?f = "case m_next (node_at l h) of None \<Rightarrow> node_at l | Some n \<Rightarrow> set_prev n None (node_at l)"
    let ?l = "\<lparr>m_closeHandlerList = m_next (node_at l h), node_at = set_next h None ?f\<rparr>"
    have "removeCloseHandler l h c = Removed ?l"
      using e(3) True by (simp add: removeCloseHandler_def Let_def)
    moreover have "linked ?l (ys @ zs)"
      by (rule linked_without[OF assms])
        (use e hz True in \<open>auto split: list.splits\<close>)
    ultimately show ?thesis by blast
  next
    case False
    let ?p = "last ys" and ?nx = "m_next (node_at l h)"
    let ?f = "set_next ?p ?nx (node_at l)"
    let ?g = "case ?nx of None \<Rightarrow> ?f | Some n \<Rightarrow> set_prev n (Some ?p) ?f"
    let ?l = "l\<lparr>node_at := set_prev h None (set_next h None ?g)\<rparr>"
    have "m_closeHandlerList l \<noteq> Some h" using e(3,4) False by auto
    then have "removeCloseHandler l h c = Removed ?l"
      using e(2) False by (simp add: removeCloseHandler_def Let_def)
    moreover have "linked ?l (ys @ zs)"
      by (rule linked_without[OF assms])
        (use e hz False last_notin[OF dist] in \<open>auto simp: neq_Nil_conv\<close>)
    ultimately show ?thesis by blast
  qed
qed

lemma remove_not_linked:
  assumes "linked l xs" and "h \<notin> set xs"
  shows "removeCloseHandler l h c =
    (if c then DestroyedInCallback (m_destroyed (node_at l h)) else WaitDone)"
  using assms by (auto simp: linked_def removeCloseHandler_def next_of_notin split: list.splits)

lemma take_linked:
  assumes "linked l (h # zs)"
  shows "\<exists>l'. takeCloseHandler l = Some (h, l') \<and> linked l' zs \<and> m_destroyed (node_at l' h)"
proof -
  have l: "linked l ([] @ h # zs)" using assms by simp
  note e = linked_ends[OF l]
  have hz: "zs \<noteq> [] \<Longrightarrow> hd zs \<noteq> h" using e(5) hd_in_set[of zs] by metis
  let ?f = "case m_next (node_at l h) of None \<Rightarrow> node_at l | Some n \<Rightarrow> set_prev n None (node_at l)"
  let ?g = "set_next h None ?f"
  let ?l = "\<lparr>m_closeHandlerList = m_next (node_at l h), node_at = ?g(h := (?g h)\<lparr>m_destroyed := True\<rparr>)\<rparr>"
  have "takeCloseHandler l = Some (h, ?l)"
    using e(3) by (simp add: takeCloseHandler_def Let_def)
  moreover have "linked ?l ([] @ zs)"
    by (rule linked_without[OF l])
      (use e hz in \<open>auto split: list.splits\<close>)
  ultimately show ?thesis by simp
qed

lemma take_empty: "linked l [] \<Longrightarrow> takeCloseHandler l = None"
  by (simp add: linked_def takeCloseHandler_def)

section \<open>Calling the handlers\<close>

text \<open>
  callCloseHandlers. What a handler's callback does to the list is to remove handlers, whose
  owners it destroys: removes h lists them. A handler that lives on after its own callback is marked
  as done, for the thread that waits to remove it; one whose callback has destroyed it is not
  touched again. The result is the handlers called, in order. The fuel bounds the number of handlers; None: it did not suffice, or a
  callback removed a handler that was not in the list any more.
\<close>

fun remove_all :: "hlist \<Rightarrow> addr list \<Rightarrow> hlist" where
  "remove_all l [] = l"
| "remove_all l (h # hs) =
     remove_all (case removeCloseHandler l h True of Removed l' \<Rightarrow> l' | _ \<Rightarrow> l) hs"

definition callback_done :: "addr \<Rightarrow> bool \<Rightarrow> hlist \<Rightarrow> hlist" where
  "callback_done h destroyed l =
     (if destroyed then l
      else l\<lparr>node_at := (node_at l)(h := (node_at l h)\<lparr>m_destroyed := False, m_done := True\<rparr>)\<rparr>)"

fun callCloseHandlers :: "nat \<Rightarrow> (addr \<Rightarrow> addr list) \<Rightarrow> hlist \<Rightarrow> (hlist \<times> addr list) option" where
  "callCloseHandlers 0 removes l = None"
| "callCloseHandlers (Suc n) removes l =
     (case takeCloseHandler l of
        None \<Rightarrow> Some (l, [])
      | Some (h, l) \<Rightarrow>
          map_option (\<lambda>(l, hs). (l, h # hs))
            (callCloseHandlers n removes (callback_done h (h \<in> set (removes h)) (remove_all l (removes h)))))"

text \<open>The same on the list of addresses.\<close>

function called :: "(addr \<Rightarrow> addr list) \<Rightarrow> addr list \<Rightarrow> addr list" where
  "called removes [] = []"
| "called removes (h # hs) = h # called removes (filter (\<lambda>x. x \<notin> set (removes h)) hs)"
  by pat_completeness auto
termination
  by (relation "measure (length \<circ> snd)") (auto simp: le_imp_less_Suc length_filter_le)

lemma remove_all_linked:
  "linked l xs \<Longrightarrow> linked (remove_all l hs) (filter (\<lambda>x. x \<notin> set hs) xs)"
proof (induction hs arbitrary: l xs)
  case (Cons h hs)
  show ?case
  proof (cases "h \<in> set xs")
    case True
    then obtain ys zs where xs: "xs = ys @ h # zs" by (meson split_list)
    from remove_linked[OF Cons.prems[unfolded xs]] obtain l' where
      l': "removeCloseHandler l h True = Removed l'" "linked l' (ys @ zs)" by blast
    have "filter (\<lambda>x. x \<notin> set (h # hs)) us = filter (\<lambda>x. x \<notin> set hs) us" if "h \<notin> set us" for us
      using that by (intro filter_cong) auto
    then have "filter (\<lambda>x. x \<notin> set (h # hs)) xs = filter (\<lambda>x. x \<notin> set hs) (ys @ zs)"
      using linked_ends(4,5)[OF Cons.prems[unfolded xs]] unfolding xs by simp
    then show ?thesis using Cons.IH[OF l'(2)] l'(1) by simp
  next
    case False
    then have "filter (\<lambda>x. x \<notin> set (h # hs)) xs = filter (\<lambda>x. x \<notin> set hs) xs"
      by (auto intro!: filter_cong)
    then show ?thesis
      using Cons.IH[OF Cons.prems] remove_not_linked[OF Cons.prems False, of True] by simp
  qed
qed simp

lemma callback_done_linked: "linked l xs \<Longrightarrow> linked (callback_done h destroyed l) xs"
  by (auto simp: linked_def callback_done_def)

lemma callCloseHandlers_called:
  assumes "linked l xs" and "length xs < n"
  shows "\<exists>l'. callCloseHandlers n removes l = Some (l', called removes xs) \<and> linked l' []"
  using assms
proof (induction removes xs arbitrary: l n rule: called.induct)
  case (1 removes)
  then obtain m where "n = Suc m" by (cases n) auto
  then show ?case using 1 take_empty[OF 1(1)] by simp
next
  case (2 removes h hs)
  then obtain m where m: "n = Suc m" "length hs < m" by (cases n) auto
  from take_linked[OF 2(2)] obtain l' where l': "takeCloseHandler l = Some (h, l')" "linked l' hs"
    by blast
  have "length (filter (\<lambda>x. x \<notin> set (removes h)) hs) < m"
    using m(2) length_filter_le[of "\<lambda>x. x \<notin> set (removes h)" hs] by linarith
  from "2.IH"[OF callback_done_linked[OF remove_all_linked[OF l'(2)]] this] m l' show ?case by auto
qed

lemma called_subset: "set (called removes xs) \<subseteq> set xs"
  by (induction removes xs rule: called.induct) auto

lemma called_distinct: "distinct xs \<Longrightarrow> distinct (called removes xs)"
proof (induction removes xs rule: called.induct)
  case (2 removes h hs)
  then show ?case using called_subset[of removes "filter (\<lambda>x. x \<notin> set (removes h)) hs"] by auto
qed simp

lemma not_called_removed:
  "x \<in> set xs \<Longrightarrow> x \<notin> set (called removes xs) \<Longrightarrow> \<exists>h \<in> set (called removes xs). x \<in> set (removes h)"
  by (induction removes xs rule: called.induct) auto

text \<open>
  startCancellableTask: it registers the handler and starts the task while it blocks the close; when
  the start throws, the handler is taken out again. The context is open or not.
\<close>

datatype start_result = StartRefused | StartThrew hlist | Started hlist

definition startCancellableTaskNonBlockClose :: "bool \<Rightarrow> hlist \<Rightarrow> addr \<Rightarrow> start_result option" where
  "startCancellableTaskNonBlockClose start_throws l h =
     (case addCloseHandlerNonBlockClose l h of
        None \<Rightarrow> None
      | Some l \<Rightarrow>
          if start_throws then
            (case removeCloseHandler l h False of Removed l \<Rightarrow> Some (StartThrew l) | _ \<Rightarrow> None)
          else Some (Started l))"

definition startCancellableTask :: "bool \<Rightarrow> bool \<Rightarrow> hlist \<Rightarrow> addr \<Rightarrow> start_result option" where
  "startCancellableTask isOpen start_throws l h =
     (if \<not> isOpen then Some StartRefused else startCancellableTaskNonBlockClose start_throws l h)"

lemma startCancellableTask_linked:
  assumes "linked l xs" and "h \<notin> set xs"
  shows "\<exists>l'. startCancellableTask True start_throws l h = Some (if start_throws then StartThrew l' else Started l') \<and>
    linked l' (if start_throws then xs else h # xs)"
proof -
  obtain l1 where l1: "addCloseHandlerNonBlockClose l h = Some l1" "linked l1 (h # xs)"
    using add_linked[OF assms(1), of h] assms(2) by auto
  from remove_linked[of l1 "[]" h xs False] l1 obtain l2 where "removeCloseHandler l1 h False = Removed l2" "linked l2 xs"
    by auto
  then show ?thesis using l1
    by (cases start_throws) (auto simp: startCancellableTask_def startCancellableTaskNonBlockClose_def)
qed

text \<open>
  the pointer operations on the list of close handlers are those on a list: a new
  handler becomes the head, a handler that is in the list is taken out wherever it stands,
  and one that is not is recognised as such.
\<close>

theorem close_handler_list:
  assumes "linked l xs"
  shows "(case removeCloseHandler l h c of
      Removed l' \<Rightarrow> h \<in> set xs \<and> linked l' (remove1 h xs)
    | DestroyedInCallback d \<Rightarrow> h \<notin> set xs \<and> c
    | WaitDone \<Rightarrow> h \<notin> set xs \<and> \<not> c) \<and>
    (h \<in> set xs \<or> map_option (\<lambda>l'. linked l' (h # xs)) (addCloseHandlerNonBlockClose l h) = Some True)"
proof
  show "case removeCloseHandler l h c of
      Removed l' \<Rightarrow> h \<in> set xs \<and> linked l' (remove1 h xs)
    | DestroyedInCallback d \<Rightarrow> h \<notin> set xs \<and> c
    | WaitDone \<Rightarrow> h \<notin> set xs \<and> \<not> c"
  proof (cases "h \<in> set xs")
    case True
    then obtain ys zs where xs: "xs = ys @ h # zs" "h \<notin> set ys" by (meson split_list_first)
    from remove_linked[OF assms[unfolded xs(1)], of c] show ?thesis
      by (auto simp: xs remove1_append)
  next
    case False
    then show ?thesis by (simp add: remove_not_linked[OF assms])
  qed
  show "h \<in> set xs \<or> map_option (\<lambda>l'. linked l' (h # xs)) (addCloseHandlerNonBlockClose l h) = Some True"
    using add_linked[OF assms, of h] by auto
qed

definition hlist_empty :: hlist where
  "hlist_empty = \<lparr>m_closeHandlerList = None, node_at = (\<lambda>_. node_new)\<rparr>"

lemma hlist_empty_linked: "linked hlist_empty []"
  by (simp add: linked_def hlist_empty_def node_new_def)

theorem close_handler_list_witness:
  "map_option (\<lambda>l. linked l [5]) (addCloseHandlerNonBlockClose hlist_empty 5) = Some True"
  using close_handler_list[OF hlist_empty_linked, of 5] by simp

text \<open>
  C25: callCloseHandlers always ends with an empty list, and calls the handlers in the
  reverse order of their registration: no handler twice, and a registered handler is left
  out only if a handler called before removed it.
\<close>

theorem close_handlers_called:
  assumes "linked l xs" and "length xs < n"
  shows "\<exists>l' hs. callCloseHandlers n removes l = Some (l', hs) \<and> linked l' [] \<and>
    distinct hs \<and> set hs \<subseteq> set xs \<and>
    (\<forall>x \<in> set xs - set hs. \<exists>h \<in> set hs. x \<in> set (removes h)) \<and>
    ((\<forall>x \<in> set xs. removes x = []) \<longrightarrow> hs = xs)"
proof -
  have "distinct xs" using assms(1) by (simp add: linked_def)
  moreover have "(\<forall>x \<in> set xs. removes x = []) \<longrightarrow> called removes xs = xs"
    by (induction removes xs rule: called.induct) auto
  moreover have "\<forall>x \<in> set xs - set (called removes xs). \<exists>h \<in> set (called removes xs). x \<in> set (removes h)"
    using not_called_removed by fastforce
  ultimately show ?thesis
    using callCloseHandlers_called[OF assms, of removes] called_subset[of removes xs]
      called_distinct[of xs removes] by auto
qed

theorem close_handlers_called_witness:
  "\<exists>l l'. addCloseHandlerNonBlockClose hlist_empty 5 = Some l \<and>
     callCloseHandlers 2 (\<lambda>_. []) l = Some (l', [5])"
proof -
  from add_linked[OF hlist_empty_linked, of 5] obtain l where
    l: "addCloseHandlerNonBlockClose hlist_empty 5 = Some l" "linked l [5]" by auto
  from close_handlers_called[OF l(2), of 2 "\<lambda>_. []"] l(1) show ?thesis by auto
qed

end
