(* ===== verification/Locks.thy ===== *)
theory Locks
  imports Prelude
begin

text \<open>
  include/nhope/utils/stack-storage.h, stack-set.h and include/nhope/async/recursive-lock.h,
  reverse-lock.h. The thread-local chain of records is a list, the innermost record first; a
  record lives exactly as long as its C++ scope, so the operations that add and remove one
  come in pairs.
\<close>

section \<open>StackStorage and StackSet\<close>

type_synonym ('k, 'v) stack_storage = "('k \<times> 'v) list"

definition ss_record :: "'k \<Rightarrow> 'v \<Rightarrow> ('k, 'v) stack_storage \<Rightarrow> ('k, 'v) stack_storage" where
  "ss_record k v first = (k, v) # first"

definition ss_destroy :: "('k, 'v) stack_storage \<Rightarrow> ('k, 'v) stack_storage" where
  "ss_destroy first = tl first"

fun ss_get :: "('k, 'v) stack_storage \<Rightarrow> 'k \<Rightarrow> 'v option" where
  "ss_get [] key = None"
| "ss_get ((k, v) # pred) key = (if key = k then Some v else ss_get pred key)"

definition ss_contains :: "('k, 'v) stack_storage \<Rightarrow> 'k \<Rightarrow> bool" where
  "ss_contains first key \<longleftrightarrow> ss_get first key \<noteq> None"

fun ss_count_loop :: "('k, 'v) stack_storage \<Rightarrow> 'k \<Rightarrow> nat \<Rightarrow> nat" where
  "ss_count_loop [] key result = result"
| "ss_count_loop ((k, v) # pred) key result =
     ss_count_loop pred key (if key = k then Suc result else result)"

definition ss_count :: "('k, 'v) stack_storage \<Rightarrow> 'k \<Rightarrow> nat" where
  "ss_count first key = ss_count_loop first key 0"

definition stackset_contains :: "('k, unit) stack_storage \<Rightarrow> 'k \<Rightarrow> bool" where
  "stackset_contains first key = ss_contains first key"

definition stackset_count :: "('k, unit) stack_storage \<Rightarrow> 'k \<Rightarrow> nat" where
  "stackset_count first key = ss_count first key"

lemma ss_get_map_of: "ss_get st k = map_of st k"
  by (induction st) auto

lemma ss_count_loop_add: "ss_count_loop st k n = n + length (filter (\<lambda>e. fst e = k) st)"
  by (induction st k n rule: ss_count_loop.induct) auto

lemma ss_count_filter: "ss_count st k = length (filter (\<lambda>e. fst e = k) st)"
  by (simp add: ss_count_def ss_count_loop_add)

lemma ss_contains_count: "ss_contains st k \<longleftrightarrow> 0 < ss_count st k"
  by (auto simp: ss_contains_def ss_get_map_of ss_count_filter map_of_eq_None_iff filter_empty_conv)

lemma ss_scope: "ss_destroy (ss_record k v st) = st"
  by (simp add: ss_destroy_def ss_record_def)

section \<open>RecursiveLock and ReverseLock\<close>

text \<open>
  One thread and one mutex. The state is the thread's unique_lock for the mutex in the stack
  storage (None: the thread has none) and whether it owns the mutex. std::unique_lock
  refuses to lock twice or to unlock what it does not own: that is the exception.

  A program of nested scopes. ReverseScope is a ReverseLock over the innermost lock.
\<close>

datatype lock_op =
    LLock | LUnlock | LThrow
  | Scope "lock_op list"
  | ReverseScope "lock_op list"

datatype lock_exn = LockError | UserExn

text \<open>The outcome: std::terminate, or the state with an exception in flight or not.\<close>

datatype lock_result = Terminate | Ended "bool option" "lock_exn option"

definition rl_enter :: "bool option \<Rightarrow> bool option \<times> bool \<times> bool" where
  "rl_enter st =
     (let isFirst = (st = None); owns = (case st of None \<Rightarrow> False | Some b \<Rightarrow> b);
          wasLocked = owns
      in (Some True, isFirst, wasLocked))"

definition rl_leave :: "bool option \<Rightarrow> bool \<Rightarrow> bool \<Rightarrow> bool option" where
  "rl_leave st isFirst wasLocked =
     (let owns = (st = Some True); owns = (if wasLocked \<noteq> owns then wasLocked else owns)
      in if isFirst then None else Some owns)"

text \<open>
  A list of operations; an exception ends it. Both classes do their work in destructors, which
  also run while an exception is in flight. ReverseLock's destructor locks: if the mutex is
  owned then, unique_lock throws inside a destructor and the program is terminated.
\<close>

fun run_ops :: "lock_op list \<Rightarrow> bool option \<Rightarrow> lock_result"
  and run_op :: "lock_op \<Rightarrow> bool option \<Rightarrow> lock_result" where
  "run_ops [] st = Ended st None"
| "run_ops (p # ps) st =
     (case run_op p st of
        Ended st' None \<Rightarrow> run_ops ps st'
      | r \<Rightarrow> r)"
| "run_op LLock st = (if st = Some False then Ended (Some True) None else Ended st (Some LockError))"
| "run_op LUnlock st = (if st = Some True then Ended (Some False) None else Ended st (Some LockError))"
| "run_op LThrow st = Ended st (Some UserExn)"
| "run_op (Scope ps) st =
     (let (st1, isFirst, wasLocked) = rl_enter st in
      case run_ops ps st1 of
        Terminate \<Rightarrow> Terminate
      | Ended st2 e \<Rightarrow> Ended (rl_leave st2 isFirst wasLocked) e)"
| "run_op (ReverseScope ps) st =
     (if st = Some True then
        (case run_ops ps (Some False) of
           Terminate \<Rightarrow> Terminate
         | Ended st2 e \<Rightarrow> if st2 = Some False then Ended (Some True) e else Terminate)
      else Ended st (Some LockError))"

text \<open>
  a RecursiveLock restores what it found, whatever happens inside its scope: nested
  locks, unlocks, reverse locks and exceptions. The outermost one gives the mutex back.
\<close>

theorem recursive_lock_restores:
  "case run_op (Scope ps) st of Terminate \<Rightarrow> True | Ended st' e \<Rightarrow> st' = st"
proof -
  have keep: "case run_ops ps st of Terminate \<Rightarrow> True | Ended st' e \<Rightarrow> st' = None \<longleftrightarrow> st = None"
    and keep1: "case run_op p st of Terminate \<Rightarrow> True | Ended st' e \<Rightarrow> st' = None \<longleftrightarrow> st = None"
    for p ps st
    by (induction ps st and p st rule: run_ops_run_op.induct)
      (auto simp: rl_enter_def rl_leave_def Let_def split: lock_result.splits option.splits if_splits)
  show ?thesis
    using keep[where ps = ps and st = "Some True"]
    by (cases st) (auto simp: rl_enter_def rl_leave_def Let_def split: lock_result.splits)
qed

end
