(* ===== verification/AOContext.thy ===== *)
theory AOContext
  imports AOContextState CloseHandlers Locks "HOL-Library.Multiset"
begin

unbundle bit_operations_syntax

text \<open>
  include/nhope/async/detail/ao-context-impl.h: how closing an AOContext and using it from
  other threads fit together. A call that uses the context first blocks its close
  (blockClose, AOContextState); close announces itself (startClose), waits until no other
  thread blocks (waitForClosing), calls the handlers and is done.

  The other threads are the list of what they hold a block for; own is the number of blocks
  the closing thread itself holds because it closes from inside tasks of this context, and
  mine is what blockCloseCountMadeFromThisThread says that number is. The handler list is
  the list that CloseHandlers refines.
\<close>

section \<open>The count of one's own blocks\<close>

text \<open>
  The tasks the closing thread is inside of, innermost first, as contexts; group is the
  identifier of a context's root. exec puts the group on the thread's stack and takes a
  block on the context.
\<close>

definition enter_exec :: "('c \<Rightarrow> 'g) \<Rightarrow> 'c \<Rightarrow> ('g, unit) stack_storage \<Rightarrow> ('g, unit) stack_storage" where
  "enter_exec grp c st = ss_record (grp c) () st"

definition working_stack :: "('c \<Rightarrow> 'g) \<Rightarrow> 'c list \<Rightarrow> ('g, unit) stack_storage" where
  "working_stack grp tasks = foldr (enter_exec grp) tasks []"

definition blockCloseCountMadeFromThisThread :: "('c \<Rightarrow> 'g) \<Rightarrow> 'c list \<Rightarrow> 'c \<Rightarrow> nat" where
  "blockCloseCountMadeFromThisThread grp tasks c = stackset_count (working_stack grp tasks) (grp c)"

definition own_blocks :: "'c list \<Rightarrow> 'c \<Rightarrow> nat" where
  "own_blocks tasks c = length (filter (\<lambda>x. x = c) tasks)"

lemma count_working_stack:
  "blockCloseCountMadeFromThisThread grp tasks c = length (filter (\<lambda>x. grp x = grp c) tasks)"
proof -
  have "length (filter (\<lambda>e. fst e = grp c) (working_stack grp tasks)) =
      length (filter (\<lambda>x. grp x = grp c) tasks)"
    by (induction tasks) (auto simp: working_stack_def enter_exec_def ss_record_def)
  then show ?thesis
    by (simp add: blockCloseCountMadeFromThisThread_def stackset_count_def ss_count_filter)
qed

lemma own_le_mine: "own_blocks tasks c \<le> blockCloseCountMadeFromThisThread grp tasks c"
  unfolding own_blocks_def count_working_stack by (induction tasks) auto

lemma own_eq_mine:
  assumes "\<forall>x \<in> set tasks. grp x = grp c \<longrightarrow> x = c"
  shows "blockCloseCountMadeFromThisThread grp tasks c = own_blocks tasks c"
proof -
  have "filter (\<lambda>x. grp x = grp c) tasks = filter (\<lambda>x. x = c) tasks"
    using assms by (intro filter_cong) auto
  then show ?thesis by (simp add: own_blocks_def count_working_stack)
qed

section \<open>exec\<close>

text \<open>
  exec as the operations on the state word. The call takes a block and a reference, hands the
  job to the executor and gives the block back; refused, it does nothing. The job runs inside
  the call (sync: the group is on the thread's stack) or later. work is what the work and,
  meanwhile, other threads do to the word. The job answers the word, whether the work did and
  whether the context was deleted.
\<close>

definition exec_call :: "u64 \<Rightarrow> u64 \<times> bool" where
  "exec_call w = blockCloseAndAddRef w"

definition exec_job :: "bool \<Rightarrow> (u64 \<Rightarrow> u64) \<Rightarrow> u64 \<Rightarrow> u64 \<times> bool \<times> bool" where
  "exec_job sync work w =
     (if sync then (let (w, gone) = removeRef (work w) in (w, True, gone))
      else case blockClose w of
        (w, False) \<Rightarrow> (let (w, gone) = removeRef w in (w, False, gone))
      | (w, True) \<Rightarrow> (let (w, gone) = unblockCloseAndRemoveRef (work w) in (w, True, gone)))"

definition exec_return :: "u64 \<Rightarrow> u64" where
  "exec_return w = unblockClose w"

text \<open>A neutral work: whatever runs meanwhile gives back the references and blocks it takes.\<close>

definition balanced :: "(u64 \<Rightarrow> u64) \<Rightarrow> bool" where
  "balanced work \<longleftrightarrow> (\<forall>w. refs (state_fields (work w)) = refs (state_fields w) \<and> blocks (state_fields (work w)) = blocks (state_fields w))"

text \<open>
  exec gives back what it takes. Whether the executor runs the job inside the call or after
  it, with anything balanced in between, the counters of references and of blocks are those
  before the call; the work does not run once close has begun, except inside a call that had
  got its block before; and the context is deleted by the job only when the job held the last
  reference.
\<close>

theorem exec_balanced:
  assumes "refs (state_fields w) < 2 ^ 32 - 2" and "blocks (state_fields w) < 2 ^ 24 - 2" and "0 < refs (state_fields w)"
    and "balanced work" and "balanced between"
    and "(w1, True) = exec_call w" and "(w2, did, gone) = exec_job True work w1"
    and "(w4, did', gone') = exec_job False work (between (exec_return w1))"
  shows "refs (state_fields (exec_return w2)) = refs (state_fields w) \<and> blocks (state_fields (exec_return w2)) = blocks (state_fields w) \<and>
    did \<and> \<not> gone \<and>
    refs (state_fields w4) = refs (state_fields w) \<and> blocks (state_fields w4) = blocks (state_fields w) \<and>
    did' = (\<not> preparing (state_fields (between (exec_return w1)))) \<and> \<not> gone'"
proof -
  have lt: "refs (state_fields w) < 2 ^ 32 - 1" "blocks (state_fields w) < 2 ^ 24 - 1" using assms(1,2) by auto
  have f1: "refs (state_fields w1) = refs (state_fields w) + 1" "blocks (state_fields w1) = blocks (state_fields w) + 1"
    using block_fields(3,4)[OF lt] assms(6) unfolding exec_call_def by (auto dest!: sym[of "(w1, True)"])
  let ?w1 = "work w1"
  have w1: "refs (state_fields ?w1) = refs (state_fields w) + 1" "blocks (state_fields ?w1) = blocks (state_fields w) + 1"
    using assms(4) f1 by (auto simp: balanced_def)
  have j1: "w2 = ?w1 - oneRef" "did" "\<not> gone"
    using assms(3,7) w1 last_ref_fields(1)[of ?w1] by (auto simp: exec_job_def removeRef_def)
  have f2: "refs (state_fields w2) = refs (state_fields w)" "blocks (state_fields w2) = blocks (state_fields w) + 1"
    using sub_fields(2)[of ?w1] w1 j1 by auto
  have r2: "refs (state_fields (exec_return w2)) = refs (state_fields w)" "blocks (state_fields (exec_return w2)) = blocks (state_fields w)"
    using sub_fields(1)[of w2] f2 by (auto simp: exec_return_def unblockClose_def)
  let ?w3 = "between (exec_return w1)"
  have w3: "refs (state_fields ?w3) = refs (state_fields w) + 1" "blocks (state_fields ?w3) = blocks (state_fields w)"
    using sub_fields(1)[of w1] f1 assms(5) by (auto simp: balanced_def exec_return_def unblockClose_def)
  have lt3: "refs (state_fields ?w3) < 2 ^ 32 - 1" "blocks (state_fields ?w3) < 2 ^ 24 - 1" using w3 assms(1,2) by auto
  note b = block_fields(1,2)[OF lt3]
  have "refs (state_fields w4) = refs (state_fields w) \<and> blocks (state_fields w4) = blocks (state_fields w) \<and>
    did' = (\<not> preparing (state_fields ?w3)) \<and> \<not> gone'"
  proof (cases "preparing (state_fields ?w3)")
    case True
    then obtain w' where w': "blockClose ?w3 = (w', False)" "state_fields w' = state_fields ?w3"
      using b by (cases "blockClose ?w3") auto
    then have "w4 = w' - oneRef" "\<not> did'" "\<not> gone'"
      using assms(3,8) w3 last_ref_fields(1)[of w'] by (auto simp: exec_job_def removeRef_def)
    then show ?thesis using sub_fields(2)[of w'] w' w3 True by auto
  next
    case False
    then obtain w' where w': "blockClose ?w3 = (w', True)" "state_fields w' = (state_fields ?w3)\<lparr>blocks := blocks (state_fields w) + 1\<rparr>"
      using b w3 by (cases "blockClose ?w3") auto
    have wk: "refs (state_fields (work w')) = refs (state_fields w) + 1" "blocks (state_fields (work w')) = blocks (state_fields w) + 1"
      using assms(4) w' w3 by (auto simp: balanced_def)
    have "w4 = work w' - (oneBlockClose OR oneRef)" "did'" "\<not> gone'"
      using assms(3,8) w' wk last_ref_fields(2)[of "work w'"]
      by (auto simp: exec_job_def unblockCloseAndRemoveRef_def)
    then show ?thesis using sub_fields(3)[of "work w'"] wk False by auto
  qed
  then show ?thesis using r2 j1 by auto
qed

theorem exec_balanced_witness:
  "refs (state_fields (exec_return (fst (exec_job True id (fst (exec_call state_init)))))) = 1 \<and>
   fst (snd (exec_job False id (id (exec_return (fst (exec_call state_init))))))"
proof -
  have i: "refs (state_fields state_init) = 1" "blocks (state_fields state_init) = 0"
    "\<not> preparing (state_fields state_init)"
    by (simp_all add: state_fields_def state_init_def oneRef_def refCounterOffset_def bit_simps)
  then have lt: "refs (state_fields state_init) < 2 ^ 32 - 1" "blocks (state_fields state_init) < 2 ^ 24 - 1"
    "refs (state_fields state_init) < 2 ^ 32 - 2" "blocks (state_fields state_init) < 2 ^ 24 - 2"
    "0 < refs (state_fields state_init)" by simp_all
  obtain w1 where w1: "(w1, True) = exec_call state_init"
    using block_fields(3)[OF lt(1,2)] i(3) by (cases "exec_call state_init") (auto simp: exec_call_def)
  have p1: "preparing (state_fields (exec_return w1)) = False"
    using block_fields(4)[OF lt(1,2)] w1 i sub_fields(1)[of w1]
    by (auto simp: exec_call_def exec_return_def unblockClose_def dest!: sym[of "(w1, True)"])
  obtain w2 d g where j: "(w2, d, g) = exec_job True id w1" by (metis prod_cases3)
  obtain w4 d' g' where j': "(w4, d', g') = exec_job False id (id (exec_return w1))" by (metis prod_cases3)
  have "balanced id" by (simp add: balanced_def)
  from exec_balanced[OF lt(3,4,5) this this w1 j j'] p1 i(1)
  show ?thesis by (simp add: w1[symmetric] j[symmetric] j'[symmetric, simplified])
qed

section \<open>The protocol\<close>

datatype blocker =
    B_Add addr     \<comment> \<open>inside addCloseHandler, the handler not yet in the list\<close>
  | B_Added        \<comment> \<open>the handler is in the list\<close>
  | B_Work         \<comment> \<open>a task is running in that thread\<close>
  | B_Refused      \<comment> \<open>blockClose was refused and the block not yet taken back\<close>

datatype close_phase = P_Open | P_Waiting | P_Calling | P_Closed

record ao =
  prep :: bool
  blk :: nat
  handlers :: "addr list"
  others :: "blocker list"
  phase :: close_phase
  registered :: "addr list"   \<comment> \<open>ghost: every handler that was put in the list\<close>
  called_h :: "addr list"     \<comment> \<open>ghost: the handlers close called\<close>
  removed_h :: "addr list"    \<comment> \<open>ghost: the handlers removeCloseHandler took out\<close>

definition ao_init :: "nat \<Rightarrow> ao" where
  "ao_init own = \<lparr>prep = False, blk = own, handlers = [], others = [], phase = P_Open,
     registered = [], called_h = [], removed_h = []\<rparr>"

inductive ao_step :: "nat \<Rightarrow> ao \<Rightarrow> ao \<Rightarrow> bool" for mine where
  block_add: "\<not> prep c \<Longrightarrow> h \<notin> set (handlers c) \<Longrightarrow> B_Add h \<notin> set (others c) \<Longrightarrow>
     ao_step mine c (c\<lparr>blk := blk c + 1, others := B_Add h # others c\<rparr>)"
| block_work: "\<not> prep c \<Longrightarrow> ao_step mine c (c\<lparr>blk := blk c + 1, others := B_Work # others c\<rparr>)"
| block_refused: "prep c \<Longrightarrow> ao_step mine c (c\<lparr>blk := blk c + 1, others := B_Refused # others c\<rparr>)"
| insert_handler: "others c = xs @ B_Add h # ys \<Longrightarrow>
     ao_step mine c (c\<lparr>handlers := h # handlers c, others := xs @ B_Added # ys,
       registered := h # registered c\<rparr>)"
| unblock: "others c = xs @ b # ys \<Longrightarrow> b \<in> {B_Added, B_Work, B_Refused} \<Longrightarrow>
     ao_step mine c (c\<lparr>blk := blk c - 1, others := xs @ ys\<rparr>)"
| remove_handler: "h \<in> set (handlers c) \<Longrightarrow>
     ao_step mine c (c\<lparr>handlers := remove1 h (handlers c), removed_h := h # removed_h c\<rparr>)"
| close_start: "\<not> prep c \<Longrightarrow> phase c = P_Open \<Longrightarrow>
     ao_step mine c (c\<lparr>prep := True, phase := P_Waiting\<rparr>)"
| close_go: "phase c = P_Waiting \<Longrightarrow> \<not> mine < blk c \<Longrightarrow> ao_step mine c (c\<lparr>phase := P_Calling\<rparr>)"
| close_call: "phase c = P_Calling \<Longrightarrow> handlers c = h # hs \<Longrightarrow>
     ao_step mine c (c\<lparr>handlers := hs, called_h := called_h c @ [h]\<rparr>)"
| close_end: "phase c = P_Calling \<Longrightarrow> handlers c = [] \<Longrightarrow> ao_step mine c (c\<lparr>phase := P_Closed\<rparr>)"

inductive ao_reachable :: "nat \<Rightarrow> nat \<Rightarrow> ao \<Rightarrow> bool" for own mine where
  ao_reach_init: "ao_reachable own mine (ao_init own)"
| ao_reach_step: "ao_reachable own mine c \<Longrightarrow> ao_step mine c c' \<Longrightarrow> ao_reachable own mine c'"

definition busy_blocker :: "blocker \<Rightarrow> bool" where
  "busy_blocker b \<longleftrightarrow> b = B_Work \<or> (\<exists>h. b = B_Add h)"

definition ao_inv :: "nat \<Rightarrow> ao \<Rightarrow> bool" where
  "ao_inv own c \<longleftrightarrow> blk c = own + length (others c) \<and> (prep c \<longleftrightarrow> phase c \<noteq> P_Open) \<and>
     (phase c \<in> {P_Calling, P_Closed} \<longrightarrow> (\<forall>b \<in> set (others c). \<not> busy_blocker b)) \<and>
     (phase c = P_Closed \<longrightarrow> handlers c = []) \<and>
     mset (registered c) = mset (handlers c) + mset (called_h c) + mset (removed_h c)"

lemma ao_step_inv:
  assumes "ao_step own c c'" and "ao_inv own c"
  shows "ao_inv own c'"
  using assms
  by cases (auto simp: ao_inv_def busy_blocker_def)

lemma ao_reachable_inv: "ao_reachable own own c \<Longrightarrow> ao_inv own c"
proof (induction rule: ao_reachable.induct)
  case ao_reach_init
  then show ?case by (simp add: ao_inv_def ao_init_def)
next
  case (ao_reach_step c c')
  then show ?case using ao_step_inv by blast
qed

text \<open>
  C22: Let tasks be the tasks that the closing thread is inside of, and ctx the context that it closes.
  If none of them is a task of another context of the same group (a child's, for instance), close
  does what it promises: while it calls the handlers and after it, no task of the context runs in
  another thread and no handler is about to be added; and when it ends, every handler that was
  ever registered has been called, or had been removed, exactly as often as it was registered.
\<close>

theorem ao_close_complete:
  assumes "\<forall>x \<in> set tasks. grp x = grp ctx \<longrightarrow> x = ctx"
    and "ao_reachable (own_blocks tasks ctx) (blockCloseCountMadeFromThisThread grp tasks ctx) c"
    and "phase c \<in> {P_Calling, P_Closed}"
  shows "B_Work \<notin> set (others c) \<and> (\<forall>h. B_Add h \<notin> set (others c)) \<and>
    (phase c = P_Closed \<longrightarrow> handlers c = [] \<and>
       mset (registered c) = mset (called_h c) + mset (removed_h c))"
  using ao_reachable_inv[of "own_blocks tasks ctx" c] assms(2,3) unfolding own_eq_mine[OF assms(1)]
  by (auto simp: ao_inv_def busy_blocker_def)

lemma ao_example_run:
  "ao_reachable 1 mine (ao_init 1\<lparr>prep := True, phase := P_Closed, registered := [7],
     called_h := [7], blk := 1\<rparr>)" if "1 \<le> mine"
proof -
  let ?c = "ao_init 1"
  have s1: "ao_reachable 1 mine (?c\<lparr>blk := 2, others := [B_Add 7]\<rparr>)"
    by (rule ao_reach_step[OF ao_reach_init]) (use block_add[of ?c 7] in \<open>simp add: ao_init_def numeral_2_eq_2\<close>)
  have s2: "ao_reachable 1 mine (?c\<lparr>blk := 2, others := [B_Added], handlers := [7], registered := [7]\<rparr>)"
    by (rule ao_reach_step[OF s1])
      (use insert_handler[of "?c\<lparr>blk := 2, others := [B_Add 7]\<rparr>" "[]" 7 "[]"] in \<open>simp add: ao_init_def\<close>)
  let ?d = "?c\<lparr>handlers := [7], registered := [7]\<rparr>"
  have s3: "ao_reachable 1 mine ?d"
    by (rule ao_reach_step[OF s2])
      (use unblock[of "?c\<lparr>blk := 2, others := [B_Added], handlers := [7], registered := [7]\<rparr>" "[]" B_Added "[]"]
        in \<open>simp add: ao_init_def\<close>)
  have s4: "ao_reachable 1 mine (?d\<lparr>prep := True, phase := P_Waiting\<rparr>)"
    by (rule ao_reach_step[OF s3]) (rule close_start, simp_all add: ao_init_def)
  have s5: "ao_reachable 1 mine (?d\<lparr>prep := True, phase := P_Calling\<rparr>)"
    by (rule ao_reach_step[OF s4])
      (use that close_go[of "?d\<lparr>prep := True, phase := P_Waiting\<rparr>" mine] in \<open>simp add: ao_init_def\<close>)
  have s6: "ao_reachable 1 mine (?d\<lparr>prep := True, phase := P_Calling, handlers := [], called_h := [7]\<rparr>)"
    by (rule ao_reach_step[OF s5])
      (use close_call[of "?d\<lparr>prep := True, phase := P_Calling\<rparr>" 7 "[]"] in \<open>simp add: ao_init_def\<close>)
  show ?thesis
    by (rule ao_reach_step[OF s6])
      (use close_end[of "?d\<lparr>prep := True, phase := P_Calling, handlers := [], called_h := [7]\<rparr>"] in
        \<open>simp add: ao_init_def\<close>)
qed

theorem ao_close_complete_witness:
  "mset (registered (ao_init 1\<lparr>prep := True, phase := P_Closed, registered := [7], called_h := [7], blk := 1\<rparr>))
     = {#7#}"
proof -
  let ?c = "ao_init 1\<lparr>prep := True, phase := P_Closed, registered := [7], called_h := [7], blk := 1\<rparr>"
  have "ao_reachable (own_blocks [True] True) (blockCloseCountMadeFromThisThread (\<lambda>_. ()) [True] True) ?c"
    using ao_example_run[of 1] by (simp add: own_blocks_def count_working_stack)
  from ao_close_complete[OF _ this] show ?thesis by (simp add: ao_init_def)
qed

text \<open>
  The count is right as long as the thread is not inside a task of another context of the
  same group (own_eq_mine). Closing a parent from a task of its child is the case where it
  is not: the child's task is counted, although it holds no block on the parent. Then close
  does not wait for one thread that does: here a handler is registered after close has gone
  through the list, and is never called.
\<close>

theorem close_from_child_misses_handler:
  "(\<exists>(grp :: bool \<Rightarrow> unit) tasks parent. own_blocks tasks parent = 0 \<and>
      blockCloseCountMadeFromThisThread grp tasks parent = (1 :: nat)) \<and>
   (\<exists>c h. ao_reachable 0 1 c \<and> phase c = P_Closed \<and> handlers c = [h] \<and> called_h c = [])"
proof
  have "blockCloseCountMadeFromThisThread (\<lambda>_ :: bool. ()) [False] True = 1"
    by (simp add: count_working_stack)
  then show "\<exists>(grp :: bool \<Rightarrow> unit) tasks parent. own_blocks tasks parent = 0 \<and>
      blockCloseCountMadeFromThisThread grp tasks parent = (1 :: nat)"
    by (intro exI[of _ "\<lambda>_. ()"] exI[of _ "[False]"] exI[of _ True]) (simp add: own_blocks_def)
next
  let ?c = "ao_init 0"
  let ?a = "?c\<lparr>blk := 1, others := [B_Add 7]\<rparr>"
  have s1: "ao_reachable 0 1 ?a"
    by (rule ao_reach_step[OF ao_reach_init]) (use block_add[of ?c 7] in \<open>simp add: ao_init_def\<close>)
  have s2: "ao_reachable 0 1 (?a\<lparr>prep := True, phase := P_Waiting\<rparr>)"
    by (rule ao_reach_step[OF s1]) (rule close_start, simp_all add: ao_init_def)
  have s3: "ao_reachable 0 1 (?a\<lparr>prep := True, phase := P_Calling\<rparr>)"
    by (rule ao_reach_step[OF s2])
      (use close_go[of "?a\<lparr>prep := True, phase := P_Waiting\<rparr>" 1] in \<open>simp add: ao_init_def\<close>)
  have s4: "ao_reachable 0 1 (?a\<lparr>prep := True, phase := P_Closed\<rparr>)"
    by (rule ao_reach_step[OF s3])
      (use close_end[of "?a\<lparr>prep := True, phase := P_Calling\<rparr>"] in \<open>simp add: ao_init_def\<close>)
  have s5: "ao_reachable 0 1 (?a\<lparr>prep := True, phase := P_Closed, handlers := [7],
      others := [B_Added], registered := [7]\<rparr>)"
    by (rule ao_reach_step[OF s4])
      (use insert_handler[of "?a\<lparr>prep := True, phase := P_Closed\<rparr>" "[]" 7 "[]"] in \<open>simp add: ao_init_def\<close>)
  then show "\<exists>c h. ao_reachable 0 1 c \<and> phase c = P_Closed \<and> handlers c = [h] \<and> called_h c = []"
    by (intro exI conjI) (assumption, simp_all add: ao_init_def)
qed

end
