(* ===== verification/Strand.thy ===== *)
theory Strand
  imports Prelude
begin

text \<open>
  lib/async/strand-executor.cpp: StrandExecutor::Impl, which runs works one after the other on
  an executor of many threads. The origin executor is a parameter of the repository's code:
  it runs each job it is given once, on some thread, some time later (jobs are queued, the
  default mode of exec). jobs is the number of jobs handed to it that have not started,
  running the works that threads are in (without the mutex). accepted, started and dropped are
  ghost logs: the works given to the strand, those it began, and those that its destruction
  threw away.
\<close>

record 'w strand =
  m_taskQueue :: "'w list"
  m_idle :: bool
  jobs :: nat
  running :: "'w list"
  accepted :: "'w list"
  started :: "'w list"
  dropped :: "'w list"

definition strand_new :: "'w strand" where
  "strand_new = \<lparr>m_taskQueue = [], m_idle = True, jobs = 0, running = [], accepted = [], started = [],
     dropped = []\<rparr>"

definition scheduleNextWork :: "'w strand \<Rightarrow> 'w strand" where
  "scheduleNextWork s =
     (if m_taskQueue s = [] then s\<lparr>m_idle := True\<rparr> else s\<lparr>jobs := jobs s + 1\<rparr>)"

definition strand_exec :: "'w strand \<Rightarrow> 'w \<Rightarrow> 'w strand" where
  "strand_exec s work =
     (let s = s\<lparr>m_taskQueue := m_taskQueue s @ [work], accepted := accepted s @ [work]\<rparr> in
      if m_idle s then scheduleNextWork (s\<lparr>m_idle := False\<rparr>) else s)"

text \<open>The queue is emptied when the StrandExecutor is destroyed; Impl lives on.\<close>

definition strand_clear :: "'w strand \<Rightarrow> 'w strand" where
  "strand_clear s = s\<lparr>m_taskQueue := [], dropped := dropped s @ m_taskQueue s\<rparr>"

text \<open>The job given to the origin executor: until it runs the work, and after that. None: the
  assertion fails.\<close>

definition job_begin :: "'w strand \<Rightarrow> 'w strand option" where
  "job_begin s =
     (if m_idle s then None
      else case m_taskQueue s of
        [] \<Rightarrow> Some (s\<lparr>jobs := jobs s - 1, m_idle := True\<rparr>)
      | w # ws \<Rightarrow> Some (s\<lparr>jobs := jobs s - 1, m_taskQueue := ws, running := w # running s,
                         started := started s @ [w]\<rparr>))"

definition job_end :: "'w strand \<Rightarrow> 'w \<Rightarrow> 'w strand" where
  "job_end s w = scheduleNextWork (s\<lparr>running := remove1 w (running s)\<rparr>)"

inductive strand_step :: "'w strand \<Rightarrow> 'w strand \<Rightarrow> bool" where
  exec: "strand_step s (strand_exec s w)"
| begin_job: "0 < jobs s \<Longrightarrow> job_begin s = Some s' \<Longrightarrow> strand_step s s'"
| end_job: "w \<in> set (running s) \<Longrightarrow> strand_step s (job_end s w)"

inductive strand_reachable :: "'w strand \<Rightarrow> bool" where
  strand_reach_new: "strand_reachable strand_new"
| strand_reach_step: "strand_reachable s \<Longrightarrow> strand_step s s' \<Longrightarrow> strand_reachable s'"
| strand_reach_clear: "strand_reachable s \<Longrightarrow> strand_reachable (strand_clear s)"

text \<open>Runs in which the strand is not destroyed.\<close>

inductive strand_alive :: "'w strand \<Rightarrow> bool" where
  strand_alive_new: "strand_alive strand_new"
| strand_alive_step: "strand_alive s \<Longrightarrow> strand_step s s' \<Longrightarrow> strand_alive s'"

definition strand_inv :: "'w strand \<Rightarrow> bool" where
  "strand_inv s \<longleftrightarrow> jobs s + length (running s) = (if m_idle s then 0 else 1) \<and>
     (m_idle s \<longrightarrow> m_taskQueue s = [])"

lemma strand_step_inv:
  assumes "strand_step s s'" and "strand_inv s"
  shows "strand_inv s'"
  using assms(1)
proof cases
  case (exec w)
  then show ?thesis using assms(2)
    by (auto simp: strand_inv_def strand_exec_def scheduleNextWork_def Let_def)
next
  case begin_job
  then have "running s = []" "jobs s = 1" "\<not> m_idle s"
    using assms(2) by (cases "running s"; auto simp: strand_inv_def split: if_splits)+
  then show ?thesis using begin_job
    by (auto simp: strand_inv_def job_begin_def split: list.splits)
next
  case (end_job w)
  then have "running s = [w]" "\<not> m_idle s" "jobs s = 0"
    using assms(2) by (cases "running s"; auto simp: strand_inv_def split: if_splits)+
  then show ?thesis using end_job by (auto simp: strand_inv_def job_end_def scheduleNextWork_def)
qed

lemma strand_reachable_inv: "strand_reachable s \<Longrightarrow> strand_inv s"
proof (induction rule: strand_reachable.induct)
  case strand_reach_new
  show ?case by (simp add: strand_inv_def strand_new_def)
next
  case (strand_reach_step s s')
  then show ?case using strand_step_inv by blast
next
  case (strand_reach_clear s)
  then show ?case by (simp add: strand_inv_def strand_clear_def)
qed

text \<open>
  The works that have left the queue are those that were started, in order, with those that were
  dropped, in order, in between.
\<close>

lemma shuffles_append1: "zs \<in> shuffles xs ys \<Longrightarrow> zs @ ws \<in> shuffles (xs @ ws) ys"
proof (induction zs arbitrary: xs ys)
  case Nil
  then show ?case by (cases ws) simp_all
next
  case (Cons z zs)
  then consider "xs \<noteq> []" "hd xs = z" "zs \<in> shuffles (tl xs) ys" | "ys \<noteq> []" "hd ys = z" "zs \<in> shuffles xs (tl ys)"
    unfolding Cons_in_shuffles_iff by blast
  then show ?case
  proof cases
    case 1
    then show ?thesis using Cons.IH[of "tl xs" ys] by (simp add: Cons_in_shuffles_iff)
  next
    case 2
    then show ?thesis using Cons.IH[of xs "tl ys"] by (simp add: Cons_in_shuffles_iff)
  qed
qed

lemma shuffles_append2: "zs \<in> shuffles xs ys \<Longrightarrow> zs @ ws \<in> shuffles xs (ys @ ws)"
  using shuffles_append1[of zs ys xs ws] by (simp add: shuffles_commutes)

definition left_queue :: "'w strand \<Rightarrow> 'w list \<Rightarrow> bool" where
  "left_queue s past \<longleftrightarrow> accepted s = past @ m_taskQueue s \<and> past \<in> shuffles (started s) (dropped s)"

lemma strand_step_log:
  assumes "strand_step s s'" and "left_queue s past"
  shows "\<exists>past. left_queue s' past" and "dropped s' = dropped s"
proof -
  show "\<exists>past. left_queue s' past"
    using assms(1)
  proof cases
    case (exec w)
    then show ?thesis using assms(2)
      by (intro exI[of _ past]) (simp add: left_queue_def strand_exec_def scheduleNextWork_def Let_def)
  next
    case begin_job
    show ?thesis
    proof (cases "m_taskQueue s")
      case Nil
      then show ?thesis using begin_job assms(2)
        by (intro exI[of _ past]) (auto simp: left_queue_def job_begin_def split: if_splits)
    next
      case (Cons w ws)
      then show ?thesis using begin_job assms(2) shuffles_append1[of past "started s" "dropped s" "[w]"]
        by (intro exI[of _ "past @ [w]"]) (auto simp: left_queue_def job_begin_def split: if_splits)
    qed
  next
    case (end_job w)
    then show ?thesis using assms(2)
      by (intro exI[of _ past]) (simp add: left_queue_def job_end_def scheduleNextWork_def)
  qed
  show "dropped s' = dropped s"
    using assms(1) by cases (auto simp: strand_exec_def scheduleNextWork_def job_begin_def job_end_def Let_def
      split: if_splits list.splits)
qed

lemma strand_reachable_log: "strand_reachable s \<Longrightarrow> \<exists>past. left_queue s past"
proof (induction rule: strand_reachable.induct)
  case strand_reach_new
  show ?case by (simp add: left_queue_def strand_new_def)
next
  case (strand_reach_step s s')
  then show ?case using strand_step_log(1) by blast
next
  case (strand_reach_clear s)
  then obtain past where "left_queue s past" by blast
  then show ?case
    by (intro exI[of _ "accepted s"]) (auto simp: left_queue_def strand_clear_def intro: shuffles_append2)
qed

text \<open>
  C27: On any executor, with works that post works, the strand runs one work at a time. It has at
  most one job with the origin executor, which never finds the strand idle (the assertion holds),
  and as long as work is queued, a job is on its way or a work is running. No work is lost or
  overtaken: what was given to the strand is what has left the queue followed by what is in it,
  and what has left it was started, in the order in which it was given, or thrown away by the
  destruction of the strand, which alone throws works away.
\<close>

theorem strand_serial:
  assumes "strand_reachable s"
  shows "length (running s) + jobs s \<le> 1 \<and> (0 < jobs s \<longrightarrow> job_begin s \<noteq> None) \<and>
    (m_taskQueue s \<noteq> [] \<longrightarrow> length (running s) + jobs s = 1) \<and>
    (\<exists>past. accepted s = past @ m_taskQueue s \<and> past \<in> shuffles (started s) (dropped s)) \<and>
    (\<forall>s'. strand_step s s' \<longrightarrow> dropped s' = dropped s)"
proof -
  note inv = strand_reachable_inv[OF assms]
  obtain past where past: "left_queue s past" using strand_reachable_log[OF assms] by blast
  have "length (running s) + jobs s \<le> 1 \<and> (0 < jobs s \<longrightarrow> job_begin s \<noteq> None) \<and>
      (m_taskQueue s \<noteq> [] \<longrightarrow> length (running s) + jobs s = 1)"
    using inv by (auto simp: strand_inv_def job_begin_def split: if_splits list.splits)
  then show ?thesis using past strand_step_log(2)[OF _ past] by (auto simp: left_queue_def)
qed

theorem strand_serial_witness:
  "length (running (strand_exec strand_new (3::nat))) + jobs (strand_exec strand_new (3::nat)) = 1"
  using strand_serial[OF strand_reach_step[OF strand_reach_new exec, of "3::nat"]]
  by (simp add: strand_exec_def Let_def strand_new_def scheduleNextWork_def)

text \<open>
  works start in the order in which they were given to the strand.
\<close>

theorem strand_fifo:
  assumes "strand_alive s"
  shows "accepted s = started s @ m_taskQueue s"
  using assms
proof -
  have "strand_reachable s \<and> dropped s = []" using assms
  proof (induction rule: strand_alive.induct)
    case strand_alive_new
    show ?case by (simp add: strand_reach_new) (simp add: strand_new_def)
  next
    case (strand_alive_step s s')
    then obtain past where "left_queue s past" using strand_reachable_log by blast
    then show ?case using strand_alive_step strand_step_log(2) strand_reach_step by fastforce
  qed
  moreover from this obtain past where "left_queue s past" using strand_reachable_log by blast
  ultimately show ?thesis by (simp add: left_queue_def)
qed

theorem strand_fifo_witness:
  "accepted (strand_exec strand_new (3::nat)) = started (strand_exec strand_new 3) @ [3]"
  using strand_fifo[OF strand_alive_step[OF strand_alive_new exec, of "3::nat"]]
  by (simp add: strand_exec_def Let_def strand_new_def scheduleNextWork_def)

end
