(* ===== verification/FutureState.thy ===== *)
theory FutureState
  imports Prelude
begin

text \<open>
  include/nhope/async/detail/future-state.h, FutureState::setFlag: the race between the
  thread that sets the result of a future and the thread that sets its callback. Both write
  their part first (the result storage, the callback pointer) and then run setFlag; the
  second of them calls the callback. Each atomic access of m_flags is one step.
\<close>

unbundle bit_operations_syntax

definition HasResult :: nat where "HasResult = 1"
definition HasCallback :: nat where "HasCallback = 2"

text \<open>
  Where a thread is: before its write, behind it (the load of m_flags is next), behind the
  load with the value it saw, behind the point where it knows that the other flag is set, and
  done. None as a step means that an assertion fails.
\<close>

datatype flag_pc = FP_Write | FP_Load | FP_Cas | FP_Second nat | FP_Done

record flag_race =
  m_flags :: nat
  has_storage :: bool     \<comment> \<open>the result has been written\<close>
  has_pointer :: bool     \<comment> \<open>the callback has been written\<close>
  pc_result :: flag_pc
  pc_callback :: flag_pc
  calls :: "nat list"     \<comment> \<open>the triggers of the calls of the callback\<close>

definition race_init :: flag_race where
  "race_init = \<lparr>m_flags = 0, has_storage = False, has_pointer = False, pc_result = FP_Write,
     pc_callback = FP_Write, calls = []\<rparr>"

text \<open>One step of setFlag(flag) of the thread at pc: the new shared state and pc.\<close>

definition set_flag_step :: "nat \<Rightarrow> flag_pc \<Rightarrow> flag_race \<Rightarrow> (flag_race \<times> flag_pc) option" where
  "set_flag_step flag p s = (case p of
     FP_Load \<Rightarrow>
       (if m_flags s AND flag \<noteq> 0 then None
        else if m_flags s = 0 then Some (s, FP_Cas) else Some (s, FP_Second (m_flags s)))
   | FP_Cas \<Rightarrow>
       (if m_flags s = 0 then Some (s\<lparr>m_flags := flag\<rparr>, FP_Done)
        else Some (s, FP_Second (m_flags s)))
   | FP_Second cur \<Rightarrow>
       (if cur OR flag \<noteq> HasResult OR HasCallback then None
        else Some (s\<lparr>m_flags := HasResult OR HasCallback, calls := calls s @ [flag]\<rparr>, FP_Done))
   | _ \<Rightarrow> None)"

definition result_step :: "flag_race \<Rightarrow> flag_race option" where
  "result_step s =
     (if pc_result s = FP_Write then Some (s\<lparr>has_storage := True, pc_result := FP_Load\<rparr>)
      else map_option (\<lambda>(s, p). s\<lparr>pc_result := p\<rparr>) (set_flag_step HasResult (pc_result s) s))"

definition callback_step :: "flag_race \<Rightarrow> flag_race option" where
  "callback_step s =
     (if pc_callback s = FP_Write then Some (s\<lparr>has_pointer := True, pc_callback := FP_Load\<rparr>)
      else map_option (\<lambda>(s, p). s\<lparr>pc_callback := p\<rparr>) (set_flag_step HasCallback (pc_callback s) s))"

inductive race_reachable :: "flag_race \<Rightarrow> bool" where
  race_reach_init: "race_reachable race_init"
| race_reach_result: "race_reachable s \<Longrightarrow> pc_result s \<noteq> FP_Done \<Longrightarrow> result_step s = Some s' \<Longrightarrow>
    race_reachable s'"
| race_reach_callback: "race_reachable s \<Longrightarrow> pc_callback s \<noteq> FP_Done \<Longrightarrow> callback_step s = Some s' \<Longrightarrow>
    race_reachable s'"

text \<open>What each combination of positions says about the shared state.\<close>

definition race_inv :: "flag_race \<Rightarrow> bool" where
  "race_inv s \<longleftrightarrow>
     has_storage s = (pc_result s \<noteq> FP_Write) \<and> has_pointer s = (pc_callback s \<noteq> FP_Write) \<and>
     (case (pc_result s, pc_callback s) of
        (FP_Done, FP_Done) \<Rightarrow> m_flags s = 3 \<and> length (calls s) = 1
      | (FP_Done, FP_Second c) \<Rightarrow> m_flags s = 1 \<and> c = 1 \<and> calls s = []
      | (FP_Second c, FP_Done) \<Rightarrow> m_flags s = 2 \<and> c = 2 \<and> calls s = []
      | (FP_Second c, _) \<Rightarrow> False
      | (_, FP_Second c) \<Rightarrow> False
      | (FP_Done, _) \<Rightarrow> m_flags s = 1 \<and> calls s = []
      | (_, FP_Done) \<Rightarrow> m_flags s = 2 \<and> calls s = []
      | _ \<Rightarrow> m_flags s = 0 \<and> calls s = [])"

lemma flag_consts: "(1 :: nat) AND 1 = 1" "(2 :: nat) AND 2 = 2" "(2 :: nat) AND 1 = 0"
  "(1 :: nat) AND 2 = 0" "(1 :: nat) OR 2 = 3" "(2 :: nat) OR 1 = 3"
  by simp_all

lemmas race_defs = result_step_def callback_step_def set_flag_step_def HasResult_def HasCallback_def

lemma result_step_inv:
  assumes "race_inv s" and "pc_result s \<noteq> FP_Done"
  shows "\<exists>s'. result_step s = Some s' \<and> race_inv s'"
  using assms
  by (cases "pc_result s"; cases "pc_callback s") (auto simp: race_inv_def race_defs)

lemma callback_step_inv:
  assumes "race_inv s" and "pc_callback s \<noteq> FP_Done"
  shows "\<exists>s'. callback_step s = Some s' \<and> race_inv s'"
  using assms
  by (cases "pc_result s"; cases "pc_callback s") (auto simp: race_inv_def race_defs)

lemma race_reachable_inv: "race_reachable s \<Longrightarrow> race_inv s"
proof (induction rule: race_reachable.induct)
  case race_reach_init
  show ?case by (simp add: race_inv_def race_init_def)
next
  case (race_reach_result s s')
  then show ?case using result_step_inv[of s] by auto
next
  case (race_reach_callback s s')
  then show ?case using callback_step_inv[of s] by auto
qed

text \<open>
  C20: in every interleaving of the two threads no assertion of setFlag fails, the callback
  is called only when both the result and the callback have been written, never twice, and
  exactly once when both threads have finished.
\<close>

theorem callback_called_once:
  assumes "race_reachable s"
  shows "(pc_result s \<noteq> FP_Done \<longrightarrow> result_step s \<noteq> None) \<and>
    (pc_callback s \<noteq> FP_Done \<longrightarrow> callback_step s \<noteq> None) \<and>
    length (calls s) \<le> 1 \<and> (calls s \<noteq> [] \<longrightarrow> has_storage s \<and> has_pointer s) \<and>
    (pc_result s = FP_Done \<and> pc_callback s = FP_Done \<longrightarrow> length (calls s) = 1)"
proof -
  note inv = race_reachable_inv[OF assms]
  have "pc_result s \<noteq> FP_Done \<longrightarrow> result_step s \<noteq> None" using result_step_inv[OF inv] by auto
  moreover have "pc_callback s \<noteq> FP_Done \<longrightarrow> callback_step s \<noteq> None"
    using callback_step_inv[OF inv] by auto
  ultimately show ?thesis
    using inv by (cases "pc_result s"; cases "pc_callback s") (auto simp: race_inv_def)
qed

text \<open>A run in which both threads see an empty m_flags and the result wins.\<close>

definition race_example :: flag_race where
  "race_example = \<lparr>m_flags = 3, has_storage = True, has_pointer = True, pc_result = FP_Done,
     pc_callback = FP_Done, calls = [2]\<rparr>"

lemma race_example_reachable: "race_reachable race_example"
proof -
  let ?s = "race_init\<lparr>has_storage := True, pc_result := FP_Load\<rparr>"
  have "race_reachable ?s"
    by (rule race_reach_result[OF race_reach_init]) (simp_all add: race_init_def race_defs)
  then have "race_reachable (?s\<lparr>has_pointer := True, pc_callback := FP_Load\<rparr>)"
    by (rule race_reach_callback) (simp_all add: race_init_def race_defs)
  then have "race_reachable (?s\<lparr>has_pointer := True, pc_callback := FP_Load, pc_result := FP_Cas\<rparr>)"
    by (rule race_reach_result) (simp_all add: race_init_def race_defs)
  then have "race_reachable (?s\<lparr>has_pointer := True, pc_callback := FP_Cas, pc_result := FP_Cas\<rparr>)"
    by (rule race_reach_callback) (simp_all add: race_init_def race_defs)
  then have "race_reachable (?s\<lparr>has_pointer := True, pc_callback := FP_Cas, pc_result := FP_Done,
      m_flags := 1\<rparr>)"
    by (rule race_reach_result) (simp_all add: race_init_def race_defs)
  then have "race_reachable (?s\<lparr>has_pointer := True, pc_callback := FP_Second 1,
      pc_result := FP_Done, m_flags := 1\<rparr>)"
    by (rule race_reach_callback) (simp_all add: race_init_def race_defs)
  then show ?thesis
    by (rule race_reach_callback)
      (simp_all add: race_init_def race_defs race_example_def)
qed

theorem callback_called_once_witness:
  "length (calls race_example) = 1 \<and> has_storage race_example"
  using callback_called_once[OF race_example_reachable] by (simp add: race_example_def)

end
