(* ===== verification/Future.thy ===== *)
theory Future
  imports FutureState
begin

text \<open>
  include/nhope/async/future.h and the callbacks of include/nhope/async/detail/future-state.h:
  futures, promises, then, fail and unwrap. The states of all futures live in a store and are
  addressed by their index (RefPtr<FutureState<T>>). A state's flags are "has a result" and
  "has a callback" (FutureState shows that the callback is then called once).

  The value of a future is a plain value or, for a Future<Future<T>>, another future, whose
  nesting depth the C++ types know: the argument depth of the model. Functions given to then
  and fail are names; the parameter run says what they return or throw. None is a failed
  assertion of the code.
\<close>

section \<open>States and callbacks\<close>

datatype 'e future_exn =
    UserError 'e
  | AsyncOperationWasCancelled
  | BrokenPromiseError

datatype 'v future_value = Plain 'v | FutureOf nat

type_synonym ('v, 'e) future_result = "'e future_exn + 'v future_value"

text \<open>
  SetEvent: SetEventFutureCallback; Unwrapper: UnwrapperFutureCallback for a T that is a
  future of futures, depth levels deep; Then and Fail: FutureThenCallback and
  FutureFailCallback with the next state.
\<close>

datatype 'f future_callback =
    SetEvent nat
  | Unwrapper nat nat
  | Then 'f nat
  | Fail 'f nat

record ('v, 'e, 'f) fstate =
  f_result :: "('v, 'e) future_result option"
  f_callback :: "'f future_callback option"
  f_cancelled :: nat   \<comment> \<open>the shared flag (cancel token)\<close>

record ('v, 'e, 'f) fheap =
  f_states :: "('v, 'e, 'f) fstate list"
  f_tokens :: "bool list"
  f_events :: "bool list"

definition wasCancelled :: "('v, 'e, 'f) fheap \<Rightarrow> nat \<Rightarrow> bool" where
  "wasCancelled h s = (f_tokens h ! f_cancelled (f_states h ! s))"

definition cancel :: "('v, 'e, 'f) fheap \<Rightarrow> nat \<Rightarrow> ('v, 'e, 'f) fheap" where
  "cancel h s = h\<lparr>f_tokens := (f_tokens h)[f_cancelled (f_states h ! s) := True]\<rparr>"

definition setCancelToken :: "('v, 'e, 'f) fheap \<Rightarrow> nat \<Rightarrow> nat \<Rightarrow> ('v, 'e, 'f) fheap" where
  "setCancelToken h s tok = h\<lparr>f_states := (f_states h)[s := (f_states h ! s)\<lparr>f_cancelled := tok\<rparr>]\<rparr>"

text \<open>A new state with a given token, and one with a token of its own.\<close>

definition new_state :: "('v, 'e, 'f) fheap \<Rightarrow> nat \<Rightarrow> ('v, 'e, 'f) fheap \<times> nat" where
  "new_state h tok =
     (h\<lparr>f_states := f_states h @ [\<lparr>f_result = None, f_callback = None, f_cancelled = tok\<rparr>]\<rparr>,
      length (f_states h))"

definition new_promise_state :: "('v, 'e, 'f) fheap \<Rightarrow> ('v, 'e, 'f) fheap \<times> nat" where
  "new_promise_state h =
     new_state (h\<lparr>f_tokens := f_tokens h @ [False]\<rparr>) (length (f_tokens h))"

section \<open>Results and callbacks meet\<close>

text \<open>
  Setting a result or a callback may call the callback, which ends by setting the result or
  the callback of one other state: a loop of commands. futureReady gives the command.
\<close>

datatype ('v, 'e, 'f) future_cmd =
    SetResult nat "('v, 'e) future_result"
  | SetCallback nat "'f future_callback"

fun futureReady :: "('f \<Rightarrow> 'v future_value \<Rightarrow> ('v, 'e) future_result) \<Rightarrow>
    ('f \<Rightarrow> 'e future_exn \<Rightarrow> ('v, 'e) future_result) \<Rightarrow>
    ('v, 'e, 'f) fheap \<Rightarrow> 'f future_callback \<Rightarrow> ('v, 'e) future_result \<Rightarrow>
    (('v, 'e, 'f) fheap \<times> ('v, 'e, 'f) future_cmd option) option" where
  "futureReady run runFail h (SetEvent e) r = Some (h\<lparr>f_events := (f_events h)[e := True]\<rparr>, None)"
| "futureReady run runFail h (Unwrapper d u) (Inl ex) = Some (h, Some (SetResult u (Inl ex)))"
| "futureReady run runFail h (Unwrapper 0 u) (Inr v) = Some (h, Some (SetResult u (Inr v)))"
| "futureReady run runFail h (Unwrapper (Suc d) u) (Inr (FutureOf k)) =
     Some (setCancelToken h k (f_cancelled (f_states h ! u)), Some (SetCallback k (Unwrapper d u)))"
| "futureReady run runFail h (Unwrapper (Suc d) u) (Inr (Plain v)) = None"
| "futureReady run runFail h (Then f u) (Inl ex) = Some (h, Some (SetResult u (Inl ex)))"
| "futureReady run runFail h (Then f u) (Inr v) =
     (if wasCancelled h u then Some (h, Some (SetResult u (Inl AsyncOperationWasCancelled)))
      else Some (h, Some (SetResult u (run f v))))"
| "futureReady run runFail h (Fail f u) (Inr v) = Some (h, Some (SetResult u (Inr v)))"
| "futureReady run runFail h (Fail f u) (Inl ex) = Some (h, Some (SetResult u (runFail f ex)))"

definition with_state :: "('v, 'e, 'f) fheap \<Rightarrow> nat \<Rightarrow> ('v, 'e, 'f) fstate \<Rightarrow> ('v, 'e, 'f) fheap" where
  "with_state h s st = h\<lparr>f_states := (f_states h)[s := st]\<rparr>"

definition apply_cmd :: "('f \<Rightarrow> 'v future_value \<Rightarrow> ('v, 'e) future_result) \<Rightarrow>
    ('f \<Rightarrow> 'e future_exn \<Rightarrow> ('v, 'e) future_result) \<Rightarrow> ('v, 'e, 'f) fheap \<Rightarrow>
    ('v, 'e, 'f) future_cmd \<Rightarrow> (('v, 'e, 'f) fheap \<times> ('v, 'e, 'f) future_cmd option) option" where
  "apply_cmd run runFail h c = (case c of
     SetResult s r \<Rightarrow>
       (if length (f_states h) \<le> s \<or> f_result (f_states h ! s) \<noteq> None then None
        else let st = f_states h ! s; h = with_state h s (st\<lparr>f_result := Some r\<rparr>) in
          case f_callback st of None \<Rightarrow> Some (h, None) | Some cb \<Rightarrow> futureReady run runFail h cb r)
   | SetCallback s cb \<Rightarrow>
       (if length (f_states h) \<le> s \<or> f_callback (f_states h ! s) \<noteq> None then None
        else let st = f_states h ! s; h = with_state h s (st\<lparr>f_callback := Some cb\<rparr>) in
          case f_result st of None \<Rightarrow> Some (h, None) | Some r \<Rightarrow> futureReady run runFail h cb r))"

text \<open>Every command settles one more flag of one state, so the loop ends.\<close>

definition open_flags :: "('v, 'e, 'f) fheap \<Rightarrow> nat" where
  "open_flags h = sum_list (map (\<lambda>st. (if f_result st = None then 1 else 0) +
     (if f_callback st = None then 1 else 0)) (f_states h))"

lemma sum_list_update:
  fixes xs :: "nat list"
  assumes "i < length xs"
  shows "sum_list (xs[i := y]) + xs ! i = sum_list xs + y"
  using assms by (induction xs arbitrary: i) (auto split: nat.splits)

lemma open_flags_with_state:
  assumes "s < length (f_states h)"
    and "(if f_result st = None then 1 else 0) + (if f_callback st = None then 1 else 0) <
      ((if f_result (f_states h ! s) = None then 1 else 0) +
       (if f_callback (f_states h ! s) = None then 1 else 0) :: nat)"
  shows "open_flags (with_state h s st) < open_flags h"
proof -
  let ?f = "\<lambda>st. (if f_result st = None then 1 else 0) + (if f_callback st = None then 1 else 0) :: nat"
  have "sum_list ((map ?f (f_states h))[s := ?f st]) + map ?f (f_states h) ! s =
      sum_list (map ?f (f_states h)) + ?f st"
    by (rule sum_list_update) (use assms(1) in simp)
  then show ?thesis using assms unfolding open_flags_def with_state_def
    by (simp add: map_update)
qed

lemma open_flags_token:
  assumes "k < length (f_states h)"
  shows "open_flags (setCancelToken h k tok) = open_flags h"
proof -
  have "map g ((f_states h)[k := (f_states h ! k)\<lparr>f_cancelled := tok\<rparr>]) = map g (f_states h)"
    if "g ((f_states h ! k)\<lparr>f_cancelled := tok\<rparr>) = g (f_states h ! k)" for g :: "_ \<Rightarrow> nat"
    using that assms by (simp add: map_update) (metis list_update_id length_map nth_map)
  then show ?thesis by (simp add: open_flags_def setCancelToken_def)
qed

lemma futureReady_flags:
  assumes "futureReady run runFail h cb r = Some (h', c)"
  shows "open_flags h' \<le> open_flags h"
proof (cases "(run, runFail, h, cb, r)" rule: futureReady.cases)
  case (4 run' runFail' h0 d u k)
  then have "h' = setCancelToken h0 k (f_cancelled (f_states h0 ! u))" "h = h0"
    using assms by auto
  then show ?thesis
    by (cases "k < length (f_states h0)")
      (simp_all add: open_flags_token, simp add: setCancelToken_def open_flags_def list_update_beyond)
qed (use assms in \<open>auto simp: open_flags_def split: if_splits\<close>)

lemma apply_cmd_flags:
  assumes "apply_cmd run runFail h c = Some (h', c')"
  shows "open_flags h' < open_flags h"
proof (cases c)
  case (SetResult s r)
  let ?st = "f_states h ! s"
  have s: "s < length (f_states h)" "f_result ?st = None"
    using assms by (auto simp: apply_cmd_def SetResult split: if_splits)
  have "open_flags (with_state h s (?st\<lparr>f_result := Some r\<rparr>)) < open_flags h"
    by (rule open_flags_with_state) (use s in auto)
  then show ?thesis
    using assms s futureReady_flags[of run runFail "with_state h s (?st\<lparr>f_result := Some r\<rparr>)"]
    by (fastforce simp: apply_cmd_def SetResult Let_def split: option.splits)
next
  case (SetCallback s cb)
  let ?st = "f_states h ! s"
  have s: "s < length (f_states h)" "f_callback ?st = None"
    using assms by (auto simp: apply_cmd_def SetCallback split: if_splits)
  have "open_flags (with_state h s (?st\<lparr>f_callback := Some cb\<rparr>)) < open_flags h"
    by (rule open_flags_with_state) (use s in auto)
  then show ?thesis
    using assms s futureReady_flags[of run runFail "with_state h s (?st\<lparr>f_callback := Some cb\<rparr>)"]
    by (fastforce simp: apply_cmd_def SetCallback Let_def split: option.splits)
qed

function exec_cmd :: "('f \<Rightarrow> 'v future_value \<Rightarrow> ('v, 'e) future_result) \<Rightarrow>
    ('f \<Rightarrow> 'e future_exn \<Rightarrow> ('v, 'e) future_result) \<Rightarrow> ('v, 'e, 'f) fheap \<Rightarrow>
    ('v, 'e, 'f) future_cmd \<Rightarrow> ('v, 'e, 'f) fheap option" where
  "exec_cmd run runFail h c =
     (case apply_cmd run runFail h c of
        None \<Rightarrow> None
      | Some (h', None) \<Rightarrow> Some h'
      | Some (h', Some c') \<Rightarrow> exec_cmd run runFail h' c')"
  by pat_completeness auto
termination
  by (relation "measure (\<lambda>(run, runFail, h, c). open_flags h)") (auto dest: apply_cmd_flags)

declare exec_cmd.simps [simp del]

text \<open>One command and what it leads to.\<close>

lemma exec_SetResult:
  "exec_cmd run runFail h (SetResult s r) =
     (if length (f_states h) \<le> s \<or> f_result (f_states h ! s) \<noteq> None then None
      else let st = f_states h ! s; h1 = with_state h s (st\<lparr>f_result := Some r\<rparr>) in
        case f_callback st of None \<Rightarrow> Some h1
        | Some cb \<Rightarrow> (case futureReady run runFail h1 cb r of None \<Rightarrow> None
            | Some (h2, None) \<Rightarrow> Some h2 | Some (h2, Some c) \<Rightarrow> exec_cmd run runFail h2 c))"
  by (subst exec_cmd.simps) (simp add: apply_cmd_def Let_def split: option.splits)

lemma exec_SetCallback:
  "exec_cmd run runFail h (SetCallback s cb) =
     (if length (f_states h) \<le> s \<or> f_callback (f_states h ! s) \<noteq> None then None
      else let st = f_states h ! s; h1 = with_state h s (st\<lparr>f_callback := Some cb\<rparr>) in
        case f_result st of None \<Rightarrow> Some h1
        | Some r \<Rightarrow> (case futureReady run runFail h1 cb r of None \<Rightarrow> None
            | Some (h2, None) \<Rightarrow> Some h2 | Some (h2, Some c) \<Rightarrow> exec_cmd run runFail h2 c))"
  by (subst exec_cmd.simps) (simp add: apply_cmd_def Let_def split: option.splits)

section \<open>Future handles\<close>

text \<open>
  A handle has a state (m_state) and, after a wait, an event (m_futureReadyEvent). Every
  operation answers the heap, the handle afterwards and its result or the exception thrown.
\<close>

datatype future_error = FutureNoStateError | MakeFutureChainAfterWaitError

record future =
  fu_state :: "nat option"
  fu_event :: "nat option"

definition future_of :: "nat \<Rightarrow> future" where
  "future_of s = \<lparr>fu_state = Some s, fu_event = None\<rparr>"

definition isValid :: "future \<Rightarrow> bool" where
  "isValid fu = (fu_state fu \<noteq> None)"

definition isWaitFuture :: "future \<Rightarrow> bool" where
  "isWaitFuture fu = (fu_event fu \<noteq> None)"

definition hasResult :: "('v, 'e, 'f) fheap \<Rightarrow> nat \<Rightarrow> bool" where
  "hasResult h s = (f_result (f_states h ! s) \<noteq> None)"

definition isReady :: "('v, 'e, 'f) fheap \<Rightarrow> future \<Rightarrow> future_error + bool" where
  "isReady h fu = (case fu_state fu of None \<Rightarrow> Inl FutureNoStateError | Some s \<Rightarrow> Inr (hasResult h s))"

definition future_cancel :: "('v, 'e, 'f) fheap \<Rightarrow> future \<Rightarrow> future_error + ('v, 'e, 'f) fheap" where
  "future_cancel h fu = (case fu_state fu of None \<Rightarrow> Inl FutureNoStateError | Some s \<Rightarrow> Inr (cancel h s))"

definition detachState :: "future \<Rightarrow> future \<times> (future_error + nat)" where
  "detachState fu = (case fu_state fu of
     None \<Rightarrow> (fu, Inl FutureNoStateError) | Some s \<Rightarrow> (fu\<lparr>fu_state := None\<rparr>, Inr s))"

text \<open>The part then, fail and unwrap share: attach a callback that settles a new state.\<close>

definition attach_callback :: "('f \<Rightarrow> 'v future_value \<Rightarrow> ('v, 'e) future_result) \<Rightarrow>
    ('f \<Rightarrow> 'e future_exn \<Rightarrow> ('v, 'e) future_result) \<Rightarrow> ('v, 'e, 'f) fheap \<Rightarrow> future \<Rightarrow>
    (nat \<Rightarrow> 'f future_callback) \<Rightarrow>
    (('v, 'e, 'f) fheap \<times> future \<times> (future_error + future)) option" where
  "attach_callback run runFail h fu mk =
     (if isWaitFuture fu then Some (h, fu, Inl MakeFutureChainAfterWaitError)
      else case detachState fu of
        (fu, Inl e) \<Rightarrow> Some (h, fu, Inl e)
      | (fu, Inr s) \<Rightarrow>
          (let (h, nextState) = new_state h (f_cancelled (f_states h ! s)) in
           case exec_cmd run runFail h (SetCallback s (mk nextState)) of
             None \<Rightarrow> None
           | Some h \<Rightarrow> Some (h, fu, Inr (future_of nextState))))"

text \<open>depth: how many futures are wrapped around the value of the future.\<close>

definition unwrap :: "('f \<Rightarrow> 'v future_value \<Rightarrow> ('v, 'e) future_result) \<Rightarrow>
    ('f \<Rightarrow> 'e future_exn \<Rightarrow> ('v, 'e) future_result) \<Rightarrow> ('v, 'e, 'f) fheap \<Rightarrow> future \<Rightarrow> nat \<Rightarrow>
    (('v, 'e, 'f) fheap \<times> future \<times> (future_error + future)) option" where
  "unwrap run runFail h fu depth =
     (if isWaitFuture fu then Some (h, fu, Inl MakeFutureChainAfterWaitError)
      else if depth = 0 then Some (h, fu\<lparr>fu_state := None\<rparr>, Inr fu)
      else attach_callback run runFail h fu (Unwrapper depth))"

definition unwrap_next :: "('f \<Rightarrow> 'v future_value \<Rightarrow> ('v, 'e) future_result) \<Rightarrow>
    ('f \<Rightarrow> 'e future_exn \<Rightarrow> ('v, 'e) future_result) \<Rightarrow> nat \<Rightarrow>
    (('v, 'e, 'f) fheap \<times> future \<times> (future_error + future)) option \<Rightarrow>
    (('v, 'e, 'f) fheap \<times> future \<times> (future_error + future)) option" where
  "unwrap_next run runFail depth res = (case res of
     Some (h, fu, Inr nextFuture) \<Rightarrow>
       map_option (\<lambda>(h, _, r). (h, fu, r)) (unwrap run runFail h nextFuture depth)
   | _ \<Rightarrow> res)"

definition future_then :: "('f \<Rightarrow> 'v future_value \<Rightarrow> ('v, 'e) future_result) \<Rightarrow>
    ('f \<Rightarrow> 'e future_exn \<Rightarrow> ('v, 'e) future_result) \<Rightarrow> ('v, 'e, 'f) fheap \<Rightarrow> future \<Rightarrow> 'f \<Rightarrow> nat \<Rightarrow>
    (('v, 'e, 'f) fheap \<times> future \<times> (future_error + future)) option" where
  "future_then run runFail h fu fn depth =
     unwrap_next run runFail depth (attach_callback run runFail h fu (Then fn))"

definition future_fail :: "('f \<Rightarrow> 'v future_value \<Rightarrow> ('v, 'e) future_result) \<Rightarrow>
    ('f \<Rightarrow> 'e future_exn \<Rightarrow> ('v, 'e) future_result) \<Rightarrow> ('v, 'e, 'f) fheap \<Rightarrow> future \<Rightarrow> 'f \<Rightarrow> nat \<Rightarrow>
    (('v, 'e, 'f) fheap \<times> future \<times> (future_error + future)) option" where
  "future_fail run runFail h fu fn depth =
     unwrap_next run runFail depth (attach_callback run runFail h fu (Fail fn))"

text \<open>
  wait, waitFor and get: the event is made once; waiting itself is left to the caller, which
  blocks while the event is not set. get answers the detached state whose result it returns.
\<close>

definition makeWaitFuture :: "('f \<Rightarrow> 'v future_value \<Rightarrow> ('v, 'e) future_result) \<Rightarrow>
    ('f \<Rightarrow> 'e future_exn \<Rightarrow> ('v, 'e) future_result) \<Rightarrow> ('v, 'e, 'f) fheap \<Rightarrow> future \<Rightarrow> nat \<Rightarrow>
    (('v, 'e, 'f) fheap \<times> future \<times> nat) option" where
  "makeWaitFuture run runFail h fu s = (case fu_event fu of
     Some e \<Rightarrow> Some (h, fu, e)
   | None \<Rightarrow>
       (let e = length (f_events h); h = h\<lparr>f_events := f_events h @ [False]\<rparr> in
        case exec_cmd run runFail h (SetCallback s (SetEvent e)) of
          None \<Rightarrow> None
        | Some h \<Rightarrow> Some (h, fu\<lparr>fu_event := Some e\<rparr>, e)))"

definition future_wait :: "('f \<Rightarrow> 'v future_value \<Rightarrow> ('v, 'e) future_result) \<Rightarrow>
    ('f \<Rightarrow> 'e future_exn \<Rightarrow> ('v, 'e) future_result) \<Rightarrow> ('v, 'e, 'f) fheap \<Rightarrow> future \<Rightarrow>
    (('v, 'e, 'f) fheap \<times> future \<times> (future_error + nat)) option" where
  "future_wait run runFail h fu = (case fu_state fu of
     None \<Rightarrow> Some (h, fu, Inl FutureNoStateError)
   | Some s \<Rightarrow> map_option (\<lambda>(h, fu, e). (h, fu, Inr e)) (makeWaitFuture run runFail h fu s))"

datatype 'r got = Got 'r | WaitsForEvent nat nat

definition future_get :: "('f \<Rightarrow> 'v future_value \<Rightarrow> ('v, 'e) future_result) \<Rightarrow>
    ('f \<Rightarrow> 'e future_exn \<Rightarrow> ('v, 'e) future_result) \<Rightarrow> ('v, 'e, 'f) fheap \<Rightarrow> future \<Rightarrow>
    (('v, 'e, 'f) fheap \<times> future \<times> (future_error + ('v, 'e) future_result got)) option" where
  "future_get run runFail h fu = (case detachState fu of
     (fu, Inl e) \<Rightarrow> Some (h, fu, Inl e)
   | (fu, Inr s) \<Rightarrow> (case f_result (f_states h ! s) of
       Some r \<Rightarrow> Some (h, fu, Inr (Got r))
     | None \<Rightarrow> map_option (\<lambda>(h, fu, e). (h, fu, Inr (WaitsForEvent s e)))
         (makeWaitFuture run runFail h fu s)))"

definition future_get_resume :: "('v, 'e, 'f) fheap \<Rightarrow> nat \<Rightarrow> nat \<Rightarrow> ('v, 'e) future_result option" where
  "future_get_resume h s e = (if f_events h ! e then f_result (f_states h ! s) else None)"

end
