(* ===== verification/FutureChain.thy ===== *)
theory FutureChain
  imports Future
begin

text \<open>
  What chains of then, fail and unwrap compute (include/nhope/async/future.h): the result of
  the last future is the result of the promise passed through the links, whenever the links
  are attached, and unwrap takes the value out of nested futures whatever the order in which
  they become ready.
\<close>

section \<open>The abstract meaning of a chain\<close>

datatype 'f chain_link = ThenLink 'f | FailLink 'f

fun link_callback :: "'f chain_link \<Rightarrow> nat \<Rightarrow> 'f future_callback" where
  "link_callback (ThenLink f) u = Then f u"
| "link_callback (FailLink f) u = Fail f u"

lemma link_callback_funs [simp]:
  "link_callback (ThenLink f) = Then f" "link_callback (FailLink f) = Fail f"
  by (auto intro!: ext)

text \<open>then maps values unless the operation was cancelled, fail maps exceptions.\<close>

fun link_result :: "('f \<Rightarrow> 'v future_value \<Rightarrow> ('v, 'e) future_result) \<Rightarrow>
    ('f \<Rightarrow> 'e future_exn \<Rightarrow> ('v, 'e) future_result) \<Rightarrow> bool \<Rightarrow> 'f chain_link \<Rightarrow>
    ('v, 'e) future_result \<Rightarrow> ('v, 'e) future_result" where
  "link_result run runFail c (ThenLink f) (Inl e) = Inl e"
| "link_result run runFail c (ThenLink f) (Inr v) = (if c then Inl AsyncOperationWasCancelled else run f v)"
| "link_result run runFail c (FailLink f) (Inl e) = runFail f e"
| "link_result run runFail c (FailLink f) (Inr v) = Inr v"

definition chain_result :: "('f \<Rightarrow> 'v future_value \<Rightarrow> ('v, 'e) future_result) \<Rightarrow>
    ('f \<Rightarrow> 'e future_exn \<Rightarrow> ('v, 'e) future_result) \<Rightarrow> bool \<Rightarrow> 'f chain_link list \<Rightarrow>
    ('v, 'e) future_result \<Rightarrow> ('v, 'e) future_result" where
  "chain_result run runFail c ls r = fold (link_result run runFail c) ls r"

text \<open>
  The program: links attached to a future one after the other (with functions that do not
  return futures).
\<close>

fun build_chain :: "('f \<Rightarrow> 'v future_value \<Rightarrow> ('v, 'e) future_result) \<Rightarrow>
    ('f \<Rightarrow> 'e future_exn \<Rightarrow> ('v, 'e) future_result) \<Rightarrow> ('v, 'e, 'f) fheap \<Rightarrow> future \<Rightarrow>
    'f chain_link list \<Rightarrow> (('v, 'e, 'f) fheap \<times> future) option" where
  "build_chain run runFail h fu [] = Some (h, fu)"
| "build_chain run runFail h fu (l # ls) =
     (case (case l of ThenLink f \<Rightarrow> future_then run runFail h fu f 0
                    | FailLink f \<Rightarrow> future_fail run runFail h fu f 0) of
        Some (h, _, Inr fu) \<Rightarrow> build_chain run runFail h fu ls
      | _ \<Rightarrow> None)"

section \<open>Chains in the store\<close>

text \<open>chain_from: the states from s to the open end u, all without a result.\<close>

fun chain_from :: "('v, 'e, 'f) fheap \<Rightarrow> nat \<Rightarrow> nat \<Rightarrow> 'f chain_link list \<Rightarrow> nat \<Rightarrow> bool" where
  "chain_from h t s [] u \<longleftrightarrow> s = u \<and> s < length (f_states h) \<and>
     f_states h ! s = \<lparr>f_result = None, f_callback = None, f_cancelled = t\<rparr>"
| "chain_from h t s (l # ls) u \<longleftrightarrow> s < length (f_states h) \<and> (\<exists>s'>s.
     f_states h ! s = \<lparr>f_result = None, f_callback = Some (link_callback l s'), f_cancelled = t\<rparr> \<and>
     chain_from h t s' ls u)"

lemma chain_from_cong:
  assumes "chain_from h t s ls u" and "length (f_states h) \<le> length (f_states h')"
    and "\<And>i. s \<le> i \<Longrightarrow> i < length (f_states h) \<Longrightarrow> f_states h' ! i = f_states h ! i"
  shows "chain_from h' t s ls u"
  using assms
proof (induction ls arbitrary: s)
  case (Cons l ls)
  then obtain s' where s': "s' > s" "chain_from h t s' ls u"
    "f_states h ! s = \<lparr>f_result = None, f_callback = Some (link_callback l s'), f_cancelled = t\<rparr>"
    by auto
  have "chain_from h' t s' ls u" by (rule Cons.IH) (use s' Cons.prems in auto)
  then show ?case using s' Cons.prems by auto
qed auto

lemma chain_token: "chain_from h t s ls u \<Longrightarrow> f_cancelled (f_states h ! s) = t"
  by (cases ls) auto

lemma chain_end:
  assumes "chain_from h t s ls u"
  shows "s \<le> u \<and> u < length (f_states h) \<and>
    f_states h ! u = \<lparr>f_result = None, f_callback = None, f_cancelled = t\<rparr>"
  using assms by (induction ls arbitrary: s) (auto, fastforce)

lemma with_state_simps [simp]:
  "length (f_states (with_state h s st)) = length (f_states h)"
  "f_tokens (with_state h s st) = f_tokens h"
  "f_states (with_state h s st) ! i = (if i = s \<and> s < length (f_states h) then st else f_states h ! i)"
  by (auto simp: with_state_def nth_list_update list_update_beyond)

lemma futureReady_link:
  assumes "f_cancelled (f_states h ! u) = t"
  shows "futureReady run runFail h (link_callback l u) r =
    Some (h, Some (SetResult u (link_result run runFail (f_tokens h ! t) l r)))"
  using assms by (cases l; cases r) (auto simp: wasCancelled_def)

lemma exec_SetResult_called:
  assumes "s < length (f_states h)" and "f_result (f_states h ! s) = None"
    and "f_callback (f_states h ! s) = Some cb"
    and "futureReady run runFail (with_state h s ((f_states h ! s)\<lparr>f_result := Some r\<rparr>)) cb r = Some (h', Some c)"
  shows "exec_cmd run runFail h (SetResult s r) = exec_cmd run runFail h' c"
  using assms by (simp add: exec_SetResult[of _ _ h] Let_def)

lemma exec_SetCallback_called:
  assumes "s < length (f_states h)" and "f_callback (f_states h ! s) = None"
    and "f_result (f_states h ! s) = Some r"
    and "futureReady run runFail (with_state h s ((f_states h ! s)\<lparr>f_callback := Some cb\<rparr>)) cb r = Some (h', Some c)"
  shows "exec_cmd run runFail h (SetCallback s cb) = exec_cmd run runFail h' c"
  using assms by (simp add: exec_SetCallback[of _ _ h] Let_def)

text \<open>A settled end: its state holds the result and nobody is attached.\<close>

definition settled :: "('v, 'e, 'f) fheap \<Rightarrow> nat \<Rightarrow> nat \<Rightarrow> ('v, 'e) future_result \<Rightarrow> bool" where
  "settled h t u r = (u < length (f_states h) \<and>
     f_states h ! u = \<lparr>f_result = Some r, f_callback = None, f_cancelled = t\<rparr>)"

lemma chain_settles:
  assumes "chain_from h t s ls u"
  shows "\<exists>h'. exec_cmd run runFail h (SetResult s r) = Some h' \<and> f_tokens h' = f_tokens h \<and>
    settled h' t u (chain_result run runFail (f_tokens h ! t) ls r)"
  using assms
proof (induction ls arbitrary: s r h)
  case Nil
  then show ?case by (auto simp: exec_SetResult Let_def settled_def chain_result_def)
next
  case (Cons l ls)
  then obtain s' where s': "s' > s" "chain_from h t s' ls u" "s < length (f_states h)"
    "f_states h ! s = \<lparr>f_result = None, f_callback = Some (link_callback l s'), f_cancelled = t\<rparr>"
    by auto
  let ?h = "with_state h s ((f_states h ! s)\<lparr>f_result := Some r\<rparr>)"
  let ?r = "link_result run runFail (f_tokens h ! t) l r"
  have c: "chain_from ?h t s' ls u" by (rule chain_from_cong[OF s'(2)]) (use s' in auto)
  have fr: "futureReady run runFail ?h (link_callback l s') r = Some (?h, Some (SetResult s' ?r))"
    using futureReady_link[OF chain_token[OF c]] by simp
  have "exec_cmd run runFail h (SetResult s r) = exec_cmd run runFail ?h (SetResult s' ?r)"
    by (rule exec_SetResult_called[OF _ _ _ fr]) (use s' in auto)
  moreover obtain h' where "exec_cmd run runFail ?h (SetResult s' ?r) = Some h'"
    "f_tokens h' = f_tokens ?h" "settled h' t u (chain_result run runFail (f_tokens ?h ! t) ls ?r)"
    using Cons.IH[OF c] by blast
  ultimately show ?case by (auto simp: chain_result_def)
qed

lemma chain_grows:
  assumes "chain_from h t s ls u" and "u < u'" and "u' < length (f_states h)"
    and "f_states h ! u' = \<lparr>f_result = None, f_callback = None, f_cancelled = t\<rparr>"
  shows "chain_from (with_state h u ((f_states h ! u)\<lparr>f_callback := Some (link_callback l u')\<rparr>)) t s (ls @ [l]) u'"
  using assms
proof (induction ls arbitrary: s)
  case (Cons k ls)
  then obtain s' where s': "s' > s" "chain_from h t s' ls u"
    "f_states h ! s = \<lparr>f_result = None, f_callback = Some (link_callback k s'), f_cancelled = t\<rparr>"
    by auto
  have "s \<noteq> u" using chain_end[OF s'(2)] s'(1) by auto
  then show ?case using Cons.IH[OF s'(2)] s' Cons.prems by auto
qed auto

lemma attach_link:
  assumes "\<And>s'. mk s' = link_callback l s'"
  shows "attach_callback run runFail h (future_of u) mk =
    (let h1 = fst (new_state h (f_cancelled (f_states h ! u))) in
     map_option (\<lambda>h. (h, (future_of u)\<lparr>fu_state := None\<rparr>, Inr (future_of (length (f_states h1) - 1))))
       (exec_cmd run runFail h1 (SetCallback u (link_callback l (length (f_states h1) - 1)))))"
  using assms by (simp add: attach_callback_def isWaitFuture_def detachState_def future_of_def new_state_def
      Let_def split: option.splits)

lemma build_step:
  "build_chain run runFail h (future_of u) (l # ls) =
     (let h1 = fst (new_state h (f_cancelled (f_states h ! u))); n = length (f_states h) in
      case exec_cmd run runFail h1 (SetCallback u (link_callback l n)) of
        None \<Rightarrow> None
      | Some h2 \<Rightarrow> build_chain run runFail h2 (future_of n) ls)"
  using attach_link[of "link_callback l" l run runFail h u]
  by (cases l) (simp_all add: future_then_def future_fail_def unwrap_next_def unwrap_def isWaitFuture_def
      future_of_def new_state_def Let_def split: option.splits)

lemma build_pending:
  assumes "chain_from h t s ls u"
  shows "\<exists>h' u'. build_chain run runFail h (future_of u) ks = Some (h', future_of u') \<and>
    f_tokens h' = f_tokens h \<and> chain_from h' t s (ls @ ks) u'"
  using assms
proof (induction ks arbitrary: h u ls)
  case (Cons k ks)
  note e = chain_end[OF Cons.prems]
  let ?n = "length (f_states h)"
  let ?h1 = "fst (new_state h (f_cancelled (f_states h ! u)))"
  have c1: "chain_from ?h1 t s ls u"
    by (rule chain_from_cong[OF Cons.prems]) (auto simp: new_state_def nth_append)
  have n: "f_states ?h1 ! ?n = \<lparr>f_result = None, f_callback = None, f_cancelled = t\<rparr>"
    "f_states ?h1 ! u = f_states h ! u" "length (f_states ?h1) = Suc ?n" "f_tokens ?h1 = f_tokens h"
    using e by (auto simp: new_state_def nth_append)
  let ?h2 = "with_state ?h1 u ((f_states ?h1 ! u)\<lparr>f_callback := Some (link_callback k ?n)\<rparr>)"
  have c2: "chain_from ?h2 t s (ls @ [k]) ?n"
    by (rule chain_grows[OF c1]) (use e n in auto)
  have x: "exec_cmd run runFail ?h1 (SetCallback u (link_callback k ?n)) = Some ?h2"
    using e n by (simp add: exec_SetCallback Let_def)
  obtain h' u' where "build_chain run runFail ?h2 (future_of ?n) ks = Some (h', future_of u')"
    "f_tokens h' = f_tokens ?h2" "chain_from h' t s ((ls @ [k]) @ ks) u'"
    using Cons.IH[OF c2] by blast
  then show ?case using x n(4) by (auto simp: build_step Let_def simp del: build_chain.simps)
qed auto

lemma build_settled:
  assumes "settled h t u r"
  shows "\<exists>h' u'. build_chain run runFail h (future_of u) ks = Some (h', future_of u') \<and>
    f_tokens h' = f_tokens h \<and> settled h' t u' (chain_result run runFail (f_tokens h ! t) ks r)"
  using assms
proof (induction ks arbitrary: h u r)
  case (Cons k ks)
  let ?n = "length (f_states h)"
  let ?h1 = "fst (new_state h (f_cancelled (f_states h ! u)))"
  have u: "u < ?n" "f_states h ! u = \<lparr>f_result = Some r, f_callback = None, f_cancelled = t\<rparr>"
    using Cons.prems by (auto simp: settled_def)
  have n: "f_states ?h1 ! ?n = \<lparr>f_result = None, f_callback = None, f_cancelled = t\<rparr>"
    "f_states ?h1 ! u = f_states h ! u" "length (f_states ?h1) = Suc ?n" "f_tokens ?h1 = f_tokens h"
    using u by (auto simp: new_state_def nth_append)
  let ?h2 = "with_state ?h1 u ((f_states ?h1 ! u)\<lparr>f_callback := Some (link_callback k ?n)\<rparr>)"
  let ?r = "link_result run runFail (f_tokens h ! t) k r"
  have t: "f_cancelled (f_states ?h2 ! ?n) = t" using u n by auto
  have fr: "futureReady run runFail ?h2 (link_callback k ?n) r = Some (?h2, Some (SetResult ?n ?r))"
    using futureReady_link[OF t] n by simp
  let ?h3 = "with_state ?h2 ?n ((f_states ?h2 ! ?n)\<lparr>f_result := Some ?r\<rparr>)"
  have "exec_cmd run runFail ?h1 (SetCallback u (link_callback k ?n)) =
      exec_cmd run runFail ?h2 (SetResult ?n ?r)"
    by (rule exec_SetCallback_called[OF _ _ _ fr]) (use u n in auto)
  also have "\<dots> = Some ?h3" using u n by (simp add: exec_SetResult Let_def)
  finally have x: "exec_cmd run runFail ?h1 (SetCallback u (link_callback k ?n)) = Some ?h3" .
  have "settled ?h3 t ?n ?r" using u n by (auto simp: settled_def)
  from Cons.IH[OF this] obtain h' u' where "build_chain run runFail ?h3 (future_of ?n) ks = Some (h', future_of u')"
    "f_tokens h' = f_tokens ?h3" "settled h' t u' (chain_result run runFail (f_tokens ?h3 ! t) ks ?r)"
    by blast
  then show ?case using x n(4) by (auto simp: build_step Let_def chain_result_def simp del: build_chain.simps)
qed (auto simp: chain_result_def)

lemma cancel_simps [simp]:
  "f_states (cancel h u) = f_states h"
  "f_tokens (cancel h u) = (f_tokens h)[f_cancelled (f_states h ! u) := True]"
  by (auto simp: cancel_def)

text \<open>
  C17: The links ls1 are attached to the future of a new promise; then the last future is
  possibly cancelled (c1); then the promise is fulfilled with r; then again a possible
  cancellation (c2); then the links ls2 are attached to the last future. No assertion fails, and
  the last future of all is ready with r passed through ls1 and ls2, where then answers
  AsyncOperationWasCancelled for a value that reaches it after the cancellation.
\<close>

theorem future_chain:
  "\<exists>h2 u h3 h4 v.
     build_chain run runFail (fst (new_promise_state h)) (future_of (snd (new_promise_state h))) ls1 =
       Some (h2, future_of u) \<and>
     exec_cmd run runFail (if c1 then cancel h2 u else h2) (SetResult (snd (new_promise_state h)) r) = Some h3 \<and>
     build_chain run runFail (if c2 then cancel h3 u else h3) (future_of u) ls2 = Some (h4, future_of v) \<and>
     f_result (f_states h4 ! v) =
       Some (chain_result run runFail (c1 \<or> c2) ls2 (chain_result run runFail c1 ls1 r))"
proof -
  let ?h1 = "fst (new_promise_state h)" and ?s = "snd (new_promise_state h)"
  let ?t = "length (f_tokens h)"
  have s: "chain_from ?h1 ?t ?s [] ?s" and tok: "f_tokens ?h1 = f_tokens h @ [False]"
    by (auto simp: new_promise_state_def new_state_def nth_append)
  from build_pending[OF s, of run runFail ls1] obtain h2 u where
    h2: "build_chain run runFail ?h1 (future_of ?s) ls1 = Some (h2, future_of u)"
      "f_tokens h2 = f_tokens ?h1" "chain_from h2 ?t ?s ls1 u" by auto
  define h2' where "h2' = (if c1 then cancel h2 u else h2)"
  have f: "f_states h2' = f_states h2" "f_tokens h2' ! ?t = c1" "length (f_tokens h2') = Suc ?t"
    using h2 tok chain_end[OF h2(3)] by (auto simp: h2'_def)
  have "chain_from h2' ?t ?s ls1 u" by (rule chain_from_cong[OF h2(3)]) (auto simp: f)
  from chain_settles[OF this, of run runFail r] obtain h3 where
    h3: "exec_cmd run runFail h2' (SetResult ?s r) = Some h3" "f_tokens h3 = f_tokens h2'"
      "settled h3 ?t u (chain_result run runFail c1 ls1 r)" using f(2) by auto
  define h3' where "h3' = (if c2 then cancel h3 u else h3)"
  have "settled h3' ?t u (chain_result run runFail c1 ls1 r)" and g: "f_tokens h3' ! ?t = (c1 \<or> c2)"
    using h3 f by (auto simp: h3'_def settled_def)
  from build_settled[OF this(1), of run runFail ls2] g obtain h4 v where
    "build_chain run runFail h3' (future_of u) ls2 = Some (h4, future_of v)"
    "settled h4 ?t v (chain_result run runFail (c1 \<or> c2) ls2 (chain_result run runFail c1 ls1 r))"
    by auto
  then have "build_chain run runFail (if c2 then cancel h3 u else h3) (future_of u) ls2 = Some (h4, future_of v) \<and>
      f_result (f_states h4 ! v) =
        Some (chain_result run runFail (c1 \<or> c2) ls2 (chain_result run runFail c1 ls1 r))"
    unfolding h3'_def settled_def by simp
  with h2(1) h3(1)[unfolded h2'_def] show ?thesis by blast
qed

section \<open>Unwrapping\<close>

text \<open>
  Futures in futures: the value of level i is the future of level i + 1; the levels become
  ready in any order.
\<close>

definition level_result :: "nat list \<Rightarrow> ('e future_exn + 'v) list \<Rightarrow> nat \<Rightarrow> ('v, 'e) future_result" where
  "level_result ss rs i = (case rs ! i of
     Inl e \<Rightarrow> Inl e
   | Inr v \<Rightarrow> Inr (if Suc i < length ss then FutureOf (ss ! Suc i) else Plain v))"

fun settle_levels :: "('f \<Rightarrow> 'v future_value \<Rightarrow> ('v, 'e) future_result) \<Rightarrow>
    ('f \<Rightarrow> 'e future_exn \<Rightarrow> ('v, 'e) future_result) \<Rightarrow> ('v, 'e, 'f) fheap \<Rightarrow> nat list \<Rightarrow>
    ('e future_exn + 'v) list \<Rightarrow> nat list \<Rightarrow> ('v, 'e, 'f) fheap option" where
  "settle_levels run runFail h ss rs [] = Some h"
| "settle_levels run runFail h ss rs (i # order) =
     (case exec_cmd run runFail h (SetResult (ss ! i) (level_result ss rs i)) of
        None \<Rightarrow> None
      | Some h \<Rightarrow> settle_levels run runFail h ss rs order)"

text \<open>What comes out: the error of the first level that failed, else the innermost value.\<close>

fun flattened :: "('e future_exn + 'v) list \<Rightarrow> ('v, 'e) future_result" where
  "flattened [] = Inl BrokenPromiseError"
| "flattened [Inr v] = Inr (Plain v)"
| "flattened (Inl e # rs) = Inl e"
| "flattened (Inr v # rs) = flattened rs"

lemma flattened_at:
  assumes "\<And>i. i < j \<Longrightarrow> \<not> isl (rs ! i)" and "j < length rs" and "isl (rs ! j) \<or> Suc j = length rs"
  shows "flattened rs = (case rs ! j of Inl e \<Rightarrow> Inl e | Inr v \<Rightarrow> Inr (Plain v))"
  using assms
proof (induction rs arbitrary: j rule: flattened.induct)
  case (4 v r rs)
  show ?case
  proof (cases j)
    case 0
    then show ?thesis using 4 by simp
  next
    case (Suc i)
    have "\<not> isl ((r # rs) ! k)" if "k < i" for k using 4(2)[of "Suc k"] that Suc by simp
    then show ?thesis using 4(1)[of i] 4(3,4) Suc by auto
  qed
next
  case (3 e rs)
  have "j = 0" using 3(1)[of 0] by (cases j) auto
  then show ?case by simp
qed auto

text \<open>
  S: the levels that are done. levels: every level holds its result when it is done, and from
  level k on nobody is attached. unwrap_at j: the unwrapper waits at level j, all levels below
  which are done.
\<close>

definition nested :: "nat list \<Rightarrow> ('e future_exn + 'v) list \<Rightarrow> nat \<Rightarrow> bool" where
  "nested ss rs u = (distinct ss \<and> u \<notin> set ss \<and> length rs = length ss \<and> ss \<noteq> [])"

definition levels :: "('v, 'e, 'f) fheap \<Rightarrow> nat list \<Rightarrow> ('e future_exn + 'v) list \<Rightarrow> nat set \<Rightarrow> nat \<Rightarrow> bool" where
  "levels h ss rs S k = (\<forall>i<length ss. ss ! i < length (f_states h) \<and>
     f_result (f_states h ! (ss ! i)) = (if i \<in> S then Some (level_result ss rs i) else None) \<and>
     (k \<le> i \<longrightarrow> f_callback (f_states h ! (ss ! i)) = None))"

definition fresh_end :: "('v, 'e, 'f) fheap \<Rightarrow> nat \<Rightarrow> bool" where
  "fresh_end h u = (u < length (f_states h) \<and> f_result (f_states h ! u) = None \<and>
     f_callback (f_states h ! u) = None)"

definition unwrap_at :: "('v, 'e, 'f) fheap \<Rightarrow> nat list \<Rightarrow> ('e future_exn + 'v) list \<Rightarrow> nat \<Rightarrow> nat set \<Rightarrow> nat \<Rightarrow> bool" where
  "unwrap_at h ss rs u S j = (j < length ss \<and> j \<notin> S \<and> {..<j} \<subseteq> S \<and> (\<forall>i<j. \<not> isl (rs ! i)) \<and>
     levels h ss rs S (Suc j) \<and> fresh_end h u \<and>
     f_callback (f_states h ! (ss ! j)) = Some (Unwrapper (length ss - 1 - j) u))"

definition unwrap_done :: "('v, 'e, 'f) fheap \<Rightarrow> nat list \<Rightarrow> ('e future_exn + 'v) list \<Rightarrow> nat \<Rightarrow> nat set \<Rightarrow> bool" where
  "unwrap_done h ss rs u S = (f_result (f_states h ! u) = Some (flattened rs) \<and>
     (\<exists>k\<le>length ss. {..<k} \<subseteq> S \<and> levels h ss rs S k))"

definition unwrap_inv :: "('v, 'e, 'f) fheap \<Rightarrow> nat list \<Rightarrow> ('e future_exn + 'v) list \<Rightarrow> nat \<Rightarrow> nat set \<Rightarrow> bool" where
  "unwrap_inv h ss rs u S = (unwrap_done h ss rs u S \<or> (\<exists>j. unwrap_at h ss rs u S j))"

lemma levels_cong:
  assumes "levels h ss rs S k" and "length (f_states h') = length (f_states h)"
    and "\<And>i. i < length ss \<Longrightarrow> f_result (f_states h' ! (ss ! i)) = f_result (f_states h ! (ss ! i))"
    and "\<And>i. k' \<le> i \<Longrightarrow> i < length ss \<Longrightarrow>
      f_callback (f_states h' ! (ss ! i)) = f_callback (f_states h ! (ss ! i))" and "k \<le> k'"
  shows "levels h' ss rs S k'"
  using assms unfolding levels_def by auto

lemma set_end:
  assumes n: "nested ss rs u" and l: "levels h ss rs S k" "fresh_end h u" and k: "k \<le> length ss" "{..<k} \<subseteq> S"
  shows "\<exists>h'. exec_cmd run runFail h (SetResult u (flattened rs)) = Some h' \<and> unwrap_inv h' ss rs u S"
proof -
  let ?h = "with_state h u ((f_states h ! u)\<lparr>f_result := Some (flattened rs)\<rparr>)"
  have "ss ! i \<noteq> u" if "i < length ss" for i using n that by (auto simp: nested_def)
  then have "levels ?h ss rs S k" by (intro levels_cong[OF l(1)]) auto
  then have "unwrap_inv ?h ss rs u S" using l(2) k by (auto simp: unwrap_inv_def unwrap_done_def fresh_end_def)
  then show ?thesis using l(2) by (simp add: exec_SetResult fresh_end_def Let_def)
qed

text \<open>A done level that holds the next one: the unwrapper goes over to it.\<close>

lemma unwrap_hop:
  assumes n: "nested ss rs u" and l: "levels h ss rs S (Suc j)" and f: "fresh_end h u"
    and v: "rs ! j = Inr v" and j: "Suc j < length ss"
  obtains h1 where "futureReady run runFail h (Unwrapper (length ss - 1 - j) u) (level_result ss rs j) =
        Some (h1, Some (SetCallback (ss ! Suc j) (Unwrapper (length ss - 1 - Suc j) u)))"
    and "ss ! Suc j < length (f_states h1)" and "f_callback (f_states h1 ! (ss ! Suc j)) = None"
    and "f_result (f_states h1 ! (ss ! Suc j)) = (if Suc j \<in> S then Some (level_result ss rs (Suc j)) else None)"
    and "levels (with_state h1 (ss ! Suc j) ((f_states h1 ! (ss ! Suc j))\<lparr>f_callback := cb\<rparr>)) ss rs S (Suc (Suc j))"
    and "fresh_end (with_state h1 (ss ! Suc j) ((f_states h1 ! (ss ! Suc j))\<lparr>f_callback := cb\<rparr>)) u"
proof -
  let ?k = "ss ! Suc j"
  define h1 where "h1 = setCancelToken h ?k (f_cancelled (f_states h ! u))"
  have ku: "?k \<noteq> u" using n j by (auto simp: nested_def)
  have kl: "?k < length (f_states h)" "f_callback (f_states h ! ?k) = None"
      "f_result (f_states h ! ?k) = (if Suc j \<in> S then Some (level_result ss rs (Suc j)) else None)"
    using l j by (auto simp: levels_def)
  have h1: "length (f_states h1) = length (f_states h)" "f_result (f_states h1 ! i) = f_result (f_states h ! i)"
    "f_callback (f_states h1 ! i) = f_callback (f_states h ! i)" for i
    using kl by (auto simp: h1_def setCancelToken_def nth_list_update)
  have k_ne: "ss ! i \<noteq> ?k" if "Suc (Suc j) \<le> i" "i < length ss" for i
    using that n j by (auto simp: nested_def nth_eq_iff_index_eq)
  have d: "length ss - 1 - j = Suc (length ss - 1 - Suc j)" using j by simp
  show ?thesis
  proof (rule that[of h1])
    show "levels (with_state h1 ?k ((f_states h1 ! ?k)\<lparr>f_callback := cb\<rparr>)) ss rs S (Suc (Suc j))"
      by (rule levels_cong[OF l]) (use h1 k_ne in auto)
    show "fresh_end (with_state h1 ?k ((f_states h1 ! ?k)\<lparr>f_callback := cb\<rparr>)) u"
      using f ku h1 by (auto simp: fresh_end_def)
    show "futureReady run runFail h (Unwrapper (length ss - 1 - j) u) (level_result ss rs j) =
        Some (h1, Some (SetCallback ?k (Unwrapper (length ss - 1 - Suc j) u)))"
      using v j unfolding d by (simp add: level_result_def h1_def)
  qed (use kl h1 in auto)
qed

lemma unwrap_ends:
  assumes n: "nested ss rs u" and l: "levels h ss rs S (Suc j)" "fresh_end h u" and j: "j < length ss"
    and "{..j} \<subseteq> S" and pre: "\<And>i. i < j \<Longrightarrow> \<not> isl (rs ! i)" and stop: "isl (rs ! j) \<or> Suc j = length ss"
  shows "\<exists>h1 c h2. futureReady run runFail h (Unwrapper (length ss - 1 - j) u) (level_result ss rs j) = Some (h1, Some c) \<and>
    exec_cmd run runFail h1 c = Some h2 \<and> unwrap_inv h2 ss rs u S"
proof -
  have len: "length rs = length ss" using n by (simp add: nested_def)
  have S': "{..<Suc j} \<subseteq> S" using assms(5) by (simp add: lessThan_Suc_atMost)
  show ?thesis
  proof (cases "rs ! j")
    case (Inl e)
    then have "flattened rs = Inl e" using flattened_at[of j rs] j pre len by auto
    then show ?thesis using set_end[OF n l _ S', of run runFail] Inl j by (auto simp: level_result_def)
  next
    case (Inr v)
    then have "flattened rs = Inr (Plain v)" using flattened_at[of j rs] j pre len stop by auto
    then show ?thesis using set_end[OF n l _ S', of run runFail] Inr j stop by (auto simp: level_result_def)
  qed
qed

text \<open>A level that is not settled yet takes the callback and keeps it.\<close>

lemma unwrap_waits:
  assumes "levels h2 ss rs S (Suc (Suc j))" and "fresh_end h2 u" and "Suc j < length ss" and "Suc j \<notin> S" and "{..<Suc j} \<subseteq> S"
    and "\<And>i. i < Suc j \<Longrightarrow> \<not> isl (rs ! i)"
    and "f_callback (f_states h2 ! (ss ! Suc j)) = Some (Unwrapper (length ss - 1 - Suc j) u)"
  shows "unwrap_inv h2 ss rs u S"
proof -
  have "unwrap_at h2 ss rs u S (Suc j)" unfolding unwrap_at_def using assms by blast
  then show ?thesis unfolding unwrap_inv_def by blast
qed

lemma unwrap_advances:
  assumes n: "nested ss rs u" and "levels h ss rs S (Suc j)" and "fresh_end h u" and "j < length ss"
    and "{..j} \<subseteq> S" and "\<And>i. i < j \<Longrightarrow> \<not> isl (rs ! i)"
  shows "\<exists>h1 c h2. futureReady run runFail h (Unwrapper (length ss - 1 - j) u) (level_result ss rs j) = Some (h1, Some c) \<and>
    exec_cmd run runFail h1 c = Some h2 \<and> unwrap_inv h2 ss rs u S"
  using assms(2-)
proof (induction "length ss - j" arbitrary: j h)
  case (Suc m)
  have len: "length rs = length ss" using n by (simp add: nested_def)
  have S': "{..<Suc j} \<subseteq> S" using Suc.prems(4) by (simp add: lessThan_Suc_atMost)
  show ?case
  proof (cases "isl (rs ! j) \<or> Suc j = length ss")
    case True
    from unwrap_ends[OF n Suc.prems(1-4) _ this, of run runFail] Suc.prems(5) show ?thesis by blast
  next
    case False
    then obtain v where Inr: "rs ! j = Inr v" by (cases "rs ! j") auto
    have j: "Suc j < length ss" using Suc.prems(3) False by simp
    let ?k = "ss ! Suc j" and ?cb = "Unwrapper (length ss - 1 - Suc j) u"
    obtain h1 where r: "futureReady run runFail h (Unwrapper (length ss - 1 - j) u) (level_result ss rs j) =
          Some (h1, Some (SetCallback ?k ?cb))"
      and k: "?k < length (f_states h1)" "f_callback (f_states h1 ! ?k) = None"
        "f_result (f_states h1 ! ?k) = (if Suc j \<in> S then Some (level_result ss rs (Suc j)) else None)"
      and l2: "levels (with_state h1 ?k ((f_states h1 ! ?k)\<lparr>f_callback := Some ?cb\<rparr>)) ss rs S (Suc (Suc j))"
      and f2: "fresh_end (with_state h1 ?k ((f_states h1 ! ?k)\<lparr>f_callback := Some ?cb\<rparr>)) u"
      by (rule unwrap_hop[OF n Suc.prems(1,2) Inr j])
    let ?h2 = "with_state h1 ?k ((f_states h1 ! ?k)\<lparr>f_callback := Some ?cb\<rparr>)"
    have "\<exists>h3. exec_cmd run runFail h1 (SetCallback ?k ?cb) = Some h3 \<and> unwrap_inv h3 ss rs u S"
    proof (cases "Suc j \<in> S")
      case True
      have pre: "{..Suc j} \<subseteq> S" "\<And>i. i < Suc j \<Longrightarrow> \<not> isl (rs ! i)"
        using Suc.prems(4,5) True Inr by (auto simp: less_Suc_eq le_Suc_eq)
      have "m = length ss - Suc j" using Suc.hyps(2) by simp
      from Suc.hyps(1)[OF this l2 f2 j pre] obtain h3 c h4 where
        "futureReady run runFail ?h2 ?cb (level_result ss rs (Suc j)) = Some (h3, Some c)"
        "exec_cmd run runFail h3 c = Some h4" "unwrap_inv h4 ss rs u S" by blast
      then show ?thesis using exec_SetCallback_called[of ?k h1, OF k(1,2), of _ run runFail ?cb h3 c] k(3) True
        by auto
    next
      case False
      then have x: "exec_cmd run runFail h1 (SetCallback ?k ?cb) = Some ?h2"
        using k by (simp add: exec_SetCallback Let_def)
      have "unwrap_inv ?h2 ss rs u S"
        by (rule unwrap_waits[OF l2 f2 j False S']) (use Suc.prems(5) Inr k in \<open>auto simp: less_Suc_eq\<close>)
      then show ?thesis using x by blast
    qed
    then show ?thesis using r by blast
  qed
qed simp

lemma level_set:
  assumes n: "distinct ss" and l: "levels h ss rs S k" and i: "i < length ss"
  shows "levels (with_state h (ss ! i) ((f_states h ! (ss ! i))\<lparr>f_result := Some (level_result ss rs i)\<rparr>))
    ss rs (insert i S) k"
  using l i n unfolding levels_def by (auto simp: nth_eq_iff_index_eq)

lemma settle_quiet:
  assumes "distinct ss" and l: "levels h ss rs S k" and i: "i < length ss" "i \<notin> S" "k \<le> i"
  shows "\<exists>h'. exec_cmd run runFail h (SetResult (ss ! i) (level_result ss rs i)) = Some h' \<and>
    h' = with_state h (ss ! i) ((f_states h ! (ss ! i))\<lparr>f_result := Some (level_result ss rs i)\<rparr>) \<and>
    levels h' ss rs (insert i S) k"
  using level_set[OF assms(1) l i(1)] l i by (auto simp: levels_def exec_SetResult Let_def)

lemma settle_before:
  assumes "distinct ss" and "levels h ss rs S 0" and "distinct order" and "set order \<subseteq> {..<length ss} - S"
  shows "\<exists>h'. settle_levels run runFail h ss rs order = Some h' \<and> levels h' ss rs (S \<union> set order) 0"
  using assms(2-)
proof (induction order arbitrary: h S)
  case (Cons i order)
  from settle_quiet[OF assms(1) Cons.prems(1), of i run runFail] Cons.prems(3)
  obtain h1 where h1: "exec_cmd run runFail h (SetResult (ss ! i) (level_result ss rs i)) = Some h1"
    "levels h1 ss rs (insert i S) 0" by auto
  have "set order \<subseteq> {..<length ss} - insert i S" using Cons.prems by auto
  with Cons.IH[OF h1(2)] Cons.prems(2) h1(1) show ?case by auto
qed simp

lemma settle_done_inv:
  assumes n: "nested ss rs u" and inv: "unwrap_done h ss rs u S" and i: "i < length ss" "i \<notin> S"
  shows "\<exists>h'. exec_cmd run runFail h (SetResult (ss ! i) (level_result ss rs i)) = Some h' \<and>
    unwrap_inv h' ss rs u (insert i S)"
proof -
  have d: "distinct ss" and ui: "ss ! i \<noteq> u" using n i by (auto simp: nested_def)
  obtain k where r: "f_result (f_states h ! u) = Some (flattened rs)"
    and k: "k \<le> length ss" "{..<k} \<subseteq> S" "levels h ss rs S k" using inv by (auto simp: unwrap_done_def)
  have "k \<le> i" using k(2) i(2) by (meson lessThan_iff not_le subsetD)
  from settle_quiet[OF d k(3) i this, of run runFail]
  obtain h' where x: "exec_cmd run runFail h (SetResult (ss ! i) (level_result ss rs i)) = Some h'"
    "h' = with_state h (ss ! i) ((f_states h ! (ss ! i))\<lparr>f_result := Some (level_result ss rs i)\<rparr>)"
    "levels h' ss rs (insert i S) k" by blast
  have "unwrap_done h' ss rs u (insert i S)"
    unfolding unwrap_done_def using x(2,3) r k(1,2) ui by auto
  then show ?thesis using x(1) unfolding unwrap_inv_def by blast
qed

lemma settle_level_inv:
  assumes n: "nested ss rs u" and inv: "unwrap_inv h ss rs u S" and i: "i < length ss" "i \<notin> S"
  shows "\<exists>h'. exec_cmd run runFail h (SetResult (ss ! i) (level_result ss rs i)) = Some h' \<and>
    unwrap_inv h' ss rs u (insert i S)"
proof -
  have d: "distinct ss" and ui: "ss ! i \<noteq> u" using n i by (auto simp: nested_def)
  let ?h = "with_state h (ss ! i) ((f_states h ! (ss ! i))\<lparr>f_result := Some (level_result ss rs i)\<rparr>)"
  from inv have "unwrap_done h ss rs u S \<or> (\<exists>j. unwrap_at h ss rs u S j)" by (simp add: unwrap_inv_def)
  then show ?thesis
  proof (elim disjE exE)
    assume "unwrap_done h ss rs u S"
    from settle_done_inv[OF n this i] show ?thesis .
  next
    fix j assume at: "unwrap_at h ss rs u S j"
    then have j: "j < length ss" "j \<notin> S" "{..<j} \<subseteq> S" "levels h ss rs S (Suc j)" "fresh_end h u"
      "f_callback (f_states h ! (ss ! j)) = Some (Unwrapper (length ss - 1 - j) u)"
      and nisl: "\<And>k. k < j \<Longrightarrow> \<not> isl (rs ! k)" by (auto simp: unwrap_at_def)
    have "j \<le> i" using j(3) i(2) by (meson lessThan_iff not_le subsetD)
    have l: "levels ?h ss rs (insert i S) (Suc j)" by (rule level_set[OF d j(4) i(1)])
    have f: "fresh_end ?h u" using j(5) ui by (auto simp: fresh_end_def)
    show ?thesis
    proof (cases "i = j")
      case True
      have len: "ss ! j < length (f_states h)" "f_result (f_states h ! (ss ! j)) = None"
        using j by (auto simp: levels_def)
      have "{..j} \<subseteq> insert i S" using j(3) True by (auto simp: order_le_less)
      from unwrap_advances[OF n l f j(1) this nisl, of run runFail] obtain h1 c h2 where
        a: "futureReady run runFail ?h (Unwrapper (length ss - 1 - j) u) (level_result ss rs i) = Some (h1, Some c)"
        "exec_cmd run runFail h1 c = Some h2" "unwrap_inv h2 ss rs u (insert i S)"
        using True by blast
      have "exec_cmd run runFail h (SetResult (ss ! i) (level_result ss rs i)) = exec_cmd run runFail h1 c"
        by (rule exec_SetResult_called[OF _ _ _ a(1)]) (use len j(6) True in auto)
      then show ?thesis using a by (auto simp: unwrap_inv_def)
    next
      case False
      then have "Suc j \<le> i" using \<open>j \<le> i\<close> by simp
      from settle_quiet[OF d j(4) i this, of run runFail]
      have x: "exec_cmd run runFail h (SetResult (ss ! i) (level_result ss rs i)) = Some ?h" by auto
      have "ss ! i \<noteq> ss ! j" using False d i(1) j(1) by (simp add: nth_eq_iff_index_eq)
      then have "unwrap_at ?h ss rs u (insert i S) j"
        using j nisl l f False unfolding unwrap_at_def by auto
      then show ?thesis using x unfolding unwrap_inv_def by blast
    qed
  qed
qed

lemma settle_after:
  assumes n: "nested ss rs u" and "unwrap_inv h ss rs u S" and "distinct order"
    and "set order \<subseteq> {..<length ss} - S"
  shows "\<exists>h'. settle_levels run runFail h ss rs order = Some h' \<and> unwrap_inv h' ss rs u (S \<union> set order)"
  using assms(2-)
proof (induction order arbitrary: h S)
  case (Cons i order)
  from settle_level_inv[OF n Cons.prems(1), of i run runFail] Cons.prems(3)
  obtain h1 where h1: "exec_cmd run runFail h (SetResult (ss ! i) (level_result ss rs i)) = Some h1"
    "unwrap_inv h1 ss rs u (insert i S)" by auto
  have "set order \<subseteq> {..<length ss} - insert i S" using Cons.prems by auto
  with Cons.IH[OF h1(2)] Cons.prems(2) h1(1) show ?case by auto
qed simp

lemma unwrap_starts:
  assumes d: "distinct ss" "length rs = length ss" "2 \<le> length ss" and l: "levels h ss rs S 0"
  shows "\<exists>h'. unwrap run runFail h (future_of (ss ! 0)) (length ss - 1) =
      Some (h', \<lparr>fu_state = None, fu_event = None\<rparr>, Inr (future_of (length (f_states h)))) \<and>
    nested ss rs (length (f_states h)) \<and> unwrap_inv h' ss rs (length (f_states h)) S"
proof -
  let ?u = "length (f_states h)" and ?d = "length ss - 1 - 0"
  let ?h1 = "fst (new_state h (f_cancelled (f_states h ! (ss ! 0))))"
  have lt: "ss ! i < ?u" if "i < length ss" for i using l that by (auto simp: levels_def)
  have "ss \<noteq> []" using d(3) by (cases ss) simp_all
  then have n: "nested ss rs ?u" using d by (auto simp: nested_def in_set_conv_nth dest: lt)
  let ?h2 = "with_state ?h1 (ss ! 0) ((f_states ?h1 ! (ss ! 0))\<lparr>f_callback := Some (Unwrapper ?d ?u)\<rparr>)"
  have z: "0 < length ss" using d(3) by linarith
  have n1: "length (f_states ?h1) = Suc ?u" "\<And>i. i < ?u \<Longrightarrow> f_states ?h1 ! i = f_states h ! i" "fresh_end ?h1 ?u"
    by (auto simp: new_state_def nth_append fresh_end_def)
  have l1: "levels ?h1 ss rs S 0" unfolding levels_def
  proof (intro allI impI)
    fix i assume i: "i < length ss"
    show "ss ! i < length (f_states ?h1) \<and>
      f_result (f_states ?h1 ! (ss ! i)) = (if i \<in> S then Some (level_result ss rs i) else None) \<and>
      (0 \<le> i \<longrightarrow> f_callback (f_states ?h1 ! (ss ! i)) = None)"
      using l i lt[OF i] n1(1) n1(2)[OF lt[OF i]] unfolding levels_def by (simp add: less_SucI)
  qed
  have l2: "levels ?h2 ss rs S (Suc 0)"
    by (rule levels_cong[OF l1]) (use d z in \<open>auto simp: nth_eq_iff_index_eq\<close>)
  have f2: "fresh_end ?h2 ?u" using n1(3) lt[OF z] by (auto simp: fresh_end_def)
  have zero: "ss ! 0 < length (f_states ?h1)" "f_callback (f_states ?h1 ! (ss ! 0)) = None"
    "f_result (f_states ?h1 ! (ss ! 0)) = (if 0 \<in> S then Some (level_result ss rs 0) else None)"
    using l1 z by (auto simp: levels_def)
  have "\<exists>h3. exec_cmd run runFail ?h1 (SetCallback (ss ! 0) (Unwrapper ?d ?u)) = Some h3 \<and> unwrap_inv h3 ss rs ?u S"
  proof (cases "0 \<in> S")
    case True
    then have "{..0} \<subseteq> S" by simp
    from unwrap_advances[OF n l2 f2 z this, of run runFail] obtain h3 c h4 where
      a: "futureReady run runFail ?h2 (Unwrapper ?d ?u) (level_result ss rs 0) = Some (h3, Some c)"
      "exec_cmd run runFail h3 c = Some h4" "unwrap_inv h4 ss rs ?u S" by blast
    have "exec_cmd run runFail ?h1 (SetCallback (ss ! 0) (Unwrapper ?d ?u)) = exec_cmd run runFail h3 c"
      by (rule exec_SetCallback_called[OF zero(1,2) _ a(1)]) (use zero(3) True in simp)
    then show ?thesis using a by simp
  next
    case False
    have "unwrap_at ?h2 ss rs ?u S 0" unfolding unwrap_at_def using l2 f2 z zero(1) False by auto
    then show ?thesis using zero False by (auto simp: exec_SetCallback Let_def unwrap_inv_def)
  qed
  then show ?thesis using n d
    by (auto simp: unwrap_def attach_callback_def isWaitFuture_def detachState_def future_of_def new_state_def)
qed

text \<open>
  C18: The states ss are futures in futures: each but the last gets the next one as its value, or
  an exception. Some of them become ready (o1), then the outermost is unwrapped, then the others
  become ready (o2), in any order. No assertion fails, and the unwrapped future ends with the
  exception of the first level that failed, or with the innermost value.
\<close>

theorem unwrap_flattens:
  assumes "distinct ss" and "length rs = length ss" and "2 \<le> length ss"
    and "\<And>i. i < length ss \<Longrightarrow> ss ! i < length (f_states h) \<and>
      f_result (f_states h ! (ss ! i)) = None \<and> f_callback (f_states h ! (ss ! i)) = None"
    and "distinct (o1 @ o2)" and "set (o1 @ o2) = {..<length ss}"
  shows "\<exists>h1 h2 u h3. settle_levels run runFail h ss rs o1 = Some h1 \<and>
    unwrap run runFail h1 (future_of (ss ! 0)) (length ss - 1) =
      Some (h2, \<lparr>fu_state = None, fu_event = None\<rparr>, Inr (future_of u)) \<and>
    settle_levels run runFail h2 ss rs o2 = Some h3 \<and>
    f_result (f_states h3 ! u) = Some (flattened rs)"
proof -
  have l: "levels h ss rs {} 0" using assms(4) by (auto simp: levels_def)
  have o1: "distinct o1" "set o1 \<subseteq> {..<length ss} - {}" using assms(5,6) by auto
  from settle_before[OF assms(1) l this, of run runFail] obtain h1 where
    h1: "settle_levels run runFail h ss rs o1 = Some h1" "levels h1 ss rs (set o1) 0" by auto
  from unwrap_starts[OF assms(1-3) h1(2), of run runFail] obtain h2 u where
    h2: "unwrap run runFail h1 (future_of (ss ! 0)) (length ss - 1) =
      Some (h2, \<lparr>fu_state = None, fu_event = None\<rparr>, Inr (future_of u))"
      "nested ss rs u" "unwrap_inv h2 ss rs u (set o1)" by blast
  have o2: "distinct o2" "set o2 \<subseteq> {..<length ss} - set o1" using assms(5,6) by auto
  from settle_after[OF h2(2,3) this, of run runFail] obtain h3 where
    h3: "settle_levels run runFail h2 ss rs o2 = Some h3" "unwrap_inv h3 ss rs u (set o1 \<union> set o2)" by blast
  have "set o1 \<union> set o2 = {..<length ss}" using assms(6) by simp
  then have "f_result (f_states h3 ! u) = Some (flattened rs)"
    using h3(2) unfolding unwrap_inv_def unwrap_done_def unwrap_at_def by auto
  then show ?thesis using h1(1) h2(1) h3(1) by blast
qed

definition empty_heap :: "(nat, nat, nat) fheap" where
  "empty_heap = \<lparr>f_states = [], f_tokens = [], f_events = []\<rparr>"

definition two_states :: "(nat, nat, nat) fheap" where
  "two_states = fst (new_promise_state (fst (new_promise_state empty_heap)))"

theorem unwrap_flattens_witness:
  "\<exists>h1 h2 u h3. settle_levels (\<lambda>_. Inr) (\<lambda>_. Inl) two_states [0, 1] [Inr 0, Inr 7] [1] = Some h1 \<and>
    unwrap (\<lambda>_. Inr) (\<lambda>_. Inl) h1 (future_of 0) 1 =
      Some (h2, \<lparr>fu_state = None, fu_event = None\<rparr>, Inr (future_of u)) \<and>
    settle_levels (\<lambda>_. Inr) (\<lambda>_. Inl) h2 [0, 1] [Inr 0, Inr 7] [0] = Some h3 \<and>
    f_result (f_states h3 ! u) = Some (Inr (Plain 7))"
proof -
  have "length [0, 1::nat] - 1 = 1" "[0, 1::nat] ! 0 = 0" by simp_all
  moreover have "flattened [Inr 0, Inr 7] = (Inr (Plain 7) :: (nat, nat) future_result)" by simp
  moreover have "i = 0 \<or> i = 1" if "i < length [0, 1::nat]" for i using that by auto
  then have "[0, 1] ! i < length (f_states two_states) \<and> f_result (f_states two_states ! ([0, 1] ! i)) = None \<and>
      f_callback (f_states two_states ! ([0, 1] ! i)) = None" if "i < length [0, 1::nat]" for i
    using that by (fastforce simp: two_states_def empty_heap_def new_promise_state_def new_state_def)
  then have "\<exists>h1 h2 u h3. settle_levels (\<lambda>_. Inr) (\<lambda>_. Inl) two_states [0, 1] [Inr 0, Inr 7] [1] = Some h1 \<and>
    unwrap (\<lambda>_. Inr) (\<lambda>_. Inl) h1 (future_of ([0, 1] ! 0)) (length [0, 1::nat] - 1) =
      Some (h2, \<lparr>fu_state = None, fu_event = None\<rparr>, Inr (future_of u)) \<and>
    settle_levels (\<lambda>_. Inr) (\<lambda>_. Inl) h2 [0, 1] [Inr 0, Inr 7] [0] = Some h3 \<and>
    f_result (f_states h3 ! u) = Some (flattened [Inr 0, Inr 7])"
    by (intro unwrap_flattens) (auto simp: less_Suc_eq)
  ultimately show ?thesis by (simp only:)
qed

end
