(* ===== verification/Promise.thy ===== *)
theory Promise
  imports FutureChain
begin

text \<open>
  include/nhope/async/future.h: Promise with its two flags, moves and destructor, and the
  helpers makePromise, makeReadyFuture, makeExceptionalFuture, resolvePromises and
  rejectPromises. The states are those of the store of Future; None is a failed assertion or
  the use of a null state.
\<close>

section \<open>Promises\<close>

datatype promise_error = PromiseAlreadySatisfiedError | FutureAlreadyRetrievedError

record promise =
  p_state :: "nat option"
  m_satisfiedFlag :: bool
  m_retrievedFlag :: bool

definition promise_make :: "('v, 'e, 'f) fheap \<Rightarrow> ('v, 'e, 'f) fheap \<times> promise" where
  "promise_make h = (let (h, s) = new_promise_state h in
     (h, \<lparr>p_state = Some s, m_satisfiedFlag = False, m_retrievedFlag = False\<rparr>))"

text \<open>setValue and setException: the flag is set before the state gets the result.\<close>

definition promise_set :: "('f \<Rightarrow> 'v future_value \<Rightarrow> ('v, 'e) future_result) \<Rightarrow>
    ('f \<Rightarrow> 'e future_exn \<Rightarrow> ('v, 'e) future_result) \<Rightarrow> ('v, 'e, 'f) fheap \<Rightarrow> promise \<Rightarrow>
    ('v, 'e) future_result \<Rightarrow> (('v, 'e, 'f) fheap \<times> promise \<times> (promise_error + unit)) option" where
  "promise_set run runFail h p r =
     (if m_satisfiedFlag p then Some (h, p, Inl PromiseAlreadySatisfiedError)
      else case p_state p of
        None \<Rightarrow> None
      | Some s \<Rightarrow> map_option (\<lambda>h. (h, p\<lparr>m_satisfiedFlag := True\<rparr>, Inr ()))
          (exec_cmd run runFail h (SetResult s r)))"

definition promise_destroy :: "('f \<Rightarrow> 'v future_value \<Rightarrow> ('v, 'e) future_result) \<Rightarrow>
    ('f \<Rightarrow> 'e future_exn \<Rightarrow> ('v, 'e) future_result) \<Rightarrow> ('v, 'e, 'f) fheap \<Rightarrow> promise \<Rightarrow>
    ('v, 'e, 'f) fheap option" where
  "promise_destroy run runFail h p =
     (if m_satisfiedFlag p then Some h
      else map_option fst (promise_set run runFail h p (Inl BrokenPromiseError)))"

text \<open>Move construction and assignment: the source is left satisfied and retrieved.\<close>

definition moved_from :: promise where
  "moved_from = \<lparr>p_state = None, m_satisfiedFlag = True, m_retrievedFlag = True\<rparr>"

definition promise_move :: "promise \<Rightarrow> promise \<times> promise" where
  "promise_move other = (other, moved_from)"

definition promise_assign :: "promise \<Rightarrow> promise \<Rightarrow> promise \<times> promise" where
  "promise_assign this other =
     (this\<lparr>p_state := p_state other, m_satisfiedFlag := m_satisfiedFlag other,
        m_retrievedFlag := m_retrievedFlag other\<rparr>, moved_from)"

text \<open>p = std::move(p): the flags survive, but RefPtr's move assignment leaves a null pointer.\<close>

definition promise_self_assign :: "promise \<Rightarrow> promise" where
  "promise_self_assign this = this\<lparr>p_state := None\<rparr>"

text \<open>future(): the assertion of the constructor of Future wants a state.\<close>

definition promise_future :: "promise \<Rightarrow> (promise \<times> (promise_error + future)) option" where
  "promise_future p =
     (if m_retrievedFlag p then Some (p, Inl FutureAlreadyRetrievedError)
      else case p_state p of
        None \<Rightarrow> None
      | Some s \<Rightarrow> Some (p\<lparr>m_retrievedFlag := True\<rparr>, Inr (future_of s)))"

definition promise_cancelled :: "('v, 'e, 'f) fheap \<Rightarrow> promise \<Rightarrow> bool option" where
  "promise_cancelled h p = map_option (wasCancelled h) (p_state p)"

text \<open>makeReadyFuture and makeExceptionalFuture; the local promise is destroyed at the end.\<close>

definition makeReadyFuture :: "('f \<Rightarrow> 'v future_value \<Rightarrow> ('v, 'e) future_result) \<Rightarrow>
    ('f \<Rightarrow> 'e future_exn \<Rightarrow> ('v, 'e) future_result) \<Rightarrow> ('v, 'e, 'f) fheap \<Rightarrow> 'v future_value \<Rightarrow>
    (('v, 'e, 'f) fheap \<times> (promise_error + future)) option" where
  "makeReadyFuture run runFail h v =
     (let (h, p) = promise_make h in
      case promise_set run runFail h p (Inr v) of
        Some (h, p, Inr _) \<Rightarrow> (case promise_future p of
            Some (p, r) \<Rightarrow> map_option (\<lambda>h. (h, r)) (promise_destroy run runFail h p)
          | None \<Rightarrow> None)
      | Some (h, p, Inl e) \<Rightarrow> map_option (\<lambda>h. (h, Inl e)) (promise_destroy run runFail h p)
      | None \<Rightarrow> None)"

definition makeExceptionalFuture :: "('f \<Rightarrow> 'v future_value \<Rightarrow> ('v, 'e) future_result) \<Rightarrow>
    ('f \<Rightarrow> 'e future_exn \<Rightarrow> ('v, 'e) future_result) \<Rightarrow> ('v, 'e, 'f) fheap \<Rightarrow> 'e future_exn \<Rightarrow>
    (('v, 'e, 'f) fheap \<times> (promise_error + future)) option" where
  "makeExceptionalFuture run runFail h ex =
     (let (h, p) = promise_make h in
      case promise_future p of
        Some (p, Inr fu) \<Rightarrow> (case promise_set run runFail h p (Inl ex) of
            Some (h, p, Inr _) \<Rightarrow> map_option (\<lambda>h. (h, Inr fu)) (promise_destroy run runFail h p)
          | Some (h, p, Inl e) \<Rightarrow> map_option (\<lambda>h. (h, Inl e)) (promise_destroy run runFail h p)
          | None \<Rightarrow> None)
      | Some (p, Inl e) \<Rightarrow> map_option (\<lambda>h. (h, Inl e)) (promise_destroy run runFail h p)
      | None \<Rightarrow> None)"

text \<open>resolvePromises and rejectPromises: an exception leaves the container as it is then.\<close>

fun resolve_loop :: "('f \<Rightarrow> 'v future_value \<Rightarrow> ('v, 'e) future_result) \<Rightarrow>
    ('f \<Rightarrow> 'e future_exn \<Rightarrow> ('v, 'e) future_result) \<Rightarrow> ('v, 'e, 'f) fheap \<Rightarrow> promise list \<Rightarrow>
    ('v, 'e) future_result \<Rightarrow> (('v, 'e, 'f) fheap \<times> promise list \<times> (promise_error + unit)) option" where
  "resolve_loop run runFail h [] r = Some (h, [], Inr ())"
| "resolve_loop run runFail h (p # ps) r = (case promise_set run runFail h p r of
     None \<Rightarrow> None
   | Some (h, p, Inl e) \<Rightarrow> Some (h, p # ps, Inl e)
   | Some (h, p, Inr _) \<Rightarrow> (case resolve_loop run runFail h ps r of
       None \<Rightarrow> None | Some (h, ps, res) \<Rightarrow> Some (h, p # ps, res)))"

fun destroy_all :: "('f \<Rightarrow> 'v future_value \<Rightarrow> ('v, 'e) future_result) \<Rightarrow>
    ('f \<Rightarrow> 'e future_exn \<Rightarrow> ('v, 'e) future_result) \<Rightarrow> ('v, 'e, 'f) fheap \<Rightarrow> promise list \<Rightarrow>
    ('v, 'e, 'f) fheap option" where
  "destroy_all run runFail h [] = Some h"
| "destroy_all run runFail h (p # ps) =
     Option.bind (promise_destroy run runFail h p) (\<lambda>h. destroy_all run runFail h ps)"

definition resolvePromises :: "('f \<Rightarrow> 'v future_value \<Rightarrow> ('v, 'e) future_result) \<Rightarrow>
    ('f \<Rightarrow> 'e future_exn \<Rightarrow> ('v, 'e) future_result) \<Rightarrow> ('v, 'e, 'f) fheap \<Rightarrow> promise list \<Rightarrow>
    ('v, 'e) future_result \<Rightarrow> (('v, 'e, 'f) fheap \<times> promise list \<times> (promise_error + unit)) option" where
  "resolvePromises run runFail h ps r = (case resolve_loop run runFail h ps r of
     None \<Rightarrow> None
   | Some (h, ps, Inl e) \<Rightarrow> Some (h, ps, Inl e)
   | Some (h, ps, Inr _) \<Rightarrow> map_option (\<lambda>h. (h, [], Inr ())) (destroy_all run runFail h ps))"

section \<open>A program with promises\<close>

text \<open>
  Programs that make promises in variables, move, fulfil, retrieve and destroy them. An
  operation on a variable that does not exist does nothing.
\<close>

datatype ('v, 'e) promise_op =
    MakeP nat
  | MoveP nat nat                          \<comment> \<open>new variable, from\<close>
  | AssignP nat nat                        \<comment> \<open>to, from\<close>
  | SetP nat "('v, 'e) future_result"
  | FutureP nat
  | DestroyP nat

record ('v, 'e, 'f) promise_prog =
  pg_heap :: "('v, 'e, 'f) fheap"
  pg_vars :: "nat \<rightharpoonup> promise"

fun promise_step :: "('f \<Rightarrow> 'v future_value \<Rightarrow> ('v, 'e) future_result) \<Rightarrow>
    ('f \<Rightarrow> 'e future_exn \<Rightarrow> ('v, 'e) future_result) \<Rightarrow> ('v, 'e) promise_op \<Rightarrow>
    ('v, 'e, 'f) promise_prog \<Rightarrow> ('v, 'e, 'f) promise_prog option" where
  "promise_step run runFail (MakeP x) g = (case pg_vars g x of
     Some _ \<Rightarrow> Some g
   | None \<Rightarrow> (let (h, p) = promise_make (pg_heap g) in
       Some \<lparr>pg_heap = h, pg_vars = (pg_vars g)(x \<mapsto> p)\<rparr>))"
| "promise_step run runFail (MoveP x y) g = (case (pg_vars g x, pg_vars g y) of
     (None, Some q) \<Rightarrow> (let (p, q) = promise_move q in Some (g\<lparr>pg_vars := (pg_vars g)(x \<mapsto> p, y \<mapsto> q)\<rparr>))
   | _ \<Rightarrow> Some g)"
| "promise_step run runFail (AssignP x y) g = (case (pg_vars g x, pg_vars g y) of
     (Some p, Some q) \<Rightarrow>
       (if x = y then Some (g\<lparr>pg_vars := (pg_vars g)(x \<mapsto> promise_self_assign p)\<rparr>)
        else let (p, q) = promise_assign p q in Some (g\<lparr>pg_vars := (pg_vars g)(x \<mapsto> p, y \<mapsto> q)\<rparr>))
   | _ \<Rightarrow> Some g)"
| "promise_step run runFail (SetP x r) g = (case pg_vars g x of
     None \<Rightarrow> Some g
   | Some p \<Rightarrow> map_option (\<lambda>(h, p, _). \<lparr>pg_heap = h, pg_vars = (pg_vars g)(x \<mapsto> p)\<rparr>)
       (promise_set run runFail (pg_heap g) p r))"
| "promise_step run runFail (FutureP x) g = (case pg_vars g x of
     None \<Rightarrow> Some g
   | Some p \<Rightarrow> map_option (\<lambda>(p, _). g\<lparr>pg_vars := (pg_vars g)(x \<mapsto> p)\<rparr>) (promise_future p))"
| "promise_step run runFail (DestroyP x) g = (case pg_vars g x of
     None \<Rightarrow> Some g
   | Some p \<Rightarrow> map_option (\<lambda>h. \<lparr>pg_heap = h, pg_vars = (pg_vars g)(x := None)\<rparr>)
       (promise_destroy run runFail (pg_heap g) p))"

fun promise_run :: "('f \<Rightarrow> 'v future_value \<Rightarrow> ('v, 'e) future_result) \<Rightarrow>
    ('f \<Rightarrow> 'e future_exn \<Rightarrow> ('v, 'e) future_result) \<Rightarrow> ('v, 'e) promise_op list \<Rightarrow>
    ('v, 'e, 'f) promise_prog \<Rightarrow> ('v, 'e, 'f) promise_prog option" where
  "promise_run run runFail [] g = Some g"
| "promise_run run runFail (a # as) g =
     Option.bind (promise_step run runFail a g) (promise_run run runFail as)"

text \<open>
  keeps_promises: no move assignment goes to a promise that is not yet satisfied (it would give
  up the state without a result), and none to itself before the future was taken.
\<close>

fun keeps_promise :: "('v, 'e) promise_op \<Rightarrow> ('v, 'e, 'f) promise_prog \<Rightarrow> bool" where
  "keeps_promise (AssignP x y) g = (pg_vars g y = None \<or>
     (case pg_vars g x of None \<Rightarrow> True
      | Some p \<Rightarrow> m_satisfiedFlag p \<and> (x = y \<longrightarrow> m_retrievedFlag p)))"
| "keeps_promise _ g = True"

fun keeps_promises :: "('f \<Rightarrow> 'v future_value \<Rightarrow> ('v, 'e) future_result) \<Rightarrow>
    ('f \<Rightarrow> 'e future_exn \<Rightarrow> ('v, 'e) future_result) \<Rightarrow> ('v, 'e) promise_op list \<Rightarrow>
    ('v, 'e, 'f) promise_prog \<Rightarrow> bool" where
  "keeps_promises run runFail [] g = True"
| "keeps_promises run runFail (a # as) g = (keeps_promise a g \<and>
     (case promise_step run runFail a g of None \<Rightarrow> True | Some g \<Rightarrow> keeps_promises run runFail as g))"

definition owes :: "('v, 'e, 'f) promise_prog \<Rightarrow> nat \<Rightarrow> nat \<Rightarrow> bool" where
  "owes g x s = (\<exists>p. pg_vars g x = Some p \<and> \<not> m_satisfiedFlag p \<and> p_state p = Some s)"

definition promise_inv :: "('v, 'e, 'f) promise_prog \<Rightarrow> bool" where
  "promise_inv g \<longleftrightarrow>
     (\<forall>st\<in>set (f_states (pg_heap g)). f_callback st = None) \<and>
     (\<forall>x p. pg_vars g x = Some p \<longrightarrow> (m_satisfiedFlag p \<or> p_state p \<noteq> None) \<and> (m_retrievedFlag p \<or> p_state p \<noteq> None)) \<and>
     (\<forall>s. (\<exists>x. owes g x s) \<longleftrightarrow> s < length (f_states (pg_heap g)) \<and> f_result (f_states (pg_heap g) ! s) = None) \<and>
     (\<forall>x y s. owes g x s \<longrightarrow> owes g y s \<longrightarrow> x = y)"

lemma exec_quiet:
  assumes "s < length (f_states h)" and "f_result (f_states h ! s) = None" and "f_callback (f_states h ! s) = None"
  shows "exec_cmd run runFail h (SetResult s r) = Some (with_state h s ((f_states h ! s)\<lparr>f_result := Some r\<rparr>))"
  using assms by (simp add: exec_SetResult Let_def)

text \<open>Fulfilling: the variable x stops owing its state s, which has a result now.\<close>

lemma promise_inv_fulfil:
  assumes inv: "promise_inv g" and x: "pg_vars g x = Some p" "\<not> m_satisfiedFlag p" "p_state p = Some s"
    and v: "v = None \<or> v = Some (p\<lparr>m_satisfiedFlag := True\<rparr>)"
  shows "exec_cmd run runFail (pg_heap g) (SetResult s r) =
      Some (with_state (pg_heap g) s ((f_states (pg_heap g) ! s)\<lparr>f_result := Some r\<rparr>)) \<and>
    promise_inv \<lparr>pg_heap = with_state (pg_heap g) s ((f_states (pg_heap g) ! s)\<lparr>f_result := Some r\<rparr>),
      pg_vars = (pg_vars g)(x := v)\<rparr>"
proof -
  let ?h = "pg_heap g"
  let ?g = "\<lparr>pg_heap = with_state ?h s ((f_states ?h ! s)\<lparr>f_result := Some r\<rparr>), pg_vars = (pg_vars g)(x := v)\<rparr>
    :: ('a, 'b, 'c) promise_prog"
  have o: "owes g x s" using x by (auto simp: owes_def)
  have s: "s < length (f_states ?h)" "f_result (f_states ?h ! s) = None"
    using inv o unfolding promise_inv_def by blast+
  have c: "f_callback (f_states ?h ! s) = None" using inv s unfolding promise_inv_def by auto
  have ow: "owes ?g y t \<longleftrightarrow> owes g y t \<and> y \<noteq> x" for y t using v by (auto simp: owes_def)
  have sx: "owes g y t \<Longrightarrow> (t = s) = (y = x)" for y t
    using inv o x unfolding promise_inv_def owes_def by (metis option.inject)
  have "promise_inv ?g" unfolding promise_inv_def
  proof (intro conjI)
    show "\<forall>st\<in>set (f_states (pg_heap ?g)). f_callback st = None"
      using inv c unfolding promise_inv_def by (auto simp: with_state_def dest!: set_update_subset_insert[THEN subsetD])
    show "\<forall>x p. pg_vars ?g x = Some p \<longrightarrow> (m_satisfiedFlag p \<or> p_state p \<noteq> None) \<and> (m_retrievedFlag p \<or> p_state p \<noteq> None)"
      using inv v x unfolding promise_inv_def by auto
    show "\<forall>t. (\<exists>y. owes ?g y t) \<longleftrightarrow> t < length (f_states (pg_heap ?g)) \<and> f_result (f_states (pg_heap ?g) ! t) = None"
    proof
      fix t
      have "(\<exists>y. owes ?g y t) \<longleftrightarrow> (\<exists>y. owes g y t) \<and> t \<noteq> s" unfolding ow using sx by blast
      then show "(\<exists>y. owes ?g y t) \<longleftrightarrow> t < length (f_states (pg_heap ?g)) \<and> f_result (f_states (pg_heap ?g) ! t) = None"
        using inv unfolding promise_inv_def by auto
    qed
    show "\<forall>y z t. owes ?g y t \<longrightarrow> owes ?g z t \<longrightarrow> y = z"
      using inv unfolding promise_inv_def ow by blast
  qed
  then show ?thesis using exec_quiet[OF s c] by blast
qed

text \<open>Changes that only pass the debts on to other variables.\<close>

lemma promise_inv_vars:
  assumes inv: "promise_inv g"
    and "\<And>x p. vs x = Some p \<Longrightarrow> (m_satisfiedFlag p \<or> p_state p \<noteq> None) \<and> (m_retrievedFlag p \<or> p_state p \<noteq> None)"
    and "\<And>x s. owes (g\<lparr>pg_vars := vs\<rparr>) x s \<longleftrightarrow> owes g (f x) s" and "inj f" and "\<And>x s. owes g x s \<Longrightarrow> \<exists>y. x = f y"
  shows "promise_inv (g\<lparr>pg_vars := vs\<rparr>)"
proof -
  have "(\<exists>x. owes (g\<lparr>pg_vars := vs\<rparr>) x s) \<longleftrightarrow> (\<exists>x. owes g x s)" for s using assms(3,5) by metis
  then show ?thesis using inv assms(2-4) unfolding promise_inv_def by (simp add: inj_def; blast?)
qed

lemma promise_inv_make:
  assumes inv: "promise_inv g" and x: "pg_vars g x = None"
  shows "promise_inv \<lparr>pg_heap = fst (promise_make (pg_heap g)),
    pg_vars = (pg_vars g)(x \<mapsto> snd (promise_make (pg_heap g)))\<rparr>"
proof -
  let ?h = "pg_heap g" let ?n = "length (f_states ?h)"
  let ?g = "\<lparr>pg_heap = fst (promise_make ?h), pg_vars = (pg_vars g)(x \<mapsto> snd (promise_make ?h))\<rparr>"
  have mk: "snd (promise_make ?h) = \<lparr>p_state = Some ?n, m_satisfiedFlag = False, m_retrievedFlag = False\<rparr>"
    "f_states (fst (promise_make ?h)) =
      f_states ?h @ [\<lparr>f_result = None, f_callback = None, f_cancelled = length (f_tokens ?h)\<rparr>]"
    by (auto simp: promise_make_def new_promise_state_def new_state_def)
  have ow: "owes ?g y t \<longleftrightarrow> owes g y t \<or> y = x \<and> t = ?n" for y t
    using x mk(1) by (auto simp: owes_def)
  have nx: "\<not> owes g x t" "owes g y t \<Longrightarrow> t < ?n" for y t
    using x inv unfolding promise_inv_def by (simp add: owes_def, blast)
  show ?thesis unfolding promise_inv_def
  proof (intro conjI)
    show "\<forall>t. (\<exists>y. owes ?g y t) \<longleftrightarrow> t < length (f_states (pg_heap ?g)) \<and> f_result (f_states (pg_heap ?g) ! t) = None"
    proof
      fix t
      have "(\<exists>y. owes ?g y t) \<longleftrightarrow> (t < ?n \<and> f_result (f_states ?h ! t) = None) \<or> t = ?n"
        using inv unfolding ow promise_inv_def by blast
      then show "(\<exists>y. owes ?g y t) \<longleftrightarrow> t < length (f_states (pg_heap ?g)) \<and> f_result (f_states (pg_heap ?g) ! t) = None"
        using mk(2) by (auto simp: nth_append)
    qed
    show "\<forall>y z t. owes ?g y t \<longrightarrow> owes ?g z t \<longrightarrow> y = z"
      using inv nx unfolding promise_inv_def ow by (metis nat_neq_iff)
  qed (use inv mk in \<open>auto simp: promise_inv_def\<close>)
qed

text \<open>A move hands the debt of y on to x, which had none.\<close>

lemma promise_inv_hand_over:
  assumes inv: "promise_inv g" and q: "pg_vars g y = Some q" "x \<noteq> y" and x: "\<And>s. \<not> owes g x s"
  shows "promise_inv (g\<lparr>pg_vars := (pg_vars g)(x \<mapsto> q, y \<mapsto> moved_from)\<rparr>)"
proof (rule promise_inv_vars[OF inv, where f = "id(x := y, y := x)"])
  have "(m_satisfiedFlag q \<or> p_state q \<noteq> None) \<and> (m_retrievedFlag q \<or> p_state q \<noteq> None)"
    using inv q(1) unfolding promise_inv_def by blast
  then show "(m_satisfiedFlag p \<or> p_state p \<noteq> None) \<and> (m_retrievedFlag p \<or> p_state p \<noteq> None)"
    if "((pg_vars g)(x \<mapsto> q, y \<mapsto> moved_from)) z = Some p" for z p
    using that inv unfolding promise_inv_def by (auto simp: moved_from_def split: if_splits)
  show "owes (g\<lparr>pg_vars := (pg_vars g)(x \<mapsto> q, y \<mapsto> moved_from)\<rparr>) z s \<longleftrightarrow> owes g ((id(x := y, y := x)) z) s" for z s
    using q x[of s] by (auto simp: owes_def moved_from_def)
  show "\<exists>w. z = (id(x := y, y := x)) w" if "owes g z s" for z s
    by (cases "z = x"; cases "z = y") (auto intro: exI[of _ x] exI[of _ y] exI[of _ z])
qed (auto simp: inj_def)

lemma promise_inv_moveP:
  assumes "promise_inv g"
  shows "\<exists>g'. promise_step run runFail (MoveP x y) g = Some g' \<and> promise_inv g'"
proof (cases "pg_vars g x = None \<and> pg_vars g y \<noteq> None")
  case True
  then obtain q where "pg_vars g y = Some q" "x \<noteq> y" by force
  then show ?thesis using True promise_inv_hand_over[OF assms, of y q x] by (simp add: promise_move_def owes_def)
qed (use assms in \<open>auto split: option.splits\<close>)

lemma promise_inv_assignP:
  assumes inv: "promise_inv g" and ok: "keeps_promise (AssignP x y) g"
  shows "\<exists>g'. promise_step run runFail (AssignP x y) g = Some g' \<and> promise_inv g'"
proof (cases "pg_vars g x = None \<or> pg_vars g y = None")
  case False
  then obtain p q where pq: "pg_vars g x = Some p" "pg_vars g y = Some q" by auto
  have sat: "m_satisfiedFlag p" "x = y \<Longrightarrow> m_retrievedFlag p" using ok pq by auto
  show ?thesis
  proof (cases "x = y")
    case True
    have "promise_inv (g\<lparr>pg_vars := (pg_vars g)(x \<mapsto> promise_self_assign p)\<rparr>)"
      by (rule promise_inv_vars[OF inv, where f = id])
        (use inv sat True pq in \<open>auto simp: owes_def promise_self_assign_def promise_inv_def split: if_splits\<close>)
    then show ?thesis using pq True by auto
  next
    case ne: False
    have "\<not> owes g x s" for s using pq(1) sat(1) by (simp add: owes_def)
    from promise_inv_hand_over[OF inv pq(2) ne this] show ?thesis using pq ne by (cases p; cases q) (simp add: promise_assign_def)
  qed
qed (use inv in \<open>auto split: option.splits\<close>)

lemma promise_inv_setP:
  assumes inv: "promise_inv g"
  shows "\<exists>g'. promise_step run runFail (SetP x r) g = Some g' \<and> promise_inv g'"
proof (cases "pg_vars g x")
  case (Some p)
  show ?thesis
  proof (cases "m_satisfiedFlag p")
    case True
    then show ?thesis using Some inv by (cases g) (simp add: promise_set_def fun_upd_idem)
  next
    case False
    then obtain s where "p_state p = Some s" using inv Some unfolding promise_inv_def by blast
    from this promise_inv_fulfil[OF inv Some False this, of "Some (p\<lparr>m_satisfiedFlag := True\<rparr>)" run runFail r]
    show ?thesis using Some False by (auto simp: promise_set_def)
  qed
qed (use inv in simp)

lemma promise_inv_futureP:
  assumes inv: "promise_inv g"
  shows "\<exists>g'. promise_step run runFail (FutureP x) g = Some g' \<and> promise_inv g'"
proof (cases "pg_vars g x")
  case (Some p)
  show ?thesis
  proof (cases "m_retrievedFlag p")
    case True
    then show ?thesis using Some inv by (simp add: promise_future_def fun_upd_idem)
  next
    case False
    then obtain s where s: "p_state p = Some s" using inv Some unfolding promise_inv_def by blast
    have "promise_inv (g\<lparr>pg_vars := (pg_vars g)(x \<mapsto> p\<lparr>m_retrievedFlag := True\<rparr>)\<rparr>)"
      by (rule promise_inv_vars[OF inv, where f = id])
        (use inv s Some in \<open>auto simp: owes_def promise_inv_def split: if_splits\<close>)
    then show ?thesis using Some False s by (auto simp: promise_future_def)
  qed
qed (use inv in simp)

lemma promise_inv_destroyP:
  assumes inv: "promise_inv g"
  shows "\<exists>g'. promise_step run runFail (DestroyP x) g = Some g' \<and> promise_inv g'"
proof (cases "pg_vars g x")
  case (Some p)
  show ?thesis
  proof (cases "m_satisfiedFlag p")
    case True
    have "promise_inv (g\<lparr>pg_vars := (pg_vars g)(x := None)\<rparr>)"
      by (rule promise_inv_vars[OF inv, where f = id])
        (use inv True Some in \<open>auto simp: owes_def promise_inv_def split: if_splits\<close>)
    then show ?thesis using Some True by (cases g) (auto simp: promise_destroy_def)
  next
    case False
    then obtain s where "p_state p = Some s" using inv Some unfolding promise_inv_def by blast
    from this promise_inv_fulfil[OF inv Some False this, of None run runFail "Inl BrokenPromiseError"]
    show ?thesis using Some False by (auto simp: promise_set_def promise_destroy_def)
  qed
qed (use inv in simp)

lemma promise_inv_step:
  assumes inv: "promise_inv g" and ok: "keeps_promise a g"
  shows "\<exists>g'. promise_step run runFail a g = Some g' \<and> promise_inv g'"
proof (cases a)
  case (MakeP x)
  then show ?thesis using inv promise_inv_make[OF inv, of x]
    by (auto split: option.splits simp: case_prod_beta Let_def)
qed (use inv ok promise_inv_moveP promise_inv_assignP promise_inv_setP promise_inv_futureP promise_inv_destroyP
  in \<open>metis\<close>)+

definition promise_prog_init :: "('v, 'e, 'f) promise_prog" where
  "promise_prog_init = \<lparr>pg_heap = \<lparr>f_states = [], f_tokens = [], f_events = []\<rparr>, pg_vars = Map.empty\<rparr>"

lemma promise_inv_run:
  assumes "promise_inv g" and "keeps_promises run runFail as g"
  shows "\<exists>g'. promise_run run runFail as g = Some g' \<and> promise_inv g'"
  using assms
proof (induction as arbitrary: g)
  case (Cons a as)
  then obtain g1 where "promise_step run runFail a g = Some g1" "promise_inv g1"
    using promise_inv_step[of g a run runFail] by auto
  then show ?case using Cons by auto
qed simp

text \<open>
  C21: Whatever a program does with its promises, short of assigning over an unsatisfied one or
  moving one onto itself: no assertion fails and no null state is used, and a future is without
  a result exactly as long as one variable holds its unsatisfied promise. So every future has its
  result, BrokenPromiseError in the worst case, when all promises are destroyed.
\<close>

theorem promises_kept:
  assumes "keeps_promises run runFail as promise_prog_init"
  shows "\<exists>g. promise_run run runFail as promise_prog_init = Some g \<and>
    (\<forall>s<length (f_states (pg_heap g)). (f_result (f_states (pg_heap g) ! s) = None) = (\<exists>!x. owes g x s)) \<and>
    (pg_vars g = Map.empty \<longrightarrow> (\<forall>st\<in>set (f_states (pg_heap g)). f_result st \<noteq> None))"
proof -
  have "promise_inv promise_prog_init" by (auto simp: promise_inv_def promise_prog_init_def owes_def)
  from promise_inv_run[OF this assms] obtain g where
    g: "promise_run run runFail as promise_prog_init = Some g" "promise_inv g" by blast
  have o: "(f_result (f_states (pg_heap g) ! s) = None) = (\<exists>!x. owes g x s)"
    if "s < length (f_states (pg_heap g))" for s
    using g(2) that unfolding promise_inv_def by blast
  have "f_result st \<noteq> None" if "pg_vars g = Map.empty" "st \<in> set (f_states (pg_heap g))" for st
    using o that by (auto simp: owes_def in_set_conv_nth)
  then show ?thesis using g(1) o by blast
qed

theorem promises_kept_witness:
  "\<exists>g. promise_run (\<lambda>_. Inr) (\<lambda>_. Inl) [MakeP 0, FutureP 0, MoveP 1 0, DestroyP 0, SetP 1 (Inr (Plain (5::nat))), DestroyP 1]
      (promise_prog_init :: (nat, nat, nat) promise_prog) = Some g \<and>
    map f_result (f_states (pg_heap g)) = [Some (Inr (Plain 5))]"
proof -
  let ?as = "[MakeP 0, FutureP 0, MoveP 1 0, DestroyP 0, SetP 1 (Inr (Plain (5::nat))), DestroyP 1] :: (nat, nat) promise_op list"
  note d = promise_prog_init_def promise_make_def new_promise_state_def new_state_def promise_future_def
    promise_move_def moved_from_def promise_destroy_def promise_set_def exec_SetResult with_state_def Let_def
  have "keeps_promises (\<lambda>_. Inr) (\<lambda>_. Inl) ?as (promise_prog_init :: (nat, nat, nat) promise_prog)"
    by (simp add: d)
  from promises_kept[OF this] show ?thesis by (simp add: d)
qed

text \<open>
  Move assignment over an unsatisfied promise loses it: all promises are destroyed and the future
  of the first one stays without a result.
\<close>

theorem promise_assign_breaks:
  "\<exists>g. promise_run run runFail [MakeP 0, FutureP 0, MakeP 1, AssignP 0 1, DestroyP 0, DestroyP 1]
      promise_prog_init = Some g \<and> pg_vars g = Map.empty \<and> f_result (f_states (pg_heap g) ! 0) = None"
  by (simp add: promise_prog_init_def promise_make_def new_promise_state_def new_state_def promise_future_def
    promise_assign_def moved_from_def promise_destroy_def promise_set_def exec_SetResult with_state_def Let_def fun_eq_iff)

end
