(* ===== verification/Readers.thy ===== *)
theory Readers
  imports Prelude
begin

unbundle bit_operations_syntax

text \<open>
  The readers and writers of lib/io: string-reader.cpp, string-writter.cpp, null-device.cpp,
  pushback-reader.cpp, bit-seq-reader.cpp and the ConcatReader of io-device.cpp, with the contract
  of include/nhope/io/io-device.h that the operations of IoDevice rely on.

  A read with a buffer of n bytes answers the bytes put into it, or an error; no bytes stand
  for the end of the data. The completion handler runs later on the reader's context; here a
  read is one step, since the readers allow one read at a time. Devices of the operating
  system (files, sockets, serial ports) are the parameter dev.
\<close>

type_synonym 'e io_read = "'e + u8 list"

section \<open>What a reader promises\<close>

text \<open>
  content: the bytes still to come and how they end, with the end of data (None) or an error.
  A read of at least one byte takes a non-empty part of them as long as there are any.
\<close>

locale reader_contract =
  fixes read :: "'r \<Rightarrow> nat \<Rightarrow> 'r \<times> 'e io_read"
    and content :: "'r \<Rightarrow> u8 list \<times> 'e option"
    and ok :: "'r \<Rightarrow> bool"
  assumes read_ok: "ok r \<Longrightarrow> 0 < n \<Longrightarrow> read r n = (r', res) \<Longrightarrow> ok r'"
    and read_error: "ok r \<Longrightarrow> 0 < n \<Longrightarrow> read r n = (r', Inl e) \<Longrightarrow> content r = ([], Some e)"
    and read_end: "ok r \<Longrightarrow> 0 < n \<Longrightarrow> read r n = (r', Inr []) \<Longrightarrow> content r = ([], None)"
    and read_data: "ok r \<Longrightarrow> 0 < n \<Longrightarrow> read r n = (r', Inr bs) \<Longrightarrow>
      length bs \<le> n \<and> content r = (bs @ fst (content r'), snd (content r'))"
begin

text \<open>What a read answers tells how the content goes on.\<close>

lemma read_cases:
  assumes "ok r" and "0 < n"
  obtains (Error) r' e where "read r n = (r', Inl e)" "content r = ([], Some e)" "ok r'"
  | (End) r' where "read r n = (r', Inr [])" "content r = ([], None)" "content r' = ([], None)" "ok r'"
  | (Data) r' bs where "read r n = (r', Inr bs)" "bs \<noteq> []" "length bs \<le> n"
      "content r = (bs @ fst (content r'), snd (content r'))" "ok r'"
proof -
  obtain r' res where rd: "read r n = (r', res)" by (cases "read r n") auto
  note ok = read_ok[OF assms rd]
  show thesis
  proof (cases res)
    case (Inl e)
    then show thesis using Error read_error[OF assms] rd ok by blast
  next
    case (Inr bs)
    show thesis
    proof (cases "bs = []")
      case True
      then have "content r = ([], None)" "content r = content r'"
        using read_end[OF assms] read_data[OF assms, of r' bs] rd Inr by auto
      then show thesis using End rd Inr True ok by auto
    next
      case False
      then show thesis using Data read_data[OF assms, of r' bs] rd Inr ok by blast
    qed
  qed
qed

end

section \<open>The readers\<close>

definition string_read :: "u8 list \<times> nat \<Rightarrow> nat \<Rightarrow> (u8 list \<times> nat) \<times> 'e io_read" where
  "string_read sr n = (case sr of (m_str, m_pos) \<Rightarrow>
     let tail = drop m_pos m_str; k = min (length tail) n in
     if k = 0 then ((m_str, m_pos), Inr [])
     else ((m_str, m_pos + k), Inr (take k tail)))"

text \<open>pushback: the bytes given back lie in reverse in m_unreadBuf.\<close>

datatype 'd reader =
    StringReader "u8 list" nat
  | NullDevice
  | PushbackReader "'d reader" "u8 list"
  | ConcatReader "'d reader list"
  | Device 'd

definition unread :: "'d reader \<Rightarrow> u8 list \<Rightarrow> 'd reader" where
  "unread r bytes = (case r of
     PushbackReader origin buf \<Rightarrow> PushbackReader origin (buf @ rev bytes) | _ \<Rightarrow> r)"

text \<open>startRead of PushbackReader while there are bytes given back.\<close>

definition take_unread :: "u8 list \<Rightarrow> nat \<Rightarrow> u8 list \<times> u8 list" where
  "take_unread m_unreadBuf n =
     (let size = min n (length m_unreadBuf); bufSpan = span_last size m_unreadBuf in
      (take (length m_unreadBuf - size) m_unreadBuf, rev bufSpan))"

definition null_read :: "nat \<Rightarrow> 'e io_read" where
  "null_read n = Inr []"

fun reader_read :: "('d \<Rightarrow> nat \<Rightarrow> 'd \<times> 'e io_read) \<Rightarrow> 'd reader \<Rightarrow> nat \<Rightarrow> 'd reader \<times> 'e io_read" where
  "reader_read dev (StringReader s p) n =
     (case string_read (s, p) n of ((s, p), res) \<Rightarrow> (StringReader s p, res))"
| "reader_read dev NullDevice n = (NullDevice, null_read n)"
| "reader_read dev (PushbackReader origin buf) n =
     (if buf \<noteq> [] then (case take_unread buf n of (buf, bs) \<Rightarrow> (PushbackReader origin buf, Inr bs))
      else case reader_read dev origin n of (origin, res) \<Rightarrow> (PushbackReader origin buf, res))"
| "reader_read dev (ConcatReader []) n = (ConcatReader [], Inr [])"
| "reader_read dev (ConcatReader (r # rs)) n =
     (case reader_read dev r n of
        (r, Inl e) \<Rightarrow> (ConcatReader (r # rs), Inl e)
      | (r, Inr bs) \<Rightarrow>
          (if length bs = 0 then reader_read dev (ConcatReader rs) n
           else (ConcatReader (r # rs), Inr bs)))"
| "reader_read dev (Device d) n = (case dev d n of (d, res) \<Rightarrow> (Device d, res))"

fun reader_content :: "('d \<Rightarrow> u8 list \<times> 'e option) \<Rightarrow> 'd reader \<Rightarrow> u8 list \<times> 'e option" where
  "reader_content dc (StringReader s p) = (drop p s, None)"
| "reader_content dc NullDevice = ([], None)"
| "reader_content dc (PushbackReader r buf) =
     (rev buf @ fst (reader_content dc r), snd (reader_content dc r))"
| "reader_content dc (ConcatReader []) = ([], None)"
| "reader_content dc (ConcatReader (r # rs)) = (case reader_content dc r of
     (bs, Some e) \<Rightarrow> (bs, Some e)
   | (bs, None) \<Rightarrow> (bs @ fst (reader_content dc (ConcatReader rs)), snd (reader_content dc (ConcatReader rs))))"
| "reader_content dc (Device d) = dc d"

fun reader_ok :: "('d \<Rightarrow> bool) \<Rightarrow> 'd reader \<Rightarrow> bool" where
  "reader_ok dok (StringReader s p) = (p \<le> length s)"
| "reader_ok dok NullDevice = True"
| "reader_ok dok (PushbackReader r buf) = reader_ok dok r"
| "reader_ok dok (ConcatReader rs) = (\<forall>r\<in>set rs. reader_ok dok r)"
| "reader_ok dok (Device d) = dok d"

text \<open>A StringReader on its own keeps the contract ...\<close>

definition string_content :: "u8 list \<times> nat \<Rightarrow> u8 list \<times> 'e option" where
  "string_content sr = (drop (snd sr) (fst sr), None)"

definition string_ok :: "u8 list \<times> nat \<Rightarrow> bool" where
  "string_ok sr \<longleftrightarrow> snd sr \<le> length (fst sr)"

lemma string_contract: "reader_contract string_read string_content string_ok"
proof
  fix r r' :: "u8 list \<times> nat" and n :: nat and res :: "'e io_read"
  assume "string_ok r" "0 < n" "string_read r n = (r', res)"
  then show "string_ok r'"
    by (auto simp: string_read_def string_ok_def Let_def split: prod.splits if_splits)
next
  fix r r' :: "u8 list \<times> nat" and n :: nat and e :: 'e
  assume "string_read r n = (r', Inl e)"
  then show "string_content r = ([], Some e)"
    by (auto simp: string_read_def Let_def split: prod.splits if_splits)
next
  fix r r' :: "u8 list \<times> nat" and n :: nat
  assume "0 < n" "string_read r n = (r', Inr [] :: 'e io_read)"
  then show "string_content r = ([], None :: 'e option)"
    by (auto simp: string_read_def string_content_def Let_def split: prod.splits if_splits)
next
  fix r r' :: "u8 list \<times> nat" and n :: nat and bs
  assume "0 < n" "string_read r n = (r', Inr bs :: 'e io_read)"
  then show "length bs \<le> n \<and> (string_content r :: _ \<times> 'e option) =
      (bs @ fst (string_content r' :: _ \<times> 'e option), snd (string_content r' :: _ \<times> 'e option))"
    by (auto simp: string_read_def string_content_def Let_def split: prod.splits if_splits)
      (metis append_take_drop_id drop_drop add.commute)
qed

interpretation str: reader_contract string_read string_content string_ok
  by (rule string_contract)

text \<open>... and so does every combination of readers over devices that keep it.\<close>

lemma take_unread_cases:
  assumes "buf \<noteq> []" and "0 < n"
  shows "case take_unread buf n of (rest, bs) \<Rightarrow> length bs \<le> n \<and> bs \<noteq> [] \<and> rev buf = bs @ rev rest"
proof -
  let ?size = "min n (length buf)"
  have "buf = take (length buf - ?size) buf @ span_last ?size buf" by (simp add: span_last_def)
  then have "rev buf = rev (span_last ?size buf) @ rev (take (length buf - ?size) buf)"
    by (metis rev_append)
  moreover have "span_last ?size buf \<noteq> []"
    using assms by (metis length_span_last length_greater_0_conv min_less_iff_conj min.idem)
  ultimately show ?thesis by (simp add: take_unread_def Let_def)
qed

lemma reader_read_cases:
  assumes "reader_contract dev dc dok" and "reader_ok dok r" and "0 < n" and "reader_read dev r n = (r', res)"
  shows "reader_ok dok r' \<and>
    (case res of Inl e \<Rightarrow> reader_content dc r = ([], Some e)
     | Inr bs \<Rightarrow> length bs \<le> n \<and> (bs = [] \<longrightarrow> reader_content dc r = ([], None)) \<and>
         reader_content dc r = (bs @ fst (reader_content dc r'), snd (reader_content dc r')))"
  using assms
proof (induction dev r n arbitrary: r' res rule: reader_read.induct)
  case (1 dev s p n)
  then show ?case
    by (auto simp: string_read_def Let_def min_def split: prod.splits if_splits)
      (metis append_take_drop_id drop_drop add.commute)
next
  case (3 dev origin buf n)
  show ?case
  proof (cases "buf = []")
    case True
    then show ?thesis using 3 by (auto split: prod.splits sum.splits)
  next
    case False
    then show ?thesis using 3(3,5) take_unread_cases[OF False 3(4)] by (cases "take_unread buf n") auto
  qed
next
  case (5 dev r rs n)
  obtain r1 res1 where rd: "reader_read dev r n = (r1, res1)" by (cases "reader_read dev r n") auto
  have ok: "reader_ok dok r" "reader_ok dok (ConcatReader rs)" using 5(4) by auto
  note a = 5(1)[OF 5(3) ok(1) 5(5) rd]
  show ?case
  proof (cases res1)
    case (Inl e)
    then show ?thesis using a 5(4,6) rd by auto
  next
    case (Inr bs)
    show ?thesis
    proof (cases "bs = []")
      case True
      then have "reader_read dev (ConcatReader rs) n = (r', res)" using 5(6) rd Inr by simp
      then show ?thesis using 5(2)[OF rd[symmetric] Inr _ 5(3) ok(2) 5(5), of r' res] a Inr True
        by (auto split: sum.splits)
    next
      case False
      then have "r' = ConcatReader (r1 # rs)" "res = Inr bs" using 5(6) rd Inr by auto
      then show ?thesis using a Inr False 5(4) by (auto split: option.splits prod.splits)
    qed
  qed
next
  case (6 dev d n)
  obtain d' where d: "dev d n = (d', res)" "r' = Device d'" using 6(4) by (auto split: prod.splits)
  show ?case
    using reader_contract.read_ok[OF 6(1) _ 6(3) d(1)] reader_contract.read_error[OF 6(1) _ 6(3), of d d']
      reader_contract.read_end[OF 6(1) _ 6(3), of d d'] reader_contract.read_data[OF 6(1) _ 6(3), of d d'] d 6(2)
    by (auto split: sum.splits)
qed (auto simp: null_read_def)

lemma readers_contract:
  assumes "reader_contract dev dc dok"
  shows "reader_contract (reader_read dev) (reader_content dc) (reader_ok dok)"
proof
  fix r r' n res assume a: "reader_ok dok r" "0 < n" "reader_read dev r n = (r', res)"
  show "reader_ok dok r'" using reader_read_cases[OF assms a] by blast
next
  fix r r' n e assume a: "reader_ok dok r" "0 < n" "reader_read dev r n = (r', Inl e)"
  show "reader_content dc r = ([], Some e)" using reader_read_cases[OF assms a] by simp
next
  fix r r' n assume a: "reader_ok dok r" "0 < n" "reader_read dev r n = (r', Inr [])"
  show "reader_content dc r = ([], None)" using reader_read_cases[OF assms a] by simp
next
  fix r r' n bs assume a: "reader_ok dok r" "0 < n" "reader_read dev r n = (r', Inr bs)"
  show "length bs \<le> n \<and> reader_content dc r = (bs @ fst (reader_content dc r'), snd (reader_content dc r'))"
    using reader_read_cases[OF assms a] by simp
qed

interpretation rd: reader_contract "reader_read string_read" "reader_content string_content" "reader_ok string_ok"
  by (rule readers_contract[OF string_contract])

section \<open>The bit sequence reader\<close>

text \<open>
  BitSeqReader repeats its bits for ever. nextBit answers the bit as a byte and the next
  position; None is the access to an empty vector.
\<close>

definition nextBit :: "bool list \<Rightarrow> nat \<Rightarrow> (u8 \<times> nat) option" where
  "nextBit m_bits m_pos =
     (if m_pos < length m_bits then Some (if m_bits ! m_pos then 1 else 0, (m_pos + 1) mod length m_bits)
      else None)"

text \<open>The loop over n: byte |= nextBit() << n.\<close>

function bitseq_byte :: "bool list \<Rightarrow> nat \<Rightarrow> u8 \<Rightarrow> nat \<Rightarrow> (u8 \<times> nat) option" where
  "bitseq_byte m_bits n byte m_pos =
     (if 8 \<le> n then Some (byte, m_pos)
      else case nextBit m_bits m_pos of
        None \<Rightarrow> None
      | Some (b, m_pos) \<Rightarrow> bitseq_byte m_bits (n + 1) (byte OR push_bit n b) m_pos)"
  by pat_completeness auto
termination by (relation "measure (\<lambda>(_, n, _). 8 - n)") auto

declare bitseq_byte.simps [simp del]

fun bitseq_read :: "bool list \<Rightarrow> nat \<Rightarrow> nat \<Rightarrow> (u8 list \<times> nat) option" where
  "bitseq_read m_bits m_pos 0 = Some ([], m_pos)"
| "bitseq_read m_bits m_pos (Suc n) = (case nextBit m_bits m_pos of
     None \<Rightarrow> None
   | Some (b, m_pos) \<Rightarrow> (case bitseq_byte m_bits 1 (push_bit 0 b) m_pos of
       None \<Rightarrow> None
     | Some (byte, m_pos) \<Rightarrow> map_option (\<lambda>(bytes, m_pos). (byte # bytes, m_pos)) (bitseq_read m_bits m_pos n)))"

text \<open>create from bytes: the bits of psp, least significant first, up to bitCount of them.\<close>

fun bitseq_push :: "nat list \<Rightarrow> u8 \<Rightarrow> nat \<Rightarrow> bool list \<Rightarrow> bool list \<times> bool" where
  "bitseq_push [] byte bitCount temp = (temp, False)"
| "bitseq_push (n # ns) byte bitCount temp =
     (let temp = temp @ [(drop_bit n byte AND 1) \<noteq> 0] in
      if length temp = bitCount then (temp, True) else bitseq_push ns byte bitCount temp)"

fun bitseq_create_loop :: "u8 list \<Rightarrow> nat \<Rightarrow> bool list \<Rightarrow> bool list" where
  "bitseq_create_loop [] bitCount temp = temp"
| "bitseq_create_loop (byte # psp) bitCount temp = (case bitseq_push [0..<8] byte bitCount temp of
     (temp, True) \<Rightarrow> temp | (temp, False) \<Rightarrow> bitseq_create_loop psp bitCount temp)"

definition bitseq_create :: "u8 list \<Rightarrow> nat \<Rightarrow> bool list option" where
  "bitseq_create psp bitCount =
     (if bitCount \<le> length psp * 8 then Some (bitseq_create_loop psp bitCount []) else None)"

lemma nextBit_Some:
  assumes "m_bits \<noteq> []"
  shows "nextBit m_bits (p mod length m_bits) =
    Some (of_bool (m_bits ! (p mod length m_bits)), Suc p mod length m_bits)"
  using assms by (simp add: nextBit_def mod_Suc_eq)

text \<open>Bit j of the byte under construction, when n of its bits are done.\<close>

definition bits_from :: "bool list \<Rightarrow> nat \<Rightarrow> nat \<Rightarrow> u8 \<Rightarrow> bool" where
  "bits_from m_bits p n byte \<longleftrightarrow> (\<forall>j<8. bit byte j = (j < n \<and> m_bits ! ((p + j) mod length m_bits)))"

lemma bits_from_step:
  assumes "bits_from m_bits p n byte" and "n < 8"
  shows "bits_from m_bits p (Suc n) (byte OR push_bit n (of_bool (m_bits ! ((p + n) mod length m_bits))))"
  using assms unfolding bits_from_def by (auto simp: bit_simps less_Suc_eq)

lemma bitseq_byte_bits:
  assumes "m_bits \<noteq> []" and "bits_from m_bits p n byte" and "n \<le> 8"
  shows "\<exists>byte'. bitseq_byte m_bits n byte ((p + n) mod length m_bits) = Some (byte', (p + 8) mod length m_bits) \<and>
    bits_from m_bits p 8 byte'"
  using assms(2,3)
proof (induction "8 - n" arbitrary: n byte)
  case 0
  then show ?case by (subst bitseq_byte.simps) simp
next
  case (Suc k)
  then have n: "n < 8" by simp
  from Suc.hyps(1)[OF _ bits_from_step[OF Suc.prems(1) n]] Suc.hyps(2) n show ?case
    by (subst bitseq_byte.simps) (simp add: nextBit_Some[OF assms(1)])
qed

lemma bitseq_read_bits:
  assumes "m_bits \<noteq> []"
  shows "\<exists>bytes. bitseq_read m_bits (p mod length m_bits) n = Some (bytes, (p + 8 * n) mod length m_bits) \<and>
    length bytes = n \<and> (\<forall>i<n. bits_from m_bits (p + 8 * i) 8 (bytes ! i))"
proof (induction n arbitrary: p)
  case (Suc n)
  let ?b = "of_bool (m_bits ! (p mod length m_bits)) :: u8"
  have "bits_from m_bits p 1 (push_bit 0 ?b)" by (auto simp: bits_from_def bit_simps)
  from bitseq_byte_bits[OF assms this] obtain byte where
    byte: "bitseq_byte m_bits 1 ?b (Suc p mod length m_bits) = Some (byte, (p + 8) mod length m_bits)"
      "bits_from m_bits p 8 byte" by auto
  from Suc[of "p + 8"] obtain bytes where
    bytes: "bitseq_read m_bits ((p + 8) mod length m_bits) n = Some (bytes, (p + 8 + 8 * n) mod length m_bits)"
      "length bytes = n" "\<forall>i<n. bits_from m_bits (p + 8 + 8 * i) 8 (bytes ! i)" by blast
  have "bits_from m_bits (p + 8 * i) 8 ((byte # bytes) ! i)" if "i < Suc n" for i
    using that byte(2) bytes(3) by (cases i) (auto simp: algebra_simps)
  then show ?case using byte(1) bytes(1,2)
    by (intro exI[of _ "byte # bytes"]) (simp add: nextBit_Some[OF assms] algebra_simps)
qed simp

text \<open>
  a read of n bytes from a BitSeqReader at position p answers n bytes whose bits, least
  significant first, are the next 8 n bits of the endless repetition of m_bits, and leaves the
  reader where they end.
\<close>

theorem bitseq_read_repeats:
  assumes "m_bits \<noteq> []" and "p < length m_bits"
  shows "\<exists>bytes. bitseq_read m_bits p n = Some (bytes, (p + 8 * n) mod length m_bits) \<and> length bytes = n \<and>
    (\<forall>k<8 * n. bit (bytes ! (k div 8)) (k mod 8) = m_bits ! ((p + k) mod length m_bits))"
proof -
  from bitseq_read_bits[OF assms(1), of p n] assms(2) obtain bytes where
    b: "bitseq_read m_bits p n = Some (bytes, (p + 8 * n) mod length m_bits)" "length bytes = n"
      "\<forall>i<n. bits_from m_bits (p + 8 * i) 8 (bytes ! i)" by auto
  have "bit (bytes ! (k div 8)) (k mod 8) = m_bits ! ((p + k) mod length m_bits)" if "k < 8 * n" for k
  proof -
    have "k div 8 < n" using that by (simp add: less_mult_imp_div_less mult.commute)
    then have "bits_from m_bits (p + 8 * (k div 8)) 8 (bytes ! (k div 8))" using b(3) by blast
    moreover have "8 * (k div 8) + k mod 8 = k" by simp
    ultimately show ?thesis unfolding bits_from_def by (simp add: add.assoc)
  qed
  then show ?thesis using b by blast
qed

theorem bitseq_read_repeats_witness:
  "\<exists>bytes. bitseq_read [True, False, False] 1 2 = Some (bytes, 2) \<and> length bytes = 2"
  using bitseq_read_repeats[of "[True, False, False]" 1 2] by auto

text \<open>The bits create keeps; with bitCount = 0 it keeps all of them instead of none.\<close>

lemma bitseq_create_zero: "bitseq_create [1] 0 = Some [True, False, False, False, False, False, False, False]"
  by (simp add: bitseq_create_def upt_rec)

section \<open>Writers\<close>

text \<open>
  sink: what has been written so far. A write takes a part of the data, not empty unless the
  data are, or fails and takes nothing.
\<close>

locale writer_contract =
  fixes wr :: "'w \<Rightarrow> u8 list \<Rightarrow> 'w \<times> ('e + nat)"
    and sink :: "'w \<Rightarrow> u8 list"
  assumes write_data: "wr w data = (w', Inr k) \<Longrightarrow>
      k \<le> length data \<and> (data \<noteq> [] \<longrightarrow> 0 < k) \<and> sink w' = sink w @ take k data"
    and write_error: "wr w data = (w', Inl e) \<Longrightarrow> sink w' = sink w"

definition string_write :: "u8 list \<Rightarrow> u8 list \<Rightarrow> u8 list \<times> ('e + nat)" where
  "string_write m_content data = (m_content @ data, Inr (length data))"

text \<open>takeContent moves the string out; the moved-from string is empty.\<close>

definition takeContent :: "u8 list \<Rightarrow> u8 list \<times> u8 list" where
  "takeContent m_content = (m_content, [])"

definition null_write :: "u8 list \<Rightarrow> 'e + nat" where
  "null_write data = Inr (length data)"

interpretation sw: writer_contract string_write "\<lambda>content. content"
  by unfold_locales (auto simp: string_write_def)

end
