(* ===== verification/IoDevice.thy ===== *)
theory IoDevice
  imports Readers "HOL-Library.Sublist"
begin

text \<open>
  lib/io/io-device.cpp: read, readExactly, readUntil, readLine, readAll, write, writeExactly and
  copy over any reader and writer. An operation is a loop of reads or writes whose handlers
  start the next one; it ends with what it puts into its promise. None: it does not end, or an
  assertion fails.
\<close>

section \<open>ReadOp\<close>

text \<open>
  h is the handler of the operation with its state: how many bytes to read next, given what
  has been read. The buffer is grown by that many bytes and cut back to what came.
\<close>

partial_function (option) readOp :: "('r \<Rightarrow> nat \<Rightarrow> 'r \<times> 'e io_read) \<Rightarrow> ('s \<Rightarrow> u8 list \<Rightarrow> ('s \<times> nat) option) \<Rightarrow>
    'r \<Rightarrow> 's \<Rightarrow> u8 list \<Rightarrow> ('r \<times> ('e + u8 list)) option" where
  "readOp rd h r s m_buf =
     (case h s m_buf of
        None \<Rightarrow> None
      | Some (s, m_portionSize) \<Rightarrow>
          (if m_portionSize = 0 then Some (r, Inr m_buf)
           else case rd r m_portionSize of
             (r, Inl err) \<Rightarrow> Some (r, Inl err)
           | (r, Inr bs) \<Rightarrow>
               (if m_portionSize < length bs then None
                else if bs = [] then Some (r, Inr m_buf)
                else readOp rd h r s (m_buf @ bs))))"

definition read :: "('r \<Rightarrow> nat \<Rightarrow> 'r \<times> 'e io_read) \<Rightarrow> 'r \<Rightarrow> nat \<Rightarrow> ('r \<times> ('e + u8 list)) option" where
  "read rd r bytesCount = readOp rd (\<lambda>bytesCount _. Some (0, bytesCount)) r bytesCount []"

definition readExactly :: "('r \<Rightarrow> nat \<Rightarrow> 'r \<times> 'e io_read) \<Rightarrow> 'r \<Rightarrow> nat \<Rightarrow> ('r \<times> ('e + u8 list)) option" where
  "readExactly rd r bytesCount = readOp rd
     (\<lambda>_ buf. if length buf \<le> bytesCount then Some ((), bytesCount - length buf) else None) r () []"

definition endsWith :: "u8 list \<Rightarrow> u8 list \<Rightarrow> bool" where
  "endsWith data expect =
     (if length data < length expect then False else span_last (length expect) data = expect)"

definition readUntil :: "('r \<Rightarrow> nat \<Rightarrow> 'r \<times> 'e io_read) \<Rightarrow> 'r \<Rightarrow> u8 list \<Rightarrow> ('r \<times> ('e + u8 list)) option" where
  "readUntil rd r expect = readOp rd (\<lambda>_ buf. Some ((), if endsWith buf expect then 0 else 1)) r () []"

definition endLineMarker :: "u8 list" where
  "endLineMarker = [10]"

definition hasEndLineMarker :: "u8 list \<Rightarrow> bool" where
  "hasEndLineMarker data = endsWith data endLineMarker"

definition readLine :: "('r \<Rightarrow> nat \<Rightarrow> 'r \<times> 'e io_read) \<Rightarrow> 'r \<Rightarrow> ('r \<times> ('e + u8 list)) option" where
  "readLine rd r = map_option (\<lambda>(r, res). (r, map_sum (\<lambda>e. e) (\<lambda>buf.
     let lineSize = length buf;
         lineSize = (if hasEndLineMarker buf then lineSize - length endLineMarker else lineSize)
     in take lineSize buf) res)) (readUntil rd r endLineMarker)"

definition readAll :: "('r \<Rightarrow> nat \<Rightarrow> 'r \<times> 'e io_read) \<Rightarrow> 'r \<Rightarrow> ('r \<times> ('e + u8 list)) option" where
  "readAll rd r = readOp rd (\<lambda>_ _. Some ((), 4 * 1024)) r () []"

section \<open>WriteOp and CopyOp\<close>

partial_function (option) writeOp :: "('w \<Rightarrow> u8 list \<Rightarrow> 'w \<times> ('e + nat)) \<Rightarrow> bool \<Rightarrow> 'w \<Rightarrow> u8 list \<Rightarrow> nat \<Rightarrow>
    ('w \<times> ('e + nat)) option" where
  "writeOp wr m_writeAll w m_data m_written =
     (if length m_data < m_written then None
      else case wr w (drop m_written m_data) of
        (w, Inl err) \<Rightarrow> Some (w, Inl err)
      | (w, Inr count) \<Rightarrow>
          (if m_written + count < length m_data \<and> m_writeAll
           then writeOp wr m_writeAll w m_data (m_written + count)
           else Some (w, Inr (m_written + count))))"

definition write_data :: "('w \<Rightarrow> u8 list \<Rightarrow> 'w \<times> ('e + nat)) \<Rightarrow> 'w \<Rightarrow> u8 list \<Rightarrow> ('w \<times> ('e + nat)) option" where
  "write_data wr w data = writeOp wr False w data 0"

definition writeExactly :: "('w \<Rightarrow> u8 list \<Rightarrow> 'w \<times> ('e + nat)) \<Rightarrow> 'w \<Rightarrow> u8 list \<Rightarrow> ('w \<times> ('e + nat)) option" where
  "writeExactly wr w data = writeOp wr True w data 0"

text \<open>
  CopyOp: writePortion writes the part [offset, offset + psize) of the buffer and goes on
  with the rest; the byte counter is answered.
\<close>

partial_function (option) writePortion :: "('w \<Rightarrow> u8 list \<Rightarrow> 'w \<times> ('e + nat)) \<Rightarrow> u8 list \<Rightarrow> 'w \<Rightarrow> nat \<Rightarrow> nat \<Rightarrow> nat \<Rightarrow>
    ('w \<times> ('e + nat)) option" where
  "writePortion wr m_buf w offset psize m_byteCounter =
     (if length m_buf < offset + psize then None
      else case wr w (take psize (drop offset m_buf)) of
        (w, Inl err) \<Rightarrow> Some (w, Inl err)
      | (w, Inr count) \<Rightarrow>
          (if psize < count then None
           else if psize = count then Some (w, Inr (m_byteCounter + count))
           else writePortion wr m_buf w (offset + count) (psize - count) (m_byteCounter + count)))"

definition bufSize :: nat where "bufSize = 4 * 1024"

partial_function (option) copyOp :: "('r \<Rightarrow> nat \<Rightarrow> 'r \<times> 'e io_read) \<Rightarrow> ('w \<Rightarrow> u8 list \<Rightarrow> 'w \<times> ('e + nat)) \<Rightarrow>
    'r \<Rightarrow> 'w \<Rightarrow> nat \<Rightarrow> ('r \<times> 'w \<times> ('e + nat)) option" where
  "copyOp rd wr r w m_byteCounter =
     (case rd r bufSize of
        (r, Inl err) \<Rightarrow> Some (r, w, Inl err)
      | (r, Inr bs) \<Rightarrow>
          (if bs = [] then Some (r, w, Inr m_byteCounter)
           else case writePortion wr bs w 0 (length bs) m_byteCounter of
             None \<Rightarrow> None
           | Some (w, Inl err) \<Rightarrow> Some (r, w, Inl err)
           | Some (w, Inr n) \<Rightarrow> copyOp rd wr r w n))"

definition copy :: "('r \<Rightarrow> nat \<Rightarrow> 'r \<times> 'e io_read) \<Rightarrow> ('w \<Rightarrow> u8 list \<Rightarrow> 'w \<times> ('e + nat)) \<Rightarrow>
    'r \<Rightarrow> 'w \<Rightarrow> ('r \<times> 'w \<times> ('e + nat)) option" where
  "copy rd wr src dest = copyOp rd wr src dest 0"

section \<open>What they do with a reader that keeps its contract\<close>

text \<open>The first place where a buffer that reads on ends with a marker.\<close>

lemma until_Cons:
  assumes "\<not> suffix e buf"
  shows "(\<exists>k\<le>length (b # c). suffix e (buf @ take k (b # c))) \<longleftrightarrow> (\<exists>k\<le>length c. suffix e ((buf @ [b]) @ take k c))"
proof
  assume "\<exists>k\<le>length (b # c). suffix e (buf @ take k (b # c))"
  then obtain k where k: "k \<le> length (b # c)" "suffix e (buf @ take k (b # c))" by blast
  then obtain j where "k = Suc j" using assms by (cases k) auto
  then show "\<exists>k\<le>length c. suffix e ((buf @ [b]) @ take k c)" using k by auto
next
  assume "\<exists>k\<le>length c. suffix e ((buf @ [b]) @ take k c)"
  then obtain k where "k \<le> length c" "suffix e ((buf @ [b]) @ take k c)" by blast
  then show "\<exists>k\<le>length (b # c). suffix e (buf @ take k (b # c))" by (intro exI[of _ "Suc k"]) simp
qed

lemma until_least_Cons:
  assumes "\<not> suffix e buf" and "\<exists>k\<le>length (b # c). suffix e (buf @ take k (b # c))"
  shows "(LEAST k. suffix e (buf @ take k (b # c))) = Suc (LEAST k. suffix e ((buf @ [b]) @ take k c))"
proof -
  obtain k where "suffix e (buf @ take k (b # c))" using assms(2) by blast
  then have "(LEAST k. suffix e (buf @ take k (b # c))) = Suc (LEAST k. suffix e (buf @ take (Suc k) (b # c)))"
    by (rule Least_Suc) (use assms(1) in simp)
  then show ?thesis by simp
qed

lemma endsWith_suffix: "endsWith data expect = suffix expect data"
proof
  assume "endsWith data expect"
  then show "suffix expect data"
    by (auto simp: endsWith_def span_last_def suffix_drop split: if_splits) (metis suffix_drop)
next
  assume "suffix expect data"
  then obtain xs where "data = xs @ expect" by (auto simp: suffix_def)
  then show "endsWith data expect" by (simp add: endsWith_def)
qed

text \<open>How an operation ends that wants more than there is: with what there was, or the error.\<close>

definition cut_short :: "u8 list \<Rightarrow> 'e option \<Rightarrow> 'e + u8 list" where
  "cut_short bs ending = (case ending of None \<Rightarrow> Inr bs | Some e \<Rightarrow> Inl e)"

text \<open>Writing: all of the data when it must, a part of them otherwise, a part of them on an error.\<close>

context writer_contract
begin

lemma write_cases:
  obtains (Error) w' e where "wr w data = (w', Inl e)" "sink w' = sink w"
  | (Data) w' k where "wr w data = (w', Inr k)" "k \<le> length data" "data \<noteq> [] \<longrightarrow> 0 < k" "sink w' = sink w @ take k data"
proof -
  obtain w' res where "wr w data = (w', res)" by (cases "wr w data") auto
  then show thesis using Error Data write_data write_error by (cases res) blast+
qed

lemma take_take_drop: "take k xs @ take m (drop k xs) = take (k + m) xs"
  by (simp add: take_add)

lemma writePortion_loop:
  assumes "offset + psize \<le> length m_buf" and "0 < psize"
  shows "\<exists>w' res. writePortion wr m_buf w offset psize n = Some (w', res) \<and> (case res of
      Inr m \<Rightarrow> m = n + psize \<and> sink w' = sink w @ take psize (drop offset m_buf)
    | Inl e \<Rightarrow> \<exists>j. sink w' = sink w @ take j (take psize (drop offset m_buf)))"
  using assms
proof (induction psize arbitrary: w offset n rule: less_induct)
  case (less psize)
  let ?d = "take psize (drop offset m_buf)"
  show ?case
  proof (cases rule: write_cases[of w ?d])
    case (Error w' e)
    then show ?thesis using less.prems
      by (subst writePortion.simps) (auto intro: exI[of _ "0 :: nat"])
  next
    case (Data w' k)
    have k: "0 < k" "k \<le> psize" using Data(2,3) less.prems by auto
    have tk: "take k ?d = take k (drop offset m_buf)" using k by simp
    show ?thesis
    proof (cases "k = psize")
      case True
      then show ?thesis using Data k less.prems by (subst writePortion.simps) simp
    next
      case False
      then have "psize - k < psize" "offset + k + (psize - k) \<le> length m_buf" "0 < psize - k"
        using k less.prems by auto
      from less.IH[OF this, of w' "n + k"] obtain w2 res where
        w2: "writePortion wr m_buf w' (offset + k) (psize - k) (n + k) = Some (w2, res)"
        "case res of
            Inr m \<Rightarrow> m = n + k + (psize - k) \<and> sink w2 = sink w' @ take (psize - k) (drop (offset + k) m_buf)
          | Inl e \<Rightarrow> \<exists>j. sink w2 = sink w' @ take j (take (psize - k) (drop (offset + k) m_buf))" by blast
      have split: "take k (drop offset m_buf) @ take j (take (psize - k) (drop (offset + k) m_buf)) =
        take (k + min j (psize - k)) ?d" for j
        using k by (simp add: take_add add.commute min_def split: if_splits)
      have step: "writePortion wr m_buf w offset psize n = Some (w2, res)"
        using Data(1) k False less.prems w2(1) by (subst writePortion.simps) simp
      show ?thesis
      proof (cases res)
        case (Inl e)
        then obtain j where "sink w2 = sink w' @ take j (take (psize - k) (drop (offset + k) m_buf))"
          using w2(2) by auto
        then have "sink w2 = sink w @ take (k + min j (psize - k)) ?d" using Data(4) tk split[of j] by simp
        then show ?thesis using step Inl by auto
      next
        case (Inr m)
        then have "sink w2 = sink w @ ?d" using w2(2) Data(4) tk split[of "psize - k"] k by simp
        then show ?thesis using step Inr w2(2) k by auto
      qed
    qed
  qed
qed

lemma writeOp_loop:
  assumes "written < length data \<or> written = 0 \<and> data = []"
  shows "\<exists>w' res. writeOp wr True w data written = Some (w', res) \<and> (case res of
      Inr m \<Rightarrow> m = length data \<and> sink w' = sink w @ drop written data
    | Inl e \<Rightarrow> \<exists>j. sink w' = sink w @ take j (drop written data))"
  using assms
proof (induction "length data - written" arbitrary: w written rule: less_induct)
  case less
  show ?case
  proof (cases rule: write_cases[of w "drop written data"])
    case (Error w' e)
    then show ?thesis using less.prems
      by (subst writeOp.simps) (auto intro: exI[of _ "0 :: nat"])
  next
    case (Data w' k)
    show ?thesis
    proof (cases "written + k < length data")
      case False
      then have "written + k = length data" "take k (drop written data) = drop written data"
        using Data(2) less.prems by auto
      then show ?thesis using Data less.prems by (subst writeOp.simps) auto
    next
      case True
      then have k: "0 < k" using Data(3) by auto
      then have lt: "length data - (written + k) < length data - written" using True by simp
      from less.hyps[OF lt, of w'] True obtain w2 res where
        w2: "writeOp wr True w' data (written + k) = Some (w2, res)"
        "case res of Inr m \<Rightarrow> m = length data \<and> sink w2 = sink w' @ drop (written + k) data
          | Inl e \<Rightarrow> \<exists>j. sink w2 = sink w' @ take j (drop (written + k) data)" by blast
      have step: "writeOp wr True w data written = Some (w2, res)"
        using Data(1) True w2(1) by (subst writeOp.simps) simp
      have d: "take k (drop written data) @ drop (written + k) data = drop written data"
        "take k (drop written data) @ take j (drop (written + k) data) = take (k + j) (drop written data)" for j
        by (metis append_take_drop_id drop_drop add.commute) (simp only: take_add drop_drop add.commute[of k written])
      show ?thesis
      proof (cases res)
        case (Inl e)
        then obtain j where "sink w2 = sink w' @ take j (drop (written + k) data)" using w2(2) by auto
        then have "sink w2 = sink w @ take (k + j) (drop written data)" using Data(4) d(2)[of j] by simp
        then show ?thesis using step Inl by auto
      next
        case (Inr m)
        then have "m = length data" "sink w2 = sink w @ drop written data" using w2(2) Data(4) d(1) by auto
        then show ?thesis using step Inr by auto
      qed
    qed
  qed
qed

end

context reader_contract
begin

lemma readAll_loop:
  assumes "ok r"
  shows "\<exists>r'. readOp read (\<lambda>_ _. Some ((), 4 * 1024)) r () buf =
    Some (r', cut_short (buf @ fst (content r)) (snd (content r)))"
  using assms
proof (induction "length (fst (content r))" arbitrary: r buf rule: less_induct)
  case less
  have p: "0 < (4 * 1024 :: nat)" by simp
  from less.prems p show ?case
  proof (cases rule: read_cases)
    case (Error r' e)
    then show ?thesis by (subst readOp.simps) (simp add: cut_short_def)
  next
    case (End r')
    then show ?thesis by (subst readOp.simps) (simp add: cut_short_def)
  next
    case (Data r' bs)
    then have "length (fst (content r')) < length (fst (content r))" by simp
    from less.hyps[OF this Data(5), of "buf @ bs"] show ?thesis
      using Data(1-4) by (subst readOp.simps) (simp add: not_less)
  qed
qed

lemma readExactly_loop:
  assumes "ok r" and "length buf \<le> n"
  shows "\<exists>r'. readOp read (\<lambda>_ buf. if length buf \<le> n then Some ((), n - length buf) else None) r () buf =
      Some (r', if n - length buf \<le> length (fst (content r)) then Inr (buf @ take (n - length buf) (fst (content r)))
                else cut_short (buf @ fst (content r)) (snd (content r))) \<and>
    (n - length buf \<le> length (fst (content r)) \<longrightarrow> ok r' \<and>
      content r' = (drop (n - length buf) (fst (content r)), snd (content r)))"
  using assms
proof (induction "length (fst (content r))" arbitrary: r buf rule: less_induct)
  case less
  show ?case
  proof (cases "length buf = n")
    case True
    then show ?thesis using less.prems by (subst readOp.simps) simp
  next
    case False
    then have p: "0 < n - length buf" using less.prems(2) by simp
    from less.prems(1) p show ?thesis
    proof (cases rule: read_cases)
      case (Error r' e)
      then show ?thesis using less.prems p by (subst readOp.simps) (simp add: cut_short_def)
    next
      case (End r')
      then show ?thesis using less.prems p by (subst readOp.simps) (simp add: cut_short_def)
    next
      case (Data r' bs)
      then have "length (fst (content r')) < length (fst (content r))" "length (buf @ bs) \<le> n"
        using less.prems(2) by auto
      from less.hyps[OF this(1) Data(5) this(2)] obtain r2 where
        r2: "readOp read (\<lambda>_ buf. if length buf \<le> n then Some ((), n - length buf) else None) r' () (buf @ bs) =
          Some (r2, if n - length (buf @ bs) \<le> length (fst (content r'))
            then Inr ((buf @ bs) @ take (n - length (buf @ bs)) (fst (content r')))
            else cut_short ((buf @ bs) @ fst (content r')) (snd (content r')))"
        "n - length (buf @ bs) \<le> length (fst (content r')) \<longrightarrow> ok r2 \<and>
          content r2 = (drop (n - length (buf @ bs)) (fst (content r')), snd (content r'))" by blast
      have le: "n - length (buf @ bs) \<le> length (fst (content r')) \<longleftrightarrow> n - length buf \<le> length (fst (content r))"
        "take (n - length buf) bs = bs" "drop (n - length buf) bs = []"
        "n - length buf - length bs = n - length (buf @ bs)"
        using Data(3,4) by auto
      show ?thesis using less.prems(2) p Data(1-4) r2 le
        by (subst readOp.simps) (auto simp: not_less)
    qed
  qed
qed

text \<open>until_end: the shortest part of the content with which the buffer ends with expect.\<close>

lemma readUntil_loop:
  assumes "ok r"
  shows "\<exists>r'. readOp read (\<lambda>_ buf. Some ((), if endsWith buf expect then 0 else 1)) r () buf =
      Some (r', if \<exists>k\<le>length (fst (content r)). suffix expect (buf @ take k (fst (content r)))
        then Inr (buf @ take (LEAST k. suffix expect (buf @ take k (fst (content r)))) (fst (content r)))
        else cut_short (buf @ fst (content r)) (snd (content r))) \<and>
    ((\<exists>k\<le>length (fst (content r)). suffix expect (buf @ take k (fst (content r)))) \<longrightarrow> ok r' \<and>
      content r' = (drop (LEAST k. suffix expect (buf @ take k (fst (content r)))) (fst (content r)), snd (content r)))"
  using assms
proof (induction "length (fst (content r))" arbitrary: r buf rule: less_induct)
  case less
  show ?case
  proof (cases "suffix expect buf")
    case True
    then have "(LEAST k. suffix expect (buf @ take k (fst (content r)))) = 0" by (intro Least_eq_0) simp
    moreover have "\<exists>k\<le>length (fst (content r)). suffix expect (buf @ take k (fst (content r)))"
      using True by (intro exI[of _ 0]) simp
    ultimately show ?thesis using True less.prems
      by (subst readOp.simps) (simp add: endsWith_suffix)
  next
    case False
    have p: "0 < (1::nat)" by simp
    from less.prems p show ?thesis
    proof (cases rule: read_cases)
      case (Error r' e)
      then show ?thesis using False by (subst readOp.simps) (simp add: cut_short_def endsWith_suffix)
    next
      case (End r')
      then show ?thesis using False by (subst readOp.simps) (simp add: cut_short_def endsWith_suffix)
    next
      case (Data r' bs)
      then obtain b where b: "bs = [b]" by (cases bs) auto
      let ?c = "fst (content r)" and ?c' = "fst (content r')"
      have c: "?c = b # ?c'" "snd (content r) = snd (content r')" using Data(4) b by (auto simp: prod_eq_iff)
      note ex = until_Cons[OF False, of b ?c', folded c(1)]
      note least = until_least_Cons[OF False, of b ?c', folded c(1)]
      have "length ?c' < length ?c" using c by simp
      from less.hyps[OF this Data(5), of "buf @ [b]"] obtain r2 where
        r2: "readOp read (\<lambda>_ buf. Some ((), if endsWith buf expect then 0 else 1)) r' () (buf @ [b]) =
          Some (r2, if \<exists>k\<le>length ?c'. suffix expect ((buf @ [b]) @ take k ?c')
            then Inr ((buf @ [b]) @ take (LEAST k. suffix expect ((buf @ [b]) @ take k ?c')) ?c')
            else cut_short ((buf @ [b]) @ ?c') (snd (content r')))"
        "(\<exists>k\<le>length ?c'. suffix expect ((buf @ [b]) @ take k ?c')) \<longrightarrow> ok r2 \<and>
          content r2 = (drop (LEAST k. suffix expect ((buf @ [b]) @ take k ?c')) ?c', snd (content r'))"
        by blast
      have step: "readOp read (\<lambda>_ buf. Some ((), if endsWith buf expect then 0 else 1)) r () buf =
          readOp read (\<lambda>_ buf. Some ((), if endsWith buf expect then 0 else 1)) r' () (buf @ [b])"
        using False Data(1) b by (subst readOp.simps) (simp add: endsWith_suffix)
      show ?thesis unfolding step r2(1) ex[symmetric] using r2(2) least unfolding ex[symmetric] c(2)
        by (cases "\<exists>k\<le>length ?c. suffix expect (buf @ take k ?c)") (auto simp: c)
    qed
  qed
qed

text \<open>copy, with a writer that keeps its contract as well.\<close>

lemma copy_loop:
  assumes "writer_contract wr sink" and "ok r"
  shows "\<exists>r' w' res. copyOp read wr r w n = Some (r', w', res) \<and>
    (case res of
       Inr m \<Rightarrow> snd (content r) = None \<and> m = n + length (fst (content r)) \<and> sink w' = sink w @ fst (content r)
     | Inl e \<Rightarrow> \<exists>j. sink w' = sink w @ take j (fst (content r)))"
  using assms(2)
proof (induction "length (fst (content r))" arbitrary: r w n rule: less_induct)
  case less
  have p: "0 < bufSize" by (simp add: bufSize_def)
  from less.prems p show ?case
  proof (cases rule: read_cases)
    case (Error r' e)
    then show ?thesis by (subst copyOp.simps) (auto intro: exI[of _ "0 :: nat"])
  next
    case (End r')
    then show ?thesis by (subst copyOp.simps) auto
  next
    case (Data r' bs)
    have "0 + length bs \<le> length bs" "0 < length bs" using Data(2) by auto
    from writer_contract.writePortion_loop[OF assms(1) this, of w n] obtain w1 res where
      w1: "writePortion wr bs w 0 (length bs) n = Some (w1, res)"
      "case res of Inr m \<Rightarrow> m = n + length bs \<and> sink w1 = sink w @ bs
        | Inl e \<Rightarrow> \<exists>j. sink w1 = sink w @ take j bs" by (auto cong: sum.case_cong)
    show ?thesis
    proof (cases res)
      case (Inl e)
      then obtain j where "sink w1 = sink w @ take j bs" using w1 by auto
      then have "sink w1 = sink w @ take (min j (length bs)) (fst (content r))" using Data(4) by (simp add: min_def)
      then show ?thesis using Data(1,2) w1(1) Inl by (subst copyOp.simps) auto
    next
      case (Inr m)
      have "length (fst (content r')) < length (fst (content r))" using Data(2,4) by simp
      from less.hyps[OF this Data(5), of w1 m] obtain r2 w2 res2 where
        r2: "copyOp read wr r' w1 m = Some (r2, w2, res2)"
        "case res2 of Inr m' \<Rightarrow> snd (content r') = None \<and> m' = m + length (fst (content r')) \<and>
            sink w2 = sink w1 @ fst (content r')
          | Inl e \<Rightarrow> \<exists>j. sink w2 = sink w1 @ take j (fst (content r'))" by blast
      have step: "copyOp read wr r w n = Some (r2, w2, res2)"
        using Data(1,2) w1(1) Inr r2(1) by (subst copyOp.simps) simp
      have m: "m = n + length bs" "sink w1 = sink w @ bs" using w1(2) Inr by auto
      have d: "bs @ take j (fst (content r')) = take (length bs + j) (fst (content r))" for j using Data(4) by simp
      show ?thesis
      proof (cases res2)
        case (Inl e)
        then obtain j where "sink w2 = sink w1 @ take j (fst (content r'))" using r2(2) by auto
        then have "sink w2 = sink w @ take (length bs + j) (fst (content r))" using m(2) d[of j] by simp
        then show ?thesis using step Inl by auto
      next
        case (Inr m')
        then have "snd (content r) = None" "m' = n + length (fst (content r))" "sink w2 = sink w @ fst (content r)"
          using r2(2) m Data(4) by auto
        then show ?thesis using step Inr by auto
      qed
    qed
  qed
qed

end

section \<open>Properties\<close>

text \<open>
  C28: with any combination of the library's readers over devices that keep the reader contract:
  readAll answers the whole content, and readExactly the next n bytes, leaving the rest; when
  there is less, it answers what there is at the end of the data, or the device's error. Neither
  ever hangs.
\<close>

theorem read_operations:
  assumes "reader_contract dev dc dok" and "reader_ok dok r"
  defines "c \<equiv> reader_content dc r"
  shows "map_option snd (readAll (reader_read dev) r) = Some (cut_short (fst c) (snd c)) \<and>
    (\<exists>r'. readExactly (reader_read dev) r n =
        Some (r', if n \<le> length (fst c) then Inr (take n (fst c)) else cut_short (fst c) (snd c)) \<and>
      (length (fst c) < n \<or> reader_ok dok r' \<and> reader_content dc r' = (drop n (fst c), snd c)))"
proof -
  note rc = readers_contract[OF assms(1)]
  from reader_contract.readAll_loop[OF rc assms(2), of "[]"] obtain r1 where
    "readAll (reader_read dev) r = Some (r1, cut_short (fst c) (snd c))"
    unfolding readAll_def c_def by auto
  moreover from reader_contract.readExactly_loop[OF rc assms(2), of "[]" n] obtain r' where
    "readExactly (reader_read dev) r n =
        Some (r', if n \<le> length (fst c) then Inr (take n (fst c)) else cut_short (fst c) (snd c))"
    "n \<le> length (fst c) \<longrightarrow> reader_ok dok r' \<and> reader_content dc r' = (drop n (fst c), snd c)"
    unfolding readExactly_def c_def by auto
  ultimately show ?thesis by (auto simp: not_less)
qed

theorem read_operations_witness:
  "map_option snd (readAll (reader_read string_read)
      (ConcatReader [Device ([1, 2], 0), PushbackReader (StringReader [4] 0) [3]])) = Some (Inr [1, 2, 3, 4] :: nat + u8 list)"
proof -
  have "reader_ok string_ok (ConcatReader [Device ([1, 2], 0), PushbackReader (StringReader [4] 0) [3]])"
    by (simp add: string_ok_def)
  from conjunct1[OF read_operations[OF string_contract this, of 0]] show ?thesis
    by (simp add: string_content_def cut_short_def)
qed

text \<open>
  readUntil answers the shortest part of the content that ends with the marker, and leaves
  exactly the rest in the reader.
\<close>

theorem readUntil_shortest:
  assumes "reader_contract dev dc dok" and "reader_ok dok r"
    and "reader_content dc r = (bs, ending)"
  shows "\<exists>r'. readUntil (reader_read dev) r expect =
      Some (r', if \<exists>k\<le>length bs. suffix expect (take k bs)
        then Inr (take (LEAST k. suffix expect (take k bs)) bs) else cut_short bs ending) \<and>
    ((\<exists>k\<le>length bs. suffix expect (take k bs)) \<longrightarrow> reader_ok dok r' \<and>
      reader_content dc r' = (drop (LEAST k. suffix expect (take k bs)) bs, ending))"
  using reader_contract.readUntil_loop[OF readers_contract[OF assms(1)] assms(2), of expect "[]"]
  unfolding readUntil_def assms(3) fst_conv snd_conv append_Nil by blast

theorem readUntil_shortest_witness:
  "\<exists>r'. readUntil (reader_read string_read) (StringReader [7] 0 :: (u8 list \<times> nat) reader) [7] =
     Some (r', if \<exists>k\<le>length [7::u8]. suffix [7] (take k [7::u8])
        then Inr (take (LEAST k. suffix [7] (take k [7::u8])) [7]) else cut_short [7] (None :: nat option))"
  using readUntil_shortest[OF string_contract, of "StringReader [7] 0" "[7]" None "[7]"] by auto

text \<open>Reading lines, one readLine after the other.\<close>

fun readLines :: "('r \<Rightarrow> nat \<Rightarrow> 'r \<times> 'e io_read) \<Rightarrow> nat \<Rightarrow> 'r \<Rightarrow> u8 list list option" where
  "readLines rd 0 r = Some []"
| "readLines rd (Suc n) r = (case readLine rd r of
     Some (r, Inr l) \<Rightarrow> map_option (\<lambda>ls. l # ls) (readLines rd n r) | _ \<Rightarrow> None)"

lemma suffix_marker: "suffix [x] xs \<longleftrightarrow> xs \<noteq> [] \<and> last xs = x"
  by (auto simp: suffix_def) (metis append_butlast_last_id)

lemma least_line_end:
  assumes "(10::u8) \<notin> set l"
  shows "(LEAST k. suffix [10] (take k (l @ [10] @ rest))) = Suc (length l)"
proof (rule Least_equality)
  show "suffix [10] (take (Suc (length l)) (l @ [10] @ rest))" by (simp add: suffix_def)
next
  fix k assume k: "suffix [10] (take k (l @ [10] @ rest))"
  show "Suc (length l) \<le> k"
  proof (rule ccontr)
    assume "\<not> Suc (length l) \<le> k"
    then have "take k (l @ [10] @ rest) = take k l" by simp
    then have "10 \<in> set (take k l)" using k by (metis list.set_intros(1) set_mono_suffix subsetD)
    then show False using assms by (meson in_set_takeD)
  qed
qed

lemma readLine_line:
  assumes "reader_contract dev dc dok" and "reader_ok dok r"
    and "reader_content dc r = (l @ [10] @ rest, ending)" and "10 \<notin> set l"
  shows "\<exists>r'. readLine (reader_read dev) r = Some (r', Inr l) \<and> reader_ok dok r' \<and> reader_content dc r' = (rest, ending)"
proof -
  have ex: "\<exists>k\<le>length (l @ [10] @ rest). suffix [10] (take k (l @ [10] @ rest))"
    by (rule exI[of _ "Suc (length l)"]) (simp add: suffix_def)
  have "\<exists>r'. readUntil (reader_read dev) r [10] = Some (r', Inr (l @ [10])) \<and>
      reader_ok dok r' \<and> reader_content dc r' = (rest, ending)"
    using reader_contract.readUntil_loop[OF readers_contract[OF assms(1)] assms(2), of "[10]" "[]"] ex
    unfolding readUntil_def assms(3) fst_conv snd_conv append_Nil least_line_end[OF assms(4)] by auto
  then show ?thesis
    by (auto simp: readLine_def endLineMarker_def hasEndLineMarker_def endsWith_suffix suffix_def)
qed

text \<open>reading lines gives back the lines a text was made of.\<close>

theorem readLine_roundtrip:
  assumes "reader_contract dev dc dok" and "reader_ok dok r"
    and "reader_content dc r = (concat (map (\<lambda>l. l @ [10]) ls), ending)" and "\<And>l. l \<in> set ls \<Longrightarrow> 10 \<notin> set l"
  shows "readLines (reader_read dev) (length ls) r = Some ls"
  using assms(2-)
proof (induction ls arbitrary: r)
  case (Cons l ls)
  from readLine_line[OF assms(1) Cons.prems(1), of l "concat (map (\<lambda>l. l @ [10]) ls)" ending] Cons.prems
  obtain r' where r': "readLine (reader_read dev) r = Some (r', Inr l)" "reader_ok dok r'"
    "reader_content dc r' = (concat (map (\<lambda>l. l @ [10]) ls), ending)" by auto
  then show ?case using Cons.IH[OF r'(2,3)] Cons.prems(3) by auto
qed simp

theorem readLine_roundtrip_witness:
  "readLines (reader_read string_read :: _ \<Rightarrow> _ \<Rightarrow> _ \<times> nat io_read) 2
     (StringReader [65, 10, 66, 67, 10] 0 :: (u8 list \<times> nat) reader) = Some [[65], [66, 67]]"
proof -
  let ?r = "StringReader [65, 10, 66, 67, 10] 0 :: (u8 list \<times> nat) reader"
  have ok: "reader_ok string_ok ?r" by simp
  have c: "reader_content string_content ?r = (concat (map (\<lambda>l. l @ [10]) [[65], [66, 67]]), None :: nat option)"
    by simp
  have nl: "10 \<notin> set l" if "l \<in> set [[65], [66, 67 :: u8]]" for l using that by auto
  have len: "length [[65], [66, 67 :: u8]] = 2" by simp
  show ?thesis by (rule readLine_roundtrip[OF string_contract ok c nl, unfolded len])
qed

text \<open>
  C29: copy writes what it reads: it returns, answers the length of the source's content when
  all of it has been written, and an error only after writing a part of it.
\<close>

theorem copy_copies:
  assumes "reader_contract dev dc dok" and "reader_ok dok r" and "writer_contract wr sink"
  shows "\<exists>r' w' res. copy (reader_read dev) wr r w = Some (r', w', res) \<and>
    (case res of
       Inr m \<Rightarrow> snd (reader_content dc r) = None \<and> m = length (fst (reader_content dc r)) \<and>
         sink w' = sink w @ fst (reader_content dc r)
     | Inl e \<Rightarrow> \<exists>j. sink w' = sink w @ take j (fst (reader_content dc r)))"
  using reader_contract.copy_loop[OF readers_contract[OF assms(1)] assms(3,2), of w 0]
  by (simp add: copy_def cong: sum.case_cong)

theorem copy_copies_witness:
  "\<exists>r' w' res. copy (reader_read string_read) string_write (StringReader [1, 2, 3] 1 :: (u8 list \<times> nat) reader) [9] =
      Some (r', w', res :: nat + nat) \<and>
    (case res of Inr m \<Rightarrow> m = 2 \<and> w' = [9, 2, 3] | Inl e \<Rightarrow> \<exists>j. w' = [9] @ take j [2, 3])"
proof -
  have "reader_ok string_ok (StringReader [1, 2, 3] 1 :: (u8 list \<times> nat) reader)" by simp
  from copy_copies[OF string_contract this sw.writer_contract_axioms, of "[9]"] show ?thesis
    by (simp add: numeral_2_eq_2 cong: sum.case_cong)
qed

text \<open>
  writeExactly writes all of the data, or stops at the writer's error with a part written;
  it never spins, because the writer makes progress.
\<close>

theorem writeExactly_writes_all:
  assumes "writer_contract wr sink"
  shows "\<exists>w' res. writeExactly wr w data = Some (w', res) \<and> (case res of
      Inr m \<Rightarrow> m = length data \<and> sink w' = sink w @ data
    | Inl e \<Rightarrow> \<exists>j. sink w' = sink w @ take j data)"
  using writer_contract.writeOp_loop[OF assms, of 0 data w]
  by (auto simp: writeExactly_def cong: sum.case_cong)

theorem writeExactly_writes_all_witness:
  "\<exists>w' res. writeExactly string_write [9] [1, 2] = Some (w', res :: nat + nat) \<and>
    (case res of Inr m \<Rightarrow> m = 2 \<and> w' = [9, 1, 2] | Inl e \<Rightarrow> \<exists>j. w' = [9] @ take j [1, 2])"
  using writeExactly_writes_all[OF sw.writer_contract_axioms, of "[9]" "[1, 2]"]
  by (simp add: numeral_2_eq_2 cong: sum.case_cong)

end
