(* ===== verification/AllOp.thy ===== *)
theory AllOp
  imports Prelude
begin

text \<open>
  include/nhope/async/all.h: all starts one asynchronous task per argument and answers a future of
  all results. The continuations of the tasks run on the operation's own AOContext, one at a time
  and only while it is open (AOContext, Strand); start itself may run on another thread, so its
  steps interleave with the continuations.

  The promise is the list of what was put into it; putting a second result throws
  PromiseAlreadySatisfiedError, which the operations below answer with None.
\<close>

section \<open>The operation\<close>

record ('r, 'e) all_op =
  m_result :: "'r list"
  m_taskFinishedCount :: nat
  m_promise :: "('e + 'r list) option"
  m_ctx_open :: bool

definition set_promise :: "('e + 'r list) \<Rightarrow> ('r, 'e) all_op \<Rightarrow> ('r, 'e) all_op option" where
  "set_promise v op = (if m_promise op = None then Some (op\<lparr>m_promise := Some v\<rparr>) else None)"

definition close_ctx :: "('r, 'e) all_op \<Rightarrow> ('r, 'e) all_op" where
  "close_ctx op = op\<lparr>m_ctx_open := False\<rparr>"

text \<open>AllOpForVec<ResT, ArgT>.\<close>

definition taskFinished :: "nat \<Rightarrow> 'r \<Rightarrow> ('r, 'e) all_op \<Rightarrow> ('r, 'e) all_op option" where
  "taskFinished i r op =
     (if i < length (m_result op) then
        let op = op\<lparr>m_result := (m_result op)[i := r], m_taskFinishedCount := m_taskFinishedCount op + 1\<rparr> in
        if m_taskFinishedCount op = length (m_result op) then set_promise (Inr (m_result op)) op else Some op
      else None)"

definition taskFailed :: "'e \<Rightarrow> ('r, 'e) all_op \<Rightarrow> ('r, 'e) all_op option" where
  "taskFailed e op = map_option close_ctx (set_promise (Inl e) op)"

text \<open>AllOpForTuple closes its context before it sets the promise.\<close>

definition taskFailed_tuple :: "'e \<Rightarrow> ('r, 'e) all_op \<Rightarrow> ('r, 'e) all_op option" where
  "taskFailed_tuple e op = set_promise (Inl e) (close_ctx op)"

text \<open>
  The operation on no arguments, and on n of them (the tuple one is not made for no functions); dflt is the value of a ResT that has
  not been assigned yet.
\<close>

definition all_make :: "'r \<Rightarrow> nat \<Rightarrow> ('r, 'e) all_op" where
  "all_make dflt n =
     (let op = \<lparr>m_result = [], m_taskFinishedCount = 0, m_promise = None, m_ctx_open = True\<rparr> in
      if n = 0 then op\<lparr>m_promise := Some (Inr [])\<rparr> else op\<lparr>m_result := replicate n dflt\<rparr>)"

text \<open>
  all on n functions: a ready future for none, and the tuple of default values to fill
  otherwise (its components as values of one type).
\<close>

definition all_tuple_make :: "'r \<Rightarrow> nat \<Rightarrow> ('r, 'e) all_op" where
  "all_tuple_make dflt taskCount =
     (if taskCount = 0
      then \<lparr>m_result = [], m_taskFinishedCount = 0, m_promise = Some (Inr []), m_ctx_open = True\<rparr>
      else \<lparr>m_result = replicate taskCount dflt, m_taskFinishedCount = 0, m_promise = None, m_ctx_open = True\<rparr>)"

definition taskFinished_tuple :: "nat \<Rightarrow> nat \<Rightarrow> 'r \<Rightarrow> ('r, 'e) all_op \<Rightarrow> ('r, 'e) all_op option" where
  "taskFinished_tuple taskCount i r op =
     (if i < taskCount then
        let op = op\<lparr>m_result := (m_result op)[i := r], m_taskFinishedCount := m_taskFinishedCount op + 1\<rparr> in
        if m_taskFinishedCount op = taskCount then set_promise (Inr (m_result op)) op else Some op
      else None)"

text \<open>AllOpForVec<void, ArgT> keeps only the numbers.\<close>

record 'e all_void =
  v_taskCount :: nat
  v_taskFinishedCount :: nat
  v_promise :: "('e + unit) option"
  v_ctx_open :: bool

definition void_make :: "nat \<Rightarrow> 'e all_void" where
  "void_make n =
     (if n = 0 then \<lparr>v_taskCount = 0, v_taskFinishedCount = 0, v_promise = Some (Inr ()), v_ctx_open = True\<rparr>
      else \<lparr>v_taskCount = n, v_taskFinishedCount = 0, v_promise = None, v_ctx_open = True\<rparr>)"

definition void_finished :: "'e all_void \<Rightarrow> 'e all_void option" where
  "void_finished op =
     (let op = op\<lparr>v_taskFinishedCount := v_taskFinishedCount op + 1\<rparr> in
      if v_taskFinishedCount op = v_taskCount op then
        if v_promise op = None then Some (op\<lparr>v_promise := Some (Inr ())\<rparr>) else None
      else Some op)"

definition void_failed :: "'e \<Rightarrow> 'e all_void \<Rightarrow> 'e all_void option" where
  "void_failed e op =
     (if v_promise op = None then Some (op\<lparr>v_promise := Some (Inl e), v_ctx_open := False\<rparr>) else None)"

text \<open>The void operation is the vector operation whose results are forgotten.\<close>

definition forget :: "('r, 'e) all_op \<Rightarrow> 'e all_void" where
  "forget op = \<lparr>v_taskCount = length (m_result op), v_taskFinishedCount = m_taskFinishedCount op,
     v_promise = map_option (map_sum id (\<lambda>_. ())) (m_promise op), v_ctx_open = m_ctx_open op\<rparr>"

lemma forget_make: "forget (all_make dflt n) = void_make n"
  by (simp add: forget_def all_make_def void_make_def Let_def)

lemma forget_finished: "i < length (m_result op) \<Longrightarrow> map_option forget (taskFinished i r op) = void_finished (forget op)"
  by (simp add: taskFinished_def void_finished_def forget_def set_promise_def Let_def)

lemma forget_failed: "map_option forget (taskFailed e op) = void_failed e (forget op)"
  by (simp add: taskFailed_def void_failed_def forget_def set_promise_def close_ctx_def)

text \<open>The tuple operation works like the vector one, but for what its start does on an exception.\<close>

lemma taskFailed_tuple_same: "taskFailed_tuple e op = taskFailed e op"
  by (simp add: taskFailed_tuple_def taskFailed_def set_promise_def close_ctx_def)

lemma taskFinished_tuple_same: "taskFinished_tuple (length (m_result op)) i r op = taskFinished i r op"
  by (simp add: taskFinished_tuple_def taskFinished_def Let_def)

lemma all_tuple_make_same: "all_tuple_make dflt n = all_make dflt n"
  by (simp add: all_tuple_make_def all_make_def Let_def)

section \<open>A run of the operation\<close>

text \<open>
  start: the loop at argument i, or what start has answered: its future, or an exceptional one
  with the exception thrown by the user's function or by then on a closed context (closedErr).
  outcome and failed are ghosts: the results and exceptions the continuations were given.
\<close>

datatype all_kind = ForVec | ForTuple

fun op_make :: "all_kind \<Rightarrow> 'r \<Rightarrow> nat \<Rightarrow> ('r, 'e) all_op" where
  "op_make ForVec dflt n = all_make dflt n"
| "op_make ForTuple dflt n = all_tuple_make dflt n"

fun op_finished :: "all_kind \<Rightarrow> nat \<Rightarrow> nat \<Rightarrow> 'r \<Rightarrow> ('r, 'e) all_op \<Rightarrow> ('r, 'e) all_op option" where
  "op_finished ForVec n i r op = taskFinished i r op"
| "op_finished ForTuple n i r op = taskFinished_tuple n i r op"

fun op_failed :: "all_kind \<Rightarrow> 'e \<Rightarrow> ('r, 'e) all_op \<Rightarrow> ('r, 'e) all_op option" where
  "op_failed ForVec e op = taskFailed e op"
| "op_failed ForTuple e op = taskFailed_tuple e op"

datatype 'e all_start = Starting nat | Answered | Threw 'e

record ('r, 'e) all_run =
  a_op :: "('r, 'e) all_op"
  a_start :: "'e all_start"
  a_running :: "nat set"
  a_outcome :: "nat \<rightharpoonup> 'r"
  a_failed :: "'e list"

definition all_init :: "all_kind \<Rightarrow> 'r \<Rightarrow> nat \<Rightarrow> ('r, 'e) all_run" where
  "all_init k dflt n = \<lparr>a_op = op_make k dflt n, a_start = (if n = 0 then Answered else Starting 0),
     a_running = {}, a_outcome = Map.empty, a_failed = []\<rparr>"

text \<open>
  start's loop body (startTasks of the tuple one): start the task, attach its continuations, or
  leave with an exception; then the vector operation closes its context, the tuple one does not.
\<close>

definition start_task :: "nat \<Rightarrow> nat \<Rightarrow> ('r, 'e) all_run \<Rightarrow> ('r, 'e) all_run" where
  "start_task n i s = s\<lparr>a_running := insert i (a_running s),
     a_start := (if i + 1 < n then Starting (i + 1) else Answered)\<rparr>"

definition start_throws :: "'e \<Rightarrow> ('r, 'e) all_run \<Rightarrow> ('r, 'e) all_run" where
  "start_throws e s = s\<lparr>a_op := close_ctx (a_op s), a_start := Threw e\<rparr>"

definition start_throws_tuple :: "'e \<Rightarrow> ('r, 'e) all_run \<Rightarrow> ('r, 'e) all_run" where
  "start_throws_tuple e s = s\<lparr>a_start := Threw e\<rparr>"

fun op_throws :: "all_kind \<Rightarrow> 'e \<Rightarrow> ('r, 'e) all_run \<Rightarrow> ('r, 'e) all_run" where
  "op_throws ForVec e s = start_throws e s"
| "op_throws ForTuple e s = start_throws_tuple e s"

inductive all_step :: "all_kind \<Rightarrow> nat \<Rightarrow> 'e \<Rightarrow> ('r, 'e) all_run \<Rightarrow> ('r, 'e) all_run option \<Rightarrow> bool" for k n closedErr where
  all_start_ok: "a_start s = Starting i \<Longrightarrow> m_ctx_open (a_op s) \<Longrightarrow> all_step k n closedErr s (Some (start_task n i s))"
| all_start_throws: "a_start s = Starting i \<Longrightarrow> all_step k n closedErr s (Some (op_throws k e s))"
| all_start_closed: "a_start s = Starting i \<Longrightarrow> \<not> m_ctx_open (a_op s) \<Longrightarrow>
    all_step k n closedErr s (Some (op_throws k closedErr s))"
| all_finish: "i \<in> a_running s \<Longrightarrow> m_ctx_open (a_op s) \<Longrightarrow>
    all_step k n closedErr s (map_option (\<lambda>op. s\<lparr>a_op := op, a_running := a_running s - {i},
      a_outcome := (a_outcome s)(i \<mapsto> r)\<rparr>) (op_finished k n i r (a_op s)))"
| all_fail: "i \<in> a_running s \<Longrightarrow> m_ctx_open (a_op s) \<Longrightarrow>
    all_step k n closedErr s (map_option (\<lambda>op. s\<lparr>a_op := op, a_running := a_running s - {i},
      a_failed := a_failed s @ [e]\<rparr>) (op_failed k e (a_op s)))"
| all_parent_closes: "all_step k n closedErr s (Some (s\<lparr>a_op := close_ctx (a_op s)\<rparr>))"

inductive all_reachable :: "all_kind \<Rightarrow> 'r \<Rightarrow> nat \<Rightarrow> 'e \<Rightarrow> ('r, 'e) all_run \<Rightarrow> bool" for k dflt n closedErr where
  all_reach_init: "all_reachable k dflt n closedErr (all_init k dflt n)"
| all_reach_step: "all_reachable k dflt n closedErr s \<Longrightarrow> all_step k n closedErr s (Some s') \<Longrightarrow>
    all_reachable k dflt n closedErr s'"

text \<open>Which tasks have been started.\<close>

definition started :: "nat \<Rightarrow> ('r, 'e) all_run \<Rightarrow> nat set \<Rightarrow> bool" where
  "started n s T \<longleftrightarrow> (case a_start s of Starting i \<Rightarrow> i < n \<and> T = {..<i} | Answered \<Rightarrow> T = {..<n} | Threw e \<Rightarrow> T \<subseteq> {..<n})"

lemma started_subset: "started n s T \<Longrightarrow> T \<subseteq> {..<n}"
  by (auto simp: started_def split: all_start.splits)

text \<open>The tasks: none both finished and running, and unless one failed all started ones are either.\<close>

definition tasks_inv :: "nat \<Rightarrow> ('r, 'e) all_run \<Rightarrow> bool" where
  "tasks_inv n s \<longleftrightarrow> dom (a_outcome s) \<inter> a_running s = {} \<and>
     (\<exists>T. started n s T \<and> dom (a_outcome s) \<union> a_running s \<subseteq> T)"

text \<open>The operation: its counter, results and promise tell the outcomes.\<close>

definition op_inv :: "'r \<Rightarrow> nat \<Rightarrow> ('r, 'e) all_op \<Rightarrow> (nat \<rightharpoonup> 'r) \<Rightarrow> 'e list \<Rightarrow> bool" where
  "op_inv dflt n op out failed \<longleftrightarrow>
     length (m_result op) = n \<and> m_taskFinishedCount op = card (dom out) \<and>
     (\<forall>i<n. m_result op ! i = (case out i of None \<Rightarrow> dflt | Some r \<Rightarrow> r)) \<and>
     (case m_promise op of
        None \<Rightarrow> failed = [] \<and> dom out \<noteq> {..<n}
      | Some (Inr rs) \<Rightarrow> failed = [] \<and> rs = m_result op \<and> dom out = {..<n}
      | Some (Inl e) \<Rightarrow> failed = [e] \<and> \<not> m_ctx_open op)"

definition all_inv :: "'r \<Rightarrow> nat \<Rightarrow> ('r, 'e) all_run \<Rightarrow> bool" where
  "all_inv dflt n s \<longleftrightarrow> tasks_inv n s \<and> op_inv dflt n (a_op s) (a_outcome s) (a_failed s)"

lemma op_make_eq: "op_make k dflt n = all_make dflt n"
  by (cases k) (simp_all add: all_tuple_make_same)

lemma op_finished_eq: "length (m_result op) = n \<Longrightarrow> op_finished k n i r op = taskFinished i r op"
  using taskFinished_tuple_same[of op] by (cases k) auto

lemma op_failed_eq: "op_failed k e op = taskFailed e op"
  by (cases k) (simp_all add: taskFailed_tuple_same)

lemma all_inv_init: "all_inv dflt n (all_init k dflt n)"
  by (auto simp: all_inv_def tasks_inv_def op_inv_def all_init_def op_make_eq all_make_def started_def Let_def)

lemma tasks_inv_bound:
  assumes "tasks_inv n s"
  shows "dom (a_outcome s) \<subseteq> {..<n}" and "i \<in> a_running s \<Longrightarrow> i < n \<and> i \<notin> dom (a_outcome s)"
  using assms started_subset[of n s] unfolding tasks_inv_def by blast+

lemma op_inv_close: "op_inv dflt n op out failed \<Longrightarrow> op_inv dflt n (close_ctx op) out failed"
  by (auto simp: op_inv_def close_ctx_def split: option.splits sum.splits)

text \<open>A running task meets an unset promise as long as the context is open.\<close>

lemma op_inv_pending:
  assumes "op_inv dflt n op out failed" and "m_ctx_open op" and "i < n" and "i \<notin> dom out"
  shows "m_promise op = None \<and> failed = []"
  using assms by (auto simp: op_inv_def split: option.splits sum.splits)

lemma op_inv_finish:
  assumes inv: "op_inv dflt n op out failed" and o: "m_ctx_open op"
    and i: "i < n" "i \<notin> dom out" "dom out \<subseteq> {..<n}"
  shows "\<exists>op'. taskFinished i r op = Some op' \<and> op_inv dflt n op' (out(i \<mapsto> r)) failed"
proof -
  note p = op_inv_pending[OF inv o i(1,2)]
  have l: "length (m_result op) = n" "m_taskFinishedCount op = card (dom out)" "finite (dom out)"
    using inv finite_subset[OF i(3)] by (auto simp: op_inv_def)
  have card: "card (insert i (dom out)) = Suc (card (dom out))" using i l(3) by simp
  have full: "Suc (card (dom out)) = n \<longleftrightarrow> insert i (dom out) = {..<n}"
  proof
    assume "Suc (card (dom out)) = n"
    then have "card (insert i (dom out)) = card {..<n}" using card by simp
    then show "insert i (dom out) = {..<n}" by (intro card_subset_eq) (use i in auto)
  next
    assume "insert i (dom out) = {..<n}"
    then show "Suc (card (dom out)) = n" using card by simp
  qed
  have res: "\<forall>j<n. (m_result op)[i := r] ! j = (case (out(i \<mapsto> r)) j of None \<Rightarrow> dflt | Some r \<Rightarrow> r)"
    using inv l by (auto simp: op_inv_def nth_list_update)
  show ?thesis
  proof (cases "Suc (card (dom out)) = n")
    case True
    then show ?thesis using l i p card full res
      by (simp add: taskFinished_def set_promise_def Let_def op_inv_def)
  next
    case False
    then show ?thesis using l i p card full res
      by (simp add: taskFinished_def Let_def op_inv_def)
  qed
qed

lemma op_inv_fail:
  assumes inv: "op_inv dflt n op out failed" and o: "m_ctx_open op" and i: "i < n" "i \<notin> dom out"
  shows "\<exists>op'. taskFailed e op = Some op' \<and> op_inv dflt n op' out (failed @ [e])"
  using inv op_inv_pending[OF inv o i] by (auto simp: op_inv_def taskFailed_def set_promise_def close_ctx_def)

text \<open>Taking a task from the running ones, finished or not.\<close>

lemma tasks_inv_done:
  assumes "tasks_inv n s" and i: "i \<in> a_running s" and "a_start s' = a_start s"
    and r: "a_running s' = a_running s - {i}" and d: "dom (a_outcome s') \<subseteq> insert i (dom (a_outcome s))"
  shows "tasks_inv n s'"
proof -
  obtain T where T: "started n s T" "dom (a_outcome s) \<union> a_running s \<subseteq> T" "dom (a_outcome s) \<inter> a_running s = {}"
    using assms(1) by (auto simp: tasks_inv_def)
  have "started n s' T" using T(1) assms(3) by (simp add: started_def)
  moreover have "dom (a_outcome s') \<union> a_running s' \<subseteq> T" using T(2) i r d by blast
  moreover have "dom (a_outcome s') \<inter> a_running s' = {}" using T(3) r d by blast
  ultimately show ?thesis by (auto simp: tasks_inv_def)
qed

lemma tasks_inv_start:
  assumes "tasks_inv n s" and a: "a_start s = Starting i"
  shows "tasks_inv n (start_task n i s)" and "tasks_inv n (op_throws k e s)"
proof -
  obtain T where T: "started n s T" "dom (a_outcome s) \<union> a_running s \<subseteq> T" "dom (a_outcome s) \<inter> a_running s = {}"
    using assms(1) by (auto simp: tasks_inv_def)
  then have t: "i < n" "T = {..<i}" using a by (auto simp: started_def)
  have "started n (start_task n i s) (insert i T)" using t by (auto simp: started_def start_task_def)
  moreover have "i \<notin> dom (a_outcome s)" using T t by auto
  ultimately show "tasks_inv n (start_task n i s)"
    unfolding tasks_inv_def using T(2,3) by (intro conjI exI[of _ "insert i T"]) (auto simp: start_task_def)
  have "started n (op_throws k e s) T"
    using t by (cases k) (auto simp: started_def start_throws_def start_throws_tuple_def)
  then show "tasks_inv n (op_throws k e s)"
    unfolding tasks_inv_def using T(2,3)
    by (intro conjI exI[of _ T]; cases k) (auto simp: start_throws_def start_throws_tuple_def)
qed

lemma all_inv_step:
  assumes inv: "all_inv dflt n s" and "all_step k n closedErr s t"
  shows "\<exists>s'. t = Some s' \<and> all_inv dflt n s'"
proof -
  have t: "tasks_inv n s" and o: "op_inv dflt n (a_op s) (a_outcome s) (a_failed s)"
    using inv by (auto simp: all_inv_def)
  then have l: "length (m_result (a_op s)) = n" by (simp add: op_inv_def)
  have throw: "all_inv dflt n (op_throws k e s)" if "a_start s = Starting i" for e i
    using tasks_inv_start(2)[OF t that, of k e] op_inv_close[OF o] o
    by (cases k) (simp_all add: all_inv_def start_throws_def start_throws_tuple_def)
  from assms(2) show ?thesis
  proof cases
    case (all_start_ok i)
    then show ?thesis using tasks_inv_start(1)[OF t, of i] o by (simp add: all_inv_def start_task_def)
  next
    case (all_finish i r)
    note b = tasks_inv_bound[OF t] 
    from op_inv_finish[OF o all_finish(3), of i r] b all_finish(2) obtain op' where
      "taskFinished i r (a_op s) = Some op'" "op_inv dflt n op' ((a_outcome s)(i \<mapsto> r)) (a_failed s)" by blast
    moreover have "tasks_inv n (s\<lparr>a_op := op', a_running := a_running s - {i}, a_outcome := (a_outcome s)(i \<mapsto> r)\<rparr>)"
      by (rule tasks_inv_done[OF t all_finish(2)]) auto
    ultimately show ?thesis using all_finish(1) by (simp add: all_inv_def op_finished_eq[OF l])
  next
    case (all_fail i e)
    from op_inv_fail[OF o all_fail(3), of i e] tasks_inv_bound[OF t] all_fail(2) obtain op' where
      "taskFailed e (a_op s) = Some op'" "op_inv dflt n op' (a_outcome s) (a_failed s @ [e])" by blast
    moreover have "tasks_inv n (s\<lparr>a_op := op', a_running := a_running s - {i}, a_failed := a_failed s @ [e]\<rparr>)"
      by (rule tasks_inv_done[OF t all_fail(2)]) auto
    ultimately show ?thesis using all_fail(1) by (simp add: all_inv_def op_failed_eq)
  next
    case all_parent_closes
    have "tasks_inv n (s\<lparr>a_op := close_ctx (a_op s)\<rparr>)"
      using t by (auto simp: tasks_inv_def started_def split: all_start.splits)
    then show ?thesis using all_parent_closes op_inv_close[OF o] by (simp add: all_inv_def)
  qed (use throw in auto)
qed

lemma all_reachable_inv: "all_reachable k dflt n closedErr s \<Longrightarrow> all_inv dflt n s"
proof (induction rule: all_reachable.induct)
  case (all_reach_step s s')
  then show ?case using all_inv_step[OF all_reach_step.IH all_reach_step.hyps(2)] by simp
qed (rule all_inv_init)

section \<open>What all answers\<close>

text \<open>
  start returns the promise's future, or, when starting a task throws, a future that has that
  exception; then nobody sees the promise. None: start is still starting, or the future has no
  result from the operation.
\<close>

definition all_answer :: "('r, 'e) all_run \<Rightarrow> ('e + 'r list) option" where
  "all_answer s =
     (case a_start s of
        Starting i \<Rightarrow> None
      | Answered \<Rightarrow> m_promise (a_op s)
      | Threw e \<Rightarrow> Some (Inl e))"

lemma promise_stays:
  assumes "all_step k n closedErr s (Some s')" and "m_promise (a_op s) = Some r"
  shows "m_promise (a_op s') = Some r"
  using assms(1)
proof cases
  case (all_start_throws i e)
  then show ?thesis using assms(2) by (cases k) (simp_all add: start_throws_def start_throws_tuple_def close_ctx_def)
next
  case (all_start_closed i)
  then show ?thesis using assms(2) by (cases k) (simp_all add: start_throws_def start_throws_tuple_def close_ctx_def)
next
  case (all_finish i r)
  then show ?thesis using assms(2)
    by (cases k) (auto simp: taskFinished_def taskFinished_tuple_def set_promise_def Let_def split: if_splits)
next
  case (all_fail i e)
  then show ?thesis using assms(2)
    by (cases k) (auto simp: taskFailed_def taskFailed_tuple_def set_promise_def close_ctx_def)
qed (use assms(2) in \<open>simp_all add: start_task_def close_ctx_def\<close>)

lemma start_stays:
  assumes "all_step k n closedErr s (Some s')" and "\<forall>i. a_start s \<noteq> Starting i"
  shows "a_start s' = a_start s"
  using assms by cases (auto simp: start_task_def eq_commute[of "Some _" "map_option _ _"])

lemma all_answer_stays:
  assumes "all_step k n closedErr s (Some s')" and "all_answer s = Some r"
  shows "all_answer s' = Some r"
  using start_stays[OF assms(1)] promise_stays[OF assms(1)] assms(2)
  by (cases "a_start s") (simp_all add: all_answer_def)


text \<open>Two tasks of which the second finishes first.\<close>

lemma all_example:
  "all_reachable ForVec (0::nat) 2 e \<lparr>a_op = \<lparr>m_result = [5, 7], m_taskFinishedCount = 2, m_promise = Some (Inr [5, 7]),
      m_ctx_open = True\<rparr>, a_start = Answered, a_running = {}, a_outcome = [1 \<mapsto> 7, 0 \<mapsto> 5], a_failed = []\<rparr>"
proof -
  let ?op = "\<lambda>rs k p. \<lparr>m_result = rs, m_taskFinishedCount = k, m_promise = p, m_ctx_open = True\<rparr> :: (nat, 'e) all_op"
  let ?s = "\<lambda>rs k p st run out. \<lparr>a_op = ?op rs k p, a_start = st, a_running = run, a_outcome = out, a_failed = []\<rparr>"
  have "all_reachable ForVec 0 2 e (?s [0, 0] 0 None (Starting 0) {} Map.empty)"
    using all_reach_init[of ForVec 0 2 e] by (simp add: all_init_def all_make_def numeral_2_eq_2)
  from all_reach_step[OF this all_start_ok[of _ 0]]
  have "all_reachable ForVec 0 2 e (?s [0, 0] 0 None (Starting 1) {0} Map.empty)" by (simp add: start_task_def)
  from all_reach_step[OF this all_start_ok[of _ 1]]
  have "all_reachable ForVec 0 2 e (?s [0, 0] 0 None Answered {1, 0} Map.empty)" by (simp add: start_task_def)
  from all_reach_step[OF this, of "?s [0, 7] 1 None Answered {0} [1 \<mapsto> 7]"]
  have "all_reachable ForVec 0 2 e (?s [0, 7] 1 None Answered {0} [1 \<mapsto> 7])"
    using all_finish[of 1 "?s [0, 0] 0 None Answered {1, 0} Map.empty" ForVec 2 e 7]
    by (simp add: taskFinished_def Let_def)
  from all_reach_step[OF this, of "?s [5, 7] 2 (Some (Inr [5, 7])) Answered {} [1 \<mapsto> 7, 0 \<mapsto> 5]"]
  show ?thesis
    using all_finish[of 0 "?s [0, 7] 1 None Answered {0} [1 \<mapsto> 7]" ForVec 2 e 5]
    by (simp add: taskFinished_def set_promise_def Let_def numeral_2_eq_2)
qed


text \<open>
  When a task fails while start is still starting others, start meets a closed context, and
  what it answers is not the future with the task's exception but one with AOContextClosed.
\<close>

theorem all_start_hides_error:
  "\<exists>s. all_reachable ForVec (0::nat) 2 closedErr s \<and> a_start s = Threw closedErr \<and> m_promise (a_op s) = Some (Inl e)"
proof -
  let ?op = "\<lambda>p b. \<lparr>m_result = [0, 0], m_taskFinishedCount = 0, m_promise = p, m_ctx_open = b\<rparr> :: (nat, 'a) all_op"
  let ?s = "\<lambda>p b st run f. \<lparr>a_op = ?op p b, a_start = st, a_running = run, a_outcome = Map.empty, a_failed = f\<rparr>"
  have "all_reachable ForVec 0 2 closedErr (?s None True (Starting 0) {} [])"
    using all_reach_init[of ForVec 0 2 closedErr] by (simp add: all_init_def all_make_def numeral_2_eq_2)
  from all_reach_step[OF this all_start_ok[of _ 0]]
  have "all_reachable ForVec 0 2 closedErr (?s None True (Starting 1) {0} [])" by (simp add: start_task_def)
  from all_reach_step[OF this, of "?s (Some (Inl e)) False (Starting 1) {} [e]"]
  have "all_reachable ForVec 0 2 closedErr (?s (Some (Inl e)) False (Starting 1) {} [e])"
    using all_fail[of 0 "?s None True (Starting 1) {0} []" ForVec 2 closedErr e]
    by (simp add: taskFailed_def set_promise_def close_ctx_def)
  from all_reach_step[OF this all_start_closed[of _ 1]]
  have "all_reachable ForVec 0 2 closedErr (?s (Some (Inl e)) False (Threw closedErr) {} [e])"
    by (simp add: start_throws_def close_ctx_def)
  then show ?thesis by (intro exI[of _ "?s (Some (Inl e)) False (Threw closedErr) {} [e]"]) simp
qed

text \<open>
  When the function of a tuple operation throws while start is starting it, the tasks that were
  started go on: unlike the vector operation, it leaves its context open.
\<close>

theorem all_tuple_goes_on:
  "\<exists>s. all_reachable ForTuple (0::nat) 2 closedErr s \<and> a_start s = Threw e \<and> m_ctx_open (a_op s) \<and> a_running s = {0}"
proof -
  let ?op = "\<lparr>m_result = [0, 0], m_taskFinishedCount = 0, m_promise = None, m_ctx_open = True\<rparr> :: (nat, 'a) all_op"
  let ?s = "\<lambda>st run. \<lparr>a_op = ?op, a_start = st, a_running = run, a_outcome = Map.empty, a_failed = []\<rparr>"
  have "all_reachable ForTuple 0 2 closedErr (?s (Starting 0) {})"
    using all_reach_init[of ForTuple 0 2 closedErr] by (simp add: all_init_def all_tuple_make_def numeral_2_eq_2)
  from all_reach_step[OF this all_start_ok[of _ 0]]
  have "all_reachable ForTuple 0 2 closedErr (?s (Starting 1) {0})" by (simp add: start_task_def)
  from all_reach_step[OF this all_start_throws[of _ 1 _ _ _ e]]
  have "all_reachable ForTuple 0 2 closedErr (?s (Threw e) {0})" by (simp add: start_throws_tuple_def)
  then show ?thesis by (intro exI[of _ "?s (Threw e) {0}"]) simp
qed

end
