(* ===== verification/DelayedProperty.thy ===== *)
theory DelayedProperty
  imports Prelude
begin

text \<open>
  include/nhope/async/delayed-property.h: a property whose new value waits until it is applied.
  Every method is one critical section of the mutex, except applyNewValue, which gives the mutex
  back while the handler runs: its two halves are apply_take and apply_done, between which others
  may run. Promises are numbers; resolved is the log of what they got.
\<close>

section \<open>The property\<close>

datatype 'e set_outcome = Applied | Ignored | ApplyFailed 'e | Broken

record ('v, 'e) delayed =
  currentValue :: 'v
  newValue :: "'v option"
  promiseOpt :: "nat option"
  in_handler :: "('v \<times> nat) list"
  resolved :: "(nat \<times> 'e set_outcome) list"
  next_promise :: nat
  prop_closed :: bool

definition delayed_make :: "'v \<Rightarrow> ('v, 'e) delayed" where
  "delayed_make v = \<lparr>currentValue = v, newValue = None, promiseOpt = None, in_handler = [],
     resolved = [], next_promise = 0, prop_closed = False\<rparr>"

datatype set_future = ReadyFuture | PendingFuture nat

definition setNewValue :: "'v \<Rightarrow> ('v, 'e) delayed \<Rightarrow> ('v, 'e) delayed \<times> set_future" where
  "setNewValue v d =
     (if currentValue d = v then (d, ReadyFuture)
      else
        let d = (case promiseOpt d of None \<Rightarrow> d | Some p \<Rightarrow> d\<lparr>resolved := resolved d @ [(p, Ignored)]\<rparr>);
            p = next_promise d
        in (d\<lparr>promiseOpt := Some p, next_promise := p + 1, newValue := Some v\<rparr>, PendingFuture p))"

definition hasNewValue :: "('v, 'e) delayed \<Rightarrow> bool" where
  "hasNewValue d \<longleftrightarrow> promiseOpt d \<noteq> None"

text \<open>waitNewValue may return: the condition it waits for.\<close>

definition waitNewValue_ready :: "('v, 'e) delayed \<Rightarrow> bool" where
  "waitNewValue_ready d \<longleftrightarrow> promiseOpt d \<noteq> None"

text \<open>The first half answers the value for the handler; None: newValue.value() throws.\<close>

definition apply_take :: "('v, 'e) delayed \<Rightarrow> (('v, 'e) delayed \<times> ('v \<times> nat) option) option" where
  "apply_take d = (case promiseOpt d of
     None \<Rightarrow> Some (d, None)
   | Some promise \<Rightarrow> (case newValue d of
       None \<Rightarrow> None
     | Some newVal \<Rightarrow>
         Some (d\<lparr>newValue := None, promiseOpt := None, in_handler := in_handler d @ [(newVal, promise)]\<rparr>,
           Some (newVal, promise))))"

definition apply_done :: "'v \<times> nat \<Rightarrow> 'e option \<Rightarrow> ('v, 'e) delayed \<Rightarrow> ('v, 'e) delayed" where
  "apply_done vp thrown d = (case vp of (newVal, promise) \<Rightarrow>
     let d = d\<lparr>in_handler := remove1 (newVal, promise) (in_handler d)\<rparr> in
     case thrown of
       None \<Rightarrow> d\<lparr>currentValue := newVal, resolved := resolved d @ [(promise, Applied)]\<rparr>
     | Some e \<Rightarrow> d\<lparr>resolved := resolved d @ [(promise, ApplyFailed e)]\<rparr>)"

definition applyNewValue :: "('v \<Rightarrow> 'e option) \<Rightarrow> ('v, 'e) delayed \<Rightarrow> ('v, 'e) delayed option" where
  "applyNewValue applyHandler d = (case apply_take d of
     None \<Rightarrow> None
   | Some (d, None) \<Rightarrow> Some d
   | Some (d, Some (v, p)) \<Rightarrow> Some (apply_done (v, p) (applyHandler v) d))"

text \<open>The consumer of makeInput, and the destructor.\<close>

datatype input_status = InputOk | InputClosed

definition input_consume :: "'v \<Rightarrow> ('v, 'e) delayed \<Rightarrow> ('v, 'e) delayed \<times> input_status" where
  "input_consume v d = (if prop_closed d then (d, InputClosed) else (fst (setNewValue v d), InputOk))"

definition delayed_destroy :: "('v, 'e) delayed \<Rightarrow> ('v, 'e) delayed" where
  "delayed_destroy d = d\<lparr>prop_closed := True\<rparr>"

section \<open>Any threads\<close>

inductive delayed_step :: "('v, 'e) delayed \<Rightarrow> ('v, 'e) delayed option \<Rightarrow> bool" where
  d_set: "delayed_step d (Some (fst (setNewValue v d)))"
| d_consume: "delayed_step d (Some (fst (input_consume v d)))"
| d_take: "delayed_step d (map_option fst (apply_take d))"
| d_done: "vp \<in> set (in_handler d) \<Longrightarrow> delayed_step d (Some (apply_done vp thrown d))"
| d_destroy: "delayed_step d (Some (delayed_destroy d))"

inductive delayed_reachable :: "'v \<Rightarrow> ('v, 'e) delayed \<Rightarrow> bool" for v0 where
  delayed_reach_make: "delayed_reachable v0 (delayed_make v0)"
| delayed_reach_step: "delayed_reachable v0 d \<Longrightarrow> delayed_step d (Some d') \<Longrightarrow> delayed_reachable v0 d'"

text \<open>The promises that are somewhere: waiting, with a handler, or resolved.\<close>

definition all_promises :: "('v, 'e) delayed \<Rightarrow> nat list" where
  "all_promises d = (case promiseOpt d of None \<Rightarrow> [] | Some p \<Rightarrow> [p]) @ map snd (in_handler d) @ map fst (resolved d)"

definition delayed_inv :: "('v, 'e) delayed \<Rightarrow> bool" where
  "delayed_inv d \<longleftrightarrow> (newValue d = None \<longleftrightarrow> promiseOpt d = None) \<and>
     distinct (all_promises d) \<and> set (all_promises d) = {..<next_promise d}"

lemma delayed_inv_set: "delayed_inv d \<Longrightarrow> delayed_inv (fst (setNewValue v d))"
  by (auto simp: delayed_inv_def setNewValue_def all_promises_def Let_def lessThan_Suc split: option.splits)

lemma delayed_inv_take:
  assumes "delayed_inv d"
  shows "\<exists>d' r. apply_take d = Some (d', r) \<and> delayed_inv d'"
  using assms
  by (auto simp: delayed_inv_def apply_take_def all_promises_def split: option.splits)

lemma remove1_parts:
  assumes "(v, p) \<in> set hs" and "distinct (map snd hs)"
  shows "distinct (map snd (remove1 (v, p) hs)) \<and> set (map snd (remove1 (v, p) hs)) = set (map snd hs) - {p}"
proof -
  obtain as bs where hs: "hs = as @ (v, p) # bs" "(v, p) \<notin> set as" using assms(1) by (meson split_list_first)
  then have "remove1 (v, p) hs = as @ bs" by (simp add: remove1_append)
  then show ?thesis using assms(2) hs(1) by auto
qed

lemma delayed_inv_done:
  assumes "delayed_inv d" and "vp \<in> set (in_handler d)"
  shows "delayed_inv (apply_done vp thrown d)"
proof -
  obtain v p where vp: "vp = (v, p)" by (cases vp)
  have "distinct (map snd (in_handler d))" using assms(1) by (simp add: delayed_inv_def all_promises_def)
  from remove1_parts[OF assms(2)[unfolded vp] this]
  have r: "distinct (map snd (remove1 (v, p) (in_handler d)))"
    "snd ` set (remove1 (v, p) (in_handler d)) = snd ` set (in_handler d) - {p}" by auto
  have p: "p \<in> snd ` set (in_handler d)" using assms(2) vp by force
  show ?thesis using assms(1) r p
    by (auto simp: delayed_inv_def all_promises_def apply_done_def vp Let_def split: option.splits)
qed

lemma delayed_inv_step:
  assumes "delayed_inv d" and "delayed_step d t"
  shows "\<exists>d'. t = Some d' \<and> delayed_inv d'"
  using assms(2)
proof cases
  case (d_take)
  then show ?thesis using delayed_inv_take[OF assms(1)] by auto
next
  case d_destroy
  then show ?thesis using assms(1) by (simp add: delayed_inv_def delayed_destroy_def all_promises_def)
qed (use assms(1) in \<open>auto simp: delayed_inv_set delayed_inv_done input_consume_def\<close>)

lemma delayed_reachable_inv: "delayed_reachable v0 d \<Longrightarrow> delayed_inv d"
proof (induction rule: delayed_reachable.induct)
  case delayed_reach_make
  show ?case by (simp add: delayed_inv_def delayed_make_def all_promises_def)
next
  case (delayed_reach_step d d')
  then show ?case using delayed_inv_step[OF delayed_reach_step.IH delayed_reach_step.hyps(2)] by simp
qed

section \<open>The life of the property\<close>

text \<open>
  The state (Prv) is shared by the property and its inputs and goes with the last of them; the promise that still
  waits then is destroyed with it, which answers BrokenPromiseError. The methods of the property are called
  while it exists, those of an input while that does.
\<close>

record ('v, 'e) delayed_life =
  dl_prv :: "('v, 'e) delayed"
  dl_inputs :: nat
  dl_gone :: bool              \<comment> \<open>the state is destroyed\<close>

definition life_make :: "'v \<Rightarrow> ('v, 'e) delayed_life" where
  "life_make v = \<lparr>dl_prv = delayed_make v, dl_inputs = 0, dl_gone = False\<rparr>"

definition prv_destroy :: "('v, 'e) delayed \<Rightarrow> ('v, 'e) delayed" where
  "prv_destroy d = (case promiseOpt d of
     None \<Rightarrow> d\<lparr>newValue := None\<rparr>
   | Some p \<Rightarrow> d\<lparr>promiseOpt := None, newValue := None, resolved := resolved d @ [(p, Broken)]\<rparr>)"

definition release_prv :: "('v, 'e) delayed_life \<Rightarrow> ('v, 'e) delayed_life" where
  "release_prv l = (if prop_closed (dl_prv l) \<and> dl_inputs l = 0
     then l\<lparr>dl_prv := prv_destroy (dl_prv l), dl_gone := True\<rparr> else l)"

definition makeInput :: "('v, 'e) delayed_life \<Rightarrow> ('v, 'e) delayed_life" where
  "makeInput l = l\<lparr>dl_inputs := dl_inputs l + 1\<rparr>"

definition input_destroy :: "('v, 'e) delayed_life \<Rightarrow> ('v, 'e) delayed_life" where
  "input_destroy l = release_prv (l\<lparr>dl_inputs := dl_inputs l - 1\<rparr>)"

definition property_destroy :: "('v, 'e) delayed_life \<Rightarrow> ('v, 'e) delayed_life" where
  "property_destroy l = release_prv (l\<lparr>dl_prv := delayed_destroy (dl_prv l)\<rparr>)"

inductive life_step :: "('v, 'e) delayed_life \<Rightarrow> ('v, 'e) delayed_life option \<Rightarrow> bool" for l where
  l_set: "\<not> prop_closed (dl_prv l) \<Longrightarrow> life_step l (Some (l\<lparr>dl_prv := fst (setNewValue v (dl_prv l))\<rparr>))"
| l_take: "\<not> prop_closed (dl_prv l) \<Longrightarrow>
    life_step l (map_option (\<lambda>(d, r). l\<lparr>dl_prv := d\<rparr>) (apply_take (dl_prv l)))"
| l_done: "vp \<in> set (in_handler (dl_prv l)) \<Longrightarrow> life_step l (Some (l\<lparr>dl_prv := apply_done vp thrown (dl_prv l)\<rparr>))"
| l_consume: "0 < dl_inputs l \<Longrightarrow> life_step l (Some (l\<lparr>dl_prv := fst (input_consume v (dl_prv l))\<rparr>))"
| l_makeInput: "\<not> prop_closed (dl_prv l) \<Longrightarrow> life_step l (Some (makeInput l))"
| l_input_gone: "0 < dl_inputs l \<Longrightarrow> life_step l (Some (input_destroy l))"
| l_destroy: "\<not> prop_closed (dl_prv l) \<Longrightarrow> in_handler (dl_prv l) = [] \<Longrightarrow> life_step l (Some (property_destroy l))"

inductive life_reachable :: "'v \<Rightarrow> ('v, 'e) delayed_life \<Rightarrow> bool" for v0 where
  life_start: "life_reachable v0 (life_make v0)"
| life_more: "life_reachable v0 l \<Longrightarrow> life_step l (Some l') \<Longrightarrow> life_reachable v0 l'"

definition life_inv :: "('v, 'e) delayed_life \<Rightarrow> bool" where
  "life_inv l \<longleftrightarrow> delayed_inv (dl_prv l) \<and> (prop_closed (dl_prv l) \<longrightarrow> in_handler (dl_prv l) = []) \<and>
     (dl_gone l \<longleftrightarrow> prop_closed (dl_prv l) \<and> dl_inputs l = 0) \<and> (dl_gone l \<longrightarrow> promiseOpt (dl_prv l) = None)"

lemma delayed_inv_prv_destroy: "delayed_inv d \<Longrightarrow> delayed_inv (prv_destroy d)"
  by (auto simp: delayed_inv_def prv_destroy_def all_promises_def split: option.splits)

lemma prv_destroy_sel [simp]:
  "prop_closed (prv_destroy d) = prop_closed d" "in_handler (prv_destroy d) = in_handler d" "promiseOpt (prv_destroy d) = None"
  by (auto simp: prv_destroy_def split: option.splits)

lemma setNewValue_sel [simp]:
  "prop_closed (fst (setNewValue v d)) = prop_closed d" "in_handler (fst (setNewValue v d)) = in_handler d"
  by (auto simp: setNewValue_def Let_def split: option.splits)

lemma life_inv_release:
  assumes "delayed_inv (dl_prv l)" "prop_closed (dl_prv l) \<longrightarrow> in_handler (dl_prv l) = []" "\<not> dl_gone l"
  shows "life_inv (release_prv l)"
  using assms delayed_inv_prv_destroy[of "dl_prv l"] by (auto simp: life_inv_def release_prv_def)

lemma life_inv_step:
  assumes "life_inv l" and "life_step l t"
  shows "\<exists>l'. t = Some l' \<and> life_inv l'"
  using assms(2)
proof cases
  case (l_set v)
  then show ?thesis using assms(1) delayed_inv_set[of "dl_prv l" v] by (auto simp: life_inv_def)
next
  case l_take
  obtain d r where d: "apply_take (dl_prv l) = Some (d, r)" "delayed_inv d"
    using delayed_inv_take[of "dl_prv l"] assms(1) by (auto simp: life_inv_def)
  then have "\<not> prop_closed d" using l_take(2) by (auto simp: apply_take_def split: option.splits)
  then show ?thesis using assms(1) l_take d by (auto simp: life_inv_def)
next
  case (l_done vp thrown)
  then have "\<not> prop_closed (dl_prv l)" using assms(1) by (auto simp: life_inv_def)
  moreover have "prop_closed (apply_done vp thrown (dl_prv l)) = prop_closed (dl_prv l)"
    by (auto simp: apply_done_def Let_def split: prod.splits option.splits)
  ultimately show ?thesis using assms(1) l_done delayed_inv_done[OF _ l_done(2), of thrown] by (auto simp: life_inv_def)
next
  case (l_consume v)
  then show ?thesis using assms(1) delayed_inv_set[of "dl_prv l" v] by (auto simp: life_inv_def input_consume_def)
next
  case l_makeInput
  then show ?thesis using assms(1) by (simp add: life_inv_def makeInput_def)
next
  case l_input_gone
  then show ?thesis using assms(1)
    by (auto simp: input_destroy_def intro!: life_inv_release) (auto simp: life_inv_def)
next
  case l_destroy
  have "delayed_inv (delayed_destroy (dl_prv l))"
    using delayed_inv_step[OF _ d_destroy[of "dl_prv l"]] assms(1) by (auto simp: life_inv_def)
  then show ?thesis using l_destroy assms(1)
    by (auto simp: property_destroy_def intro!: life_inv_release) (auto simp: life_inv_def delayed_destroy_def)
qed

lemma life_reachable_inv: "life_reachable v0 l \<Longrightarrow> life_inv l"
proof (induction rule: life_reachable.induct)
  case life_start
  show ?case using delayed_reachable_inv[OF delayed_reach_make] by (simp add: life_inv_def life_make_def) (simp add: delayed_make_def)
next
  case (life_more l l')
  then show ?case using life_inv_step by blast
qed

text \<open>
  C34: Whatever threads and inputs set, apply and destroy: newValue.value() never throws; every future
  that setNewValue handed out is in exactly one place: it waits for an apply, its value is with a
  handler, or it has been answered, once. A future waits for an apply only while the property or one of its inputs exists,
  and an apply answers the one that waits. When the last of the property and its inputs is gone, every
  future has been answered, exactly once.
\<close>

theorem delayed_promises_once:
  assumes "life_reachable v0 l"
  shows "\<not> life_step l None \<and> distinct (all_promises (dl_prv l)) \<and>
    set (all_promises (dl_prv l)) = {..<next_promise (dl_prv l)} \<and>
    (promiseOpt (dl_prv l) \<noteq> None \<longrightarrow> \<not> prop_closed (dl_prv l) \<or> 0 < dl_inputs l) \<and>
    (\<forall>p. promiseOpt (dl_prv l) = Some p \<longrightarrow>
      (\<exists>d. applyNewValue h (dl_prv l) = Some d \<and> p \<in> fst ` set (resolved d))) \<and>
    (prop_closed (dl_prv l) \<and> dl_inputs l = 0 \<longrightarrow>
      distinct (map fst (resolved (dl_prv l))) \<and> set (map fst (resolved (dl_prv l))) = {..<next_promise (dl_prv l)})"
proof -
  note inv = life_reachable_inv[OF assms]
  have d: "delayed_inv (dl_prv l)" using inv by (simp add: life_inv_def)
  have "\<not> life_step l None" using life_inv_step[OF inv] by blast
  moreover have "\<exists>d. applyNewValue h (dl_prv l) = Some d \<and> p \<in> fst ` set (resolved d)"
    if "promiseOpt (dl_prv l) = Some p" for p
    using that d by (auto simp: delayed_inv_def applyNewValue_def apply_take_def apply_done_def Let_def split: option.splits)
  moreover have "all_promises (dl_prv l) = map fst (resolved (dl_prv l))" if "prop_closed (dl_prv l)" "dl_inputs l = 0"
    using inv that by (simp add: life_inv_def all_promises_def)
  moreover have "promiseOpt (dl_prv l) \<noteq> None \<Longrightarrow> \<not> prop_closed (dl_prv l) \<or> 0 < dl_inputs l"
    using inv by (auto simp: life_inv_def)
  moreover have "distinct (all_promises (dl_prv l))" "set (all_promises (dl_prv l)) = {..<next_promise (dl_prv l)}"
    using d by (simp_all add: delayed_inv_def)
  ultimately show ?thesis by metis
qed

text \<open>Two values are set, of which the first is ignored; the property goes before an apply.\<close>

theorem delayed_promises_once_witness:
  "set (map fst (resolved (dl_prv (property_destroy (life_make (0::nat)\<lparr>dl_prv := fst (setNewValue 2 (fst (setNewValue 1
    (delayed_make 0 :: (nat, nat) delayed))))\<rparr>))))) = {..<2}"
proof -
  let ?l = "life_make 0 :: (nat, nat) delayed_life"
  let ?d1 = "fst (setNewValue 1 (dl_prv ?l))"
  let ?l2 = "?l\<lparr>dl_prv := fst (setNewValue 2 ?d1)\<rparr>"
  note evals = life_make_def delayed_make_def setNewValue_def property_destroy_def release_prv_def prv_destroy_def
    delayed_destroy_def Let_def
  have "life_reachable 0 (?l\<lparr>dl_prv := ?d1\<rparr>)"
    by (rule life_more[OF life_start l_set]) (simp add: evals)
  then have "life_reachable 0 ?l2"
    by (rule life_more) (use l_set[of "?l\<lparr>dl_prv := ?d1\<rparr>" 2] in \<open>simp add: evals\<close>)
  then have "life_reachable 0 (property_destroy ?l2)"
    by (rule life_more[OF _ l_destroy]) (simp_all add: evals)
  from delayed_promises_once[OF this] have
    "set (map fst (resolved (dl_prv (property_destroy ?l2)))) = {..<next_promise (dl_prv (property_destroy ?l2))}"
    by (simp add: evals)
  then show ?thesis by (simp add: evals)
qed

section \<open>The last value wins, unless it is the current one\<close>

definition set_all :: "'v list \<Rightarrow> ('v, 'e) delayed \<Rightarrow> ('v, 'e) delayed" where
  "set_all vs d = fold (\<lambda>v d. fst (setNewValue v d)) vs d"

lemma set_all_pending:
  "currentValue (set_all vs d) = currentValue d \<and>
   newValue (set_all vs d) = (if filter (\<lambda>v. v \<noteq> currentValue d) vs = [] then newValue d
     else Some (last (filter (\<lambda>v. v \<noteq> currentValue d) vs))) \<and>
   (promiseOpt (set_all vs d) = None \<longleftrightarrow> promiseOpt d = None \<and> filter (\<lambda>v. v \<noteq> currentValue d) vs = [])"
proof (induction vs rule: rev_induct)
  case (snoc v vs)
  then show ?case
    by (auto simp: set_all_def setNewValue_def Let_def split: option.splits list.splits)
qed (simp add: set_all_def)

text \<open>
  an apply after any number of sets applies the last of them that differs from the current
  value; it leaves nothing pending, and the handler sees no other value.
\<close>

theorem delayed_applies_last:
  assumes "delayed_inv d" and "filter (\<lambda>v. v \<noteq> currentValue d) vs = us @ [u]"
  shows "\<exists>d'. applyNewValue h (set_all vs d) = Some d' \<and> \<not> hasNewValue d' \<and>
    currentValue d' = (case h u of None \<Rightarrow> u | Some e \<Rightarrow> currentValue d) \<and>
    (\<exists>p. resolved d' = resolved (set_all vs d) @ [(p, case h u of None \<Rightarrow> Applied | Some e \<Rightarrow> ApplyFailed e)])"
proof -
  have "newValue (set_all vs d) = Some u" "promiseOpt (set_all vs d) \<noteq> None"
    "currentValue (set_all vs d) = currentValue d"
    using set_all_pending[of vs d] assms(2) by simp_all
  then show ?thesis
    by (auto simp: applyNewValue_def apply_take_def apply_done_def hasNewValue_def Let_def split: option.splits)
qed

theorem delayed_applies_last_witness:
  "\<exists>d'. applyNewValue (\<lambda>_. None) (set_all [1, 2, 0] (delayed_make 0 :: (nat, nat) delayed)) = Some d' \<and> currentValue d' = 2"
proof -
  have "delayed_inv (delayed_make 0 :: (nat, nat) delayed)" by (rule delayed_reachable_inv[OF delayed_reach_make])
  moreover have "filter (\<lambda>v. v \<noteq> currentValue (delayed_make 0 :: (nat, nat) delayed)) [1, 2, 0] = [1] @ [2]"
    by (simp add: delayed_make_def)
  ultimately show ?thesis
    using delayed_applies_last[of "delayed_make 0 :: (nat, nat) delayed" "[1, 2, 0]" "[1]" 2 "\<lambda>_. None"]
    by (simp del: filter.simps) blast
qed

text \<open>
  Setting the current value again does not withdraw a pending value: the future is ready at
  once, yet the next apply replaces the value.
\<close>

theorem delayed_set_current_ignored:
  assumes "u \<noteq> v"
  shows "\<exists>d'. snd (setNewValue v (set_all [u] (delayed_make v))) = ReadyFuture \<and>
    applyNewValue (\<lambda>_. None) (set_all [u, v] (delayed_make v)) = Some d' \<and> currentValue d' = u"
  using assms by (simp add: set_all_def setNewValue_def delayed_make_def applyNewValue_def apply_take_def
      apply_done_def Let_def)

end
