(* ===== verification/Timers.thy ===== *)
theory Timers
  imports Prelude
begin

text \<open>
  Objects that live on an AOContext until an asynchronous operation is over and then delete
  themselves: SingleTimer, PromiseTimer and IntervalTimer of lib/async/timer.cpp and ConnectOp of
  lib/io/tcp.cpp. asio is not modelled: an operation that was started completes once, at any
  time, with or without an error.

  Of the AOContext this uses what AOContext and CloseHandlers show: work given to exec runs
  only while the context is open and not while close runs, and close calls a handler that is
  registered once. Using a deleted object, or setting a promise twice, is None.
\<close>

section \<open>The object and its context\<close>

datatype 'e io_outcome = IoValue | IoError 'e | IoCancelled

record 'e ctx_object =
  alive :: bool
  registered_handler :: bool
  connecting :: bool            \<comment> \<open>ConnectOp: m_socket is set\<close>
  outcomes :: "'e io_outcome list"   \<comment> \<open>what the promise, or the user's handler, got\<close>
  pending_io :: nat             \<comment> \<open>operations that have not completed\<close>
  ctx_phase_of :: ctx_phase

text \<open>The constructors: startCancellableTask registers the object and starts the operation.\<close>

definition start_object :: "'e ctx_object" where
  "start_object = \<lparr>alive = True, registered_handler = True, connecting = False, outcomes = [],
     pending_io = 1, ctx_phase_of = CtxOpen\<rparr>"

text \<open>delete this: the destructors remove the close handler.\<close>

definition delete_object :: "'e ctx_object \<Rightarrow> 'e ctx_object" where
  "delete_object t = t\<lparr>alive := False, registered_handler := False\<rparr>"

definition give :: "'e io_outcome \<Rightarrow> 'e ctx_object \<Rightarrow> 'e ctx_object option" where
  "give v t = (if outcomes t = [] then Some (t\<lparr>outcomes := [v]\<rparr>) else None)"

definition of_err :: "'e option \<Rightarrow> 'e io_outcome" where
  "of_err err = (case err of None \<Rightarrow> IoValue | Some e \<Rightarrow> IoError e)"

section \<open>SingleTimer, PromiseTimer and ConnectOp\<close>

definition single_wakeup :: "'e option \<Rightarrow> 'e ctx_object \<Rightarrow> 'e ctx_object option" where
  "single_wakeup err t = (if \<not> alive t then None else give (of_err err) (delete_object t))"

definition single_close :: "'e ctx_object \<Rightarrow> 'e ctx_object option" where
  "single_close t = (if \<not> alive t then None else Some (delete_object t))"

definition promise_wakeup :: "'e option \<Rightarrow> 'e ctx_object \<Rightarrow> 'e ctx_object option" where
  "promise_wakeup err t =
     (if \<not> alive t then None
      else let t = delete_object t in case err of
        Some e \<Rightarrow> give (IoError e) t
      | None \<Rightarrow> give IoValue t)"

definition promise_close :: "'e ctx_object \<Rightarrow> 'e ctx_object option" where
  "promise_close t = (if \<not> alive t then None else map_option delete_object (give IoCancelled t))"

definition resolveHandler :: "'e option \<Rightarrow> 'e ctx_object \<Rightarrow> 'e ctx_object option" where
  "resolveHandler err t =
     (if \<not> alive t then None
      else case err of
        Some e \<Rightarrow> map_option delete_object (give (IoError e) t)
      | None \<Rightarrow> Some (t\<lparr>connecting := True, pending_io := pending_io t + 1\<rparr>))"

definition connectHandler :: "'e option \<Rightarrow> 'e ctx_object \<Rightarrow> 'e ctx_object option" where
  "connectHandler err t =
     (if \<not> alive t then None
      else map_option delete_object (case err of
        Some e \<Rightarrow> give (IoError e) t
      | None \<Rightarrow> if connecting t then give IoValue (t\<lparr>connecting := False\<rparr>) else None))"

definition connect_cancel :: "'e ctx_object \<Rightarrow> 'e ctx_object option" where
  "connect_cancel t = give IoCancelled (t\<lparr>connecting := False\<rparr>)"

definition connect_close :: "'e ctx_object \<Rightarrow> 'e ctx_object option" where
  "connect_close t = (if \<not> alive t then None else map_option delete_object (connect_cancel t))"

definition connect_completes :: "'e option \<Rightarrow> 'e ctx_object \<Rightarrow> 'e ctx_object option" where
  "connect_completes err t = (if connecting t then connectHandler err t else resolveHandler err t)"

text \<open>The ConnectOp of lib/io/local-socket.cpp has its socket from the start and resolves nothing.\<close>

definition local_connectHandler :: "'e option \<Rightarrow> 'e ctx_object \<Rightarrow> 'e ctx_object option" where
  "local_connectHandler err t =
     (if \<not> alive t then None
      else map_option delete_object (case err of Some e \<Rightarrow> give (IoError e) t | None \<Rightarrow> give IoValue t))"

definition local_cancel :: "'e ctx_object \<Rightarrow> 'e ctx_object option" where
  "local_cancel t = give IoCancelled t"

definition local_close :: "'e ctx_object \<Rightarrow> 'e ctx_object option" where
  "local_close t = (if \<not> alive t then None else map_option delete_object (local_cancel t))"

text \<open>
  The object's life: completions reach it through exec while the context is open and are
  dropped otherwise; close stops that and then calls the handler if it is registered.
\<close>

inductive object_step ::
    "('e option \<Rightarrow> 'e ctx_object \<Rightarrow> 'e ctx_object option) \<Rightarrow> ('e ctx_object \<Rightarrow> 'e ctx_object option) \<Rightarrow>
     'e ctx_object \<Rightarrow> 'e ctx_object option \<Rightarrow> bool" for completes onclose where
  io_completes: "0 < pending_io t \<Longrightarrow> ctx_phase_of t = CtxOpen \<Longrightarrow>
    object_step completes onclose t (completes err (t\<lparr>pending_io := pending_io t - 1\<rparr>))"
| io_dropped: "0 < pending_io t \<Longrightarrow> ctx_phase_of t \<noteq> CtxOpen \<Longrightarrow>
    object_step completes onclose t (Some (t\<lparr>pending_io := pending_io t - 1\<rparr>))"
| ctx_closes: "ctx_phase_of t = CtxOpen \<Longrightarrow> object_step completes onclose t (Some (t\<lparr>ctx_phase_of := CtxClosing\<rparr>))"
| ctx_calls: "ctx_phase_of t = CtxClosing \<Longrightarrow>
    object_step completes onclose t (map_option (\<lambda>t. t\<lparr>ctx_phase_of := CtxClosed\<rparr>)
      (if registered_handler t then onclose t else Some t))"

inductive object_reachable ::
    "('e option \<Rightarrow> 'e ctx_object \<Rightarrow> 'e ctx_object option) \<Rightarrow> ('e ctx_object \<Rightarrow> 'e ctx_object option) \<Rightarrow>
     'e ctx_object \<Rightarrow> bool" for completes onclose where
  object_reach_start: "object_reachable completes onclose start_object"
| object_reach_step: "object_reachable completes onclose t \<Longrightarrow> object_step completes onclose t (Some t') \<Longrightarrow>
    object_reachable completes onclose t'"

text \<open>What keeps such an object safe, as a contract on its two handlers.\<close>

definition object_inv :: "'e ctx_object \<Rightarrow> bool" where
  "object_inv t \<longleftrightarrow> registered_handler t = alive t \<and>
     (alive t \<longrightarrow> outcomes t = [] \<and> ctx_phase_of t \<noteq> CtxClosed) \<and>
     (alive t \<and> ctx_phase_of t = CtxOpen \<longrightarrow> pending_io t = 1) \<and>
     (\<not> alive t \<and> ctx_phase_of t = CtxOpen \<longrightarrow> pending_io t = 0) \<and>
     length (outcomes t) \<le> 1"

locale ctx_operation =
  fixes completes :: "'e option \<Rightarrow> 'e ctx_object \<Rightarrow> 'e ctx_object option"
    and onclose :: "'e ctx_object \<Rightarrow> 'e ctx_object option"
    and at_close :: "'e io_outcome list"
  assumes completes_ok: "alive t \<Longrightarrow> registered_handler t \<Longrightarrow> outcomes t = [] \<Longrightarrow> pending_io t = 0 \<Longrightarrow>
      \<exists>t'. completes err t = Some t' \<and> ctx_phase_of t' = ctx_phase_of t \<and>
        (alive t' \<and> registered_handler t' \<and> outcomes t' = [] \<and> pending_io t' = 1 \<or>
         \<not> alive t' \<and> \<not> registered_handler t' \<and> length (outcomes t') = 1 \<and> pending_io t' = 0)"
    and onclose_ok: "alive t \<Longrightarrow> registered_handler t \<Longrightarrow> outcomes t = [] \<Longrightarrow>
      \<exists>t'. onclose t = Some t' \<and> ctx_phase_of t' = ctx_phase_of t \<and> pending_io t' = pending_io t \<and>
        \<not> alive t' \<and> \<not> registered_handler t' \<and> outcomes t' = at_close"
    and at_close_ok: "length at_close \<le> 1"
begin

lemma object_inv_step:
  assumes inv: "object_inv t" and st: "object_step completes onclose t r"
  shows "\<exists>t'. r = Some t' \<and> object_inv t'"
  using st
proof cases
  case (io_completes err)
  then have a: "alive t" using inv by (auto simp: object_inv_def)
  let ?t = "t\<lparr>pending_io := pending_io t - 1\<rparr>"
  have "alive ?t" "registered_handler ?t" "outcomes ?t = []" "pending_io ?t = 0"
    using inv a io_completes by (auto simp: object_inv_def)
  from completes_ok[OF this, of err] io_completes show ?thesis by (auto simp: object_inv_def)
next
  case ctx_calls
  show ?thesis
  proof (cases "registered_handler t")
    case True
    then have "alive t" "outcomes t = []" using inv by (auto simp: object_inv_def)
    from onclose_ok[OF this(1) True this(2)] ctx_calls True at_close_ok show ?thesis
      by (auto simp: object_inv_def)
  next
    case False
    then show ?thesis using inv ctx_calls by (auto simp: object_inv_def)
  qed
qed (use inv in \<open>auto simp: object_inv_def\<close>)

lemma object_reachable_inv: "object_reachable completes onclose t \<Longrightarrow> object_inv t"
proof (induction rule: object_reachable.induct)
  case object_reach_start
  show ?case by (simp add: object_inv_def start_object_def)
next
  case (object_reach_step t t')
  then show ?case using object_inv_step[OF object_reach_step.IH object_reach_step.hyps(2)] by simp
qed

text \<open>A dead object has given its outcome, unless close found it without one to give.\<close>

lemma object_outcome:
  assumes "object_reachable completes onclose t" and "at_close \<noteq> []"
  shows "alive t \<or> length (outcomes t) = 1"
  using assms(1)
proof (induction rule: object_reachable.induct)
  case object_reach_start
  show ?case by (simp add: start_object_def)
next
  case (object_reach_step t t')
  note inv = object_reachable_inv[OF object_reach_step.hyps(1)]
  from object_reach_step.hyps(2) show ?case
  proof cases
    case (io_completes err)
    let ?t = "t\<lparr>pending_io := pending_io t - 1\<rparr>"
    have "alive ?t" "registered_handler ?t" "outcomes ?t = []" "pending_io ?t = 0"
      using inv io_completes by (auto simp: object_inv_def)
    from completes_ok[OF this, of err] io_completes show ?thesis by auto
  next
    case ctx_calls
    show ?thesis
    proof (cases "registered_handler t")
      case True
      then have "alive t" "outcomes t = []" using inv by (auto simp: object_inv_def)
      from onclose_ok[OF this(1) True this(2)] ctx_calls True at_close_ok assms(2) show ?thesis
        by (cases at_close) auto
    next
      case False
      then show ?thesis using object_reach_step.IH ctx_calls inv by (auto simp: object_inv_def)
    qed
  qed (use object_reach_step.IH in auto)
qed

lemma object_safe:
  assumes "object_reachable completes onclose t"
  shows "\<not> object_step completes onclose t None \<and> length (outcomes t) \<le> 1 \<and> (alive t \<longrightarrow> outcomes t = []) \<and>
    (ctx_phase_of t = CtxClosed \<longrightarrow> \<not> alive t) \<and> (at_close \<noteq> [] \<longrightarrow> alive t \<or> length (outcomes t) = 1)"
proof -
  note inv = object_reachable_inv[OF assms]
  have "\<not> object_step completes onclose t None" using object_inv_step[OF inv] by blast
  then show ?thesis using inv object_outcome[OF assms] by (auto simp: object_inv_def)
qed

end

interpretation single: ctx_operation single_wakeup single_close "[]"
  by unfold_locales (auto simp: single_wakeup_def single_close_def give_def delete_object_def)

interpretation pt: ctx_operation promise_wakeup promise_close "[IoCancelled]"
  by unfold_locales (auto simp: promise_wakeup_def promise_close_def give_def delete_object_def Let_def split: option.splits)

interpretation cop: ctx_operation connect_completes connect_close "[IoCancelled]"
  by unfold_locales (auto simp: connect_completes_def resolveHandler_def connectHandler_def connect_close_def
      connect_cancel_def give_def delete_object_def split: option.splits)

interpretation lop: ctx_operation local_connectHandler local_close "[IoCancelled]"
  by unfold_locales (auto simp: local_connectHandler_def local_close_def local_cancel_def give_def delete_object_def
      split: option.splits)

text \<open>
  a PromiseTimer and the connection attempts of TCP and local sockets, in every interleaving
  of completions with the close of the context: the object is never used after it deleted
  itself, its promise gets the value, an error or the cancellation exactly once, and the object
  lives until then and not longer than its context.
\<close>

theorem cancellable_once:
  assumes "(completes, onclose) \<in> {(promise_wakeup, promise_close), (connect_completes, connect_close),
      (local_connectHandler, local_close)}"
    and "object_reachable completes onclose t"
  shows "\<not> object_step completes onclose t None \<and> alive t = (outcomes t = []) \<and>
    length (outcomes t) \<le> 1 \<and> (ctx_phase_of t = CtxClosed \<longrightarrow> length (outcomes t) = 1)"
  using assms pt.object_safe[of t] cop.object_safe[of t] lop.object_safe[of t] by auto

theorem cancellable_once_witness:
  "alive (start_object :: nat ctx_object) \<and> \<not> object_step connect_completes connect_close (start_object :: nat ctx_object) None"
  using cancellable_once[where 'a = nat, OF _ object_reach_start, of connect_completes connect_close]
  by (simp add: start_object_def)

text \<open>SingleTimer: its handler is called at most once, and not after the close.\<close>

lemma single_timer_once:
  assumes "object_reachable single_wakeup single_close t"
  shows "\<not> object_step single_wakeup single_close t None \<and> length (outcomes t) \<le> 1 \<and>
    (alive t \<longrightarrow> outcomes t = []) \<and> (ctx_phase_of t = CtxClosed \<longrightarrow> \<not> alive t)"
  using single.object_safe[OF assms] by auto

text \<open>A context goes from open to closing to closed and never back.\<close>

lemma object_step_phase:
  assumes "\<And>err t t'. completes err t = Some t' \<Longrightarrow> ctx_phase_of t' = ctx_phase_of t"
    and "object_step completes onclose t (Some t')"
  shows "ctx_phase_of t \<le> ctx_phase_of t'"
  using assms(2)
proof cases
  case (io_completes err)
  then show ?thesis using assms(1)[of err "t\<lparr>pending_io := pending_io t - 1\<rparr>"] by simp
next
  case ctx_calls
  from ctx_calls(1)[symmetric] have "ctx_phase_of t' = CtxClosed" by (auto simp: map_option_eq_Some)
  then show ?thesis by (simp add: less_eq_ctx_phase_def)
qed (auto simp: less_eq_ctx_phase_def)

section \<open>IntervalTimer\<close>

text \<open>
  The user's handler answers whether to go on, or throws; it may also close the context (or its
  parent), which calls aoContextClose at once and so deletes the timer.
\<close>

datatype user_return = ReturnsFlag bool | Throws

record interval_timer =
  it_alive :: bool
  it_open :: bool
  m_tickTime :: int
  waiting_for :: "int option"    \<comment> \<open>the expiry the asio timer waits for\<close>
  ticks :: "int list"            \<comment> \<open>the expiries at which the handler was called\<close>

definition startNextTick :: "int \<Rightarrow> interval_timer \<Rightarrow> interval_timer option" where
  "startNextTick m_interval t =
     (if it_alive t then Some (t\<lparr>m_tickTime := m_tickTime t + m_interval, waiting_for := Some (m_tickTime t + m_interval)\<rparr>)
      else None)"

definition interval_start :: "int \<Rightarrow> int \<Rightarrow> interval_timer option" where
  "interval_start now m_interval =
     startNextTick m_interval \<lparr>it_alive = True, it_open = True, m_tickTime = now, waiting_for = None, ticks = []\<rparr>"

definition interval_close :: "interval_timer \<Rightarrow> interval_timer" where
  "interval_close t = t\<lparr>it_open := False, it_alive := False, waiting_for := None\<rparr>"

definition interval_wakeup :: "int \<Rightarrow> bool \<Rightarrow> user_return \<Rightarrow> bool \<Rightarrow> interval_timer \<Rightarrow> interval_timer option" where
  "interval_wakeup m_interval err ret closes t =
     (if \<not> it_alive t then None
      else
        let t = t\<lparr>ticks := ticks t @ (case waiting_for t of Some tick \<Rightarrow> [tick] | None \<Rightarrow> []), waiting_for := None\<rparr>;
            t = (if closes then interval_close t else t)
        in case ret of
          Throws \<Rightarrow> startNextTick m_interval t
        | ReturnsFlag continueFlag \<Rightarrow>
            (if \<not> it_open t then Some t
             else if \<not> continueFlag then Some (interval_close t)
             else if err then Some (interval_close t)
             else startNextTick m_interval t))"

text \<open>Wake-ups happen while the timer waits and the context is open; a close may come in between.\<close>

datatype interval_event = Wakeup bool user_return bool | ParentCloses

fun interval_event_step :: "int \<Rightarrow> interval_event \<Rightarrow> interval_timer \<Rightarrow> interval_timer option" where
  "interval_event_step m_interval (Wakeup err ret closes) t =
     (if waiting_for t = None \<or> \<not> it_open t then Some t else interval_wakeup m_interval err ret closes t)"
| "interval_event_step m_interval ParentCloses t = Some (if it_open t then interval_close t else t)"

fun interval_run :: "int \<Rightarrow> interval_event list \<Rightarrow> interval_timer \<Rightarrow> interval_timer option" where
  "interval_run m_interval [] t = Some t"
| "interval_run m_interval (ev # evs) t = Option.bind (interval_event_step m_interval ev t) (interval_run m_interval evs)"

text \<open>A polite handler throws neither when it has closed its context nor when it was told of an error.\<close>

fun polite :: "interval_event \<Rightarrow> bool" where
  "polite (Wakeup err Throws closes) = (\<not> err \<and> \<not> closes)"
| "polite ev = True"

text \<open>Which events let the timer go on.\<close>

definition goes_on :: "interval_event \<Rightarrow> bool" where
  "goes_on ev \<longleftrightarrow> ev = Wakeup False (ReturnsFlag True) False \<or> ev = Wakeup False Throws False"

definition interval_inv :: "int \<Rightarrow> int \<Rightarrow> nat \<Rightarrow> interval_timer \<Rightarrow> bool" where
  "interval_inv now m_interval n t \<longleftrightarrow> it_alive t \<and> it_open t \<and>
     m_tickTime t = now + m_interval * int (n + 1) \<and> waiting_for t = Some (m_tickTime t) \<and>
     ticks t = map (\<lambda>k. now + m_interval * int (k + 1)) [0..<n]"

lemma interval_event_cases:
  assumes "interval_inv now m_interval n t" and "polite ev"
  shows "\<exists>t'. interval_event_step m_interval ev t = Some t' \<and>
    (if goes_on ev then interval_inv now m_interval (Suc n) t'
     else \<not> it_alive t' \<and> \<not> it_open t' \<and>
       ticks t' = map (\<lambda>k. now + m_interval * int (k + 1)) [0..<if ev = ParentCloses then n else Suc n])"
proof (cases ev)
  case ParentCloses
  then show ?thesis using assms by (auto simp: interval_inv_def goes_on_def interval_close_def)
next
  case (Wakeup err ret closes)
  show ?thesis
  proof (cases ret)
    case Throws
    then show ?thesis using assms Wakeup
      by (auto simp: interval_inv_def goes_on_def interval_wakeup_def startNextTick_def Let_def algebra_simps)
  next
    case (ReturnsFlag c)
    then show ?thesis using assms Wakeup
      by (cases closes; cases c; cases err)
        (auto simp: interval_inv_def goes_on_def interval_wakeup_def startNextTick_def interval_close_def
          Let_def algebra_simps)
  qed
qed

lemma interval_dead: "\<not> it_open t \<Longrightarrow> interval_run m_interval evs t = Some t"
proof (induction evs)
  case (Cons ev evs)
  then show ?case by (cases ev) auto
qed simp

lemma interval_run_ticks:
  assumes "interval_inv now m_interval n t" and "\<forall>ev\<in>set evs. polite ev"
  shows "\<exists>t'. interval_run m_interval evs t = Some t' \<and>
    ticks t' = map (\<lambda>k. now + m_interval * int (k + 1)) [0..<n + length (takeWhile goes_on evs) +
      (case dropWhile goes_on evs of [] \<Rightarrow> 0 | ev # _ \<Rightarrow> if ev = ParentCloses then 0 else 1)] \<and>
    it_alive t' = (\<forall>ev\<in>set evs. goes_on ev)"
  using assms
proof (induction evs arbitrary: n t)
  case Nil
  then show ?case by (auto simp: interval_inv_def)
next
  case (Cons ev evs)
  from interval_event_cases[OF Cons.prems(1), of ev] Cons.prems(2) obtain t' where
    t': "interval_event_step m_interval ev t = Some t'"
    "if goes_on ev then interval_inv now m_interval (Suc n) t'
     else \<not> it_alive t' \<and> \<not> it_open t' \<and>
       ticks t' = map (\<lambda>k. now + m_interval * int (k + 1)) [0..<if ev = ParentCloses then n else Suc n]" by auto
  show ?case
  proof (cases "goes_on ev")
    case True
    then show ?thesis using Cons.IH[of "Suc n" t'] Cons.prems(2) t' by auto
  next
    case False
    then show ?thesis using t' interval_dead[of t' m_interval evs] by auto
  qed
qed

text \<open>
  C35: An interval timer whose handler throws neither after it has closed its context nor when it is
  told of an error: no deleted object is used; the handler is called at start + interval, start + 2
  interval, and so on, without drift however long it takes. It goes on after a call without an error
  in which the handler answered true or threw, and ends, with no further call, after the first call
  in which the handler answered false, was told of an error or closed the context, or when
  the context closes; the timer lives exactly as long as none of these happened.
\<close>

theorem interval_ticks:
  assumes "\<forall>ev\<in>set evs. polite ev"
  shows "\<exists>t n. Option.bind (interval_start now m_interval) (interval_run m_interval evs) = Some t \<and>
    ticks t = map (\<lambda>k. now + m_interval * int (k + 1)) [0..<n] \<and>
    n = length (takeWhile goes_on evs) + (case dropWhile goes_on evs of [] \<Rightarrow> 0 | ev # _ \<Rightarrow> if ev = ParentCloses then 0 else 1) \<and>
    it_alive t = (\<forall>ev\<in>set evs. goes_on ev)"
proof -
  have "\<exists>t. interval_start now m_interval = Some t \<and> interval_inv now m_interval 0 t"
    by (auto simp: interval_start_def startNextTick_def interval_inv_def)
  then obtain t where t: "interval_start now m_interval = Some t" "interval_inv now m_interval 0 t" by blast
  from interval_run_ticks[OF t(2) assms] t(1) show ?thesis by auto
qed

theorem interval_ticks_witness:
  "\<exists>t. Option.bind (interval_start 100 10)
      (interval_run 10 [Wakeup False (ReturnsFlag True) False, Wakeup False Throws False, Wakeup False (ReturnsFlag False) False]) = Some t \<and>
    ticks t = [110, 120, 130] \<and> \<not> it_alive t"
proof -
  let ?evs = "[Wakeup False (ReturnsFlag True) False, Wakeup False Throws False, Wakeup False (ReturnsFlag False) False]"
  have "\<forall>ev\<in>set ?evs. polite ev" by simp
  from interval_ticks[OF this, of 100 10] show ?thesis by (auto simp: goes_on_def upt_rec)
qed

text \<open>
  A handler that throws when it is told of an error keeps the broken timer running, though the documentation
  of setInterval has it stop.
\<close>

theorem interval_broken_goes_on:
  assumes "interval_inv now m_interval n t"
  shows "\<exists>t'. interval_event_step m_interval (Wakeup True Throws False) t = Some t' \<and> interval_inv now m_interval (Suc n) t'"
  using assms by (auto simp: interval_inv_def interval_wakeup_def startNextTick_def Let_def algebra_simps)

theorem interval_broken_goes_on_witness:
  "\<exists>t'. interval_event_step 10 (Wakeup True Throws False)
    \<lparr>it_alive = True, it_open = True, m_tickTime = 110, waiting_for = Some 110, ticks = []\<rparr> = Some t' \<and> ticks t' = [110]"
  using interval_broken_goes_on[of 100 10 0 "\<lparr>it_alive = True, it_open = True, m_tickTime = 110, waiting_for = Some 110, ticks = []\<rparr>"]
  by (auto simp: interval_inv_def)

text \<open>A handler that closes the context and then throws makes the timer use itself after its deletion.\<close>

theorem interval_throw_after_close:
  "Option.bind (interval_start now m_interval) (interval_run m_interval [Wakeup False Throws True]) = None"
  by (simp add: interval_start_def startNextTick_def interval_wakeup_def interval_close_def Let_def)

section \<open>Futures with a time-out\<close>

text \<open>
  setTimeout(aoCtx, future, timeout) of include/nhope/async/timer.h: the timer, or the close of its
  context, only cancels the future's token; the answer still waits for the future's result,
  whose value is replaced by AsyncOperationWasCancelled (None) when the token was cancelled. A
  timer that fails with another error changes nothing.
\<close>

record ('v, 'e) timed_future =
  tf_source :: "('e + 'v) option"
  tf_cancelled :: bool
  timedPromise :: "('e option + 'v) list"

definition timed_make :: "('v, 'e) timed_future" where
  "timed_make = \<lparr>tf_source = None, tf_cancelled = False, timedPromise = []\<rparr>"

definition timed_timer :: "'e io_outcome \<Rightarrow> ('v, 'e) timed_future \<Rightarrow> ('v, 'e) timed_future" where
  "timed_timer outcome t = (case outcome of
     IoValue \<Rightarrow> t\<lparr>tf_cancelled := True\<rparr>
   | IoCancelled \<Rightarrow> t\<lparr>tf_cancelled := True\<rparr>
   | IoError _ \<Rightarrow> t)"

definition timed_source :: "'e + 'v \<Rightarrow> ('v, 'e) timed_future \<Rightarrow> ('v, 'e) timed_future option" where
  "timed_source r t =
     (if tf_source t \<noteq> None then None
      else Some (t\<lparr>tf_source := Some r, timedPromise := timedPromise t @
        [case r of Inl e \<Rightarrow> Inl (Some e) | Inr v \<Rightarrow> if tf_cancelled t then Inl None else Inr v]\<rparr>))"

inductive timed_reachable :: "('v, 'e) timed_future \<Rightarrow> bool" where
  timed_start: "timed_reachable timed_make"
| timed_fires: "timed_reachable t \<Longrightarrow> timed_reachable (timed_timer outcome t)"
| timed_answers: "timed_reachable t \<Longrightarrow> timed_source r t = Some t' \<Longrightarrow> timed_reachable t'"

lemma timed_answer_once:
  assumes "timed_reachable t"
  shows "length (timedPromise t) \<le> 1 \<and> (timedPromise t = []) = (tf_source t = None) \<and>
    (Inl None \<in> set (timedPromise t) \<longrightarrow> tf_cancelled t)"
  using assms
proof (induction rule: timed_reachable.induct)
  case (timed_fires t outcome)
  then show ?case by (cases outcome) (auto simp: timed_timer_def)
next
  case (timed_answers t r t')
  then show ?case by (cases r) (auto simp: timed_source_def split: if_splits)
qed (simp add: timed_make_def)

end
