(* ===== verification/CtxCallback.thy ===== *)
theory CtxCallback
  imports Prelude
begin

text \<open>
  FutureCallbackWithAOContext of include/nhope/async/detail/future-state.h, the callback that
  then(aoCtx, fn) and fail(aoCtx, fn) of include/nhope/async/future.h attach, and the functions
  made of it: asyncInvoke and invoke (async-invoke.h) and makeSafeCallback (safe-callback.h).

  One callback between the state of its future (the source) and the state of the future that
  then returned (the next one). Of the context this uses what AOContext and CloseHandlers show:
  work runs only while the context is open, a close waits for running work, then calls every
  handler that is still registered. References decide when the source and the callback with it
  are destroyed. A failed assertion, or a second result for a state, is None.
\<close>

section \<open>The callback, its states and its context\<close>

record 'r bound =
  b_source :: "'r option"
  b_attached :: bool          \<comment> \<open>setCallback of the source was called\<close>
  b_promise :: bool           \<comment> \<open>the promise of the source exists\<close>
  b_caller :: bool            \<comment> \<open>then has not returned; it holds detachedState\<close>
  b_job :: bool               \<comment> \<open>the work given to exec, which holds the source\<close>
  b_registered :: bool        \<comment> \<open>among the close handlers\<close>
  m_nextFutureState :: bool   \<comment> \<open>not null\<close>
  b_next :: "'r option"
  b_ctx :: ctx_phase
  b_runs :: "'r list"         \<comment> \<open>ghost: the results the callback was run with\<close>

text \<open>
  The constructor registers the callback, which throws AOContextClosed on a closed context: None.
  r is the result of the source, p whether its promise still exists.
\<close>

definition bound_make :: "ctx_phase \<Rightarrow> 'r option \<Rightarrow> bool \<Rightarrow> 'r bound option" where
  "bound_make c r p =
     (if c \<noteq> CtxOpen then None
      else Some \<lparr>b_source = r, b_attached = False, b_promise = p, b_caller = True, b_job = False,
        b_registered = True, m_nextFutureState = True, b_next = None, b_ctx = c, b_runs = []\<rparr>)"

definition b_alive :: "'r bound \<Rightarrow> bool" where
  "b_alive b \<longleftrightarrow> b_promise b \<or> b_caller b \<or> b_job b"

text \<open>With the last reference the source and its callback are gone; the destructor unregisters it.\<close>

definition release_source :: "'r bound \<Rightarrow> 'r bound" where
  "release_source b = (if b_alive b then b else b\<lparr>b_registered := False, m_nextFutureState := False\<rparr>)"

text \<open>futureReady gives its work to the context, which ignores it when a close has begun.\<close>

definition bound_ready :: "'r bound \<Rightarrow> 'r bound" where
  "bound_ready b = (if b_ctx b = CtxOpen then b\<lparr>b_job := True\<rparr> else b)"

definition set_source :: "'r \<Rightarrow> 'r bound \<Rightarrow> 'r bound option" where
  "set_source r b =
     (if b_source b \<noteq> None then None
      else let b = b\<lparr>b_source := Some r\<rparr> in Some (if b_attached b then bound_ready b else b))"

definition set_bound_callback :: "'r bound \<Rightarrow> 'r bound" where
  "set_bound_callback b = (let b = b\<lparr>b_attached := True\<rparr> in if b_source b \<noteq> None then bound_ready b else b)"

definition set_next :: "'r \<Rightarrow> 'r bound \<Rightarrow> 'r bound option" where
  "set_next r b = (if b_next b \<noteq> None then None else Some (b\<lparr>b_next := Some r\<rparr>))"

text \<open>
  futureCancelled: aoContextClose of the callback. And the handlers of a context that closes.
\<close>

definition futureCancelled :: "'r \<Rightarrow> 'r bound \<Rightarrow> 'r bound option" where
  "futureCancelled cancelled b =
     (if m_nextFutureState b then map_option (\<lambda>b. b\<lparr>m_nextFutureState := False\<rparr>) (set_next cancelled b)
      else Some b)"

definition bound_ctx_calls :: "'r \<Rightarrow> 'r bound \<Rightarrow> 'r bound option" where
  "bound_ctx_calls cancelled b =
     map_option (\<lambda>b. b\<lparr>b_registered := False, b_ctx := CtxClosed\<rparr>)
       (if b_registered b then futureCancelled cancelled b else Some b)"

text \<open>
  The work: it is dropped when the context is no longer open. Otherwise futureReady moves the
  pointer to the next state into a local variable and settles it: settle gives the result for
  the source's one, for a next state that was cancelled (True) or not. The user's function may
  close the context (closes), whose handlers are then called in the middle.
\<close>

definition bound_job :: "(bool \<Rightarrow> 'r \<Rightarrow> 'r) \<Rightarrow> 'r \<Rightarrow> bool \<Rightarrow> bool \<Rightarrow> 'r bound \<Rightarrow> 'r bound option" where
  "bound_job settle cancelled tok closes b =
     (if b_ctx b \<noteq> CtxOpen then Some (release_source (b\<lparr>b_job := False\<rparr>))
      else if \<not> m_nextFutureState b then None
      else case b_source b of
        None \<Rightarrow> None
      | Some r \<Rightarrow>
          let b = b\<lparr>m_nextFutureState := False, b_runs := b_runs b @ [r]\<rparr> in
          Option.bind (if closes then bound_ctx_calls cancelled b else Some b) (\<lambda>b.
          Option.bind (set_next (settle tok r) b) (\<lambda>b.
          Some (release_source (b\<lparr>b_job := False\<rparr>)))))"

definition drop_promise :: "'r \<Rightarrow> 'r bound \<Rightarrow> 'r bound option" where
  "drop_promise broken b =
     map_option (\<lambda>b. release_source (b\<lparr>b_promise := False\<rparr>))
       (if b_source b = None then set_source broken b else Some b)"

inductive bound_step :: "(bool \<Rightarrow> 'r \<Rightarrow> 'r) \<Rightarrow> 'r \<Rightarrow> 'r \<Rightarrow> 'r bound \<Rightarrow> 'r bound option \<Rightarrow> bool"
  for settle cancelled broken where
  b_result: "b_promise b \<Longrightarrow> b_source b = None \<Longrightarrow> bound_step settle cancelled broken b (set_source r b)"
| b_drop: "b_promise b \<Longrightarrow> bound_step settle cancelled broken b (drop_promise broken b)"
| b_attach: "b_caller b \<Longrightarrow> \<not> b_attached b \<Longrightarrow> bound_step settle cancelled broken b (Some (set_bound_callback b))"
| b_return: "b_caller b \<Longrightarrow> b_attached b \<Longrightarrow>
    bound_step settle cancelled broken b (Some (release_source (b\<lparr>b_caller := False\<rparr>)))"
| b_run: "b_job b \<Longrightarrow> bound_step settle cancelled broken b (bound_job settle cancelled tok closes b)"
| b_startClose: "b_ctx b = CtxOpen \<Longrightarrow> bound_step settle cancelled broken b (Some (b\<lparr>b_ctx := CtxClosing\<rparr>))"
| b_callHandlers: "b_ctx b = CtxClosing \<Longrightarrow> bound_step settle cancelled broken b (bound_ctx_calls cancelled b)"

inductive bound_reachable :: "(bool \<Rightarrow> 'r \<Rightarrow> 'r) \<Rightarrow> 'r \<Rightarrow> 'r \<Rightarrow> 'r bound \<Rightarrow> bool"
  for settle cancelled broken where
  bound_start: "bound_make CtxOpen r p = Some b \<Longrightarrow> (r = None \<Longrightarrow> p) \<Longrightarrow> bound_reachable settle cancelled broken b"
| bound_more: "bound_reachable settle cancelled broken b \<Longrightarrow> bound_step settle cancelled broken b (Some b') \<Longrightarrow>
    bound_reachable settle cancelled broken b'"

section \<open>The invariant\<close>

definition bound_refs_inv :: "'r bound \<Rightarrow> bool" where
  "bound_refs_inv b \<longleftrightarrow> (b_source b = None \<longrightarrow> b_promise b) \<and> (\<not> b_attached b \<longrightarrow> b_caller b \<and> \<not> b_job b) \<and>
     (b_job b \<longrightarrow> b_source b \<noteq> None) \<and> (b_registered b \<longrightarrow> b_alive b) \<and>
     (b_alive b \<and> b_ctx b \<noteq> CtxClosed \<longrightarrow> b_registered b)"

definition bound_next_inv :: "'r bound \<Rightarrow> bool" where
  "bound_next_inv b \<longleftrightarrow> m_nextFutureState b = (b_alive b \<and> b_next b = None) \<and>
     (b_ctx b = CtxOpen \<longrightarrow> b_job b = (b_attached b \<and> b_source b \<noteq> None \<and> b_next b = None)) \<and>
     (b_ctx b = CtxClosed \<and> b_alive b \<longrightarrow> b_next b \<noteq> None) \<and>
     (\<not> b_attached b \<and> b_ctx b \<noteq> CtxClosed \<longrightarrow> b_next b = None)"

definition bound_result_inv :: "(bool \<Rightarrow> 'r \<Rightarrow> 'r) \<Rightarrow> 'r \<Rightarrow> 'r bound \<Rightarrow> bool" where
  "bound_result_inv settle cancelled b \<longleftrightarrow> (case b_next b of
     None \<Rightarrow> b_runs b = []
   | Some r \<Rightarrow> (b_runs b = [] \<and> r = cancelled \<and> b_ctx b = CtxClosed) \<or>
       (\<exists>tok s. b_runs b = [s] \<and> b_source b = Some s \<and> r = settle tok s))"

definition bound_inv :: "(bool \<Rightarrow> 'r \<Rightarrow> 'r) \<Rightarrow> 'r \<Rightarrow> 'r bound \<Rightarrow> bool" where
  "bound_inv settle cancelled b \<longleftrightarrow> bound_refs_inv b \<and> bound_next_inv b \<and> bound_result_inv settle cancelled b"

lemmas bound_inv_defs = bound_inv_def bound_refs_inv_def bound_next_inv_def bound_result_inv_def
lemmas bound_op_defs = release_source_def bound_ready_def set_source_def set_bound_callback_def set_next_def
  futureCancelled_def bound_ctx_calls_def drop_promise_def b_alive_def Let_def

lemma bound_inv_step:
  assumes inv: "bound_inv settle cancelled b" and st: "bound_step settle cancelled broken b r"
  shows "\<exists>b'. r = Some b' \<and> bound_inv settle cancelled b'"
  using st
proof cases
  case (b_run tok closes)
  show ?thesis
  proof (cases "b_ctx b = CtxOpen")
    case False
    then show ?thesis using inv b_run
      by (cases "b_next b") (auto simp: bound_inv_defs bound_op_defs bound_job_def)
  next
    case True
    then obtain s where s: "b_source b = Some s" "b_next b = None" "m_nextFutureState b" "b_runs b = []"
      using inv b_run by (auto simp: bound_inv_defs b_alive_def)
    show ?thesis
      using inv True s b_run
      by (cases closes) (auto simp: bound_inv_defs bound_op_defs bound_job_def)
  qed
next
  case (b_result r)
  then show ?thesis using inv by (cases "b_ctx b"; cases "b_next b") (auto simp: bound_inv_defs bound_op_defs)
next
  case b_drop
  show ?thesis
  proof (cases "b_source b")
    case None
    then show ?thesis using inv b_drop by (cases "b_ctx b"; cases "b_next b") (auto simp: bound_inv_defs bound_op_defs)
  next
    case (Some s)
    then show ?thesis using inv b_drop by (cases "b_ctx b"; cases "b_next b") (auto simp: bound_inv_defs bound_op_defs)
  qed
next
  case b_attach
  then show ?thesis using inv by (cases "b_ctx b"; cases "b_next b") (auto simp: bound_inv_defs bound_op_defs)
next
  case b_return
  then show ?thesis using inv by (cases "b_ctx b"; cases "b_next b") (auto simp: bound_inv_defs bound_op_defs)
next
  case b_startClose
  then show ?thesis using inv by (cases "b_next b") (auto simp: bound_inv_defs bound_op_defs)
next
  case b_callHandlers
  then show ?thesis using inv by (cases "b_next b"; cases "b_registered b") (auto simp: bound_inv_defs bound_op_defs)
qed

lemma bound_reachable_inv: "bound_reachable settle cancelled broken b \<Longrightarrow> bound_inv settle cancelled b"
proof (induction rule: bound_reachable.induct)
  case (bound_start r p b)
  then show ?case by (auto simp: bound_make_def bound_inv_defs b_alive_def)
next
  case (bound_more b b')
  then show ?case using bound_inv_step[OF bound_more.IH bound_more.hyps(2)] by simp
qed

text \<open>The context goes from open to closing to closed and never back.\<close>

lemma bound_step_phase: "bound_step settle cancelled broken b (Some b') \<Longrightarrow> b_ctx b \<le> b_ctx b'"
  by (erule bound_step.cases) (auto simp: bound_op_defs bound_job_def less_eq_ctx_phase_def split: if_splits option.splits
    Option.bind_splits)

section \<open>What a bound callback promises\<close>

text \<open>The callback begins to run only while the context is open.\<close>

lemma bound_step_runs:
  assumes "bound_step settle cancelled broken b (Some b')" and "b_runs b' \<noteq> b_runs b"
  shows "b_ctx b = CtxOpen"
  using assms by cases (auto simp: bound_op_defs bound_job_def split: if_splits option.splits)

text \<open>
  C36: then(aoCtx, fn) and fail(aoCtx, fn), in every interleaving of the source's result, the
  death of its promise, the attaching thread and the close of the context, also from within fn:
  the callback is run at most once, with the source's result, and it begins only while the context
  is open. The next future gets at most one result: what the callback makes of the source's, or
  AsyncOperationWasCancelled when the context closed before that. As long as the context is open
  the next future has its result or somebody will give it; when the close is over it has one if
  the source still lives. It is left without a result only when the last reference to the source
  goes after a close has begun and before that close has reached the callback (ctx_callback_lost).
\<close>

theorem ctx_callback_settles:
  assumes "bound_reachable settle cancelled broken b"
  shows "\<not> bound_step settle cancelled broken b None \<and>
    (\<forall>b'. bound_step settle cancelled broken b (Some b') \<longrightarrow> b_runs b' \<noteq> b_runs b \<longrightarrow> b_ctx b = CtxOpen) \<and>
    (case b_next b of
       None \<Rightarrow> b_runs b = [] \<and> (b_ctx b = CtxOpen \<longrightarrow> b_promise b \<or> b_caller b \<or> b_job b) \<and>
         (b_ctx b = CtxClosed \<longrightarrow> \<not> b_promise b \<and> \<not> b_caller b \<and> \<not> b_job b)
     | Some r \<Rightarrow> (b_runs b = [] \<and> r = cancelled \<and> b_ctx b = CtxClosed) \<or>
         (\<exists>tok s. b_runs b = [s] \<and> b_source b = Some s \<and> r = settle tok s))"
proof -
  note inv = bound_reachable_inv[OF assms]
  have "\<not> bound_step settle cancelled broken b None" using bound_inv_step[OF inv] by blast
  moreover have "b_ctx b = CtxOpen \<Longrightarrow> b_next b = None \<Longrightarrow> b_promise b \<or> b_caller b \<or> b_job b"
    using inv by (cases "b_source b") (auto simp: bound_inv_defs b_alive_def)
  moreover have "b_ctx b = CtxClosed \<Longrightarrow> b_next b = None \<Longrightarrow> \<not> b_promise b \<and> \<not> b_caller b \<and> \<not> b_job b"
    using inv by (auto simp: bound_inv_def bound_next_inv_def b_alive_def)
  moreover have "\<forall>b'. bound_step settle cancelled broken b (Some b') \<longrightarrow> b_runs b' \<noteq> b_runs b \<longrightarrow> b_ctx b = CtxOpen"
    by (intro allI impI) (rule bound_step_runs)
  moreover have "bound_result_inv settle cancelled b" using inv by (simp add: bound_inv_def)
  ultimately show ?thesis by (cases "b_next b") (simp_all add: bound_result_inv_def)
qed

text \<open>A ready source and a callback that closes its own context.\<close>

lemma bound_example:
  fixes settle :: "bool \<Rightarrow> 'r \<Rightarrow> 'r"
  shows "bound_reachable settle cancelled broken \<lparr>b_source = Some v, b_attached = True, b_promise = False,
    b_caller = False, b_job = False, b_registered = False, m_nextFutureState = False,
    b_next = Some (settle False v), b_ctx = CtxClosed, b_runs = [v]\<rparr>"
proof -
  let ?b = "\<lambda>att cal job. \<lparr>b_source = Some v, b_attached = att, b_promise = False, b_caller = cal, b_job = job,
    b_registered = True, m_nextFutureState = True, b_next = None, b_ctx = CtxOpen, b_runs = []\<rparr>"
  have "bound_reachable settle cancelled broken (?b False True False)"
    by (rule bound_start[of "Some v" False]) (simp_all add: bound_make_def)
  from bound_more[OF this b_attach] have "bound_reachable settle cancelled broken (?b True True True)"
    by (simp add: bound_op_defs)
  from bound_more[OF this b_return] have "bound_reachable settle cancelled broken (?b True False True)"
    by (simp add: bound_op_defs)
  from bound_more[OF this] b_run[of "?b True False True" settle cancelled broken False True] show ?thesis
    by (simp add: bound_job_def bound_op_defs)
qed

theorem ctx_callback_settles_witness:
  "\<not> bound_step (\<lambda>tok. Suc) 0 9 \<lparr>b_source = Some 4, b_attached = True, b_promise = False,
    b_caller = False, b_job = False, b_registered = False, m_nextFutureState = False,
    b_next = Some 5, b_ctx = CtxClosed, b_runs = [4]\<rparr> None"
  using ctx_callback_settles[OF bound_example[of "\<lambda>tok. Suc" 0 9 4]] by simp

text \<open>
  When a close has begun and the last reference to the source goes before the close has reached
  the callback, the destructor takes the callback out of the list and nobody settles the next
  future any more: a thread that waits for it waits forever.
\<close>

lemma bound_lost_forever:
  assumes "\<not> b_alive b" and "b_next b = None" and "\<not> b_registered b" and "bound_step settle cancelled broken b (Some b')"
  shows "\<not> b_alive b' \<and> b_next b' = None \<and> \<not> b_registered b'"
  using assms(4) by cases (use assms(1-3) in \<open>auto simp: bound_op_defs\<close>)

theorem ctx_callback_lost:
  fixes settle :: "bool \<Rightarrow> 'r \<Rightarrow> 'r"
  shows "\<exists>b. bound_reachable settle cancelled broken b \<and> \<not> b_alive b \<and> b_next b = None \<and> \<not> b_registered b"
proof -
  let ?b = "\<lambda>att cal job c. \<lparr>b_source = Some undefined, b_attached = att, b_promise = False, b_caller = cal, b_job = job,
    b_registered = True, m_nextFutureState = True, b_next = None, b_ctx = c, b_runs = []\<rparr> :: 'r bound"
  have "bound_reachable settle cancelled broken (?b False True False CtxOpen)"
    by (rule bound_start[of "Some undefined" False]) (simp_all add: bound_make_def)
  from bound_more[OF this b_attach] have "bound_reachable settle cancelled broken (?b True True True CtxOpen)"
    by (simp add: bound_op_defs)
  from bound_more[OF this b_return] have "bound_reachable settle cancelled broken (?b True False True CtxOpen)"
    by (simp add: bound_op_defs)
  from bound_more[OF this b_startClose] have r: "bound_reachable settle cancelled broken (?b True False True CtxClosing)"
    by simp
  have "bound_reachable settle cancelled broken (release_source (?b True False False CtxClosing))"
    by (rule bound_more[OF r])
      (use b_run[of "?b True False True CtxClosing" settle cancelled broken] in \<open>simp add: bound_job_def\<close>)
  then show ?thesis by (intro exI[of _ "release_source (?b True False False CtxClosing)"]) (simp add: bound_op_defs)
qed

section \<open>asyncInvoke, invoke and safe callbacks\<close>

text \<open>asyncInvoke attaches to a future that is ready; invoke waits for the answer.\<close>

definition asyncInvoke :: "ctx_phase \<Rightarrow> 'r \<Rightarrow> 'r bound option" where
  "asyncInvoke c unit_value = map_option set_bound_callback (bound_make c (Some unit_value) False)"

datatype invoke_error = DetectedDeadlock | AOContextClosed

definition invoke :: "bool \<Rightarrow> ctx_phase \<Rightarrow> 'r \<Rightarrow> invoke_error + 'r bound" where
  "invoke workInThisThread c unit_value =
     (if workInThisThread then Inl DetectedDeadlock
      else case asyncInvoke c unit_value of None \<Rightarrow> Inl AOContextClosed | Some b \<Rightarrow> Inr b)"

lemma invoke_queued:
  "invoke False CtxOpen v = Inr b \<Longrightarrow> bound_reachable settle cancelled broken b \<and> b_job b \<and> b_source b = Some v"
  using bound_more[OF bound_start b_attach, of "Some v" False _ settle cancelled broken]
  by (auto simp: invoke_def asyncInvoke_def bound_make_def bound_op_defs)

text \<open>
  A safe callback: an exception, or whether the callback was given to the executor. The context
  may begin to close between the check and exec.
\<close>

datatype aoContextClosedActions = ThrowAOContextClosed | NotThrowAOContextClosed

definition safe_call :: "aoContextClosedActions \<Rightarrow> ctx_phase \<Rightarrow> ctx_phase \<Rightarrow> invoke_error + bool" where
  "safe_call actions c_check c_exec =
     (if actions = ThrowAOContextClosed \<and> c_check \<noteq> CtxOpen then Inl AOContextClosed else Inr (c_exec = CtxOpen))"

lemma safe_call_runs_open: "safe_call actions c_check c_exec = Inr True \<Longrightarrow> c_exec = CtxOpen"
  by (simp add: safe_call_def split: if_splits)

lemma safe_call_quiet: "safe_call NotThrowAOContextClosed c_check c_exec = Inr (c_exec = CtxOpen)"
  by (simp add: safe_call_def)

end
