(* ===== verification/CallQueue.thy ===== *)
theory CallQueue
  imports Prelude
begin

text \<open>
  include/nhope/async/call-queue.h: a chain of futures that runs the pushed calls one after the
  other, each on the AOContext it was pushed with. A call is three links of the chain,
  then(ctx, fn), then(ctx, set the promise) and fail(ctx, set the exception). What a link does
  with the result before it, with a cancelled chain and with a closed context is what
  FutureChain and CtxCallback show: a then passes an exception on and answers
  AsyncOperationWasCancelled on a cancelled chain, and every link of a closed context that has
  no result yet gets AsyncOperationWasCancelled.
\<close>

section \<open>The chain\<close>

text \<open>
  call_out: the result of the future after the call's last link. call_result: what the future
  that push answered has; BrokenPromise when its promise was destroyed with the links.
\<close>

datatype ('v, 'e) call_outcome = CallValue 'v | CallThrew 'e | ChainCancelled | CallBroken

datatype call_stage = CallWaiting | CallRunning | CallDone

record ('v, 'e) queued_call =
  call_ctx :: nat
  call_stage_of :: call_stage
  call_out :: "('v, 'e) call_outcome option option"   \<comment> \<open>Some None: a ready Future<void>\<close>
  call_result :: "('v, 'e) call_outcome option"

record ('v, 'e) call_queue =
  m_callChain :: bool                    \<comment> \<open>the chain has a state\<close>
  cq_calls :: "('v, 'e) queued_call list"
  cq_cancelled :: bool                   \<comment> \<open>the cancel token all links share\<close>
  cq_closed :: "nat set"                 \<comment> \<open>the contexts that are closed\<close>
  cq_started :: "nat list"               \<comment> \<open>ghost: the calls whose function was called\<close>

definition cq_make :: "('v, 'e) call_queue" where
  "cq_make = \<lparr>m_callChain = True, cq_calls = [], cq_cancelled = False, cq_closed = {}, cq_started = []\<rparr>"

text \<open>The future before call i: ready at the start of the chain.\<close>

definition call_in :: "('v, 'e) queued_call list \<Rightarrow> nat \<Rightarrow> ('v, 'e) call_outcome option option" where
  "call_in cs i = (if i = 0 then Some None else call_out (cs ! (i - 1)))"

text \<open>
  push: then on a chain without a state throws FutureNoStateError; on a closed context it throws
  AOContextClosed, after it has taken the state out of m_callChain.
\<close>

datatype push_error = FutureNoStateError | AOContextClosed

definition cq_push :: "nat \<Rightarrow> ('v, 'e) call_queue \<Rightarrow> ('v, 'e) call_queue \<times> (push_error + nat)" where
  "cq_push ctx q =
     (if \<not> m_callChain q then (q, Inl FutureNoStateError)
      else if ctx \<in> cq_closed q then (q\<lparr>m_callChain := False\<rparr>, Inl AOContextClosed)
      else (q\<lparr>cq_calls := cq_calls q @
          [\<lparr>call_ctx = ctx, call_stage_of = CallWaiting, call_out = None, call_result = None\<rparr>]\<rparr>,
        Inr (length (cq_calls q))))"

text \<open>The destructor cancels the chain; None: cancel of a future without a state throws in it.\<close>

definition cq_destroy :: "('v, 'e) call_queue \<Rightarrow> ('v, 'e) call_queue option" where
  "cq_destroy q = (if m_callChain q then Some (q\<lparr>cq_cancelled := True\<rparr>) else None)"

definition with_call :: "nat \<Rightarrow> ('v, 'e) queued_call \<Rightarrow> ('v, 'e) call_queue \<Rightarrow> ('v, 'e) call_queue" where
  "with_call i c q = q\<lparr>cq_calls := (cq_calls q)[i := c]\<rparr>"

text \<open>fail's callback sets the promise and makes a ready future of the chain again.\<close>

definition settled :: "('v, 'e) call_outcome \<Rightarrow> ('v, 'e) queued_call \<Rightarrow> ('v, 'e) queued_call" where
  "settled r c = c\<lparr>call_stage_of := CallDone, call_out := Some None, call_result := Some r\<rparr>"

text \<open>The first link is reached: the function is called, or it is passed over.\<close>

definition call_begin :: "nat \<Rightarrow> ('v, 'e) call_queue \<Rightarrow> ('v, 'e) call_queue" where
  "call_begin i q = (let c = cq_calls q ! i in
     case call_in (cq_calls q) i of
       Some (Some e) \<Rightarrow> with_call i (settled e c) q
     | Some None \<Rightarrow>
         if cq_cancelled q then with_call i (settled ChainCancelled c) q
         else with_call i (c\<lparr>call_stage_of := CallRunning\<rparr>) (q\<lparr>cq_started := cq_started q @ [i]\<rparr>)
     | None \<Rightarrow> q)"

text \<open>The function's future is ready with a value, or with an exception.\<close>

definition call_end :: "nat \<Rightarrow> 'e + 'v \<Rightarrow> ('v, 'e) call_queue \<Rightarrow> ('v, 'e) call_queue" where
  "call_end i r q = (let c = cq_calls q ! i in
     with_call i (settled (case r of Inl e \<Rightarrow> CallThrew e
       | Inr v \<Rightarrow> if cq_cancelled q then ChainCancelled else CallValue v) c) q)"

text \<open>A context closes: all links of its calls that have no result are cancelled. The promise
  of the call goes with its links, at the latest when the function's future is ready; here at once.\<close>

definition close_call :: "nat \<Rightarrow> ('v, 'e) queued_call \<Rightarrow> ('v, 'e) queued_call" where
  "close_call ctx c =
     (if call_ctx c = ctx \<and> call_stage_of c \<noteq> CallDone
      then c\<lparr>call_stage_of := CallDone, call_out := Some (Some ChainCancelled), call_result := Some CallBroken\<rparr>
      else c)"

definition cq_close_ctx :: "nat \<Rightarrow> ('v, 'e) call_queue \<Rightarrow> ('v, 'e) call_queue" where
  "cq_close_ctx ctx q = q\<lparr>cq_calls := map (close_call ctx) (cq_calls q), cq_closed := insert ctx (cq_closed q)\<rparr>"

inductive cq_step :: "('v, 'e) call_queue \<Rightarrow> ('v, 'e) call_queue \<Rightarrow> bool" where
  cq_pushed: "cq_step q (fst (cq_push ctx q))"
| cq_begins: "i < length (cq_calls q) \<Longrightarrow> call_stage_of (cq_calls q ! i) = CallWaiting \<Longrightarrow>
    call_in (cq_calls q) i \<noteq> None \<Longrightarrow> cq_step q (call_begin i q)"
| cq_ends: "i < length (cq_calls q) \<Longrightarrow> call_stage_of (cq_calls q ! i) = CallRunning \<Longrightarrow> cq_step q (call_end i r q)"
| cq_destroyed: "cq_destroy q = Some q' \<Longrightarrow> cq_step q q'"

inductive cq_reachable :: "('v, 'e) call_queue \<Rightarrow> bool" where
  cq_reach_make: "cq_reachable cq_make"
| cq_reach_step: "cq_reachable q \<Longrightarrow> cq_step q q' \<Longrightarrow> cq_reachable q'"


section \<open>Calls are serial\<close>

text \<open>The calls before the k-th are done and left a ready chain, the ones behind it wait.\<close>

definition done_before :: "nat \<Rightarrow> ('v, 'e) queued_call list \<Rightarrow> bool" where
  "done_before k cs \<longleftrightarrow> (\<forall>i<k. call_stage_of (cs ! i) = CallDone \<and> call_out (cs ! i) = Some None \<and> call_result (cs ! i) \<noteq> None)"

definition waiting_after :: "nat \<Rightarrow> ('v, 'e) queued_call list \<Rightarrow> bool" where
  "waiting_after k cs \<longleftrightarrow> (\<forall>i<length cs. k \<le> i \<longrightarrow> call_out (cs ! i) = None \<and> call_result (cs ! i) = None \<and>
     call_stage_of (cs ! i) \<noteq> CallDone \<and> (k < i \<longrightarrow> call_stage_of (cs ! i) = CallWaiting))"

definition running_at :: "nat \<Rightarrow> ('v, 'e) queued_call list \<Rightarrow> nat list" where
  "running_at k cs = (if k < length cs \<and> call_stage_of (cs ! k) = CallRunning then [k] else [])"

definition cq_inv :: "nat \<Rightarrow> ('v, 'e) call_queue \<Rightarrow> bool" where
  "cq_inv k q \<longleftrightarrow> k \<le> length (cq_calls q) \<and> done_before k (cq_calls q) \<and> waiting_after k (cq_calls q) \<and>
     (\<not> cq_cancelled q \<longrightarrow> cq_started q = [0..<k] @ running_at k (cq_calls q)) \<and>
     (\<exists>n\<le>length (cq_calls q). cq_started q = [0..<n])"

text \<open>Only the k-th call can begin or end.\<close>

lemma cq_active:
  assumes "cq_inv k q" and "i < length (cq_calls q)"
  shows "call_in (cq_calls q) i \<noteq> None \<and> call_stage_of (cq_calls q ! i) \<noteq> CallDone \<longleftrightarrow> i = k"
    and "call_stage_of (cq_calls q ! i) = CallRunning \<Longrightarrow> i = k"
    and "call_in (cq_calls q) k = Some None"
proof -
  have d: "done_before k (cq_calls q)" and w: "waiting_after k (cq_calls q)" and k: "k \<le> length (cq_calls q)"
    using assms(1) by (simp_all add: cq_inv_def)
  show in_k: "call_in (cq_calls q) k = Some None"
    using d by (cases k) (simp_all add: call_in_def done_before_def)
  show "call_stage_of (cq_calls q ! i) = CallRunning \<Longrightarrow> i = k"
    using d w assms(2) by (cases i k rule: linorder_cases) (auto simp: done_before_def waiting_after_def)
  show "call_in (cq_calls q) i \<noteq> None \<and> call_stage_of (cq_calls q ! i) \<noteq> CallDone \<longleftrightarrow> i = k"
  proof (cases i k rule: linorder_cases)
    case less
    then show ?thesis using d by (auto simp: done_before_def)
  next
    case equal
    then show ?thesis using w assms(2) in_k by (auto simp: waiting_after_def)
  next
    case greater
    then show ?thesis using w assms(2) by (auto simp: waiting_after_def call_in_def)
  qed
qed

lemma cq_inv_settle:
  assumes "cq_inv k q" and "k < length (cq_calls q)"
    and "cq_cancelled q \<or> call_stage_of (cq_calls q ! k) = CallRunning"
  shows "cq_inv (Suc k) (with_call k (settled r (cq_calls q ! k)) q)"
  using assms
  by (auto simp: cq_inv_def with_call_def settled_def done_before_def waiting_after_def running_at_def nth_list_update less_Suc_eq)

lemma cq_inv_begin:
  assumes "cq_inv k q" and "k < length (cq_calls q)" and "call_stage_of (cq_calls q ! k) = CallWaiting" and "\<not> cq_cancelled q"
  shows "cq_inv k (with_call k ((cq_calls q ! k)\<lparr>call_stage_of := CallRunning\<rparr>) (q\<lparr>cq_started := cq_started q @ [k]\<rparr>))"
proof -
  have "cq_started q = [0..<k]" using assms by (simp add: cq_inv_def running_at_def)
  then have "cq_started q @ [k] = [0..<Suc k]" by simp
  then show ?thesis using assms
    by (auto simp: cq_inv_def with_call_def done_before_def waiting_after_def running_at_def nth_list_update simp del: upt_Suc
      intro: exI[of _ "Suc k"])
qed

lemma cq_inv_append:
  assumes "k \<le> length cs" and "call_stage_of c = CallWaiting" and "call_out c = None" and "call_result c = None"
  shows "done_before k (cs @ [c]) = done_before k cs" and "waiting_after k (cs @ [c]) = waiting_after k cs"
    and "running_at k (cs @ [c]) = running_at k cs"
proof -
  show "done_before k (cs @ [c]) = done_before k cs" using assms by (simp add: done_before_def nth_append)
  show "waiting_after k (cs @ [c]) = waiting_after k cs"
    using assms by (auto simp: waiting_after_def nth_append less_Suc_eq)
  show "running_at k (cs @ [c]) = running_at k cs" using assms by (auto simp: running_at_def nth_append)
qed

lemma cq_inv_push:
  assumes "cq_inv k q"
  shows "cq_inv k (fst (cq_push ctx q))"
  using assms by (auto simp: cq_inv_def cq_push_def cq_inv_append intro: le_SucI)

lemma cq_inv_step:
  assumes inv: "cq_inv k q" and st: "cq_step q q'"
  shows "\<exists>k'. cq_inv k' q'"
  using st
proof cases
  case (cq_pushed ctx)
  then show ?thesis using cq_inv_push[OF inv] by blast
next
  case (cq_begins i)
  then have k: "i = k" using cq_active(1)[OF inv, of i] by simp
  then have "call_in (cq_calls q) i = Some None" using cq_active(3)[OF inv cq_begins(2)] by simp
  then show ?thesis using cq_begins k cq_inv_settle[OF inv] cq_inv_begin[OF inv]
    by (cases "cq_cancelled q") (auto simp: call_begin_def Let_def)
next
  case (cq_ends i r)
  then have "i = k" using cq_active(2)[OF inv, of i] by simp
  then show ?thesis using cq_ends cq_inv_settle[OF inv] by (auto simp: call_end_def Let_def)
next
  case cq_destroyed
  then have "q' = q\<lparr>cq_cancelled := True\<rparr>" by (simp add: cq_destroy_def split: if_splits)
  then show ?thesis using inv by (intro exI[of _ k]) (simp add: cq_inv_def)
qed

lemma cq_reachable_inv: "cq_reachable q \<Longrightarrow> \<exists>k. cq_inv k q"
proof (induction rule: cq_reachable.induct)
  case cq_reach_make
  show ?case by (intro exI[of _ 0]) (simp add: cq_inv_def cq_make_def done_before_def waiting_after_def running_at_def)
next
  case (cq_reach_step q q')
  then obtain k where "cq_inv k q" by blast
  then show ?case using cq_inv_step cq_reach_step.hyps(2) by blast
qed

text \<open>
  C37: while no context closes, a queue runs its calls in the order in which they were pushed and
  one at a time: the first k of them are done and their futures have results, also where a call
  threw; at most the next one runs; the others wait. It is never stuck: the next call can begin
  or is running. And after the queue is destroyed no call that had not begun is run.
\<close>

theorem call_queue_serial:
  assumes "cq_reachable q"
  shows "\<exists>k\<le>length (cq_calls q).
    (\<forall>i<k. call_stage_of (cq_calls q ! i) = CallDone \<and> call_result (cq_calls q ! i) \<noteq> None) \<and>
    (\<forall>i<length (cq_calls q). k < i \<longrightarrow> call_stage_of (cq_calls q ! i) = CallWaiting \<and> call_in (cq_calls q) i = None) \<and>
    (k < length (cq_calls q) \<longrightarrow> call_stage_of (cq_calls q ! k) = CallRunning \<or>
       call_stage_of (cq_calls q ! k) = CallWaiting \<and> call_in (cq_calls q) k = Some None) \<and>
    (\<exists>n. cq_started q = [0..<n]) \<and>
    (\<not> cq_cancelled q \<longrightarrow> cq_started q = [0..<k] @ running_at k (cq_calls q))"
proof -
  obtain k where inv: "cq_inv k q" using cq_reachable_inv[OF assms] by blast
  have "call_stage_of (cq_calls q ! k) = CallRunning \<or>
       call_stage_of (cq_calls q ! k) = CallWaiting \<and> call_in (cq_calls q) k = Some None" if "k < length (cq_calls q)"
    using cq_active(1,3)[OF inv that] by (cases "call_stage_of (cq_calls q ! k)") auto
  moreover have "call_in (cq_calls q) i = None" if "i < length (cq_calls q)" "k < i" for i
    using inv that by (simp add: cq_inv_def waiting_after_def call_in_def)
  ultimately show ?thesis using inv
    by (intro exI[of _ k]) (auto simp: cq_inv_def done_before_def waiting_after_def)
qed

theorem call_queue_serial_witness:
  fixes q :: "(nat, nat) call_queue"
  defines "q \<equiv> call_begin 1 (call_end 0 (Inl 7) (call_begin 0 (fst (cq_push 4 (fst (cq_push 3 cq_make))))))"
  shows "cq_started q = [0, 1]"
proof -
  let ?q0 = "fst (cq_push 4 (fst (cq_push 3 cq_make))) :: (nat, nat) call_queue"
  note defs = cq_push_def cq_make_def call_begin_def call_in_def call_end_def with_call_def settled_def Let_def
  have "cq_reachable ?q0" by (intro cq_reach_step[OF cq_reach_step[OF cq_reach_make cq_pushed] cq_pushed])
  from cq_reach_step[OF this cq_begins[of 0]] have "cq_reachable (call_begin 0 ?q0)" by (simp add: defs)
  from cq_reach_step[OF this cq_ends[of 0 _ "Inl 7"]] have "cq_reachable (call_end 0 (Inl 7) (call_begin 0 ?q0))"
    by (simp add: defs)
  from cq_reach_step[OF this cq_begins[of 1]] have "cq_reachable q" by (simp add: q_def defs)
  from call_queue_serial[OF this] have "\<exists>n. cq_started q = [0..<n]" by blast
  then show ?thesis by (simp add: q_def defs)
qed

section \<open>Contexts that close\<close>

text \<open>
  When the context of a waiting call closes, the chain behind it is ready at once: the next call
  fails without being run although its context is open, and the one after it runs beside the
  call that is still running.
\<close>

theorem call_queue_overlap:
  fixes q :: "(nat, nat) call_queue"
  defines "q \<equiv> fst (cq_push 0 (fst (cq_push 0 (fst (cq_push 1 (call_begin 0 (fst (cq_push 0 cq_make))))))))"
    and "q' \<equiv> call_begin 3 (call_begin 2 (cq_close_ctx 1 q))"
  shows "cq_reachable q \<and> map call_stage_of (cq_calls q') = [CallRunning, CallDone, CallDone, CallRunning] \<and>
    call_result (cq_calls q' ! 2) = Some ChainCancelled \<and> 0 \<notin> cq_closed q'"
proof -
  let ?q0 = "fst (cq_push 0 cq_make) :: (nat, nat) call_queue"
  note defs = cq_push_def cq_make_def call_begin_def call_in_def with_call_def settled_def Let_def cq_close_ctx_def close_call_def
  have "cq_reachable ?q0" by (rule cq_reach_step[OF cq_reach_make cq_pushed])
  from cq_reach_step[OF this cq_begins[of 0]] have "cq_reachable (call_begin 0 ?q0)" by (simp add: defs)
  then have "cq_reachable q" unfolding q_def by (intro cq_reach_step[OF _ cq_pushed])
  then show ?thesis by (simp add: q'_def) (simp add: q_def defs)
qed

text \<open>A push on a closed context leaves a queue that cannot be used and not even be destroyed.\<close>

lemma call_queue_push_closed:
  assumes "ctx \<in> cq_closed q" and "m_callChain q"
  shows "snd (cq_push ctx q) = Inl AOContextClosed" and "cq_push c (fst (cq_push ctx q)) = (fst (cq_push ctx q), Inl FutureNoStateError)"
    and "cq_destroy (fst (cq_push ctx q)) = None"
  using assms by (auto simp: cq_push_def cq_destroy_def)

end
