(* ===== verification/StateObserver.thy ===== *)
theory StateObserver
  imports Prelude
begin

text \<open>
  include/nhope/async/state-observer.h: ObservableState, a value or an exception, and
  StateObserver, which polls a remote state with a getter and sets it with a setter. Everything
  runs on m_stateAOCtx and its child m_updateAOCtx, so one job at a time; setState replaces the
  child, and the continuations of the old child never run again (CtxCallback).
\<close>

section \<open>ObservableState\<close>

text \<open>std::variant<T, std::exception_ptr>; exceptions are compared by identity.\<close>

type_synonym ('v, 'e) observable = "'e + 'v"

definition observable_eq_value :: "('v, 'e) observable \<Rightarrow> 'v \<Rightarrow> bool" where
  "observable_eq_value s v = (case s of Inr w \<Rightarrow> w = v | Inl _ \<Rightarrow> False)"

definition observable_eq_exception :: "('v, 'e) observable \<Rightarrow> 'e \<Rightarrow> bool" where
  "observable_eq_exception s e = (case s of Inl f \<Rightarrow> f = e | Inr _ \<Rightarrow> False)"

definition hasValue :: "('v, 'e) observable \<Rightarrow> bool" where
  "hasValue s = (case s of Inr _ \<Rightarrow> True | Inl _ \<Rightarrow> False)"

definition hasException :: "('v, 'e) observable \<Rightarrow> bool" where
  "hasException s = (case s of Inl _ \<Rightarrow> True | Inr _ \<Rightarrow> False)"

lemma observable_eq:
  "observable_eq_value s v \<longleftrightarrow> s = Inr v" "observable_eq_exception s e \<longleftrightarrow> s = Inl e"
  "hasValue s \<noteq> hasException s"
  by (auto simp: observable_eq_value_def observable_eq_exception_def hasValue_def hasException_def split: sum.splits)

definition observable_ne_value :: "('v, 'e) observable \<Rightarrow> 'v \<Rightarrow> bool" where
  "observable_ne_value s v = (\<not> observable_eq_value s v)"

text \<open>
  The constructor without arguments; assignments of a value or an exception; value and exception, None
  where std::get throws; and value and fail with a function, that act on a state of the caller and return
  the observable for the next call.
\<close>

definition observable_default :: "'e \<Rightarrow> ('v, 'e) observable" where
  "observable_default uninit = Inl uninit"

definition assign_value :: "'v \<Rightarrow> ('v, 'e) observable \<Rightarrow> ('v, 'e) observable" where
  "assign_value v s = Inr v"

definition assign_exception :: "'e \<Rightarrow> ('v, 'e) observable \<Rightarrow> ('v, 'e) observable" where
  "assign_exception e s = Inl e"

definition observable_value :: "('v, 'e) observable \<Rightarrow> 'v option" where
  "observable_value s = (case s of Inr v \<Rightarrow> Some v | Inl e \<Rightarrow> None)"

definition observable_exception :: "('v, 'e) observable \<Rightarrow> 'e option" where
  "observable_exception s = (case s of Inl e \<Rightarrow> Some e | Inr v \<Rightarrow> None)"

definition on_value :: "('v \<Rightarrow> 'c \<Rightarrow> 'c) \<Rightarrow> ('v, 'e) observable \<times> 'c \<Rightarrow> ('v, 'e) observable \<times> 'c" where
  "on_value fn x = (case x of (s, c) \<Rightarrow> (s, case s of Inr v \<Rightarrow> fn v c | Inl e \<Rightarrow> c))"

definition on_fail :: "('e \<Rightarrow> 'c \<Rightarrow> 'c) \<Rightarrow> ('v, 'e) observable \<times> 'c \<Rightarrow> ('v, 'e) observable \<times> 'c" where
  "on_fail fn x = (case x of (s, c) \<Rightarrow> (s, case s of Inl e \<Rightarrow> fn e c | Inr v \<Rightarrow> c))"

text \<open>s.value(f).fail(g), in either order, calls exactly one of them, with what value or exception returns.\<close>

lemma observable_branches:
  "snd (on_fail g (on_value f (s, c))) =
     (case observable_value s of Some v \<Rightarrow> f v c | None \<Rightarrow> g (the (observable_exception s)) c)"
  "on_value f (on_fail g (s, c)) = on_fail g (on_value f (s, c))"
  "observable_value s \<noteq> None \<longleftrightarrow> hasValue s" "observable_exception s \<noteq> None \<longleftrightarrow> hasException s"
  by (auto simp: on_value_def on_fail_def observable_value_def observable_exception_def hasValue_def hasException_def
      split: sum.splits)

section \<open>The observer\<close>

text \<open>What is outstanding on an update context: a posted job, a future, a timer.\<close>

datatype ('v, 'e) update_activity =
    UpdatePosted
  | GetterPending
  | ArmTimer
  | TimerPending
  | SetterPosted 'v
  | SetterPending
  | SetterThrew 'e
  | SetterOver

text \<open>A ghost log of the calls of the user's functions and of what was made of their answers.\<close>

datatype ('v, 'e) observer_event =
    OSet 'v
  | OCallSetter 'v
  | OSetterOk
  | OSetterFailed 'e
  | OAsk
  | OAnswer "'e + 'v"

record ('v, 'e) observer =
  o_state :: "('v, 'e) observable"
  o_consumed :: "('v, 'e) observable list"    \<comment> \<open>what m_consumers was given\<close>
  m_updateAOCtx :: nat                        \<comment> \<open>how often the child was replaced\<close>
  o_pending :: "(nat \<times> ('v, 'e) update_activity) list"   \<comment> \<open>with the child they run on\<close>
  o_posted :: "'v list"                       \<comment> \<open>jobs of setState\<close>
  o_open :: bool
  o_log :: "('v, 'e) observer_event list"

text \<open>The constructor; uninit is the exception StateUninitialized. None: it throws.\<close>

definition observer_make :: "'e \<Rightarrow> bool \<Rightarrow> bool \<Rightarrow> ('v, 'e) observer option" where
  "observer_make uninit has_setter has_getter =
     (if \<not> (has_getter \<and> has_setter) then None
      else Some \<lparr>o_state = Inl uninit, o_consumed = [], m_updateAOCtx = 0, o_pending = [(0, UpdatePosted)],
        o_posted = [], o_open = True, o_log = []\<rparr>)"

definition setNewState :: "('v, 'e) observable \<Rightarrow> ('v, 'e) observer \<Rightarrow> ('v, 'e) observer" where
  "setNewState s ob = (if o_state ob \<noteq> s then ob\<lparr>o_state := s, o_consumed := o_consumed ob @ [s]\<rparr> else ob)"

definition start_activity :: "('v, 'e) update_activity \<Rightarrow> ('v, 'e) observer \<Rightarrow> ('v, 'e) observer" where
  "start_activity a ob = ob\<lparr>o_pending := o_pending ob @ [(m_updateAOCtx ob, a)]\<rparr>"

definition log_event :: "('v, 'e) observer_event \<Rightarrow> ('v, 'e) observer \<Rightarrow> ('v, 'e) observer" where
  "log_event ev ob = ob\<lparr>o_log := o_log ob @ [ev]\<rparr>"

text \<open>updateState; thrown: what the getter threw instead of answering a future.\<close>

definition updateState :: "'e option \<Rightarrow> ('v, 'e) observer \<Rightarrow> ('v, 'e) observer" where
  "updateState thrown ob =
     (let ob = log_event OAsk ob in case thrown of
        None \<Rightarrow> start_activity GetterPending ob
      | Some e \<Rightarrow> start_activity TimerPending (log_event (OAnswer (Inl e)) (setNewState (Inl e) ob)))"

definition getter_answers :: "'e + 'v \<Rightarrow> ('v, 'e) observer \<Rightarrow> ('v, 'e) observer" where
  "getter_answers r ob = start_activity ArmTimer (log_event (OAnswer r) (setNewState r ob))"

definition observer_setState :: "'v \<Rightarrow> ('v, 'e) observer \<Rightarrow> ('v, 'e) observer" where
  "observer_setState v ob = ob\<lparr>o_posted := o_posted ob @ [v]\<rparr>"

definition setState_job :: "'v \<Rightarrow> ('v, 'e) observer \<Rightarrow> ('v, 'e) observer" where
  "setState_job v ob =
     (let ob = log_event (OSet v) (setNewState (Inr v) ob);
          ob = ob\<lparr>m_updateAOCtx := m_updateAOCtx ob + 1\<rparr>
      in start_activity (SetterPosted v) ob)"

definition call_setter :: "'v \<Rightarrow> 'e option \<Rightarrow> ('v, 'e) observer \<Rightarrow> ('v, 'e) observer" where
  "call_setter v thrown ob =
     start_activity (case thrown of None \<Rightarrow> SetterPending | Some e \<Rightarrow> SetterThrew e) (log_event (OCallSetter v) ob)"

definition setter_fails :: "'e \<Rightarrow> ('v, 'e) observer \<Rightarrow> ('v, 'e) observer" where
  "setter_fails e ob = start_activity SetterOver (log_event (OSetterFailed e) (setNewState (Inl e) ob))"

definition setter_succeeds :: "('v, 'e) observer \<Rightarrow> ('v, 'e) observer" where
  "setter_succeeds ob = start_activity SetterOver (log_event OSetterOk ob)"

text \<open>
  What an outstanding activity does when it is its turn; thrown and r are the behaviour of the
  user's functions. An activity of an old or closed context is dropped.
\<close>

definition perform :: "'e option \<Rightarrow> 'e + 'v \<Rightarrow> ('v, 'e) update_activity \<Rightarrow> ('v, 'e) observer \<Rightarrow> ('v, 'e) observer" where
  "perform thrown r a ob = (case a of
     UpdatePosted \<Rightarrow> updateState thrown ob
   | GetterPending \<Rightarrow> getter_answers r ob
   | ArmTimer \<Rightarrow> start_activity TimerPending ob
   | TimerPending \<Rightarrow> updateState thrown ob
   | SetterPosted v \<Rightarrow> call_setter v thrown ob
   | SetterPending \<Rightarrow> (case thrown of None \<Rightarrow> setter_succeeds ob | Some e \<Rightarrow> setter_fails e ob)
   | SetterThrew e \<Rightarrow> setter_fails e ob
   | SetterOver \<Rightarrow> updateState thrown ob)"

inductive observer_step :: "('v, 'e) observer \<Rightarrow> ('v, 'e) observer \<Rightarrow> bool" where
  os_set: "observer_step ob (observer_setState v ob)"
| os_job: "o_open ob \<Longrightarrow> o_posted ob = v # vs \<Longrightarrow> observer_step ob (setState_job v (ob\<lparr>o_posted := vs\<rparr>))"
| os_perform: "o_open ob \<Longrightarrow> o_pending ob = ps @ (m_updateAOCtx ob, a) # qs \<Longrightarrow>
    observer_step ob (perform thrown r a (ob\<lparr>o_pending := ps @ qs\<rparr>))"
| os_dropped: "o_pending ob = ps @ (k, a) # qs \<Longrightarrow> \<not> o_open ob \<or> k \<noteq> m_updateAOCtx ob \<Longrightarrow>
    observer_step ob (ob\<lparr>o_pending := ps @ qs\<rparr>)"
| os_destroy: "observer_step ob (ob\<lparr>o_open := False\<rparr>)"

inductive observer_reachable :: "'e \<Rightarrow> ('v, 'e) observer \<Rightarrow> bool" for uninit where
  or_make: "observer_make uninit True True = Some ob \<Longrightarrow> observer_reachable uninit ob"
| or_step: "observer_reachable uninit ob \<Longrightarrow> observer_step ob ob' \<Longrightarrow> observer_reachable uninit ob'"

section \<open>The protocol with the remote state\<close>

text \<open>
  The specification: a set may come at any time and is the next thing the remote side sees; the
  getter is asked only when the setter is done, and the answer of a getter that was asked before
  a set is never used.
\<close>

datatype 'v protocol_state = Polling | Asked | ToSet 'v | InSetter

fun protocol_step :: "'v protocol_state \<Rightarrow> ('v, 'e) observer_event \<Rightarrow> 'v protocol_state option" where
  "protocol_step _ (OSet v) = Some (ToSet v)"
| "protocol_step (ToSet v) (OCallSetter w) = (if v = w then Some InSetter else None)"
| "protocol_step InSetter OSetterOk = Some Polling"
| "protocol_step InSetter (OSetterFailed e) = Some Polling"
| "protocol_step Polling OAsk = Some Asked"
| "protocol_step Asked (OAnswer r) = Some Polling"
| "protocol_step _ _ = None"

fun protocol_run :: "'v protocol_state \<Rightarrow> ('v, 'e) observer_event list \<Rightarrow> 'v protocol_state option" where
  "protocol_run p [] = Some p"
| "protocol_run p (ev # evs) = Option.bind (protocol_step p ev) (\<lambda>p. protocol_run p evs)"

lemma protocol_run_snoc [simp]:
  "protocol_run p (evs @ [ev]) = Option.bind (protocol_run p evs) (\<lambda>p. protocol_step p ev)"
  by (induction evs arbitrary: p) (auto simp: bind_assoc split: Option.bind_splits)

fun protocol_of :: "('v, 'e) update_activity \<Rightarrow> 'v protocol_state" where
  "protocol_of GetterPending = Asked"
| "protocol_of (SetterPosted v) = ToSet v"
| "protocol_of SetterPending = InSetter"
| "protocol_of (SetterThrew e) = InSetter"
| "protocol_of _ = Polling"

text \<open>The values the log gave to setNewState, one after the other.\<close>

fun event_values :: "('v, 'e) observer_event \<Rightarrow> ('v, 'e) observable list" where
  "event_values (OSet v) = [Inr v]"
| "event_values (OSetterFailed e) = [Inl e]"
| "event_values (OAnswer r) = [r]"
| "event_values _ = []"

definition state_history :: "'e \<Rightarrow> ('v, 'e) observer \<Rightarrow> ('v, 'e) observable list" where
  "state_history uninit ob = Inl uninit # concat (map event_values (o_log ob))"

definition current_activities :: "('v, 'e) observer \<Rightarrow> ('v, 'e) update_activity list" where
  "current_activities ob = map snd (filter (\<lambda>(k, a). k = m_updateAOCtx ob) (o_pending ob))"

definition state_inv :: "'e \<Rightarrow> ('v, 'e) observer \<Rightarrow> bool" where
  "state_inv uninit ob \<longleftrightarrow> o_state ob = List.last (state_history uninit ob) \<and>
     Inl uninit # o_consumed ob = remdups_adj (state_history uninit ob)"

definition activity_inv :: "('v, 'e) observer \<Rightarrow> bool" where
  "activity_inv ob \<longleftrightarrow> (\<forall>(k, a)\<in>set (o_pending ob). k \<le> m_updateAOCtx ob) \<and>
     (\<exists>p. protocol_run Polling (o_log ob) = Some p \<and>
       (o_open ob \<longrightarrow> (\<exists>a. current_activities ob = [a] \<and> p = protocol_of a)))"

section \<open>The observer follows the protocol\<close>

lemma remdups_adj_snoc:
  assumes "xs \<noteq> []"
  shows "remdups_adj (xs @ [x]) = remdups_adj xs @ (if List.last xs = x then [] else [x])"
proof -
  have "remdups_adj ((butlast xs @ [List.last xs]) @ [x]) =
      remdups_adj (butlast xs @ [List.last xs]) @ (if List.last xs = x then [] else [x])"
    by (simp add: remdups_adj_append_two)
  then show ?thesis using assms by simp
qed

text \<open>What does not touch the observed state.\<close>

lemma state_inv_frame [simp]:
  "state_inv uninit (start_activity a ob) = state_inv uninit ob"
  "state_inv uninit (ob\<lparr>o_pending := ps\<rparr>) = state_inv uninit ob"
  "state_inv uninit (ob\<lparr>o_posted := vs\<rparr>) = state_inv uninit ob"
  "state_inv uninit (ob\<lparr>m_updateAOCtx := k\<rparr>) = state_inv uninit ob"
  "state_inv uninit (ob\<lparr>o_open := b\<rparr>) = state_inv uninit ob"
  by (simp_all add: state_inv_def state_history_def start_activity_def)

lemma state_inv_log [simp]: "event_values ev = [] \<Longrightarrow> state_inv uninit (log_event ev ob) = state_inv uninit ob"
  by (simp add: state_inv_def state_history_def log_event_def)

lemma state_inv_new:
  assumes "state_inv uninit ob" and "event_values ev = [s]"
  shows "state_inv uninit (log_event ev (setNewState s ob))"
  using assms remdups_adj_snoc[of "state_history uninit ob" s]
  by (auto simp: state_inv_def state_history_def log_event_def setNewState_def)

lemma state_inv_perform:
  assumes "state_inv uninit ob"
  shows "state_inv uninit (perform thrown r a ob)"
  using assms
  by (cases a) (auto simp: perform_def updateState_def getter_answers_def call_setter_def setter_fails_def
    setter_succeeds_def state_inv_new Let_def split: option.splits)

lemma state_inv_step: "observer_step ob ob' \<Longrightarrow> state_inv uninit ob \<Longrightarrow> state_inv uninit ob'"
  by (induction rule: observer_step.induct)
    (auto simp: observer_setState_def setState_job_def state_inv_perform state_inv_new Let_def)

text \<open>An observer between two activities, at a state of the protocol.\<close>

definition idle_at :: "'v protocol_state \<Rightarrow> ('v, 'e) observer \<Rightarrow> bool" where
  "idle_at p ob \<longleftrightarrow> (\<forall>(k, a)\<in>set (o_pending ob). k \<le> m_updateAOCtx ob) \<and>
     current_activities ob = [] \<and> protocol_run Polling (o_log ob) = Some p"

lemma idle_start: "idle_at (protocol_of a) ob \<Longrightarrow> activity_inv (start_activity a ob)"
  by (auto simp: idle_at_def activity_inv_def start_activity_def current_activities_def)

lemma idle_log: "idle_at p ob \<Longrightarrow> protocol_step p ev = Some p' \<Longrightarrow> idle_at p' (log_event ev ob)"
  by (simp add: idle_at_def log_event_def current_activities_def)

lemma idle_state [simp]: "idle_at p (setNewState s ob) = idle_at p ob"
  by (simp add: idle_at_def setNewState_def current_activities_def)

lemma idle_update:
  assumes "idle_at Polling ob"
  shows "activity_inv (updateState thrown ob)"
proof -
  have asked: "idle_at Asked (log_event OAsk ob)" by (rule idle_log[OF assms]) simp
  show ?thesis
  proof (cases thrown)
    case None
    then show ?thesis using idle_start[of GetterPending] asked by (simp add: updateState_def)
  next
    case (Some e)
    have "idle_at Polling (log_event (OAnswer (Inl e)) (setNewState (Inl e) (log_event OAsk ob)))"
      by (rule idle_log[of Asked]) (simp_all add: asked)
    then show ?thesis using Some idle_start[of TimerPending] by (simp add: updateState_def)
  qed
qed

lemma idle_fails: "idle_at InSetter ob \<Longrightarrow> activity_inv (setter_fails e ob)"
  unfolding setter_fails_def by (rule idle_start) (simp add: idle_log[of InSetter])

lemma idle_perform:
  assumes "idle_at (protocol_of a) ob"
  shows "activity_inv (perform thrown r a ob)"
proof (cases a)
  case GetterPending
  have "idle_at Polling (log_event (OAnswer r) (setNewState r ob))"
    by (rule idle_log[of Asked]) (use assms GetterPending in simp_all)
  then show ?thesis using GetterPending idle_start[of ArmTimer] by (simp add: perform_def getter_answers_def)
next
  case ArmTimer
  then show ?thesis using assms idle_start[of TimerPending ob] by (simp add: perform_def)
next
  case (SetterPosted v)
  have "idle_at InSetter (log_event (OCallSetter v) ob)"
    by (rule idle_log[of "ToSet v"]) (use assms SetterPosted in simp_all)
  then show ?thesis using SetterPosted idle_start[of SetterPending] idle_start[of "SetterThrew (the thrown)"]
    by (cases thrown) (simp_all add: perform_def call_setter_def)
next
  case SetterPending
  have "idle_at Polling (log_event OSetterOk ob)" by (rule idle_log[of InSetter]) (use assms SetterPending in simp_all)
  then show ?thesis using SetterPending assms idle_start[of SetterOver] idle_fails
    by (cases thrown) (simp_all add: perform_def setter_succeeds_def)
qed (use assms in \<open>simp_all add: perform_def idle_update idle_fails\<close>)

lemma activity_inv_step:
  assumes inv: "activity_inv ob" and st: "observer_step ob ob'"
  shows "activity_inv ob'"
  using st
proof cases
  case (os_set v)
  then show ?thesis using inv by (simp add: activity_inv_def observer_setState_def current_activities_def)
next
  case (os_job v vs)
  obtain p where p: "protocol_run Polling (o_log ob) = Some p" using inv by (auto simp: activity_inv_def)
  let ?ob = "(log_event (OSet v) (setNewState (Inr v) (ob\<lparr>o_posted := vs\<rparr>)))"
  have "idle_at (ToSet v) (?ob\<lparr>m_updateAOCtx := m_updateAOCtx ?ob + 1\<rparr>)"
    using inv p by (auto simp: idle_at_def activity_inv_def log_event_def setNewState_def current_activities_def
      filter_empty_conv)
  then show ?thesis using os_job idle_start[of "SetterPosted v"] by (simp add: setState_job_def Let_def)
next
  case (os_perform ps a qs thrown r)
  then obtain b where b: "current_activities ob = [b]" "protocol_run Polling (o_log ob) = Some (protocol_of b)"
    using inv by (auto simp: activity_inv_def)
  have "b = a" and "current_activities (ob\<lparr>o_pending := ps @ qs\<rparr>) = []"
    using b(1) os_perform(3) by (auto simp: current_activities_def append_eq_Cons_conv)
  then have "idle_at (protocol_of a) (ob\<lparr>o_pending := ps @ qs\<rparr>)"
    using inv os_perform(3) b(2) by (auto simp: activity_inv_def idle_at_def)
  then show ?thesis using os_perform idle_perform by simp
next
  case (os_dropped ps k a qs)
  then show ?thesis using inv by (auto simp: activity_inv_def current_activities_def)
next
  case os_destroy
  then show ?thesis using inv by (auto simp: activity_inv_def current_activities_def)
qed

lemma observer_reachable_inv: "observer_reachable uninit ob \<Longrightarrow> state_inv uninit ob \<and> activity_inv ob"
proof (induction rule: observer_reachable.induct)
  case (or_make ob)
  then show ?case
    by (auto simp: observer_make_def state_inv_def state_history_def activity_inv_def current_activities_def)
next
  case (or_step ob ob')
  then show ?case
    using state_inv_step[OF or_step.hyps(2)] activity_inv_step[OF _ or_step.hyps(2)] by simp
qed

text \<open>
  C38: a StateObserver, whatever the setter and getter do and whenever states are set: the user's
  functions are called by the protocol (an answer that was asked for before a set is never used, and the
  getter is not asked before the last set's setter is over), exactly one activity is outstanding
  while it is open, so polling goes on and is never doubled, the state is the last one that was
  set or answered, and the consumers get exactly its changes.
\<close>

theorem observer_protocol:
  assumes "observer_reachable uninit ob"
  shows "(\<exists>p. protocol_run Polling (o_log ob) = Some p \<and>
      (o_open ob \<longrightarrow> (\<exists>a. current_activities ob = [a] \<and> p = protocol_of a))) \<and>
    o_state ob = List.last (state_history uninit ob) \<and>
    Inl uninit # o_consumed ob = remdups_adj (state_history uninit ob)"
  using observer_reachable_inv[OF assms] by (auto simp: state_inv_def activity_inv_def)

text \<open>A set while the getter is asked: the answer is dropped, the setter fails, the getter is asked again.\<close>

lemma observer_example:
  "observer_reachable (0::nat) \<lparr>o_state = Inr 7, o_consumed = [Inr 5, Inl 3, Inr 7], m_updateAOCtx = 1,
     o_pending = [(1, ArmTimer)], o_posted = [], o_open = True,
     o_log = [OAsk, OSet 5, OCallSetter (5::nat), OSetterFailed 3, OAsk, OAnswer (Inr 7)]\<rparr>"
proof -
  let ?s = "\<lambda>st cons k pend post lg. \<lparr>o_state = st, o_consumed = cons, m_updateAOCtx = k, o_pending = pend,
    o_posted = post, o_open = True, o_log = lg\<rparr> :: (nat, nat) observer"
  note defs = perform_def updateState_def log_event_def start_activity_def setState_job_def setNewState_def
    call_setter_def setter_fails_def getter_answers_def observer_setState_def Let_def
  have 0: "observer_reachable 0 (?s (Inl 0) [] 0 [(0, UpdatePosted)] [] [])"
    by (rule or_make) (simp add: observer_make_def)
  have 1: "observer_reachable 0 (?s (Inl 0) [] 0 [(0, GetterPending)] [] [OAsk])"
    using or_step[OF 0 os_perform[where ps = "[]" and qs = "[]" and a = "UpdatePosted" and thrown = None]] by (simp add: defs)
  have 2: "observer_reachable 0 (?s (Inl 0) [] 0 [(0, GetterPending)] [5] [OAsk])"
    using or_step[OF 1 os_set[where v = 5]] by (simp add: defs)
  have 3: "observer_reachable 0 (?s (Inr 5) [Inr 5] 1 [(0, GetterPending), (1, SetterPosted 5)] [] [OAsk, OSet 5])"
    using or_step[OF 2 os_job[where v = 5 and vs = "[]"]] by (simp add: defs)
  have 4: "observer_reachable 0 (?s (Inr 5) [Inr 5] 1 [(1, SetterPosted 5)] [] [OAsk, OSet 5])"
    using or_step[OF 3 os_dropped[where ps = "[]" and k = 0 and a = GetterPending and qs = "[(1, SetterPosted 5)]"]] by simp
  have 5: "observer_reachable 0 (?s (Inr 5) [Inr 5] 1 [(1, SetterPending)] [] [OAsk, OSet 5, OCallSetter 5])"
    using or_step[OF 4 os_perform[where ps = "[]" and qs = "[]" and a = "SetterPosted 5" and thrown = None]] by (simp add: defs)
  have 6: "observer_reachable 0 (?s (Inl 3) [Inr 5, Inl 3] 1 [(1, SetterOver)] [] [OAsk, OSet 5, OCallSetter 5, OSetterFailed 3])"
    using or_step[OF 5 os_perform[where ps = "[]" and qs = "[]" and a = "SetterPending" and thrown = "Some 3"]] by (simp add: defs)
  have 7: "observer_reachable 0 (?s (Inl 3) [Inr 5, Inl 3] 1 [(1, GetterPending)] [] [OAsk, OSet 5, OCallSetter 5, OSetterFailed 3, OAsk])"
    using or_step[OF 6 os_perform[where ps = "[]" and qs = "[]" and a = "SetterOver" and thrown = None]] by (simp add: defs)
  show ?thesis using or_step[OF 7 os_perform[where ps = "[]" and qs = "[]" and a = "GetterPending" and r = "Inr 7"]] by (simp add: defs)
qed

theorem observer_protocol_witness:
  "protocol_run Polling [OAsk, OSet 5, OCallSetter (5::nat), OSetterFailed (3::nat), OAsk, OAnswer (Inr 7)] = Some Polling"
  using observer_protocol[OF observer_example] by (auto simp: current_activities_def)

end
