(* ===== verification/WeakList.thy ===== *)
theory WeakList
  imports Prelude "HOL-Library.Multiset"
begin

text \<open>
  include/nhope/seq/weak_list.h: a list of weak pointers, each with a promise that is fulfilled
  when the list notices that its object is gone. An object is a number; objects is what
  weak_ptr::lock answers: the value of an object that lives, None for one that is gone.
\<close>

section \<open>WeakList\<close>

type_synonym 'v objects = "nat \<rightharpoonup> 'v"

record weak_entry =
  w_weak :: nat
  expirePromise :: nat

record weak_list =
  w_list :: "weak_entry list"
  w_promises :: nat              \<comment> \<open>how many promises were made\<close>
  w_expired :: "nat list"        \<comment> \<open>the promises that were fulfilled\<close>
  w_broken :: "nat list"         \<comment> \<open>the promises that were destroyed unfulfilled\<close>

definition wl_make :: weak_list where
  "wl_make = \<lparr>w_list = [], w_promises = 0, w_expired = [], w_broken = []\<rparr>"

text \<open>emplace_back answers the future of the new promise.\<close>

definition wl_emplace_back :: "nat \<Rightarrow> weak_list \<Rightarrow> weak_list \<times> nat" where
  "wl_emplace_back weak l =
     (l\<lparr>w_list := w_list l @ [\<lparr>w_weak = weak, expirePromise = w_promises l\<rparr>], w_promises := w_promises l + 1\<rparr>,
      w_promises l)"

text \<open>The loop of clearExpired: what it keeps and the promises it fulfils.\<close>

fun clearExpired_loop :: "'v objects \<Rightarrow> weak_entry list \<Rightarrow> weak_entry list \<times> nat list" where
  "clearExpired_loop objects [] = ([], [])"
| "clearExpired_loop objects (x # xs) =
     (let (kept, expired) = clearExpired_loop objects xs in
      case objects (w_weak x) of
        Some _ \<Rightarrow> (x # kept, expired)
      | None \<Rightarrow> (kept, expirePromise x # expired))"

definition wl_clearExpired :: "'v objects \<Rightarrow> weak_list \<Rightarrow> weak_list" where
  "wl_clearExpired objects l =
     (let (kept, expired) = clearExpired_loop objects (w_list l)
      in l\<lparr>w_list := kept, w_expired := w_expired l @ expired\<rparr>)"

definition wl_destroy :: "'v objects \<Rightarrow> weak_list \<Rightarrow> weak_list" where
  "wl_destroy objects l =
     (let l = wl_clearExpired objects l in l\<lparr>w_list := [], w_broken := w_broken l @ map expirePromise (w_list l)\<rparr>)"

fun wl_find_loop :: "'v objects \<Rightarrow> ('v \<Rightarrow> bool) \<Rightarrow> weak_entry list \<Rightarrow> nat option" where
  "wl_find_loop objects fn [] = None"
| "wl_find_loop objects fn (x # xs) =
     (if (case objects (w_weak x) of Some v \<Rightarrow> fn v | None \<Rightarrow> False) then Some (w_weak x)
      else wl_find_loop objects fn xs)"

definition wl_find_if :: "'v objects \<Rightarrow> ('v \<Rightarrow> bool) \<Rightarrow> weak_list \<Rightarrow> nat option" where
  "wl_find_if objects fn l = wl_find_loop objects fn (w_list l)"

definition wl_find :: "'v objects \<Rightarrow> 'v \<Rightarrow> weak_list \<Rightarrow> nat option" where
  "wl_find objects val l = wl_find_loop objects (\<lambda>v. v = val) (w_list l)"

definition wl_size :: "weak_list \<Rightarrow> nat" where
  "wl_size l = length (w_list l)"

definition wl_empty :: "weak_list \<Rightarrow> bool" where
  "wl_empty l = (w_list l = [])"

subsection \<open>The iterator\<close>

text \<open>m_pos is the rest of the list from the position on; m_current the object it holds.\<close>

record weak_iterator =
  m_pos :: "weak_entry list"
  m_current :: "nat option"

definition lock_weak :: "'v objects \<Rightarrow> weak_entry \<Rightarrow> nat option" where
  "lock_weak objects x = (case objects (w_weak x) of Some _ \<Rightarrow> Some (w_weak x) | None \<Rightarrow> None)"

definition wi_make :: "'v objects \<Rightarrow> weak_entry list \<Rightarrow> weak_iterator" where
  "wi_make objects pos =
     \<lparr>m_pos = pos, m_current = (case pos of [] \<Rightarrow> None | x # _ \<Rightarrow> lock_weak objects x)\<rparr>"

definition wi_not_end :: "weak_iterator \<Rightarrow> bool" where
  "wi_not_end it = (m_pos it \<noteq> [] \<and> m_current it \<noteq> None)"

text \<open>operator++: next until an object lives or the list ends. The argument is the position.\<close>

fun wi_advance :: "'v objects \<Rightarrow> weak_entry list \<Rightarrow> weak_iterator" where
  "wi_advance objects [] = \<lparr>m_pos = [], m_current = None\<rparr>"
| "wi_advance objects [x] = \<lparr>m_pos = [], m_current = None\<rparr>"
| "wi_advance objects (x # y # ys) =
     (case lock_weak objects y of
        Some p \<Rightarrow> \<lparr>m_pos = y # ys, m_current = Some p\<rparr>
      | None \<Rightarrow> wi_advance objects (y # ys))"

definition wi_inc :: "'v objects \<Rightarrow> weak_iterator \<Rightarrow> weak_iterator" where
  "wi_inc objects it = wi_advance objects (m_pos it)"

lemma wi_advance_shorter: "length (m_pos (wi_advance objects xs)) \<le> length xs - 1"
  by (induction objects xs rule: wi_advance.induct) (auto split: option.splits)

text \<open>for (const auto& ptr : list): the objects it visits.\<close>

function wl_visit :: "'v objects \<Rightarrow> weak_iterator \<Rightarrow> nat list" where
  "wl_visit objects it =
     (if wi_not_end it then the (m_current it) # wl_visit objects (wi_inc objects it) else [])"
  by pat_completeness auto
termination
proof (relation "measure (\<lambda>(objects, it). length (m_pos it))")
  fix objects :: "'v objects" and it
  assume "wi_not_end it"
  then have "0 < length (m_pos it)" by (simp add: wi_not_end_def)
  then show "((objects, wi_inc objects it), (objects, it)) \<in> measure (\<lambda>(objects, it). length (m_pos it))"
    using wi_advance_shorter[of objects "m_pos it"] by (cases "m_pos it") (auto simp: wi_inc_def)
qed simp

declare wl_visit.simps [simp del]

definition wl_iterate :: "'v objects \<Rightarrow> weak_list \<Rightarrow> nat list" where
  "wl_iterate objects l = wl_visit objects (wi_make objects (w_list l))"

text \<open>TSWeakList::forEach with functions that leave the objects and the list alone.\<close>

definition tswl_forEach :: "'v objects \<Rightarrow> weak_list \<Rightarrow> weak_list \<times> nat list" where
  "tswl_forEach objects l = (let l = wl_clearExpired objects l in (l, wl_iterate objects l))"

section \<open>What the operations do\<close>

definition living :: "'v objects \<Rightarrow> weak_entry \<Rightarrow> bool" where
  "living objects x \<longleftrightarrow> w_weak x \<in> dom objects"

lemma clearExpired_loop_spec:
  "clearExpired_loop objects xs =
     (filter (living objects) xs, map expirePromise (filter (\<lambda>x. \<not> living objects x) xs))"
  by (induction xs) (auto simp: living_def Let_def split: option.splits)

lemma wl_find_loop_spec:
  "wl_find_loop objects fn xs =
     map_option w_weak (List.find (\<lambda>x. living objects x \<and> fn (the (objects (w_weak x)))) xs)"
  by (induction xs) (auto simp: living_def split: option.splits)

lemma lock_weak_living: "lock_weak objects x = (if living objects x then Some (w_weak x) else None)"
  by (auto simp: lock_weak_def living_def split: option.splits)

lemma wl_visit_advance: "wl_visit objects (wi_advance objects (x # xs)) = map w_weak (filter (living objects) xs)"
proof (induction xs arbitrary: x)
  case Nil
  show ?case by (subst wl_visit.simps) (simp add: wi_not_end_def)
next
  case (Cons y ys)
  show ?case
  proof (cases "living objects y")
    case True
    then show ?thesis using Cons.IH[of y]
      by (subst wl_visit.simps) (simp add: wi_not_end_def wi_inc_def lock_weak_living)
  next
    case False
    then show ?thesis using Cons.IH[of y] by (simp add: lock_weak_living)
  qed
qed

text \<open>An iteration that begins at an object that is gone ends at once; else it visits what lives.\<close>

lemma wl_iterate_spec:
  "wl_iterate objects l = (case w_list l of [] \<Rightarrow> []
     | x # _ \<Rightarrow> if living objects x then map w_weak (filter (living objects) (w_list l)) else [])"
proof (cases "w_list l")
  case Nil
  then show ?thesis by (simp add: wl_iterate_def wi_make_def wl_visit.simps wi_not_end_def)
next
  case (Cons x xs)
  then show ?thesis using wl_visit_advance[of objects x xs]
    by (subst wl_iterate_def, subst wl_visit.simps)
      (simp add: wi_make_def wi_not_end_def wi_inc_def lock_weak_living)
qed

section \<open>Histories\<close>

text \<open>Objects come and go, but one that is gone does not come back.\<close>

inductive wl_reachable :: "'v objects \<Rightarrow> weak_list \<Rightarrow> bool" where
  wl_start: "wl_reachable objects wl_make"
| wl_emplace: "wl_reachable objects l \<Longrightarrow> wl_reachable objects (fst (wl_emplace_back weak l))"
| wl_objects: "wl_reachable objects l \<Longrightarrow> wl_reachable objects' l"
| wl_clear: "wl_reachable objects l \<Longrightarrow> wl_reachable objects (wl_clearExpired objects l)"
| wl_gone: "wl_reachable objects l \<Longrightarrow> wl_reachable objects (wl_destroy objects l)"

definition wl_inv :: "weak_list \<Rightarrow> bool" where
  "wl_inv l \<longleftrightarrow> mset (map expirePromise (w_list l)) + mset (w_expired l) + mset (w_broken l) = mset [0..<w_promises l]"

lemma mset_map_partition:
  "mset (map f (filter P xs)) + mset (map f (filter (\<lambda>x. \<not> P x) xs)) = mset (map f xs)"
  by (induction xs) auto

lemma wl_inv_clear: "wl_inv l \<Longrightarrow> wl_inv (wl_clearExpired objects l)"
  using mset_map_partition[of expirePromise "living objects" "w_list l"]
  by (simp add: wl_inv_def wl_clearExpired_def clearExpired_loop_spec add.commute add.left_commute)

lemma wl_reachable_inv: "wl_reachable objects l \<Longrightarrow> wl_inv l"
proof (induction rule: wl_reachable.induct)
  case (wl_gone objects l)
  from wl_inv_clear[OF wl_gone.IH, of objects] show ?case
    by (simp add: wl_inv_def wl_destroy_def Let_def add.commute add.left_commute)
qed (simp_all add: wl_inv_clear, simp_all add: wl_inv_def wl_make_def wl_emplace_back_def)

text \<open>
  in any history of a weak list whose objects come and go, every promise it handed out belongs to
  an entry or was fulfilled or broken, once. TSWeakList::forEach fulfils the promises of exactly the
  objects that are gone, drops their entries and visits every object that lives, in the order
  in which they were added; find answers the first living object with the value.
\<close>

theorem weak_list_history:
  assumes "wl_reachable objects l"
  shows "mset (map expirePromise (w_list l)) + mset (w_expired l) + mset (w_broken l) = mset [0..<w_promises l] \<and>
    tswl_forEach objects l =
      (l\<lparr>w_list := filter (living objects) (w_list l),
         w_expired := w_expired l @ map expirePromise (filter (\<lambda>x. \<not> living objects x) (w_list l))\<rparr>,
       map w_weak (filter (living objects) (w_list l))) \<and>
    wl_find objects val l = map_option w_weak (List.find (\<lambda>x. objects (w_weak x) = Some val) (w_list l))"
proof -
  have "wl_iterate objects (wl_clearExpired objects l) = map w_weak (filter (living objects) (w_list l))"
    by (cases "filter (living objects) (w_list l)")
      (auto simp: wl_iterate_spec wl_clearExpired_def clearExpired_loop_spec filter_eq_Cons_iff)
  moreover have "(living objects x \<and> the (objects (w_weak x)) = val) = (objects (w_weak x) = Some val)" for x
    by (auto simp: living_def)
  ultimately show ?thesis using wl_reachable_inv[OF assms]
    by (simp add: wl_inv_def tswl_forEach_def wl_find_def wl_find_loop_spec wl_clearExpired_def clearExpired_loop_spec)
qed

theorem weak_list_history_witness:
  "tswl_forEach [8 \<mapsto> True] \<lparr>w_list = [\<lparr>w_weak = 7, expirePromise = 0\<rparr>, \<lparr>w_weak = 8, expirePromise = 1\<rparr>],
      w_promises = 2, w_expired = [], w_broken = []\<rparr> =
    (\<lparr>w_list = [\<lparr>w_weak = 8, expirePromise = 1\<rparr>], w_promises = 2, w_expired = [0], w_broken = []\<rparr>, [8])"
proof -
  let ?l = "\<lparr>w_list = [\<lparr>w_weak = 7, expirePromise = 0\<rparr>, \<lparr>w_weak = 8, expirePromise = 1\<rparr>],
      w_promises = 2, w_expired = [], w_broken = []\<rparr> :: weak_list"
  have "wl_reachable [8 \<mapsto> True] (fst (wl_emplace_back 8 (fst (wl_emplace_back 7 wl_make))))"
    by (intro wl_emplace wl_start)
  then have "wl_reachable [8 \<mapsto> True] ?l" by (simp add: wl_emplace_back_def wl_make_def numeral_2_eq_2)
  from weak_list_history[OF this, of True] show ?thesis by (simp add: living_def)
qed

text \<open>Without clearExpired an iteration over a list whose first object is gone visits nothing.\<close>

lemma wl_iterate_expired_head:
  "wl_iterate [8 \<mapsto> True] (fst (wl_emplace_back 8 (fst (wl_emplace_back 7 wl_make)))) = []"
  by (simp add: wl_iterate_spec wl_emplace_back_def wl_make_def living_def)

end
