(* ===== verification/RefCount.thy ===== *)
theory RefCount
  imports Prelude "HOL-Library.Word"
begin

unbundle bit_operations_syntax

text \<open>
  include/nhope/utils/detail/ref-ptr.h (BaseRefCounter and RefPtr) and
  include/nhope/async/detail/ts-shared-flag.h (SharedFlag): pointers to a counted object. The
  objects lie in a store, an address is an index; a deleted object is None. A handle is a RefPtr or a
  SharedFlag object, addressed by its index too; a destroyed handle keeps a null pointer. Using a
  deleted object is None.

  The counters are words of 64 bits; an operation that adds a reference is taken only while there
  are fewer than 2^62 of them, more than any memory holds. Each operation is one step: the
  counters are atomic, and of two threads in lazyCreate one wins the exchange and the other
  deletes its cell.
\<close>

section \<open>The store\<close>

record ref_store =
  rc_cells :: "64 word option list"
  rc_handles :: "nat option list"
  rc_raw :: "nat list"           \<comment> \<open>raw pointers that own a reference: what take answered\<close>

definition rc_empty :: ref_store where
  "rc_empty = \<lparr>rc_cells = [], rc_handles = [], rc_raw = []\<rparr>"

definition refs_of :: "nat \<Rightarrow> ref_store \<Rightarrow> nat" where
  "refs_of c s = count_list (rc_handles s) (Some c) + count_list (rc_raw s) c"

definition refs_fit :: "ref_store \<Rightarrow> bool" where
  "refs_fit s \<longleftrightarrow> length (rc_handles s) + length (rc_raw s) < 2 ^ 62"

definition new_cell :: "64 word \<Rightarrow> ref_store \<Rightarrow> ref_store \<times> nat" where
  "new_cell v s = (s\<lparr>rc_cells := rc_cells s @ [Some v]\<rparr>, length (rc_cells s))"

definition get_cell :: "nat \<Rightarrow> ref_store \<Rightarrow> 64 word option" where
  "get_cell c s = (if c < length (rc_cells s) then rc_cells s ! c else None)"

definition put_cell :: "nat \<Rightarrow> 64 word option \<Rightarrow> ref_store \<Rightarrow> ref_store" where
  "put_cell c v s = s\<lparr>rc_cells := (rc_cells s)[c := v]\<rparr>"

definition set_handle :: "nat \<Rightarrow> nat option \<Rightarrow> ref_store \<Rightarrow> ref_store" where
  "set_handle h p s = s\<lparr>rc_handles := (rc_handles s)[h := p]\<rparr>"

definition add_handle :: "nat option \<Rightarrow> ref_store \<Rightarrow> ref_store" where
  "add_handle p s = s\<lparr>rc_handles := rc_handles s @ [p]\<rparr>"

text \<open>
  Adding a reference through a pointer that may be null, and giving one back, which deletes the
  object and clears the pointer when it was the last; otherwise the pointer stays as it is.
\<close>

definition add_ref :: "(64 word \<Rightarrow> 64 word) \<Rightarrow> nat option \<Rightarrow> ref_store \<Rightarrow> ref_store option" where
  "add_ref inc p s = (case p of None \<Rightarrow> Some s
     | Some c \<Rightarrow> map_option (\<lambda>v. put_cell c (Some (inc v)) s) (get_cell c s))"

definition give_back :: "(64 word \<Rightarrow> 64 word \<times> bool) \<Rightarrow> nat \<Rightarrow> ref_store \<Rightarrow> ref_store option" where
  "give_back dec h s = (case rc_handles s ! h of None \<Rightarrow> Some s
     | Some c \<Rightarrow> map_option (\<lambda>v. let (v', was_last) = dec v in
         if was_last then set_handle h None (put_cell c None s) else put_cell c (Some v') s) (get_cell c s))"

section \<open>RefPtr\<close>

definition addRef :: "64 word \<Rightarrow> 64 word" where
  "addRef m_ref = m_ref + 1"

definition release :: "64 word \<Rightarrow> 64 word \<times> bool" where
  "release m_ref = (m_ref - 1, m_ref = 1)"

definition makeRefPtr :: "ref_store \<Rightarrow> ref_store" where
  "makeRefPtr s = (let (s, c) = new_cell 1 s in add_handle (Some c) s)"

definition rp_null :: "ref_store \<Rightarrow> ref_store" where
  "rp_null s = add_handle None s"

definition rp_copy :: "nat \<Rightarrow> ref_store \<Rightarrow> ref_store option" where
  "rp_copy other s = (let m_ptr = rc_handles s ! other in add_ref addRef m_ptr (add_handle m_ptr s))"

definition rp_move :: "nat \<Rightarrow> ref_store \<Rightarrow> ref_store" where
  "rp_move other s = (let m_ptr = rc_handles s ! other in set_handle other None (add_handle m_ptr s))"

definition rp_release :: "nat \<Rightarrow> ref_store \<Rightarrow> ref_store option" where
  "rp_release h s = give_back release h s"

definition rp_copy_assign :: "nat \<Rightarrow> nat \<Rightarrow> ref_store \<Rightarrow> ref_store option" where
  "rp_copy_assign h other s =
     (if h = other then Some s
      else Option.bind (rp_release h s) (\<lambda>s.
        let m_ptr = rc_handles s ! other in add_ref addRef m_ptr (set_handle h m_ptr s)))"

definition rp_move_assign :: "nat \<Rightarrow> nat \<Rightarrow> ref_store \<Rightarrow> ref_store option" where
  "rp_move_assign h other s =
     map_option (\<lambda>s. set_handle other None (set_handle h (rc_handles s ! other) s)) (rp_release h s)"

definition rp_destroy :: "nat \<Rightarrow> ref_store \<Rightarrow> ref_store option" where
  "rp_destroy h s = map_option (set_handle h None) (rp_release h s)"

definition rp_take :: "nat \<Rightarrow> ref_store \<Rightarrow> ref_store" where
  "rp_take h s = (case rc_handles s ! h of None \<Rightarrow> s
     | Some c \<Rightarrow> set_handle h None (s\<lparr>rc_raw := c # rc_raw s\<rparr>))"

definition refPtrFromRawPtr_notAddRef :: "nat \<Rightarrow> ref_store \<Rightarrow> ref_store" where
  "refPtrFromRawPtr_notAddRef c s = add_handle (Some c) (s\<lparr>rc_raw := remove1 c (rc_raw s)\<rparr>)"

definition refPtrFromRawPtr :: "nat \<Rightarrow> ref_store \<Rightarrow> ref_store option" where
  "refPtrFromRawPtr c s = map_option (add_handle (Some c)) (add_ref addRef (Some c) s)"

definition rp_refCount :: "nat \<Rightarrow> ref_store \<Rightarrow> 64 word option" where
  "rp_refCount h s = (case rc_handles s ! h of None \<Rightarrow> Some 0 | Some c \<Rightarrow> get_cell c s)"

section \<open>SharedFlag\<close>

definition flag_addRef :: "64 word \<Rightarrow> 64 word" where
  "flag_addRef v = v + 2"

definition flag_removeRef :: "64 word \<Rightarrow> 64 word \<times> bool" where
  "flag_removeRef v = (v - 2, v AND NOT 1 = 2)"

definition lazyCreate :: "nat \<Rightarrow> ref_store \<Rightarrow> ref_store \<times> nat" where
  "lazyCreate h s = (case rc_handles s ! h of
     Some c \<Rightarrow> (s, c)
   | None \<Rightarrow> let (s, c) = new_cell 2 s in (set_handle h (Some c) s, c))"

definition sf_make :: "ref_store \<Rightarrow> ref_store" where
  "sf_make s = add_handle None s"

definition sf_copy :: "nat \<Rightarrow> ref_store \<Rightarrow> ref_store option" where
  "sf_copy other s = (let (s, c) = lazyCreate other s in
     map_option (add_handle (Some c)) (add_ref flag_addRef (Some c) s))"

definition sf_assign :: "nat \<Rightarrow> nat \<Rightarrow> ref_store \<Rightarrow> ref_store option" where
  "sf_assign h other s =
     (if h = other then Some s
      else Option.bind (give_back flag_removeRef h s) (\<lambda>s. let (s, c) = lazyCreate other s in
        map_option (set_handle h (Some c)) (add_ref flag_addRef (Some c) s)))"

definition sf_destroy :: "nat \<Rightarrow> ref_store \<Rightarrow> ref_store option" where
  "sf_destroy h s = map_option (set_handle h None) (give_back flag_removeRef h s)"

definition sf_isSet :: "nat \<Rightarrow> ref_store \<Rightarrow> bool option" where
  "sf_isSet h s = (case rc_handles s ! h of None \<Rightarrow> Some False
     | Some c \<Rightarrow> map_option (\<lambda>v. v AND 1 \<noteq> 0) (get_cell c s))"

definition sf_set :: "nat \<Rightarrow> ref_store \<Rightarrow> ref_store option" where
  "sf_set h s = (let (s, c) = lazyCreate h s in
     map_option (\<lambda>v. put_cell c (Some (v OR 1)) s) (get_cell c s))"

section \<open>Counting references\<close>

fun cell_ok :: "(64 word \<Rightarrow> nat) \<Rightarrow> 64 word option \<Rightarrow> nat \<Rightarrow> bool" where
  "cell_ok cnt None n = (n = 0)"
| "cell_ok cnt (Some v) n = (0 < n \<and> cnt v = n)"

definition rc_inv :: "(64 word \<Rightarrow> nat) \<Rightarrow> ref_store \<Rightarrow> bool" where
  "rc_inv cnt s \<longleftrightarrow> (\<forall>c. cell_ok cnt (get_cell c s) (refs_of c s))"

lemma cell_ok_case: "cell_ok cnt co n = (case co of None \<Rightarrow> n = 0 | Some v \<Rightarrow> 0 < n \<and> cnt v = n)"
  by (cases co) auto

lemma count_list_update:
  "i < length xs \<Longrightarrow> count_list (xs[i := y]) z + (if xs ! i = z then 1 else 0) = count_list xs z + (if y = z then 1 else 0)"
proof (induction xs arbitrary: i)
  case (Cons x xs)
  then show ?case by (cases i) (auto simp: algebra_simps)
qed simp

lemma count_list_snoc: "count_list (xs @ [y]) z = count_list xs z + (if y = z then 1 else 0)"
  by (induction xs) auto

lemma count_list_nth: "i < length xs \<Longrightarrow> 0 < count_list xs (xs ! i)"
  by (induction xs arbitrary: i) (auto split: nat.splits simp: nth_Cons')

lemma refs_set_handle:
  "h < length (rc_handles s) \<Longrightarrow> refs_of c (set_handle h p s) + (if rc_handles s ! h = Some c then 1 else 0) =
     refs_of c s + (if p = Some c then 1 else 0)"
  using count_list_update[of h "rc_handles s" p "Some c"] by (simp add: refs_of_def set_handle_def)

lemma refs_add_handle: "refs_of c (add_handle p s) = refs_of c s + (if p = Some c then 1 else 0)"
  by (simp add: refs_of_def add_handle_def count_list_snoc)

lemma refs_put_cell [simp]: "refs_of c (put_cell d v s) = refs_of c s" "refs_of c (fst (new_cell w s)) = refs_of c s"
  by (simp_all add: refs_of_def put_cell_def new_cell_def)

lemma get_cell_handles [simp]: "get_cell c (set_handle h p s) = get_cell c s" "get_cell c (add_handle p s) = get_cell c s"
  by (simp_all add: get_cell_def set_handle_def add_handle_def)

lemma cells_handles [simp]: "rc_cells (set_handle h p s) = rc_cells s" "rc_cells (add_handle p s) = rc_cells s"
  by (simp_all add: set_handle_def add_handle_def)

lemma get_put_cell: "get_cell c (put_cell d v s) = (if c = d \<and> d < length (rc_cells s) then v else get_cell c s)"
  by (auto simp: get_cell_def put_cell_def)

lemma refs_bound: "refs_of c s \<le> length (rc_handles s) + length (rc_raw s)"
  unfolding refs_of_def by (intro add_mono count_le_length)

lemma set_handle_twice [simp]: "set_handle h p (set_handle h q s) = set_handle h p s"
  by (simp add: set_handle_def)

lemma handle_counts: "h < length (rc_handles s) \<Longrightarrow> rc_handles s ! h = Some c \<Longrightarrow> 0 < refs_of c s"
  using count_list_nth[of h "rc_handles s"] by (simp add: refs_of_def)

lemma rc_inv_alive: "rc_inv cnt s \<Longrightarrow> 0 < refs_of c s \<Longrightarrow> \<exists>v. get_cell c s = Some v \<and> cnt v = refs_of c s"
  unfolding rc_inv_def by (metis cell_ok.simps less_irrefl option.exhaust)

lemma rc_inv_null: "rc_inv cnt (add_handle None s) = rc_inv cnt s"
  by (simp add: rc_inv_def refs_add_handle)

text \<open>What a counter has to do: count, and say when it gives back the last reference.\<close>

locale ref_counter =
  fixes inc :: "64 word \<Rightarrow> 64 word" and dec :: "64 word \<Rightarrow> 64 word \<times> bool" and cnt :: "64 word \<Rightarrow> nat" and one :: "64 word"
  assumes cnt_inc: "cnt v < 2 ^ 62 \<Longrightarrow> cnt (inc v) = Suc (cnt v)"
    and cnt_dec: "0 < cnt v \<Longrightarrow> cnt (fst (dec v)) = cnt v - 1 \<and> snd (dec v) = (cnt v = 1)"
    and cnt_one: "cnt one = 1"
begin

lemma make_inv: "rc_inv cnt s \<Longrightarrow> new_cell one s = (s', c) \<Longrightarrow> rc_inv cnt (add_handle (Some c) s')"
proof -
  assume inv: "rc_inv cnt s" and n: "new_cell one s = (s', c)"
  have c: "c = length (rc_cells s)" and s': "s' = s\<lparr>rc_cells := rc_cells s @ [Some one]\<rparr>"
    using n by (auto simp: new_cell_def)
  have "get_cell c s = None" by (simp add: get_cell_def c)
  then have "refs_of c s = 0" using inv unfolding rc_inv_def by (metis cell_ok.simps(1))
  moreover have "get_cell d (add_handle (Some c) s') = (if d = c then Some one else get_cell d s)" for d
    by (auto simp: get_cell_def c s' nth_append)
  moreover have "refs_of d (add_handle (Some c) s') = refs_of d s + (if d = c then 1 else 0)" for d
    unfolding refs_add_handle by (simp add: s' refs_of_def)
  ultimately show "rc_inv cnt (add_handle (Some c) s')" using inv cnt_one by (simp add: rc_inv_def)
qed

text \<open>Giving a reference away leaves a store that counts as if the handle were null.\<close>

lemma give_back_inv:
  assumes inv: "rc_inv cnt s" and h: "h < length (rc_handles s)"
  obtains s' where "give_back dec h s = Some s'" and "rc_inv cnt (set_handle h None s')"
    and "\<And>i. i \<noteq> h \<Longrightarrow> rc_handles s' ! i = rc_handles s ! i" and "length (rc_handles s') = length (rc_handles s)"
    and "rc_raw s' = rc_raw s"
proof (cases "rc_handles s ! h")
  case None
  then have "set_handle h None s = s" by (simp add: set_handle_def list_update_same_conv h)
  then show ?thesis using that[of s] None inv by (simp add: give_back_def)
next
  case (Some c)
  obtain v where v: "get_cell c s = Some v" "cnt v = refs_of c s" "0 < refs_of c s"
    using rc_inv_alive[OF inv handle_counts[OF h Some]] handle_counts[OF h Some] by auto
  have c: "c < length (rc_cells s)" using v(1) by (simp add: get_cell_def split: if_splits)
  define s' where "s' = (if snd (dec v) then set_handle h None (put_cell c None s) else put_cell c (Some (fst (dec v))) s)"
  have g: "give_back dec h s = Some s'" by (simp add: give_back_def Some v s'_def Let_def split_beta)
  have refs: "refs_of d (set_handle h None s') + (if d = c then 1 else 0) = refs_of d s" for d
    using refs_set_handle[of h s d None] h Some by (auto simp: s'_def refs_of_def set_handle_def put_cell_def)
  have cell: "get_cell d (set_handle h None s') = (if d = c then if snd (dec v) then None else Some (fst (dec v)) else get_cell d s)" for d
    using c by (auto simp: s'_def get_put_cell)
  have "rc_inv cnt (set_handle h None s')"
    unfolding rc_inv_def
  proof (intro allI)
    fix d
    show "cell_ok cnt (get_cell d (set_handle h None s')) (refs_of d (set_handle h None s'))"
      using refs[of d] inv cnt_dec[of v] v cell by (cases "d = c") (auto simp: rc_inv_def)
  qed
  then show ?thesis using that[of s'] g by (simp add: s'_def set_handle_def put_cell_def)
qed

lemma set_share:
  assumes inv: "rc_inv cnt s" and h: "h < length (rc_handles s)" "rc_handles s ! h = None"
    and p: "\<And>c. p = Some c \<Longrightarrow> 0 < refs_of c s" and fit: "refs_fit s"
  obtains s' where "add_ref inc p (set_handle h p s) = Some s'" and "rc_inv cnt s'"
proof (cases p)
  case None
  then have "set_handle h p s = s" using h by (simp add: set_handle_def list_update_same_conv)
  then show ?thesis using that[of s] None inv by (simp add: add_ref_def)
next
  case (Some c)
  obtain v where v: "get_cell c s = Some v" "cnt v = refs_of c s" using rc_inv_alive[OF inv p[OF Some]] by auto
  have c: "c < length (rc_cells s)" using v(1) by (simp add: get_cell_def split: if_splits)
  have "cnt (inc v) = Suc (refs_of c s)" using cnt_inc[of v] v(2) refs_bound[of c s] fit by (simp add: refs_fit_def)
  moreover have "refs_of d (set_handle h p s) = refs_of d s + (if d = c then 1 else 0)" for d
    using refs_set_handle[of h s d p] h Some by simp
  moreover have "get_cell d (put_cell c (Some (inc v)) (set_handle h p s)) = (if d = c then Some (inc v) else get_cell d s)" for d
    using c by (auto simp: get_put_cell)
  ultimately have "rc_inv cnt (put_cell c (Some (inc v)) (set_handle h p s))"
    using inv by (simp add: rc_inv_def)
  then show ?thesis using that Some v by (simp add: add_ref_def)
qed

lemma add_share:
  assumes "rc_inv cnt s" and "\<And>c. p = Some c \<Longrightarrow> 0 < refs_of c s" and "refs_fit s"
  obtains s' where "add_ref inc p (add_handle p s) = Some s'" and "map_option (add_handle p) (add_ref inc p s) = Some s'" and "rc_inv cnt s'"
proof -
  show thesis
  proof (cases p)
    case None
    then show ?thesis using that assms(1) rc_inv_null[of cnt s] by (simp add: add_ref_def)
  next
    case (Some c)
    obtain v where v: "get_cell c s = Some v" "cnt v = refs_of c s" using rc_inv_alive[OF assms(1) assms(2)[OF Some]] by auto
    have c: "c < length (rc_cells s)" using v(1) by (simp add: get_cell_def split: if_splits)
    have "cnt (inc v) = Suc (refs_of c s)" using cnt_inc[of v] v(2) refs_bound[of c s] assms(3) by (simp add: refs_fit_def)
    moreover have "get_cell d (put_cell c (Some (inc v)) (add_handle p s)) = (if d = c then Some (inc v) else get_cell d s)" for d
      using c by (auto simp: get_put_cell)
    ultimately have "rc_inv cnt (put_cell c (Some (inc v)) (add_handle p s))"
      using assms(1) Some by (simp add: rc_inv_def refs_add_handle)
    then show ?thesis using that[of "put_cell c (Some (inc v)) (add_handle p s)"] Some v
      by (simp add: add_ref_def) (simp add: add_handle_def put_cell_def)
  qed
qed

lemma move_handle_inv:
  assumes "rc_inv cnt s" and "h < length (rc_handles s)" "rc_handles s ! h = None" and "k < length (rc_handles s)"
  shows "rc_inv cnt (set_handle k None (set_handle h (rc_handles s ! k) s))"
proof -
  have "refs_of d (set_handle k None (set_handle h (rc_handles s ! k) s)) = refs_of d s" for d
    using refs_set_handle[of k "set_handle h (rc_handles s ! k) s" d None] refs_set_handle[of h s d "rc_handles s ! k"] assms(2-4)
    by (cases "h = k") (auto simp: set_handle_def split: if_splits)
  then show ?thesis using assms(1) by (simp add: rc_inv_def)
qed

end

interpretation rp: ref_counter addRef release unat 1
proof
  fix v :: "64 word"
  show "unat v < 2 ^ 62 \<Longrightarrow> unat (addRef v) = Suc (unat v)"
    unfolding addRef_def by (subst unat_word_ariths) simp
  assume v: "0 < unat v"
  then have "v \<noteq> 0" by auto
  then show "unat (fst (release v)) = unat v - 1 \<and> snd (release v) = (unat v = 1)"
    by (auto simp: release_def unat_minus_one word_unat_eq_iff)
qed simp

definition flag_count :: "64 word \<Rightarrow> nat" where
  "flag_count v = unat v div 2"

lemma flag_count_drop: "unat (drop_bit 1 v) = flag_count v"
  by (simp add: drop_bit_eq_div flag_count_def unat_div)

lemma flag_last: "v AND NOT 1 = (2 :: 64 word) \<longleftrightarrow> flag_count v = 1"
proof -
  have word_eq: "(x = y) = (\<forall>m. bit x m = bit y m)" for x y :: "64 word"
    by (auto intro: bit_eqI)
  have l: "bit (v AND NOT 1) m \<longleftrightarrow> bit v m \<and> m \<noteq> 0" for m
    using bit_imp_le_length[of v m] by (auto simp: bit_and_iff bit_not_iff bit_1_iff)
  have r: "bit (drop_bit 1 v) m \<longleftrightarrow> bit v (Suc m)" for m by (simp add: bit_drop_bit_eq)
  have two: "bit (2 :: 64 word) m \<longleftrightarrow> m = 1" for m by (auto simp: bit_2_iff)
  have "(v AND NOT 1 = 2) = (\<forall>m. (bit v m \<and> m \<noteq> 0) = (m = 1))"
    by (simp only: word_eq l two)
  also have "\<dots> = (\<forall>m. bit v (Suc m) = (m = 0))" by (metis One_nat_def nat.exhaust nat.inject nat.simps(3))
  also have "\<dots> = (drop_bit 1 v = 1)" by (simp only: word_eq r bit_1_iff)
  also have "\<dots> \<longleftrightarrow> unat (drop_bit 1 v) = 1" by (simp add: word_unat_eq_iff)
  also have "unat (drop_bit 1 v) = flag_count v" by (rule flag_count_drop)
  finally show ?thesis .
qed

interpretation sf: ref_counter flag_addRef flag_removeRef flag_count 2
proof
  fix v :: "64 word"
  assume "flag_count v < 2 ^ 62"
  then have "unat v + 2 < 2 ^ 64" by (simp add: flag_count_def)
  then show "flag_count (flag_addRef v) = Suc (flag_count v)"
    unfolding flag_addRef_def flag_count_def by (subst unat_word_ariths) simp
next
  fix v :: "64 word"
  assume v: "0 < flag_count v"
  then have "2 \<le> unat v" by (simp add: flag_count_def div_eq_0_iff)
  then have "unat (v - 2) = unat v - 2" by (subst unat_sub) (simp_all add: word_le_nat_alt)
  then show "flag_count (fst (flag_removeRef v)) = flag_count v - 1 \<and> snd (flag_removeRef v) = (flag_count v = 1)"
    unfolding flag_removeRef_def fst_conv snd_conv flag_last by (simp add: flag_count_def)
qed (simp add: flag_count_def)

section \<open>RefPtr keeps what it counts\<close>

text \<open>All operations but the public release(), which leaves a pointer behind (below).\<close>

definition in_use :: "nat \<Rightarrow> ref_store \<Rightarrow> bool" where
  "in_use h s \<longleftrightarrow> h < length (rc_handles s)"

inductive rp_step :: "ref_store \<Rightarrow> ref_store option \<Rightarrow> bool" where
  rps_make: "refs_fit s \<Longrightarrow> rp_step s (Some (makeRefPtr s))"
| rps_null: "refs_fit s \<Longrightarrow> rp_step s (Some (rp_null s))"
| rps_copy: "in_use other s \<Longrightarrow> refs_fit s \<Longrightarrow> rp_step s (rp_copy other s)"
| rps_move: "in_use other s \<Longrightarrow> refs_fit s \<Longrightarrow> rp_step s (Some (rp_move other s))"
| rps_copy_assign: "in_use h s \<Longrightarrow> in_use other s \<Longrightarrow> refs_fit s \<Longrightarrow> rp_step s (rp_copy_assign h other s)"
| rps_move_assign: "in_use h s \<Longrightarrow> in_use other s \<Longrightarrow> rp_step s (rp_move_assign h other s)"
| rps_destroy: "in_use h s \<Longrightarrow> rp_step s (rp_destroy h s)"
| rps_take: "in_use h s \<Longrightarrow> rp_step s (Some (rp_take h s))"
| rps_adopt: "c \<in> set (rc_raw s) \<Longrightarrow> rp_step s (Some (refPtrFromRawPtr_notAddRef c s))"
| rps_from_raw: "0 < refs_of c s \<Longrightarrow> refs_fit s \<Longrightarrow> rp_step s (refPtrFromRawPtr c s)"

inductive rp_reachable :: "ref_store \<Rightarrow> bool" where
  rp_start: "rp_reachable rc_empty"
| rp_more: "rp_reachable s \<Longrightarrow> rp_step s (Some s') \<Longrightarrow> rp_reachable s'"

lemma rc_inv_same: "rc_inv cnt s \<Longrightarrow> (\<And>c. refs_of c s' = refs_of c s) \<Longrightarrow> (\<And>c. get_cell c s' = get_cell c s) \<Longrightarrow> rc_inv cnt s'"
  by (simp add: rc_inv_def)

lemma refs_fit_same: "length (rc_handles s') = length (rc_handles s) \<Longrightarrow> rc_raw s' = rc_raw s \<Longrightarrow> refs_fit s' = refs_fit s"
  by (simp add: refs_fit_def)

lemma set_handle_simps [simp]:
  "length (rc_handles (set_handle h p s)) = length (rc_handles s)" "rc_raw (set_handle h p s) = rc_raw s"
  "h < length (rc_handles s) \<Longrightarrow> rc_handles (set_handle h p s) ! h = p"
  "i \<noteq> h \<Longrightarrow> rc_handles (set_handle h p s) ! i = rc_handles s ! i"
  by (simp_all add: set_handle_def)

lemma rp_copy_assign_inv:
  assumes inv: "rc_inv unat s" and u: "in_use h s" "in_use other s" and fit: "refs_fit s"
  shows "\<exists>s'. rp_copy_assign h other s = Some s' \<and> rc_inv unat s'"
proof (cases "h = other")
  case False
  have h: "h < length (rc_handles s)" and ot: "other < length (rc_handles s)" using u by (simp_all add: in_use_def)
  obtain s1 where s1: "give_back release h s = Some s1" "rc_inv unat (set_handle h None s1)"
    "rc_handles s1 ! other = rc_handles s ! other" "length (rc_handles s1) = length (rc_handles s)" "rc_raw s1 = rc_raw s"
    using rp.give_back_inv[OF inv h] False by metis
  let ?s = "set_handle h None s1"
  have "0 < refs_of c ?s" if "rc_handles s1 ! other = Some c" for c
    using handle_counts[of other ?s c] that ot s1(4) False by simp
  moreover have "refs_fit ?s" using fit s1(4,5) by (simp add: refs_fit_def)
  ultimately obtain s2 where "add_ref addRef (rc_handles s1 ! other) (set_handle h (rc_handles s1 ! other) ?s) = Some s2"
    "rc_inv unat s2"
    using rp.set_share[OF s1(2), of h "rc_handles s1 ! other"] h s1(4) by auto
  then show ?thesis using False s1(1) by (simp add: rp_copy_assign_def rp_release_def Let_def)
qed (use inv in \<open>simp add: rp_copy_assign_def\<close>)

lemma rp_move_assign_inv:
  assumes inv: "rc_inv unat s" and u: "in_use h s" "in_use other s"
  shows "\<exists>s'. rp_move_assign h other s = Some s' \<and> rc_inv unat s'"
proof -
  have h: "h < length (rc_handles s)" and ot: "other < length (rc_handles s)" using u by (simp_all add: in_use_def)
  obtain s1 where s1: "give_back release h s = Some s1" "rc_inv unat (set_handle h None s1)"
    "length (rc_handles s1) = length (rc_handles s)"
    using rp.give_back_inv[OF inv h] by metis
  have "rc_inv unat (set_handle other None (set_handle h (rc_handles s1 ! other) s1))"
  proof (cases "h = other")
    case True
    then show ?thesis using s1(2) by simp
  next
    case False
    then show ?thesis using rp.move_handle_inv[OF s1(2), of h other] h ot s1(3) by simp
  qed
  then show ?thesis using s1(1) by (simp add: rp_move_assign_def rp_release_def)
qed

lemma rp_take_inv:
  assumes "rc_inv unat s" and "h < length (rc_handles s)"
  shows "rc_inv unat (rp_take h s)"
proof (rule rc_inv_same[OF assms(1)])
  show "refs_of c (rp_take h s) = refs_of c s" for c
    using refs_set_handle[of h s c None] assms(2)
    by (auto simp: rp_take_def refs_of_def set_handle_def split: option.splits if_splits)
  show "get_cell c (rp_take h s) = get_cell c s" for c
    by (simp add: rp_take_def get_cell_def set_handle_def split: option.splits)
qed

lemma rp_adopt_inv:
  assumes "rc_inv unat s" and "c \<in> set (rc_raw s)"
  shows "rc_inv unat (refPtrFromRawPtr_notAddRef c s)"
proof (rule rc_inv_same[OF assms(1)])
  have "0 < count_list (rc_raw s) c" using assms(2) by (metis count_list_0_iff gr0I)
  then show "refs_of d (refPtrFromRawPtr_notAddRef c s) = refs_of d s" for d
    by (simp add: refPtrFromRawPtr_notAddRef_def refs_add_handle) (auto simp: refs_of_def)
  show "get_cell d (refPtrFromRawPtr_notAddRef c s) = get_cell d s" for d
    by (simp add: refPtrFromRawPtr_notAddRef_def) (simp add: get_cell_def)
qed

lemma rp_inv_step:
  assumes inv: "rc_inv unat s" and st: "rp_step s r"
  shows "\<exists>s'. r = Some s' \<and> rc_inv unat s'"
  using st
proof cases
  case rps_make
  obtain s' c where n: "new_cell 1 s = (s', c)" by (metis surj_pair)
  then show ?thesis using rps_make rp.make_inv[OF inv n] by (simp add: makeRefPtr_def)
next
  case rps_null
  then show ?thesis using inv by (simp add: rp_null_def rc_inv_null)
next
  case (rps_copy other)
  have "0 < refs_of c s" if "rc_handles s ! other = Some c" for c
    using handle_counts[OF _ that] rps_copy(2) by (simp add: in_use_def)
  then show ?thesis using rps_copy rp.add_share[OF inv, of "rc_handles s ! other"] by (metis rp_copy_def)
next
  case (rps_move other)
  then have "refs_of c (rp_move other s) = refs_of c s" for c
    using refs_set_handle[of other "add_handle (rc_handles s ! other) s" c None] refs_add_handle[of c "rc_handles s ! other" s]
    by (simp add: rp_move_def in_use_def add_handle_def nth_append split: if_splits)
  then show ?thesis using rps_move rc_inv_same[OF inv] by (simp add: rp_move_def)
next
  case (rps_copy_assign h other)
  then show ?thesis using rp_copy_assign_inv[OF inv] by simp
next
  case (rps_move_assign h other)
  then show ?thesis using rp_move_assign_inv[OF inv] by simp
next
  case (rps_destroy h)
  then show ?thesis using rp.give_back_inv[OF inv, of h]
    by (metis in_use_def option.simps(9) rp_destroy_def rp_release_def)
next
  case (rps_take h)
  then show ?thesis using rp_take_inv[OF inv] by (simp add: in_use_def)
next
  case (rps_adopt c)
  then show ?thesis using rp_adopt_inv[OF inv] by simp
next
  case (rps_from_raw c)
  then show ?thesis using rp.add_share[OF inv, of "Some c"] by (metis option.inject refPtrFromRawPtr_def)
qed

lemma rc_inv_empty: "rc_inv cnt rc_empty"
  by (simp add: rc_inv_def rc_empty_def get_cell_def refs_of_def)

lemma rp_reachable_inv: "rp_reachable s \<Longrightarrow> rc_inv unat s"
proof (induction rule: rp_reachable.induct)
  case (rp_more s s')
  then show ?case using rp_inv_step[OF rp_more.IH rp_more.hyps(2)] by simp
qed (rule rc_inv_empty)


text \<open>
  C39: whatever is done with RefPtrs, also assigning one to itself, the object of a live pointer is
  never deleted, a counter is the number of pointers (and of raw pointers that take handed out), and an object
  is deleted with its last pointer: what lives has one.
\<close>

theorem ref_ptr_counts:
  assumes "rp_reachable s"
  shows "\<not> rp_step s None \<and>
    (\<forall>c. case get_cell c s of None \<Rightarrow> refs_of c s = 0 | Some v \<Rightarrow> 0 < refs_of c s \<and> unat v = refs_of c s)"
proof -
  note inv = rp_reachable_inv[OF assms]
  have "\<forall>c. case get_cell c s of None \<Rightarrow> refs_of c s = 0 | Some v \<Rightarrow> 0 < refs_of c s \<and> unat v = refs_of c s"
    using inv unfolding rc_inv_def cell_ok_case .
  moreover have "\<not> rp_step s None" using rp_inv_step[OF inv] by blast
  ultimately show ?thesis by blast
qed

lemma ref_ptr_example:
  "rp_reachable \<lparr>rc_cells = [Some 2], rc_handles = [Some 0, Some 0], rc_raw = []\<rparr>"
proof -
  have "rp_reachable (makeRefPtr rc_empty)" by (rule rp_more[OF rp_start rps_make]) (simp add: refs_fit_def rc_empty_def)
  moreover have m: "makeRefPtr rc_empty = \<lparr>rc_cells = [Some 1], rc_handles = [Some 0], rc_raw = []\<rparr>"
    by (simp add: makeRefPtr_def new_cell_def rc_empty_def add_handle_def)
  ultimately have r: "rp_reachable \<lparr>rc_cells = [Some 1], rc_handles = [Some 0], rc_raw = []\<rparr>" by simp
  have "rp_copy 0 \<lparr>rc_cells = [Some 1], rc_handles = [Some 0], rc_raw = []\<rparr> =
      Some \<lparr>rc_cells = [Some 2], rc_handles = [Some 0, Some 0], rc_raw = []\<rparr>"
    by (simp add: rp_copy_def add_ref_def add_handle_def get_cell_def put_cell_def addRef_def Let_def)
  with rps_copy[of 0 "\<lparr>rc_cells = [Some 1], rc_handles = [Some 0], rc_raw = []\<rparr>"] show ?thesis
    by (intro rp_more[OF r]) (simp add: in_use_def refs_fit_def)
qed

theorem ref_ptr_counts_witness:
  "\<not> rp_step \<lparr>rc_cells = [Some 2], rc_handles = [Some 0, Some 0], rc_raw = []\<rparr> None"
  using ref_ptr_counts[OF ref_ptr_example] by simp

text \<open>
  The public release() of a pointer that is not the last leaves it in place: a second one deletes
  the object under the other pointers, whose use is then undefined.
\<close>

lemma ref_ptr_release_twice:
  "Option.bind (rp_release 0 \<lparr>rc_cells = [Some 2], rc_handles = [Some 0, Some 0], rc_raw = []\<rparr>)
     (\<lambda>s. Option.bind (rp_release 0 s) (rp_destroy 1)) = None"
  by (simp add: rp_release_def rp_destroy_def give_back_def release_def get_cell_def put_cell_def set_handle_def Let_def)

section \<open>SharedFlag\<close>

inductive sf_step :: "ref_store \<Rightarrow> ref_store option \<Rightarrow> bool" where
  sfs_make: "refs_fit s \<Longrightarrow> sf_step s (Some (sf_make s))"
| sfs_copy: "in_use other s \<Longrightarrow> refs_fit s \<Longrightarrow> sf_step s (sf_copy other s)"
| sfs_assign: "in_use h s \<Longrightarrow> in_use other s \<Longrightarrow> refs_fit s \<Longrightarrow> sf_step s (sf_assign h other s)"
| sfs_destroy: "in_use h s \<Longrightarrow> sf_step s (sf_destroy h s)"
| sfs_set: "in_use h s \<Longrightarrow> sf_step s (sf_set h s)"

inductive sf_reachable :: "ref_store \<Rightarrow> bool" where
  sf_start: "sf_reachable rc_empty"
| sf_more: "sf_reachable s \<Longrightarrow> sf_step s (Some s') \<Longrightarrow> sf_reachable s'"

lemma lazyCreate_inv:
  assumes inv: "rc_inv flag_count s" and h: "h < length (rc_handles s)"
  shows "rc_inv flag_count (fst (lazyCreate h s))" and "rc_handles (fst (lazyCreate h s)) ! h = Some (snd (lazyCreate h s))"
    and "length (rc_handles (fst (lazyCreate h s))) = length (rc_handles s)" and "rc_raw (fst (lazyCreate h s)) = rc_raw s"
    and "i \<noteq> h \<Longrightarrow> rc_handles (fst (lazyCreate h s)) ! i = rc_handles s ! i"
proof -
  have "rc_inv flag_count (fst (lazyCreate h s))"
  proof (cases "rc_handles s ! h")
    case None
    let ?c = "length (rc_cells s)" let ?s = "fst (lazyCreate h s)"
    have s: "?s = set_handle h (Some ?c) (fst (new_cell 2 s))" using None by (simp add: lazyCreate_def new_cell_def)
    have "get_cell ?c s = None" by (simp add: get_cell_def)
    then have "refs_of ?c s = 0" using inv unfolding rc_inv_def by (metis cell_ok.simps(1))
    moreover have "get_cell d ?s = (if d = ?c then Some 2 else get_cell d s)" for d
      by (auto simp: s new_cell_def) (auto simp: get_cell_def nth_append)
    moreover have "refs_of d ?s = refs_of d s + (if d = ?c then 1 else 0)" for d
      using refs_set_handle[of h "fst (new_cell 2 s)" d "Some ?c"] h None unfolding s by (simp add: new_cell_def refs_of_def)
    ultimately show ?thesis using inv by (simp add: rc_inv_def flag_count_def)
  qed (use inv in \<open>simp add: lazyCreate_def\<close>)
  then show "rc_inv flag_count (fst (lazyCreate h s))" .
qed (use h in \<open>auto simp: lazyCreate_def new_cell_def set_handle_def split: option.splits\<close>)

lemma flag_count_or: "flag_count (v OR 1) = flag_count v"
proof -
  have "drop_bit 1 (v OR 1) = drop_bit 1 v" by (simp add: drop_bit_or)
  then show ?thesis by (metis flag_count_drop)
qed

lemma sf_set_cells:
  assumes inv: "rc_inv flag_count s" and h: "h < length (rc_handles s)"
  obtains s1 c v where "lazyCreate h s = (s1, c)" and "rc_inv flag_count s1" and "get_cell c s1 = Some v"
    and "sf_set h s = Some (put_cell c (Some (v OR 1)) s1)" and "rc_handles s1 ! h = Some c"
    and "length (rc_handles s1) = length (rc_handles s)" and "c < length (rc_cells s1)"
proof -
  obtain s1 c where l: "lazyCreate h s = (s1, c)" by (metis surj_pair)
  have i: "rc_inv flag_count s1" "rc_handles s1 ! h = Some c" "length (rc_handles s1) = length (rc_handles s)"
    using lazyCreate_inv[OF inv h] l by auto
  then obtain v where v: "get_cell c s1 = Some v" using rc_inv_alive[OF i(1) handle_counts[OF _ i(2)]] h by auto
  then show ?thesis using that[of s1 c v] l i by (simp add: sf_set_def get_cell_def split: if_splits)
qed

lemma sf_copy_inv:
  assumes inv: "rc_inv flag_count s" and u: "other < length (rc_handles s)" and fit: "refs_fit s"
  shows "\<exists>s'. sf_copy other s = Some s' \<and> rc_inv flag_count s'"
proof -
  obtain s1 c where l: "lazyCreate other s = (s1, c)" by (metis surj_pair)
  note i = lazyCreate_inv[OF inv u, unfolded l fst_conv snd_conv]
  have "0 < refs_of c s1" using handle_counts[OF _ i(2)] u i(3) by simp
  then obtain s2 where "map_option (add_handle (Some c)) (add_ref flag_addRef (Some c) s1) = Some s2" "rc_inv flag_count s2"
    using sf.add_share[OF i(1), of "Some c"] refs_fit_same[OF i(3,4)] fit by (metis option.inject)
  then show ?thesis unfolding sf_copy_def l by auto
qed

lemma set_handle_add_ref:
  "map_option (set_handle h p) (add_ref inc q s) = add_ref inc q (set_handle h p s)"
  by (cases q; cases "get_cell (the q) s") (simp_all add: add_ref_def, simp add: set_handle_def put_cell_def)

lemma sf_assign_inv:
  assumes inv: "rc_inv flag_count s" and u: "h < length (rc_handles s)" "other < length (rc_handles s)"
    and fit: "refs_fit s" and ne: "h \<noteq> other"
  shows "\<exists>s'. sf_assign h other s = Some s' \<and> rc_inv flag_count s'"
proof -
  obtain s1 where s1: "give_back flag_removeRef h s = Some s1" "rc_inv flag_count (set_handle h None s1)"
    "length (rc_handles s1) = length (rc_handles s)" "rc_raw s1 = rc_raw s"
    using sf.give_back_inv[OF inv u(1)] by metis
  let ?s = "set_handle h None s1"
  obtain s2 c where l: "lazyCreate other s1 = (s2, c)" by (metis surj_pair)
  have l': "lazyCreate other ?s = (set_handle h None s2, c)"
    using l ne by (auto simp: lazyCreate_def new_cell_def set_handle_def list_update_swap split: option.splits)
  have "other < length (rc_handles ?s)" using u s1(3) by simp
  note i = lazyCreate_inv[OF s1(2) this, unfolded l' fst_conv snd_conv]
  have "0 < refs_of c (set_handle h None s2)" using handle_counts[OF _ i(2)] u s1(3) i(3) by simp
  moreover have "refs_fit (set_handle h None s2)" using fit i(3,4) s1(3,4) by (simp add: refs_fit_def)
  ultimately obtain s3 where "add_ref flag_addRef (Some c) (set_handle h (Some c) s2) = Some s3" "rc_inv flag_count s3"
    using sf.set_share[OF i(1), of h "Some c"] u(1) i(3) s1(3) by auto
  then show ?thesis using ne s1(1) l by (simp add: sf_assign_def set_handle_add_ref)
qed

lemma sf_set_inv:
  assumes inv: "rc_inv flag_count s" and h: "h < length (rc_handles s)"
  shows "\<exists>s'. sf_set h s = Some s' \<and> rc_inv flag_count s'"
proof -
  obtain s1 c v where s1: "rc_inv flag_count s1" "get_cell c s1 = Some v" "sf_set h s = Some (put_cell c (Some (v OR 1)) s1)"
    "c < length (rc_cells s1)"
    by (rule sf_set_cells[OF inv h])
  have "cell_ok flag_count (get_cell d (put_cell c (Some (v OR 1)) s1)) (refs_of d s1)" for d
  proof -
    have "cell_ok flag_count (get_cell d s1) (refs_of d s1)" using s1(1) by (simp add: rc_inv_def)
    then show ?thesis using s1(2,4) by (cases "d = c") (simp_all add: get_put_cell flag_count_or)
  qed
  then show ?thesis using s1(3) by (simp add: rc_inv_def)
qed

lemma sf_inv_step:
  assumes inv: "rc_inv flag_count s" and st: "sf_step s r"
  shows "\<exists>s'. r = Some s' \<and> rc_inv flag_count s'"
  using st
proof cases
  case sfs_make
  then show ?thesis using inv by (simp add: sf_make_def rc_inv_null)
next
  case (sfs_copy other)
  then show ?thesis using sf_copy_inv[OF inv] by (simp add: in_use_def)
next
  case (sfs_assign h other)
  then show ?thesis using sf_assign_inv[OF inv, of h other] inv
    by (cases "h = other") (auto simp: in_use_def sf_assign_def)
next
  case (sfs_destroy h)
  then have "h < length (rc_handles s)" by (simp add: in_use_def)
  from sf.give_back_inv[OF inv this] show ?thesis using sfs_destroy by (metis option.simps(9) sf_destroy_def)
next
  case (sfs_set h)
  then show ?thesis using sf_set_inv[OF inv] by (simp add: in_use_def)
qed

lemma sf_reachable_inv: "sf_reachable s \<Longrightarrow> rc_inv flag_count s"
proof (induction rule: sf_reachable.induct)
  case (sf_more s s')
  then show ?case using sf_inv_step[OF sf_more.IH sf_more.hyps(2)] by simp
qed (rule rc_inv_empty)

lemma flag_or: "(v OR 1) AND 1 \<noteq> (0 :: 64 word)"
  by (simp add: and_one_eq mod_2_eq_odd even_or_iff)

lemma sf_isSet_put:
  assumes "rc_handles s ! k = Some d" and "get_cell d s = Some w" and "c < length (rc_cells s)"
  shows "sf_isSet k (put_cell c v s) = (if d = c then map_option (\<lambda>v. v AND 1 \<noteq> 0) v else sf_isSet k s)"
proof -
  have "rc_handles (put_cell c v s) = rc_handles s" by (simp add: put_cell_def)
  then show ?thesis using assms by (simp add: sf_isSet_def get_put_cell)
qed

lemma sf_set_shares:
  assumes inv: "rc_inv flag_count s" and h: "h < length (rc_handles s)" and k: "k < length (rc_handles s)"
  shows "\<exists>s' b. sf_set h s = Some s' \<and> sf_isSet k s = Some b \<and>
    sf_isSet k s' = Some (b \<or> k = h \<or> rc_handles s ! k \<noteq> None \<and> rc_handles s ! k = rc_handles s ! h)"
proof -
  obtain s1 c v where s1: "lazyCreate h s = (s1, c)" "rc_inv flag_count s1" "get_cell c s1 = Some v"
    "sf_set h s = Some (put_cell c (Some (v OR 1)) s1)" "rc_handles s1 ! h = Some c"
    "length (rc_handles s1) = length (rc_handles s)" "c < length (rc_cells s1)"
    by (rule sf_set_cells[OF inv h])
  have alive: "\<exists>w. get_cell d s = Some w" if "rc_handles s ! k = Some d" for d
    using rc_inv_alive[OF inv handle_counts[OF k that]] by auto
  have isSet: "\<exists>b. sf_isSet k s = Some b" using alive by (cases "rc_handles s ! k") (auto simp: sf_isSet_def)
  show ?thesis
  proof (cases "rc_handles s ! h")
    case (Some c')
    then have same: "s1 = s" "c' = c" using s1(1) by (simp_all add: lazyCreate_def)
    show ?thesis
    proof (cases "rc_handles s ! k")
      case None
      then show ?thesis using s1(4) Some same by (auto simp: sf_isSet_def put_cell_def)
    next
      case (Some d)
      then show ?thesis using alive[OF Some] sf_isSet_put[OF Some, of _ c "Some (v OR 1)"] s1(3,4,5,7) same isSet flag_or[of v]
        by (cases "d = c") auto
    qed
  next
    case None
    then have c: "c = length (rc_cells s)" "s1 = set_handle h (Some c) (s\<lparr>rc_cells := rc_cells s @ [Some 2]\<rparr>)"
      using s1(1) by (auto simp: lazyCreate_def new_cell_def)
    show ?thesis
    proof (cases "k = h")
      case True
      then show ?thesis using sf_isSet_put[OF s1(5,3,7), of "Some (v OR 1)"] s1(4) isSet flag_or[of v] by auto
    next
      case False
      then have hk: "rc_handles s1 ! k = rc_handles s ! k" by (simp add: c(2))
      show ?thesis
      proof (cases "rc_handles s ! k")
        case None
        then show ?thesis using s1(4) hk False by (auto simp: sf_isSet_def put_cell_def)
      next
        case (Some d)
        obtain w where w: "get_cell d s = Some w" using alive[OF Some] by blast
        then have "d < length (rc_cells s)" by (simp add: get_cell_def split: if_splits)
        then have "get_cell d s1 = Some w" "d \<noteq> c" using w by (auto simp: c get_cell_def set_handle_def nth_append)
        then have "sf_isSet k (put_cell c (Some (v OR 1)) s1) = sf_isSet k s"
          using sf_isSet_put[of s1 k d w c "Some (v OR 1)"] hk Some s1(7) w by (simp add: sf_isSet_def)
        then show ?thesis using s1(4) isSet False None Some by auto
      qed
    qed
  qed
qed

text \<open>
  SharedFlags that are copied, assigned, destroyed and set in any order never use a deleted
  cell, and set raises the flag for exactly the flags that share the cell: a copy and what it was
  copied from, transitively, until one of them is assigned.
\<close>

theorem shared_flag_shares:
  assumes "sf_reachable s" and "h < length (rc_handles s)" and "k < length (rc_handles s)"
  shows "\<not> sf_step s None \<and> (\<exists>s' b. sf_set h s = Some s' \<and> sf_isSet k s = Some b \<and>
    sf_isSet k s' = Some (b \<or> k = h \<or> rc_handles s ! k \<noteq> None \<and> rc_handles s ! k = rc_handles s ! h))"
  using sf_inv_step[OF sf_reachable_inv[OF assms(1)]] sf_set_shares[OF sf_reachable_inv[OF assms(1)] assms(2,3)] by blast

lemma shared_flag_example:
  "sf_reachable \<lparr>rc_cells = [Some 4], rc_handles = [Some 0, Some 0], rc_raw = []\<rparr>"
proof -
  have r: "sf_reachable \<lparr>rc_cells = [], rc_handles = [None], rc_raw = []\<rparr>"
    using sf_more[OF sf_start sfs_make] by (simp add: refs_fit_def rc_empty_def sf_make_def add_handle_def)
  have "sf_copy 0 \<lparr>rc_cells = [], rc_handles = [None], rc_raw = []\<rparr> =
      Some \<lparr>rc_cells = [Some 4], rc_handles = [Some 0, Some 0], rc_raw = []\<rparr>"
    by (simp add: sf_copy_def lazyCreate_def new_cell_def add_ref_def add_handle_def get_cell_def put_cell_def
      set_handle_def flag_addRef_def)
  with sfs_copy[of 0 "\<lparr>rc_cells = [], rc_handles = [None], rc_raw = []\<rparr>"] show ?thesis
    by (intro sf_more[OF r]) (simp add: in_use_def refs_fit_def)
qed

theorem shared_flag_shares_witness:
  "sf_isSet 1 \<lparr>rc_cells = [Some 5], rc_handles = [Some 0, Some 0], rc_raw = []\<rparr> = Some True"
proof -
  have "sf_set 0 \<lparr>rc_cells = [Some 4], rc_handles = [Some 0, Some 0], rc_raw = []\<rparr> =
      Some \<lparr>rc_cells = [Some 5], rc_handles = [Some 0, Some 0], rc_raw = []\<rparr>"
    by (simp add: sf_set_def lazyCreate_def get_cell_def put_cell_def)
  then show ?thesis using shared_flag_shares[OF shared_flag_example, of 0 1] by auto
qed

end
