(* ===== verification/Network.thy ===== *)
theory Network
  imports Bytes "HOL-Library.Multiset" "HOL-Library.List_Lexorder" "HOL-Library.Char_ord"
begin

text \<open>
  lib/io/sock-addr.cpp, a socket address as the bytes of a sockaddr_storage on a little-endian
  machine, and specific/linux/network.cpp, the list of the machine's addresses. The functions
  of the C library are parameters: inet_addr answers the four bytes of an address in network order,
  inet_ntoa and getnameinfo print them, the interfaces are what getifaddrs lists.
\<close>

section \<open>SockAddr\<close>

definition AF_INET :: "16 word" where "AF_INET = 2"

definition maxSockaddrSize :: nat where "maxSockaddrSize = 128"

definition sizeof_sockaddr_in :: nat where "sizeof_sockaddr_in = 16"

definition INADDR_NONE :: "8 word list" where "INADDR_NONE = [255, 255, 255, 255]"

datatype sock_addr_error =
    TooSmall
  | TooLarge
  | NotLargeEnoughForAF_INET
  | UnsupportedAddressFamily
  | UnableToConvertToIPv4

text \<open>The member sa_family and ss_family at the beginning, in the machine's byte order.\<close>

definition sa_family :: "8 word list \<Rightarrow> 16 word" where
  "sa_family bytes = fromBytes16 (take 2 bytes) Little"

text \<open>
  The constructor, on the bytes that sockaddr points to and a size; m_impl begins as zeros.
  The family is read from bytes that size may not cover only after the first check.
\<close>

definition SockAddr :: "8 word list \<Rightarrow> nat \<Rightarrow> sock_addr_error + 8 word list" where
  "SockAddr sockaddr sz =
     (if sz < 2 then Inl TooSmall
      else if sz > maxSockaddrSize then Inl TooLarge
      else if sa_family sockaddr = AF_INET \<and> sz < sizeof_sockaddr_in then Inl NotLargeEnoughForAF_INET
      else Inr (take sz sockaddr @ replicate (maxSockaddrSize - sz) 0))"

text \<open>ntohs(sin_port): the port in network order behind the family.\<close>

definition sin_port :: "8 word list \<Rightarrow> 16 word" where
  "sin_port m_impl = fromBytes16 (take 2 (drop 2 m_impl)) Big"

definition sock_port :: "8 word list \<Rightarrow> 16 word option" where
  "sock_port m_impl =
     (if sa_family m_impl = AF_INET then Some (sin_port m_impl) else None)"

definition sock_native :: "8 word list \<Rightarrow> 8 word list \<times> nat" where
  "sock_native m_impl =
     (m_impl, if sa_family m_impl = AF_INET then sizeof_sockaddr_in else maxSockaddrSize)"

text \<open>An unsigned number in decimal, as fmt::format prints it.\<close>

fun decimal :: "nat \<Rightarrow> string" where
  "decimal n = (if n < 10 then [char_of (48 + n)] else decimal (n div 10) @ [char_of (48 + n mod 10)])"

declare decimal.simps [simp del]

definition ntoa :: "(8 word list \<Rightarrow> string) \<Rightarrow> 8 word list \<Rightarrow> string" where
  "ntoa inet_ntoa m_impl =
     inet_ntoa (take 4 (drop 4 m_impl)) @ '':'' @ decimal (unat (sin_port m_impl))"

definition sock_toString :: "(8 word list \<Rightarrow> string) \<Rightarrow> 8 word list \<Rightarrow> sock_addr_error + string" where
  "sock_toString inet_ntoa m_impl =
     (if sa_family m_impl = AF_INET then Inr (ntoa inet_ntoa m_impl) else Inl UnsupportedAddressFamily)"

text \<open>A sockaddr_in: the family, the port in network order, the address and eight zeros.\<close>

definition sockaddr_in :: "16 word \<Rightarrow> 8 word list \<Rightarrow> 8 word list" where
  "sockaddr_in port sin_addr =
     toBytes16 AF_INET Little @ toBytes16 port Big @ sin_addr @ replicate 8 0"

definition ipv4 :: "(string \<Rightarrow> 8 word list) \<Rightarrow> string \<Rightarrow> 16 word \<Rightarrow> sock_addr_error + 8 word list" where
  "ipv4 inet_addr ip port =
     (if inet_addr ip = INADDR_NONE then Inl UnableToConvertToIPv4
      else SockAddr (sockaddr_in port (inet_addr ip)) sizeof_sockaddr_in)"

lemma ipv4_ok:
  assumes "length (inet_addr ip) = 4" and "inet_addr ip \<noteq> INADDR_NONE"
  shows "ipv4 inet_addr ip port = Inr (sockaddr_in port (inet_addr ip) @ replicate 112 0)"
    and "sa_family (sockaddr_in port (inet_addr ip) @ zs) = AF_INET"
    and "sin_port (sockaddr_in port (inet_addr ip) @ zs) = port"
    and "take 4 (drop 4 (sockaddr_in port (inet_addr ip) @ zs)) = inet_addr ip"
proof -
  show f: "sa_family (sockaddr_in port (inet_addr ip) @ zs) = AF_INET" for zs
    by (simp add: sa_family_def sockaddr_in_def fromBytes16_toBytes16)
  show "sin_port (sockaddr_in port (inet_addr ip) @ zs) = port"
    by (simp add: sin_port_def sockaddr_in_def fromBytes16_toBytes16)
  show "take 4 (drop 4 (sockaddr_in port (inet_addr ip) @ zs)) = inet_addr ip"
    using assms(1) by (simp add: sockaddr_in_def)
  have "length (sockaddr_in port (inet_addr ip)) = 16" using assms(1) by (simp add: sockaddr_in_def)
  then show "ipv4 inet_addr ip port = Inr (sockaddr_in port (inet_addr ip) @ replicate 112 0)"
    using assms(2) f[of "[]"] by (simp add: ipv4_def SockAddr_def maxSockaddrSize_def sizeof_sockaddr_in_def)
qed

lemma SockAddr_length: "SockAddr bytes sz = Inr m \<Longrightarrow> sz \<le> length bytes \<Longrightarrow> length m = maxSockaddrSize"
  by (auto simp: SockAddr_def split: if_splits)

text \<open>
  an IPv4 address made of a text and a port has that port and prints as the address that
  inet_addr read, a colon and the port; what it hands to the operating system makes the same
  address again; and it is refused exactly when inet_addr answers INADDR_NONE, which
  is also the address 255.255.255.255.
\<close>

theorem sockaddr_ipv4_roundtrip:
  assumes "length (inet_addr ip) = 4"
  shows "case ipv4 inet_addr ip port of
      Inl e \<Rightarrow> e = UnableToConvertToIPv4 \<and> inet_addr ip = INADDR_NONE
    | Inr m \<Rightarrow> sock_port m = Some port \<and> sock_toString inet_ntoa m = Inr (inet_ntoa (inet_addr ip) @ '':'' @ decimal (unat port)) \<and>
        (case sock_native m of (bytes, sz) \<Rightarrow> SockAddr bytes sz = Inr m)"
proof (cases "inet_addr ip = INADDR_NONE")
  case False
  note ok = ipv4_ok[where inet_addr = inet_addr and ip = ip and port = port, OF assms False]
  have "SockAddr (sockaddr_in port (inet_addr ip) @ replicate 112 0) 16 = ipv4 inet_addr ip port"
    using False ok(2) assms
    by (simp add: ipv4_def SockAddr_def sizeof_sockaddr_in_def maxSockaddrSize_def sockaddr_in_def)
  then show ?thesis using ok
    by (simp add: sock_port_def sock_toString_def ntoa_def sock_native_def sizeof_sockaddr_in_def del: take_append drop_append)
qed (simp add: ipv4_def)

theorem sockaddr_ipv4_roundtrip_witness:
  "case ipv4 (\<lambda>_. [127, 0, 0, 1]) ''127.0.0.1'' 8080 of Inl _ \<Rightarrow> False
    | Inr m \<Rightarrow> sock_toString (\<lambda>_. ''127.0.0.1'') m = Inr ''127.0.0.1:8080''"
proof -
  have "decimal 8080 = ''8080''" by (simp add: decimal.simps char_of_def bit_0)
  then show ?thesis
    using sockaddr_ipv4_roundtrip[of "\<lambda>_. [127, 0, 0, 1]" "''127.0.0.1''" 8080 "\<lambda>_. ''127.0.0.1''"]
      ipv4_ok(1)[of "\<lambda>_. [127, 0, 0, 1]" "''127.0.0.1''" 8080]
    by (simp add: INADDR_NONE_def)
qed

section \<open>The addresses of the machine\<close>

record ifaddr =
  ifa_name :: string
  ifa_addr :: "8 word list option"       \<comment> \<open>None: a null pointer\<close>
  ifa_netmask :: "8 word list option"

record address_entry =
  iface :: string
  ip :: string
  mask :: string
  gateway :: string

text \<open>getIpV4 asserts a pointer to an address of the family AF_INET: None is a failed assertion.\<close>

definition getIpV4 :: "(8 word list \<Rightarrow> string) \<Rightarrow> 8 word list option \<Rightarrow> string option" where
  "getIpV4 getnameinfo adr = (case adr of
     Some a \<Rightarrow> if sa_family a = AF_INET then Some (getnameinfo a) else None
   | None \<Rightarrow> None)"

text \<open>
  The lines of /proc/net/route; scan is sscanf with the format "%s %x %x": the destination and
  the gateway of a line that has all three fields.
\<close>

fun getGateway :: "(32 word \<Rightarrow> string) \<Rightarrow> (string \<Rightarrow> (32 word \<times> 32 word) option) \<Rightarrow> string list \<Rightarrow> string" where
  "getGateway inet_ntoa scan [] = ''0.0.0.0''"
| "getGateway inet_ntoa scan (gateLine # rest) =
     (case scan gateLine of
        Some (destination, gate) \<Rightarrow> if destination = 0 then inet_ntoa gate else getGateway inet_ntoa scan rest
      | None \<Rightarrow> getGateway inet_ntoa scan rest)"

definition has_ipv4 :: "ifaddr \<Rightarrow> bool" where
  "has_ipv4 ifa = (case ifa_addr ifa of Some a \<Rightarrow> sa_family a = AF_INET | None \<Rightarrow> False)"

fun getLocalIp :: "(8 word list \<Rightarrow> string) \<Rightarrow> ifaddr list \<Rightarrow> string option" where
  "getLocalIp getnameinfo [] = Some ''127.0.0.1''"
| "getLocalIp getnameinfo (ifa # rest) =
     (if has_ipv4 ifa \<and> ifa_name ifa \<noteq> ''lo'' then getIpV4 getnameinfo (ifa_addr ifa) else getLocalIp getnameinfo rest)"

text \<open>The loop of addressEntries, which keeps its result sorted with std::lower_bound.\<close>

fun addressEntries_loop :: "(8 word list \<Rightarrow> string) \<Rightarrow> string \<Rightarrow> ifaddr list \<Rightarrow> address_entry list \<Rightarrow> address_entry list option" where
  "addressEntries_loop getnameinfo gate [] result = Some result"
| "addressEntries_loop getnameinfo gate (ifa # rest) result =
     (if ifa_name ifa = ''lo'' \<or> \<not> has_ipv4 ifa then addressEntries_loop getnameinfo gate rest result
      else case (getIpV4 getnameinfo (ifa_addr ifa), getIpV4 getnameinfo (ifa_netmask ifa)) of
        (Some a, Some m) \<Rightarrow>
          (let info = \<lparr>iface = ifa_name ifa, ip = a, mask = m, gateway = gate\<rparr>;
               it = lower_bound (\<lambda>l. iface l < iface info) result
           in addressEntries_loop getnameinfo gate rest (insert_at it info result))
      | _ \<Rightarrow> None)"

definition addressEntries :: "(8 word list \<Rightarrow> string) \<Rightarrow> string \<Rightarrow> ifaddr list \<Rightarrow> address_entry list option" where
  "addressEntries getnameinfo gate ifaddrs = addressEntries_loop getnameinfo gate ifaddrs []"

definition entry_of :: "(8 word list \<Rightarrow> string) \<Rightarrow> string \<Rightarrow> ifaddr \<Rightarrow> address_entry" where
  "entry_of getnameinfo gate ifa =
     \<lparr>iface = ifa_name ifa, ip = getnameinfo (the (ifa_addr ifa)), mask = getnameinfo (the (ifa_netmask ifa)), gateway = gate\<rparr>"

definition listed :: "ifaddr \<Rightarrow> bool" where
  "listed ifa \<longleftrightarrow> ifa_name ifa \<noteq> ''lo'' \<and> has_ipv4 ifa"

definition good_mask :: "ifaddr \<Rightarrow> bool" where
  "good_mask ifa = (case ifa_netmask ifa of Some m \<Rightarrow> sa_family m = AF_INET | None \<Rightarrow> False)"

lemma mset_insert_at: "mset (insert_at i x xs) = add_mset x (mset xs)"
  unfolding insert_at_def by (metis append_take_drop_id mset.simps(2) mset_append union_mset_add_mset_right)

lemma addressEntries_loop_spec:
  assumes "\<forall>ifa\<in>set ifaddrs. listed ifa \<longrightarrow> good_mask ifa" and "sorted (map iface result)"
  shows "\<exists>es. addressEntries_loop getnameinfo gate ifaddrs result = Some es \<and> sorted (map iface es) \<and>
    mset es = mset result + mset (map (entry_of getnameinfo gate) (filter listed ifaddrs))"
  using assms
proof (induction ifaddrs arbitrary: result)
  case (Cons ifa rest)
  show ?case
  proof (cases "listed ifa")
    case False
    then have "ifa_name ifa = ''lo'' \<or> \<not> has_ipv4 ifa" by (simp add: listed_def)
    then show ?thesis using Cons.IH[of result] Cons.prems False by simp
  next
    case True
    let ?e = "entry_of getnameinfo gate ifa"
    let ?r = "insert_at (lower_bound (\<lambda>l. iface l < iface ?e) result) ?e result"
    have "getIpV4 getnameinfo (ifa_addr ifa) = Some (ip ?e)" "getIpV4 getnameinfo (ifa_netmask ifa) = Some (mask ?e)"
      using True Cons.prems(1)
      by (auto simp: listed_def has_ipv4_def getIpV4_def entry_of_def good_mask_def split: option.splits)
    then have "addressEntries_loop getnameinfo gate (ifa # rest) result = addressEntries_loop getnameinfo gate rest ?r"
      using True by (simp add: listed_def entry_of_def)
    moreover have "sorted (map iface ?r)" by (rule sorted_insert_lower_bound[OF Cons.prems(2)])
    ultimately show ?thesis using Cons.IH[of ?r] Cons.prems(1) True by (simp add: mset_insert_at)
  qed
qed simp

text \<open>
  addressEntries lists the IPv4 addresses of the interfaces other than lo, each once, sorted
  by the interface's name.
\<close>

theorem addressEntries_sorted:
  assumes "\<forall>ifa\<in>set ifaddrs. listed ifa \<longrightarrow> good_mask ifa"
  shows "\<exists>es. addressEntries getnameinfo gate ifaddrs = Some es \<and> sorted (map iface es) \<and>
    mset es = mset (map (entry_of getnameinfo gate) (filter listed ifaddrs))"
  using addressEntries_loop_spec[OF assms, of "[]"] by (simp add: addressEntries_def)

text \<open>getifaddrs may answer an address without a netmask, which getIpV4 does not expect.\<close>

lemma addressEntries_no_mask:
  "listed ifa \<Longrightarrow> ifa_netmask ifa = None \<Longrightarrow> addressEntries getnameinfo gate [ifa] = None"
  by (auto simp: addressEntries_def listed_def getIpV4_def split: option.splits)

end
