(* ===== verification/Sockets.thy ===== *)
theory Sockets
  imports Prelude "HOL-Library.Multiset"
begin

text \<open>
  What lib/io/tcp.cpp, lib/io/udp.cpp, lib/io/file.cpp and
  include/nhope/io/detail/asio-device-wrapper.h do around asio: the translation of errors and
  parameters and the calls they make, in their order. asio and the operating system are
  parameters: whether a call fails, what a buffer size becomes, what an operation answers.
\<close>

section \<open>Errors\<close>

text \<open>A std::error_code: its category and its value.\<close>

datatype error_category = SystemCategory | MiscCategory

record error_code =
  err_category :: error_category
  err_value :: int

definition misc_eof :: error_code where
  "misc_eof = \<lparr>err_category = MiscCategory, err_value = 2\<rparr>"

definition toExceptionPtr :: "error_code \<Rightarrow> error_code option" where
  "toExceptionPtr errCode =
     (if err_value errCode = 0 then None
      else if errCode = misc_eof then None
      else Some errCode)"

text \<open>What the handler of AsioDeviceWrapper::read and write is given.\<close>

definition device_result :: "error_code \<Rightarrow> nat \<Rightarrow> error_code option \<times> nat" where
  "device_result err n = (toExceptionPtr err, n)"

text \<open>read and write give it to the context, which drops it when it is closing.\<close>

definition device_read :: "bool \<Rightarrow> error_code \<Rightarrow> nat \<Rightarrow> (error_code option \<times> nat) option" where
  "device_read ctx_open err n = (if ctx_open then Some (device_result err n) else None)"

definition device_write :: "bool \<Rightarrow> error_code \<Rightarrow> nat \<Rightarrow> (error_code option \<times> nat) option" where
  "device_write ctx_open err n = (if ctx_open then Some (device_result err n) else None)"

text \<open>FileImpl::currError: std::ferror answers a flag, not an error number.\<close>

definition currError :: "int \<Rightarrow> error_code option" where
  "currError ferror_flag = toExceptionPtr \<lparr>err_category = SystemCategory, err_value = ferror_flag\<rparr>"

text \<open>FileImpl::read and write: n bytes, and the flag after them.\<close>

definition file_result :: "int \<Rightarrow> nat \<Rightarrow> error_code option \<times> nat" where
  "file_result ferror_flag n = (currError ferror_flag, n)"

datatype open_file_mode = ReadOnly | WriteOnly

fun toFOpenMode :: "open_file_mode \<Rightarrow> string" where
  "toFOpenMode ReadOnly = ''rb''"
| "toFOpenMode WriteOnly = ''wb''"

lemma toExceptionPtr_none: "toExceptionPtr e = None \<longleftrightarrow> err_value e = 0 \<or> e = misc_eof"
  by (simp add: toExceptionPtr_def)

text \<open>Whatever went wrong with a file, its error is the one with the number 1, EPERM.\<close>

lemma currError_number: "currError 1 = Some \<lparr>err_category = SystemCategory, err_value = 1\<rparr>"
  by (simp add: currError_def toExceptionPtr_def misc_eof_def)

section \<open>Calls of a socket\<close>

datatype 'ep sock_call =
    SetKeepAlive bool
  | SetReuseAddress bool
  | SetReceiveBufferSize int
  | SetSendBufferSize int
  | SetBroadcast bool
  | NonBlocking bool
  | Bind 'ep

record 'ep sock =
  s_keepAlive :: bool
  s_reuseAddress :: bool
  s_receiveBufferSize :: int
  s_sendBufferSize :: int
  s_broadcast :: bool
  s_nonBlocking :: bool
  s_bound :: "('ep \<times> bool) option"     \<comment> \<open>to what, and whether addresses were reused then\<close>

text \<open>buffer: what the operating system makes of a buffer size.\<close>

fun sock_apply :: "(int \<Rightarrow> int) \<Rightarrow> 'ep sock_call \<Rightarrow> 'ep sock \<Rightarrow> 'ep sock" where
  "sock_apply buffer (SetKeepAlive b) s = s\<lparr>s_keepAlive := b\<rparr>"
| "sock_apply buffer (SetReuseAddress b) s = s\<lparr>s_reuseAddress := b\<rparr>"
| "sock_apply buffer (SetReceiveBufferSize n) s = s\<lparr>s_receiveBufferSize := buffer n\<rparr>"
| "sock_apply buffer (SetSendBufferSize n) s = s\<lparr>s_sendBufferSize := buffer n\<rparr>"
| "sock_apply buffer (SetBroadcast b) s = s\<lparr>s_broadcast := b\<rparr>"
| "sock_apply buffer (NonBlocking b) s = s\<lparr>s_nonBlocking := b\<rparr>"
| "sock_apply buffer (Bind ep) s = s\<lparr>s_bound := Some (ep, s_reuseAddress s)\<rparr>"

text \<open>Calls are made until one throws.\<close>

fun sock_run :: "('ep sock_call \<Rightarrow> 'e option) \<Rightarrow> (int \<Rightarrow> int) \<Rightarrow> 'ep sock_call list \<Rightarrow> 'ep sock \<Rightarrow> 'ep sock \<times> 'e option" where
  "sock_run throws buffer [] s = (s, None)"
| "sock_run throws buffer (c # cs) s = (case throws c of
     Some e \<Rightarrow> (s, Some e)
   | None \<Rightarrow> sock_run throws buffer cs (sock_apply buffer c s))"

definition when_set :: "('a \<Rightarrow> 'b) \<Rightarrow> 'a option \<Rightarrow> 'b list" where
  "when_set f v = (case v of None \<Rightarrow> [] | Some x \<Rightarrow> [f x])"

definition or_else :: "'a option \<Rightarrow> 'a \<Rightarrow> 'a" where
  "or_else v d = (case v of None \<Rightarrow> d | Some x \<Rightarrow> x)"

section \<open>TCP\<close>

record tcp_options =
  nonBlocking :: bool
  keepAlive :: "bool option"
  reuseAddress :: "bool option"
  receiveBufferSize :: "int option"
  sendBufferSize :: "int option"

definition tcp_setOptions :: "tcp_options \<Rightarrow> 'ep sock_call list" where
  "tcp_setOptions opts =
     when_set SetKeepAlive (keepAlive opts) @
     when_set SetReuseAddress (reuseAddress opts) @
     when_set SetReceiveBufferSize (receiveBufferSize opts) @
     when_set SetSendBufferSize (sendBufferSize opts) @
     [NonBlocking (nonBlocking opts)]"

text \<open>options() leaves nonBlocking at its default.\<close>

definition tcp_getOptions :: "'ep sock \<Rightarrow> tcp_options" where
  "tcp_getOptions s = \<lparr>nonBlocking = True, keepAlive = Some (s_keepAlive s), reuseAddress = Some (s_reuseAddress s),
     receiveBufferSize = Some (s_receiveBufferSize s), sendBufferSize = Some (s_sendBufferSize s)\<rparr>"

datatype shutdown_kind = ShutReceive | ShutSend | ShutBoth
datatype asio_shutdown = shutdown_receive | shutdown_send | shutdown_both

fun toAsioShutdown :: "shutdown_kind \<Rightarrow> asio_shutdown" where
  "toAsioShutdown ShutReceive = shutdown_receive"
| "toAsioShutdown ShutSend = shutdown_send"
| "toAsioShutdown ShutBoth = shutdown_both"

text \<open>The acceptor of a server listens on every address; the one of the parameters is not read.\<close>

record tcp_server_params =
  server_address :: string
  server_port :: nat

definition tcp_server_endpoint :: "tcp_server_params \<Rightarrow> string \<times> nat" where
  "tcp_server_endpoint params = (''0.0.0.0'', server_port params)"

text \<open>accept answers its promise once, by an error or the new socket.\<close>

definition tcp_accepted :: "error_code \<Rightarrow> 's \<Rightarrow> error_code + 's" where
  "tcp_accepted err newClient = (if err_value err \<noteq> 0 then Inl err else Inr newClient)"

section \<open>UDP\<close>

record udp_endpoint =
  ep_address :: string
  ep_port :: nat

record udp_params =
  bindAddress :: udp_endpoint
  peerAddress :: "udp_endpoint option"
  udp_nonBlocking :: bool
  broadcast :: "bool option"
  udp_reuseAddress :: "bool option"
  udp_receiveBufferSize :: "int option"
  udp_sendBufferSize :: "int option"

text \<open>
  from_string parses an IPv4 address or throws; the calls of setOptions and the peer, or the text
  that does not parse with the calls made before.
\<close>

definition fromEndpoint :: "(string \<Rightarrow> 'ip option) \<Rightarrow> udp_endpoint \<Rightarrow> ('ip \<times> nat) option" where
  "fromEndpoint from_string ep = map_option (\<lambda>ip. (ip, ep_port ep)) (from_string (ep_address ep))"

definition udp_bind :: "(string \<Rightarrow> 'ip option) \<Rightarrow> 'ip \<Rightarrow> udp_params \<Rightarrow> ('ip \<times> nat) option" where
  "udp_bind from_string any opts =
     map_option (\<lambda>ip. (ip, ep_port (bindAddress opts)))
       (if ep_address (bindAddress opts) \<noteq> [] then from_string (ep_address (bindAddress opts)) else Some any)"

definition udp_options :: "udp_params \<Rightarrow> 'ep sock_call list" where
  "udp_options opts =
     when_set SetBroadcast (broadcast opts) @
     when_set SetReuseAddress (udp_reuseAddress opts) @
     when_set SetReceiveBufferSize (udp_receiveBufferSize opts) @
     when_set SetSendBufferSize (udp_sendBufferSize opts) @
     [NonBlocking (udp_nonBlocking opts)]"

definition udp_setOptions :: "(string \<Rightarrow> 'ip option) \<Rightarrow> 'ip \<Rightarrow> udp_params \<Rightarrow>
    ('ip \<times> nat) sock_call list \<times> (('ip \<times> nat) option) option" where
  "udp_setOptions from_string any opts = (case udp_bind from_string any opts of
     None \<Rightarrow> ([], None)
   | Some ep \<Rightarrow> (case peerAddress opts of
       None \<Rightarrow> (Bind ep # udp_options opts, Some None)
     | Some p \<Rightarrow> (case fromEndpoint from_string p of
         None \<Rightarrow> ([Bind ep], None)
       | Some peer \<Rightarrow> (Bind ep # udp_options opts, Some (Some peer)))))"

text \<open>The list of peers and a write to all of them: results of the sends in the order of the peers.\<close>

definition addPeer :: "udp_endpoint \<Rightarrow> udp_endpoint list \<Rightarrow> udp_endpoint list" where
  "addPeer ep m_peers = m_peers @ [ep]"

fun find_peer :: "udp_endpoint \<Rightarrow> udp_endpoint list \<Rightarrow> nat" where
  "find_peer ep [] = 0"
| "find_peer ep (p # ps) = (if p = ep then 0 else Suc (find_peer ep ps))"

definition removePeer :: "udp_endpoint \<Rightarrow> udp_endpoint list \<Rightarrow> udp_endpoint list" where
  "removePeer ep m_peers =
     (let it = find_peer ep m_peers in
      if it < length m_peers then take (length m_peers - 1) (m_peers[it := List.last m_peers]) else m_peers)"

text \<open>sends: what all answers for the peers, the first error or the sizes that were sent.\<close>

definition multi_write :: "(udp_endpoint list \<Rightarrow> 'e + nat list) \<Rightarrow> udp_endpoint list \<Rightarrow> nat \<Rightarrow> 'e option \<times> nat" where
  "multi_write sends m_peers sz =
     (if m_peers = [] then (None, sz)
      else case sends m_peers of Inl e \<Rightarrow> (Some e, 0) | Inr sizes \<Rightarrow> (None, hd sizes))"

section \<open>What the calls achieve\<close>

lemma sock_run_append:
  "(\<And>c. throws c = None) \<Longrightarrow> sock_run throws buffer (cs @ ds) s = sock_run throws buffer ds (fst (sock_run throws buffer cs s))"
  by (induction cs arbitrary: s) auto

text \<open>
  when no call fails, a TCP socket has the options it was given, keeps those it was not
  given, and options() answers them, but for nonBlocking.
\<close>

theorem tcp_options_roundtrip:
  assumes "\<And>c. throws c = None"
  shows "let (s', e) = sock_run throws buffer (tcp_setOptions opts) s in
    e = None \<and> s_nonBlocking s' = nonBlocking opts \<and>
    tcp_getOptions s' = \<lparr>nonBlocking = True,
      keepAlive = Some (or_else (keepAlive opts) (s_keepAlive s)),
      reuseAddress = Some (or_else (reuseAddress opts) (s_reuseAddress s)),
      receiveBufferSize = Some (or_else (map_option buffer (receiveBufferSize opts)) (s_receiveBufferSize s)),
      sendBufferSize = Some (or_else (map_option buffer (sendBufferSize opts)) (s_sendBufferSize s))\<rparr>"
  by (cases "keepAlive opts"; cases "reuseAddress opts"; cases "receiveBufferSize opts"; cases "sendBufferSize opts")
    (simp_all add: tcp_setOptions_def when_set_def or_else_def tcp_getOptions_def assms)

text \<open>A UDP socket is bound before the reuse of addresses is asked for.\<close>

lemma udp_reuse_too_late:
  assumes "udp_setOptions from_string any opts = (calls, Some peer)" and "\<And>c. throws c = None"
    and "\<not> s_reuseAddress s"
  shows "\<exists>ep. s_bound (fst (sock_run throws buffer calls s)) = Some (ep, False)"
proof -
  have keep: "s_bound (fst (sock_run throws buffer (udp_options opts) t)) = s_bound t" for t
    by (cases "broadcast opts"; cases "udp_reuseAddress opts"; cases "udp_receiveBufferSize opts"; cases "udp_sendBufferSize opts")
      (simp_all add: udp_options_def when_set_def assms(2))
  obtain ep where "calls = Bind ep # udp_options opts"
    using assms(1) by (auto simp: udp_setOptions_def split: option.splits)
  then show ?thesis using keep assms(2,3) by simp
qed

lemma find_peer_spec: "find_peer ep ps \<le> length ps \<and> (find_peer ep ps < length ps \<longleftrightarrow> ep \<in> set ps) \<and>
    (ep \<in> set ps \<longrightarrow> ps ! find_peer ep ps = ep)"
  by (induction ps) auto

text \<open>
  removing a peer removes one entry for it, whatever the order becomes, and nothing when there is none;
  adding it again gives the peers back.
\<close>

theorem udp_peers:
  "mset (removePeer ep ps) = mset ps - {#ep#} \<and> mset (removePeer ep (addPeer ep ps)) = mset ps"
proof -
  have rm: "mset (removePeer ep ps) = mset ps - {#ep#}" for ps
  proof (cases "ep \<in> set ps")
    case True
    let ?i = "find_peer ep ps"
    have i: "?i < length ps" "ps ! ?i = ep" using True find_peer_spec[of ep ps] by auto
    obtain qs q where ps: "ps = qs @ [q]" using True by (metis list.distinct(1) list.set_cases rev_exhaust)
    have "take (length ps - 1) (ps[?i := q]) = (if ?i < length qs then qs[?i := q] else qs)"
      using i(1) by (auto simp: ps list_update_append)
    moreover have "ep \<in> set qs" if "?i < length qs"
      using that i(2) nth_mem[OF that] by (simp add: ps nth_append)
    moreover have "q = ep" if "\<not> ?i < length qs" using that i by (auto simp: ps nth_append less_Suc_eq)
    ultimately show ?thesis using i
      by (auto simp: removePeer_def Let_def ps mset_update nth_append split: if_splits)
  next
    case False
    then show ?thesis using find_peer_spec[of ep ps] by (simp add: removePeer_def Let_def diff_single_trivial)
  qed
  then show ?thesis by (simp add: addPeer_def)
qed

end
