(* ===== verification/SerialPort.thy ===== *)
theory SerialPort
  imports Sockets
begin

text \<open>
  lib/io/serial-port.cpp and include/nhope/io/serial-port.h, the settings of a serial port, and
  specific/linux/serial-port-linux.cpp, the search for serial ports. The directory and what
  /sys says of a device are parameters.
\<close>

section \<open>Parameters\<close>

datatype baud_rate = Baud1200 | Baud2400 | Baud4800 | Baud9600 | Baud19200 | Baud38400 | Baud57600 | Baud115200
datatype data_bits = Data5 | Data6 | Data7 | Data8
datatype parity = NoParity | EvenParity | OddParity
datatype stop_bits = OneStop | OneAndHalfStop | TwoStop
datatype flow_control = NoFlowControl | HardwareControl | SoftwareControl

fun baud_number :: "baud_rate \<Rightarrow> int" where
  "baud_number Baud1200 = 1200" | "baud_number Baud2400 = 2400" | "baud_number Baud4800 = 4800"
| "baud_number Baud9600 = 9600" | "baud_number Baud19200 = 19200" | "baud_number Baud38400 = 38400"
| "baud_number Baud57600 = 57600" | "baud_number Baud115200 = 115200"

fun data_number :: "data_bits \<Rightarrow> int" where
  "data_number Data5 = 5" | "data_number Data6 = 6" | "data_number Data7 = 7" | "data_number Data8 = 8"

record serial_params =
  baudrate :: "baud_rate option"
  databits :: "data_bits option"
  sp_parity :: "parity option"
  stopbits :: "stop_bits option"
  flow :: "flow_control option"

datatype asio_parity = parity_none | parity_odd | parity_even
datatype asio_flow = flow_none | flow_software | flow_hardware
datatype asio_stop = stop_one | stop_onepointfive | stop_two

datatype serial_option =
    SBaud int
  | SParity asio_parity
  | SFlow asio_flow
  | SCharacterSize int
  | SStopBits asio_stop

definition toAsio_baud :: "baud_rate option \<Rightarrow> int" where
  "toAsio_baud b = baud_number (case b of None \<Rightarrow> Baud115200 | Some v \<Rightarrow> v)"

text \<open>Without a value the options of asio are none, none and one.\<close>

fun toAsio_parity :: "parity option \<Rightarrow> asio_parity" where
  "toAsio_parity None = parity_none"
| "toAsio_parity (Some NoParity) = parity_none"
| "toAsio_parity (Some EvenParity) = parity_even"
| "toAsio_parity (Some OddParity) = parity_odd"

fun toAsio_flow :: "flow_control option \<Rightarrow> asio_flow" where
  "toAsio_flow None = flow_none"
| "toAsio_flow (Some NoFlowControl) = flow_none"
| "toAsio_flow (Some HardwareControl) = flow_hardware"
| "toAsio_flow (Some SoftwareControl) = flow_software"

definition toAsio_databits :: "data_bits option \<Rightarrow> int" where
  "toAsio_databits d = data_number (case d of None \<Rightarrow> Data8 | Some v \<Rightarrow> v)"

fun toAsio_stopbits :: "stop_bits option \<Rightarrow> asio_stop" where
  "toAsio_stopbits None = stop_one"
| "toAsio_stopbits (Some OneAndHalfStop) = stop_onepointfive"
| "toAsio_stopbits (Some OneStop) = stop_one"
| "toAsio_stopbits (Some TwoStop) = stop_two"

text \<open>The constructor: opening, then the options; None: the port cannot be opened.\<close>

definition serial_open :: "bool \<Rightarrow> serial_params \<Rightarrow> serial_option list option" where
  "serial_open opens params =
     (if \<not> opens then None
      else Some [SBaud (toAsio_baud (baudrate params)), SParity (toAsio_parity (sp_parity params)),
        SFlow (toAsio_flow (flow params)), SCharacterSize (toAsio_databits (databits params)),
        SStopBits (toAsio_stopbits (stopbits params))])"

section \<open>Available devices\<close>

text \<open>
  std::regex_search with "tty(S\\d+)|(USB)|(XRUSB)|(ACM)|(AMA)|(AP)|(comm)": the first position
  at which an alternative matches, and there the first alternative. The tty belongs to
  the first alternative only.
\<close>

definition is_digit :: "char \<Rightarrow> bool" where
  "is_digit c \<longleftrightarrow> c \<in> set ''0123456789''"

definition starts_with :: "string \<Rightarrow> string \<Rightarrow> bool" where
  "starts_with p s \<longleftrightarrow> take (length p) s = p"

definition match_at :: "string \<Rightarrow> string option" where
  "match_at s =
     (let digits = takeWhile is_digit (drop 4 s) in
      if starts_with ''ttyS'' s \<and> digits \<noteq> [] then Some (''ttyS'' @ digits)
      else List.find (\<lambda>p. starts_with p s) [''USB'', ''XRUSB'', ''ACM'', ''AMA'', ''AP'', ''comm''])"

fun regex_search :: "string \<Rightarrow> string option" where
  "regex_search [] = match_at []"
| "regex_search (c # s) = (case match_at (c # s) of Some m \<Rightarrow> Some m | None \<Rightarrow> regex_search s)"

text \<open>
  checkAlive: the device has a driver and its subsystem is not platform; exists and
  subsystem say what is under /sys.
\<close>

definition checkAlive :: "(string \<Rightarrow> bool) \<Rightarrow> (string \<Rightarrow> string) \<Rightarrow> string \<Rightarrow> bool" where
  "checkAlive exists_path subsystem deviceName =
     (let devicePath = ''/sys/class/tty/'' @ deviceName @ ''/device''; driverPath = devicePath @ ''/driver'' in
      exists_path driverPath \<and> exists_path devicePath \<and> subsystem (devicePath @ ''/subsystem'') \<noteq> ''platform'')"

fun availableDevices :: "(string \<Rightarrow> bool) \<Rightarrow> string list \<Rightarrow> string list" where
  "availableDevices alive [] = []"
| "availableDevices alive (entry # rest) =
     (case regex_search entry of
        Some comName \<Rightarrow> if alive comName then (''/dev/'' @ comName) # availableDevices alive rest
          else availableDevices alive rest
      | None \<Rightarrow> availableDevices alive rest)"

lemma availableDevices_alive:
  "d \<in> set (availableDevices alive entries) \<Longrightarrow>
    \<exists>entry\<in>set entries. \<exists>m. regex_search entry = Some m \<and> alive m \<and> d = ''/dev/'' @ m"
  by (induction alive entries rule: availableDevices.induct) (auto split: option.splits if_splits)

text \<open>A plain serial port is found; of a USB adapter only "USB" is, which names no device.\<close>

lemma regex_search_examples:
  "regex_search ''ttyS12'' = Some ''ttyS12''" "regex_search ''ttyUSB0'' = Some ''USB''" "regex_search ''ttyACM0'' = Some ''ACM''"
  "regex_search ''sda'' = None"
  by (simp_all add: match_at_def starts_with_def is_digit_def)

section \<open>Settings\<close>

text \<open>Every setting reaches the port, and different settings reach it differently.\<close>

lemma serial_open_settings:
  "serial_open True p = serial_open True q \<longleftrightarrow>
    or_else (baudrate p) Baud115200 = or_else (baudrate q) Baud115200 \<and>
    or_else (databits p) Data8 = or_else (databits q) Data8 \<and>
    or_else (sp_parity p) NoParity = or_else (sp_parity q) NoParity \<and>
    or_else (stopbits p) OneStop = or_else (stopbits q) OneStop \<and>
    or_else (flow p) NoFlowControl = or_else (flow q) NoFlowControl"
proof -
  have b: "baud_number x = baud_number y \<longleftrightarrow> x = y" for x y by (cases x; cases y) simp_all
  have d: "data_number x = data_number y \<longleftrightarrow> x = y" for x y by (cases x; cases y) simp_all
  have "toAsio_parity x = toAsio_parity y \<longleftrightarrow> or_else x NoParity = or_else y NoParity" for x y
    by (cases x rule: toAsio_parity.cases; cases y rule: toAsio_parity.cases) (simp_all add: or_else_def)
  moreover have "toAsio_stopbits x = toAsio_stopbits y \<longleftrightarrow> or_else x OneStop = or_else y OneStop" for x y
    by (cases x rule: toAsio_stopbits.cases; cases y rule: toAsio_stopbits.cases) (simp_all add: or_else_def)
  moreover have "toAsio_flow x = toAsio_flow y \<longleftrightarrow> or_else x NoFlowControl = or_else y NoFlowControl" for x y
    by (cases x rule: toAsio_flow.cases; cases y rule: toAsio_flow.cases) (simp_all add: or_else_def)
  ultimately show ?thesis by (auto simp: serial_open_def toAsio_baud_def toAsio_databits_def b d or_else_def)
qed

section \<open>Modem lines\<close>

text \<open>
  specific/linux/serial-port-detail.cpp: the lines are a word of the driver. TIOCMBIS sets the bits of
  its argument, TIOCMBIC clears them, TIOCMGET reads the word; err is the error number of a call that
  fails. The numbers of the lines are those of Linux.
\<close>

unbundle bit_operations_syntax

type_synonym modem = "32 word"

definition TIOCM_DTR :: modem where "TIOCM_DTR = 0x002"
definition TIOCM_RTS :: modem where "TIOCM_RTS = 0x004"
definition TIOCM_DSR :: modem where "TIOCM_DSR = 0x100"

datatype modem_ioctl = TIOCMBIS modem | TIOCMBIC modem

fun modem_apply :: "modem_ioctl \<Rightarrow> modem \<Rightarrow> modem" where
  "modem_apply (TIOCMBIS arg) m = m OR arg"
| "modem_apply (TIOCMBIC arg) m = m AND NOT arg"

definition setRTS :: "int option \<Rightarrow> bool \<Rightarrow> modem \<Rightarrow> int + modem" where
  "setRTS err state m = (case err of
     Some e \<Rightarrow> Inl e
   | None \<Rightarrow> Inr (modem_apply (if state then TIOCMBIS TIOCM_RTS else TIOCMBIC TIOCM_RTS) m))"

definition setDTR :: "int option \<Rightarrow> bool \<Rightarrow> modem \<Rightarrow> int + modem" where
  "setDTR err state m = (case err of
     Some e \<Rightarrow> Inl e
   | None \<Rightarrow> Inr (modem_apply (if state then TIOCMBIS TIOCM_DTR else TIOCMBIC TIOCM_DTR) m))"

text \<open>The word that was read becomes the value of an enumeration whose names are single lines.\<close>

datatype modem_control = ModemDSR | ModemDTR | ModemRTS | ModemSTXD | ModemSRXD | ModemCTS | ModemDCD | ModemRNG

fun modem_number :: "modem_control \<Rightarrow> modem" where
  "modem_number ModemDSR = 0x001" | "modem_number ModemDTR = 0x002" | "modem_number ModemRTS = 0x004"
| "modem_number ModemSTXD = 0x008" | "modem_number ModemSRXD = 0x010" | "modem_number ModemCTS = 0x020"
| "modem_number ModemDCD = 0x040" | "modem_number ModemRNG = 0x080"

definition getModemControl :: "int option \<Rightarrow> modem \<Rightarrow> int + modem" where
  "getModemControl err m = (case err of Some e \<Rightarrow> Inl e | None \<Rightarrow> Inr m)"

text \<open>Setting one line changes no other one.\<close>

lemma modem_bits:
  "bit TIOCM_RTS n \<longleftrightarrow> n = 2" "bit TIOCM_DTR n \<longleftrightarrow> n = 1"
proof -
  have r: "TIOCM_RTS = push_bit 2 1" and d: "TIOCM_DTR = push_bit 1 1"
    by (simp_all add: TIOCM_RTS_def TIOCM_DTR_def push_bit_eq_mult)
  show "bit TIOCM_RTS n \<longleftrightarrow> n = 2" "bit TIOCM_DTR n \<longleftrightarrow> n = 1"
    unfolding r d bit_push_bit_iff bit_1_iff by auto
qed

theorem modem_lines:
  "setRTS None b m = Inr m' \<Longrightarrow> n < 32 \<Longrightarrow> bit m' n = (if n = 2 then b else bit m n)"
  "setDTR None b m = Inr m' \<Longrightarrow> n < 32 \<Longrightarrow> bit m' n = (if n = 1 then b else bit m n)"
  by (auto simp: setRTS_def setDTR_def bit_or_iff bit_and_iff bit_not_iff modem_bits split: if_splits)

text \<open>A port whose device is ready (DSR) is not seen to be so by the enumeration's number for it.\<close>

lemma modem_dsr: "getModemControl None TIOCM_DSR = Inr m \<Longrightarrow> m AND modem_number ModemDSR = 0"
  by (auto simp: getModemControl_def TIOCM_DSR_def)

end
