(* ===== verification/Sync.thy ===== *)
theory Sync
  imports Prelude
begin

text \<open>
  lib/async/event.cpp, an event that threads wait for, and include/nhope/async/lockable-value.h,
  a value behind a std::shared_mutex. What a thread does while it holds the mutex is one
  step; condition variables wake up spuriously and time-outs come at any time.
\<close>

section \<open>Event\<close>

text \<open>
  waiters: asleep in m_cv; woken: they have to look at m_signaled again, True with the time-out of
  waitFor over. returned: who returned, with the result of waitFor (True for wait).
\<close>

record event =
  m_signaled :: bool
  ev_waiters :: "nat set"
  ev_woken :: "nat \<rightharpoonup> bool"
  ev_timed :: "nat set"          \<comment> \<open>the threads that called waitFor\<close>
  ev_returned :: "(nat \<times> bool) list"

definition event_make :: event where
  "event_make = \<lparr>m_signaled = False, ev_waiters = {}, ev_woken = Map.empty, ev_timed = {}, ev_returned = []\<rparr>"

definition event_set :: "event \<Rightarrow> event" where
  "event_set e =
     (if m_signaled e then e
      else e\<lparr>m_signaled := True,
        ev_woken := (\<lambda>t. if t \<in> ev_waiters e then Some False else ev_woken e t), ev_waiters := {}\<rparr>)"

text \<open>The predicate is looked at before every sleep; after the time-out its value is the result.\<close>

definition event_check :: "nat \<Rightarrow> bool \<Rightarrow> event \<Rightarrow> event" where
  "event_check t expired e =
     (if m_signaled e then e\<lparr>ev_returned := ev_returned e @ [(t, True)]\<rparr>
      else if expired then e\<lparr>ev_returned := ev_returned e @ [(t, False)]\<rparr>
      else e\<lparr>ev_waiters := insert t (ev_waiters e)\<rparr>)"

definition event_wait :: "nat \<Rightarrow> event \<Rightarrow> event" where
  "event_wait t e = event_check t False e"

definition event_waitFor :: "nat \<Rightarrow> event \<Rightarrow> event" where
  "event_waitFor t e = event_check t False (e\<lparr>ev_timed := insert t (ev_timed e)\<rparr>)"

inductive event_step :: "event \<Rightarrow> event \<Rightarrow> bool" where
  ev_set: "event_step e (event_set e)"
| ev_wait: "t \<notin> ev_waiters e \<Longrightarrow> ev_woken e t = None \<Longrightarrow> t \<notin> ev_timed e \<Longrightarrow> event_step e (event_wait t e)"
| ev_waitFor: "t \<notin> ev_waiters e \<Longrightarrow> ev_woken e t = None \<Longrightarrow> event_step e (event_waitFor t e)"
| ev_spurious: "t \<in> ev_waiters e \<Longrightarrow>
    event_step e (e\<lparr>ev_waiters := ev_waiters e - {t}, ev_woken := (ev_woken e)(t \<mapsto> False)\<rparr>)"
| ev_expires: "t \<in> ev_waiters e \<Longrightarrow> t \<in> ev_timed e \<Longrightarrow>
    event_step e (e\<lparr>ev_waiters := ev_waiters e - {t}, ev_woken := (ev_woken e)(t \<mapsto> True)\<rparr>)"
| ev_resume: "ev_woken e t = Some expired \<Longrightarrow>
    event_step e (event_check t expired (e\<lparr>ev_woken := (ev_woken e)(t := None)\<rparr>))"

inductive event_reachable :: "event \<Rightarrow> bool" where
  ev_start: "event_reachable event_make"
| ev_more: "event_reachable e \<Longrightarrow> event_step e e' \<Longrightarrow> event_reachable e'"

definition event_inv :: "event \<Rightarrow> bool" where
  "event_inv e \<longleftrightarrow> (m_signaled e \<longrightarrow> ev_waiters e = {}) \<and>
     (\<forall>t. ev_woken e t = Some True \<longrightarrow> t \<in> ev_timed e) \<and>
     (\<forall>(t, r)\<in>set (ev_returned e). (r \<longrightarrow> m_signaled e) \<and> (\<not> r \<longrightarrow> t \<in> ev_timed e))"

lemma event_inv_step: "event_step e e' \<Longrightarrow> event_inv e \<Longrightarrow> event_inv e'"
  by (induction rule: event_step.induct)
    (auto simp: event_inv_def event_set_def event_wait_def event_waitFor_def event_check_def split: if_splits)

lemma event_reachable_inv: "event_reachable e \<Longrightarrow> event_inv e"
proof (induction rule: event_reachable.induct)
  case ev_start
  show ?case by (simp add: event_inv_def event_make_def)
next
  case (ev_more e e')
  show ?case by (rule event_inv_step[OF ev_more.hyps(2) ev_more.IH])
qed

text \<open>
  once the event is set nobody sleeps in it, also who comes later; wait returns only when it is
  set, and only waitFor answers that it is not.
\<close>

theorem event_wakes_all:
  assumes "event_reachable e"
  shows "(m_signaled e \<longrightarrow> ev_waiters e = {}) \<and>
    (\<forall>t. (t, True) \<in> set (ev_returned e) \<longrightarrow> m_signaled e) \<and>
    (\<forall>t. (t, False) \<in> set (ev_returned e) \<longrightarrow> t \<in> ev_timed e)"
  using event_reachable_inv[OF assms] by (auto simp: event_inv_def)

theorem event_wakes_all_witness: "ev_waiters (event_set (event_wait 1 event_make)) = {}"
proof -
  have "event_reachable (event_wait 1 event_make)"
    by (rule ev_more[OF ev_start ev_wait]) (simp_all add: event_make_def)
  from event_wakes_all[OF ev_more[OF this ev_set]] show ?thesis
    by (simp add: event_set_def event_wait_def event_check_def event_make_def)
qed

section \<open>LockableValue\<close>

text \<open>
  m_mutex as its holders. A ReadAccess shows the value that is there, a WriteAccess changes it;
  seen is a ghost: the value when the reader got its access.
\<close>

record 'v lockable =
  lv_value :: 'v
  lv_readers :: "nat \<rightharpoonup> 'v"
  lv_writer :: "nat option"

definition lv_make :: "'v \<Rightarrow> 'v lockable" where
  "lv_make v = \<lparr>lv_value = v, lv_readers = Map.empty, lv_writer = None\<rparr>"

definition readAccess :: "nat \<Rightarrow> 'v lockable \<Rightarrow> 'v lockable option" where
  "readAccess t l =
     (if lv_writer l = None then Some (l\<lparr>lv_readers := (lv_readers l)(t \<mapsto> lv_value l)\<rparr>) else None)"

definition readAccess_end :: "nat \<Rightarrow> 'v lockable \<Rightarrow> 'v lockable" where
  "readAccess_end t l = l\<lparr>lv_readers := (lv_readers l)(t := None)\<rparr>"

definition writeAccess :: "nat \<Rightarrow> 'v lockable \<Rightarrow> 'v lockable option" where
  "writeAccess t l =
     (if lv_writer l = None \<and> lv_readers l = Map.empty then Some (l\<lparr>lv_writer := Some t\<rparr>) else None)"

definition write_through :: "'v \<Rightarrow> 'v lockable \<Rightarrow> 'v lockable" where
  "write_through v l = l\<lparr>lv_value := v\<rparr>"

definition writeAccess_end :: "'v lockable \<Rightarrow> 'v lockable" where
  "writeAccess_end l = l\<lparr>lv_writer := None\<rparr>"

definition lv_assign :: "nat \<Rightarrow> 'v \<Rightarrow> 'v lockable \<Rightarrow> 'v lockable option" where
  "lv_assign t v l = map_option (\<lambda>l. writeAccess_end (write_through v l)) (writeAccess t l)"

definition lv_copy :: "nat \<Rightarrow> 'v lockable \<Rightarrow> ('v lockable \<times> 'v) option" where
  "lv_copy t l = map_option (\<lambda>l. (readAccess_end t l, lv_value l)) (readAccess t l)"

text \<open>None of an access: the thread blocks, so nothing happens.\<close>

inductive lv_step :: "'v lockable \<Rightarrow> 'v lockable \<Rightarrow> bool" where
  lv_read: "lv_readers l t = None \<Longrightarrow> readAccess t l = Some l' \<Longrightarrow> lv_step l l'"
| lv_read_end: "lv_step l (readAccess_end t l)"
| lv_write: "writeAccess t l = Some l' \<Longrightarrow> lv_step l l'"
| lv_change: "lv_writer l = Some t \<Longrightarrow> lv_step l (write_through v l)"
| lv_write_end: "lv_writer l = Some t \<Longrightarrow> lv_step l (writeAccess_end l)"
| lv_assigned: "lv_assign t v l = Some l' \<Longrightarrow> lv_step l l'"

inductive lv_reachable :: "'v lockable \<Rightarrow> bool" where
  lv_start: "lv_reachable (lv_make v)"
| lv_more: "lv_reachable l \<Longrightarrow> lv_step l l' \<Longrightarrow> lv_reachable l'"

lemma lockable_excludes:
  assumes "lv_reachable l"
  shows "(lv_writer l \<noteq> None \<longrightarrow> lv_readers l = Map.empty) \<and> (\<forall>t v. lv_readers l t = Some v \<longrightarrow> v = lv_value l)"
  using assms
proof (induction rule: lv_reachable.induct)
  case (lv_more l l')
  from lv_more.hyps(2) lv_more.IH show ?case
    by cases (auto simp: readAccess_def readAccess_end_def writeAccess_def write_through_def writeAccess_end_def
      lv_assign_def split: if_splits)
qed (simp add: lv_make_def)

lemma lv_copy_assign: "lv_assign t v l = Some l' \<Longrightarrow> \<exists>l''. lv_copy u l' = Some (l'', v) \<and> lv_value l'' = v"
  by (auto simp: lv_assign_def lv_copy_def writeAccess_def write_through_def writeAccess_end_def readAccess_def
    readAccess_end_def split: if_splits)

end
