(* ===== verification/ContextTree.thy ===== *)
theory ContextTree
  imports Prelude
begin

text \<open>
  include/nhope/async/detail/ao-context-impl.h: a parent and a child AOContext that any number of
  threads close at once. Closing the parent calls the child's aoContextClose, closing the child removes it
  from the parent's handlers, and each waits for the other there. The waits are those of
  waitForClosed (another thread closes) and of removeCloseHandler (the handler is running); what
  a close does with other handlers is CloseHandlers.
\<close>

section \<open>Threads that close\<close>

text \<open>
  Where a thread is. PTake: callCloseHandlers of the parent is about to look at its list;
  PEnter: in the child's aoContextClose; PStartC: there, before close; CRemove: the child's close
  calls removeCloseHandler of the parent, from_parent tells that it was called by the parent's close;
  CSpin: it waits for m_done; CClosed, PClosed: setClosedFlag is next; WaitP, WaitC, PWaitC:
  waitForClosed.
\<close>

datatype close_pc =
    CallP
  | WaitP
  | PTake
  | PEnter
  | PStartC
  | PWaitC
  | PClosed
  | CallC
  | WaitC
  | CRemove bool
  | CSpin
  | CClosed bool
  | CloseReturned

record close_shared =
  p_started :: bool
  p_closed :: bool
  c_started :: bool
  c_closed :: bool
  c_in_list :: bool      \<comment> \<open>the child is among the parent's handlers\<close>
  c_done :: bool         \<comment> \<open>the child's m_done\<close>

definition tree_init :: close_shared where
  "tree_init = \<lparr>p_started = False, p_closed = False, c_started = False, c_closed = False,
     c_in_list = True, c_done = False\<rparr>"

text \<open>
  startClose wins or loses; waitForClosed blocks (None) until the flag is set; aoContextClose sets m_done
  first, so that a thread that waits for it in removeCloseHandler goes on; removeCloseHandler of the
  parent finds the child in the list, is called from within the parent's close, or waits.
\<close>

definition wait_closed :: "bool \<Rightarrow> close_pc \<Rightarrow> close_shared \<Rightarrow> (close_pc \<times> close_shared) option" where
  [simp]: "wait_closed closed pc s = (if closed then Some (pc, s) else None)"

definition child_aoContextClose :: "close_shared \<Rightarrow> close_pc \<times> close_shared" where
  [simp]: "child_aoContextClose s = (PStartC, s\<lparr>c_done := True\<rparr>)"

definition remove_from_parent :: "bool \<Rightarrow> close_shared \<Rightarrow> close_pc \<times> close_shared" where
  [simp]: "remove_from_parent from_parent s =
     (if c_in_list s then (CClosed from_parent, s\<lparr>c_in_list := False\<rparr>)
      else if from_parent then (CClosed True, s)
      else (CSpin, s))"

definition take_child :: "close_shared \<Rightarrow> close_pc \<times> close_shared" where
  [simp]: "take_child s = (if c_in_list s then (PEnter, s\<lparr>c_in_list := False\<rparr>) else (PClosed, s))"

text \<open>One step of a thread; None: it has to wait, or has returned.\<close>

fun close_step :: "close_pc \<Rightarrow> close_shared \<Rightarrow> (close_pc \<times> close_shared) option" where
  "close_step CallP s = Some (if p_started s then (WaitP, s) else (PTake, s\<lparr>p_started := True\<rparr>))"
| "close_step WaitP s = wait_closed (p_closed s) CloseReturned s"
| "close_step PTake s = Some (take_child s)"
| "close_step PEnter s = Some (child_aoContextClose s)"
| "close_step PStartC s = Some (if c_started s then (PWaitC, s) else (CRemove True, s\<lparr>c_started := True\<rparr>))"
| "close_step PWaitC s = wait_closed (c_closed s) PClosed s"
| "close_step PClosed s = Some (CloseReturned, s\<lparr>p_closed := True\<rparr>)"
| "close_step CallC s = Some (if c_started s then (WaitC, s) else (CRemove False, s\<lparr>c_started := True\<rparr>))"
| "close_step WaitC s = wait_closed (c_closed s) CloseReturned s"
| "close_step (CRemove from_parent) s = Some (remove_from_parent from_parent s)"
| "close_step CSpin s = (if c_done s then Some (CClosed False, s) else None)"
| "close_step (CClosed from_parent) s =
     Some (if from_parent then PClosed else CloseReturned, s\<lparr>c_closed := True\<rparr>)"
| "close_step CloseReturned s = None"

type_synonym close_threads = "close_pc list \<times> close_shared"

inductive tree_step :: "close_threads \<Rightarrow> close_threads \<Rightarrow> bool" where
  tree_thread: "i < length pcs \<Longrightarrow> close_step (pcs ! i) s = Some (pc, s') \<Longrightarrow> tree_step (pcs, s) (pcs[i := pc], s')"

inductive tree_reachable :: "close_threads \<Rightarrow> bool" where
  tree_start: "set pcs \<subseteq> {CallP, CallC} \<Longrightarrow> tree_reachable (pcs, tree_init)"
| tree_more: "tree_reachable t \<Longrightarrow> tree_step t t' \<Longrightarrow> tree_reachable t'"

section \<open>Who closes\<close>

fun closes_child :: "close_pc \<Rightarrow> bool" where
  "closes_child (CRemove _) = True"
| "closes_child CSpin = True"
| "closes_child (CClosed _) = True"
| "closes_child _ = False"

fun closes_parent :: "close_pc \<Rightarrow> bool" where
  "closes_parent PTake = True"
| "closes_parent PEnter = True"
| "closes_parent PStartC = True"
| "closes_parent PWaitC = True"
| "closes_parent PClosed = True"
| "closes_parent (CRemove b) = b"
| "closes_parent (CClosed b) = b"
| "closes_parent _ = False"

definition how_many :: "(close_pc \<Rightarrow> bool) \<Rightarrow> close_pc list \<Rightarrow> nat" where
  "how_many P pcs = length (filter P pcs)"

lemma how_many_update:
  "i < length pcs \<Longrightarrow> how_many P (pcs[i := pc]) + of_bool (P (pcs ! i)) = how_many P pcs + of_bool (P pc)"
  unfolding how_many_def
proof (induction pcs arbitrary: i)
  case (Cons a pcs)
  then show ?case by (cases i) auto
qed simp

lemma how_many_pos: "0 < how_many P pcs \<longleftrightarrow> (\<exists>pc\<in>set pcs. P pc)"
  by (auto simp: how_many_def filter_empty_conv)

lemma how_many_nth: "i < length pcs \<Longrightarrow> P (pcs ! i) \<Longrightarrow> 0 < how_many P pcs"
  by (auto simp: how_many_pos)

definition one_closer :: "close_threads \<Rightarrow> bool" where
  "one_closer t \<longleftrightarrow> (case t of (pcs, s) \<Rightarrow>
     how_many closes_parent pcs = of_bool (p_started s \<and> \<not> p_closed s) \<and>
     how_many closes_child pcs = of_bool (c_started s \<and> \<not> c_closed s) \<and>
     (p_closed s \<longrightarrow> p_started s) \<and> (c_closed s \<longrightarrow> c_started s))"

text \<open>Who has taken the child out of the list will set m_done or has finished with the list.\<close>

definition taken_by :: "close_threads \<Rightarrow> bool" where
  "taken_by t \<longleftrightarrow> (case t of (pcs, s) \<Rightarrow>
     \<not> c_in_list s \<longrightarrow> c_done s \<or> 0 < how_many (\<lambda>pc. pc = PEnter) pcs \<or>
       0 < how_many (\<lambda>pc. pc = CClosed True \<or> pc = CClosed False) pcs \<or> c_closed s)"

definition spins_late :: "close_threads \<Rightarrow> bool" where
  "spins_late t \<longleftrightarrow> (case t of (pcs, s) \<Rightarrow> c_in_list s \<longrightarrow> how_many (\<lambda>pc. pc = CSpin) pcs = 0)"

definition waits_started :: "close_threads \<Rightarrow> bool" where
  "waits_started t \<longleftrightarrow> (case t of (pcs, s) \<Rightarrow>
     (0 < how_many (\<lambda>pc. pc = WaitP) pcs \<longrightarrow> p_started s) \<and>
     (0 < how_many (\<lambda>pc. pc = WaitC \<or> pc = PWaitC) pcs \<longrightarrow> c_started s))"

lemma one_closer_step:
  assumes "one_closer (pcs, s)" and i: "i < length pcs" and st: "close_step (pcs ! i) s = Some (pc, s')"
  shows "one_closer (pcs[i := pc], s')"
  using assms(1) st how_many_update[OF i, of closes_parent pc] how_many_update[OF i, of closes_child pc]
    how_many_nth[OF i, of closes_parent] how_many_nth[OF i, of closes_child]
  by (cases "pcs ! i") (auto simp: one_closer_def split: if_splits)

lemma taken_by_step:
  assumes "taken_by (pcs, s)" and i: "i < length pcs" and st: "close_step (pcs ! i) s = Some (pc, s')"
  shows "taken_by (pcs[i := pc], s')"
  using assms(1) st how_many_update[OF i, of "\<lambda>pc. pc = PEnter" pc]
    how_many_update[OF i, of "\<lambda>pc. pc = CClosed True \<or> pc = CClosed False" pc]
  by (cases "pcs ! i") (simp_all add: taken_by_def split: if_splits, auto)

lemma spins_late_step:
  assumes "spins_late (pcs, s)" and i: "i < length pcs" and st: "close_step (pcs ! i) s = Some (pc, s')"
  shows "spins_late (pcs[i := pc], s')"
  using assms(1) st how_many_update[OF i, of "\<lambda>pc. pc = CSpin" pc]
  by (cases "pcs ! i") (auto simp: spins_late_def split: if_splits)

lemma waits_started_step:
  assumes "waits_started (pcs, s)" and i: "i < length pcs" and st: "close_step (pcs ! i) s = Some (pc, s')"
  shows "waits_started (pcs[i := pc], s')"
  using assms(1) st how_many_update[OF i, of "\<lambda>pc. pc = WaitP" pc] how_many_update[OF i, of "\<lambda>pc. pc = WaitC \<or> pc = PWaitC" pc]
    how_many_nth[OF i, of "\<lambda>pc. pc = WaitP"] how_many_nth[OF i, of "\<lambda>pc. pc = WaitC \<or> pc = PWaitC"]
  by (cases "pcs ! i") (auto simp: waits_started_def split: if_splits)

definition child_first :: "close_threads \<Rightarrow> bool" where
  "child_first t \<longleftrightarrow> (case t of (pcs, s) \<Rightarrow>
     (\<not> c_in_list s \<longrightarrow> c_started s \<or> 0 < how_many (\<lambda>pc. pc = PEnter \<or> pc = PStartC) pcs) \<and>
     (0 < how_many (\<lambda>pc. pc = PWaitC \<or> pc = PClosed) pcs \<or> p_closed s \<longrightarrow> c_started s))"

lemma two_parent_closers:
  assumes "one_closer (pcs, s)" and "i < length pcs" and "closes_parent (pcs ! i)" and "j < length pcs" and "closes_parent (pcs ! j)"
  shows "i = j"
proof (rule ccontr)
  assume "i \<noteq> j"
  have "how_many closes_parent (pcs[i := CloseReturned]) + 1 = how_many closes_parent pcs"
    using how_many_update[OF assms(2), of closes_parent CloseReturned] assms(3) by simp
  moreover have "0 < how_many closes_parent (pcs[i := CloseReturned])"
    using how_many_nth[of j "pcs[i := CloseReturned]" closes_parent] assms(4,5) \<open>i \<noteq> j\<close> by simp
  moreover have "how_many closes_parent pcs \<le> 1" using assms(1) by (simp add: one_closer_def of_bool_def)
  ultimately show False by simp
qed

lemma no_enter_at_take:
  assumes "one_closer (pcs, s)" and "i < length pcs" and "pcs ! i = PTake"
  shows "how_many (\<lambda>pc. pc = PEnter \<or> pc = PStartC) pcs = 0"
proof (rule ccontr)
  assume "how_many (\<lambda>pc. pc = PEnter \<or> pc = PStartC) pcs \<noteq> 0"
  then obtain j where j: "j < length pcs" "pcs ! j = PEnter \<or> pcs ! j = PStartC"
    using how_many_pos[of "\<lambda>pc. pc = PEnter \<or> pc = PStartC" pcs] by (auto simp: in_set_conv_nth)
  then have "j = i" using two_parent_closers[OF assms(1) j(1) _ assms(2)] assms(3) by auto
  then show False using j assms(3) by simp
qed

lemma child_first_step:
  assumes "one_closer (pcs, s)" and "child_first (pcs, s)" and i: "i < length pcs" and st: "close_step (pcs ! i) s = Some (pc, s')"
  shows "child_first (pcs[i := pc], s')"
  using assms(1,2) st how_many_update[OF i, of "\<lambda>pc. pc = PEnter \<or> pc = PStartC" pc]
    how_many_update[OF i, of "\<lambda>pc. pc = PWaitC \<or> pc = PClosed" pc] no_enter_at_take[OF assms(1) i]
    how_many_nth[OF i, of closes_child] how_many_nth[OF i, of "\<lambda>pc. pc = PWaitC \<or> pc = PClosed"]
  by (cases "pcs ! i") (auto simp: one_closer_def child_first_def split: if_splits)

lemma tree_reachable_inv:
  assumes "tree_reachable t"
  shows "one_closer t \<and> taken_by t \<and> spins_late t \<and> waits_started t \<and> child_first t"
  using assms
proof (induction rule: tree_reachable.induct)
  case (tree_start pcs)
  then have "how_many P pcs = 0" if "\<not> P CallP" "\<not> P CallC" for P
    using that by (auto simp: how_many_def filter_empty_conv)
  then show ?case by (simp add: one_closer_def taken_by_def spins_late_def waits_started_def child_first_def tree_init_def)
next
  case (tree_more t t')
  from tree_more.hyps(2) show ?case
  proof cases
    case (tree_thread i pcs s pc s')
    then show ?thesis
      using tree_more.IH one_closer_step[of pcs s i pc s'] taken_by_step[of pcs s i pc s']
        spins_late_step[of pcs s i pc s'] waits_started_step[of pcs s i pc s'] child_first_step[of pcs s i pc s']
      by simp
  qed
qed

section \<open>No deadlock\<close>

lemma tree_progress:
  assumes "tree_reachable (pcs, s)" and "\<exists>pc\<in>set pcs. pc \<noteq> CloseReturned"
  shows "\<exists>t. tree_step (pcs, s) t"
proof (rule ccontr)
  assume stuck: "\<nexists>t. tree_step (pcs, s) t"
  have inv: "one_closer (pcs, s)" "taken_by (pcs, s)" "spins_late (pcs, s)" "waits_started (pcs, s)"
    using tree_reachable_inv[OF assms(1)] by auto
  have blocked: "close_step pc s = None" if "pc \<in> set pcs" for pc
    using stuck that by (metis in_set_conv_nth option.exhaust surj_pair tree_thread)
  have spin: "CSpin \<notin> set pcs"
  proof
    assume sp: "CSpin \<in> set pcs"
    then have d: "\<not> c_done s" using blocked[OF sp] by (auto split: if_splits)
    have "0 < how_many (\<lambda>pc. pc = CSpin) pcs" using sp by (auto simp: how_many_pos)
    moreover have "0 < how_many closes_child pcs" using bexI[OF _ sp, of closes_child] by (simp add: how_many_pos)
    ultimately have "\<not> c_in_list s" "\<not> c_closed s" using inv by (auto simp: spins_late_def one_closer_def)
    then have "PEnter \<in> set pcs \<or> CClosed True \<in> set pcs \<or> CClosed False \<in> set pcs"
      using inv(2) d by (auto simp: taken_by_def how_many_pos)
    then show False using blocked by fastforce
  qed
  have closer: "\<exists>pc\<in>set pcs. closes_child pc" if "c_started s" "\<not> c_closed s"
    using inv(1) that how_many_pos[of closes_child pcs] by (simp add: one_closer_def)
  have child: "c_closed s \<or> \<not> c_started s"
  proof (rule ccontr)
    assume "\<not> ?thesis"
    then obtain pc where pc: "pc \<in> set pcs" "closes_child pc" using closer by blast
    then have "pc \<noteq> CSpin" using spin by blast
    then show False using blocked[OF pc(1)] pc(2) by (cases pc) (auto split: if_splits)
  qed
  have wait: "WaitC \<notin> set pcs" "PWaitC \<notin> set pcs"
  proof -
    have "c_started s" if "WaitC \<in> set pcs \<or> PWaitC \<in> set pcs"
      using that inv(4) how_many_pos[of "\<lambda>pc. pc = WaitC \<or> pc = PWaitC" pcs] by (auto simp: waits_started_def)
    then show "WaitC \<notin> set pcs" "PWaitC \<notin> set pcs" using child blocked[of WaitC] blocked[of PWaitC] by auto
  qed
  have "WaitP \<notin> set pcs"
  proof
    assume w: "WaitP \<in> set pcs"
    then have "\<not> p_closed s" using blocked[OF w] by (auto split: if_splits)
    moreover have "p_started s" using w inv(4) how_many_pos[of "\<lambda>pc. pc = WaitP" pcs] by (auto simp: waits_started_def)
    ultimately obtain pc where pc: "pc \<in> set pcs" "closes_parent pc"
      using inv(1) how_many_pos[of closes_parent pcs] by (auto simp: one_closer_def)
    then have "pc \<noteq> PWaitC" using wait by blast
    then show False using blocked[OF pc(1)] pc(2) by (cases pc) (auto split: if_splits)
  qed
  then have "pc = CloseReturned" if "pc \<in> set pcs" for pc
    using blocked[OF that] that spin wait by (cases pc) (auto split: if_splits)
  then show False using assms(2) by blast
qed

fun close_rank :: "close_pc \<Rightarrow> nat" where
  "close_rank CallP = 10" | "close_rank PTake = 9" | "close_rank PEnter = 8" | "close_rank PStartC = 7"
| "close_rank (CRemove b) = (if b then 6 else 5)" | "close_rank (CClosed b) = (if b then 4 else 3)" | "close_rank CSpin = 4"
| "close_rank PWaitC = 4" | "close_rank PClosed = 3" | "close_rank CallC = 6" | "close_rank WaitP = 1"
| "close_rank WaitC = 1" | "close_rank CloseReturned = 0"

definition threads_rank :: "close_threads \<Rightarrow> nat" where
  "threads_rank t = sum_list (map close_rank (fst t))"

lemma close_step_rank: "close_step pc s = Some (pc', s') \<Longrightarrow> close_rank pc' < close_rank pc"
  by (cases pc) (auto split: if_splits)

lemma sum_list_map_update:
  "i < length xs \<Longrightarrow> sum_list (map f (xs[i := y])) + f (xs ! i) = sum_list (map f xs) + (f y :: nat)"
proof (induction xs arbitrary: i)
  case (Cons x xs)
  then show ?case by (cases i) auto
qed simp

lemma tree_step_rank: "tree_step t t' \<Longrightarrow> threads_rank t' < threads_rank t"
proof (induction rule: tree_step.induct)
  case (tree_thread i pcs s pc s')
  then show ?case
    using sum_list_map_update[OF tree_thread(1), of close_rank pc] close_step_rank[OF tree_thread(2)]
    by (simp add: threads_rank_def)
qed

text \<open>
  C40: whichever threads close a parent and its child at once, nobody waits forever: every thread
  that has not returned can be brought on by some thread, and no run of their steps is infinite. When all have
  returned, each context whose close was called is closed, and the child with its parent.
\<close>

theorem concurrent_close_returns:
  assumes "tree_reachable (pcs, s)"
  shows "((\<exists>pc\<in>set pcs. pc \<noteq> CloseReturned) = (\<exists>t. tree_step (pcs, s) t)) \<and>
    wfP (\<lambda>t' t. tree_step t t') \<and>
    (set pcs \<subseteq> {CloseReturned} \<longrightarrow> p_closed s = p_started s \<and> c_closed s = c_started s \<and> (p_closed s \<longrightarrow> c_closed s))"
proof (intro conjI impI)
  have "\<exists>pc\<in>set pcs. pc \<noteq> CloseReturned" if "tree_step (pcs, s) t" for t
    using that by cases (metis close_step.simps(13) nth_mem option.distinct(1))
  then show "(\<exists>pc\<in>set pcs. pc \<noteq> CloseReturned) = (\<exists>t. tree_step (pcs, s) t)"
    using tree_progress[OF assms] by blast
  show "wfP (\<lambda>t' t. tree_step t t')"
    by (rule wfp_if_convertible_to_nat[of _ threads_rank]) (rule tree_step_rank)
  assume "set pcs \<subseteq> {CloseReturned}"
  then have "how_many closes_parent pcs = 0" "how_many closes_child pcs = 0"
    by (auto simp: how_many_def filter_empty_conv)
  then show "p_closed s = p_started s" "c_closed s = c_started s" "p_closed s \<Longrightarrow> c_closed s"
    using tree_reachable_inv[OF assms] by (auto simp: one_closer_def child_first_def split: if_splits)
qed

theorem concurrent_close_returns_witness: "\<exists>t. tree_step ([CallP, CallC, CallC], tree_init) t"
proof -
  have "tree_reachable ([CallP, CallC, CallC], tree_init)" by (rule tree_start) simp
  from concurrent_close_returns[OF this] show ?thesis by auto
qed

end
