(* ===== verification/Servers.thy ===== *)
theory Servers
  imports Sockets
begin

text \<open>
  The servers of lib/io/tcp.cpp and lib/io/local-socket.cpp with their accept operations, and the
  endpoints of lib/io/udp.cpp. asio is a parameter: an accept that was started completes once, and
  with an error after its acceptor was closed. Errors are of any type.
\<close>

section \<open>Servers\<close>

datatype 'e accept_state = Accepting bool | Accepted | AcceptFailed 'e   \<comment> \<open>Accepting: was it aborted\<close>

record 'e server =
  sv_alive :: bool
  sv_registered :: bool
  m_acceptor_open :: bool
  sv_accepts :: "'e accept_state list"
  sv_phase :: ctx_phase

text \<open>
  The constructor opens, binds and listens, which may fail, and registers the close handler, which
  throws (closedErr) on a context that is not open; the acceptor is then closed again.
\<close>

definition tcp_server_start :: "'e \<Rightarrow> ctx_phase \<Rightarrow> 'e option \<Rightarrow> 'e + 'e server" where
  "tcp_server_start closedErr ph bindErr = (case bindErr of
     Some e \<Rightarrow> Inl e
   | None \<Rightarrow> (if ph \<noteq> CtxOpen then Inl closedErr
             else Inr \<lparr>sv_alive = True, sv_registered = True, m_acceptor_open = True, sv_accepts = [], sv_phase = ph\<rparr>))"

text \<open>accept: the context of the new socket cannot be made when the server's is closed (None).\<close>

definition tcp_accept :: "'e server \<Rightarrow> 'e server option" where
  "tcp_accept sv = (if sv_phase sv \<noteq> CtxOpen then None
     else Some (sv\<lparr>sv_accepts := sv_accepts sv @ [Accepting (\<not> m_acceptor_open sv)]\<rparr>))"

definition accept_handler :: "nat \<Rightarrow> 'e option \<Rightarrow> 'e server \<Rightarrow> 'e server" where
  "accept_handler i err sv = sv\<lparr>sv_accepts := (sv_accepts sv)[i :=
     (case err of Some e \<Rightarrow> AcceptFailed e | None \<Rightarrow> Accepted)]\<rparr>"

text \<open>Closing an acceptor aborts its operations.\<close>

definition abort_accept :: "'e accept_state \<Rightarrow> 'e accept_state" where
  "abort_accept a = (case a of Accepting b \<Rightarrow> Accepting True | _ \<Rightarrow> a)"

definition acceptor_close :: "'e server \<Rightarrow> 'e server" where
  "acceptor_close sv = sv\<lparr>m_acceptor_open := False, sv_accepts := map abort_accept (sv_accepts sv)\<rparr>"

definition server_aoContextClose :: "'e server \<Rightarrow> 'e server option" where
  "server_aoContextClose sv = (if sv_alive sv then Some (acceptor_close sv) else None)"

definition server_destroy :: "'e server \<Rightarrow> 'e server" where
  "server_destroy sv = acceptor_close (sv\<lparr>sv_alive := False, sv_registered := False\<rparr>)"

inductive server_step :: "'e server \<Rightarrow> 'e server option \<Rightarrow> bool" where
  sv_accept: "sv_alive sv \<Longrightarrow> tcp_accept sv = Some sv' \<Longrightarrow> server_step sv (Some sv')"
| sv_completes: "i < length (sv_accepts sv) \<Longrightarrow> sv_accepts sv ! i = Accepting b \<Longrightarrow> (b \<Longrightarrow> err \<noteq> None) \<Longrightarrow>
    server_step sv (Some (accept_handler i err sv))"
| sv_destroy: "sv_alive sv \<Longrightarrow> server_step sv (Some (server_destroy sv))"
| sv_ctx_closes: "sv_phase sv = CtxOpen \<Longrightarrow> server_step sv (Some (sv\<lparr>sv_phase := CtxClosing\<rparr>))"
| sv_ctx_calls: "sv_phase sv = CtxClosing \<Longrightarrow> server_step sv
    (map_option (\<lambda>sv. sv\<lparr>sv_phase := CtxClosed, sv_registered := False\<rparr>)
      (if sv_registered sv then server_aoContextClose sv else Some sv))"

inductive server_run :: "'e server \<Rightarrow> 'e server \<Rightarrow> bool" where
  sv_run_refl: "server_run sv sv"
| sv_run_step: "server_run sv sv' \<Longrightarrow> server_step sv' (Some sv'') \<Longrightarrow> server_run sv sv''"

text \<open>The server of a local socket owns the file it is bound to.\<close>

definition local_server_start :: "'e \<Rightarrow> ctx_phase \<Rightarrow> 'e option \<Rightarrow> bool \<Rightarrow> bool \<times> ('e + 'e server)" where
  "local_server_start closedErr ph bindErr file = (case bindErr of
     Some e \<Rightarrow> (file, Inl e)
   | None \<Rightarrow> (True, if ph \<noteq> CtxOpen then Inl closedErr
       else Inr \<lparr>sv_alive = True, sv_registered = True, m_acceptor_open = True, sv_accepts = [], sv_phase = ph\<rparr>))"

definition local_accept :: "'e server \<Rightarrow> 'e server option" where
  "local_accept sv = (if sv_phase sv \<noteq> CtxOpen then None
     else Some (sv\<lparr>sv_accepts := sv_accepts sv @ [Accepting (\<not> m_acceptor_open sv)]\<rparr>))"

definition local_server_destroy :: "'e server \<times> bool \<Rightarrow> 'e server \<times> bool" where
  "local_server_destroy s = (server_destroy (fst s), False)"

section \<open>What the servers keep\<close>

definition server_inv :: "'e server \<Rightarrow> bool" where
  "server_inv sv \<longleftrightarrow> (sv_registered sv \<longrightarrow> sv_alive sv) \<and>
     (m_acceptor_open sv \<longrightarrow> sv_registered sv \<and> sv_phase sv \<noteq> CtxClosed) \<and>
     (\<not> m_acceptor_open sv \<longrightarrow> Accepting False \<notin> set (sv_accepts sv))"

lemma abort_accept_simps [simp]: "abort_accept a \<noteq> Accepting False" "Accepting False \<noteq> abort_accept a"
  by (cases a; simp add: abort_accept_def)+

lemma server_inv_start: "tcp_server_start closedErr ph bindErr = Inr sv \<Longrightarrow> server_inv sv"
  by (auto simp: tcp_server_start_def server_inv_def split: option.splits if_splits)

lemma server_inv_step:
  assumes "server_inv sv" and "server_step sv r"
  shows "\<exists>sv'. r = Some sv' \<and> server_inv sv'"
  using assms(2)
proof cases
  case (sv_completes i b err)
  have "accept_handler i err sv = sv\<lparr>sv_accepts := (sv_accepts sv)[i := (case err of Some e \<Rightarrow> AcceptFailed e | None \<Rightarrow> Accepted)]\<rparr>"
    by (simp add: accept_handler_def)
  then show ?thesis using sv_completes assms(1) set_update_subset_insert[of "sv_accepts sv" i]
    by (fastforce simp: server_inv_def split: option.splits)
qed (use assms(1) in \<open>auto simp: server_inv_def tcp_accept_def server_destroy_def acceptor_close_def
    server_aoContextClose_def split: if_splits\<close>)

text \<open>An accept that has been answered keeps its answer, and one that was aborted gets no socket.\<close>

definition accept_leads :: "'e accept_state \<Rightarrow> 'e accept_state \<Rightarrow> bool" where
  "accept_leads a a' = (case a of
     Accepting b \<Rightarrow> b \<longrightarrow> a' = Accepting True \<or> (\<exists>e. a' = AcceptFailed e)
   | _ \<Rightarrow> a' = a)"

lemma accept_leads_refl [simp]: "accept_leads a a"
  by (cases a) (auto simp: accept_leads_def)

lemma accept_leads_trans: "accept_leads a b \<Longrightarrow> accept_leads b c \<Longrightarrow> accept_leads a c"
  by (cases a; cases b) (auto simp: accept_leads_def)

lemma accept_leads_abort: "accept_leads a (abort_accept a)"
  by (cases a) (auto simp: accept_leads_def abort_accept_def)

lemma server_step_leads:
  assumes "server_step sv (Some sv')" and i: "i < length (sv_accepts sv)"
  shows "i < length (sv_accepts sv') \<and> accept_leads (sv_accepts sv ! i) (sv_accepts sv' ! i)"
  using assms(1)
proof cases
  case (sv_completes j b err)
  then show ?thesis using i
    by (cases "i = j") (auto simp: accept_handler_def accept_leads_def[of "Accepting _"] split: option.splits)
qed (use i in \<open>auto simp: tcp_accept_def server_destroy_def acceptor_close_def server_aoContextClose_def nth_append
    accept_leads_abort split: if_splits\<close>)

lemma server_run_inv: "server_run sv sv' \<Longrightarrow> server_inv sv \<Longrightarrow> server_inv sv'"
  by (induction rule: server_run.induct) (use server_inv_step in blast)+

text \<open>
  a server whose context was closed, or that was destroyed, hands out no more sockets: every accept
  that is still pending ends with an error, however long it takes, and one that was answered keeps
  its answer.
\<close>

theorem closed_server_refuses:
  assumes "tcp_server_start closedErr ph bindErr = Inr sv0" and "server_run sv0 sv"
    and "sv_phase sv = CtxClosed \<or> \<not> sv_alive sv" and "server_run sv sv'" and "i < length (sv_accepts sv)"
  shows "\<not> server_step sv' None \<and> (case sv_accepts sv ! i of
      Accepting b \<Rightarrow> sv_accepts sv' ! i = Accepting True \<or> (\<exists>e. sv_accepts sv' ! i = AcceptFailed e)
    | a \<Rightarrow> sv_accepts sv' ! i = a)"
proof -
  have inv: "server_inv sv" "server_inv sv'"
    using server_run_inv[OF assms(2) server_inv_start[OF assms(1)]] server_run_inv[OF assms(4)] by blast+
  have lead: "i < length (sv_accepts sv') \<and> accept_leads (sv_accepts sv ! i) (sv_accepts sv' ! i)"
    using assms(4,5)
  proof (induction rule: server_run.induct)
    case (sv_run_step sv sv' sv'')
    then show ?case using server_step_leads accept_leads_trans by blast
  qed simp
  have "Accepting False \<notin> set (sv_accepts sv)" using inv(1) assms(3) by (auto simp: server_inv_def)
  then have "sv_accepts sv ! i \<noteq> Accepting False" using assms(5) by (metis nth_mem)
  then show ?thesis using lead server_inv_step[OF inv(2), of None]
    by (auto simp: accept_leads_def split: accept_state.splits)
qed

theorem closed_server_refuses_witness:
  "\<not> server_step (\<lparr>sv_alive = True, sv_registered = False, m_acceptor_open = False, sv_accepts = [Accepting True],
     sv_phase = CtxClosed\<rparr> :: nat server) None"
proof -
  let ?sv = "\<lambda>r o' as ph. \<lparr>sv_alive = True, sv_registered = r, m_acceptor_open = o', sv_accepts = as, sv_phase = ph\<rparr> :: nat server"
  have start: "tcp_server_start 9 CtxOpen None = Inr (?sv True True [] CtxOpen)" by (simp add: tcp_server_start_def)
  have "server_run (?sv True True [] CtxOpen) (?sv True True [Accepting False] CtxOpen)"
    by (rule sv_run_step[OF sv_run_refl sv_accept]) (simp_all add: tcp_accept_def)
  from sv_run_step[OF this sv_ctx_closes]
  have "server_run (?sv True True [] CtxOpen) (?sv True True [Accepting False] CtxClosing)" by simp
  moreover have "server_step (?sv True True [Accepting False] CtxClosing) (Some (?sv False False [Accepting True] CtxClosed))"
    using sv_ctx_calls[of "?sv True True [Accepting False] CtxClosing"]
    by (simp add: server_aoContextClose_def acceptor_close_def abort_accept_def)
  ultimately have run: "server_run (?sv True True [] CtxOpen) (?sv False False [Accepting True] CtxClosed)"
    by (rule sv_run_step)
  show ?thesis using closed_server_refuses[OF start run _ sv_run_refl, of 0] by simp
qed

text \<open>
  The file of a local server is there as long as the server is; but start on a context that is
  closed throws after the file was made, and nobody removes it.
\<close>

theorem local_server_file:
  "local_server_start closedErr ph bindErr file = (file', res) \<Longrightarrow>
     (case res of Inr sv \<Rightarrow> file' \<and> snd (local_server_destroy (sv, file')) = False
      | Inl e \<Rightarrow> file' = (file \<or> bindErr = None \<and> ph \<noteq> CtxOpen))"
  by (auto simp: local_server_start_def local_server_destroy_def split: option.splits if_splits)

section \<open>UDP\<close>

text \<open>
  A socket writes to m_endpoint, the peer of its parameters, and a read puts the sender of the
  datagram there. any_ep: the endpoint of a default-constructed one.
\<close>

record 'ip udp_socket =
  m_endpoint :: "'ip \<times> nat"
  m_peers :: "udp_endpoint list"

definition udp_socket_make :: "(string \<Rightarrow> 'ip option) \<Rightarrow> 'ip \<Rightarrow> udp_params \<Rightarrow> 'ip udp_socket option" where
  "udp_socket_make from_string any params = (case udp_setOptions from_string any params of
     (calls, None) \<Rightarrow> None
   | (calls, Some peer) \<Rightarrow> Some \<lparr>m_endpoint = or_else peer (any, 0), m_peers = []\<rparr>)"

text \<open>The socket for many peers starts with the peer of the parameters, if it has a port.\<close>

definition udp_multi_make :: "('ip \<Rightarrow> string) \<Rightarrow> (string \<Rightarrow> 'ip option) \<Rightarrow> 'ip \<Rightarrow> udp_params \<Rightarrow> 'ip udp_socket option" where
  "udp_multi_make to_string from_string any params = map_option (\<lambda>u.
     if snd (m_endpoint u) \<noteq> 0
     then u\<lparr>m_peers := m_peers u @ [\<lparr>ep_address = to_string (fst (m_endpoint u)), ep_port = snd (m_endpoint u)\<rparr>]\<rparr>
     else u) (udp_socket_make from_string any params)"

text \<open>
  async_receive_from: the sender is stored when the datagram has come, whether the context is
  still open or not; the handler is called only if it is.
\<close>

definition udp_read :: "bool \<Rightarrow> error_code \<Rightarrow> nat \<Rightarrow> 'ip \<times> nat \<Rightarrow> 'ip udp_socket \<Rightarrow>
    'ip udp_socket \<times> (error_code option \<times> nat) option" where
  "udp_read ctx_open err n sender u =
     (if err_value err = 0 then u\<lparr>m_endpoint := sender\<rparr> else u,
      if ctx_open then Some (toExceptionPtr err, n) else None)"

definition udp_write :: "bool \<Rightarrow> error_code \<Rightarrow> nat \<Rightarrow> 'ip udp_socket \<Rightarrow> ('ip \<times> nat) \<times> (error_code option \<times> nat) option" where
  "udp_write ctx_open err n u = (m_endpoint u, if ctx_open then Some (toExceptionPtr err, n) else None)"

definition udp_sendTo :: "(string \<Rightarrow> 'ip option) \<Rightarrow> udp_endpoint \<Rightarrow> error_code \<Rightarrow> nat \<Rightarrow>
    (('ip \<times> nat) \<times> (error_code option + nat)) option" where
  "udp_sendTo from_string ep err n = map_option (\<lambda>dest.
     (dest, if err_value err \<noteq> 0 then Inl (toExceptionPtr err) else Inr n)) (fromEndpoint from_string ep)"

datatype 'ip udp_event = UdpRead bool error_code nat "'ip \<times> nat" | UdpWrite bool error_code nat

text \<open>The destinations of the writes of a run.\<close>

fun udp_run :: "'ip udp_event list \<Rightarrow> 'ip udp_socket \<Rightarrow> ('ip \<times> nat) list" where
  "udp_run [] u = []"
| "udp_run (UdpRead b err n sender # es) u = udp_run es (fst (udp_read b err n sender u))"
| "udp_run (UdpWrite b err n # es) u = fst (udp_write b err n u) # udp_run es u"

definition senders :: "'ip udp_event list \<Rightarrow> ('ip \<times> nat) list" where
  "senders es = concat (map (\<lambda>e. case e of UdpRead b err n sender \<Rightarrow> (if err_value err = 0 then [sender] else []) | _ \<Rightarrow> []) es)"

text \<open>A write goes to the sender of the last datagram before it, or to the peer when there was none.\<close>

theorem udp_write_replies:
  "udp_run (es @ [UdpWrite b err n]) u = udp_run es u @ [last (m_endpoint u # senders es)]"
proof (induction es arbitrary: u)
  case (Cons e es)
  then show ?case by (cases e) (simp_all add: senders_def udp_read_def udp_write_def)
qed (simp add: senders_def udp_write_def)

text \<open>A socket for many peers starts with its peer, so that a write to all reaches it.\<close>

lemma udp_multi_start:
  assumes "udp_multi_make to_string from_string any params = Some u" and "peerAddress params = Some p"
    and "from_string (ep_address p) = Some ip" and "ep_port p \<noteq> 0"
  shows "m_peers u = [\<lparr>ep_address = to_string ip, ep_port = ep_port p\<rparr>]"
  using assms by (auto simp: udp_multi_make_def udp_socket_make_def udp_setOptions_def fromEndpoint_def or_else_def
      split: option.splits prod.splits if_splits)

end
