(* ===== verification/Executors.thy ===== *)
theory Executors
  imports Prelude
begin

text \<open>
  The executors on threads (lib/async/thread-pool-executor.cpp, thread-executor.cpp,
  io-context-executor.cpp), the choice and the ownership of an executor by makeStrand
  (async/detail/make-strand.h), and the executors of a tree of AOContexts. asio and the threads
  themselves are not modelled: what is handed to asio is recorded.
\<close>

section \<open>exec\<close>

datatype exec_mode = AddInQueue | ImmediatelyIfPossible
datatype 'w asio_call = Post 'w | Dispatch 'w

definition pool_exec :: "exec_mode \<Rightarrow> 'w \<Rightarrow> 'w asio_call" where
  "pool_exec mode work = (if mode = AddInQueue then Post work else Dispatch work)"

definition thread_exec :: "exec_mode \<Rightarrow> 'w \<Rightarrow> 'w asio_call" where
  "thread_exec mode work = (if mode = AddInQueue then Post work else Dispatch work)"

definition io_exec :: "exec_mode \<Rightarrow> 'w \<Rightarrow> 'w asio_call" where
  "io_exec mode work = (if mode = AddInQueue then Post work else Dispatch work)"

section \<open>A pool of threads\<close>

text \<open>
  What a pool does to the threads and the io_context. Creating a thread may throw; that its work
  ends once the io_context is stopped is asio's.
\<close>

datatype pool_event = ThreadStarted nat | IoStopped | ThreadJoined nat

definition pool_stop :: "nat list \<Rightarrow> pool_event list" where
  "pool_stop threads = IoStopped # map ThreadJoined threads"

text \<open>The loop of the constructor at i with n threads to go: its events, and the threads or the exception.\<close>

fun pool_loop :: "(nat \<Rightarrow> 'e option) \<Rightarrow> nat \<Rightarrow> nat \<Rightarrow> nat list \<Rightarrow> pool_event list \<times> ('e + nat list)" where
  "pool_loop throws i 0 threads = ([], Inr threads)"
| "pool_loop throws i (Suc n) threads = (case throws i of
     Some e \<Rightarrow> (pool_stop threads, Inl e)
   | None \<Rightarrow> (let (evs, res) = pool_loop throws (i + 1) n (threads @ [i]) in (ThreadStarted i # evs, res)))"

definition pool_make :: "(nat \<Rightarrow> 'e option) \<Rightarrow> nat \<Rightarrow> pool_event list \<times> ('e + nat list)" where
  "pool_make throws threadCount = pool_loop throws 0 threadCount []"

definition pool_destroy :: "nat list \<Rightarrow> pool_event list" where
  "pool_destroy threads = pool_stop threads"

text \<open>Everything that happens to a pool: it is made, and destroyed if that succeeded.\<close>

definition pool_life :: "(nat \<Rightarrow> 'e option) \<Rightarrow> nat \<Rightarrow> pool_event list" where
  "pool_life throws threadCount = (case pool_make throws threadCount of
     (evs, Inl e) \<Rightarrow> evs | (evs, Inr threads) \<Rightarrow> evs @ pool_destroy threads)"

lemma pool_loop_events:
  "\<exists>m\<ge>i. case pool_loop throws i n threads of
     (evs, Inl e) \<Rightarrow> evs = map ThreadStarted [i..<m] @ pool_stop (threads @ [i..<m]) \<and> m < i + n \<and> throws m = Some e
   | (evs, Inr ts) \<Rightarrow> evs = map ThreadStarted [i..<m] \<and> ts = threads @ [i..<m] \<and> m = i + n"
proof (induction n arbitrary: i threads)
  case (Suc n)
  show ?case
  proof (cases "throws i")
    case None
    obtain evs res where r: "pool_loop throws (Suc i) n (threads @ [i]) = (evs, res)" by fastforce
    obtain m where m: "Suc i \<le> m" "case (evs, res) of
       (evs, Inl e) \<Rightarrow> evs = map ThreadStarted [Suc i..<m] @ pool_stop ((threads @ [i]) @ [Suc i..<m]) \<and>
         m < Suc i + n \<and> throws m = Some e
     | (evs, Inr ts) \<Rightarrow> evs = map ThreadStarted [Suc i..<m] \<and> ts = (threads @ [i]) @ [Suc i..<m] \<and> m = Suc i + n"
      using Suc.IH[of "Suc i" "threads @ [i]"] unfolding r by blast
    have "[i..<m] = i # [Suc i..<m]" using m(1) by (simp add: upt_conv_Cons)
    then show ?thesis using m r None by (intro exI[of _ m]) (cases res; simp)
  qed (auto intro: exI[of _ i])
qed auto

text \<open>
  no thread of a pool is left running or joined twice: whether its constructor fails at some
  thread or the pool is destroyed, the io_context is stopped and then each thread that was started
  is joined, in that order.
\<close>

theorem pool_joins_threads:
  "\<exists>k\<le>threadCount. pool_life throws threadCount =
     map ThreadStarted [0..<k] @ IoStopped # map ThreadJoined [0..<k] \<and>
   (k < threadCount \<longrightarrow> throws k \<noteq> None)"
proof -
  obtain evs res where r: "pool_make throws threadCount = (evs, res)" by fastforce
  obtain k where "case (evs, res) of
     (evs, Inl e) \<Rightarrow> evs = map ThreadStarted [0..<k] @ pool_stop ([] @ [0..<k]) \<and> k < 0 + threadCount \<and> throws k = Some e
   | (evs, Inr ts) \<Rightarrow> evs = map ThreadStarted [0..<k] \<and> ts = [] @ [0..<k] \<and> k = 0 + threadCount"
    using pool_loop_events[where throws = throws and i = 0 and n = threadCount and threads = "[]"] r
    unfolding pool_make_def by auto
  then show ?thesis using r
    by (intro exI[of _ k]) (cases res; simp add: pool_make_def pool_life_def pool_destroy_def pool_stop_def)
qed

section \<open>makeStrand\<close>

text \<open>
  An executor of the user, a SequenceExecutor or not, or the StrandExecutor that was made for a
  context. The holder says whether it deletes its executor.
\<close>

datatype executor = UserSequence nat | UserParallel nat | StrandOf nat
datatype own_mode = HolderOwns | HolderNotOwns

definition is_sequence :: "executor \<Rightarrow> bool" where
  "is_sequence e = (case e of UserParallel i \<Rightarrow> False | _ \<Rightarrow> True)"

definition makeStrand :: "nat \<Rightarrow> executor \<Rightarrow> executor \<times> own_mode" where
  "makeStrand me e = (if is_sequence e then (e, HolderNotOwns) else (StrandOf me, HolderOwns))"

definition deleter :: "executor \<times> own_mode \<Rightarrow> executor list" where
  "deleter h = (if snd h = HolderOwns then [fst h] else [])"

section \<open>The executors of a tree of contexts\<close>

record impl =
  m_groupId :: nat
  m_executorHolder :: "executor \<times> own_mode"
  m_parent :: "nat option"
  impl_open :: bool
  impl_alive :: bool

text \<open>Contexts are numbered in the order they are made; a number is also the address of the context.\<close>

definition makeRoot :: "executor \<Rightarrow> impl list \<Rightarrow> impl list" where
  "makeRoot e st = st @ [\<lparr>m_groupId = length st, m_executorHolder = makeStrand (length st) e, m_parent = None,
     impl_open = True, impl_alive = True\<rparr>]"

definition executor_of :: "impl list \<Rightarrow> nat \<Rightarrow> executor" where
  "executor_of st c = fst (m_executorHolder (st ! c))"

text \<open>A child is refused on a closed parent.\<close>

definition makeChild :: "nat \<Rightarrow> impl list \<Rightarrow> impl list option" where
  "makeChild p st = (if \<not> impl_open (st ! p) then None
     else Some (st @ [\<lparr>m_groupId = m_groupId (st ! p), m_executorHolder = makeStrand (length st) (executor_of st p),
       m_parent = Some p, impl_open = True, impl_alive = True\<rparr>]))"

text \<open>
  close closes the context and all that descend from it (ContextTree); a context is freed with the
  last reference to it, which the AOContext object, that closes it first, and its AOContextRefs
  have. A parent does not live on for its children. Freeing a context runs the deleter of its holder.
\<close>

inductive descends :: "impl list \<Rightarrow> nat \<Rightarrow> nat \<Rightarrow> bool" for st c where
  descends_self: "descends st c c"
| descends_child: "descends st c p \<Longrightarrow> d < length st \<Longrightarrow> m_parent (st ! d) = Some p \<Longrightarrow> descends st c d"

inductive impl_step :: "impl list \<Rightarrow> impl list \<Rightarrow> bool" where
  impl_root: "e = UserSequence i \<or> e = UserParallel i \<Longrightarrow> impl_step st (makeRoot e st)"
| impl_child: "p < length st \<Longrightarrow> impl_alive (st ! p) \<Longrightarrow> makeChild p st = Some st' \<Longrightarrow> impl_step st st'"
| impl_close: "c < length st \<Longrightarrow> length st' = length st \<Longrightarrow>
    (\<And>d. d < length st \<Longrightarrow> st' ! d = (st ! d)\<lparr>impl_open := impl_open (st ! d) \<and> \<not> descends st c d\<rparr>) \<Longrightarrow> impl_step st st'"
| impl_free: "c < length st \<Longrightarrow> \<not> impl_open (st ! c) \<Longrightarrow> impl_step st (st[c := (st ! c)\<lparr>impl_alive := False\<rparr>])"

inductive impl_reachable :: "impl list \<Rightarrow> bool" where
  impl_reach_empty: "impl_reachable []"
| impl_reach_step: "impl_reachable st \<Longrightarrow> impl_step st st' \<Longrightarrow> impl_reachable st'"

definition deleted :: "impl list \<Rightarrow> executor set" where
  "deleted st = {e. \<exists>c < length st. \<not> impl_alive (st ! c) \<and> e \<in> set (deleter (m_executorHolder (st ! c)))}"

definition impl_ok :: "impl list \<Rightarrow> nat \<Rightarrow> bool" where
  "impl_ok st c \<longleftrightarrow> (impl_open (st ! c) \<longrightarrow> impl_alive (st ! c)) \<and> is_sequence (executor_of st c) \<and>
     (case m_parent (st ! c) of
        None \<Rightarrow> m_groupId (st ! c) = c \<and> (\<forall>o'. executor_of st c = StrandOf o' \<longrightarrow> o' = c) \<and>
          (snd (m_executorHolder (st ! c)) = HolderOwns \<longrightarrow> executor_of st c = StrandOf c)
      | Some p \<Rightarrow> p < c \<and> m_groupId (st ! c) = m_groupId (st ! p) \<and> executor_of st c = executor_of st p \<and>
          snd (m_executorHolder (st ! c)) = HolderNotOwns \<and> (impl_open (st ! c) \<longrightarrow> impl_open (st ! p)))"

definition impl_inv :: "impl list \<Rightarrow> bool" where
  "impl_inv st \<longleftrightarrow> (\<forall>c < length st. impl_ok st c)"

lemma impl_ok_append: "impl_inv st \<Longrightarrow> c < length st \<Longrightarrow> impl_ok (st @ [x]) c"
  by (auto simp: impl_inv_def impl_ok_def executor_of_def nth_append split: option.splits)

lemma impl_ok_root:
  assumes "e = UserSequence i \<or> e = UserParallel i"
  shows "impl_ok (makeRoot e st) (length st)"
  using assms by (auto simp: impl_ok_def makeRoot_def executor_of_def makeStrand_def is_sequence_def)

lemma impl_ok_child:
  assumes "impl_inv st" and "p < length st" and "makeChild p st = Some st'"
  shows "\<exists>x. st' = st @ [x] \<and> impl_ok st' (length st)"
proof -
  have "is_sequence (executor_of st p)" using assms(1,2) by (simp add: impl_inv_def impl_ok_def)
  then show ?thesis using assms(2,3)
    by (auto simp: makeChild_def impl_ok_def executor_of_def makeStrand_def nth_append split: if_splits)
qed

text \<open>A change that leaves executors and parents alone and closes children with their parents.\<close>

lemma impl_ok_change:
  assumes "impl_inv st" and d: "d < length st" and len: "length st' = length st"
    and same: "\<And>c. c < length st \<Longrightarrow> m_groupId (st' ! c) = m_groupId (st ! c) \<and> m_parent (st' ! c) = m_parent (st ! c) \<and>
      m_executorHolder (st' ! c) = m_executorHolder (st ! c)"
    and lives: "impl_open (st' ! d) \<Longrightarrow> impl_open (st ! d) \<and> impl_alive (st' ! d)"
    and closes: "\<And>p. m_parent (st ! d) = Some p \<Longrightarrow> p < length st \<Longrightarrow> impl_open (st' ! d) \<Longrightarrow> impl_open (st ! p) \<Longrightarrow> impl_open (st' ! p)"
  shows "impl_ok st' d"
proof -
  have ok: "impl_ok st d" using assms(1) d by (simp add: impl_inv_def)
  show ?thesis
  proof (cases "m_parent (st ! d)")
    case None
    then show ?thesis using ok same[OF d] lives by (auto simp: impl_ok_def executor_of_def)
  next
    case (Some p)
    then have p: "p < length st" using ok d by (auto simp: impl_ok_def)
    show ?thesis using ok same[OF d] same[OF p] lives closes[OF Some p] Some by (auto simp: impl_ok_def executor_of_def)
  qed
qed

lemma impl_inv_step:
  assumes inv: "impl_inv st" and "impl_step st st'"
  shows "impl_inv st'"
  using assms(2)
proof cases
  case (impl_root e i)
  have "impl_ok (makeRoot e st) c" if "c < length st" for c
    unfolding makeRoot_def by (rule impl_ok_append[OF inv that])
  then show ?thesis using impl_root(1) impl_ok_root[OF impl_root(2), of st]
    by (auto simp: impl_inv_def makeRoot_def less_Suc_eq)
next
  case (impl_child p)
  obtain x where x: "st' = st @ [x]" "impl_ok st' (length st)" using impl_ok_child[OF inv impl_child(1,3)] by blast
  have "impl_ok st' c" if "c < length st" for c unfolding x(1) by (rule impl_ok_append[OF inv that])
  then show ?thesis using x by (auto simp: impl_inv_def less_Suc_eq)
next
  case (impl_close c)
  have "impl_ok st' d" if d: "d < length st" for d
    by (rule impl_ok_change[OF inv d impl_close(2)])
      (use impl_close(3) inv d in \<open>auto simp: impl_inv_def impl_ok_def intro: descends_child\<close>)
  then show ?thesis using impl_close by (simp add: impl_inv_def)
next
  case (impl_free c)
  have "impl_ok st' d" if d: "d < length st" for d
    by (rule impl_ok_change[OF inv d])
      (use impl_free inv d in \<open>auto simp: impl_inv_def impl_ok_def nth_list_update\<close>)
  then show ?thesis using impl_free by (simp add: impl_inv_def)
qed

lemma impl_reachable_inv: "impl_reachable st \<Longrightarrow> impl_inv st"
  by (induction rule: impl_reachable.induct) (auto simp: impl_inv_def[of "[]"] intro: impl_inv_step)

lemma open_group:
  assumes "impl_inv st" and "c < length st"
  shows "m_groupId (st ! c) \<le> c \<and> executor_of st c = executor_of st (m_groupId (st ! c)) \<and>
    m_parent (st ! m_groupId (st ! c)) = None \<and> (impl_open (st ! c) \<longrightarrow> impl_open (st ! m_groupId (st ! c)))"
  using assms(2)
proof (induction c rule: less_induct)
  case (less c)
  then have ok: "impl_ok st c" using assms(1) by (simp add: impl_inv_def)
  show ?case
  proof (cases "m_parent (st ! c)")
    case None
    then show ?thesis using ok by (simp add: impl_ok_def)
  next
    case (Some p)
    then have "p < c" using ok by (simp add: impl_ok_def)
    then show ?thesis using less.IH[of p] less.prems ok Some by (auto simp: impl_ok_def)
  qed
qed

text \<open>
  The contexts of one group run on one executor that runs its works one at a time, and the
  executor of an open context has not been deleted.
\<close>

theorem group_shares_executor:
  assumes "impl_reachable st" and "c < length st" and "d < length st" and "m_groupId (st ! c) = m_groupId (st ! d)"
  shows "executor_of st c = executor_of st d \<and> is_sequence (executor_of st c) \<and>
    (impl_open (st ! c) \<longrightarrow> executor_of st c \<notin> deleted st)"
proof -
  note inv = impl_reachable_inv[OF assms(1)]
  note c = open_group[OF inv assms(2)] and d = open_group[OF inv assms(3)]
  let ?g = "m_groupId (st ! c)"
  have g: "?g < length st" using c assms(2) by linarith
  have "executor_of st c \<notin> deleted st" if o: "impl_open (st ! c)"
  proof
    assume "executor_of st c \<in> deleted st"
    then obtain x where x: "x < length st" "\<not> impl_alive (st ! x)" "executor_of st c \<in> set (deleter (m_executorHolder (st ! x)))"
      by (auto simp: deleted_def)
    then have ox: "snd (m_executorHolder (st ! x)) = HolderOwns" "executor_of st x = executor_of st c"
      by (auto simp: deleter_def executor_of_def split: if_splits)
    have "impl_ok st x" using inv x(1) by (simp add: impl_inv_def)
    then have "executor_of st x = StrandOf x" using ox(1) by (auto simp: impl_ok_def split: option.splits)
    then have "executor_of st ?g = StrandOf x" using ox(2) c by simp
    then have "x = ?g" using inv g c by (auto simp: impl_inv_def impl_ok_def)
    then have "impl_alive (st ! x)" using c o inv g by (auto simp: impl_inv_def impl_ok_def)
    then show False using x(2) by simp
  qed
  moreover have "is_sequence (executor_of st c)" using inv assms(2) by (simp add: impl_inv_def impl_ok_def)
  ultimately show ?thesis using c d assms(4) by simp
qed

theorem group_shares_executor_witness:
  "executor_of (makeRoot (UserParallel 5) []) 0 = StrandOf 0 \<and> StrandOf 0 \<notin> deleted (makeRoot (UserParallel 5) [])"
proof -
  have r: "impl_reachable (makeRoot (UserParallel 5) [])" by (rule impl_reach_step[OF impl_reach_empty impl_root]) simp
  have s: "makeRoot (UserParallel 5) [] = [\<lparr>m_groupId = 0, m_executorHolder = (StrandOf 0, HolderOwns), m_parent = None,
      impl_open = True, impl_alive = True\<rparr>]"
    by (simp add: makeRoot_def makeStrand_def is_sequence_def)
  from group_shares_executor[OF r, of 0 0] show ?thesis by (simp add: s executor_of_def)
qed

text \<open>
  But a child that was closed together with its parent keeps a holder of the strand that the
  parent's end deletes: executor() of the child then refers to a deleted object.
\<close>

theorem closed_child_executor_deleted:
  "\<exists>st. impl_reachable st \<and> impl_alive (st ! 1) \<and> executor_of st 1 \<in> deleted st"
proof -
  let ?i = "\<lambda>par own o' a. \<lparr>m_groupId = 0, m_executorHolder = (StrandOf 0, own), m_parent = par, impl_open = o', impl_alive = a\<rparr>"
  let ?st = "\<lambda>o' a. [?i None HolderOwns o' a, ?i (Some 0) HolderNotOwns o' True]"
  have r1: "impl_reachable [?i None HolderOwns True True]"
    using impl_reach_step[OF impl_reach_empty impl_root[of "UserParallel 0" 0]]
    by (simp add: makeRoot_def makeStrand_def is_sequence_def)
  have "makeChild 0 [?i None HolderOwns True True] = Some (?st True True)"
    by (simp add: makeChild_def makeStrand_def executor_of_def is_sequence_def)
  from impl_reach_step[OF r1 impl_child[OF _ _ this]] have r2: "impl_reachable (?st True True)" by simp
  have d: "descends (?st True True) 0 0" "descends (?st True True) 0 1"
    by (auto intro: descends_self descends_child[OF descends_self])
  have "impl_step (?st True True) (?st False True)"
    by (rule impl_close[of 0]) (use d in \<open>auto simp: less_Suc_eq\<close>)
  from impl_reach_step[OF r2 this] have r3: "impl_reachable (?st False True)" .
  from impl_reach_step[OF r3 impl_free[of 0]] have "impl_reachable (?st False False)" by simp
  then show ?thesis by (intro exI[of _ "?st False False"]) (auto simp: deleted_def deleter_def executor_of_def)
qed

end
