(* ===== verification/FutureOnContext.thy ===== *)
theory FutureOnContext
  imports Promise CtxCallback
begin

text \<open>
  The rest of include/nhope/async/future.h: then and fail with an AOContext, which tie the futures
  of Future to the callbacks of CtxCallback, waitFor, makePromise and toThread.
\<close>

section \<open>then and fail on a context\<close>

text \<open>
  What they answer: the callback that has been attached, or the exception. The state is taken out
  of the future before the callback is made, which throws when the context is closed. promise: the
  promise of the state still exists.
\<close>

datatype ctx_chain_error = NoState | AfterWait | CtxIsClosed

definition bind_callback :: "('v, 'e, 'f) fheap \<Rightarrow> bool \<Rightarrow> ctx_phase \<Rightarrow> future \<Rightarrow>
    future \<times> (ctx_chain_error + ('v, 'e) future_result bound)" where
  "bind_callback h promise c fu = (case detachState fu of
     (fu, Inl e) \<Rightarrow> (fu, Inl NoState)
   | (fu, Inr s) \<Rightarrow> (case bound_make c (f_result (f_states h ! s)) promise of
       None \<Rightarrow> (fu, Inl CtxIsClosed)
     | Some b \<Rightarrow> (fu, Inr (set_bound_callback b))))"

definition future_then_ctx :: "('v, 'e, 'f) fheap \<Rightarrow> bool \<Rightarrow> ctx_phase \<Rightarrow> future \<Rightarrow>
    future \<times> (ctx_chain_error + ('v, 'e) future_result bound)" where
  "future_then_ctx h promise c fu =
     (if isWaitFuture fu then (fu, Inl AfterWait) else bind_callback h promise c fu)"

definition future_fail_ctx :: "('v, 'e, 'f) fheap \<Rightarrow> bool \<Rightarrow> ctx_phase \<Rightarrow> future \<Rightarrow>
    future \<times> (ctx_chain_error + ('v, 'e) future_result bound)" where
  "future_fail_ctx h promise c fu =
     (if isWaitFuture fu then (fu, Inl AfterWait) else bind_callback h promise c fu)"

text \<open>
  The callback that then attaches is one of CtxCallback, with all that is proved there: it runs at
  most once and its future is settled. But a then on a closed context takes the state away as well:
  the future is no longer valid, and its result is lost.
\<close>

theorem then_on_context:
  assumes "isValid fu" and "\<not> isWaitFuture fu"
    and "\<And>s. fu_state fu = Some s \<Longrightarrow> f_result (f_states h ! s) = None \<Longrightarrow> promise"
  shows "\<not> isValid (fst (future_then_ctx h promise c fu)) \<and> (case snd (future_then_ctx h promise c fu) of
      Inr b \<Rightarrow> c = CtxOpen \<and> bound_reachable settle cancelled broken b
    | Inl e \<Rightarrow> c \<noteq> CtxOpen \<and> e = CtxIsClosed)"
proof -
  obtain s where s: "fu_state fu = Some s" using assms(1) by (auto simp: isValid_def)
  let ?r = "f_result (f_states h ! s)"
  have reach: "bound_reachable settle cancelled broken (set_bound_callback b)" if "bound_make CtxOpen ?r promise = Some b" for b
  proof (rule bound_more)
    show "bound_reachable settle cancelled broken b" by (rule bound_start[OF that]) (use assms(3) s in blast)
    show "bound_step settle cancelled broken b (Some (set_bound_callback b))"
      by (rule b_attach) (use that in \<open>auto simp: bound_make_def\<close>)
  qed
  show ?thesis
    using s assms(2) reach
    by (cases "c = CtxOpen") (auto simp: future_then_ctx_def bind_callback_def detachState_def bound_make_def isValid_def)
qed

theorem then_on_context_witness:
  "snd (future_then_ctx (\<lparr>f_states = [\<lparr>f_result = Some (Inr (Plain 7)), f_callback = None, f_cancelled = 0\<rparr>],
      f_tokens = [False], f_events = []\<rparr> :: (nat, nat, nat) fheap) False CtxClosed (future_of 0)) = Inl CtxIsClosed"
proof -
  let ?h = "\<lparr>f_states = [\<lparr>f_result = Some (Inr (Plain 7)), f_callback = None, f_cancelled = 0\<rparr>],
    f_tokens = [False], f_events = []\<rparr> :: (nat, nat, nat) fheap"
  have "isValid (future_of 0)" "\<not> isWaitFuture (future_of 0)" "fu_state (future_of 0) = Some 0"
    by (simp_all add: future_of_def isValid_def isWaitFuture_def)
  then show ?thesis
    using then_on_context[of "future_of 0" ?h False CtxClosed "\<lambda>_ r. r" "Inl BrokenPromiseError" "Inl BrokenPromiseError"]
    by (cases "snd (future_then_ctx ?h False CtxClosed (future_of 0))") auto
qed

section \<open>waitFor\<close>

text \<open>in_time: whether an event that is not set yet is set before the time has elapsed.\<close>

definition future_waitFor :: "('f \<Rightarrow> 'v future_value \<Rightarrow> ('v, 'e) future_result) \<Rightarrow>
    ('f \<Rightarrow> 'e future_exn \<Rightarrow> ('v, 'e) future_result) \<Rightarrow> ('v, 'e, 'f) fheap \<Rightarrow> future \<Rightarrow> bool \<Rightarrow>
    (('v, 'e, 'f) fheap \<times> future \<times> (future_error + bool)) option" where
  "future_waitFor run runFail h fu in_time = (case fu_state fu of
     None \<Rightarrow> Some (h, fu, Inl FutureNoStateError)
   | Some s \<Rightarrow> map_option (\<lambda>(h, fu, e). (h, fu, Inr (f_events h ! e \<or> in_time)))
       (makeWaitFuture run runFail h fu s))"

lemma makeWaitFuture_ready:
  assumes "s < length (f_states h)" and "f_result (f_states h ! s) = Some r" and "f_callback (f_states h ! s) = None"
  shows "\<exists>h'. makeWaitFuture run runFail h (future_of s) s = Some (h', \<lparr>fu_state = Some s, fu_event = Some (length (f_events h))\<rparr>,
    length (f_events h)) \<and> f_events h' ! length (f_events h) \<and> f_result (f_states h' ! s) = Some r"
  using assms by (simp add: makeWaitFuture_def future_of_def exec_SetCallback Let_def with_state_def)

text \<open>A wait for a result that is there does not wait, and leaves the future valid.\<close>

lemma waitFor_ready:
  assumes "s < length (f_states h)" and "f_result (f_states h ! s) = Some r" and "f_callback (f_states h ! s) = None"
  shows "\<exists>h' fu. future_waitFor run runFail h (future_of s) in_time = Some (h', fu, Inr True) \<and> isValid fu \<and> isWaitFuture fu"
  using makeWaitFuture_ready[OF assms, of run runFail]
  by (auto simp: future_waitFor_def future_of_def isValid_def isWaitFuture_def)

section \<open>makePromise and toThread\<close>

definition makePromise :: "('v, 'e, 'f) fheap \<Rightarrow> (('v, 'e, 'f) fheap \<times> promise \<times> future) option" where
  "makePromise h = (let (h, p) = promise_make h in
     case promise_future p of Some (p, Inr fu) \<Rightarrow> Some (h, p, fu) | _ \<Rightarrow> None)"

text \<open>
  toThread: the future is answered at once; the new thread runs the function, whose outcome is fn,
  and settles the promise that was moved to it, and destroys it.
\<close>

definition toThread_begin :: "('v, 'e, 'f) fheap \<Rightarrow> (('v, 'e, 'f) fheap \<times> promise \<times> future) option" where
  "toThread_begin h = (let (h, promise) = promise_make h in case promise_future promise of
     Some (promise, Inr fu) \<Rightarrow> Some (h, fst (promise_move promise), fu) | _ \<Rightarrow> None)"

definition toThread_work :: "('f \<Rightarrow> 'v future_value \<Rightarrow> ('v, 'e) future_result) \<Rightarrow>
    ('f \<Rightarrow> 'e future_exn \<Rightarrow> ('v, 'e) future_result) \<Rightarrow> 'e + 'v \<Rightarrow> promise \<Rightarrow> ('v, 'e, 'f) fheap \<Rightarrow>
    ('v, 'e, 'f) fheap option" where
  "toThread_work run runFail fn promise h =
     Option.bind (case fn of
         Inr v \<Rightarrow> promise_set run runFail h promise (Inr (Plain v))
       | Inl e \<Rightarrow> promise_set run runFail h promise (Inl (UserError e)))
       (\<lambda>(h, promise, _). promise_destroy run runFail h promise)"

text \<open>
  Whatever the program did with the states before and between, and provided that nothing settled
  the promise's own state: the future of toThread gets the outcome of the function, value or
  exception, and nothing else.
\<close>

theorem toThread_settles:
  assumes "toThread_begin h = Some (h1, promise, fu)"
    and "length (f_states h) < length (f_states h2)" and "f_result (f_states h2 ! length (f_states h)) = None"
    and "f_callback (f_states h2 ! length (f_states h)) = None"
  shows "\<exists>h3. toThread_work run runFail fn promise h2 = Some h3 \<and> fu = future_of (length (f_states h)) \<and>
    f_result (f_states h3 ! length (f_states h)) = Some (map_sum UserError Plain fn)"
proof -
  have p: "promise = \<lparr>p_state = Some (length (f_states h)), m_satisfiedFlag = False, m_retrievedFlag = True\<rparr>"
    "fu = future_of (length (f_states h))"
    using assms(1) by (auto simp: toThread_begin_def promise_make_def new_promise_state_def new_state_def
        promise_future_def promise_move_def)
  then show ?thesis using exec_quiet[OF assms(2-4)] assms(2)
    by (cases fn) (simp_all add: toThread_work_def promise_set_def promise_destroy_def with_state_def)
qed

theorem toThread_settles_witness:
  "\<exists>h1 h3 promise fu. toThread_begin (\<lparr>f_states = [], f_tokens = [], f_events = []\<rparr> :: (nat, nat, nat) fheap) =
      Some (h1, promise, fu) \<and>
    toThread_work (\<lambda>f v. Inr v) (\<lambda>f e. Inl e) (Inl 3) promise h1 = Some h3 \<and>
    f_result (f_states h3 ! 0) = Some (Inl (UserError 3))"
proof -
  let ?h = "\<lparr>f_states = [], f_tokens = [], f_events = []\<rparr> :: (nat, nat, nat) fheap"
  obtain h1 p fu where b: "toThread_begin ?h = Some (h1, p, fu)"
      "f_states h1 = [\<lparr>f_result = None, f_callback = None, f_cancelled = 0\<rparr>]"
    by (simp add: toThread_begin_def promise_make_def new_promise_state_def new_state_def promise_future_def)
  from toThread_settles[OF b(1), of h1 "\<lambda>f v. Inr v" "\<lambda>f e. Inl e" "Inl 3"] b show ?thesis by auto
qed

end
