(* ===== verification/IoCancel.thy ===== *)
theory IoCancel
  imports IoDevice
begin

text \<open>
  The lives of ReadOp, WriteOp and CopyOp of lib/io/io-device.cpp. An operation is owned by the handler
  that it has given to the device; a device that drops the handler without calling it destroys the
  operation, whose destructor then answers the promise with AsyncOperationWasCancelled. A device is
  here the list of its answers, after which it drops the handler.
\<close>

datatype 'e op_error = DeviceFailed 'e | OpCancelled

text \<open>The destructor, on the promise of the operation.\<close>

definition op_destroy :: "('e op_error + 'a) option \<Rightarrow> 'e op_error + 'a" where
  "op_destroy m_promise = (case m_promise of None \<Rightarrow> Inl OpCancelled | Some r \<Rightarrow> r)"

fun readOp_life :: "('s \<Rightarrow> u8 list \<Rightarrow> ('s \<times> nat) option) \<Rightarrow> ('e + u8 list) list \<Rightarrow> 's \<Rightarrow> u8 list \<Rightarrow>
    ('e op_error + u8 list) option" where
  "readOp_life h [] s m_buf = (case h s m_buf of
     None \<Rightarrow> None
   | Some (s, m_portionSize) \<Rightarrow> Some (op_destroy (if m_portionSize = 0 then Some (Inr m_buf) else None)))"
| "readOp_life h (a # as) s m_buf = (case h s m_buf of
     None \<Rightarrow> None
   | Some (s, m_portionSize) \<Rightarrow>
       (if m_portionSize = 0 then Some (op_destroy (Some (Inr m_buf)))
        else case a of
          Inl err \<Rightarrow> Some (op_destroy (Some (Inl (DeviceFailed err))))
        | Inr bs \<Rightarrow>
            (if m_portionSize < length bs then None
             else if bs = [] then Some (op_destroy (Some (Inr m_buf)))
             else readOp_life h as s (m_buf @ bs))))"

fun writeOp_life :: "bool \<Rightarrow> ('e + nat) list \<Rightarrow> u8 list \<Rightarrow> nat \<Rightarrow> ('e op_error + nat) option" where
  "writeOp_life m_writeAll [] m_data m_written =
     (if length m_data < m_written then None else Some (op_destroy None))"
| "writeOp_life m_writeAll (a # as) m_data m_written =
     (if length m_data < m_written then None
      else case a of
        Inl err \<Rightarrow> Some (op_destroy (Some (Inl (DeviceFailed err))))
      | Inr n \<Rightarrow>
          (if m_written + n < length m_data \<and> m_writeAll
           then writeOp_life m_writeAll as m_data (m_written + n)
           else Some (op_destroy (Some (Inr (m_written + n))))))"

text \<open>
  CopyOp: writePortion answers the new counter, or the error that the promise was set to, which is
  None when the destination dropped the handler.
\<close>

fun portion_life :: "('e + nat) list \<Rightarrow> u8 list \<Rightarrow> nat \<Rightarrow> nat \<Rightarrow> nat \<Rightarrow>
    (('e + nat) list \<times> ('e op_error option + nat)) option" where
  "portion_life [] m_buf offset psize m_byteCounter =
     (if length m_buf < offset + psize then None else Some ([], Inl None))"
| "portion_life (a # as) m_buf offset psize m_byteCounter =
     (if length m_buf < offset + psize then None
      else case a of
        Inl err \<Rightarrow> Some (as, Inl (Some (DeviceFailed err)))
      | Inr count \<Rightarrow>
          (if psize < count then None
           else if psize = count then Some (as, Inr (m_byteCounter + count))
           else portion_life as m_buf (offset + count) (psize - count) (m_byteCounter + count)))"

fun copyOp_life :: "('e + u8 list) list \<Rightarrow> ('e + nat) list \<Rightarrow> nat \<Rightarrow> ('e op_error + nat) option" where
  "copyOp_life [] ws m_byteCounter = Some (op_destroy None)"
| "copyOp_life (a # as) ws m_byteCounter = (case a of
     Inl err \<Rightarrow> Some (op_destroy (Some (Inl (DeviceFailed err))))
   | Inr bs \<Rightarrow>
       (if bs = [] then Some (op_destroy (Some (Inr m_byteCounter)))
        else case portion_life ws bs 0 (length bs) m_byteCounter of
          None \<Rightarrow> None
        | Some (ws, Inl err) \<Rightarrow> Some (op_destroy (map_option Inl err))
        | Some (ws, Inr n) \<Rightarrow> copyOp_life as ws n))"

section \<open>Dropping a handler is answering it with AsyncOperationWasCancelled\<close>

text \<open>The device as a reader and as a writer in the sense of IoDevice.\<close>

definition script_read :: "('e + u8 list) list \<Rightarrow> nat \<Rightarrow> ('e + u8 list) list \<times> ('e op_error + u8 list)" where
  "script_read as n = (case as of [] \<Rightarrow> ([], Inl OpCancelled) | a # as \<Rightarrow> (as, map_sum DeviceFailed id a))"

definition script_write :: "('e + nat) list \<Rightarrow> u8 list \<Rightarrow> ('e + nat) list \<times> ('e op_error + nat)" where
  "script_write as data = (case as of [] \<Rightarrow> ([], Inl OpCancelled) | a # as \<Rightarrow> (as, map_sum DeviceFailed id a))"

lemma script_simps [simp]:
  "script_read [] k = ([], Inl OpCancelled)" "script_read (a # as) k = (as, map_sum DeviceFailed id a)"
  "script_write [] data = ([], Inl OpCancelled)" "script_write (b # bs) data = (bs, map_sum DeviceFailed id b)"
  by (simp_all add: script_read_def script_write_def)

theorem readOp_life_refines:
  "readOp_life h as s buf = map_option snd (readOp script_read h as s buf)"
proof (induction as arbitrary: s buf)
  case Nil
  show ?case by (subst readOp.simps) (simp add: op_destroy_def split: option.splits)
next
  case (Cons a as)
  show ?case by (subst readOp.simps) (simp add: op_destroy_def Cons.IH split: option.splits sum.splits)
qed

theorem writeOp_life_refines:
  "writeOp_life all as data n = map_option snd (writeOp script_write all as data n)"
proof (induction as arbitrary: n)
  case Nil
  show ?case by (subst writeOp.simps) (simp add: op_destroy_def)
next
  case (Cons a as)
  show ?case using Cons.IH by (subst writeOp.simps; cases a; cases all) (auto simp: op_destroy_def)
qed

lemma portion_life_refines:
  "writePortion script_write buf ws offset k n = map_option (\<lambda>(ws, r). (ws, case r of
     Inl err \<Rightarrow> Inl (case err of None \<Rightarrow> OpCancelled | Some e \<Rightarrow> e) | Inr m \<Rightarrow> Inr m)) (portion_life ws buf offset k n)"
proof (induction ws arbitrary: offset k n)
  case Nil
  show ?case by (subst writePortion.simps) simp
next
  case (Cons a ws)
  show ?case by (subst writePortion.simps) (simp add: Cons.IH split: sum.splits)
qed

theorem copyOp_life_refines:
  "copyOp_life as ws n = map_option (\<lambda>(r, w, res). res) (copyOp script_read script_write as ws n)"
proof (induction as arbitrary: ws n)
  case Nil
  show ?case by (subst copyOp.simps) (simp add: op_destroy_def)
next
  case (Cons a as)
  show ?case by (subst copyOp.simps)
      (simp add: op_destroy_def Cons.IH portion_life_refines split: option.splits sum.splits prod.splits)
qed

text \<open>
  readAll over a device that drops it: whatever it has read, the promise is answered with the
  cancellation, never left open; and writeExactly likewise while something is left to write.
\<close>

lemma readAll_dropped:
  assumes "\<And>bs. bs \<in> set bss \<Longrightarrow> bs \<noteq> [] \<and> length bs \<le> 4 * 1024"
  shows "readOp_life (\<lambda>_ _. Some ((), 4 * 1024)) (map Inr bss) () buf = Some (Inl OpCancelled)"
  using assms by (induction bss arbitrary: buf) (simp_all add: op_destroy_def not_less)

lemma writeExactly_dropped:
  assumes "n + sum_list ks < length data"
  shows "writeOp_life True (map Inr ks) data n = Some (Inl OpCancelled)"
  using assms by (induction ks arbitrary: n) (simp_all add: op_destroy_def)

end
