(* ===== verification/FutureTypes.thy ===== *)
theory FutureTypes
  imports FutureChain
begin

text \<open>
  The types of futures (include/nhope/async/detail/future-state.h, future.h) and what they promise:
  the type-level functions UnwrapFuture, isFuture and NextFuture, the static assertions of then and
  fail, and the typing of the states of Future, which every operation keeps. The depth that
  the operations of Future take is the one these types give.
\<close>

section \<open>Types\<close>

text \<open>A value type of the program, or Future<T>; void is a value type with one value.\<close>

datatype 'b cty = Ty 'b | FutureTy "'b cty"

fun UnwrapFuture :: "'b cty \<Rightarrow> 'b cty" where
  "UnwrapFuture (FutureTy T) = UnwrapFuture T"
| "UnwrapFuture T = FutureTy T"

fun isFuture :: "'b cty \<Rightarrow> bool" where
  "isFuture (FutureTy T) = True"
| "isFuture T = False"

text \<open>The type of a function given to then or fail: what it takes and what it returns.\<close>

type_synonym 'b fn_type = "'b cty \<times> 'b cty"

definition NextFutureState :: "'b fn_type \<Rightarrow> 'b cty" where
  "NextFutureState ft = snd ft"

definition NextFuture :: "'b fn_type \<Rightarrow> 'b cty" where
  "NextFuture ft = FutureTy (NextFutureState ft)"

text \<open>How many futures are wrapped around the value of a Future<T>, and the value's type.\<close>

fun cty_depth :: "'b cty \<Rightarrow> nat" where
  "cty_depth (FutureTy T) = Suc (cty_depth T)"
| "cty_depth (Ty b) = 0"

fun cty_base :: "'b cty \<Rightarrow> 'b" where
  "cty_base (FutureTy T) = cty_base T"
| "cty_base (Ty b) = b"

lemma UnwrapFuture_base: "UnwrapFuture T = FutureTy (Ty (cty_base T))"
  by (induction T) auto

text \<open>The test with which unwrap chooses its branch: is Future<T> the same as UnwrapFuture<T>.\<close>

lemma unwrap_same: "FutureTy T = UnwrapFuture T \<longleftrightarrow> \<not> isFuture T"
  by (cases T) (auto simp: UnwrapFuture_base)

lemma depth_0: "cty_depth T = 0 \<longleftrightarrow> \<not> isFuture T"
  by (cases T) auto

lemma depth_pos: "0 < cty_depth T \<Longrightarrow> \<exists>S. T = FutureTy S"
  by (cases T) auto

section \<open>Typed stores\<close>

text \<open>
  \<Gamma>: the type T of every FutureState<T>; tyv: the type of a plain value; fty: the types of the
  functions.
\<close>

fun value_typed :: "('v \<Rightarrow> 'b) \<Rightarrow> 'b cty list \<Rightarrow> 'b cty \<Rightarrow> 'v future_value \<Rightarrow> bool" where
  "value_typed tyv \<Gamma> (Ty b) (Plain v) \<longleftrightarrow> tyv v = b"
| "value_typed tyv \<Gamma> (FutureTy T) (FutureOf k) \<longleftrightarrow> k < length \<Gamma> \<and> \<Gamma> ! k = T"
| "value_typed tyv \<Gamma> _ _ \<longleftrightarrow> False"

definition result_typed :: "('v \<Rightarrow> 'b) \<Rightarrow> 'b cty list \<Rightarrow> 'b cty \<Rightarrow> ('v, 'e) future_result \<Rightarrow> bool" where
  "result_typed tyv \<Gamma> T r \<longleftrightarrow> (case r of Inl e \<Rightarrow> True | Inr v \<Rightarrow> value_typed tyv \<Gamma> T v)"

lemma result_typed_simps [simp]:
  "result_typed tyv \<Gamma> T (Inl e)" "result_typed tyv \<Gamma> T (Inr v) = value_typed tyv \<Gamma> T v"
  by (simp_all add: result_typed_def)

text \<open>
  A function of its type: the values it returns have its result type; a future it returns is one of
  those it captured (caps).
\<close>

definition fn_typed :: "('f \<Rightarrow> 'v future_value \<Rightarrow> ('v, 'e) future_result) \<Rightarrow>
    ('f \<Rightarrow> 'e future_exn \<Rightarrow> ('v, 'e) future_result) \<Rightarrow> ('f \<Rightarrow> 'b fn_type) \<Rightarrow> ('f \<Rightarrow> nat list) \<Rightarrow>
    ('v \<Rightarrow> 'b) \<Rightarrow> bool" where
  "fn_typed run runFail fty caps tyv \<longleftrightarrow> (\<forall>f r v. (\<exists>x. r = run f x) \<or> (\<exists>e. r = runFail f e) \<longrightarrow> r = Inr v \<longrightarrow>
     (case v of Plain x \<Rightarrow> snd (fty f) = Ty (tyv x) | FutureOf k \<Rightarrow> k \<in> set (caps f) \<and> isFuture (snd (fty f))))"

definition caps_typed :: "('f \<Rightarrow> 'b fn_type) \<Rightarrow> ('f \<Rightarrow> nat list) \<Rightarrow> 'b cty list \<Rightarrow> 'f \<Rightarrow> bool" where
  "caps_typed fty caps \<Gamma> f \<longleftrightarrow> (\<forall>k\<in>set (caps f). k < length \<Gamma> \<and> FutureTy (\<Gamma> ! k) = snd (fty f))"

fun callback_typed :: "('f \<Rightarrow> 'b fn_type) \<Rightarrow> ('f \<Rightarrow> nat list) \<Rightarrow> 'b cty list \<Rightarrow> 'b cty \<Rightarrow> 'f future_callback \<Rightarrow> bool" where
  "callback_typed fty caps \<Gamma> T (SetEvent e) \<longleftrightarrow> True"
| "callback_typed fty caps \<Gamma> T (Unwrapper d u) \<longleftrightarrow> u < length \<Gamma> \<and> d = cty_depth T \<and> \<Gamma> ! u = Ty (cty_base T)"
| "callback_typed fty caps \<Gamma> T (Then f u) \<longleftrightarrow> u < length \<Gamma> \<and> fst (fty f) = T \<and> \<Gamma> ! u = snd (fty f) \<and> caps_typed fty caps \<Gamma> f"
| "callback_typed fty caps \<Gamma> T (Fail f u) \<longleftrightarrow> u < length \<Gamma> \<and> snd (fty f) = T \<and> \<Gamma> ! u = T \<and> caps_typed fty caps \<Gamma> f"

definition state_typed :: "('v \<Rightarrow> 'b) \<Rightarrow> ('f \<Rightarrow> 'b fn_type) \<Rightarrow> ('f \<Rightarrow> nat list) \<Rightarrow> 'b cty list \<Rightarrow> 'b cty \<Rightarrow>
    ('v, 'e, 'f) fstate \<Rightarrow> bool" where
  "state_typed tyv fty caps \<Gamma> T st \<longleftrightarrow> (\<forall>r. f_result st = Some r \<longrightarrow> result_typed tyv \<Gamma> T r) \<and>
     (\<forall>cb. f_callback st = Some cb \<longrightarrow> callback_typed fty caps \<Gamma> T cb)"

definition heap_typed :: "('v \<Rightarrow> 'b) \<Rightarrow> ('f \<Rightarrow> 'b fn_type) \<Rightarrow> ('f \<Rightarrow> nat list) \<Rightarrow> 'b cty list \<Rightarrow>
    ('v, 'e, 'f) fheap \<Rightarrow> bool" where
  "heap_typed tyv fty caps \<Gamma> h \<longleftrightarrow> list_all2 (state_typed tyv fty caps \<Gamma>) \<Gamma> (f_states h)"

fun cmd_typed :: "('v \<Rightarrow> 'b) \<Rightarrow> ('f \<Rightarrow> 'b fn_type) \<Rightarrow> ('f \<Rightarrow> nat list) \<Rightarrow> 'b cty list \<Rightarrow>
    ('v, 'e, 'f) future_cmd \<Rightarrow> bool" where
  "cmd_typed tyv fty caps \<Gamma> (SetResult s r) \<longleftrightarrow> s < length \<Gamma> \<and> result_typed tyv \<Gamma> (\<Gamma> ! s) r"
| "cmd_typed tyv fty caps \<Gamma> (SetCallback s cb) \<longleftrightarrow> s < length \<Gamma> \<and> callback_typed fty caps \<Gamma> (\<Gamma> ! s) cb"

lemma heap_typed_length: "heap_typed tyv fty caps \<Gamma> h \<Longrightarrow> length (f_states h) = length \<Gamma>"
  by (auto simp: heap_typed_def dest: list_all2_lengthD)

lemma heap_typed_at:
  "heap_typed tyv fty caps \<Gamma> h \<Longrightarrow> s < length \<Gamma> \<Longrightarrow> state_typed tyv fty caps \<Gamma> (\<Gamma> ! s) (f_states h ! s)"
  by (auto simp: heap_typed_def dest: list_all2_nthD)

lemma heap_typed_update:
  assumes "heap_typed tyv fty caps \<Gamma> h" and "s < length \<Gamma> \<Longrightarrow> state_typed tyv fty caps \<Gamma> (\<Gamma> ! s) st"
  shows "heap_typed tyv fty caps \<Gamma> (with_state h s st)"
proof (cases "s < length \<Gamma>")
  case True
  then show ?thesis using assms list_all2_update_cong[of _ \<Gamma> "f_states h" "\<Gamma> ! s" st s]
    by (auto simp: heap_typed_def with_state_def dest: list_all2_lengthD)
next
  case False
  then show ?thesis using assms(1) heap_typed_length[OF assms(1)]
    by (simp add: heap_typed_def with_state_def list_update_beyond)
qed

lemma setCancelToken_typed:
  assumes "heap_typed tyv fty caps \<Gamma> h"
  shows "heap_typed tyv fty caps \<Gamma> (setCancelToken h k t)"
proof -
  have "setCancelToken h k t = with_state h k ((f_states h ! k)\<lparr>f_cancelled := t\<rparr>)"
    by (simp add: setCancelToken_def with_state_def)
  then show ?thesis using heap_typed_update[OF assms] heap_typed_at[OF assms]
    by (auto simp: state_typed_def)
qed

section \<open>Commands\<close>

lemma fn_result_typed:
  assumes "fn_typed run runFail fty caps tyv" and "caps_typed fty caps \<Gamma> f"
  shows "result_typed tyv \<Gamma> (snd (fty f)) (run f x)" and "result_typed tyv \<Gamma> (snd (fty f)) (runFail f e)"
proof -
  have v: "value_typed tyv \<Gamma> (snd (fty f)) v" if "(\<exists>x. Inr v = run f x) \<or> (\<exists>e. Inr v = runFail f e)" for v
  proof -
    have "case v of Plain x \<Rightarrow> snd (fty f) = Ty (tyv x) | FutureOf k \<Rightarrow> k \<in> set (caps f) \<and> isFuture (snd (fty f))"
      using assms(1) that unfolding fn_typed_def by blast
    then show ?thesis using assms(2) by (cases v; cases "snd (fty f)") (auto simp: caps_typed_def)
  qed
  show "result_typed tyv \<Gamma> (snd (fty f)) (run f x)"
    using v[of "projr (run f x)"] by (cases "run f x") (simp_all, metis)
  show "result_typed tyv \<Gamma> (snd (fty f)) (runFail f e)"
    using v[of "projr (runFail f e)"] by (cases "runFail f e") (simp_all, metis)
qed

text \<open>A callback that meets a result of its type never fails, and what it does next is typed.\<close>

lemma futureReady_typed:
  assumes "fn_typed run runFail fty caps tyv" and h: "heap_typed tyv fty caps \<Gamma> h"
    and "callback_typed fty caps \<Gamma> T cb" and "result_typed tyv \<Gamma> T r"
  shows "\<exists>h' c. futureReady run runFail h cb r = Some (h', c) \<and> heap_typed tyv fty caps \<Gamma> h' \<and>
    (\<forall>c'. c = Some c' \<longrightarrow> cmd_typed tyv fty caps \<Gamma> c')"
proof (cases cb)
  case (SetEvent e)
  then show ?thesis using h by (simp add: heap_typed_def)
next
  case (Unwrapper d u)
  show ?thesis
  proof (cases r)
    case (Inl e)
    then show ?thesis using assms Unwrapper by simp
  next
    case (Inr v)
    show ?thesis
    proof (cases T)
      case (Ty b)
      then show ?thesis using assms Unwrapper Inr by (cases v) auto
    next
      case (FutureTy S)
      then obtain k where "v = FutureOf k" "k < length \<Gamma>" "\<Gamma> ! k = S"
        using assms(4) Inr by (cases v) auto
      then show ?thesis using assms Unwrapper Inr FutureTy setCancelToken_typed[OF h] by auto
    qed
  qed
next
  case (Then f u)
  then show ?thesis using assms fn_result_typed(1)[OF assms(1)] by (cases r) auto
next
  case (Fail f u)
  then show ?thesis using assms fn_result_typed(2)[OF assms(1)] by (cases r) auto
qed

text \<open>The only way for a typed command to fail: its state has that flag already.\<close>

fun cmd_clash :: "('v, 'e, 'f) fheap \<Rightarrow> ('v, 'e, 'f) future_cmd \<Rightarrow> bool" where
  "cmd_clash h (SetResult s r) \<longleftrightarrow> f_result (f_states h ! s) \<noteq> None"
| "cmd_clash h (SetCallback s cb) \<longleftrightarrow> f_callback (f_states h ! s) \<noteq> None"

lemma apply_cmd_typed:
  assumes f: "fn_typed run runFail fty caps tyv" and h: "heap_typed tyv fty caps \<Gamma> h"
    and c: "cmd_typed tyv fty caps \<Gamma> c"
  shows "apply_cmd run runFail h c = None \<longleftrightarrow> cmd_clash h c"
    and "apply_cmd run runFail h c = Some (h', c') \<Longrightarrow> heap_typed tyv fty caps \<Gamma> h' \<and>
      (\<forall>c1. c' = Some c1 \<longrightarrow> cmd_typed tyv fty caps \<Gamma> c1)"
proof -
  note len = heap_typed_length[OF h]
  have "(apply_cmd run runFail h c = None \<longleftrightarrow> cmd_clash h c) \<and>
    (apply_cmd run runFail h c = Some (h', c') \<longrightarrow> heap_typed tyv fty caps \<Gamma> h' \<and>
      (\<forall>c1. c' = Some c1 \<longrightarrow> cmd_typed tyv fty caps \<Gamma> c1))"
  proof (cases c)
    case (SetResult s r)
    then have s: "s < length \<Gamma>" "result_typed tyv \<Gamma> (\<Gamma> ! s) r" using c by auto
    note st = heap_typed_at[OF h s(1)]
    have h1: "heap_typed tyv fty caps \<Gamma> (with_state h s ((f_states h ! s)\<lparr>f_result := Some r\<rparr>))"
      by (rule heap_typed_update[OF h]) (use st s in \<open>auto simp: state_typed_def\<close>)
    show ?thesis
    proof (cases "f_callback (f_states h ! s)")
      case None
      then show ?thesis using s h1 len by (auto simp: apply_cmd_def SetResult)
    next
      case (Some cb)
      then have "callback_typed fty caps \<Gamma> (\<Gamma> ! s) cb" using st by (auto simp: state_typed_def)
      from futureReady_typed[OF f h1 this s(2)] Some s len show ?thesis by (auto simp: apply_cmd_def SetResult)
    qed
  next
    case (SetCallback s cb)
    then have s: "s < length \<Gamma>" "callback_typed fty caps \<Gamma> (\<Gamma> ! s) cb" using c by auto
    note st = heap_typed_at[OF h s(1)]
    have h1: "heap_typed tyv fty caps \<Gamma> (with_state h s ((f_states h ! s)\<lparr>f_callback := Some cb\<rparr>))"
      by (rule heap_typed_update[OF h]) (use st s in \<open>auto simp: state_typed_def\<close>)
    show ?thesis
    proof (cases "f_result (f_states h ! s)")
      case None
      then show ?thesis using s h1 len by (auto simp: apply_cmd_def SetCallback)
    next
      case (Some r)
      then have "result_typed tyv \<Gamma> (\<Gamma> ! s) r" using st by (auto simp: state_typed_def)
      from futureReady_typed[OF f h1 s(2) this] Some s len show ?thesis by (auto simp: apply_cmd_def SetCallback)
    qed
  qed
  then show "apply_cmd run runFail h c = None \<longleftrightarrow> cmd_clash h c"
    and "apply_cmd run runFail h c = Some (h', c') \<Longrightarrow> heap_typed tyv fty caps \<Gamma> h' \<and>
      (\<forall>c1. c' = Some c1 \<longrightarrow> cmd_typed tyv fty caps \<Gamma> c1)" by auto
qed

lemma exec_cmd_typed:
  assumes "fn_typed run runFail fty caps tyv" and "heap_typed tyv fty caps \<Gamma> h"
    and "cmd_typed tyv fty caps \<Gamma> c" and "exec_cmd run runFail h c = Some h'"
  shows "heap_typed tyv fty caps \<Gamma> h'"
  using assms
proof (induction run runFail h c rule: exec_cmd.induct)
  case (1 run runFail h c)
  note typed = apply_cmd_typed(2)[OF "1.prems"(1-3)]
  obtain h1 c1 where a: "apply_cmd run runFail h c = Some (h1, c1)"
    using "1.prems"(4) by (subst (asm) exec_cmd.simps) (auto split: option.splits)
  show ?case
  proof (cases c1)
    case None
    then show ?thesis using "1.prems"(4) a typed by (subst (asm) exec_cmd.simps) auto
  next
    case (Some c2)
    then have "exec_cmd run runFail h1 c2 = Some h'"
      using "1.prems"(4) a by (subst (asm) exec_cmd.simps) auto
    then show ?thesis using "1.IH"[OF a refl Some "1.prems"(1)] typed[OF a] Some by blast
  qed
qed

section \<open>Programs\<close>

text \<open>
  A program that uses futures: its futures with the types that the compiler gives them, and its
  promises (their states and types). An operation is accepted when its static assertions hold;
  a function may capture futures of the program, which are moved into it. fail of a future whose value
  is a future does not compile, since what unwrap returns is not the declared Future<T>. An exception
  leaves a future without a state; None is a failed assertion or a promise set twice.
\<close>

record ('v, 'e, 'f, 'b) fclient =
  c_heap :: "('v, 'e, 'f) fheap"
  c_futures :: "('b cty \<times> future) list"
  c_promises :: "('b cty \<times> nat) list"

datatype ('v, 'e, 'f, 'b) fop =
    MakePromise "'b cty"
  | ThenOp nat 'f "nat list"
  | FailOp nat 'f "nat list"
  | UnwrapOp nat
  | SetPlain nat 'v
  | SetFuture nat nat
  | SetExn nat "'e future_exn"

definition captures :: "('f \<Rightarrow> 'b fn_type) \<Rightarrow> ('f \<Rightarrow> nat list) \<Rightarrow> ('v, 'e, 'f, 'b) fclient \<Rightarrow> 'f \<Rightarrow> nat list \<Rightarrow> bool" where
  "captures fty caps c f js \<longleftrightarrow> (\<forall>j\<in>set js. j < length (c_futures c) \<and> FutureTy (fst (c_futures c ! j)) = snd (fty f)) \<and>
     map Some (caps f) = map (\<lambda>j. fu_state (snd (c_futures c ! j))) js"

text \<open>The static assertions of then and fail of a Future<T>; fail also has to be able to return what unwrap gives.\<close>

definition then_checks :: "'b cty \<Rightarrow> 'b fn_type \<Rightarrow> bool" where
  "then_checks T ft \<longleftrightarrow> fst ft = T"

definition fail_checks :: "'b cty \<Rightarrow> 'b fn_type \<Rightarrow> bool" where
  "fail_checks T ft \<longleftrightarrow> snd ft = T \<and> FutureTy T = UnwrapFuture T"

lemmas static_checks = then_checks_def fail_checks_def unwrap_same

fun op_checks :: "('v \<Rightarrow> 'b) \<Rightarrow> ('f \<Rightarrow> 'b fn_type) \<Rightarrow> ('f \<Rightarrow> nat list) \<Rightarrow> ('v, 'e, 'f, 'b) fclient \<Rightarrow>
    ('v, 'e, 'f, 'b) fop \<Rightarrow> bool" where
  "op_checks tyv fty caps c (MakePromise T) \<longleftrightarrow> True"
| "op_checks tyv fty caps c (ThenOp i f js) \<longleftrightarrow>
     i < length (c_futures c) \<and> then_checks (fst (c_futures c ! i)) (fty f) \<and> captures fty caps c f js"
| "op_checks tyv fty caps c (FailOp i f js) \<longleftrightarrow>
     i < length (c_futures c) \<and> fail_checks (fst (c_futures c ! i)) (fty f) \<and> captures fty caps c f js"
| "op_checks tyv fty caps c (UnwrapOp i) \<longleftrightarrow> i < length (c_futures c)"
| "op_checks tyv fty caps c (SetPlain p v) \<longleftrightarrow> p < length (c_promises c) \<and> fst (c_promises c ! p) = Ty (tyv v)"
| "op_checks tyv fty caps c (SetFuture p j) \<longleftrightarrow> p < length (c_promises c) \<and> j < length (c_futures c) \<and>
     fst (c_promises c ! p) = FutureTy (fst (c_futures c ! j)) \<and> isValid (snd (c_futures c ! j))"
| "op_checks tyv fty caps c (SetExn p e) \<longleftrightarrow> p < length (c_promises c)"

text \<open>The type T of the Future<T> that then, fail and unwrap return.\<close>

definition then_type :: "'b fn_type \<Rightarrow> 'b cty" where
  "then_type ft = (case UnwrapFuture (NextFuture ft) of FutureTy T \<Rightarrow> T | T \<Rightarrow> T)"

definition put_future :: "nat \<Rightarrow> future \<Rightarrow> ('v, 'e, 'f, 'b) fclient \<Rightarrow> ('v, 'e, 'f, 'b) fclient" where
  "put_future i fu c = c\<lparr>c_futures := (c_futures c)[i := (fst (c_futures c ! i), fu)]\<rparr>"

definition moved_out :: "nat list \<Rightarrow> ('v, 'e, 'f, 'b) fclient \<Rightarrow> ('v, 'e, 'f, 'b) fclient" where
  "moved_out js c = foldl (\<lambda>c j. put_future j \<lparr>fu_state = None, fu_event = None\<rparr> c) c js"

definition add_future :: "nat \<Rightarrow> 'b cty \<Rightarrow> ('v, 'e, 'f, 'b) fclient \<Rightarrow>
    (('v, 'e, 'f) fheap \<times> future \<times> (future_error + future)) option \<Rightarrow> ('v, 'e, 'f, 'b) fclient option" where
  "add_future i T c res = map_option (\<lambda>(h, fu, r).
     let c = put_future i fu (c\<lparr>c_heap := h\<rparr>) in
     c\<lparr>c_futures := c_futures c @ [(T, case r of Inl e \<Rightarrow> \<lparr>fu_state = None, fu_event = None\<rparr> | Inr nf \<Rightarrow> nf)]\<rparr>) res"

definition set_promise :: "('f \<Rightarrow> 'v future_value \<Rightarrow> ('v, 'e) future_result) \<Rightarrow>
    ('f \<Rightarrow> 'e future_exn \<Rightarrow> ('v, 'e) future_result) \<Rightarrow> nat \<Rightarrow> ('v, 'e) future_result \<Rightarrow>
    ('v, 'e, 'f, 'b) fclient \<Rightarrow> ('v, 'e, 'f, 'b) fclient option" where
  "set_promise run runFail p r c =
     map_option (\<lambda>h. c\<lparr>c_heap := h\<rparr>) (exec_cmd run runFail (c_heap c) (SetResult (snd (c_promises c ! p)) r))"

fun op_run :: "('f \<Rightarrow> 'v future_value \<Rightarrow> ('v, 'e) future_result) \<Rightarrow>
    ('f \<Rightarrow> 'e future_exn \<Rightarrow> ('v, 'e) future_result) \<Rightarrow> ('f \<Rightarrow> 'b fn_type) \<Rightarrow>
    ('v, 'e, 'f, 'b) fop \<Rightarrow> ('v, 'e, 'f, 'b) fclient \<Rightarrow> ('v, 'e, 'f, 'b) fclient option" where
  "op_run run runFail fty (MakePromise T) c =
     (let (h, s) = new_promise_state (c_heap c) in
      Some (c\<lparr>c_heap := h, c_futures := c_futures c @ [(T, future_of s)], c_promises := c_promises c @ [(T, s)]\<rparr>))"
| "op_run run runFail fty (ThenOp i f js) c =
     (let fu = snd (c_futures c ! i); c = moved_out js c in
      add_future i (then_type (fty f)) c
        (future_then run runFail (c_heap c) fu f (cty_depth (NextFutureState (fty f)))))"
| "op_run run runFail fty (FailOp i f js) c =
     (let (T, fu) = c_futures c ! i; c = moved_out js c in
      add_future i T c (future_fail run runFail (c_heap c) fu f (cty_depth T)))"
| "op_run run runFail fty (UnwrapOp i) c =
     (let (T, fu) = c_futures c ! i in
      add_future i (Ty (cty_base T)) c (unwrap run runFail (c_heap c) fu (cty_depth T)))"
| "op_run run runFail fty (SetPlain p v) c = set_promise run runFail p (Inr (Plain v)) c"
| "op_run run runFail fty (SetExn p e) c = set_promise run runFail p (Inl e) c"
| "op_run run runFail fty (SetFuture p j) c = (case fu_state (snd (c_futures c ! j)) of
     None \<Rightarrow> None
   | Some k \<Rightarrow> set_promise run runFail p (Inr (FutureOf k)) (moved_out [j] c))"

fun prog_run :: "('f \<Rightarrow> 'v future_value \<Rightarrow> ('v, 'e) future_result) \<Rightarrow>
    ('f \<Rightarrow> 'e future_exn \<Rightarrow> ('v, 'e) future_result) \<Rightarrow> ('v \<Rightarrow> 'b) \<Rightarrow> ('f \<Rightarrow> 'b fn_type) \<Rightarrow> ('f \<Rightarrow> nat list) \<Rightarrow>
    ('v, 'e, 'f, 'b) fop list \<Rightarrow> ('v, 'e, 'f, 'b) fclient \<Rightarrow> ('v, 'e, 'f, 'b) fclient option" where
  "prog_run run runFail tyv fty caps [] c = Some c"
| "prog_run run runFail tyv fty caps (op # ops) c =
     (if \<not> op_checks tyv fty caps c op then None
      else Option.bind (op_run run runFail fty op c) (prog_run run runFail tyv fty caps ops))"

definition no_futures :: "('v, 'e, 'f, 'b) fclient" where
  "no_futures = \<lparr>c_heap = \<lparr>f_states = [], f_tokens = [], f_events = []\<rparr>, c_futures = [], c_promises = []\<rparr>"

section \<open>Types are kept\<close>

definition future_typed :: "'b cty list \<Rightarrow> 'b cty \<Rightarrow> future \<Rightarrow> bool" where
  "future_typed \<Gamma> T fu \<longleftrightarrow> (\<forall>s. fu_state fu = Some s \<longrightarrow> s < length \<Gamma> \<and> \<Gamma> ! s = T)"

definition client_typed :: "('v \<Rightarrow> 'b) \<Rightarrow> ('f \<Rightarrow> 'b fn_type) \<Rightarrow> ('f \<Rightarrow> nat list) \<Rightarrow> 'b cty list \<Rightarrow>
    ('v, 'e, 'f, 'b) fclient \<Rightarrow> bool" where
  "client_typed tyv fty caps \<Gamma> c \<longleftrightarrow> heap_typed tyv fty caps \<Gamma> (c_heap c) \<and>
     (\<forall>x\<in>set (c_futures c). future_typed \<Gamma> (fst x) (snd x)) \<and>
     (\<forall>x\<in>set (c_promises c). snd x < length \<Gamma> \<and> \<Gamma> ! snd x = fst x)"

text \<open>New states do not change the types of the old ones.\<close>

lemma value_typed_mono: "value_typed tyv \<Gamma> T v \<Longrightarrow> value_typed tyv (\<Gamma> @ \<Delta>) T v"
  by (cases "(tyv, \<Gamma>, T, v)" rule: value_typed.cases) (auto simp: nth_append)

lemma result_typed_mono: "result_typed tyv \<Gamma> T r \<Longrightarrow> result_typed tyv (\<Gamma> @ \<Delta>) T r"
  by (cases r) (auto intro: value_typed_mono)

lemma caps_typed_mono: "caps_typed fty caps \<Gamma> f \<Longrightarrow> caps_typed fty caps (\<Gamma> @ \<Delta>) f"
  by (auto simp: caps_typed_def nth_append)

lemma callback_typed_mono: "callback_typed fty caps \<Gamma> T cb \<Longrightarrow> callback_typed fty caps (\<Gamma> @ \<Delta>) T cb"
  by (cases cb) (auto simp: nth_append intro: caps_typed_mono)

lemma state_typed_mono: "state_typed tyv fty caps \<Gamma> T st \<Longrightarrow> state_typed tyv fty caps (\<Gamma> @ \<Delta>) T st"
  by (auto simp: state_typed_def intro: result_typed_mono callback_typed_mono)

lemma future_typed_mono: "future_typed \<Gamma> T fu \<Longrightarrow> future_typed (\<Gamma> @ \<Delta>) T fu"
  by (auto simp: future_typed_def nth_append)

lemma new_state_typed:
  assumes "heap_typed tyv fty caps \<Gamma> h"
  shows "heap_typed tyv fty caps (\<Gamma> @ [T]) (fst (new_state h t))" and "snd (new_state h t) = length \<Gamma>"
proof -
  have "list_all2 (state_typed tyv fty caps (\<Gamma> @ [T])) \<Gamma> (f_states h)"
    using assms unfolding heap_typed_def by (rule list_all2_mono) (rule state_typed_mono)
  then show "heap_typed tyv fty caps (\<Gamma> @ [T]) (fst (new_state h t))"
    by (auto simp: heap_typed_def new_state_def state_typed_def intro!: list_all2_appendI)
  show "snd (new_state h t) = length \<Gamma>" using heap_typed_length[OF assms] by (simp add: new_state_def)
qed

text \<open>What then, fail and unwrap answer, with the type U of the future that they return.\<close>

definition answer_typed :: "('v \<Rightarrow> 'b) \<Rightarrow> ('f \<Rightarrow> 'b fn_type) \<Rightarrow> ('f \<Rightarrow> nat list) \<Rightarrow> 'b cty list \<Rightarrow> 'b cty \<Rightarrow> future \<Rightarrow>
    (('v, 'e, 'f) fheap \<times> future \<times> (future_error + future)) \<Rightarrow> bool" where
  "answer_typed tyv fty caps \<Gamma> U fu0 res \<longleftrightarrow> (case res of (h, fu, r) \<Rightarrow>
     \<exists>\<Delta>. heap_typed tyv fty caps (\<Gamma> @ \<Delta>) h \<and> (fu_state fu = None \<or> fu_state fu = fu_state fu0) \<and>
       (\<forall>nf. r = Inr nf \<longrightarrow> future_typed (\<Gamma> @ \<Delta>) U nf))"

lemma attach_callback_typed:
  assumes f: "fn_typed run runFail fty caps tyv" and h: "heap_typed tyv fty caps \<Gamma> h" and fu: "future_typed \<Gamma> T fu"
    and cb: "callback_typed fty caps (\<Gamma> @ [U]) T (mk (length \<Gamma>))"
    and res: "attach_callback run runFail h fu mk = Some res"
  shows "answer_typed tyv fty caps \<Gamma> U fu res"
proof (cases "isWaitFuture fu \<or> fu_state fu = None")
  case True
  then have "res = (h, fu, snd (snd res))" "isl (snd (snd res))"
    using res by (cases "isWaitFuture fu"; auto simp: attach_callback_def detachState_def)+
  then show ?thesis using h by (cases res) (auto simp: answer_typed_def intro!: exI[of _ "[]"])
next
  case False
  then obtain s where s: "fu_state fu = Some s" "s < length \<Gamma>" "\<Gamma> ! s = T" using fu by (auto simp: future_typed_def)
  let ?h1 = "fst (new_state h (f_cancelled (f_states h ! s)))"
  note n = new_state_typed(1)[OF h, of U "f_cancelled (f_states h ! s)"]
    new_state_typed(2)[OF h, of "f_cancelled (f_states h ! s)"]
  obtain h2 where h2: "exec_cmd run runFail ?h1 (SetCallback s (mk (length \<Gamma>))) = Some h2"
    "res = (h2, fu\<lparr>fu_state := None\<rparr>, Inr (future_of (length \<Gamma>)))"
    using res False s n(2) by (auto simp: attach_callback_def detachState_def Let_def split: option.splits prod.splits)
  have "cmd_typed tyv fty caps (\<Gamma> @ [U]) (SetCallback s (mk (length \<Gamma>)))" using cb s by (simp add: nth_append)
  from exec_cmd_typed[OF f n(1) this h2(1)] h2(2) show ?thesis
    by (auto simp: answer_typed_def future_typed_def future_of_def intro!: exI[of _ "[U]"])
qed

lemma unwrap_typed:
  assumes "fn_typed run runFail fty caps tyv" and "heap_typed tyv fty caps \<Gamma> h" and "future_typed \<Gamma> T fu"
    and res: "unwrap run runFail h fu (cty_depth T) = Some res"
  shows "answer_typed tyv fty caps \<Gamma> (Ty (cty_base T)) fu res"
proof (cases "isWaitFuture fu \<or> cty_depth T = 0")
  case True
  then show ?thesis using assms by (cases T)
    (auto simp: unwrap_def answer_typed_def split: if_splits intro!: exI[of _ "[]"])
next
  case False
  then have "attach_callback run runFail h fu (Unwrapper (cty_depth T)) = Some res"
    using res by (simp add: unwrap_def)
  then show ?thesis by (rule attach_callback_typed[OF assms(1-3), rotated]) simp
qed

lemma unwrap_next_typed:
  assumes f: "fn_typed run runFail fty caps tyv" and a: "answer_typed tyv fty caps \<Gamma> U fu0 (h, fu, r)"
    and res: "unwrap_next run runFail (cty_depth U) (Some (h, fu, r)) = Some res"
  shows "answer_typed tyv fty caps \<Gamma> (Ty (cty_base U)) fu0 res"
proof (cases r)
  case (Inl e)
  then show ?thesis using a res by (auto simp: unwrap_next_def answer_typed_def)
next
  case (Inr nf)
  obtain \<Delta> where d: "heap_typed tyv fty caps (\<Gamma> @ \<Delta>) h" "future_typed (\<Gamma> @ \<Delta>) U nf"
    "fu_state fu = None \<or> fu_state fu = fu_state fu0" using a Inr by (auto simp: answer_typed_def)
  obtain h' x r' where u: "unwrap run runFail h nf (cty_depth U) = Some (h', x, r')" "res = (h', fu, r')"
    using res Inr by (auto simp: unwrap_next_def)
  from unwrap_typed[OF f d(1,2) u(1)] obtain \<Delta>' where
    "heap_typed tyv fty caps ((\<Gamma> @ \<Delta>) @ \<Delta>') h'" "\<forall>nf. r' = Inr nf \<longrightarrow> future_typed ((\<Gamma> @ \<Delta>) @ \<Delta>') (Ty (cty_base U)) nf"
    unfolding answer_typed_def by blast
  then show ?thesis using d(3) u(2) by (auto simp: answer_typed_def intro!: exI[of _ "\<Delta> @ \<Delta>'"])
qed

lemma then_typed:
  assumes f: "fn_typed run runFail fty caps tyv" and h: "heap_typed tyv fty caps \<Gamma> h"
    and fu: "future_typed \<Gamma> (fst (fty fn)) fu" and c: "caps_typed fty caps \<Gamma> fn"
    and res: "future_then run runFail h fu fn (cty_depth (NextFutureState (fty fn))) = Some res"
  shows "answer_typed tyv fty caps \<Gamma> (then_type (fty fn)) fu res"
proof -
  obtain r0 where a: "attach_callback run runFail h fu (Then fn) = Some r0"
    using res by (cases "attach_callback run runFail h fu (Then fn)") (auto simp: future_then_def unwrap_next_def)
  obtain h1 fu1 r1 where r0: "r0 = (h1, fu1, r1)" by (cases r0)
  have "answer_typed tyv fty caps \<Gamma> (snd (fty fn)) fu r0"
    by (rule attach_callback_typed[OF f h fu _ a]) (use caps_typed_mono[OF c] in simp)
  from unwrap_next_typed[OF f this[unfolded r0]] res a r0 show ?thesis
    by (simp add: future_then_def NextFutureState_def then_type_def NextFuture_def UnwrapFuture_base)
qed

lemma fail_typed:
  assumes f: "fn_typed run runFail fty caps tyv" and h: "heap_typed tyv fty caps \<Gamma> h"
    and fu: "future_typed \<Gamma> T fu" and T: "snd (fty fn) = T" "\<not> isFuture T" and c: "caps_typed fty caps \<Gamma> fn"
    and res: "future_fail run runFail h fu fn (cty_depth T) = Some res"
  shows "answer_typed tyv fty caps \<Gamma> T fu res"
proof -
  obtain r0 where a: "attach_callback run runFail h fu (Fail fn) = Some r0"
    using res by (cases "attach_callback run runFail h fu (Fail fn)") (auto simp: future_fail_def unwrap_next_def)
  obtain h1 fu1 r1 where r0: "r0 = (h1, fu1, r1)" by (cases r0)
  have "answer_typed tyv fty caps \<Gamma> T fu r0"
    by (rule attach_callback_typed[OF f h fu _ a]) (use caps_typed_mono[OF c] T in simp)
  from unwrap_next_typed[OF f this[unfolded r0]] res a r0 T(2) show ?thesis
    by (cases T) (simp_all add: future_fail_def)
qed

lemma client_typed_mono:
  assumes "client_typed tyv fty caps \<Gamma> c" and "heap_typed tyv fty caps (\<Gamma> @ \<Delta>) h"
  shows "client_typed tyv fty caps (\<Gamma> @ \<Delta>) (c\<lparr>c_heap := h\<rparr>)"
  using assms by (fastforce simp: client_typed_def nth_append intro: future_typed_mono)

lemma put_future_typed:
  assumes "client_typed tyv fty caps \<Gamma> c" and "i < length (c_futures c) \<Longrightarrow> future_typed \<Gamma> (fst (c_futures c ! i)) fu"
  shows "client_typed tyv fty caps \<Gamma> (put_future i fu c)"
  using assms by (cases "i < length (c_futures c)")
    (auto simp: client_typed_def put_future_def list_update_beyond dest!: subsetD[OF set_update_subset_insert])

lemma moved_out_typed: "client_typed tyv fty caps \<Gamma> c \<Longrightarrow> client_typed tyv fty caps \<Gamma> (moved_out js c)"
  unfolding moved_out_def
proof (induction js arbitrary: c)
  case (Cons j js)
  from Cons.IH[OF put_future_typed[OF Cons.prems]] show ?case by (simp add: future_typed_def)
qed simp

lemma moved_out_simps [simp]:
  "c_heap (moved_out js c) = c_heap c" "c_promises (moved_out js c) = c_promises c"
  "map fst (c_futures (moved_out js c)) = map fst (c_futures c)"
proof -
  have "c_heap (moved_out js c) = c_heap c \<and> c_promises (moved_out js c) = c_promises c \<and>
    map fst (c_futures (moved_out js c)) = map fst (c_futures c)"
    unfolding moved_out_def
  proof (induction js arbitrary: c)
    case (Cons j js)
    have "map fst ((c_futures c)[j := (fst (c_futures c ! j), x)]) = map fst (c_futures c)" for x
      by (cases "j < length (c_futures c)") (simp_all add: map_update list_update_beyond, metis length_map list_update_id nth_map)
    then show ?case using Cons[of "put_future j \<lparr>fu_state = None, fu_event = None\<rparr> c"]
      by (simp add: put_future_def)
  qed simp
  then show "c_heap (moved_out js c) = c_heap c" "c_promises (moved_out js c) = c_promises c"
    "map fst (c_futures (moved_out js c)) = map fst (c_futures c)" by auto
qed

lemma future_at:
  assumes "client_typed tyv fty caps \<Gamma> c" and "i < length (c_futures c)"
  shows "future_typed \<Gamma> (fst (c_futures c ! i)) (snd (c_futures c ! i))"
  using assms by (auto simp: client_typed_def dest: nth_mem)

lemma captures_typed:
  assumes c: "client_typed tyv fty caps \<Gamma> c" and "captures fty caps c f js"
  shows "caps_typed fty caps \<Gamma> f"
  unfolding caps_typed_def
proof
  fix k assume "k \<in> set (caps f)"
  then have "Some k \<in> set (map Some (caps f))" by simp
  then have "Some k \<in> set (map (\<lambda>j. fu_state (snd (c_futures c ! j))) js)"
    using assms(2) by (simp only: captures_def)
  then obtain j where j: "j \<in> set js" "fu_state (snd (c_futures c ! j)) = Some k" by auto
  then have "j < length (c_futures c)" "FutureTy (fst (c_futures c ! j)) = snd (fty f)"
    using assms(2) by (auto simp: captures_def)
  with future_at[OF c this(1)] j(2) show "k < length \<Gamma> \<and> FutureTy (\<Gamma> ! k) = snd (fty f)"
    by (simp add: future_typed_def)
qed

lemma add_future_typed:
  assumes c: "client_typed tyv fty caps \<Gamma> c" and i: "i < length (c_futures c)"
    and fu: "future_typed \<Gamma> (fst (c_futures c ! i)) fu0"
    and res: "\<And>r. res = Some r \<Longrightarrow> answer_typed tyv fty caps \<Gamma> U fu0 r"
    and "add_future i U c res = Some c'"
  shows "\<exists>\<Delta>. client_typed tyv fty caps (\<Gamma> @ \<Delta>) c'"
proof -
  obtain h x r where r: "res = Some (h, x, r)" using assms(5) by (auto simp: add_future_def)
  from res[OF this] obtain \<Delta> where d: "heap_typed tyv fty caps (\<Gamma> @ \<Delta>) h"
    "fu_state x = None \<or> fu_state x = fu_state fu0" "\<forall>nf. r = Inr nf \<longrightarrow> future_typed (\<Gamma> @ \<Delta>) U nf"
    by (auto simp: answer_typed_def)
  have "future_typed (\<Gamma> @ \<Delta>) (fst (c_futures c ! i)) x"
    using d(2) future_typed_mono[OF fu] by (auto simp: future_typed_def)
  then have "client_typed tyv fty caps (\<Gamma> @ \<Delta>) (put_future i x (c\<lparr>c_heap := h\<rparr>))"
    by (intro put_future_typed client_typed_mono[OF c d(1)]) simp
  then have "client_typed tyv fty caps (\<Gamma> @ \<Delta>) c'" using d(3) assms(5) r
    by (auto simp: add_future_def Let_def client_typed_def future_typed_def split: sum.splits)
  then show ?thesis by blast
qed

lemma set_promise_typed:
  assumes "fn_typed run runFail fty caps tyv" and c: "client_typed tyv fty caps \<Gamma> c" and p: "p < length (c_promises c)"
    and r: "result_typed tyv \<Gamma> (fst (c_promises c ! p)) r" and "set_promise run runFail p r c = Some c'"
  shows "client_typed tyv fty caps \<Gamma> c'"
proof -
  obtain h where h: "exec_cmd run runFail (c_heap c) (SetResult (snd (c_promises c ! p)) r) = Some h" "c' = c\<lparr>c_heap := h\<rparr>"
    using assms(5) by (auto simp: set_promise_def)
  have s: "snd (c_promises c ! p) < length \<Gamma>" "\<Gamma> ! snd (c_promises c ! p) = fst (c_promises c ! p)"
    using c nth_mem[OF p] by (auto simp: client_typed_def)
  have "heap_typed tyv fty caps \<Gamma> h"
    by (rule exec_cmd_typed[OF assms(1) _ _ h(1)]) (use c s r in \<open>auto simp: client_typed_def\<close>)
  then show ?thesis using client_typed_mono[OF c, of "[]"] h(2) by simp
qed

lemma moved_out_types:
  "length (c_futures (moved_out js c)) = length (c_futures c)"
  "i < length (c_futures c) \<Longrightarrow> fst (c_futures (moved_out js c) ! i) = fst (c_futures c ! i)"
  using moved_out_simps(3)[of js c] by (metis length_map, metis length_map nth_map)

lemma make_promise_typed:
  assumes c: "client_typed tyv fty caps \<Gamma> c" and n: "new_promise_state (c_heap c) = (h, s)"
  shows "client_typed tyv fty caps (\<Gamma> @ [T])
    (c\<lparr>c_heap := h, c_futures := c_futures c @ [(T, future_of s)], c_promises := c_promises c @ [(T, s)]\<rparr>)"
proof -
  have h: "heap_typed tyv fty caps \<Gamma> (c_heap c)" using c by (simp add: client_typed_def)
  have "heap_typed tyv fty caps (\<Gamma> @ [T]) (fst (new_promise_state (c_heap c)))"
    "snd (new_promise_state (c_heap c)) = length \<Gamma>"
    using new_state_typed[of tyv fty caps \<Gamma> "(c_heap c)\<lparr>f_tokens := f_tokens (c_heap c) @ [False]\<rparr>"] h
    by (simp_all add: new_promise_state_def heap_typed_def)
  then have s: "heap_typed tyv fty caps (\<Gamma> @ [T]) h" "s = length \<Gamma>" using n by simp_all
  from client_typed_mono[OF c s(1)]
  have "\<forall>x\<in>set (c_futures c). future_typed (\<Gamma> @ [T]) (fst x) (snd x)"
    "\<forall>x\<in>set (c_promises c). snd x < length (\<Gamma> @ [T]) \<and> (\<Gamma> @ [T]) ! snd x = fst x" by (simp_all add: client_typed_def)
  moreover have "future_typed (\<Gamma> @ [T]) T (future_of (length \<Gamma>))" by (simp add: future_typed_def future_of_def)
  ultimately show ?thesis using s by (auto simp: client_typed_def)
qed

lemma set_future_typed:
  assumes f: "fn_typed run runFail fty caps tyv" and c: "client_typed tyv fty caps \<Gamma> c"
    and "op_checks tyv fty caps c (SetFuture p j)" and "op_run run runFail fty (SetFuture p j) c = Some c'"
  shows "client_typed tyv fty caps \<Gamma> c'"
proof -
  obtain k where k: "fu_state (snd (c_futures c ! j)) = Some k"
    "set_promise run runFail p (Inr (FutureOf k)) (moved_out [j] c) = Some c'"
    using assms(4) by (auto split: option.splits)
  show ?thesis
    by (rule set_promise_typed[OF f moved_out_typed[OF c] _ _ k(2)])
      (use assms(3) k(1) future_at[OF c, of j] in \<open>auto simp: future_typed_def\<close>)
qed

lemma op_run_typed:
  assumes f: "fn_typed run runFail fty caps tyv" and c: "client_typed tyv fty caps \<Gamma> c"
    and ck: "op_checks tyv fty caps c op" and r: "op_run run runFail fty op c = Some c'"
  shows "\<exists>\<Delta>. client_typed tyv fty caps (\<Gamma> @ \<Delta>) c'"
proof -
  have h: "heap_typed tyv fty caps \<Gamma> (c_heap c)" using c by (simp add: client_typed_def)
  have same: ?thesis if "client_typed tyv fty caps \<Gamma> c'" using that by (intro exI[of _ "[]"]) simp
  show ?thesis
  proof (cases op)
    case (MakePromise T)
    then show ?thesis using r make_promise_typed[OF c] by (auto split: prod.splits)
  next
    case (ThenOp i f' js)
    then show ?thesis using ck r moved_out_types[where c = c] future_at[OF c] captures_typed[OF c]
      by (intro add_future_typed[OF moved_out_typed[OF c], of i])
        (auto simp: Let_def static_checks intro: then_typed[OF f h])
  next
    case (FailOp i f' js)
    obtain T fu where T: "c_futures c ! i = (T, fu)" by (cases "c_futures c ! i")
    then have "add_future i T (moved_out js c) (future_fail run runFail (c_heap c) fu f' (cty_depth T)) = Some c'"
      using r FailOp by simp
    then show ?thesis
      by (rule add_future_typed[OF moved_out_typed[OF c] _ _ fail_typed[OF f h], rotated 7])
        (use ck FailOp T moved_out_types[where c = c] future_at[OF c, of i] captures_typed[OF c] in \<open>auto simp: static_checks\<close>)
  next
    case (UnwrapOp i)
    obtain T fu where T: "c_futures c ! i = (T, fu)" by (cases "c_futures c ! i")
    then have "add_future i (Ty (cty_base T)) c (unwrap run runFail (c_heap c) fu (cty_depth T)) = Some c'"
      using r UnwrapOp by simp
    then show ?thesis
      by (rule add_future_typed[OF c _ _ unwrap_typed[OF f h], rotated 4])
        (use ck UnwrapOp T future_at[OF c, of i] in auto)
  next
    case (SetPlain p v)
    then show ?thesis using ck r by (intro same set_promise_typed[OF f c, of p]) auto
  next
    case (SetExn p e)
    then show ?thesis using ck r by (intro same set_promise_typed[OF f c, of p]) auto
  next
    case (SetFuture p j)
    then show ?thesis using ck r set_future_typed[OF f c] same by blast
  qed
qed

lemma prog_run_typed:
  assumes "fn_typed run runFail fty caps tyv" and "client_typed tyv fty caps \<Gamma> c"
    and "prog_run run runFail tyv fty caps ops c = Some c'"
  shows "\<exists>\<Delta>. client_typed tyv fty caps (\<Gamma> @ \<Delta>) c'"
  using assms(2,3)
proof (induction ops arbitrary: \<Gamma> c)
  case Nil
  then show ?case by (auto intro!: exI[of _ "[]"])
next
  case (Cons op ops)
  then obtain c1 where c1: "op_checks tyv fty caps c op" "op_run run runFail fty op c = Some c1"
    "prog_run run runFail tyv fty caps ops c1 = Some c'" by (auto split: if_splits bind_splits)
  from op_run_typed[OF assms(1) Cons.prems(1) c1(1,2)] obtain \<Delta> where "client_typed tyv fty caps (\<Gamma> @ \<Delta>) c1" by blast
  from Cons.IH[OF this c1(3)] show ?case by (metis append_assoc)
qed

text \<open>
  C19: a program whose operations pass the static assertions, over functions of their declared types:
  whatever it does, the states have the types the compiler gave to its futures, a future that holds
  a value holds one of its type, and what then returns is never a future of a future; and a
  command that such a program issues fails only because a promise or a future is used twice, never
  because a value is not of the type that the callback expects.
\<close>

theorem futures_keep_types:
  assumes "fn_typed run runFail fty caps tyv" and "prog_run run runFail tyv fty caps ops no_futures = Some c"
  shows "\<exists>\<Gamma>. length \<Gamma> = length (f_states (c_heap c)) \<and>
    (\<forall>x\<in>set (c_futures c). \<forall>s. fu_state (snd x) = Some s \<longrightarrow> \<Gamma> ! s = fst x \<and>
       (\<forall>v. f_result (f_states (c_heap c) ! s) = Some (Inr v) \<longrightarrow> value_typed tyv \<Gamma> (fst x) v)) \<and>
    (\<forall>cmd. cmd_typed tyv fty caps \<Gamma> cmd \<longrightarrow>
       (apply_cmd run runFail (c_heap c) cmd = None \<longleftrightarrow> cmd_clash (c_heap c) cmd)) \<and>
    (\<forall>ft. \<not> isFuture (then_type ft :: 'b cty))"
proof -
  have "client_typed tyv fty caps [] no_futures" by (simp add: client_typed_def no_futures_def heap_typed_def)
  from prog_run_typed[OF assms(1) this assms(2)] obtain \<Gamma> where g: "client_typed tyv fty caps \<Gamma> c" by auto
  then have h: "heap_typed tyv fty caps \<Gamma> (c_heap c)" by (simp add: client_typed_def)
  have "\<Gamma> ! s = fst x \<and> (\<forall>v. f_result (f_states (c_heap c) ! s) = Some (Inr v) \<longrightarrow> value_typed tyv \<Gamma> (fst x) v)"
    if "x \<in> set (c_futures c)" "fu_state (snd x) = Some s" for x s
    using g that heap_typed_at[OF h, of s] by (force simp: client_typed_def future_typed_def state_typed_def)
  moreover have "\<not> isFuture (then_type ft)" for ft :: "'b fn_type"
    by (simp add: then_type_def UnwrapFuture_base)
  ultimately show ?thesis using heap_typed_length[OF h] apply_cmd_typed(1)[OF assms(1) h] by (intro exI[of _ \<Gamma>]) simp
qed

text \<open>A future of a future, unwrapped before either is ready, with the inner future moved into the outer one.\<close>

theorem futures_keep_types_witness:
  "\<exists>c. prog_run (\<lambda>f x. Inl BrokenPromiseError) (\<lambda>f e. Inl e) (\<lambda>v :: nat. ()) (\<lambda>f :: unit. (Ty (), Ty ())) (\<lambda>f. [])
      [MakePromise (FutureTy (Ty ())), MakePromise (Ty ()), UnwrapOp 0, SetFuture 0 1, SetPlain 1 5] no_futures =
      Some (c :: (nat, nat, unit, unit) fclient) \<and>
    f_result (f_states (c_heap c) ! 2) = Some (Inr (Plain 5)) \<and>
    (\<exists>\<Gamma> :: unit cty list. length \<Gamma> = 3 \<and> \<Gamma> ! 2 = Ty ())"
proof -
  let ?run = "\<lambda>(f :: unit) (x :: nat future_value). Inl BrokenPromiseError :: (nat, nat) future_result"
  let ?fail = "\<lambda>(f :: unit) e. Inl e :: (nat, nat) future_result"
  let ?ops = "[MakePromise (FutureTy (Ty ())), MakePromise (Ty ()), UnwrapOp 0, SetFuture 0 1, SetPlain 1 5]"
  have f: "fn_typed ?run ?fail (\<lambda>f. (Ty (), Ty ())) (\<lambda>f. []) (\<lambda>v. ())" by (auto simp: fn_typed_def)
  obtain c where c: "prog_run ?run ?fail (\<lambda>v. ()) (\<lambda>f. (Ty (), Ty ())) (\<lambda>f. []) ?ops no_futures = Some c"
    "f_result (f_states (c_heap c) ! 2) = Some (Inr (Plain 5))" "length (f_states (c_heap c)) = 3"
    "(Ty (), future_of 2) \<in> set (c_futures c)"
    by (simp add: no_futures_def new_promise_state_def new_state_def unwrap_def attach_callback_def detachState_def
        isWaitFuture_def isValid_def future_of_def add_future_def put_future_def moved_out_def set_promise_def
        exec_SetCallback exec_SetResult setCancelToken_def with_state_def Let_def)
  from futures_keep_types[OF f c(1)] c(3,4) obtain \<Gamma> :: "unit cty list" where
    "length \<Gamma> = 3" "\<Gamma> ! 2 = Ty ()" by (force simp: future_of_def)
  with c show ?thesis by blast
qed

end
