(* ===== verification/TypeTraits.thy ===== *)
theory TypeTraits
  imports Prelude
begin

text \<open>
  include/nhope/utils/type.h: the traits of function types that the library's static assertions
  use, as functions on types. None is a program that does not compile.
\<close>

section \<open>Types and their functions\<close>

text \<open>
  Function R args: a type from which std::function deduces R(args): a function, a lambda, an object with
  one operator(). MemberFunction: a pointer to a member function, from which it deduces nothing.
  NoFunction: any other type.
\<close>

datatype 'b cpp_type =
    NoFunction 'b
  | Function "'b cpp_type" "'b cpp_type list"
  | MemberFunction 'b "'b cpp_type" "'b cpp_type list"

definition isFunctional :: "'b cpp_type \<Rightarrow> bool" where
  "isFunctional T = (case T of MemberFunction c r as \<Rightarrow> True | Function r as \<Rightarrow> True | NoFunction b \<Rightarrow> False)"

fun Extract_impl :: "nat \<Rightarrow> 'a list \<Rightarrow> 'a option" where
  "Extract_impl n [] = None"
| "Extract_impl 0 (Head # Tail) = Some Head"
| "Extract_impl (Suc n) (Head # Tail) = Extract_impl n Tail"

definition Extract :: "nat \<Rightarrow> 'a list \<Rightarrow> 'a option" where
  "Extract index types = (if \<not> index < length types then None else Extract_impl index types)"

record 'b fn_props =
  ReturnType :: "'b cpp_type"
  fn_arguments :: "'b cpp_type list"

definition argumentCount :: "'b fn_props \<Rightarrow> nat" where
  "argumentCount ps = length (fn_arguments ps)"

definition ArgumentType :: "'b fn_props \<Rightarrow> nat \<Rightarrow> 'b cpp_type option" where
  "ArgumentType ps index = Extract index (fn_arguments ps)"

text \<open>FunctionProps of the std::function made of a value of the type.\<close>

definition FnProps :: "'b cpp_type \<Rightarrow> 'b fn_props option" where
  "FnProps T = (case T of Function r as \<Rightarrow> Some \<lparr>ReturnType = r, fn_arguments = as\<rparr> | _ \<Rightarrow> None)"

definition hasSingleArgument :: "'b cpp_type \<Rightarrow> bool option" where
  "hasSingleArgument Fn = map_option (\<lambda>ps. argumentCount ps = 1) (FnProps Fn)"

function findArgument :: "'b fn_props \<Rightarrow> ('b cpp_type \<Rightarrow> bool) \<Rightarrow> nat \<Rightarrow> int" where
  "findArgument ps cond pos =
     (if argumentCount ps \<le> pos then -1
      else if (case ArgumentType ps pos of None \<Rightarrow> False | Some T \<Rightarrow> cond T) then int pos
      else findArgument ps cond (pos + 1))"
  by pat_completeness auto
termination by (relation "measure (\<lambda>(ps, cond, pos). argumentCount ps - pos)") auto

declare findArgument.simps [simp del]

definition checkFunctionArgumentTypes :: "'b fn_props \<Rightarrow> 'b cpp_type list \<Rightarrow> nat list \<Rightarrow> bool" where
  "checkFunctionArgumentTypes ps args is = list_all (\<lambda>i. Extract i args = ArgumentType ps i) is"

definition checkFunctionParams :: "'b cpp_type \<Rightarrow> 'b cpp_type list \<Rightarrow> bool option" where
  "checkFunctionParams Fn args =
     (if isFunctional Fn then map_option (\<lambda>ps.
        if argumentCount ps \<noteq> length args then False
        else checkFunctionArgumentTypes ps args [0..<argumentCount ps]) (FnProps Fn)
      else Some False)"

definition checkReturnType :: "'b cpp_type \<Rightarrow> 'b cpp_type \<Rightarrow> bool option" where
  "checkReturnType Fn R =
     (if isFunctional Fn then map_option (\<lambda>ps. ReturnType ps = R) (FnProps Fn) else Some False)"

definition checkFunctionSignature :: "'b cpp_type \<Rightarrow> 'b cpp_type \<Rightarrow> 'b cpp_type list \<Rightarrow> bool option" where
  "checkFunctionSignature Fn R args =
     Option.bind (checkReturnType Fn R) (\<lambda>r. map_option (\<lambda>ps. r \<and> ps) (checkFunctionParams Fn args))"

section \<open>What they decide\<close>

lemma Extract_nth: "Extract i xs = (if i < length xs then Some (xs ! i) else None)"
proof -
  have "i < length xs \<Longrightarrow> Extract_impl i xs = Some (xs ! i)"
    by (induction i xs rule: Extract_impl.induct) auto
  then show ?thesis by (simp add: Extract_def)
qed

lemma checkFunctionParams_eq:
  "checkFunctionParams Fn args = (case Fn of
     Function r as \<Rightarrow> Some (as = args) | MemberFunction c r as \<Rightarrow> None | NoFunction b \<Rightarrow> Some False)"
proof (cases Fn)
  case (Function r as)
  have "checkFunctionArgumentTypes \<lparr>ReturnType = r, fn_arguments = as\<rparr> args [0..<length as] \<longleftrightarrow> as = args"
    if "length as = length args"
    using that by (auto simp: checkFunctionArgumentTypes_def ArgumentType_def Extract_nth list_all_iff intro: nth_equalityI)
  then show ?thesis using Function
    by (auto simp: checkFunctionParams_def isFunctional_def FnProps_def argumentCount_def)
qed (simp_all add: checkFunctionParams_def isFunctional_def FnProps_def)

text \<open>
  The signature test accepts exactly the functions of that signature, with no conversion of types; a
  pointer to a member function is called functional but every test of it fails to compile.
\<close>

lemma checkFunctionSignature_exact:
  "checkFunctionSignature Fn R args = (case Fn of
     Function r as \<Rightarrow> Some (r = R \<and> as = args) | MemberFunction c r as \<Rightarrow> None | NoFunction b \<Rightarrow> Some False)"
  by (cases Fn) (auto simp: checkFunctionSignature_def checkReturnType_def checkFunctionParams_eq isFunctional_def FnProps_def)

text \<open>findArgument finds the first argument from pos on that fulfils the condition.\<close>

lemma findArgument_first:
  "findArgument ps cond pos = (case filter (\<lambda>i. cond (fn_arguments ps ! i)) [pos..<argumentCount ps] of
     [] \<Rightarrow> -1 | i # _ \<Rightarrow> int i)"
proof (induction ps cond pos rule: findArgument.induct)
  case (1 ps cond pos)
  show ?case
  proof (cases "argumentCount ps \<le> pos")
    case True
    then show ?thesis by (subst findArgument.simps) simp
  next
    case False
    then have "[pos..<argumentCount ps] = pos # [pos + 1..<argumentCount ps]" by (simp add: upt_rec)
    moreover have "ArgumentType ps pos = Some (fn_arguments ps ! pos)"
      using False by (simp add: ArgumentType_def Extract_nth argumentCount_def)
    ultimately show ?thesis using False 1 by (subst findArgument.simps) simp
  qed
qed

end
