(* ===== verification/ContextClient.thy ===== *)
theory ContextClient
  imports AOContext Timers
begin

text \<open>
  The objects of Timers on the detailed protocol of AOContext. Timers lets a context go from open
  to closing to closed in single steps and runs an object's work in one of them. Here the context
  is the one of AOContext (ao-context-impl.h): work begins with a block and ends with giving it back, a
  close announces itself, refuses new work, waits for the blocks of other threads and goes through the list
  of handlers, and other threads add handlers and run work of their own at any time. Every run of the
  two together is a run of Timers.
\<close>

section \<open>An object on a context\<close>

text \<open>
  h: the object's handler in the context's list. The object's part is a record of Timers whose own phase is
  not used. A completion reaches the object inside a work of the context (body), which the context
  has begun with a block; it is dropped when the block is refused. delete this takes the handler out
  of the list; close takes it out before it calls it.
\<close>

definition own_step :: "addr \<Rightarrow> ao \<Rightarrow> ao \<Rightarrow> bool" where
  "own_step h c c' \<longleftrightarrow> count_list (handlers c) h \<noteq> count_list (handlers c') h \<or> B_Add h \<in> set (others c')"

inductive joint_step ::
    "('e option \<Rightarrow> 'e ctx_object \<Rightarrow> 'e ctx_object option) \<Rightarrow> ('e ctx_object \<Rightarrow> 'e ctx_object option) \<Rightarrow>
     nat \<Rightarrow> addr \<Rightarrow> ao \<times> 'e ctx_object \<Rightarrow> (ao \<times> 'e ctx_object) option \<Rightarrow> bool"
  for completes onclose mine h where
  joint_other: "ao_step mine c c' \<Longrightarrow> \<not> own_step h c c' \<Longrightarrow>
    joint_step completes onclose mine h (c, t) (Some (c', t))"
| joint_body: "B_Work \<in> set (others c) \<Longrightarrow> 0 < pending_io t \<Longrightarrow>
    joint_step completes onclose mine h (c, t) (map_option
      (\<lambda>t'. (if registered_handler t \<and> \<not> registered_handler t'
             then c\<lparr>handlers := remove1 h (handlers c), removed_h := h # removed_h c\<rparr> else c, t'))
      (completes err (t\<lparr>pending_io := pending_io t - 1\<rparr>)))"
| joint_refused: "prep c \<Longrightarrow> 0 < pending_io t \<Longrightarrow>
    joint_step completes onclose mine h (c, t) (Some (c, t\<lparr>pending_io := pending_io t - 1\<rparr>))"
| joint_call: "phase c = P_Calling \<Longrightarrow> handlers c = h # hs \<Longrightarrow>
    joint_step completes onclose mine h (c, t)
      (map_option (\<lambda>t'. (c\<lparr>handlers := hs, called_h := called_h c @ [h]\<rparr>, t')) (onclose t))"

text \<open>At the start startCancellableTask has put the handler into the list and started the operation.\<close>

inductive joint_reachable ::
    "('e option \<Rightarrow> 'e ctx_object \<Rightarrow> 'e ctx_object option) \<Rightarrow> ('e ctx_object \<Rightarrow> 'e ctx_object option) \<Rightarrow>
     nat \<Rightarrow> addr \<Rightarrow> ao \<times> 'e ctx_object \<Rightarrow> bool"
  for completes onclose own h where
  joint_start: "ao_reachable own own c \<Longrightarrow> phase c = P_Open \<Longrightarrow> count_list (handlers c) h = 1 \<Longrightarrow>
    B_Add h \<notin> set (others c) \<Longrightarrow> joint_reachable completes onclose own h (c, start_object)"
| joint_more: "joint_reachable completes onclose own h s \<Longrightarrow> joint_step completes onclose own h s (Some s') \<Longrightarrow>
    joint_reachable completes onclose own h s'"

section \<open>Simulation\<close>

text \<open>
  The phase an object sees: still open while a close waits for running work, unless its last completion was
  refused; closing until its handler was called.
\<close>

definition sees :: "addr \<Rightarrow> ao \<Rightarrow> 'e ctx_object \<Rightarrow> ctx_phase \<Rightarrow> bool" where
  "sees h c t ph \<longleftrightarrow> (case phase c of
     P_Open \<Rightarrow> ph = CtxOpen
   | P_Waiting \<Rightarrow> ph = CtxOpen \<or> ph = CtxClosing \<and> pending_io t = 0
   | P_Calling \<Rightarrow> ph = (if h \<in> set (handlers c) then CtxClosing else CtxClosed)
   | P_Closed \<Rightarrow> ph = CtxClosed)"

definition joint_inv ::
    "('e option \<Rightarrow> 'e ctx_object \<Rightarrow> 'e ctx_object option) \<Rightarrow> ('e ctx_object \<Rightarrow> 'e ctx_object option) \<Rightarrow>
     nat \<Rightarrow> addr \<Rightarrow> ao \<times> 'e ctx_object \<Rightarrow> bool" where
  "joint_inv completes onclose own h s \<longleftrightarrow> (case s of (c, t) \<Rightarrow> ao_inv own c \<and>
     count_list (handlers c) h = (if registered_handler t then 1 else 0) \<and> B_Add h \<notin> set (others c) \<and>
     (\<exists>ph. object_reachable completes onclose (t\<lparr>ctx_phase_of := ph\<rparr>) \<and> sees h c t ph))"

text \<open>The phase an object sees follows the steps of others.\<close>

lemma sees_other:
  assumes "ao_step own c c'" and "ao_inv own c" and "\<not> own_step h c c'" and "sees h c t ph"
  shows "sees h c' t ph \<or> phase c = P_Waiting \<and> phase c' = P_Calling"
proof -
  have "h \<in> set (handlers c') \<longleftrightarrow> h \<in> set (handlers c)"
    using assms(3) unfolding own_step_def by (metis count_list_0_iff)
  with assms(1,2,4) show ?thesis by cases (auto simp: sees_def ao_inv_def split: close_phase.splits)
qed

lemma swap_updates:
  "(t :: 'e ctx_object)\<lparr>ctx_phase_of := ph, pending_io := n\<rparr> = t\<lparr>pending_io := n, ctx_phase_of := ph\<rparr>"
  by (cases t) simp

locale ctx_joint = ctx_operation +
  assumes completes_blind: "completes err (t\<lparr>ctx_phase_of := ph\<rparr>) = map_option (\<lambda>t. t\<lparr>ctx_phase_of := ph\<rparr>) (completes err t)"
    and onclose_blind: "onclose (t\<lparr>ctx_phase_of := ph\<rparr>) = map_option (\<lambda>t. t\<lparr>ctx_phase_of := ph\<rparr>) (onclose t)"
begin

lemma reach_completes:
  assumes "object_reachable completes onclose (t\<lparr>ctx_phase_of := CtxOpen\<rparr>)" and "0 < pending_io t"
  shows "\<exists>t'. completes err (t\<lparr>pending_io := pending_io t - 1\<rparr>) = Some t' \<and>
    object_reachable completes onclose (t'\<lparr>ctx_phase_of := CtxOpen\<rparr>) \<and> registered_handler t \<and>
    (0 < pending_io t' \<longrightarrow> registered_handler t')"
proof -
  let ?t = "t\<lparr>ctx_phase_of := CtxOpen\<rparr>"
  have st: "object_step completes onclose ?t (completes err (?t\<lparr>pending_io := pending_io ?t - 1\<rparr>))"
    by (rule io_completes) (use assms(2) in simp_all)
  note inv = object_reachable_inv[OF assms(1)]
  have eq: "completes err (?t\<lparr>pending_io := pending_io ?t - 1\<rparr>) =
      map_option (\<lambda>t. t\<lparr>ctx_phase_of := CtxOpen\<rparr>) (completes err (t\<lparr>pending_io := pending_io t - 1\<rparr>))"
    using completes_blind[where err = err and t = "t\<lparr>pending_io := pending_io t - 1\<rparr>" and ph = CtxOpen] by (simp add: swap_updates)
  from object_inv_step[OF inv st] obtain t' where t': "completes err (t\<lparr>pending_io := pending_io t - 1\<rparr>) = Some t'"
    "object_inv (t'\<lparr>ctx_phase_of := CtxOpen\<rparr>)" unfolding eq by auto
  have "object_reachable completes onclose (t'\<lparr>ctx_phase_of := CtxOpen\<rparr>)"
    by (rule object_reach_step[OF assms(1)]) (use st in \<open>simp only: eq t'(1) option.map\<close>)
  then show ?thesis using t' inv assms(2) by (auto simp: object_inv_def)
qed

lemma reach_closing:
  assumes "object_reachable completes onclose (t\<lparr>ctx_phase_of := CtxOpen\<rparr>)"
  shows "object_reachable completes onclose (t\<lparr>ctx_phase_of := CtxClosing\<rparr>)"
  using object_reach_step[OF assms] ctx_closes[of "t\<lparr>ctx_phase_of := CtxOpen\<rparr>" completes onclose] by simp

lemma reach_closed:
  assumes "object_reachable completes onclose (t\<lparr>ctx_phase_of := CtxClosing\<rparr>)" and "\<not> registered_handler t"
  shows "object_reachable completes onclose (t\<lparr>ctx_phase_of := CtxClosed\<rparr>)"
  using object_reach_step[OF assms(1)] ctx_calls[of "t\<lparr>ctx_phase_of := CtxClosing\<rparr>" completes onclose] assms(2) by simp

lemma reach_dropped:
  assumes "object_reachable completes onclose (t\<lparr>ctx_phase_of := ph\<rparr>)" and "ph \<noteq> CtxOpen" and "0 < pending_io t"
  shows "object_reachable completes onclose (t\<lparr>pending_io := pending_io t - 1, ctx_phase_of := ph\<rparr>)"
  using object_reach_step[OF assms(1)] io_dropped[of "t\<lparr>ctx_phase_of := ph\<rparr>" completes onclose] assms(2,3)
  by (simp add: swap_updates)

lemma joint_inv_other:
  assumes "joint_inv completes onclose own h (c, t)" and st: "ao_step own c c'" and "\<not> own_step h c c'"
  shows "joint_inv completes onclose own h (c', t)"
proof -
  obtain ph where inv: "ao_inv own c" "count_list (handlers c') h = (if registered_handler t then 1 else 0)"
    "B_Add h \<notin> set (others c')" "object_reachable completes onclose (t\<lparr>ctx_phase_of := ph\<rparr>)" "sees h c t ph"
    using assms(1,3) by (auto simp: joint_inv_def own_step_def)
  have "\<exists>ph. object_reachable completes onclose (t\<lparr>ctx_phase_of := ph\<rparr>) \<and> sees h c' t ph"
    using sees_other[OF st inv(1) assms(3) inv(5)]
  proof
    assume p: "phase c = P_Waiting \<and> phase c' = P_Calling"
    then have "object_reachable completes onclose (t\<lparr>ctx_phase_of := CtxClosing\<rparr>)"
      using inv(4,5) reach_closing[of t] by (auto simp: sees_def)
    moreover have "h \<in> set (handlers c') \<longleftrightarrow> registered_handler t"
      using inv(2) count_list_0_iff[of "handlers c'" h] by (cases "registered_handler t") auto
    ultimately show ?thesis using p reach_closed[of t] by (auto simp: sees_def split: if_splits)
  qed (use inv(4) in blast)
  then show ?thesis using ao_step_inv[OF st inv(1)] inv(2,3) by (simp add: joint_inv_def)
qed

lemma joint_inv_body:
  assumes i: "joint_inv completes onclose own h (c, t)" and w: "B_Work \<in> set (others c)" "0 < pending_io t"
  shows "\<exists>t'. completes err (t\<lparr>pending_io := pending_io t - 1\<rparr>) = Some t' \<and> registered_handler t \<and>
    joint_inv completes onclose own h (if registered_handler t'
      then c else c\<lparr>handlers := remove1 h (handlers c), removed_h := h # removed_h c\<rparr>, t')"
proof -
  obtain ph where inv: "ao_inv own c" "count_list (handlers c) h = (if registered_handler t then 1 else 0)"
    "B_Add h \<notin> set (others c)" "object_reachable completes onclose (t\<lparr>ctx_phase_of := ph\<rparr>)" "sees h c t ph"
    using i by (auto simp: joint_inv_def)
  have p: "phase c \<in> {P_Open, P_Waiting}"
    using inv(1) w(1) by (cases "phase c") (auto simp: ao_inv_def busy_blocker_def)
  then have "ph = CtxOpen" using inv(5) w(2) by (auto simp: sees_def)
  from reach_completes[OF inv(4)[unfolded this] w(2), of err] obtain t' where
    t': "completes err (t\<lparr>pending_io := pending_io t - 1\<rparr>) = Some t'"
      "object_reachable completes onclose (t'\<lparr>ctx_phase_of := CtxOpen\<rparr>)" "registered_handler t" by blast
  let ?c = "c\<lparr>handlers := remove1 h (handlers c), removed_h := h # removed_h c\<rparr>"
  have "h \<in> set (handlers c)" using inv(2) t'(3) count_list_0_iff[of "handlers c" h] by fastforce
  from ao_step_inv[OF remove_handler[OF this] inv(1)] have "ao_inv own ?c" .
  then show ?thesis using t' inv p
    by (auto simp: joint_inv_def sees_def count_list_remove1 intro!: exI[of _ CtxOpen])
qed

lemma joint_inv_refused:
  assumes i: "joint_inv completes onclose own h (c, t)" and w: "prep c" "0 < pending_io t"
  shows "joint_inv completes onclose own h (c, t\<lparr>pending_io := pending_io t - 1\<rparr>)"
proof -
  obtain ph where inv: "ao_inv own c" "object_reachable completes onclose (t\<lparr>ctx_phase_of := ph\<rparr>)" "sees h c t ph"
    using i by (auto simp: joint_inv_def)
  have one: "pending_io t = 1" if "ph = CtxOpen"
    using object_reachable_inv[OF inv(2)] that w(2) by (auto simp: object_inv_def)
  let ?ph = "if ph = CtxOpen then CtxClosing else ph"
  have "object_reachable completes onclose (t\<lparr>ctx_phase_of := ?ph\<rparr>)" using inv(2) reach_closing[of t] by auto
  then have "object_reachable completes onclose (t\<lparr>pending_io := pending_io t - 1, ctx_phase_of := ?ph\<rparr>)"
    by (rule reach_dropped) (use w(2) in auto)
  moreover have "sees h c (t\<lparr>pending_io := pending_io t - 1\<rparr>) ?ph"
    using inv(1,3) w(1) one by (auto simp: sees_def ao_inv_def split: close_phase.splits)
  ultimately show ?thesis using i by (auto simp: joint_inv_def)
qed

lemma joint_inv_call:
  assumes i: "joint_inv completes onclose own h (c, t)" and w: "phase c = P_Calling" "handlers c = h # hs"
  shows "\<exists>t'. onclose t = Some t' \<and> joint_inv completes onclose own h (c\<lparr>handlers := hs, called_h := called_h c @ [h]\<rparr>, t')"
proof -
  obtain ph where inv: "ao_inv own c" "count_list (handlers c) h = (if registered_handler t then 1 else 0)"
    "B_Add h \<notin> set (others c)" "object_reachable completes onclose (t\<lparr>ctx_phase_of := ph\<rparr>)" "sees h c t ph"
    using i by (auto simp: joint_inv_def)
  have reg: "registered_handler t" "h \<notin> set hs" "ph = CtxClosing"
    using inv(2,5) w count_list_0_iff[of hs h] by (auto simp: sees_def split: if_splits)
  have t: "alive t" "outcomes t = []"
    using object_reachable_inv[OF inv(4)] reg(1) by (auto simp: object_inv_def)
  from onclose_ok[OF t(1) reg(1) t(2)] obtain t' where t': "onclose t = Some t'" "\<not> registered_handler t'" by blast
  have "object_reachable completes onclose (t'\<lparr>ctx_phase_of := CtxClosed\<rparr>)"
    using object_reach_step[OF inv(4)] ctx_calls[of "t\<lparr>ctx_phase_of := CtxClosing\<rparr>" completes onclose] reg(1,3) t'(1)
      onclose_blind[where t = t and ph = CtxClosing] by simp
  moreover note ao_step_inv[OF close_call[OF w] inv(1)]
  ultimately show ?thesis using w t' inv reg(2) by (auto simp: joint_inv_def sees_def count_list_0_iff)
qed

lemma joint_step_inv:
  assumes "joint_inv completes onclose own h s" and "joint_step completes onclose own h s r"
  shows "\<exists>s'. r = Some s' \<and> joint_inv completes onclose own h s'"
  using assms(2)
proof cases
  case (joint_other c c' t)
  then show ?thesis using joint_inv_other assms(1) by blast
next
  case (joint_body c t err)
  from joint_inv_body[OF assms(1)[unfolded joint_body(1)] joint_body(3,4), of err] show ?thesis
    using joint_body(2) by (elim exE conjE) (simp split: if_splits)
next
  case (joint_refused c t)
  then show ?thesis using joint_inv_refused assms(1) by blast
next
  case (joint_call c hs t)
  from joint_inv_call[OF assms(1)[unfolded joint_call(1)] joint_call(3,4)] show ?thesis using joint_call(2) by auto
qed

end

context ctx_joint
begin

lemma joint_reachable_inv: "joint_reachable completes onclose own h s \<Longrightarrow> joint_inv completes onclose own h s"
proof (induction rule: joint_reachable.induct)
  case (joint_start c)
  have "object_reachable completes onclose (start_object\<lparr>ctx_phase_of := CtxOpen\<rparr>)"
    using object_reach_start by (simp add: start_object_def)
  then show ?case using joint_start ao_reachable_inv[of own c]
    by (auto simp: joint_inv_def sees_def start_object_def intro!: exI[of _ CtxOpen])
next
  case (joint_more s s')
  from joint_step_inv[OF joint_more.IH joint_more.hyps(2)] show ?case by auto
qed

lemma joint_safe:
  assumes "joint_reachable completes onclose own h (c, t)"
  shows "\<not> joint_step completes onclose own h (c, t) None \<and> (h \<in> set (handlers c)) = alive t \<and>
    length (outcomes t) \<le> 1 \<and> (alive t \<longrightarrow> outcomes t = []) \<and> (at_close \<noteq> [] \<longrightarrow> alive t \<or> length (outcomes t) = 1) \<and>
    (phase c = P_Closed \<longrightarrow> \<not> alive t)"
proof -
  note inv = joint_reachable_inv[OF assms]
  then obtain ph where ph: "count_list (handlers c) h = (if registered_handler t then 1 else 0)"
    "object_reachable completes onclose (t\<lparr>ctx_phase_of := ph\<rparr>)" "sees h c t ph" by (auto simp: joint_inv_def)
  have "\<not> joint_step completes onclose own h (c, t) None" using joint_step_inv[OF inv] by blast
  moreover have "(h \<in> set (handlers c)) = alive t"
    using ph(1) object_reachable_inv[OF ph(2)] count_list_0_iff[of "handlers c" h] by (cases "alive t") (auto simp: object_inv_def)
  moreover have "phase c = P_Closed \<longrightarrow> ph = CtxClosed" using ph(3) by (auto simp: sees_def)
  ultimately show ?thesis using object_safe[OF ph(2)] by simp
qed

end

interpretation single_joint: ctx_joint single_wakeup single_close "[]"
  by unfold_locales (auto simp: single_wakeup_def single_close_def give_def delete_object_def)

interpretation pt_joint: ctx_joint promise_wakeup promise_close "[IoCancelled]"
  by unfold_locales (auto simp: promise_wakeup_def promise_close_def give_def delete_object_def Let_def split: option.splits)

interpretation cop_joint: ctx_joint connect_completes connect_close "[IoCancelled]"
  by unfold_locales (auto simp: connect_completes_def resolveHandler_def connectHandler_def connect_close_def
      connect_cancel_def give_def delete_object_def split: option.splits)

interpretation lop_joint: ctx_joint local_connectHandler local_close "[IoCancelled]"
  by unfold_locales (auto simp: local_connectHandler_def local_close_def local_cancel_def give_def delete_object_def
      split: option.splits)

text \<open>SingleTimer on the detailed context: its handler is called at most once, and the object goes with the close.\<close>

lemma single_timer_on_context:
  assumes "joint_reachable single_wakeup single_close own h (c, t)"
  shows "\<not> joint_step single_wakeup single_close own h (c, t) None \<and> length (outcomes t) \<le> 1 \<and>
    (h \<in> set (handlers c)) = alive t \<and> (phase c = P_Closed \<longrightarrow> \<not> alive t)"
  using single_joint.joint_safe[OF assms] by auto


text \<open>A context with one handler.\<close>

lemma ao_one_handler: "ao_reachable 0 0 (ao_init 0\<lparr>handlers := [7], registered := [7]\<rparr>)"
proof -
  let ?c = "ao_init 0\<lparr>handlers := [7], registered := [7]\<rparr>"
  have "ao_reachable 0 0 (ao_init 0\<lparr>blk := 1, others := [B_Add 7]\<rparr>)"
    by (rule ao_reach_step[OF ao_reach_init]) (use block_add[of "ao_init 0" 7] in \<open>simp add: ao_init_def\<close>)
  then have "ao_reachable 0 0 (?c\<lparr>blk := 1, others := [B_Added]\<rparr>)"
    by (rule ao_reach_step)
      (use insert_handler[of "ao_init 0\<lparr>blk := 1, others := [B_Add 7]\<rparr>" "[]" 7 "[]"] in \<open>simp add: ao_init_def\<close>)
  then show ?thesis
    by (rule ao_reach_step)
      (use unblock[of "?c\<lparr>blk := 1, others := [B_Added]\<rparr>" "[]" B_Added "[]"] in \<open>simp add: ao_init_def\<close>)
qed

text \<open>A timer whose context starts to close while the timer's work runs: the work still ends.\<close>

lemma joint_example:
  "joint_reachable promise_wakeup promise_close 0 7
     (ao_init 0\<lparr>prep := True, blk := 1, phase := P_Waiting, handlers := [], others := [B_Work],
        registered := [7], removed_h := [7]\<rparr>,
      start_object\<lparr>alive := False, registered_handler := False, outcomes := [IoValue], pending_io := 0\<rparr> :: nat ctx_object)"
proof -
  let ?c = "ao_init 0\<lparr>handlers := [7], registered := [7]\<rparr>"
  from ao_one_handler have "joint_reachable promise_wakeup promise_close 0 7 (?c, start_object :: nat ctx_object)"
    by (rule joint_start) (simp_all add: ao_init_def)
  then have "joint_reachable promise_wakeup promise_close 0 7
      (?c\<lparr>blk := 1, others := [B_Work]\<rparr>, start_object :: nat ctx_object)"
    by (rule joint_more) (rule joint_other, use block_work[of ?c 0] in \<open>simp_all add: ao_init_def own_step_def\<close>)
  then have r: "joint_reachable promise_wakeup promise_close 0 7
      (?c\<lparr>blk := 1, others := [B_Work], prep := True, phase := P_Waiting\<rparr>, start_object :: nat ctx_object)"
    by (rule joint_more)
      (rule joint_other, use close_start[of "?c\<lparr>blk := 1, others := [B_Work]\<rparr>" 0] in \<open>simp_all add: ao_init_def own_step_def\<close>)
  show ?thesis
    by (rule joint_more[OF r])
      (use joint_body[of "?c\<lparr>blk := 1, others := [B_Work], prep := True, phase := P_Waiting\<rparr>"
          "start_object :: nat ctx_object" promise_wakeup promise_close 0 7 None]
        in \<open>simp add: ao_init_def start_object_def promise_wakeup_def delete_object_def give_def\<close>)
qed


end
