(* ===== verification/ContextTimeout.thy ===== *)
theory ContextTimeout
  imports ContextClient
begin

text \<open>
  An AOContext with a time-out (the last two constructors of lib/async/ao-context.cpp): setTimeout
  starts a SingleTimer on the new context, whose handler closes the context from one of the context's own
  works. The context is that of AOContext, the timer that of Timers, joined as in ContextClient.

  A close by another thread has no blocks of its own (own = 0). When the handler of the timer
  is the first to close, its thread is the closing one: the block of the work it runs in is its own (own = 1).
\<close>

section \<open>The context with its timer\<close>

text \<open>
  h: the timer's close handler. The handler of the timer, with any error, closes; close returns at once when somebody
  else is closing, since this thread works in the context.
\<close>

definition timeout_closes :: "addr \<Rightarrow> 'e option \<Rightarrow> ao \<Rightarrow> 'e ctx_object \<Rightarrow> (nat \<times> ao \<times> 'e ctx_object) option" where
  "timeout_closes h err c t = map_option (\<lambda>t'.
     let c = c\<lparr>handlers := remove1 h (handlers c), removed_h := h # removed_h c\<rparr> in
       if prep c then (0, c, t')
       else (1, c\<lparr>prep := True, phase := P_Waiting, others := remove1 B_Work (others c)\<rparr>, t'))
     (single_wakeup err (t\<lparr>pending_io := pending_io t - 1\<rparr>))"

inductive timed_step :: "addr \<Rightarrow> nat \<times> ao \<times> 'e ctx_object \<Rightarrow> (nat \<times> ao \<times> 'e ctx_object) option \<Rightarrow> bool" for h where
  to_others: "joint_step single_wakeup single_close 0 h (c, t) r \<Longrightarrow>
    (\<forall>c' t'. r = Some (c', t') \<longrightarrow> outcomes t' = outcomes t) \<Longrightarrow>
    timed_step h (0, c, t) (map_option (Pair 0) r)"
| to_fires: "B_Work \<in> set (others c) \<Longrightarrow> 0 < pending_io t \<Longrightarrow> timed_step h (0, c, t) (timeout_closes h err c t)"
| to_closing: "ao_step 1 c c' \<Longrightarrow> \<not> own_step h c c' \<Longrightarrow> timed_step h (1, c, t) (Some (1, c', t))"

inductive timed_ctx_reachable :: "addr \<Rightarrow> nat \<times> ao \<times> 'e ctx_object \<Rightarrow> bool" for h where
  to_reach_start: "ao_reachable 0 0 c \<Longrightarrow> phase c = P_Open \<Longrightarrow> count_list (handlers c) h = 1 \<Longrightarrow>
    B_Add h \<notin> set (others c) \<Longrightarrow> timed_ctx_reachable h (0, c, start_object)"
| to_reach_step: "timed_ctx_reachable h s \<Longrightarrow> timed_step h s (Some s') \<Longrightarrow> timed_ctx_reachable h s'"

section \<open>Open means armed\<close>

definition timed_ctx_inv :: "addr \<Rightarrow> nat \<times> ao \<times> 'e ctx_object \<Rightarrow> bool" where
  "timed_ctx_inv h s \<longleftrightarrow> (case s of (own, c, t) \<Rightarrow> ao_inv own c \<and> own \<le> 1 \<and> B_Add h \<notin> set (others c) \<and>
     (own = 0 \<longrightarrow> joint_reachable single_wakeup single_close 0 h (c, t) \<and>
        (phase c = P_Open \<longrightarrow> alive t \<and> pending_io t = 1)) \<and>
     (own = 1 \<longrightarrow> prep c \<and> \<not> alive t \<and> length (outcomes t) = 1 \<and> h \<notin> set (handlers c)))"

lemma ao_step_phase: "ao_step own c c' \<Longrightarrow> phase c' = P_Open \<Longrightarrow> phase c = P_Open"
  by (auto elim: ao_step.cases)

lemma joint_step_open:
  assumes "joint_step single_wakeup single_close 0 h (c, t) (Some (c', t'))" and "outcomes t' = outcomes t"
    and "phase c' = P_Open" and "ao_inv 0 c" and "phase c = P_Open \<longrightarrow> outcomes t = []"
  shows "phase c = P_Open \<and> t' = t"
  using assms(1)
proof cases
  case joint_other
  then show ?thesis using ao_step_phase assms(3) by auto
next
  case (joint_body err)
  then show ?thesis using assms(2,3,5) by (auto simp: single_wakeup_def give_def delete_object_def split: if_splits)
qed (use assms(3,4) in \<open>auto simp: ao_inv_def single_close_def split: if_splits\<close>)

lemma joint_ao_inv:
  assumes "joint_reachable single_wakeup single_close 0 h (c, t)"
  shows "ao_inv 0 c" "B_Add h \<notin> set (others c)" "alive t \<Longrightarrow> outcomes t = []"
    "count_list (handlers c) h = (if alive t then 1 else 0)" "\<not> joint_step single_wakeup single_close 0 h (c, t) None"
    "registered_handler t = alive t"
  using single_joint.joint_reachable_inv[OF assms] single_joint.joint_safe[OF assms]
    count_list_0_iff[of "handlers c" h]
  by (auto simp: joint_inv_def object_inv_def dest!: single.object_reachable_inv split: if_splits)

lemma timed_others_inv:
  assumes "joint_reachable single_wakeup single_close 0 h (c, t)" and "phase c = P_Open \<longrightarrow> alive t \<and> pending_io t = 1"
    and st: "joint_step single_wakeup single_close 0 h (c, t) (Some (c', t'))" and "outcomes t' = outcomes t"
  shows "timed_ctx_inv h (0, c', t')"
proof -
  note j = joint_ao_inv[OF assms(1)]
  from joint_more[OF assms(1) st] have jr: "joint_reachable single_wakeup single_close 0 h (c', t')" .
  have "alive t' \<and> pending_io t' = 1" if "phase c' = P_Open"
    using joint_step_open[OF st assms(4) that j(1)] assms(2) j(3) by auto
  then show ?thesis using jr joint_ao_inv[OF jr] by (auto simp: timed_ctx_inv_def)
qed

lemma timeout_closes_inv:
  assumes jr: "joint_reachable single_wakeup single_close 0 h (c, t)" and w: "B_Work \<in> set (others c)" "0 < pending_io t"
  shows "\<exists>s. timeout_closes h err c t = Some s \<and> timed_ctx_inv h s"
proof -
  note j = joint_ao_inv[OF jr]
  note body = joint_body[OF w, of single_wakeup single_close 0 h err]
  obtain t' where t': "single_wakeup err (t\<lparr>pending_io := pending_io t - 1\<rparr>) = Some t'"
    using body j(5) by (cases "single_wakeup err (t\<lparr>pending_io := pending_io t - 1\<rparr>)") auto
  then have a: "alive t" "\<not> registered_handler t'" "\<not> alive t'" "length (outcomes t') = 1"
    by (auto simp: single_wakeup_def give_def delete_object_def split: if_splits)
  let ?c = "c\<lparr>handlers := remove1 h (handlers c), removed_h := h # removed_h c\<rparr>"
  have h: "h \<in> set (handlers c)" "h \<notin> set (remove1 h (handlers c))"
    using j(4) a(1) count_list_remove1[of h "handlers c" h] count_list_0_iff[of "handlers c" h]
      count_list_0_iff[of "remove1 h (handlers c)" h] by auto
  from ao_step_inv[OF remove_handler[OF h(1)] j(1)] have ao: "ao_inv 0 ?c" .
  show ?thesis
  proof (cases "prep c")
    case True
    have "joint_step single_wakeup single_close 0 h (c, t) (Some (?c, t'))" using body t' a(1,2) j(6) by simp
    from joint_more[OF jr this] show ?thesis using True t' ao j(2)
      by (auto simp: timed_ctx_inv_def timeout_closes_def ao_inv_def)
  next
    case False
    let ?c' = "?c\<lparr>prep := True, phase := P_Waiting, others := remove1 B_Work (others c)\<rparr>"
    have "ao_inv 1 ?c'" using ao w(1) by (auto simp: ao_inv_def length_remove1 Suc_diff_1 dest: length_pos_if_in_set)
    then show ?thesis using False t' a h(2) j(2)
      by (auto simp: timed_ctx_inv_def timeout_closes_def dest: notin_set_remove1)
  qed
qed

lemma timed_closing_inv:
  assumes inv: "timed_ctx_inv h (1, c, t)" and st: "ao_step 1 c c'" and "\<not> own_step h c c'"
  shows "timed_ctx_inv h (1, c', t)"
proof -
  have i: "ao_inv 1 c" "prep c" "h \<notin> set (handlers c)" using inv by (auto simp: timed_ctx_inv_def)
  have "ao_inv 1 c'" by (rule ao_step_inv[OF st i(1)])
  moreover have "prep c'" using st i(2) by cases auto
  moreover have "h \<notin> set (handlers c')" "B_Add h \<notin> set (others c')"
    using assms(3) i(3) count_list_0_iff[of "handlers c'" h] count_list_0_iff[of "handlers c" h]
    by (auto simp: own_step_def)
  ultimately show ?thesis using inv by (auto simp: timed_ctx_inv_def)
qed

lemma timed_step_inv:
  assumes "timed_step h s r" and inv: "timed_ctx_inv h s"
  shows "\<exists>s'. r = Some s' \<and> timed_ctx_inv h s'"
  using assms(1)
proof cases
  case (to_others c t r')
  have jr: "joint_reachable single_wakeup single_close 0 h (c, t)" "phase c = P_Open \<longrightarrow> alive t \<and> pending_io t = 1"
    using inv to_others(1) by (auto simp: timed_ctx_inv_def)
  from to_others(3) joint_ao_inv(5)[OF jr(1)] obtain c' t' where "r' = Some (c', t')" by (cases r') auto
  then show ?thesis using to_others(2-4) timed_others_inv[OF jr] by auto
next
  case (to_fires c t err)
  then show ?thesis using timeout_closes_inv[of h c t err] inv by (auto simp: timed_ctx_inv_def)
next
  case (to_closing c c' t)
  then show ?thesis using timed_closing_inv inv by blast
qed

lemma timed_ctx_reachable_inv: "timed_ctx_reachable h s \<Longrightarrow> timed_ctx_inv h s"
proof (induction rule: timed_ctx_reachable.induct)
  case (to_reach_start c)
  note r = joint_start[OF to_reach_start, of single_wakeup single_close]
  show ?case using r joint_ao_inv[OF r] by (auto simp: timed_ctx_inv_def start_object_def)
next
  case (to_reach_step s s')
  then show ?case using timed_step_inv by blast
qed

text \<open>
  A context with a time-out, closed by its timer, by other threads or by both at once: nothing of it is
  used after its end; as long as it is open its timer is armed; once its handlers are called no work runs in
  another thread; when it is closed the timer is gone and every handler was called or
  removed; and a close from the timer's own work does not wait for that work.
\<close>

theorem context_with_timeout:
  assumes "timed_ctx_reachable h (own, c, t)"
  shows "\<not> timed_step h (own, c, t) None"
    and "phase c = P_Open \<Longrightarrow> own = 0 \<and> alive t \<and> pending_io t = 1 \<and> h \<in> set (handlers c)"
    and "phase c \<in> {P_Calling, P_Closed} \<Longrightarrow> B_Work \<notin> set (others c)"
    and "phase c = P_Closed \<Longrightarrow> \<not> alive t \<and> handlers c = [] \<and>
      mset (registered c) = mset (called_h c) + mset (removed_h c)"
    and "phase c = P_Waiting \<Longrightarrow> others c = [] \<Longrightarrow> ao_step own c (c\<lparr>phase := P_Calling\<rparr>)"
proof -
  note inv = timed_ctx_reachable_inv[OF assms]
  then have ao: "ao_inv own c" "own = 0 \<or> own = 1" by (auto simp: timed_ctx_inv_def)
  show "\<not> timed_step h (own, c, t) None" using timed_step_inv[OF _ inv] by blast
  show "own = 0 \<and> alive t \<and> pending_io t = 1 \<and> h \<in> set (handlers c)" if "phase c = P_Open"
  proof -
    have o: "own = 0" "alive t" "pending_io t = 1" "joint_reachable single_wakeup single_close 0 h (c, t)"
      using inv ao that by (auto simp: timed_ctx_inv_def ao_inv_def)
    then show ?thesis using joint_ao_inv(4)[OF o(4)] count_list_0_iff[of "handlers c" h] by auto
  qed
  show "B_Work \<notin> set (others c)" if "phase c \<in> {P_Calling, P_Closed}"
    using ao(1) that by (auto simp: ao_inv_def busy_blocker_def)
  show "\<not> alive t \<and> handlers c = [] \<and> mset (registered c) = mset (called_h c) + mset (removed_h c)" if "phase c = P_Closed"
  proof -
    have "handlers c = []" using ao(1) that by (simp add: ao_inv_def)
    moreover have "\<not> alive t"
      using inv ao(2) joint_ao_inv(4)[of h c t] calculation by (auto simp: timed_ctx_inv_def split: if_splits)
    ultimately show ?thesis using ao(1) that by (simp add: ao_inv_def)
  qed
  show "ao_step own c (c\<lparr>phase := P_Calling\<rparr>)" if "phase c = P_Waiting" "others c = []"
    by (rule close_go) (use that ao in \<open>auto simp: ao_inv_def\<close>)
qed

text \<open>The timer fires and begins to close its context.\<close>

lemma timed_ctx_example:
  "timed_ctx_reachable 7 (1, ao_init 0\<lparr>prep := True, blk := 1, phase := P_Waiting, registered := [7], removed_h := [7]\<rparr>,
     start_object\<lparr>alive := False, registered_handler := False, outcomes := [IoValue], pending_io := 0\<rparr> :: nat ctx_object)"
proof -
  let ?c = "ao_init 0\<lparr>handlers := [7], registered := [7]\<rparr>"
  from ao_one_handler have "ao_reachable 0 0 (?c\<lparr>blk := 1, others := [B_Work]\<rparr>)"
    by (rule ao_reach_step) (use block_work[of ?c] in \<open>simp add: ao_init_def\<close>)
  then have r: "timed_ctx_reachable 7 (0, ?c\<lparr>blk := 1, others := [B_Work]\<rparr>, start_object :: nat ctx_object)"
    by (rule to_reach_start) (simp_all add: ao_init_def)
  show ?thesis
    by (rule to_reach_step[OF r])
      (use to_fires[of "?c\<lparr>blk := 1, others := [B_Work]\<rparr>" "start_object :: nat ctx_object" 7 None]
        in \<open>simp add: ao_init_def timeout_closes_def start_object_def single_wakeup_def give_def delete_object_def of_err_def\<close>)
qed

end
