(* ===== verification/Files.thy ===== *)
theory Files
  imports Sockets IoDevice
begin

text \<open>
  FileImpl of lib/io/file.cpp: a file whose reads and writes run on a thread of the I/O pool
  (m_ioCtx) while their handlers run on the context of the user (m_resultCtx), and its destruction.
  The C library is the parameter cio: what a request does to the FILE and answers.

  Of the contexts this uses what AOContext, Strand and CtxCallback show: work runs in order, only while
  the context is open; close waits for the running work, and the work still queued is dropped, with
  what it owns. A request's buffer belongs to its handler: it is gone when the handler is.
  Using a buffer that is gone, or a FILE that was closed, is None.
\<close>

section \<open>The file\<close>

datatype file_op = FileRead nat | FileWrite "u8 list"

record ('f, 'r) file_dev =
  m_file :: "'f option"           \<comment> \<open>None: after fclose\<close>
  fd_requests :: "file_op list"
  fd_handlers :: "bool list"      \<comment> \<open>which handlers, with their buffers, exist\<close>
  fd_running :: bool              \<comment> \<open>a thread of the pool is in fread or fwrite\<close>
  fd_results :: "'r list"         \<comment> \<open>of the requests that are done, in order\<close>
  fd_answers :: "'r list"         \<comment> \<open>ghost: what handlers were called with\<close>
  m_ioCtx :: ctx_phase
  m_resultCtx :: ctx_phase

text \<open>
  The constructor: the context of the results is a child of the user's and cannot be made when that is
  closed (Inl None); then fopen answers the file or an error number.
\<close>

definition file_open :: "(string \<Rightarrow> string \<Rightarrow> int + 'f) \<Rightarrow> ctx_phase \<Rightarrow> string \<Rightarrow> open_file_mode \<Rightarrow>
    error_code option + ('f, 'r) file_dev" where
  "file_open fopen parent fileName mode =
     (if parent \<noteq> CtxOpen then Inl None
      else case fopen fileName (toFOpenMode mode) of
        Inl errno \<Rightarrow> Inl (Some \<lparr>err_category = SystemCategory, err_value = errno\<rparr>)
      | Inr f \<Rightarrow> Inr \<lparr>m_file = Some f, fd_requests = [], fd_handlers = [], fd_running = False, fd_results = [],
          fd_answers = [], m_ioCtx = CtxOpen, m_resultCtx = CtxOpen\<rparr>)"

text \<open>
  read and write: asyncInvoke queues the work on m_ioCtx; then attaches the handler on m_resultCtx and
  throws when that is closed: the handler is destroyed, the work stays queued. The answer: did it throw.
\<close>

definition file_request :: "file_op \<Rightarrow> ('f, 'r) file_dev \<Rightarrow> ('f, 'r) file_dev \<times> bool" where
  "file_request q d =
     (if m_ioCtx d \<noteq> CtxOpen then (d, True)
      else let d = d\<lparr>fd_requests := fd_requests d @ [q], fd_handlers := fd_handlers d @ [m_resultCtx d = CtxOpen]\<rparr> in
        (d, m_resultCtx d \<noteq> CtxOpen))"

definition file_read :: "nat \<Rightarrow> ('f, 'r) file_dev \<Rightarrow> ('f, 'r) file_dev \<times> bool" where
  "file_read n d = file_request (FileRead n) d"

definition file_write :: "u8 list \<Rightarrow> ('f, 'r) file_dev \<Rightarrow> ('f, 'r) file_dev \<times> bool" where
  "file_write bs d = file_request (FileWrite bs) d"

text \<open>The work on m_ioCtx: its start and its end, after which the handler's call is queued on m_resultCtx or dropped.\<close>

definition work_begins :: "('f, 'r) file_dev \<Rightarrow> ('f, 'r) file_dev" where
  "work_begins d = d\<lparr>fd_running := True\<rparr>"

definition drop_handler :: "nat \<Rightarrow> ('f, 'r) file_dev \<Rightarrow> ('f, 'r) file_dev" where
  "drop_handler i d = d\<lparr>fd_handlers := (fd_handlers d)[i := False]\<rparr>"

definition work_ends :: "('f \<Rightarrow> file_op \<Rightarrow> 'f \<times> 'r) \<Rightarrow> ('f, 'r) file_dev \<Rightarrow> ('f, 'r) file_dev option" where
  "work_ends cio d = (case m_file d of
     None \<Rightarrow> None
   | Some f \<Rightarrow>
       (let i = length (fd_results d) in
        if \<not> fd_handlers d ! i then None
        else let (f, r) = cio f (fd_requests d ! i); d = d\<lparr>m_file := Some f, fd_running := False, fd_results := fd_results d @ [r]\<rparr> in
          Some (if m_resultCtx d = CtxOpen then d else drop_handler i d)))"

text \<open>The handler is called on m_resultCtx, and destroyed after it.\<close>

definition work_answers :: "('f, 'r) file_dev \<Rightarrow> ('f, 'r) file_dev" where
  "work_answers d = (let i = length (fd_answers d) in
     drop_handler i (d\<lparr>fd_answers := fd_answers d @ [fd_results d ! i]\<rparr>))"

text \<open>
  The close of m_resultCtx, by the destructor or when the parent closes: the calls queued there are
  dropped; the handlers of requests that are not done stay with these. The close of m_ioCtx
  drops the requests that have not begun.
\<close>

definition result_close :: "('f, 'r) file_dev \<Rightarrow> ('f, 'r) file_dev" where
  "result_close d = d\<lparr>m_resultCtx := CtxClosed,
     fd_handlers := map (\<lambda>i. if i < length (fd_results d) then False else fd_handlers d ! i) [0..<length (fd_handlers d)]\<rparr>"

definition io_close :: "('f, 'r) file_dev \<Rightarrow> ('f, 'r) file_dev" where
  "io_close d = d\<lparr>m_ioCtx := CtxClosed, fd_requests := take (length (fd_results d)) (fd_requests d),
     fd_handlers := take (length (fd_results d)) (fd_handlers d)\<rparr>"

definition file_fclose :: "('f, 'r) file_dev \<Rightarrow> ('f, 'r) file_dev option" where
  "file_fclose d = (if m_file d = None then None else Some (d\<lparr>m_file := None\<rparr>))"

inductive file_step :: "('f \<Rightarrow> file_op \<Rightarrow> 'f \<times> 'r) \<Rightarrow> ('f, 'r) file_dev \<Rightarrow> ('f, 'r) file_dev option \<Rightarrow> bool"
  for cio where
  fs_request: "m_ioCtx d = CtxOpen \<Longrightarrow> m_resultCtx d = CtxOpen \<Longrightarrow> file_step cio d (Some (fst (file_request q d)))"
| fs_begins: "m_ioCtx d = CtxOpen \<Longrightarrow> \<not> fd_running d \<Longrightarrow> length (fd_results d) < length (fd_requests d) \<Longrightarrow>
    file_step cio d (Some (work_begins d))"
| fs_ends: "fd_running d \<Longrightarrow> file_step cio d (work_ends cio d)"
| fs_answers: "m_resultCtx d = CtxOpen \<Longrightarrow> length (fd_answers d) < length (fd_results d) \<Longrightarrow>
    file_step cio d (Some (work_answers d))"
| fs_result_close: "m_resultCtx d = CtxOpen \<Longrightarrow> file_step cio d (Some (result_close d))"
| fs_io_refuses: "m_ioCtx d = CtxOpen \<Longrightarrow> file_step cio d (Some (d\<lparr>m_ioCtx := CtxClosing\<rparr>))"
| fs_io_close: "m_ioCtx d = CtxClosing \<Longrightarrow> \<not> fd_running d \<Longrightarrow> file_step cio d (Some (io_close d))"
| fs_fclose: "m_ioCtx d = CtxClosed \<Longrightarrow> m_resultCtx d = CtxClosed \<Longrightarrow> m_file d \<noteq> None \<Longrightarrow>
    file_step cio d (file_fclose d)"

inductive file_reachable :: "('f \<Rightarrow> file_op \<Rightarrow> 'f \<times> 'r) \<Rightarrow> 'f \<Rightarrow> ('f, 'r) file_dev \<Rightarrow> bool" for cio f0 where
  file_start: "file_open fopen CtxOpen fileName mode = Inr d \<Longrightarrow> fopen fileName (toFOpenMode mode) = Inr f0 \<Longrightarrow>
    file_reachable cio f0 d"
| file_more: "file_reachable cio f0 d \<Longrightarrow> file_step cio d (Some d') \<Longrightarrow> file_reachable cio f0 d'"

section \<open>In order, on a living file\<close>

text \<open>The requests one after the other on the FILE, without threads.\<close>

fun serial_io :: "('f \<Rightarrow> file_op \<Rightarrow> 'f \<times> 'r) \<Rightarrow> 'f \<Rightarrow> file_op list \<Rightarrow> 'f \<times> 'r list" where
  "serial_io cio f [] = (f, [])"
| "serial_io cio f (q # qs) = (let (f, r) = cio f q; (f, rs) = serial_io cio f qs in (f, r # rs))"

lemma serial_io_snoc:
  "serial_io cio f (qs @ [q]) = (let (f1, rs) = serial_io cio f qs; (f2, r) = cio f1 q in (f2, rs @ [r]))"
  by (induction qs arbitrary: f) (auto simp: Let_def split: prod.splits)

definition file_order_inv :: "('f \<Rightarrow> file_op \<Rightarrow> 'f \<times> 'r) \<Rightarrow> 'f \<Rightarrow> ('f, 'r) file_dev \<Rightarrow> bool" where
  "file_order_inv cio f0 d \<longleftrightarrow> length (fd_results d) \<le> length (fd_requests d) \<and>
     fd_results d = snd (serial_io cio f0 (take (length (fd_results d)) (fd_requests d))) \<and>
     (\<forall>f. m_file d = Some f \<longrightarrow> f = fst (serial_io cio f0 (take (length (fd_results d)) (fd_requests d)))) \<and>
     length (fd_answers d) \<le> length (fd_results d) \<and> fd_answers d = take (length (fd_answers d)) (fd_results d)"

definition file_life_inv :: "('f, 'r) file_dev \<Rightarrow> bool" where
  "file_life_inv d \<longleftrightarrow> length (fd_handlers d) = length (fd_requests d) \<and>
     (fd_running d \<longrightarrow> m_ioCtx d \<noteq> CtxClosed \<and> length (fd_results d) < length (fd_requests d)) \<and>
     (m_ioCtx d = CtxClosed \<longrightarrow> length (fd_requests d) = length (fd_results d)) \<and>
     (m_file d = None \<longrightarrow> m_ioCtx d = CtxClosed \<and> m_resultCtx d = CtxClosed) \<and>
     m_resultCtx d \<noteq> CtxClosing \<and>
     (\<forall>i<length (fd_handlers d). fd_handlers d ! i \<longleftrightarrow>
        (if m_resultCtx d = CtxOpen then length (fd_answers d) \<le> i else length (fd_results d) \<le> i))"

lemma file_order_step:
  assumes "file_step cio d (Some d')" and o: "file_order_inv cio f0 d" and l: "file_life_inv d"
  shows "file_order_inv cio f0 d'"
  using assms(1)
proof cases
  case fs_ends
  then obtain f where f: "m_file d = Some f" by (auto simp: work_ends_def split: option.splits)
  let ?n = "length (fd_results d)"
  have n: "?n < length (fd_requests d)" using l fs_ends by (simp add: file_life_inv_def)
  obtain f' r where c: "cio f (fd_requests d ! ?n) = (f', r)" by fastforce
  have "serial_io cio f0 (take ?n (fd_requests d)) = (f, fd_results d)"
    using o f by (auto simp: file_order_inv_def prod_eq_iff)
  then have "serial_io cio f0 (take (Suc ?n) (fd_requests d)) = (f', fd_results d @ [r])"
    using c n by (simp add: take_Suc_conv_app_nth serial_io_snoc)
  then show ?thesis using o n c f fs_ends(1)
    by (auto simp: file_order_inv_def work_ends_def Let_def drop_handler_def split: if_splits)
next
  case fs_answers
  then show ?thesis using o
    by (simp add: file_order_inv_def work_answers_def Let_def drop_handler_def take_Suc_conv_app_nth)
qed (use o in \<open>auto simp: file_order_inv_def file_request_def work_begins_def result_close_def io_close_def file_fclose_def\<close>)

lemma file_life_step:
  assumes "file_step cio d r" and o: "file_order_inv cio f0 d" and l: "file_life_inv d"
  shows "\<exists>d'. r = Some d' \<and> file_life_inv d'"
  using assms(1)
proof cases
  case (fs_request q)
  have "length (fd_answers d) \<le> length (fd_handlers d)" using o l by (auto simp: file_order_inv_def file_life_inv_def)
  then show ?thesis using l fs_request
    by (auto simp: file_life_inv_def file_request_def Let_def nth_append less_Suc_eq)
next
  case fs_ends
  let ?n = "length (fd_results d)"
  obtain f where f: "m_file d = Some f" using l fs_ends by (auto simp: file_life_inv_def)
  have n: "?n < length (fd_handlers d)" "fd_handlers d ! ?n" "length (fd_answers d) \<le> ?n"
    using l o fs_ends(2) by (auto simp: file_life_inv_def file_order_inv_def)
  obtain f' r' where c: "cio f (fd_requests d ! ?n) = (f', r')" by fastforce
  let ?d = "d\<lparr>m_file := Some f', fd_running := False, fd_results := fd_results d @ [r']\<rparr>"
  let ?e = "if m_resultCtx d = CtxOpen then ?d else drop_handler ?n ?d"
  have "r = Some ?e" using fs_ends(1) f n(2) c by (simp add: work_ends_def Let_def)
  moreover have "file_life_inv ?e" using l n fs_ends(2)
    by (auto simp: file_life_inv_def drop_handler_def nth_list_update less_Suc_eq_le)
  ultimately show ?thesis by blast
next
  case fs_answers
  then have "length (fd_answers d) < length (fd_handlers d)" using o l by (auto simp: file_order_inv_def file_life_inv_def)
  then show ?thesis using l o fs_answers
    by (auto simp: file_life_inv_def work_answers_def Let_def drop_handler_def nth_list_update)
next
  case fs_result_close
  then show ?thesis using l o by (auto simp: file_life_inv_def file_order_inv_def result_close_def)
next
  case fs_io_close
  then show ?thesis using l o by (auto simp: file_life_inv_def file_order_inv_def io_close_def)
qed (use l in \<open>auto simp: file_life_inv_def work_begins_def file_fclose_def\<close>)

lemma file_reachable_inv: "file_reachable cio f0 d \<Longrightarrow> file_order_inv cio f0 d \<and> file_life_inv d"
proof (induction rule: file_reachable.induct)
  case (file_start fopen fileName mode d)
  then show ?case by (auto simp: file_open_def file_order_inv_def file_life_inv_def)
next
  case (file_more d d')
  then have inv: "file_order_inv cio f0 d" "file_life_inv d" by simp_all
  from file_life_step[OF file_more.hyps(2) inv] file_order_step[OF file_more.hyps(2) inv] show ?case by simp
qed

text \<open>
  C30: a file used while its user's context is open, whose context and whose object then end in any
  way and at any moment: no thread reads or writes a FILE that was closed or a buffer that is
  gone; the requests reach the C library one at a time in the order in which they were made, and
  handlers are called in that order, each at most once, with what the library answered; and when the
  file is closed no handler is left.
\<close>

theorem file_serves_in_order:
  assumes "file_reachable cio f0 d"
  shows "\<not> file_step cio d None \<and>
    fd_results d = snd (serial_io cio f0 (take (length (fd_results d)) (fd_requests d))) \<and>
    (\<exists>n\<le>length (fd_results d). fd_answers d = take n (fd_results d)) \<and>
    (m_file d = None \<longrightarrow> True \<notin> set (fd_handlers d) \<and> \<not> fd_running d)"
proof -
  from file_reachable_inv[OF assms] have o: "file_order_inv cio f0 d" and l: "file_life_inv d" by simp_all
  have "\<not> file_step cio d None" using file_life_step[OF _ o l] by blast
  moreover have "\<exists>n\<le>length (fd_results d). fd_answers d = take n (fd_results d)"
    using o by (intro exI[of _ "length (fd_answers d)"]) (simp add: file_order_inv_def)
  moreover have "True \<notin> set (fd_handlers d) \<and> \<not> fd_running d" if "m_file d = None"
    using l that by (auto simp: file_life_inv_def in_set_conv_nth)
  ultimately show ?thesis using o unfolding file_order_inv_def by blast
qed

text \<open>An example: a read is in progress when the user's context closes; it still ends.\<close>

definition demo_cio :: "u8 list \<Rightarrow> file_op \<Rightarrow> u8 list \<times> (error_code option \<times> nat)" where
  "demo_cio f q = (case q of
     FileRead n \<Rightarrow> (drop n f, file_result 0 (min n (length f)))
   | FileWrite bs \<Rightarrow> (f, file_result 0 (length bs)))"

lemma file_example:
  "file_reachable demo_cio [1, 2, 3]
     \<lparr>m_file = Some [3], fd_requests = [FileRead 2], fd_handlers = [False], fd_running = False,
      fd_results = [(None, 2)], fd_answers = [], m_ioCtx = CtxOpen, m_resultCtx = CtxClosed\<rparr>"
proof -
  let ?d = "\<lparr>m_file = Some [1, 2, 3], fd_requests = [], fd_handlers = [], fd_running = False, fd_results = [],
    fd_answers = [], m_ioCtx = CtxOpen, m_resultCtx = CtxOpen\<rparr> :: (u8 list, error_code option \<times> nat) file_dev"
  have "file_reachable demo_cio [1, 2, 3] ?d"
    by (rule file_start[of "\<lambda>_ _. Inr [1, 2, 3]" "''f''" ReadOnly]) (simp_all add: file_open_def)
  then have "file_reachable demo_cio [1, 2, 3] (?d\<lparr>fd_requests := [FileRead 2], fd_handlers := [True]\<rparr>)"
    by (rule file_more) (use fs_request[of ?d demo_cio "FileRead 2"] in \<open>simp add: file_request_def\<close>)
  then have "file_reachable demo_cio [1, 2, 3] (?d\<lparr>fd_requests := [FileRead 2], fd_handlers := [True], fd_running := True\<rparr>)"
    by (rule file_more)
      (use fs_begins[of "?d\<lparr>fd_requests := [FileRead 2], fd_handlers := [True]\<rparr>" demo_cio] in \<open>simp add: work_begins_def\<close>)
  then have r: "file_reachable demo_cio [1, 2, 3]
      (?d\<lparr>fd_requests := [FileRead 2], fd_handlers := [True], fd_running := True, m_resultCtx := CtxClosed\<rparr>)"
    by (rule file_more)
      (use fs_result_close[of "?d\<lparr>fd_requests := [FileRead 2], fd_handlers := [True], fd_running := True\<rparr>" demo_cio]
        in \<open>simp add: result_close_def\<close>)
  show ?thesis
    by (rule file_more[OF r])
      (use fs_ends[of "?d\<lparr>fd_requests := [FileRead 2], fd_handlers := [True], fd_running := True, m_resultCtx := CtxClosed\<rparr>" demo_cio]
        in \<open>simp add: work_ends_def drop_handler_def demo_cio_def file_result_def currError_def toExceptionPtr_def numeral_2_eq_2\<close>)
qed

theorem file_serves_in_order_witness:
  "[(None, 2)] = snd (serial_io demo_cio [1, 2, 3] [FileRead 2])"
  using file_serves_in_order[OF file_example] by simp

text \<open>
  A read that is started when the user's context has closed: it throws, but its work stays in the
  queue, and a thread of the pool reads into the caller's buffer, which went with the handler.
\<close>

theorem file_read_after_close:
  assumes "m_ioCtx d = CtxOpen" and "m_resultCtx d = CtxClosed" and "fd_requests d = []" and "fd_results d = []" and "fd_handlers d = []"
  shows "snd (file_read n d)" and "work_ends cio (work_begins (fst (file_read n d))) = None"
  using assms by (auto simp: file_read_def file_request_def work_begins_def work_ends_def split: option.splits)

section \<open>Reading a file\<close>

text \<open>
  A read as the operations of IoDevice see it: fread answers the bytes and the flag of ferror; with
  an error the bytes read before it are given up. File::readAll opens and reads everything.
\<close>

definition file_io_read :: "('f \<Rightarrow> nat \<Rightarrow> 'f \<times> u8 list \<times> int) \<Rightarrow> 'f \<Rightarrow> nat \<Rightarrow> 'f \<times> error_code io_read" where
  "file_io_read fread f n = (case fread f n of (f, bs, flag) \<Rightarrow>
     (f, case fst (file_result flag (length bs)) of None \<Rightarrow> Inr bs | Some e \<Rightarrow> Inl e))"

definition File_readAll :: "(string \<Rightarrow> string \<Rightarrow> int + 'f) \<Rightarrow> ('f \<Rightarrow> nat \<Rightarrow> 'f \<times> u8 list \<times> int) \<Rightarrow> ctx_phase \<Rightarrow>
    string \<Rightarrow> error_code option + (error_code + u8 list) option" where
  "File_readAll fopen fread aoCtx fileName =
     (case (file_open fopen aoCtx fileName ReadOnly :: error_code option + ('f, nat) file_dev) of
        Inl e \<Rightarrow> Inl e
      | Inr d \<Rightarrow> Inr (Option.bind (m_file d) (\<lambda>f. map_option snd (readAll (file_io_read fread) f))))"

text \<open>What C promises of fread on a file whose device has no errors: up to n of the bytes left.\<close>

locale c_file =
  fixes fread :: "'f \<Rightarrow> nat \<Rightarrow> 'f \<times> u8 list \<times> int" and rest :: "'f \<Rightarrow> u8 list"
  assumes fread_takes: "fread f n = (f', bs, flag) \<Longrightarrow> flag = 0 \<and> bs = take n (rest f) \<and> rest f' = drop n (rest f)"
begin

lemma file_io_read_eq: "file_io_read fread f n = (fst (fread f n), Inr (take n (rest f)))"
  using fread_takes[of f n] by (cases "fread f n") (auto simp: file_io_read_def file_result_def currError_def toExceptionPtr_def)

end

sublocale c_file \<subseteq> file_contract: reader_contract "file_io_read fread" "\<lambda>f. (rest f, None)" "\<lambda>_. True"
proof
  fix f :: 'f and f' :: 'f and n :: nat and bs
  assume "file_io_read fread f n = (f', Inr bs)"
  then show "length bs \<le> n \<and> (rest f, None) = (bs @ fst (rest f', None), snd (rest f', None))"
    using fread_takes[of f n] by (cases "fread f n") (auto simp: file_io_read_eq)
qed (auto simp: file_io_read_eq)

context c_file
begin

lemma reads_all:
  assumes "fopen fileName ''rb'' = Inr f"
  shows "File_readAll fopen fread CtxOpen fileName = Inr (Some (Inr (rest f)))"
proof -
  obtain r' where "readAll (file_io_read fread) f = Some (r', Inr (rest f))"
    using file_contract.readAll_loop[of f "[]"] unfolding readAll_def by (auto simp: cut_short_def)
  then show ?thesis using assms by (simp add: File_readAll_def file_open_def)
qed

end

text \<open>A FILE over the bytes that are left of it.\<close>

definition fread_bytes :: "u8 list \<Rightarrow> nat \<Rightarrow> u8 list \<times> u8 list \<times> int" where
  "fread_bytes f n = (drop n f, take n f, 0)"

interpretation bytes_file: c_file fread_bytes "\<lambda>f. f"
  by unfold_locales (auto simp: fread_bytes_def)

lemma File_readAll_bytes:
  "File_readAll (\<lambda>name mode. if mode = ''rb'' then Inr content else Inl 13) fread_bytes CtxOpen name = Inr (Some (Inr content))"
  by (rule bytes_file.reads_all) simp

text \<open>A closed context, and a file that cannot be opened.\<close>

lemma File_readAll_errors:
  "File_readAll fopen fread CtxClosed name = Inl None"
  "fopen name ''rb'' = Inl errno \<Longrightarrow> File_readAll fopen fread CtxOpen name =
     Inl (Some \<lparr>err_category = SystemCategory, err_value = errno\<rparr>)"
  by (simp_all add: File_readAll_def file_open_def)

end
