(* ===== verification/ProducerLife.thy ===== *)
theory ProducerLife
  imports Consumers CtxCallback
begin

text \<open>
  The thread of FuncProducer (include/nhope/seq/func-producer.h) against the threads that start,
  stop and wait for it, and a Notifier (notifier.h) attached to it, whose handler runs on its
  AOContext: who makes a value, who hands it over and who sees it in the end.

  Of the context this uses what AOContext and Strand show: the work given to exec runs in order while the
  context is open and is dropped by a close. func is any function with a state; the contents of the
  consumer list are those of Consumers, here with one consumer.
\<close>

section \<open>The thread and the notifier\<close>

text \<open>
  Where the worker is: before its thread exists, at the test of m_state, before the call of m_func, before
  consume with a value, before the close of the list, at the end.
\<close>

datatype 'v fp_pc = FP_NoThread | FP_Test | FP_Call | FP_Deliver 'v | FP_CloseList | FP_End

record ('f, 'v) fp_sys =
  m_state :: fp_state
  fp_pc :: "'v fp_pc"
  fp_joinable :: bool
  fp_func :: 'f
  fp_value :: 'v             \<comment> \<open>the local variable value\<close>
  fp_attached :: bool        \<comment> \<open>the notifier's input is in the list\<close>
  nt_ctx :: ctx_phase
  nt_queue :: "'v list"      \<comment> \<open>calls of the handler given to the context\<close>
  nt_handled :: "'v list"    \<comment> \<open>ghost: the handler's arguments\<close>
  fp_produced :: "'v list"   \<comment> \<open>ghost: the values for which func answered true\<close>

definition fp_make :: "'f \<Rightarrow> 'v \<Rightarrow> ('f, 'v) fp_sys" where
  "fp_make f v = \<lparr>m_state = FP_ReadyToStart, fp_pc = FP_NoThread, fp_joinable = False, fp_func = f, fp_value = v,
     fp_attached = True, nt_ctx = CtxOpen, nt_queue = [], nt_handled = [], fp_produced = []\<rparr>"

definition user_start :: "('f, 'v) fp_sys \<Rightarrow> ('f, 'v) fp_sys \<times> bool" where
  "user_start s = (case fp_start (m_state s) of
     (st, True) \<Rightarrow> (s\<lparr>m_state := st, fp_pc := FP_Test, fp_joinable := True\<rparr>, True)
   | (st, False) \<Rightarrow> (s\<lparr>m_state := st\<rparr>, False))"

definition user_stop :: "('f, 'v) fp_sys \<Rightarrow> ('f, 'v) fp_sys" where
  "user_stop s = s\<lparr>m_state := fp_stop (m_state s)\<rparr>"

text \<open>wait joins a thread that has been started and not joined yet; None: it blocks.\<close>

definition user_wait :: "('f, 'v) fp_sys \<Rightarrow> ('f, 'v) fp_sys option" where
  "user_wait s = (if \<not> fp_joinable s then Some s
     else if fp_pc s \<noteq> FP_End then None
     else Some (s\<lparr>fp_joinable := False\<rparr>))"

text \<open>
  The notifier's input: the safe handler checks the context and then posts the call; a close may
  begin in between (c'). The value goes to the context, is lost, or makes the input answer Closed.
\<close>

definition input_consume :: "ctx_phase \<Rightarrow> 'v \<Rightarrow> ('f, 'v) fp_sys \<Rightarrow> ('f, 'v) fp_sys" where
  "input_consume c' v s =
     (case notifier_consume (\<lambda>s v. case safe_call ThrowAOContextClosed (nt_ctx s) c' of
         Inl e \<Rightarrow> (s, Inl AOContextClosedExn :: unit notifier_exn + unit)
       | Inr posted \<Rightarrow> (if posted then s\<lparr>nt_queue := nt_queue s @ [v]\<rparr> else s, Inr ())) s v of
       (s, Inr Status_Closed) \<Rightarrow> s\<lparr>fp_attached := False\<rparr>
     | (s, _) \<Rightarrow> s)"

text \<open>run: one step of the worker.\<close>

inductive worker :: "('f \<Rightarrow> 'v \<Rightarrow> 'f \<times> 'v \<times> bool) \<Rightarrow> ('f, 'v) fp_sys \<Rightarrow> ('f, 'v) fp_sys \<Rightarrow> bool" for func where
  w_test: "fp_pc s = FP_Test \<Longrightarrow>
    worker func s (s\<lparr>fp_pc := if m_state s = FP_Running then FP_Call else FP_CloseList\<rparr>)"
| w_call: "fp_pc s = FP_Call \<Longrightarrow> func (fp_func s) (fp_value s) = (f, v, go) \<Longrightarrow>
    worker func s (s\<lparr>fp_func := f, fp_value := v, fp_pc := if go then FP_Deliver v else FP_CloseList,
      fp_produced := if go then fp_produced s @ [v] else fp_produced s\<rparr>)"
| w_deliver: "fp_pc s = FP_Deliver v \<Longrightarrow> nt_ctx s \<le> c' \<Longrightarrow>
    worker func s (if fp_attached s then (input_consume c' v s)\<lparr>fp_pc := FP_Test, nt_ctx := c'\<rparr>
      else s\<lparr>fp_pc := FP_Test\<rparr>)"
| w_close: "fp_pc s = FP_CloseList \<Longrightarrow> worker func s (s\<lparr>fp_pc := FP_End, fp_attached := False\<rparr>)"

text \<open>Everything that can happen; the context calls the handler, and may be closed.\<close>

inductive fp_step :: "('f \<Rightarrow> 'v \<Rightarrow> 'f \<times> 'v \<times> bool) \<Rightarrow> ('f, 'v) fp_sys \<Rightarrow> ('f, 'v) fp_sys \<Rightarrow> bool" for func where
  fp_starts: "fp_step func s (fst (user_start s))"
| fp_stops: "fp_step func s (user_stop s)"
| fp_waits: "user_wait s = Some s' \<Longrightarrow> fp_step func s s'"
| fp_works: "worker func s s' \<Longrightarrow> fp_step func s s'"
| nt_calls: "nt_ctx s = CtxOpen \<Longrightarrow> nt_queue s = v # vs \<Longrightarrow>
    fp_step func s (s\<lparr>nt_queue := vs, nt_handled := nt_handled s @ [v]\<rparr>)"
| nt_closes: "nt_ctx s \<le> c \<Longrightarrow> fp_step func s (s\<lparr>nt_ctx := c, nt_queue := if c = CtxClosed then [] else nt_queue s\<rparr>)"

inductive fp_reachable :: "('f \<Rightarrow> 'v \<Rightarrow> 'f \<times> 'v \<times> bool) \<Rightarrow> 'f \<Rightarrow> 'v \<Rightarrow> ('f, 'v) fp_sys \<Rightarrow> bool" for func f0 v0 where
  fp_reach_make: "fp_reachable func f0 v0 (fp_make f0 v0)"
| fp_reach_step: "fp_reachable func f0 v0 s \<Longrightarrow> fp_step func s s' \<Longrightarrow> fp_reachable func f0 v0 s'"

section \<open>What the handler sees\<close>

text \<open>The value that has been made and not been handed over yet.\<close>

definition in_hand :: "('f, 'v) fp_sys \<Rightarrow> 'v list" where
  "in_hand s = (case fp_pc s of FP_Deliver v \<Rightarrow> [v] | _ \<Rightarrow> [])"

definition fp_inv :: "('f, 'v) fp_sys \<Rightarrow> bool" where
  "fp_inv s \<longleftrightarrow> (fp_pc s = FP_NoThread \<longleftrightarrow> m_state s = FP_ReadyToStart) \<and>
     (fp_joinable s \<longrightarrow> fp_pc s \<noteq> FP_NoThread) \<and> (\<not> fp_joinable s \<longrightarrow> fp_pc s \<in> {FP_NoThread, FP_End}) \<and>
     (fp_pc s = FP_End \<longrightarrow> \<not> fp_attached s) \<and>
     (fp_attached s \<or> fp_pc s = FP_End \<or> nt_ctx s \<noteq> CtxOpen) \<and>
     (\<exists>lost. fp_produced s = nt_handled s @ nt_queue s @ lost @ in_hand s \<and> (nt_ctx s = CtxOpen \<longrightarrow> lost = []))"

lemma input_consume_eq:
  "input_consume c' v s = (if nt_ctx s \<noteq> CtxOpen then s\<lparr>fp_attached := False\<rparr>
     else if c' = CtxOpen then s\<lparr>nt_queue := nt_queue s @ [v]\<rparr> else s)"
  by (simp add: input_consume_def notifier_consume_def safe_call_def)

lemma ctx_open_le [simp]: "c \<le> CtxOpen \<longleftrightarrow> c = CtxOpen" "CtxClosed \<le> c \<longleftrightarrow> c = CtxClosed"
  by (cases c; simp add: less_eq_ctx_phase_def)+

lemma worker_inv:
  assumes "worker func s s'" and "fp_inv s"
  shows "fp_inv s'"
  using assms
proof cases
  case w_call
  then show ?thesis using assms(2) by (auto simp: fp_inv_def in_hand_def)
next
  case (w_deliver v c')
  obtain lost where l: "fp_produced s = nt_handled s @ nt_queue s @ lost @ [v]" "nt_ctx s = CtxOpen \<longrightarrow> lost = []"
    using assms(2) w_deliver by (auto simp: fp_inv_def in_hand_def)
  show ?thesis
  proof (cases "nt_ctx s = CtxOpen \<and> c' = CtxOpen")
    case True
    then show ?thesis using assms(2) w_deliver l by (auto simp: fp_inv_def in_hand_def input_consume_eq)
  next
    case False
    then show ?thesis using assms(2) w_deliver l
      by (auto simp: fp_inv_def in_hand_def input_consume_eq intro!: exI[of _ "lost @ [v]"])
  qed
qed (auto simp: fp_inv_def in_hand_def)

lemma fp_step_inv:
  assumes "fp_step func s s'" and "fp_inv s"
  shows "fp_inv s'"
  using assms
proof cases
  case fp_works
  then show ?thesis using worker_inv assms(2) by blast
next
  case (nt_closes c)
  obtain lost where l: "fp_produced s = nt_handled s @ nt_queue s @ lost @ in_hand s" "nt_ctx s = CtxOpen \<longrightarrow> lost = []"
    using assms(2) by (auto simp: fp_inv_def)
  show ?thesis
  proof (cases "c = CtxClosed")
    case True
    then show ?thesis using assms(2) nt_closes l
      by (auto simp: fp_inv_def in_hand_def intro!: exI[of _ "nt_queue s @ lost"])
  next
    case False
    then show ?thesis using assms(2) nt_closes l by (auto simp: fp_inv_def in_hand_def)
  qed
qed (auto simp: fp_inv_def in_hand_def user_start_def fp_start_def user_stop_def fp_stop_def user_wait_def split: if_splits)

lemma fp_reachable_inv: "fp_reachable func f0 v0 s \<Longrightarrow> fp_inv s"
proof (induction rule: fp_reachable.induct)
  case fp_reach_make
  show ?case by (simp add: fp_inv_def fp_make_def in_hand_def)
next
  case (fp_reach_step s s')
  then show ?case using fp_step_inv by blast
qed

section \<open>What stop does\<close>

text \<open>How many steps the worker has left once stop was called, and the values it may still make.\<close>

fun stop_rank :: "'v fp_pc \<Rightarrow> nat" where
  "stop_rank FP_NoThread = 0"
| "stop_rank FP_End = 0"
| "stop_rank FP_CloseList = 1"
| "stop_rank FP_Test = 2"
| "stop_rank (FP_Deliver v) = 3"
| "stop_rank FP_Call = 4"

lemma produce_stop_rank:
  assumes "worker func s s'" and "m_state s = FP_Stopping"
  shows "m_state s' = FP_Stopping \<and> stop_rank (fp_pc s') < stop_rank (fp_pc s)"
  using assms by cases (auto simp: input_consume_eq)

lemma worker_enabled:
  assumes "fp_pc s \<noteq> FP_NoThread" and "fp_pc s \<noteq> FP_End"
  shows "\<exists>s'. worker func s s'"
proof (cases "fp_pc s")
  case FP_Call
  obtain f v go where "func (fp_func s) (fp_value s) = (f, v, go)" by (metis prod_cases3)
  with FP_Call show ?thesis by (blast intro: w_call)
next
  case (FP_Deliver v)
  from w_deliver[OF FP_Deliver order_refl] show ?thesis by blast
qed (use assms in \<open>auto intro: w_test w_close\<close>)

text \<open>
  C12: whatever the threads do, the handler of the notifier is called with the values that func made,
  from the first on, in order and none twice; with all of them when the context stays open and
  everything queued has run. Once stop was called the worker takes at most four steps to
  its end and never waits, so that wait returns; and when it has, the list has let go of the notifier.
\<close>

theorem notifier_sees_produced:
  assumes "fp_reachable func f0 v0 s"
  shows "(\<exists>n. nt_handled s = take n (fp_produced s)) \<and>
    (nt_ctx s = CtxOpen \<and> nt_queue s = [] \<and> in_hand s = [] \<longrightarrow> nt_handled s = fp_produced s) \<and>
    (m_state s = FP_Stopping \<longrightarrow> fp_pc s = FP_End \<and> user_wait s \<noteq> None \<and> \<not> fp_attached s \<or>
      (\<exists>s'. worker func s s') \<and> stop_rank (fp_pc s) \<le> 4 \<and>
      (\<forall>s'. worker func s s' \<longrightarrow> m_state s' = FP_Stopping \<and> stop_rank (fp_pc s') < stop_rank (fp_pc s)))"
proof -
  from fp_reachable_inv[OF assms] obtain lost where inv: "fp_inv s"
    and l: "fp_produced s = nt_handled s @ nt_queue s @ lost @ in_hand s" "nt_ctx s = CtxOpen \<longrightarrow> lost = []"
    by (auto simp: fp_inv_def)
  have stops: "fp_pc s = FP_End \<and> user_wait s \<noteq> None \<and> \<not> fp_attached s \<or>
      (\<exists>s'. worker func s s') \<and> stop_rank (fp_pc s) \<le> 4 \<and>
      (\<forall>s'. worker func s s' \<longrightarrow> m_state s' = FP_Stopping \<and> stop_rank (fp_pc s') < stop_rank (fp_pc s))"
    if stop: "m_state s = FP_Stopping"
  proof (cases "fp_pc s = FP_End")
    case True
    then show ?thesis using inv by (auto simp: fp_inv_def user_wait_def)
  next
    case False
    moreover have "fp_pc s \<noteq> FP_NoThread" using inv stop by (auto simp: fp_inv_def)
    ultimately show ?thesis using worker_enabled[of s func] produce_stop_rank[OF _ stop, of func]
      by (cases "fp_pc s") auto
  qed
  have "\<exists>n. nt_handled s = take n (fp_produced s)" using l(1) by (intro exI[of _ "length (nt_handled s)"]) simp
  then show ?thesis using l stops by simp
qed

text \<open>One value, handled before the function answers false.\<close>

lemma fp_example:
  "fp_reachable (\<lambda>f v. (Suc f, f * 10, f < 2)) 1 (0 :: nat)
     \<lparr>m_state = FP_Stopping, fp_pc = FP_Test, fp_joinable = True, fp_func = 2, fp_value = 10, fp_attached = True,
      nt_ctx = CtxOpen, nt_queue = [], nt_handled = [10], fp_produced = [10]\<rparr>"
proof -
  let ?func = "\<lambda>f v. (Suc f, f * 10, f < 2) :: nat \<times> nat \<times> bool"
  let ?s = "\<lambda>st pc f v q hd pr. \<lparr>m_state = st, fp_pc = pc, fp_joinable = True, fp_func = f, fp_value = v,
    fp_attached = True, nt_ctx = CtxOpen, nt_queue = q, nt_handled = hd, fp_produced = pr\<rparr>"
  have "fp_reachable ?func 1 0 (?s FP_Running FP_Test 1 0 [] [] [])"
    by (rule fp_reach_step[OF fp_reach_make])
      (use fp_starts[of ?func "fp_make 1 0"] in \<open>simp add: fp_make_def user_start_def fp_start_def\<close>)
  then have "fp_reachable ?func 1 0 (?s FP_Running FP_Call 1 0 [] [] [])"
    by (rule fp_reach_step) (rule fp_works, use w_test[of "?s FP_Running FP_Test 1 0 [] [] []" ?func] in simp)
  then have "fp_reachable ?func 1 0 (?s FP_Running (FP_Deliver 10) 2 10 [] [] [10])"
    by (rule fp_reach_step)
      (rule fp_works, use w_call[of "?s FP_Running FP_Call 1 0 [] [] []" ?func 2 10 True] in \<open>simp add: numeral_2_eq_2\<close>)
  then have "fp_reachable ?func 1 0 (?s FP_Running FP_Test 2 10 [10] [] [10])"
    by (rule fp_reach_step)
      (rule fp_works, use w_deliver[of "?s FP_Running (FP_Deliver 10) 2 10 [] [] [10]" 10 CtxOpen ?func]
        in \<open>simp add: input_consume_eq\<close>)
  then have "fp_reachable ?func 1 0 (?s FP_Running FP_Test 2 10 [] [10] [10])"
    by (rule fp_reach_step) (use nt_calls[of "?s FP_Running FP_Test 2 10 [10] [] [10]" 10 "[]" ?func] in simp)
  then show ?thesis
    by (rule fp_reach_step)
      (use fp_stops[of ?func "?s FP_Running FP_Test 2 10 [] [10] [10]"] in \<open>simp add: user_stop_def fp_stop_def\<close>)
qed

theorem notifier_sees_produced_witness:
  "\<exists>s'. worker (\<lambda>f v. (Suc f, f * 10, f < 2))
     \<lparr>m_state = FP_Stopping, fp_pc = FP_Test, fp_joinable = True, fp_func = 2, fp_value = 10, fp_attached = True,
      nt_ctx = CtxOpen, nt_queue = [], nt_handled = [10], fp_produced = [10 :: nat]\<rparr> s'"
  using notifier_sees_produced[OF fp_example] by simp

end
