(* ===== verification/ConcatOnContext.thy ===== *)
theory ConcatOnContext
  imports Readers
begin

text \<open>
  ConcatReader of lib/io/io-device.cpp with its context: startRead is a job of the context, which asks the
  first reader; its answer comes at any time and is handled by another job, which may start again with
  the next reader. Readers has the reader without the context, as one function. Of the context this uses
  what AOContext and Strand show: a job runs while the context is open, and is dropped, with the
  handler that it holds, by a close.

  rd is the read of the readers that are concatenated. A reader that was asked may also destroy the callback without
  calling it: it has a context of its own, which closes.
\<close>

section \<open>The reader\<close>

datatype 'e concat_pc =
    CR_Idle
  | CR_Job nat                  \<comment> \<open>the job of startRead is queued, for a buffer of n bytes\<close>
  | CR_Asked nat                \<comment> \<open>the first reader has been asked; it holds the callback\<close>
  | CR_Answered nat "'e io_read"   \<comment> \<open>the job that handles its answer is queued\<close>
  | CR_Gone                     \<comment> \<open>the handler was destroyed without a call\<close>

record ('r, 'e) concat_dev =
  m_readers :: "'r list"
  cr_pc :: "'e concat_pc"
  cr_ctx :: ctx_phase
  cr_dropped :: bool               \<comment> \<open>ghost: a reader destroyed its callback uncalled\<close>
  cr_reads :: "nat list"           \<comment> \<open>ghost: the reads that were answered\<close>
  cr_answers :: "'e io_read list"  \<comment> \<open>ghost: what their handlers got\<close>

definition concat_make :: "'r list \<Rightarrow> ('r, 'e) concat_dev" where
  "concat_make readers = \<lparr>m_readers = readers, cr_pc = CR_Idle, cr_ctx = CtxOpen, cr_dropped = False, cr_reads = [], cr_answers = []\<rparr>"

definition startRead :: "nat \<Rightarrow> ('r, 'e) concat_dev \<Rightarrow> ('r, 'e) concat_dev" where
  "startRead n d = d\<lparr>cr_pc := if cr_ctx d = CtxOpen then CR_Job n else CR_Gone\<rparr>"

definition call_handler :: "nat \<Rightarrow> 'e io_read \<Rightarrow> ('r, 'e) concat_dev \<Rightarrow> ('r, 'e) concat_dev" where
  "call_handler n res d = d\<lparr>cr_pc := CR_Idle, cr_reads := cr_reads d @ [n], cr_answers := cr_answers d @ [res]\<rparr>"

definition startRead_job :: "nat \<Rightarrow> ('r, 'e) concat_dev \<Rightarrow> ('r, 'e) concat_dev" where
  "startRead_job n d = (if m_readers d = [] then call_handler n (Inr []) d else d\<lparr>cr_pc := CR_Asked n\<rparr>)"

text \<open>The callback given to the first reader; None when that reader is gone.\<close>

definition front_answers :: "('r \<Rightarrow> nat \<Rightarrow> 'r \<times> 'e io_read) \<Rightarrow> nat \<Rightarrow> ('r, 'e) concat_dev \<Rightarrow> ('r, 'e) concat_dev option" where
  "front_answers rd n d = (case m_readers d of
     [] \<Rightarrow> None
   | r # rs \<Rightarrow> (let (r, res) = rd r n in
       Some (d\<lparr>m_readers := r # rs, cr_pc := if cr_ctx d = CtxOpen then CR_Answered n res else CR_Gone\<rparr>)))"

text \<open>The reader destroys the callback, and the handler that it holds.\<close>

definition front_drops :: "('r, 'e) concat_dev \<Rightarrow> ('r, 'e) concat_dev" where
  "front_drops d = d\<lparr>cr_pc := CR_Gone, cr_dropped := True\<rparr>"

definition handle_answer :: "nat \<Rightarrow> 'e io_read \<Rightarrow> ('r, 'e) concat_dev \<Rightarrow> ('r, 'e) concat_dev" where
  "handle_answer n res d = (case res of
     Inl err \<Rightarrow> call_handler n (Inl err) d
   | Inr bs \<Rightarrow> (if length bs = 0 then startRead n (d\<lparr>m_readers := tl (m_readers d)\<rparr>)
       else call_handler n (Inr bs) d))"

definition concat_close :: "('r, 'e) concat_dev \<Rightarrow> ('r, 'e) concat_dev" where
  "concat_close d = d\<lparr>cr_ctx := CtxClosed, cr_pc := (case cr_pc d of
     CR_Job n \<Rightarrow> CR_Gone | CR_Answered n res \<Rightarrow> CR_Gone | p \<Rightarrow> p)\<rparr>"

inductive concat_step :: "('r \<Rightarrow> nat \<Rightarrow> 'r \<times> 'e io_read) \<Rightarrow> ('r, 'e) concat_dev \<Rightarrow> ('r, 'e) concat_dev option \<Rightarrow> bool"
  for rd where
  cr_job: "cr_pc d = CR_Job n \<Longrightarrow> cr_ctx d = CtxOpen \<Longrightarrow> concat_step rd d (Some (startRead_job n d))"
| cr_front: "cr_pc d = CR_Asked n \<Longrightarrow> concat_step rd d (front_answers rd n d)"
| cr_front_gone: "cr_pc d = CR_Asked n \<Longrightarrow> concat_step rd d (Some (front_drops d))"
| cr_handle: "cr_pc d = CR_Answered n res \<Longrightarrow> cr_ctx d = CtxOpen \<Longrightarrow> concat_step rd d (Some (handle_answer n res d))"

inductive concat_reachable :: "('r \<Rightarrow> nat \<Rightarrow> 'r \<times> 'e io_read) \<Rightarrow> 'r list \<Rightarrow> ('r, 'e) concat_dev \<Rightarrow> bool" for rd readers where
  cr_reach_make: "concat_reachable rd readers (concat_make readers)"
| cr_reach_read: "concat_reachable rd readers d \<Longrightarrow> cr_pc d = CR_Idle \<Longrightarrow> concat_reachable rd readers (startRead n d)"
| cr_reach_step: "concat_reachable rd readers d \<Longrightarrow> concat_step rd d (Some d') \<Longrightarrow> concat_reachable rd readers d'"
| cr_reach_close: "concat_reachable rd readers d \<Longrightarrow> concat_reachable rd readers (concat_close d)"

section \<open>The reader as a function\<close>

fun concat_read :: "('r \<Rightarrow> nat \<Rightarrow> 'r \<times> 'e io_read) \<Rightarrow> 'r list \<Rightarrow> nat \<Rightarrow> 'r list \<times> 'e io_read" where
  "concat_read rd [] n = ([], Inr [])"
| "concat_read rd (r # rs) n = (case rd r n of
     (r, Inl e) \<Rightarrow> (r # rs, Inl e)
   | (r, Inr bs) \<Rightarrow> (if length bs = 0 then concat_read rd rs n else (r # rs, Inr bs)))"

lemma concat_read_reader:
  "reader_read dev (ConcatReader rs) n = (case concat_read (reader_read dev) rs n of (rs, res) \<Rightarrow> (ConcatReader rs, res))"
  by (induction rs) (auto split: prod.splits sum.splits)

text \<open>Reads one after the other.\<close>

definition concat_reads :: "('r \<Rightarrow> nat \<Rightarrow> 'r \<times> 'e io_read) \<Rightarrow> 'r list \<Rightarrow> nat list \<Rightarrow> 'r list \<times> 'e io_read list" where
  "concat_reads rd readers ns = foldl (\<lambda>(rs, answers) n. let (rs, res) = concat_read rd rs n in (rs, answers @ [res])) (readers, []) ns"

lemma concat_reads_snoc:
  "concat_reads rd readers (ns @ [n]) =
     (let (rs, answers) = concat_reads rd readers ns; (rs, res) = concat_read rd rs n in (rs, answers @ [res]))"
  by (simp add: concat_reads_def Let_def split: prod.splits)

text \<open>The read in progress comes to what a read of the readers that were there at its begin comes to.\<close>

definition concat_inv :: "('r \<Rightarrow> nat \<Rightarrow> 'r \<times> 'e io_read) \<Rightarrow> 'r list \<Rightarrow> ('r, 'e) concat_dev \<Rightarrow> bool" where
  "concat_inv rd readers d \<longleftrightarrow> (\<exists>rs. concat_reads rd readers (cr_reads d) = (rs, cr_answers d) \<and>
     (case cr_pc d of
        CR_Idle \<Rightarrow> m_readers d = rs
      | CR_Job n \<Rightarrow> concat_read rd (m_readers d) n = concat_read rd rs n
      | CR_Asked n \<Rightarrow> m_readers d \<noteq> [] \<and> concat_read rd (m_readers d) n = concat_read rd rs n
      | CR_Answered n res \<Rightarrow> m_readers d \<noteq> [] \<and> concat_read rd rs n =
          (if res = Inr [] then concat_read rd (tl (m_readers d)) n else (m_readers d, res))
      | CR_Gone \<Rightarrow> cr_ctx d = CtxClosed \<or> cr_dropped d)) \<and> cr_ctx d \<noteq> CtxClosing"

lemmas concat_op_defs = startRead_def startRead_job_def call_handler_def front_answers_def front_drops_def handle_answer_def concat_close_def

lemma concat_step_inv:
  assumes "concat_step rd d r" and "concat_inv rd readers d"
  shows "\<exists>d'. r = Some d' \<and> concat_inv rd readers d'"
  using assms
proof cases
  case (cr_job n)
  then show ?thesis using assms(2)
    by (cases "m_readers d") (auto simp: concat_inv_def concat_op_defs concat_reads_snoc Let_def split: prod.splits)
next
  case (cr_front n)
  then obtain r0 rs0 where d: "m_readers d = r0 # rs0" using assms(2) by (cases "m_readers d") (auto simp: concat_inv_def)
  obtain r' res where rd: "rd r0 n = (r', res)" by fastforce
  show ?thesis using assms(2) cr_front d rd
    by (cases "cr_ctx d"; cases res) (auto simp: concat_inv_def concat_op_defs split: if_splits)
next
  case (cr_front_gone n)
  then show ?thesis using assms(2) by (auto simp: concat_inv_def concat_op_defs)
next
  case (cr_handle n res)
  then show ?thesis using assms(2)
    by (cases res) (auto simp: concat_inv_def concat_op_defs concat_reads_snoc Let_def split: prod.splits)
qed

lemma concat_reachable_inv: "concat_reachable rd readers d \<Longrightarrow> concat_inv rd readers d"
proof (induction rule: concat_reachable.induct)
  case cr_reach_make
  show ?case by (simp add: concat_inv_def concat_make_def concat_reads_def)
next
  case (cr_reach_read d n)
  then show ?case by (cases "cr_ctx d") (auto simp: concat_inv_def startRead_def)
next
  case (cr_reach_step d d')
  from concat_step_inv[OF cr_reach_step.hyps(2) cr_reach_step.IH] show ?case by auto
next
  case (cr_reach_close d)
  then show ?case by (cases "cr_pc d") (auto simp: concat_inv_def concat_close_def)
qed

text \<open>How many steps a read has left while the context stays open.\<close>

fun concat_rank :: "'e concat_pc \<Rightarrow> nat \<Rightarrow> nat" where
  "concat_rank CR_Idle k = 0"
| "concat_rank CR_Gone k = 0"
| "concat_rank (CR_Job n) k = 3 * k + 1"
| "concat_rank (CR_Asked n) k = 3 * k"
| "concat_rank (CR_Answered n res) k = 3 * k - 1"

lemma concat_step_rank:
  assumes "concat_step rd d (Some d')" and "concat_inv rd readers d"
  shows "concat_rank (cr_pc d') (length (m_readers d')) < concat_rank (cr_pc d) (length (m_readers d))"
  using assms
proof cases
  case (cr_handle n res)
  then show ?thesis using assms(2)
    by (cases res; cases "m_readers d") (auto simp: concat_inv_def concat_op_defs)
qed (auto simp: concat_inv_def concat_op_defs split: list.splits prod.splits)

lemma concat_step_enabled:
  assumes "concat_inv rd readers d" and "cr_ctx d = CtxOpen" and "cr_pc d \<noteq> CR_Idle" and "cr_pc d \<noteq> CR_Gone"
  shows "\<exists>r. concat_step rd d r"
  using assms by (cases "cr_pc d") (auto simp: concat_inv_def intro: cr_job cr_front cr_handle)

text \<open>
  C31: The reads of a ConcatReader, each after the one before was answered: every answer is the one
  that the reader as a function gives, each handler is called at most once and none after the close,
  and the first reader is always there when it is asked. A handler is destroyed without a call only when the
  context of the ConcatReader has closed or the reader that was asked destroyed its callback. Otherwise, while
  the context is open, a read that has begun goes on to its answer, in at most three steps for each
  reader and one more.
\<close>

theorem concat_answers:
  assumes "concat_reachable rd readers d"
  shows "cr_answers d = snd (concat_reads rd readers (cr_reads d)) \<and> \<not> concat_step rd d None \<and>
    (cr_pc d = CR_Gone \<longrightarrow> cr_ctx d = CtxClosed \<or> cr_dropped d) \<and>
    (cr_ctx d = CtxOpen \<and> cr_pc d \<noteq> CR_Idle \<and> cr_pc d \<noteq> CR_Gone \<longrightarrow> (\<exists>d'. concat_step rd d (Some d'))) \<and>
    (\<forall>d'. concat_step rd d (Some d') \<longrightarrow>
      concat_rank (cr_pc d') (length (m_readers d')) < concat_rank (cr_pc d) (length (m_readers d))) \<and>
    concat_rank (cr_pc d) (length (m_readers d)) \<le> 3 * length (m_readers d) + 1"
proof -
  note inv = concat_reachable_inv[OF assms]
  have "\<exists>d'. concat_step rd d (Some d')" if "cr_ctx d = CtxOpen" "cr_pc d \<noteq> CR_Idle" "cr_pc d \<noteq> CR_Gone"
    using concat_step_enabled[OF inv that] concat_step_inv[OF _ inv] by blast
  moreover have "\<not> concat_step rd d None" using concat_step_inv[OF _ inv] by blast
  moreover have "concat_rank (cr_pc d) (length (m_readers d)) \<le> 3 * length (m_readers d) + 1"
    by (cases "cr_pc d") auto
  moreover have "cr_answers d = snd (concat_reads rd readers (cr_reads d))" using inv by (auto simp: concat_inv_def)
  moreover have "cr_pc d = CR_Gone \<longrightarrow> cr_ctx d = CtxClosed \<or> cr_dropped d" using inv by (auto simp: concat_inv_def)
  ultimately show ?thesis using concat_step_rank[OF _ inv] by blast
qed

text \<open>Two readers, the first of them empty.\<close>

theorem concat_answers_witness:
  "\<exists>d'. concat_step (string_read :: u8 list \<times> nat \<Rightarrow> nat \<Rightarrow> (u8 list \<times> nat) \<times> nat io_read)
    (startRead 2 (concat_make [([], 0), ([1, 2, 3], 0)])) (Some d')"
proof -
  let ?d = "concat_make [([], 0), ([1, 2, 3], 0)] :: (u8 list \<times> nat, nat) concat_dev"
  have "concat_reachable string_read [([], 0), ([1, 2, 3], 0)] (startRead 2 ?d)"
    by (rule cr_reach_read[OF cr_reach_make]) (simp add: concat_make_def)
  from concat_answers[OF this] show ?thesis by (simp add: concat_make_def startRead_def)
qed

end
