(* ===== verification/TempDir.thy ===== *)
theory TempDir
  imports Prelude
begin

text \<open>
  makeTemporaryDirectory of lib/utils/filesystem.cpp: names are tried at random until one of them
  could be made. The random numbers are a sequence; the file system is the set of the paths that exist in the
  directory, where create_directory answers false for a name that is taken.
\<close>

text \<open>The format X: upper-case hexadecimal digits without leading zeros.\<close>

definition upper_digit :: "nat \<Rightarrow> char" where
  "upper_digit d = ''0123456789ABCDEF'' ! d"

fun format_X :: "nat \<Rightarrow> string" where
  "format_X n = (if n < 16 then [upper_digit n] else format_X (n div 16) @ [upper_digit (n mod 16)])"

declare format_X.simps [simp del]

definition temp_name :: "string \<Rightarrow> 16 word \<Rightarrow> string" where
  "temp_name prefix r = prefix @ format_X (unat r)"

definition create_directory :: "string set \<Rightarrow> string \<Rightarrow> string set \<times> bool" where
  "create_directory dirs path = (if path \<in> dirs then (dirs, False) else (insert path dirs, True))"

text \<open>The loop, at the i-th random number. None: it never ends.\<close>

partial_function (option) temp_loop :: "(nat \<Rightarrow> 16 word) \<Rightarrow> string \<Rightarrow> string set \<Rightarrow> nat \<Rightarrow> (string set \<times> string) option" where
  "temp_loop rand prefix dirs i =
     (let path = temp_name prefix (rand i) in
      if snd (create_directory dirs path) then Some (fst (create_directory dirs path), path)
      else temp_loop rand prefix dirs (Suc i))"

definition makeTemporaryDirectory :: "(nat \<Rightarrow> 16 word) \<Rightarrow> string \<Rightarrow> string set \<Rightarrow> (string set \<times> string) option" where
  "makeTemporaryDirectory rand prefix dirs = temp_loop rand prefix dirs 0"

lemma temp_loop_step:
  "temp_loop rand prefix dirs i = (if temp_name prefix (rand i) \<in> dirs then temp_loop rand prefix dirs (Suc i)
     else Some (insert (temp_name prefix (rand i)) dirs, temp_name prefix (rand i)))"
  by (subst temp_loop.simps) (simp add: create_directory_def Let_def)

lemma temp_loop_first:
  assumes "temp_name prefix (rand (i + k)) \<notin> dirs" and "\<And>j. j < k \<Longrightarrow> temp_name prefix (rand (i + j)) \<in> dirs"
  shows "temp_loop rand prefix dirs i = Some (insert (temp_name prefix (rand (i + k))) dirs, temp_name prefix (rand (i + k)))"
  using assms
proof (induction k arbitrary: i)
  case 0
  then show ?case by (simp add: temp_loop_step)
next
  case (Suc k)
  have "temp_name prefix (rand i) \<in> dirs" using Suc.prems(2)[of 0] by simp
  moreover have "temp_loop rand prefix dirs (Suc i) =
      Some (insert (temp_name prefix (rand (Suc i + k))) dirs, temp_name prefix (rand (Suc i + k)))"
  proof (rule Suc.IH)
    show "temp_name prefix (rand (Suc i + k)) \<notin> dirs" using Suc.prems(1) by simp
    show "temp_name prefix (rand (Suc i + j)) \<in> dirs" if "j < k" for j using Suc.prems(2)[of "Suc j"] that by simp
  qed
  ultimately show ?case by (simp add: temp_loop_step[of _ _ _ i])
qed

lemma temp_loop_sound:
  assumes "temp_loop rand prefix dirs i = Some (dirs', path)"
  shows "path \<notin> dirs \<and> dirs' = insert path dirs \<and> (\<exists>j. path = temp_name prefix (rand j))"
proof -
  have step: "case r of (d, path) \<Rightarrow> path \<notin> dirs \<and> d = insert path dirs \<and> (\<exists>j. path = temp_name prefix (rand j))"
    if "\<And>rand prefix dirs i r. loop rand prefix dirs i = Some r \<Longrightarrow>
        (case r of (d, path) \<Rightarrow> path \<notin> dirs \<and> d = insert path dirs \<and> (\<exists>j. path = temp_name prefix (rand j)))"
      and "(let path = temp_name prefix (rand i) in
        if snd (create_directory dirs path) then Some (fst (create_directory dirs path), path)
        else loop rand prefix dirs (Suc i)) = Some r" for loop rand prefix dirs i r
    using that(1)[of rand prefix dirs "Suc i" r] that(2) by (auto simp: create_directory_def Let_def split: if_splits)
  have "case (dirs', path) of (d, path) \<Rightarrow> path \<notin> dirs \<and> d = insert path dirs \<and> (\<exists>j. path = temp_name prefix (rand j))"
    by (rule temp_loop.raw_induct[where P = "\<lambda>rand prefix dirs i r. case r of (d, path) \<Rightarrow>
        path \<notin> dirs \<and> d = insert path dirs \<and> (\<exists>j. path = temp_name prefix (rand j))", OF _ assms]) (rule step)
  then show ?thesis by simp
qed

text \<open>
  It returns a directory that was not there before, as soon as a random number gives a free name, and
  it never returns when all the names that it tries are taken.
\<close>

lemma makeTemporaryDirectory_fresh:
  "makeTemporaryDirectory rand prefix dirs = Some (dirs', path) \<Longrightarrow>
     path \<notin> dirs \<and> dirs' = insert path dirs \<and> (\<exists>j. path = temp_name prefix (rand j))"
  unfolding makeTemporaryDirectory_def by (rule temp_loop_sound)

lemma makeTemporaryDirectory_returns:
  "makeTemporaryDirectory rand prefix dirs \<noteq> None \<longleftrightarrow> (\<exists>i. temp_name prefix (rand i) \<notin> dirs)"
proof
  assume "\<exists>i. temp_name prefix (rand i) \<notin> dirs"
  then obtain k where "temp_name prefix (rand k) \<notin> dirs" and "\<And>j. j < k \<Longrightarrow> temp_name prefix (rand j) \<in> dirs"
    using exists_least_iff[of "\<lambda>i. temp_name prefix (rand i) \<notin> dirs"] by blast
  then show "makeTemporaryDirectory rand prefix dirs \<noteq> None"
    using temp_loop_first[of prefix rand 0 k dirs] by (simp add: makeTemporaryDirectory_def)
next
  assume "makeTemporaryDirectory rand prefix dirs \<noteq> None"
  then show "\<exists>i. temp_name prefix (rand i) \<notin> dirs" by (auto dest: makeTemporaryDirectory_fresh)
qed

lemma makeTemporaryDirectory_example:
  "makeTemporaryDirectory (\<lambda>i. [255, 4096, 10] ! i) ''nhope.'' {''nhope.FF'', ''nhope.1000''} =
     Some ({''nhope.FF'', ''nhope.1000'', ''nhope.A''}, ''nhope.A'')"
proof -
  have "format_X 255 = ''FF''" "format_X 4096 = ''1000''" "format_X 10 = ''A''"
    by (simp_all add: format_X.simps upper_digit_def)
  then show ?thesis
    unfolding makeTemporaryDirectory_def by (auto simp: temp_loop_step temp_name_def insert_commute)
qed

end
