(* ===== verification/ThreadExec.thy ===== *)
theory ThreadExec
  imports Executors "HOL-Library.Multiset"
begin

text \<open>
  ThreadExecutor (lib/async/thread-executor.cpp) from its constructor to the end of its destructor:
  one thread that runs an io_context. Of asio this uses what its documentation says: a work that was posted
  is run by a thread that is in run, one at a time for a single thread, in an order that asio chooses;
  a work that is dispatched by a work of that thread runs at once; after stop, run returns when the
  work that is running does; and works that were not run are destroyed with the io_context. The works themselves
  are opaque; while it runs, a work may give the executor others.
\<close>

section \<open>The thread\<close>

datatype te_phase = TE_Open | TE_Joining | TE_Joined | TE_Gone

record 'w te_sys =
  te_queue :: "'w list"        \<comment> \<open>the works that ioCtx holds\<close>
  te_running :: "'w list"      \<comment> \<open>the works that the thread is in, the innermost first\<close>
  te_stopped :: bool           \<comment> \<open>ioCtx.stop was called\<close>
  te_ended :: bool             \<comment> \<open>ioCtx.run has returned\<close>
  te_phase_of :: te_phase
  te_given :: "'w list"        \<comment> \<open>ghost: all works given to exec\<close>
  te_done :: "'w list"         \<comment> \<open>ghost: the works that were run\<close>
  te_destroyed :: "'w list"    \<comment> \<open>ghost: the works that were destroyed without being run\<close>

definition te_make :: "'w te_sys" where
  "te_make = \<lparr>te_queue = [], te_running = [], te_stopped = False, te_ended = False, te_phase_of = TE_Open,
     te_given = [], te_done = [], te_destroyed = []\<rparr>"

text \<open>exec, called by the executor's own thread or by another one.\<close>

definition te_exec :: "bool \<Rightarrow> exec_mode \<Rightarrow> 'w \<Rightarrow> 'w te_sys \<Rightarrow> 'w te_sys" where
  "te_exec own mode work s =
     (let s = s\<lparr>te_given := work # te_given s\<rparr> in
      case thread_exec mode work of
        Post w \<Rightarrow> s\<lparr>te_queue := te_queue s @ [w]\<rparr>
      | Dispatch w \<Rightarrow> (if own then s\<lparr>te_running := w # te_running s\<rparr> else s\<lparr>te_queue := te_queue s @ [w]\<rparr>))"

text \<open>The destructor: it may not run in the executor's own thread (None: the assertion fails).\<close>

definition te_destroy :: "bool \<Rightarrow> 'w te_sys \<Rightarrow> 'w te_sys option" where
  "te_destroy own s = (if own then None else Some (s\<lparr>te_stopped := True, te_phase_of := TE_Joining\<rparr>))"

text \<open>The members go in the reverse order of their declaration; the last is the io_context with its works.\<close>

definition te_free :: "'w te_sys \<Rightarrow> 'w te_sys" where
  "te_free s = s\<lparr>te_phase_of := TE_Gone, te_queue := [], te_destroyed := te_queue s @ te_destroyed s\<rparr>"

text \<open>What the thread itself does.\<close>

inductive te_thread :: "'w te_sys \<Rightarrow> 'w te_sys \<Rightarrow> bool" where
  te_begins: "te_running s = [] \<Longrightarrow> \<not> te_ended s \<Longrightarrow> \<not> te_stopped s \<Longrightarrow> te_queue s = xs @ w # ys \<Longrightarrow>
    te_thread s (s\<lparr>te_queue := xs @ ys, te_running := [w]\<rparr>)"
| te_ends: "te_running s = w # ws \<Longrightarrow> te_thread s (s\<lparr>te_running := ws, te_done := w # te_done s\<rparr>)"
| te_returns: "te_running s = [] \<Longrightarrow> \<not> te_ended s \<Longrightarrow> te_stopped s \<Longrightarrow> te_thread s (s\<lparr>te_ended := True\<rparr>)"

text \<open>
  Everything that happens: others use the executor until its destructor begins, its works as long as
  they run.
\<close>

inductive te_step :: "'w te_sys \<Rightarrow> 'w te_sys option \<Rightarrow> bool" where
  te_given_outside: "te_phase_of s = TE_Open \<Longrightarrow> te_step s (Some (te_exec False mode w s))"
| te_given_inside: "te_running s \<noteq> [] \<Longrightarrow> te_step s (Some (te_exec True mode w s))"
| te_runs: "te_thread s s' \<Longrightarrow> te_step s (Some s')"
| te_destroys: "te_phase_of s = TE_Open \<Longrightarrow> te_step s (te_destroy False s)"
| te_joins: "te_phase_of s = TE_Joining \<Longrightarrow> te_ended s \<Longrightarrow> te_step s (Some (s\<lparr>te_phase_of := TE_Joined\<rparr>))"
| te_frees: "te_phase_of s = TE_Joined \<Longrightarrow> te_step s (Some (te_free s))"

inductive te_reachable :: "'w te_sys \<Rightarrow> bool" where
  te_reach_make: "te_reachable te_make"
| te_reach_step: "te_reachable s \<Longrightarrow> te_step s (Some s') \<Longrightarrow> te_reachable s'"

section \<open>No work is lost, none is run twice, and the destructor waits for the one that runs\<close>

definition te_inv :: "'w te_sys \<Rightarrow> bool" where
  "te_inv s \<longleftrightarrow> mset (te_given s) = mset (te_queue s) + mset (te_running s) + mset (te_done s) + mset (te_destroyed s) \<and>
     (te_stopped s \<longleftrightarrow> te_phase_of s \<noteq> TE_Open) \<and> (te_ended s \<longrightarrow> te_stopped s \<and> te_running s = []) \<and>
     (te_phase_of s \<in> {TE_Joined, TE_Gone} \<longrightarrow> te_ended s) \<and>
     (te_destroyed s \<noteq> [] \<longrightarrow> te_phase_of s = TE_Gone) \<and> (te_phase_of s = TE_Gone \<longrightarrow> te_queue s = [])"

lemma te_step_inv:
  assumes "te_step s (Some s')" and "te_inv s"
  shows "te_inv s'"
  using assms(1)
proof cases
  case te_runs
  then show ?thesis using assms(2) by cases (auto simp: te_inv_def)
qed (use assms(2) in \<open>auto simp: te_inv_def te_exec_def thread_exec_def te_destroy_def te_free_def Let_def\<close>)

lemma te_reachable_inv: "te_reachable s \<Longrightarrow> te_inv s"
proof (induction rule: te_reachable.induct)
  case te_reach_make
  show ?case by (simp add: te_inv_def te_make_def)
next
  case (te_reach_step s s')
  then show ?case using te_step_inv by blast
qed

text \<open>
  While the executor lives, a work that was given to it has been run, runs or waits, once; when its
  destructor is over no work runs, and every work was either run or destroyed, once.
\<close>

theorem thread_executor_works:
  assumes "te_reachable s"
  shows "mset (te_given s) = mset (te_queue s) + mset (te_running s) + mset (te_done s) + mset (te_destroyed s)"
    and "te_phase_of s \<noteq> TE_Gone \<Longrightarrow> te_destroyed s = []"
    and "te_phase_of s \<in> {TE_Joined, TE_Gone} \<Longrightarrow> te_running s = []"
    and "te_phase_of s = TE_Gone \<Longrightarrow> mset (te_given s) = mset (te_done s) + mset (te_destroyed s)"
  using te_reachable_inv[OF assms] by (auto simp: te_inv_def)

text \<open>
  The destructor returns: from its begin on the thread can always go on, or the join, and if the
  works that run give it no more to dispatch, each of its steps brings the end of the thread nearer. A
  destructor that a work of the executor calls fails its assertion, since it would wait for itself.
\<close>

lemma te_join_progress:
  assumes "te_reachable s" and "te_phase_of s = TE_Joining"
  shows "te_ended s \<or> (\<exists>s'. te_thread s s')"
    and "te_thread s s' \<Longrightarrow> te_phase_of s' = TE_Joining \<and> (te_ended s' \<or> length (te_running s') < length (te_running s))"
proof -
  have "te_stopped s" using te_reachable_inv[OF assms(1)] assms(2) by (simp add: te_inv_def)
  then show "te_ended s \<or> (\<exists>s'. te_thread s s')"
    by (cases "te_running s") (blast intro: te_ends te_returns)+
  show "te_phase_of s' = TE_Joining \<and> (te_ended s' \<or> length (te_running s') < length (te_running s))"
    if "te_thread s s'" using that assms(2) \<open>te_stopped s\<close> by cases auto
qed

lemma te_destroy_inside: "te_destroy True s = None"
  by (simp add: te_destroy_def)

text \<open>A work that is posted and one that it dispatches; the destructor begins while they run.\<close>

lemma te_example:
  "te_reachable \<lparr>te_queue = [], te_running = [8, 7 :: nat], te_stopped = True, te_ended = False, te_phase_of = TE_Joining,
     te_given = [8, 7], te_done = [], te_destroyed = []\<rparr>"
proof -
  let ?s = "\<lambda>q r. \<lparr>te_queue = q, te_running = r, te_stopped = False, te_ended = False, te_phase_of = TE_Open,
     te_given = rev (rev r @ q), te_done = [], te_destroyed = []\<rparr> :: nat te_sys"
  have "te_reachable (?s [7] [])"
    by (rule te_reach_step[OF te_reach_make])
      (use te_given_outside[of te_make AddInQueue 7] in \<open>simp add: te_make_def te_exec_def thread_exec_def\<close>)
  then have "te_reachable (?s [] [7])"
    by (rule te_reach_step) (rule te_runs, use te_begins[of "?s [7] []" "[]" 7 "[]"] in simp)
  then have r: "te_reachable (?s [] [8, 7])"
    by (rule te_reach_step)
      (use te_given_inside[of "?s [] [7]" ImmediatelyIfPossible 8] in \<open>simp add: te_exec_def thread_exec_def\<close>)
  show ?thesis
    by (rule te_reach_step[OF r]) (use te_destroys[of "?s [] [8, 7]"] in \<open>simp add: te_destroy_def\<close>)
qed

end
