(* ===== verification/AsioDevice.thy ===== *)
theory AsioDevice
  imports Sockets "HOL-Library.Multiset"
begin

text \<open>
  AsioDeviceWrapper (include/nhope/io/detail/asio-device-wrapper.h), the base of the TCP and local
  sockets and the serial port: what becomes of the handlers of its reads and writes. asio has an
  operation until it completes it, once, with any result, also after cancel (then as a rule with
  operation_aborted) and after the device is gone. Of the context this uses what AOContext and Strand show: exec runs a
  work while the context is open and drops it otherwise, and a close drops what is queued.
\<close>

section \<open>The wrapper\<close>

text \<open>Reads and writes are numbered; a number stands for the operation's handler.\<close>

type_synonym io_result = "error_code option \<times> nat"

record asio_dev =
  ad_pending :: "nat list"                \<comment> \<open>operations that asio has\<close>
  ad_jobs :: "(nat \<times> io_result) list"     \<comment> \<open>calls of handlers that aoCtx has\<close>
  ad_ctx :: ctx_phase
  ad_alive :: bool
  ad_started :: nat                       \<comment> \<open>ghost: how many operations were started\<close>
  ad_completed :: "(nat \<times> error_code \<times> nat) list"   \<comment> \<open>ghost: asio's results\<close>
  ad_called :: "(nat \<times> io_result) list"   \<comment> \<open>ghost: the handlers' calls\<close>
  ad_dropped :: "nat list"                \<comment> \<open>ghost: the handlers that were destroyed without a call\<close>

definition wrapper_make :: "ctx_phase \<Rightarrow> asio_dev option" where
  "wrapper_make parent = (if parent \<noteq> CtxOpen then None
     else Some \<lparr>ad_pending = [], ad_jobs = [], ad_ctx = CtxOpen, ad_alive = True, ad_started = 0, ad_completed = [],
       ad_called = [], ad_dropped = []\<rparr>)"

definition wrapper_read :: "asio_dev \<Rightarrow> asio_dev" where
  "wrapper_read d = d\<lparr>ad_pending := ad_started d # ad_pending d, ad_started := ad_started d + 1\<rparr>"

definition wrapper_write :: "asio_dev \<Rightarrow> asio_dev" where
  "wrapper_write d = d\<lparr>ad_pending := ad_started d # ad_pending d, ad_started := ad_started d + 1\<rparr>"

text \<open>The lambda given to asio: the call of the handler goes to aoCtx.\<close>

definition wrapper_completes :: "nat \<Rightarrow> error_code \<Rightarrow> nat \<Rightarrow> asio_dev \<Rightarrow> asio_dev" where
  "wrapper_completes i err n d =
     (let d = d\<lparr>ad_pending := remove1 i (ad_pending d), ad_completed := (i, err, n) # ad_completed d\<rparr> in
      if ad_ctx d = CtxOpen then d\<lparr>ad_jobs := ad_jobs d @ [(i, device_result err n)]\<rparr>
      else d\<lparr>ad_dropped := i # ad_dropped d\<rparr>)"

definition wrapper_calls :: "asio_dev \<Rightarrow> asio_dev" where
  "wrapper_calls d = d\<lparr>ad_jobs := tl (ad_jobs d), ad_called := hd (ad_jobs d) # ad_called d\<rparr>"

text \<open>The context closes, by itself or in the destructor, which then closes the device.\<close>

definition wrapper_close :: "asio_dev \<Rightarrow> asio_dev" where
  "wrapper_close d = d\<lparr>ad_ctx := CtxClosed, ad_jobs := [], ad_dropped := map fst (ad_jobs d) @ ad_dropped d\<rparr>"

definition wrapper_destroy :: "asio_dev \<Rightarrow> asio_dev" where
  "wrapper_destroy d = (wrapper_close d)\<lparr>ad_alive := False\<rparr>"

inductive asio_step :: "asio_dev \<Rightarrow> asio_dev \<Rightarrow> bool" where
  ad_reads: "ad_alive d \<Longrightarrow> asio_step d (wrapper_read d)"
| ad_writes: "ad_alive d \<Longrightarrow> asio_step d (wrapper_write d)"
| ad_completes: "i \<in> set (ad_pending d) \<Longrightarrow> asio_step d (wrapper_completes i err n d)"
| ad_calls: "ad_ctx d = CtxOpen \<Longrightarrow> ad_jobs d \<noteq> [] \<Longrightarrow> asio_step d (wrapper_calls d)"
| ad_closes: "asio_step d (wrapper_close d)"
| ad_destroys: "ad_alive d \<Longrightarrow> asio_step d (wrapper_destroy d)"

inductive asio_reachable :: "asio_dev \<Rightarrow> bool" where
  ad_reach_make: "wrapper_make parent = Some d \<Longrightarrow> asio_reachable d"
| ad_reach_step: "asio_reachable d \<Longrightarrow> asio_step d d' \<Longrightarrow> asio_reachable d'"

section \<open>Every handler has one end\<close>

definition asio_inv :: "asio_dev \<Rightarrow> bool" where
  "asio_inv d \<longleftrightarrow> mset [0..<ad_started d] =
       mset (ad_pending d) + mset (map fst (ad_jobs d)) + mset (map fst (ad_called d)) + mset (ad_dropped d) \<and>
     (\<forall>(i, err, n)\<in>set (ad_jobs d) \<union> set (ad_called d).
        \<exists>code. (i, code, n) \<in> set (ad_completed d) \<and> err = toExceptionPtr code) \<and>
     (ad_ctx d \<noteq> CtxOpen \<longrightarrow> ad_jobs d = []) \<and> (ad_dropped d \<noteq> [] \<longrightarrow> ad_ctx d \<noteq> CtxOpen) \<and>
     (\<not> ad_alive d \<longrightarrow> ad_ctx d = CtxClosed)"

lemma asio_step_inv:
  assumes "asio_step d d'" and "asio_inv d"
  shows "asio_inv d'"
  using assms(1)
proof cases
  case (ad_completes i err n)
  have "mset (ad_pending d) = add_mset i (mset (remove1 i (ad_pending d)))" using ad_completes(2) by simp
  then show ?thesis using assms(2) ad_completes(1)
    by (fastforce simp: asio_inv_def wrapper_completes_def device_result_def Let_def)
next
  case ad_calls
  then show ?thesis using assms(2) by (cases "ad_jobs d") (auto simp: asio_inv_def wrapper_calls_def)
qed (use assms(2) in \<open>auto simp: asio_inv_def wrapper_read_def wrapper_write_def wrapper_close_def wrapper_destroy_def\<close>)

lemma asio_reachable_inv: "asio_reachable d \<Longrightarrow> asio_inv d"
proof (induction rule: asio_reachable.induct)
  case (ad_reach_make parent d)
  then show ?case by (auto simp: asio_inv_def wrapper_make_def split: if_splits)
next
  case (ad_reach_step d d')
  then show ?case using asio_step_inv by blast
qed

text \<open>
  The handler of an operation is in one place: with asio, in the queue of the context, called, or dropped,
  and never twice; it is called with asio's result, where the end of a stream is no error; a handler
  is dropped only when the context has closed, and no handler is called from then on; and when asio has completed
  the operations of a device that is gone, every handler was called or dropped, once.
\<close>

theorem asio_handlers:
  assumes "asio_reachable d"
  shows "mset [0..<ad_started d] =
      mset (ad_pending d) + mset (map fst (ad_jobs d)) + mset (map fst (ad_called d)) + mset (ad_dropped d)"
    and "(i, err, n) \<in> set (ad_called d) \<Longrightarrow> \<exists>code. (i, code, n) \<in> set (ad_completed d) \<and> err = toExceptionPtr code"
    and "ad_dropped d \<noteq> [] \<Longrightarrow> ad_ctx d \<noteq> CtxOpen"
    and "\<not> ad_alive d \<Longrightarrow> ad_pending d = [] \<Longrightarrow> mset [0..<ad_started d] = mset (map fst (ad_called d)) + mset (ad_dropped d)"
    and "\<not> ad_alive d \<Longrightarrow> asio_step d d' \<Longrightarrow> ad_called d' = ad_called d \<and> \<not> ad_alive d'"
proof -
  note inv = asio_reachable_inv[OF assms]
  then show "mset [0..<ad_started d] =
      mset (ad_pending d) + mset (map fst (ad_jobs d)) + mset (map fst (ad_called d)) + mset (ad_dropped d)"
    and "ad_dropped d \<noteq> [] \<Longrightarrow> ad_ctx d \<noteq> CtxOpen"
    and "\<not> ad_alive d \<Longrightarrow> ad_pending d = [] \<Longrightarrow> mset [0..<ad_started d] = mset (map fst (ad_called d)) + mset (ad_dropped d)"
    by (auto simp: asio_inv_def)
  show "\<exists>code. (i, code, n) \<in> set (ad_completed d) \<and> err = toExceptionPtr code" if "(i, err, n) \<in> set (ad_called d)"
    using inv that unfolding asio_inv_def by blast
  show "ad_called d' = ad_called d \<and> \<not> ad_alive d'" if "\<not> ad_alive d" "asio_step d d'"
    using that(2,1) inv
    by cases (auto simp: asio_inv_def wrapper_completes_def wrapper_close_def Let_def)
qed

text \<open>A read that the end of the stream answers, and a write that is dropped by the destructor.\<close>

lemma asio_example:
  "asio_reachable \<lparr>ad_pending = [], ad_jobs = [], ad_ctx = CtxClosed, ad_alive = False, ad_started = 2,
     ad_completed = [(1, \<lparr>err_category = SystemCategory, err_value = 125\<rparr>, 0), (0, misc_eof, 0)],
     ad_called = [(0, None, 0)], ad_dropped = [1]\<rparr>"
proof -
  let ?eof = misc_eof and ?abort = "\<lparr>err_category = SystemCategory, err_value = 125\<rparr>"
  let ?d = "\<lparr>ad_pending = [], ad_jobs = [], ad_ctx = CtxOpen, ad_alive = True, ad_started = 0, ad_completed = [],
       ad_called = [], ad_dropped = []\<rparr>"
  have "asio_reachable ?d" by (rule ad_reach_make[of CtxOpen]) (simp add: wrapper_make_def)
  from ad_reach_step[OF this ad_reads] have "asio_reachable (wrapper_read ?d)" by simp
  from ad_reach_step[OF this ad_writes] have "asio_reachable (wrapper_write (wrapper_read ?d))"
    by (simp add: wrapper_read_def)
  from ad_reach_step[OF this ad_completes[of 0 _ ?eof 0]] ad_calls
  have "asio_reachable (wrapper_calls (wrapper_completes 0 ?eof 0 (wrapper_write (wrapper_read ?d))))"
    by (auto simp: wrapper_read_def wrapper_write_def wrapper_completes_def intro: ad_reach_step)
  from ad_reach_step[OF this ad_destroys]
  have "asio_reachable (wrapper_destroy (wrapper_calls (wrapper_completes 0 ?eof 0 (wrapper_write (wrapper_read ?d)))))"
    by (simp add: wrapper_read_def wrapper_write_def wrapper_completes_def wrapper_calls_def)
  from ad_reach_step[OF this ad_completes[of 1 _ ?abort 0]] show ?thesis
    by (simp add: wrapper_read_def wrapper_write_def wrapper_completes_def wrapper_calls_def wrapper_destroy_def
        wrapper_close_def device_result_def toExceptionPtr_def misc_eof_def numeral_2_eq_2)
qed

end
