(* ===== verification/DeviceOps.thy ===== *)
theory DeviceOps
  imports AsioDevice IoCancel
begin

text \<open>
  The operations of lib/io/io-device.cpp on a device of asio: ReadOp and WriteOp whose handlers
  live in AsioDevice, among other reads and writes, while the context closes or the device goes away at any
  moment. IoDevice and IoCancel have the operations on a device that answers at once; here the answers
  come when they like, or never, and every operation is shown to end, with what those theories say.
\<close>

section \<open>An operation on a device\<close>

text \<open>
  What an operation does between two answers, as functions of its state: ask is what it does to get the next one
  (the portion it asks for, or its final result), answer takes one. None is a failed assertion.
\<close>

datatype ('c, 'r) client =
    C_Asked nat 'c nat     \<comment> \<open>waiting for the handler with that number, for a portion of that size\<close>
  | C_Over 'r              \<comment> \<open>the promise has its result\<close>

definition client_next :: "('c \<Rightarrow> ('c \<times> nat + 'r) option) \<Rightarrow> (asio_dev \<Rightarrow> asio_dev) \<Rightarrow> asio_dev \<Rightarrow> 'c \<Rightarrow>
    (asio_dev \<times> ('c, 'r) client) option" where
  "client_next ask start_io d c = (case ask c of
     None \<Rightarrow> None
   | Some (Inr r) \<Rightarrow> Some (d, C_Over r)
   | Some (Inl (c, p)) \<Rightarrow> (if \<not> ad_alive d then None else Some (start_io d, C_Asked (ad_started d) c p)))"

definition client_handler :: "('c \<Rightarrow> ('c \<times> nat + 'r) option) \<Rightarrow> ('c \<Rightarrow> nat \<Rightarrow> 'a \<Rightarrow> ('c + 'r) option) \<Rightarrow>
    (asio_dev \<Rightarrow> asio_dev) \<Rightarrow> asio_dev \<Rightarrow> 'c \<Rightarrow> nat \<Rightarrow> 'a \<Rightarrow> (asio_dev \<times> ('c, 'r) client) option" where
  "client_handler ask answer start_io d c p a = (case answer c p a of
     None \<Rightarrow> None
   | Some (Inr r) \<Rightarrow> Some (d, C_Over r)
   | Some (Inl c) \<Rightarrow> client_next ask start_io d c)"

definition handler_done :: "asio_dev \<Rightarrow> ('c, 'r) client \<Rightarrow> bool" where
  "handler_done d op \<longleftrightarrow> (case op of C_Asked i c p \<Rightarrow> i \<in> set (map fst (ad_called d)) \<union> set (ad_dropped d) | C_Over r \<Rightarrow> False)"

text \<open>
  A step: of the device, that leaves the operation's handler alone; the call of its handler with an answer a,
  whose data asio has put into the portion (fits), or the drop of it, which destroys the operation with the promise
  unset (cancelled). The log has the answers.
\<close>

inductive op_step :: "('c \<Rightarrow> ('c \<times> nat + 'r) option) \<Rightarrow> ('c \<Rightarrow> nat \<Rightarrow> 'a \<Rightarrow> ('c + 'r) option) \<Rightarrow> 'r \<Rightarrow>
    (nat \<Rightarrow> io_result \<Rightarrow> 'a \<Rightarrow> bool) \<Rightarrow> (asio_dev \<Rightarrow> asio_dev) \<Rightarrow>
    asio_dev \<times> ('c, 'r) client \<times> 'a list \<Rightarrow> (asio_dev \<times> ('c, 'r) client \<times> 'a list) option \<Rightarrow> bool"
  for ask answer cancelled fits start_io where
  os_device: "asio_step d d' \<Longrightarrow> \<not> handler_done d' op \<Longrightarrow>
    op_step ask answer cancelled fits start_io (d, op, log) (Some (d', op, log))"
| os_called: "ad_ctx d = CtxOpen \<Longrightarrow> ad_jobs d = (i, res) # js \<Longrightarrow> fits p res a \<Longrightarrow>
    op_step ask answer cancelled fits start_io (d, C_Asked i c p, log)
      (map_option (\<lambda>(d, op). (d, op, log @ [a])) (client_handler ask answer start_io (wrapper_calls d) c p a))"
| os_dropped: "asio_step d d' \<Longrightarrow> i \<in> set (ad_dropped d') \<Longrightarrow>
    op_step ask answer cancelled fits start_io (d, C_Asked i c p, log) (Some (d', C_Over cancelled, log))"

inductive op_reachable :: "('c \<Rightarrow> ('c \<times> nat + 'r) option) \<Rightarrow> ('c \<Rightarrow> nat \<Rightarrow> 'a \<Rightarrow> ('c + 'r) option) \<Rightarrow> 'r \<Rightarrow>
    (nat \<Rightarrow> io_result \<Rightarrow> 'a \<Rightarrow> bool) \<Rightarrow> (asio_dev \<Rightarrow> asio_dev) \<Rightarrow> 'c \<Rightarrow>
    asio_dev \<times> ('c, 'r) client \<times> 'a list \<Rightarrow> bool"
  for ask answer cancelled fits start_io c0 where
  or_start: "asio_reachable d \<Longrightarrow> ad_alive d \<Longrightarrow> client_next ask start_io d c0 = Some (d', op) \<Longrightarrow>
    op_reachable ask answer cancelled fits start_io c0 (d', op, [])"
| or_step: "op_reachable ask answer cancelled fits start_io c0 s \<Longrightarrow> op_step ask answer cancelled fits start_io s (Some s') \<Longrightarrow>
    op_reachable ask answer cancelled fits start_io c0 s'"

text \<open>The operation without a device: it gets the answers of a list and is then dropped.\<close>

fun client_life :: "('c \<Rightarrow> ('c \<times> nat + 'r) option) \<Rightarrow> ('c \<Rightarrow> nat \<Rightarrow> 'a \<Rightarrow> ('c + 'r) option) \<Rightarrow> 'r \<Rightarrow> 'a list \<Rightarrow> 'c \<Rightarrow> 'r option" where
  "client_life ask answer cancelled as c = (case ask c of
     None \<Rightarrow> None
   | Some (Inr r) \<Rightarrow> Some r
   | Some (Inl (c, p)) \<Rightarrow> (case as of
       [] \<Rightarrow> Some cancelled
     | a # as \<Rightarrow> (case answer c p a of
         None \<Rightarrow> None
       | Some (Inr r) \<Rightarrow> Some r
       | Some (Inl c) \<Rightarrow> client_life ask answer cancelled as c)))"

declare client_life.simps [simp del]

section \<open>Every operation ends\<close>

text \<open>
  What an operation promises: from its states it can always ask and take every answer that fits into
  the portion.
\<close>

locale device_client =
  fixes ask :: "'c \<Rightarrow> ('c \<times> nat + 'r) option" and answer :: "'c \<Rightarrow> nat \<Rightarrow> 'a \<Rightarrow> ('c + 'r) option"
    and cancelled :: 'r and fits :: "nat \<Rightarrow> io_result \<Rightarrow> 'a \<Rightarrow> bool" and start_io :: "asio_dev \<Rightarrow> asio_dev"
    and ok :: "'c \<Rightarrow> bool"
  assumes asks: "ok c \<Longrightarrow> ask c \<noteq> None"
    and takes: "ok c \<Longrightarrow> ask c = Some (Inl (c', p)) \<Longrightarrow> fits p res a \<Longrightarrow>
      \<exists>r. answer c' p a = Some r \<and> (\<forall>c''. r = Inl c'' \<longrightarrow> ok c'')"
    and starts: "start_io d = wrapper_read d"
begin

definition client_inv :: "'c \<Rightarrow> asio_dev \<times> ('c, 'r) client \<times> 'a list \<Rightarrow> bool" where
  "client_inv c0 s \<longleftrightarrow> (case s of (d, op, log) \<Rightarrow> asio_reachable d \<and> (case op of
     C_Over r \<Rightarrow> client_life ask answer cancelled log c0 = Some r
   | C_Asked i c' p \<Rightarrow> i < ad_started d \<and> \<not> handler_done d op \<and> (\<exists>c. ok c \<and> ask c = Some (Inl (c', p)) \<and>
       (\<forall>as. client_life ask answer cancelled (log @ as) c0 = client_life ask answer cancelled as c))))"

lemma life_over: "ask c = Some (Inr r) \<Longrightarrow> client_life ask answer cancelled as c = Some r"
  by (subst client_life.simps) simp

lemma client_next_inv:
  assumes d: "asio_reachable d" "ad_alive d" and "ok c"
    and life: "\<And>as. client_life ask answer cancelled (log @ as) c0 = client_life ask answer cancelled as c"
  shows "\<exists>d' op. client_next ask start_io d c = Some (d', op) \<and> client_inv c0 (d', op, log)"
proof (cases "ask c")
  case None
  then show ?thesis using asks assms(3) by blast
next
  case (Some r)
  show ?thesis
  proof (cases r)
    case (Inl cp)
    obtain c' p where cp: "cp = (c', p)" by fastforce
    have "asio_reachable (wrapper_read d)" by (rule ad_reach_step[OF d(1) ad_reads[OF d(2)]])
    moreover have "ad_started d \<notin> set (map fst (ad_called d)) \<union> set (ad_dropped d)"
      using asio_handlers(1)[OF d(1)] by (metis UnCI Un_iff atLeastLessThan_iff less_irrefl set_mset_mset set_mset_union set_upt)
    ultimately show ?thesis using Some Inl cp assms(2,3) life
      by (auto simp: client_next_def client_inv_def handler_done_def starts wrapper_read_def)
  next
    case (Inr r')
    then show ?thesis using Some d(1) life[of "[]"] life_over[of c r'] by (simp add: client_next_def client_inv_def)
  qed
qed

lemma op_step_inv:
  assumes "client_inv c0 s" and "op_step ask answer cancelled fits start_io s r"
  shows "\<exists>s'. r = Some s' \<and> client_inv c0 s'"
  using assms(2)
proof cases
  case (os_device d d' op log)
  have "asio_reachable d'" using ad_reach_step os_device(3) assms(1) os_device(1) by (auto simp: client_inv_def)
  moreover have "ad_started d \<le> ad_started d'"
    using os_device(3) by cases (auto simp: wrapper_read_def wrapper_write_def wrapper_completes_def Let_def
        wrapper_calls_def wrapper_close_def wrapper_destroy_def)
  ultimately show ?thesis using assms(1) os_device by (auto simp: client_inv_def split: client.splits)
next
  case (os_called d i res js p a c log)
  obtain c1 where c1: "ok c1" "ask c1 = Some (Inl (c, p))" "asio_reachable d"
    "\<And>as. client_life ask answer cancelled (log @ as) c0 = client_life ask answer cancelled as c1"
    using assms(1) os_called(1) by (auto simp: client_inv_def)
  obtain r1 where r1: "answer c p a = Some r1" "\<And>c''. r1 = Inl c'' \<Longrightarrow> ok c''"
    using takes[OF c1(1,2) os_called(5)] by blast
  have al: "ad_alive d" using asio_reachable_inv[OF c1(3)] os_called(3) by (auto simp: asio_inv_def)
  have d: "asio_reachable (wrapper_calls d)"
    by (rule ad_reach_step[OF c1(3) ad_calls]) (use os_called(3,4) in auto)
  have life: "client_life ask answer cancelled ((log @ [a]) @ as) c0 =
      (case r1 of Inr x \<Rightarrow> Some x | Inl c2 \<Rightarrow> client_life ask answer cancelled as c2)" for as
    using c1(4)[of "a # as"] by (subst (asm) (2) client_life.simps) (simp add: c1(2) r1(1) split: sum.splits)
  show ?thesis
  proof (cases r1)
    case (Inl c2)
    have l: "client_life ask answer cancelled ((log @ [a]) @ as) c0 = client_life ask answer cancelled as c2" for as
      using life[of as] Inl by simp
    have "ad_alive (wrapper_calls d)" using al by (simp add: wrapper_calls_def)
    from client_next_inv[OF d this r1(2)[OF Inl] l] show ?thesis
      using os_called(2) r1(1) Inl by (auto simp: client_handler_def)
  next
    case (Inr x)
    then show ?thesis using os_called(2) r1(1) d life[of "[]"] by (auto simp: client_handler_def client_inv_def)
  qed
next
  case (os_dropped d d' i c p log)
  obtain c1 where c1: "ask c1 = Some (Inl (c, p))" "asio_reachable d"
    "\<And>as. client_life ask answer cancelled (log @ as) c0 = client_life ask answer cancelled as c1"
    using assms(1) os_dropped(1) by (auto simp: client_inv_def)
  have "client_life ask answer cancelled log c0 = Some cancelled"
    using c1(3)[of "[]"] c1(1) by (subst (asm) (2) client_life.simps) simp
  then show ?thesis using os_dropped(2) ad_reach_step[OF c1(2) os_dropped(3)] by (auto simp: client_inv_def)
qed

lemma op_reachable_inv:
  assumes "op_reachable ask answer cancelled fits start_io c0 s" and "ok c0"
  shows "client_inv c0 s"
  using assms(1)
proof (induction rule: op_reachable.induct)
  case (or_start d d' op)
  from client_next_inv[OF or_start(1,2) assms(2), of "[]" c0] or_start(3) show ?case by auto
next
  case (or_step s s')
  from op_step_inv[OF or_step.IH or_step.hyps(2)] show ?case by auto
qed

lemma op_ends:
  assumes "op_reachable ask answer cancelled fits start_io c0 (d, op, log)" and "ok c0"
  shows "\<not> op_step ask answer cancelled fits start_io (d, op, log) None \<and>
    (\<forall>r. op = C_Over r \<longrightarrow> client_life ask answer cancelled log c0 = Some r) \<and>
    (\<not> ad_alive d \<and> ad_pending d = [] \<longrightarrow> (\<exists>r. op = C_Over r))"
proof -
  note inv = op_reachable_inv[OF assms]
  have "\<exists>r. op = C_Over r" if gone: "\<not> ad_alive d" "ad_pending d = []"
  proof (cases op)
    case (C_Asked i c p)
    then have i: "i < ad_started d" "i \<notin> set (map fst (ad_called d)) \<union> set (ad_dropped d)" "asio_reachable d"
      using inv by (auto simp: client_inv_def handler_done_def)
    from asio_handlers(4)[OF i(3) gone] have "set [0..<ad_started d] = set (map fst (ad_called d)) \<union> set (ad_dropped d)"
      by (metis set_mset_mset set_mset_union)
    then show ?thesis using i(1,2) by auto
  qed auto
  then show ?thesis using op_step_inv[OF inv] inv by (auto simp: client_inv_def)
qed

end

section \<open>ReadOp and WriteOp\<close>

text \<open>
  ReadOp with the handler h of its kind: its state is that of h and m_buf; the bytes that a read answers with are those
  that the device has put into the buffer. WriteOp: its state is m_written.
\<close>

definition read_ask :: "('s \<Rightarrow> u8 list \<Rightarrow> ('s \<times> nat) option) \<Rightarrow> 's \<times> u8 list \<Rightarrow>
    (('s \<times> u8 list) \<times> nat + (error_code op_error + u8 list)) option" where
  "read_ask h c = (case c of (s, m_buf) \<Rightarrow> (case h s m_buf of
     None \<Rightarrow> None
   | Some (s, m_portionSize) \<Rightarrow>
       Some (if m_portionSize = 0 then Inr (op_destroy (Some (Inr m_buf))) else Inl ((s, m_buf), m_portionSize))))"

definition read_answer :: "'s \<times> u8 list \<Rightarrow> nat \<Rightarrow> error_code + u8 list \<Rightarrow>
    ('s \<times> u8 list + (error_code op_error + u8 list)) option" where
  "read_answer c m_portionSize a = (case c of (s, m_buf) \<Rightarrow> (case a of
     Inl err \<Rightarrow> Some (Inr (op_destroy (Some (Inl (DeviceFailed err)))))
   | Inr bs \<Rightarrow>
       (if m_portionSize < length bs then None
        else if bs = [] then Some (Inr (op_destroy (Some (Inr m_buf))))
        else Some (Inl (s, m_buf @ bs)))))"

definition read_fits :: "nat \<Rightarrow> io_result \<Rightarrow> error_code + u8 list \<Rightarrow> bool" where
  "read_fits p res a \<longleftrightarrow> (case a of
     Inl err \<Rightarrow> fst res = Some err | Inr bs \<Rightarrow> fst res = None \<and> snd res = length bs \<and> length bs \<le> p)"

definition write_ask :: "u8 list \<Rightarrow> nat \<Rightarrow> (nat \<times> nat + (error_code op_error + nat)) option" where
  "write_ask m_data m_written =
     (if length m_data < m_written then None else Some (Inl (m_written, length m_data - m_written)))"

definition write_answer :: "bool \<Rightarrow> u8 list \<Rightarrow> nat \<Rightarrow> nat \<Rightarrow> error_code + nat \<Rightarrow> (nat + (error_code op_error + nat)) option" where
  "write_answer m_writeAll m_data m_written portion a = (case a of
     Inl err \<Rightarrow> Some (Inr (op_destroy (Some (Inl (DeviceFailed err)))))
   | Inr n \<Rightarrow>
       (let m_written = m_written + n in
        Some (if m_written < length m_data \<and> m_writeAll then Inl m_written
          else Inr (op_destroy (Some (Inr m_written))))))"

definition write_fits :: "nat \<Rightarrow> io_result \<Rightarrow> error_code + nat \<Rightarrow> bool" where
  "write_fits p res a \<longleftrightarrow> (case a of Inl err \<Rightarrow> fst res = Some err | Inr n \<Rightarrow> fst res = None \<and> snd res = n \<and> n \<le> p)"

text \<open>Without a device they are the operations of IoCancel.\<close>

lemma read_client_life: "client_life (read_ask h) read_answer (Inl OpCancelled) as (s, buf) = readOp_life h as s buf"
proof (induction as arbitrary: s buf)
  case Nil
  show ?case by (subst client_life.simps) (simp add: read_ask_def op_destroy_def split: option.splits)
next
  case (Cons a as)
  show ?case by (subst client_life.simps)
      (simp add: read_ask_def read_answer_def op_destroy_def Cons.IH split: option.splits sum.splits)
qed

lemma write_client_life:
  "client_life (write_ask data) (write_answer all data) (Inl OpCancelled) as n = writeOp_life all as data n"
proof (induction as arbitrary: n)
  case Nil
  show ?case by (subst client_life.simps) (simp add: write_ask_def op_destroy_def)
next
  case (Cons a as)
  show ?case
  proof (cases a)
    case (Inr k)
    then show ?thesis using Cons.IH[of "n + k"]
      by (cases all; subst client_life.simps) (simp_all add: write_ask_def[of data n] write_answer_def[of _ data n] op_destroy_def Let_def)
  qed (subst client_life.simps, simp add: write_ask_def write_answer_def op_destroy_def)
qed

text \<open>A handler of ReadOp: on the buffers it can meet (J) it answers a size, and what fits into it keeps J.\<close>

locale read_client =
  fixes h :: "'s \<Rightarrow> u8 list \<Rightarrow> ('s \<times> nat) option" and J :: "'s \<Rightarrow> u8 list \<Rightarrow> bool"
  assumes sizes: "J s buf \<Longrightarrow> \<exists>s' p. h s buf = Some (s', p) \<and> (\<forall>bs. length bs \<le> p \<longrightarrow> J s' (buf @ bs))"

sublocale read_client \<subseteq> device_client "read_ask h" read_answer "Inl OpCancelled" read_fits wrapper_read "\<lambda>(s, buf). J s buf"
proof
  fix c :: "'s \<times> u8 list"
  assume ok: "case c of (s, buf) \<Rightarrow> J s buf"
  then show "read_ask h c \<noteq> None" using sizes[of "fst c" "snd c"] by (auto simp: read_ask_def)
  fix c' p res a
  assume a: "read_ask h c = Some (Inl (c', p))" "read_fits p res a"
  obtain s buf s' where c: "c = (s, buf)" "c' = (s', buf)" "h s buf = Some (s', p)" "J s buf"
    using ok a(1) by (cases c) (auto simp: read_ask_def split: option.splits if_splits)
  from sizes[OF c(4)] c(3) have "\<forall>bs. length bs \<le> p \<longrightarrow> J s' (buf @ bs)" by auto
  then show "\<exists>r. read_answer c' p a = Some r \<and> (\<forall>c''. r = Inl c'' \<longrightarrow> (case c'' of (s, buf) \<Rightarrow> J s buf))"
    using a(2) c(2) by (auto simp: read_answer_def read_fits_def split: sum.splits)
qed simp

interpretation read_all_op: read_client "\<lambda>_ _. Some ((), 4 * 1024)" "\<lambda>_ _. True"
  by unfold_locales simp

interpretation read_exactly_op: read_client
    "\<lambda>_ buf. if length buf \<le> bytesCount then Some ((), bytesCount - length buf) else None" "\<lambda>_ buf. length buf \<le> bytesCount"
  for bytesCount :: nat
  by unfold_locales auto

interpretation read_until_op: read_client "\<lambda>_ buf. Some ((), if endsWith buf expect then 0 else 1)" "\<lambda>_ _. True"
  for expect :: "u8 list"
  by unfold_locales simp

interpretation write_op: device_client "write_ask data" "write_answer all data" "Inl OpCancelled" write_fits wrapper_write
    "\<lambda>n. n \<le> length data" for data :: "u8 list" and all :: bool
  by unfold_locales (auto simp: write_ask_def write_answer_def write_fits_def wrapper_read_def wrapper_write_def Let_def
      split: sum.splits if_splits)


text \<open>A read of all gets two bytes; then the device is destroyed, and asio drops the next read.\<close>

lemma device_read_example:
  "\<exists>d. op_reachable (read_ask (\<lambda>_ _. Some ((), 4 * 1024))) read_answer (Inl OpCancelled) read_fits wrapper_read ((), [])
     (d, C_Over (Inl OpCancelled), [Inr [1, 2]])"
proof -
  let ?r = "op_reachable (read_ask (\<lambda>_ _. Some ((), 4 * 1024))) read_answer (Inl OpCancelled) read_fits wrapper_read ((), [])"
  let ?s = "op_step (read_ask (\<lambda>_ _. Some ((), 4 * 1024))) read_answer (Inl OpCancelled) read_fits wrapper_read"
  let ?d = "\<lparr>ad_pending = [], ad_jobs = [], ad_ctx = CtxOpen, ad_alive = True, ad_started = 0, ad_completed = [],
       ad_called = [], ad_dropped = []\<rparr>"
  let ?ok = "\<lparr>err_category = SystemCategory, err_value = 0\<rparr>"
  let ?d1 = "?d\<lparr>ad_pending := [0], ad_started := 1\<rparr>"
  let ?d2 = "?d\<lparr>ad_jobs := [(0, None, 2)], ad_started := 1, ad_completed := [(0, ?ok, 2)]\<rparr>"
  let ?d3 = "?d\<lparr>ad_pending := [1], ad_started := 2, ad_completed := [(0, ?ok, 2)], ad_called := [(0, None, 2)]\<rparr>"
  let ?d4 = "?d3\<lparr>ad_ctx := CtxClosed, ad_alive := False\<rparr>"
  have "asio_reachable ?d" by (rule ad_reach_make[of CtxOpen]) (simp add: wrapper_make_def)
  then have r1: "?r (?d1, C_Asked 0 ((), []) 4096, [])"
    by (rule or_start) (simp_all add: client_next_def read_ask_def wrapper_read_def)
  have "asio_step ?d1 ?d2" using ad_completes[of 0 ?d1 ?ok 2]
    by (simp add: wrapper_completes_def device_result_def toExceptionPtr_def)
  from or_step[OF r1 os_device[OF this]] have r2: "?r (?d2, C_Asked 0 ((), []) 4096, [])" by (simp add: handler_done_def)
  have "?s (?d2, C_Asked 0 ((), []) 4096, []) (Some (?d3, C_Asked 1 ((), [1, 2]) 4096, [Inr [1, 2]]))"
    using os_called[of ?d2 0 "(None, 2)" "[]" read_fits 4096 "Inr [1, 2]" "read_ask (\<lambda>_ _. Some ((), 4 * 1024))" read_answer
        "Inl OpCancelled" wrapper_read "((), [])" "[]"]
    by (simp add: read_fits_def client_handler_def client_next_def read_answer_def read_ask_def wrapper_calls_def wrapper_read_def
        numeral_2_eq_2)
  from or_step[OF r2 this] have r3: "?r (?d3, C_Asked 1 ((), [1, 2]) 4096, [Inr [1, 2]])" .
  have "asio_step ?d3 ?d4" using ad_destroys[of ?d3] by (simp add: wrapper_destroy_def wrapper_close_def)
  from or_step[OF r3 os_device[OF this]] have r4: "?r (?d4, C_Asked 1 ((), [1, 2]) 4096, [Inr [1, 2]])"
    by (simp add: handler_done_def)
  have "asio_step ?d4 (wrapper_completes 1 ?ok 0 ?d4)" by (rule ad_completes) simp
  from or_step[OF r4 os_dropped[OF this]] show ?thesis by (auto simp: wrapper_completes_def)
qed


text \<open>And write and writeExactly.\<close>

lemma device_writes_end:
  assumes "op_reachable (write_ask data) (write_answer all data) (Inl OpCancelled) write_fits wrapper_write 0 (d, op, log)"
  shows "\<not> op_step (write_ask data) (write_answer all data) (Inl OpCancelled) write_fits wrapper_write (d, op, log) None \<and>
    (\<forall>r. op = C_Over r \<longrightarrow> writeOp_life all log data 0 = Some r) \<and>
    (\<not> ad_alive d \<and> ad_pending d = [] \<longrightarrow> (\<exists>r. op = C_Over r))"
  using write_op.op_ends[OF assms] by (simp add: write_client_life)

end
