(* ===== verification/UdpPeers.thy ===== *)
theory UdpPeers
  imports Sockets CtxCallback
begin

text \<open>
  UdpMultiPeerSocketImpl of lib/io/udp.cpp on its context: addPeer, removePeer, peers and write give work
  to m_aoCtx, which is a member of the base class, while the list of peers is one of the derived class. Sockets has what
  one such work does to the list. Of the context this uses what AOContext, Strand and CtxCallback show: works run
  in the order in which they were given while the context is open, and a close drops the rest.

  sends: what the sends of a write answer. None: a work uses the list after its destruction, or an
  exception leaves a noexcept function (std::terminate).
\<close>

section \<open>The socket\<close>

datatype peer_work = AddPeer udp_endpoint | RemovePeer udp_endpoint | ListPeers | WritePeers nat

record 'e peers_sys =
  up_peers :: "udp_endpoint list option"    \<comment> \<open>None: destroyed\<close>
  up_works :: "peer_work list"
  up_ctx :: ctx_phase
  up_gone :: bool                           \<comment> \<open>the destructor has begun\<close>
  up_run :: "peer_work list"                \<comment> \<open>ghost: the works that ran\<close>
  up_lists :: "udp_endpoint list list"      \<comment> \<open>ghost: what peers answered\<close>
  up_writes :: "('e option \<times> nat) list"    \<comment> \<open>ghost: what the handlers of write got\<close>

definition peers_make :: "udp_endpoint option \<Rightarrow> 'e peers_sys" where
  "peers_make peer = \<lparr>up_peers = Some (case peer of None \<Rightarrow> [] | Some p \<Rightarrow> [p]), up_works = [], up_ctx = CtxOpen,
     up_gone = False, up_run = [], up_lists = [], up_writes = []\<rparr>"

text \<open>addPeer and removePeer: asyncInvoke; True: it threw AOContextClosed.\<close>

definition peers_async :: "peer_work \<Rightarrow> 'e peers_sys \<Rightarrow> 'e peers_sys \<times> bool" where
  "peers_async w s = (case asyncInvoke (up_ctx s) () of
     None \<Rightarrow> (s, True)
   | Some b \<Rightarrow> (s\<lparr>up_works := up_works s @ [w]\<rparr>, False))"

text \<open>peers is noexcept and calls invoke.\<close>

definition peers_list :: "bool \<Rightarrow> 'e peers_sys \<Rightarrow> 'e peers_sys option" where
  "peers_list workInThisThread s = (case invoke workInThisThread (up_ctx s) () of
     Inl e \<Rightarrow> None
   | Inr b \<Rightarrow> Some (s\<lparr>up_works := up_works s @ [ListPeers]\<rparr>))"

text \<open>write gives its work to exec, which drops it on a closed context.\<close>

definition peers_write :: "nat \<Rightarrow> 'e peers_sys \<Rightarrow> 'e peers_sys" where
  "peers_write sz s = (if up_ctx s = CtxOpen then s\<lparr>up_works := up_works s @ [WritePeers sz]\<rparr> else s)"

fun peer_work_list :: "peer_work \<Rightarrow> udp_endpoint list \<Rightarrow> udp_endpoint list" where
  "peer_work_list (AddPeer ep) ps = addPeer ep ps"
| "peer_work_list (RemovePeer ep) ps = removePeer ep ps"
| "peer_work_list w ps = ps"

definition peers_run :: "(udp_endpoint list \<Rightarrow> 'e + nat list) \<Rightarrow> 'e peers_sys \<Rightarrow> 'e peers_sys option" where
  "peers_run sends s = (case (up_works s, up_peers s) of
     (w # ws, Some ps) \<Rightarrow> Some (s\<lparr>up_works := ws, up_peers := Some (peer_work_list w ps), up_run := up_run s @ [w],
       up_lists := (if w = ListPeers then up_lists s @ [ps] else up_lists s),
       up_writes := (case w of WritePeers sz \<Rightarrow> up_writes s @ [multi_write sends ps sz] | _ \<Rightarrow> up_writes s)\<rparr>)
   | _ \<Rightarrow> None)"

text \<open>The destructor: first the members of the derived class, then the base with its context.\<close>

definition peers_destroy :: "'e peers_sys \<Rightarrow> 'e peers_sys" where
  "peers_destroy s = s\<lparr>up_gone := True, up_peers := None\<rparr>"

definition peers_close :: "'e peers_sys \<Rightarrow> 'e peers_sys" where
  "peers_close s = s\<lparr>up_ctx := CtxClosed, up_works := []\<rparr>"

text \<open>Users stop before the destructor begins; the context may be closed by its parent at any time.\<close>

inductive peers_step :: "(udp_endpoint list \<Rightarrow> 'e + nat list) \<Rightarrow> 'e peers_sys \<Rightarrow> 'e peers_sys option \<Rightarrow> bool" for sends where
  up_adds: "\<not> up_gone s \<Longrightarrow> peers_step sends s (Some (fst (peers_async (AddPeer ep) s)))"
| up_removes: "\<not> up_gone s \<Longrightarrow> peers_step sends s (Some (fst (peers_async (RemovePeer ep) s)))"
| up_asks: "\<not> up_gone s \<Longrightarrow> peers_step sends s (peers_list own s)"
| up_sends: "\<not> up_gone s \<Longrightarrow> peers_step sends s (Some (peers_write sz s))"
| up_runs: "up_ctx s = CtxOpen \<Longrightarrow> up_works s \<noteq> [] \<Longrightarrow> peers_step sends s (peers_run sends s)"
| up_closes: "peers_step sends s (Some (peers_close s))"
| up_destroys: "\<not> up_gone s \<Longrightarrow> peers_step sends s (Some (peers_destroy s))"

inductive peers_reachable :: "(udp_endpoint list \<Rightarrow> 'e + nat list) \<Rightarrow> udp_endpoint option \<Rightarrow> 'e peers_sys \<Rightarrow> bool"
  for sends peer where
  up_reach_make: "peers_reachable sends peer (peers_make peer)"
| up_reach_step: "peers_reachable sends peer s \<Longrightarrow> peers_step sends s (Some s') \<Longrightarrow> peers_reachable sends peer s'"

section \<open>The list follows the works, in order\<close>

definition peers_after :: "udp_endpoint option \<Rightarrow> peer_work list \<Rightarrow> udp_endpoint list" where
  "peers_after peer ws = fold peer_work_list ws (case peer of None \<Rightarrow> [] | Some p \<Rightarrow> [p])"

lemma peers_after_snoc: "peers_after peer (ws @ [w]) = peer_work_list w (peers_after peer ws)"
  by (simp add: peers_after_def)

text \<open>What peers answers, given what ran before it.\<close>

fun listed :: "udp_endpoint option \<Rightarrow> peer_work list \<Rightarrow> peer_work list \<Rightarrow> udp_endpoint list list" where
  "listed peer before [] = []"
| "listed peer before (w # ws) = (if w = ListPeers then [peers_after peer before] else []) @ listed peer (before @ [w]) ws"

lemma listed_snoc:
  "listed peer before (ws @ [w]) = listed peer before ws @ (if w = ListPeers then [peers_after peer (before @ ws)] else [])"
  by (induction ws arbitrary: before) auto

definition peers_inv :: "udp_endpoint option \<Rightarrow> 'e peers_sys \<Rightarrow> bool" where
  "peers_inv peer s \<longleftrightarrow> (\<forall>ps. up_peers s = Some ps \<longrightarrow> ps = peers_after peer (up_run s)) \<and>
     up_lists s = listed peer [] (up_run s) \<and> (up_peers s = None \<longleftrightarrow> up_gone s) \<and>
     (up_ctx s \<noteq> CtxOpen \<longrightarrow> up_works s = [])"

lemma peers_async_eq:
  "peers_async w s = (if up_ctx s = CtxOpen then (s\<lparr>up_works := up_works s @ [w]\<rparr>, False) else (s, True))"
  by (simp add: peers_async_def asyncInvoke_def bound_make_def)

lemma peers_list_eq:
  "peers_list own s = (if own \<or> up_ctx s \<noteq> CtxOpen then None else Some (s\<lparr>up_works := up_works s @ [ListPeers]\<rparr>))"
  by (simp add: peers_list_def invoke_def asyncInvoke_def bound_make_def)

lemma peers_step_inv:
  assumes "peers_step sends s (Some s')" and "peers_inv peer s"
  shows "peers_inv peer s'"
  using assms(1)
proof cases
  case up_runs
  then show ?thesis using assms(2)
    by (auto simp: peers_inv_def peers_run_def peers_after_snoc listed_snoc split: list.splits option.splits)
qed (use assms(2) in \<open>auto simp: peers_inv_def peers_async_eq peers_list_eq peers_write_def peers_close_def
    peers_destroy_def split: if_splits\<close>)

lemma peers_reachable_inv: "peers_reachable sends peer s \<Longrightarrow> peers_inv peer s"
proof (induction rule: peers_reachable.induct)
  case up_reach_make
  show ?case by (simp add: peers_inv_def peers_make_def peers_after_def)
next
  case (up_reach_step s s')
  then show ?case using peers_step_inv by blast
qed

text \<open>
  The list is what the works that ran make of the first peer, one after the other, and peers answered the list of its
  turn. As long as the destructor has not begun, a step goes wrong only where peers is called on a closed
  context or from a work of it; and once it has, only a work that was still waiting does.
\<close>

theorem peers_sequential:
  assumes "peers_reachable sends peer s"
  shows "up_peers s = Some ps \<Longrightarrow> ps = peers_after peer (up_run s)"
    and "up_lists s = listed peer [] (up_run s)"
    and "peers_step sends s None \<Longrightarrow> \<not> up_gone s \<Longrightarrow> \<exists>own. (own \<or> up_ctx s \<noteq> CtxOpen) \<and> peers_list own s = None"
    and "peers_step sends s None \<Longrightarrow> up_gone s \<Longrightarrow> up_works s \<noteq> []"
proof -
  note inv = peers_reachable_inv[OF assms]
  show "up_peers s = Some ps \<Longrightarrow> ps = peers_after peer (up_run s)" "up_lists s = listed peer [] (up_run s)"
    using inv by (simp_all add: peers_inv_def)
  show "\<exists>own. (own \<or> up_ctx s \<noteq> CtxOpen) \<and> peers_list own s = None" if "peers_step sends s None" "\<not> up_gone s"
    using that
  proof cases
    case (up_asks own)
    then show ?thesis by (intro exI[of _ own]) (auto simp: peers_list_eq split: if_splits)
  next
    case up_runs
    then show ?thesis using inv that(2) by (auto simp: peers_inv_def peers_run_def split: list.splits option.splits)
  qed
  show "up_works s \<noteq> []" if "peers_step sends s None" "up_gone s"
    using that by cases auto
qed

text \<open>
  The destructor takes the list away before it closes the context: a work that waits then runs on a
  list that is gone.
\<close>

lemma peers_destroyed_first:
  "\<exists>s. peers_reachable sends peer s \<and> up_gone s \<and> peers_step sends s None"
proof -
  let ?s = "peers_write 0 (peers_make peer :: 'a peers_sys)"
  have g: "\<not> up_gone (peers_make peer :: 'a peers_sys)" "\<not> up_gone ?s" by (simp_all add: peers_write_def peers_make_def)
  from up_reach_step[OF up_reach_make up_sends[OF g(1)]] have "peers_reachable sends peer ?s" .
  from up_reach_step[OF this up_destroys[OF g(2)]] have "peers_reachable sends peer (peers_destroy ?s)" .
  moreover have "peers_step sends (peers_destroy ?s) (peers_run sends (peers_destroy ?s))"
    by (rule up_runs) (simp_all add: peers_write_def peers_destroy_def peers_make_def)
  moreover have "peers_run sends (peers_destroy ?s) = None"
    by (simp add: peers_run_def peers_destroy_def split: list.splits)
  moreover have "up_gone (peers_destroy ?s)" by (simp add: peers_destroy_def)
  ultimately show ?thesis by metis
qed

text \<open>peers of a socket whose context has closed, and peers called by one of its own works: std::terminate.\<close>

lemma peers_terminates:
  "up_ctx s \<noteq> CtxOpen \<Longrightarrow> peers_list own s = None" "peers_list True s = None"
  by (simp_all add: peers_list_eq)

end
