(* ===== verification/AllStart.thy ===== *)
theory AllStart
  imports AllOp
begin

text \<open>
  include/nhope/async/all.h: the starts of the three operations as whole functions, for tasks none of which ends
  before start has answered, and the runs of AllOpForVec<void, ArgT>, which refine those of the vector operation.

  A user's function is told whether the context it is given is open and answers the exception it throws, if any.
\<close>

section \<open>Starting the tasks of a tuple\<close>

text \<open>
  startTask calls the function and attaches the continuations: then throws closedErr on a closed context. The
  exception, if any, comes with the state it leaves.
\<close>

definition startTask :: "'e \<Rightarrow> nat \<Rightarrow> nat \<Rightarrow> (bool \<Rightarrow> 'e option) \<Rightarrow> ('r, 'e) all_run \<Rightarrow> ('r, 'e) all_run \<times> 'e option" where
  "startTask closedErr n i fn s =
     (case fn (m_ctx_open (a_op s)) of
        Some e \<Rightarrow> (s, Some e)
      | None \<Rightarrow> if m_ctx_open (a_op s) then (start_task n i s, None) else (s, Some closedErr))"

fun startTasks :: "'e \<Rightarrow> nat \<Rightarrow> nat \<Rightarrow> (bool \<Rightarrow> 'e option) list \<Rightarrow> ('r, 'e) all_run \<Rightarrow> ('r, 'e) all_run \<times> 'e option" where
  "startTasks closedErr n i [] s = (s, None)"
| "startTasks closedErr n i [lastFn] s = startTask closedErr n i lastFn s"
| "startTasks closedErr n i (head # next # tail) s =
     (case startTask closedErr n i head s of
        (s, Some e) \<Rightarrow> (s, Some e)
      | (s, None) \<Rightarrow> startTasks closedErr n (i + 1) (next # tail) s)"

definition start_tuple :: "'e \<Rightarrow> 'r \<Rightarrow> (bool \<Rightarrow> 'e option) list \<Rightarrow> ('r, 'e) all_run" where
  "start_tuple closedErr dflt fns =
     (let s = all_init ForTuple dflt (length fns) in
      if fns = [] then s
      else case startTasks closedErr (length fns) 0 fns s of
        (s, None) \<Rightarrow> s
      | (s, Some e) \<Rightarrow> start_throws_tuple e s)"

section \<open>Starting the tasks of a vector\<close>

fun start_args :: "'e \<Rightarrow> nat \<Rightarrow> (bool \<Rightarrow> 'a \<Rightarrow> 'e option) \<Rightarrow> nat \<Rightarrow> 'a list \<Rightarrow> ('r, 'e) all_run \<Rightarrow>
    ('r, 'e) all_run \<times> 'e option" where
  "start_args closedErr n fn i [] s = (s, None)"
| "start_args closedErr n fn i (arg # args) s =
     (case fn (m_ctx_open (a_op s)) arg of
        Some e \<Rightarrow> (s, Some e)
      | None \<Rightarrow>
          if m_ctx_open (a_op s) then start_args closedErr n fn (i + 1) args (start_task n i s)
          else (s, Some closedErr))"

definition start_vec :: "'e \<Rightarrow> 'r \<Rightarrow> (bool \<Rightarrow> 'a \<Rightarrow> 'e option) \<Rightarrow> 'a list \<Rightarrow> ('r, 'e) all_run" where
  "start_vec closedErr dflt fn args =
     (let s = all_init ForVec dflt (length args) in
      if args = [] then s
      else case start_args closedErr (length args) fn 0 args s of
        (s, None) \<Rightarrow> s
      | (s, Some e) \<Rightarrow> start_throws e s)"

text \<open>The recursion over a tuple is the loop over a vector of functions.\<close>

lemma start_args_startTasks:
  "start_args closedErr n fn i args s = startTasks closedErr n i (map (\<lambda>arg opened. fn opened arg) args) s"
proof (induction args arbitrary: i s)
  case (Cons arg args)
  then show ?case by (cases args) (auto simp: startTask_def split: option.splits)
qed simp

lemma startTasks_Cons:
  "startTasks closedErr n i (fn # fns) s =
     (case startTask closedErr n i fn s of
        (s, Some e) \<Rightarrow> (s, Some e)
      | (s, None) \<Rightarrow> startTasks closedErr n (i + 1) fns s)"
  by (cases fns) (auto split: prod.splits option.splits)

text \<open>A whole start is a run of the steps; an exception leaves the run where that exception is thrown.\<close>

lemma startTask_cases:
  assumes "startTask closedErr n i fn s = (s', r)"
  obtains (Started) "r = None" "s' = start_task n i s" "m_ctx_open (a_op s)" "fn True = None"
  | (Thrown) e where "r = Some e" "s' = s" "fn (m_ctx_open (a_op s)) = Some e"
  | (Closed) "r = Some closedErr" "s' = s" "\<not> m_ctx_open (a_op s)"
proof (cases "fn (m_ctx_open (a_op s))")
  case None
  then show thesis using assms Started Closed by (cases "m_ctx_open (a_op s)") (auto simp: startTask_def)
next
  case (Some e)
  then show thesis using assms Thrown[of e] by (simp add: startTask_def)
qed

lemma startTasks_run:
  assumes "all_reachable k dflt n closedErr s" and "a_start s = Starting i" and "i + length fns = n" and "fns \<noteq> []"
    and "startTasks closedErr n i fns s = (s', r)"
  shows "all_reachable k dflt n closedErr s' \<and>
    (case r of None \<Rightarrow> a_start s' = Answered | Some e \<Rightarrow> all_step k n closedErr s' (Some (op_throws k e s')))"
  using assms
proof (induction fns arbitrary: i s)
  case (Cons fn fns)
  obtain s1 r1 where t: "startTask closedErr n i fn s = (s1, r1)" by (cases "startTask closedErr n i fn s") auto
  from t show ?case
  proof (cases rule: startTask_cases)
    case Started
    then have s1: "all_reachable k dflt n closedErr s1"
      using all_reach_step[OF Cons.prems(1) all_start_ok[OF Cons.prems(2)]] by simp
    have rest: "startTasks closedErr n (i + 1) fns s1 = (s', r)"
      using Cons.prems(5) Started(1) t by (simp add: startTasks_Cons)
    show ?thesis
    proof (cases "fns = []")
      case True
      then have "s' = s1" "r = None" "a_start s1 = Answered" using rest Started(2) Cons.prems(3) by (auto simp: start_task_def)
      then show ?thesis using s1 by simp
    next
      case False
      then have "a_start s1 = Starting (i + 1)" "i + 1 + length fns = n"
        using Started(2) Cons.prems(3) by (auto simp: start_task_def)
      then show ?thesis using Cons.IH[OF s1 _ _ False rest] by simp
    qed
  next
    case (Thrown e)
    then have "s' = s" "r = Some e" using Cons.prems(5) t by (auto simp: startTasks_Cons)
    then show ?thesis using Cons.prems(1) all_start_throws[OF Cons.prems(2)] by simp
  next
    case Closed
    then have "s' = s" "r = Some closedErr" using Cons.prems(5) t by (auto simp: startTasks_Cons)
    then show ?thesis using Cons.prems(1) all_start_closed[OF Cons.prems(2) Closed(3)] by simp
  qed
qed simp

lemma all_init_starting: "fns \<noteq> [] \<Longrightarrow> a_start (all_init k dflt (length fns)) = Starting 0"
  by (simp add: all_init_def)

lemma startTasks_whole:
  assumes "fns \<noteq> []" and "startTasks closedErr (length fns) 0 fns (all_init k dflt (length fns)) = (s, r)"
  shows "all_reachable k dflt (length fns) closedErr (case r of None \<Rightarrow> s | Some e \<Rightarrow> op_throws k e s)"
proof -
  note run = startTasks_run[OF all_reach_init all_init_starting[OF assms(1)] _ assms]
  show ?thesis using run by (cases r) (auto intro: all_reach_step)
qed

theorem start_tuple_run: "all_reachable ForTuple dflt (length fns) closedErr (start_tuple closedErr dflt fns)"
proof (cases "fns = []")
  case True
  then show ?thesis using all_reach_init[of ForTuple dflt 0] by (simp add: start_tuple_def Let_def)
next
  case False
  obtain s r where s: "startTasks closedErr (length fns) 0 fns (all_init ForTuple dflt (length fns)) = (s, r)"
    by (cases "startTasks closedErr (length fns) 0 fns (all_init ForTuple dflt (length fns))") auto
  show ?thesis using startTasks_whole[OF False s] s by (cases r) (simp_all add: start_tuple_def Let_def False)
qed

theorem start_vec_run: "all_reachable ForVec dflt (length args) closedErr (start_vec closedErr dflt fn args)"
proof (cases "args = []")
  case True
  then show ?thesis using all_reach_init[of ForVec dflt 0] by (simp add: start_vec_def Let_def)
next
  case False
  let ?fns = "map (\<lambda>arg opened. fn opened arg) args"
  have f: "?fns \<noteq> []" using False by simp
  obtain s r where s: "startTasks closedErr (length args) 0 ?fns (all_init ForVec dflt (length args)) = (s, r)"
    by (cases "startTasks closedErr (length args) 0 ?fns (all_init ForVec dflt (length args))") auto
  show ?thesis using startTasks_whole[OF f, of closedErr ForVec dflt s r] s
    by (cases r) (simp_all add: start_vec_def Let_def False start_args_startTasks)
qed

text \<open>When no function throws, start leaves all the tasks running; the first exception stops it and is what it answers.\<close>

lemma startTasks_prefix:
  assumes "m_ctx_open (a_op s)" and "\<forall>fn\<in>set fns. fn True = None"
  shows "\<exists>s'. startTasks closedErr n i (fns @ rest) s = startTasks closedErr n (i + length fns) rest s' \<and>
    a_op s' = a_op s \<and> a_running s' = a_running s \<union> {i..<i + length fns}"
  using assms
proof (induction fns arbitrary: i s)
  case (Cons fn fns)
  let ?s = "start_task n i s"
  have op: "a_op ?s = a_op s" "a_running ?s = insert i (a_running s)" by (simp_all add: start_task_def)
  have step: "startTasks closedErr n i ((fn # fns) @ rest) s = startTasks closedErr n (i + 1) (fns @ rest) ?s"
    using Cons.prems by (simp add: startTasks_Cons startTask_def)
  have "m_ctx_open (a_op ?s)" "\<forall>fn\<in>set fns. fn True = None" using Cons.prems op by auto
  from Cons.IH[OF this, of "i + 1"] obtain s' where s':
    "startTasks closedErr n (i + 1) (fns @ rest) ?s = startTasks closedErr n (i + 1 + length fns) rest s'"
    "a_op s' = a_op ?s" "a_running s' = a_running ?s \<union> {i + 1..<i + 1 + length fns}" by blast
  have "insert i (a_running s) \<union> {i + 1..<i + 1 + length fns} = a_running s \<union> {i..<i + length (fn # fns)}"
    by (rule set_eqI) (simp, linarith)
  then show ?case using s' step op by (intro exI[of _ s']) simp
qed (auto intro: exI)

theorem startTasks_all:
  assumes "m_ctx_open (a_op s)" and "\<forall>fn\<in>set fns. fn True = None"
  shows "\<exists>s'. startTasks closedErr n i fns s = (s', None) \<and> a_op s' = a_op s \<and>
    a_running s' = a_running s \<union> {i..<i + length fns}"
  using startTasks_prefix[OF assms, of closedErr n i "[]"] by auto

theorem startTasks_throws:
  assumes "m_ctx_open (a_op s)" and "\<forall>fn\<in>set fns. fn True = None" and "fn True = Some e"
  shows "\<exists>s'. startTasks closedErr n i (fns @ fn # rest) s = (s', Some e) \<and> a_op s' = a_op s \<and>
    a_running s' = a_running s \<union> {i..<i + length fns}"
proof -
  obtain s' where s': "startTasks closedErr n i (fns @ fn # rest) s = startTasks closedErr n (i + length fns) (fn # rest) s'"
    "a_op s' = a_op s" "a_running s' = a_running s \<union> {i..<i + length fns}"
    using startTasks_prefix[OF assms(1,2), of closedErr n i "fn # rest"] by blast
  have "startTasks closedErr n (i + length fns) (fn # rest) s' = (s', Some e)"
    using assms(1,3) s'(2) by (simp add: startTasks_Cons startTask_def)
  then show ?thesis using s' by (intro exI[of _ s']) simp
qed

section \<open>The void operation\<close>

text \<open>finished and failed are ghosts, as before; the steps are those of the vector operation without results.\<close>

record 'e void_run =
  vr_op :: "'e all_void"
  vr_start :: "'e all_start"
  vr_running :: "nat set"
  vr_finished :: "nat set"
  vr_failed :: "'e list"

definition void_init :: "nat \<Rightarrow> 'e void_run" where
  "void_init n = \<lparr>vr_op = void_make n, vr_start = (if n = 0 then Answered else Starting 0),
     vr_running = {}, vr_finished = {}, vr_failed = []\<rparr>"

definition void_start_task :: "nat \<Rightarrow> nat \<Rightarrow> 'e void_run \<Rightarrow> 'e void_run" where
  "void_start_task n i s = s\<lparr>vr_running := insert i (vr_running s),
     vr_start := (if i + 1 < n then Starting (i + 1) else Answered)\<rparr>"

definition void_start_throws :: "'e \<Rightarrow> 'e void_run \<Rightarrow> 'e void_run" where
  "void_start_throws e s = s\<lparr>vr_op := (vr_op s)\<lparr>v_ctx_open := False\<rparr>, vr_start := Threw e\<rparr>"

fun void_start_args :: "'e \<Rightarrow> nat \<Rightarrow> (bool \<Rightarrow> 'a \<Rightarrow> 'e option) \<Rightarrow> nat \<Rightarrow> 'a list \<Rightarrow> 'e void_run \<Rightarrow> 'e void_run \<times> 'e option" where
  "void_start_args closedErr n fn i [] s = (s, None)"
| "void_start_args closedErr n fn i (arg # args) s =
     (case fn (v_ctx_open (vr_op s)) arg of
        Some e \<Rightarrow> (s, Some e)
      | None \<Rightarrow>
          if v_ctx_open (vr_op s) then void_start_args closedErr n fn (i + 1) args (void_start_task n i s)
          else (s, Some closedErr))"

definition start_void :: "'e \<Rightarrow> (bool \<Rightarrow> 'a \<Rightarrow> 'e option) \<Rightarrow> 'a list \<Rightarrow> 'e void_run" where
  "start_void closedErr fn args =
     (let s = void_init (length args) in
      if args = [] then s
      else case void_start_args closedErr (length args) fn 0 args s of
        (s, None) \<Rightarrow> s
      | (s, Some e) \<Rightarrow> void_start_throws e s)"

inductive void_step :: "nat \<Rightarrow> 'e \<Rightarrow> 'e void_run \<Rightarrow> 'e void_run option \<Rightarrow> bool" for n closedErr where
  void_start_ok: "vr_start s = Starting i \<Longrightarrow> v_ctx_open (vr_op s) \<Longrightarrow> void_step n closedErr s (Some (void_start_task n i s))"
| void_throws: "vr_start s = Starting i \<Longrightarrow> void_step n closedErr s (Some (void_start_throws e s))"
| void_start_closed: "vr_start s = Starting i \<Longrightarrow> \<not> v_ctx_open (vr_op s) \<Longrightarrow>
    void_step n closedErr s (Some (void_start_throws closedErr s))"
| void_finish: "i \<in> vr_running s \<Longrightarrow> v_ctx_open (vr_op s) \<Longrightarrow>
    void_step n closedErr s (map_option (\<lambda>op. s\<lparr>vr_op := op, vr_running := vr_running s - {i},
      vr_finished := insert i (vr_finished s)\<rparr>) (void_finished (vr_op s)))"
| void_fail: "i \<in> vr_running s \<Longrightarrow> v_ctx_open (vr_op s) \<Longrightarrow>
    void_step n closedErr s (map_option (\<lambda>op. s\<lparr>vr_op := op, vr_running := vr_running s - {i},
      vr_failed := vr_failed s @ [e]\<rparr>) (void_failed e (vr_op s)))"
| void_parent_closes: "void_step n closedErr s (Some (s\<lparr>vr_op := (vr_op s)\<lparr>v_ctx_open := False\<rparr>\<rparr>))"

inductive void_reachable :: "nat \<Rightarrow> 'e \<Rightarrow> 'e void_run \<Rightarrow> bool" for n closedErr where
  void_reach_init: "void_reachable n closedErr (void_init n)"
| void_reach_step: "void_reachable n closedErr s \<Longrightarrow> void_step n closedErr s (Some s') \<Longrightarrow> void_reachable n closedErr s'"

text \<open>A run of the vector operation, its results forgotten.\<close>

definition forget_run :: "('r, 'e) all_run \<Rightarrow> 'e void_run" where
  "forget_run s = \<lparr>vr_op = forget (a_op s), vr_start = a_start s, vr_running = a_running s,
     vr_finished = dom (a_outcome s), vr_failed = a_failed s\<rparr>"

lemma forget_run_sel [simp]:
  "vr_op (forget_run s) = forget (a_op s)" "vr_start (forget_run s) = a_start s"
  "vr_running (forget_run s) = a_running s" "vr_finished (forget_run s) = dom (a_outcome s)"
  "vr_failed (forget_run s) = a_failed s"
  by (simp_all add: forget_run_def)

lemma forget_open [simp]: "v_ctx_open (forget op) = m_ctx_open op"
  by (simp add: forget_def)

lemma forget_close: "forget (close_ctx op) = (forget op)\<lparr>v_ctx_open := False\<rparr>"
  by (simp add: forget_def close_ctx_def)

lemma forget_run_init: "forget_run (all_init ForVec dflt n) = void_init n"
  by (simp add: forget_run_def all_init_def void_init_def forget_make)

lemma forget_run_start:
  "forget_run (start_task n i s) = void_start_task n i (forget_run s)"
  "forget_run (start_throws e s) = void_start_throws e (forget_run s)"
  by (simp_all add: forget_run_def start_task_def void_start_task_def start_throws_def void_start_throws_def forget_close)

text \<open>The two starts agree.\<close>

lemma void_start_args_forget:
  "void_start_args closedErr n fn i args (forget_run s) = map_prod forget_run id (start_args closedErr n fn i args s)"
  by (induction args arbitrary: i s) (auto simp: forget_run_start[symmetric] split: option.splits)

theorem start_void_forgets: "start_void closedErr fn args = forget_run (start_vec closedErr dflt fn args)"
  by (auto simp: start_void_def start_vec_def Let_def forget_run_init[of dflt, symmetric] void_start_args_forget
      forget_run_start split: prod.splits option.splits)

text \<open>Every step of the void operation is one of the vector operation.\<close>

lemma void_step_forgets:
  assumes "void_step n closedErr (forget_run s) t" and "all_inv () n s"
  shows "\<exists>s'. all_step ForVec n closedErr s (Some s') \<and> t = Some (forget_run s')"
proof -
  have same: ?thesis if "all_step ForVec n closedErr s t'" "t = map_option forget_run t'" for t'
    using all_inv_step[OF assms(2) that(1)] that by auto
  show ?thesis
    using assms(1)
  proof cases
    case (void_start_ok i)
    then show ?thesis
      by (intro same[OF all_step.all_start_ok]) (simp_all add: forget_run_start)
  next
    case (void_throws i e)
    then show ?thesis
      by (intro same[OF all_step.all_start_throws]) (simp_all add: forget_run_start)
  next
    case (void_start_closed i)
    then show ?thesis
      by (intro same[OF all_step.all_start_closed]) (simp_all add: forget_run_start)
  next
    case (void_finish i)
    then have i: "i \<in> a_running s" "m_ctx_open (a_op s)" "i < length (m_result (a_op s))"
      using assms(2) tasks_inv_bound(2)[of n s i] by (auto simp: all_inv_def op_inv_def)
    show ?thesis
      by (rule same[OF all_step.all_finish[OF i(1,2), where r = "()"]])
        (cases "taskFinished i () (a_op s)"; simp add: void_finish(1) forget_finished[OF i(3), of "()", symmetric] forget_run_def)
  next
    case (void_fail i e)
    then have i: "i \<in> a_running s" "m_ctx_open (a_op s)" by simp_all
    show ?thesis
      by (rule same[OF all_step.all_fail[OF i, where e = e]])
        (cases "taskFailed e (a_op s)"; simp add: void_fail(1) forget_failed[symmetric] forget_run_def)
  next
    case void_parent_closes
    then show ?thesis by (intro same[OF all_step.all_parent_closes]) (simp add: forget_run_def forget_close)
  qed
qed

theorem void_run_forgets:
  "void_reachable n closedErr v \<Longrightarrow> \<exists>s. all_reachable ForVec () n closedErr s \<and> forget_run s = v"
proof (induction rule: void_reachable.induct)
  case void_reach_init
  show ?case using all_reach_init[of ForVec "()" n closedErr] forget_run_init[of "()" n] by blast
next
  case (void_reach_step v v')
  then obtain s where s: "all_reachable ForVec () n closedErr s" "forget_run s = v" by blast
  with void_step_forgets[of n closedErr s "Some v'"] void_reach_step.hyps(2) all_reachable_inv[OF s(1)]
  obtain s' where "all_step ForVec n closedErr s (Some s')" "v' = forget_run s'" by auto
  then show ?case using all_reach_step[OF s(1)] by blast
qed

text \<open>So its promise is never set twice, tells that all have finished, or carries the first exception.\<close>

theorem void_collects:
  assumes "void_reachable n closedErr v"
  shows "\<not> void_step n closedErr v None \<and>
    (case v_promise (vr_op v) of
       None \<Rightarrow> vr_failed v = [] \<and> vr_finished v \<noteq> {..<n}
     | Some (Inr _) \<Rightarrow> vr_failed v = [] \<and> vr_finished v = {..<n}
     | Some (Inl e) \<Rightarrow> vr_failed v = [e] \<and> \<not> v_ctx_open (vr_op v))"
proof -
  obtain s where s: "all_reachable ForVec () n closedErr s" "forget_run s = v" using void_run_forgets[OF assms] by blast
  note inv = all_reachable_inv[OF s(1)]
  have "\<not> void_step n closedErr v None" using void_step_forgets[OF _ inv] s(2) by blast
  moreover have "op_inv () n (a_op s) (a_outcome s) (a_failed s)" using inv by (simp add: all_inv_def)
  moreover have v: "v_promise (vr_op v) = map_option (map_sum id (\<lambda>_. ())) (m_promise (a_op s))"
    "vr_failed v = a_failed s" "vr_finished v = dom (a_outcome s)" "v_ctx_open (vr_op v) = m_ctx_open (a_op s)"
    using s(2) by (auto simp: forget_def)
  ultimately show ?thesis unfolding v
    by (cases "m_promise (a_op s)"; cases "the (m_promise (a_op s))") (simp_all add: op_inv_def)
qed

text \<open>Three arguments of which the user's function refuses the last.\<close>

lemma start_void_example:
  "start_void 9 (\<lambda>_ arg. if arg = 0 then Some 7 else None) [1, 2, 0 :: nat] =
     \<lparr>vr_op = \<lparr>v_taskCount = 3, v_taskFinishedCount = 0, v_promise = None, v_ctx_open = False\<rparr>,
      vr_start = Threw (7 :: nat), vr_running = {0, 1}, vr_finished = {}, vr_failed = []\<rparr>"
  by (simp add: start_void_def void_init_def void_make_def void_start_task_def void_start_throws_def insert_commute)

end
