(* ===== verification/ReaderOnContext.thy ===== *)
theory ReaderOnContext
  imports Readers
begin

text \<open>
  The readers and writers of lib/io with their contexts. StringReader, StringWritter, BitSeqReader and NullDevice
  do each operation in one job of their context, which calls the handler; PushbackReader answers from the bytes
  given back in a job, and otherwise asks the reader it stands before, whose answer another job hands on.
  Readers has what they answer, without the contexts. Of the context this uses what AOContext and Strand show: its
  jobs run in order while it is open, and a close drops those that are queued, with their handlers. The
  destructors close the context.
\<close>

section \<open>Devices that do an operation in a job\<close>

text \<open>
  op is what the job does: the state and the argument give the new state and what the handler gets. ran, answers and
  dropped are ghosts: the operations whose handlers were called, what these got, and the operations whose
  handlers were destroyed without a call.
\<close>

record ('s, 'a, 'b) job_dev =
  jd_state :: 's
  jd_jobs :: "'a list"
  jd_ctx :: ctx_phase
  jd_ran :: "'a list"
  jd_answers :: "'b list"
  jd_dropped :: "'a list"

definition jd_make :: "'s \<Rightarrow> ('s, 'a, 'b) job_dev" where
  "jd_make s = \<lparr>jd_state = s, jd_jobs = [], jd_ctx = CtxOpen, jd_ran = [], jd_answers = [], jd_dropped = []\<rparr>"

definition jd_exec :: "'a \<Rightarrow> ('s, 'a, 'b) job_dev \<Rightarrow> ('s, 'a, 'b) job_dev" where
  "jd_exec a d = (if jd_ctx d = CtxOpen then d\<lparr>jd_jobs := jd_jobs d @ [a]\<rparr> else d\<lparr>jd_dropped := jd_dropped d @ [a]\<rparr>)"

definition jd_destroy :: "('s, 'a, 'b) job_dev \<Rightarrow> ('s, 'a, 'b) job_dev" where
  "jd_destroy d = d\<lparr>jd_ctx := CtxClosed, jd_jobs := [], jd_dropped := jd_dropped d @ jd_jobs d\<rparr>"

inductive jd_step :: "('s \<Rightarrow> 'a \<Rightarrow> 's \<times> 'b) \<Rightarrow> ('s, 'a, 'b) job_dev \<Rightarrow> ('s, 'a, 'b) job_dev \<Rightarrow> bool" for op where
  jd_run: "jd_jobs d = a # jobs \<Longrightarrow> jd_ctx d = CtxOpen \<Longrightarrow> op (jd_state d) a = (s, b) \<Longrightarrow>
    jd_step op d (d\<lparr>jd_state := s, jd_jobs := jobs, jd_ran := jd_ran d @ [a], jd_answers := jd_answers d @ [b]\<rparr>)"

inductive jd_reachable :: "('s \<Rightarrow> 'a \<Rightarrow> 's \<times> 'b) \<Rightarrow> 's \<Rightarrow> 'a list \<Rightarrow> ('s, 'a, 'b) job_dev \<Rightarrow> bool" for op s0 where
  jd_reach_make: "jd_reachable op s0 [] (jd_make s0)"
| jd_reach_exec: "jd_reachable op s0 as d \<Longrightarrow> jd_reachable op s0 (as @ [a]) (jd_exec a d)"
| jd_reach_step: "jd_reachable op s0 as d \<Longrightarrow> jd_step op d d' \<Longrightarrow> jd_reachable op s0 as d'"
| jd_reach_destroy: "jd_reachable op s0 as d \<Longrightarrow> jd_reachable op s0 as (jd_destroy d)"

text \<open>The operations one after the other.\<close>

definition run_ops :: "('s \<Rightarrow> 'a \<Rightarrow> 's \<times> 'b) \<Rightarrow> 's \<Rightarrow> 'a list \<Rightarrow> 's \<times> 'b list" where
  "run_ops op s as = foldl (\<lambda>(s, bs) a. let (s, b) = op s a in (s, bs @ [b])) (s, []) as"

lemma run_ops_Nil [simp]: "run_ops op s [] = (s, [])"
  by (simp add: run_ops_def)

lemma run_ops_snoc: "run_ops op s (as @ [a]) = (let (s, bs) = run_ops op s as; (s, b) = op s a in (s, bs @ [b]))"
  by (simp add: run_ops_def Let_def split: prod.splits)

definition jd_inv :: "('s \<Rightarrow> 'a \<Rightarrow> 's \<times> 'b) \<Rightarrow> 's \<Rightarrow> 'a list \<Rightarrow> ('s, 'a, 'b) job_dev \<Rightarrow> bool" where
  "jd_inv op s0 as d \<longleftrightarrow> run_ops op s0 (jd_ran d) = (jd_state d, jd_answers d) \<and>
     as = jd_ran d @ jd_jobs d @ jd_dropped d \<and>
     (if jd_ctx d = CtxOpen then jd_dropped d = [] else jd_jobs d = [])"

theorem job_dev_serves: "jd_reachable op s0 as d \<Longrightarrow> jd_inv op s0 as d"
proof (induction rule: jd_reachable.induct)
  case jd_reach_make
  show ?case by (simp add: jd_inv_def jd_make_def)
next
  case (jd_reach_exec as d a)
  then show ?case by (cases "jd_ctx d = CtxOpen") (auto simp: jd_inv_def jd_exec_def)
next
  case (jd_reach_step as d d')
  from jd_reach_step.hyps(2) jd_reach_step.IH show ?case
    by cases (simp add: jd_inv_def run_ops_snoc)
next
  case (jd_reach_destroy as d)
  then show ?case by (cases "jd_ctx d = CtxOpen") (auto simp: jd_inv_def jd_destroy_def)
qed

text \<open>While the device is there, an operation that waits is served, and each job that runs leaves one less.\<close>

theorem job_dev_goes_on:
  assumes "jd_ctx d = CtxOpen" and "jd_jobs d \<noteq> []"
  shows "\<exists>d'. jd_step op d d'" and "jd_step op d d' \<Longrightarrow> length (jd_jobs d') < length (jd_jobs d) \<and> jd_ctx d' = CtxOpen"
proof -
  obtain a jobs where d: "jd_jobs d = a # jobs" using assms(2) by (cases "jd_jobs d") auto
  show "\<exists>d'. jd_step op d d'" using jd_run[OF d assms(1)] by (cases "op (jd_state d) a") blast
  show "length (jd_jobs d') < length (jd_jobs d) \<and> jd_ctx d' = CtxOpen" if "jd_step op d d'"
    using that by cases (simp add: assms(1))
qed

text \<open>The bits of a BitSeqReader: a job asserts that there are some.\<close>

definition bitseq_job :: "bool list \<Rightarrow> nat \<Rightarrow> nat \<Rightarrow> nat \<times> u8 list option" where
  "bitseq_job m_bits m_pos n = (case bitseq_read m_bits m_pos n of
     None \<Rightarrow> (m_pos, None)
   | Some (bytes, m_pos) \<Rightarrow> (m_pos, Some bytes))"

text \<open>With any bits, each read gets as many bytes as it asked for, and the next one begins where it ended.\<close>

lemma bitseq_jobs:
  assumes "m_bits \<noteq> []"
  shows "\<exists>answers. run_ops (bitseq_job m_bits) 0 ns = (8 * sum_list ns mod length m_bits, map Some answers) \<and>
    map length answers = ns \<and>
    (\<forall>i<length ns. \<forall>j<ns ! i. bits_from m_bits (8 * (sum_list (take i ns) + j)) 8 (answers ! i ! j))"
proof (induction ns rule: rev_induct)
  case (snoc n ns)
  then obtain answers where a: "run_ops (bitseq_job m_bits) 0 ns = (8 * sum_list ns mod length m_bits, map Some answers)"
    "map length answers = ns"
    "\<forall>i<length ns. \<forall>j<ns ! i. bits_from m_bits (8 * (sum_list (take i ns) + j)) 8 (answers ! i ! j)" by blast
  from bitseq_read_bits[OF assms, of "8 * sum_list ns" n] obtain bytes where
    b: "bitseq_read m_bits (8 * sum_list ns mod length m_bits) n =
        Some (bytes, (8 * sum_list ns + 8 * n) mod length m_bits)" "length bytes = n"
      "\<forall>i<n. bits_from m_bits (8 * sum_list ns + 8 * i) 8 (bytes ! i)" by blast
  have len: "length answers = length ns" using a(2) by (metis length_map)
  have "bits_from m_bits (8 * (sum_list (take i (ns @ [n])) + j)) 8 ((answers @ [bytes]) ! i ! j)"
    if "i < length (ns @ [n])" "j < (ns @ [n]) ! i" for i j
    using that a(3) b(3) len by (cases "i < length ns") (simp_all add: nth_append less_Suc_eq distrib_left)
  moreover have "bitseq_job m_bits (8 * sum_list ns mod length m_bits) n =
      ((8 * sum_list ns + 8 * n) mod length m_bits, Some bytes)" by (simp add: bitseq_job_def b(1))
  ultimately show ?case using a(1,2) b(2)
    by (intro exI[of _ "answers @ [bytes]"]) (simp add: run_ops_snoc distrib_left)
qed simp

theorem bitseq_reader_on_context:
  assumes "m_bits \<noteq> []" and "jd_reachable (bitseq_job m_bits) 0 ns d"
  shows "\<exists>answers. jd_answers d = map Some answers \<and> map length answers = jd_ran d \<and>
    (\<forall>i<length answers. \<forall>j<length (answers ! i).
      bits_from m_bits (8 * (sum_list (take i (jd_ran d)) + j)) 8 (answers ! i ! j))"
proof -
  obtain answers where a: "run_ops (bitseq_job m_bits) 0 (jd_ran d) = (8 * sum_list (jd_ran d) mod length m_bits, map Some answers)"
    "map length answers = jd_ran d"
    "\<forall>i<length (jd_ran d). \<forall>j<jd_ran d ! i. bits_from m_bits (8 * (sum_list (take i (jd_ran d)) + j)) 8 (answers ! i ! j)"
    using bitseq_jobs[OF assms(1)] by blast
  have "jd_answers d = map Some answers" using job_dev_serves[OF assms(2)] a(1) by (simp add: jd_inv_def)
  moreover have "length (jd_ran d) = length answers" "jd_ran d ! i = length (answers ! i)" if "i < length answers" for i
    using a(2) that by (metis length_map, metis nth_map)
  ultimately show ?thesis using a(2,3) by (intro exI[of _ answers]) auto
qed

text \<open>A StringReader answers its string piece by piece, in the order of the reads.\<close>

lemma string_reads_prefix:
  assumes "run_ops string_read (str, 0) ns = (s, answers :: 'e io_read list)"
  shows "\<exists>p\<le>length str. s = (str, p) \<and> concat (map (case_sum (\<lambda>_. []) id) answers) = take p str \<and> answers \<in> lists (range Inr)"
  using assms
proof (induction ns arbitrary: s answers rule: rev_induct)
  case (snoc n ns)
  obtain s1 as1 where r: "run_ops string_read (str, 0) ns = (s1, as1 :: 'e io_read list)" by fastforce
  from snoc.IH[OF this] obtain p where p: "p \<le> length str" "s1 = (str, p)"
    "concat (map (case_sum (\<lambda>_. []) id) as1) = take p str" "as1 \<in> lists (range Inr)" by blast
  let ?k = "min (length str - p) n"
  have read: "string_read s1 n = ((str, p + ?k), Inr (take ?k (drop p str)) :: 'e io_read)"
    by (simp add: string_read_def p(2) Let_def)
  then have s: "s = (str, p + ?k)" "answers = as1 @ [Inr (take ?k (drop p str))]"
    using snoc.prems r by (simp_all add: run_ops_snoc)
  have "concat (map (case_sum (\<lambda>_. []) id) answers) = take (p + ?k) str"
    using p(3) by (simp only: s take_add map_append concat_append) simp
  then show ?case using s p(1,4) by (intro exI[of _ "p + ?k"]) auto
qed simp

theorem string_reader_on_context:
  assumes "jd_reachable string_read (str, 0) ns d"
  shows "\<exists>p\<le>length str. concat (map (case_sum (\<lambda>_. []) id) (jd_answers d :: 'e io_read list)) = take p str"
  using string_reads_prefix[of str "jd_ran d" "jd_state d" "jd_answers d"] job_dev_serves[OF assms]
  by (auto simp: jd_inv_def)

section \<open>PushbackReader\<close>

datatype 'e pb_pc =
    PB_Idle
  | PB_Job "'e io_read"        \<comment> \<open>the job that calls the handler is queued\<close>
  | PB_Asked nat               \<comment> \<open>the origin has been asked for n bytes; it holds the callback\<close>
  | PB_Gone                    \<comment> \<open>the handler was destroyed without a call\<close>

datatype pb_event = PbRead nat | PbUnread "u8 list"

record ('r, 'e) pb_dev =
  m_originReader :: 'r
  m_unreadBuf :: "u8 list"
  pb_pc :: "'e pb_pc"
  pb_ctx :: ctx_phase
  pb_history :: "pb_event list"      \<comment> \<open>ghost: the calls of read and unread\<close>
  pb_answers :: "'e io_read list"    \<comment> \<open>ghost: what the handlers got\<close>

definition pb_make :: "'r \<Rightarrow> ('r, 'e) pb_dev" where
  "pb_make origin = \<lparr>m_originReader = origin, m_unreadBuf = [], pb_pc = PB_Idle, pb_ctx = CtxOpen,
     pb_history = [], pb_answers = []\<rparr>"

text \<open>exec on the reader's context: a closed one destroys the job.\<close>

definition pb_exec :: "'e io_read \<Rightarrow> ('r, 'e) pb_dev \<Rightarrow> ('r, 'e) pb_dev" where
  "pb_exec res d = d\<lparr>pb_pc := if pb_ctx d = CtxOpen then PB_Job res else PB_Gone\<rparr>"

definition pb_startRead :: "nat \<Rightarrow> ('r, 'e) pb_dev \<Rightarrow> ('r, 'e) pb_dev" where
  "pb_startRead n d =
     (if m_unreadBuf d \<noteq> []
      then case take_unread (m_unreadBuf d) n of (buf, bs) \<Rightarrow> pb_exec (Inr bs) (d\<lparr>m_unreadBuf := buf\<rparr>)
      else d\<lparr>pb_pc := PB_Asked n\<rparr>)"

definition pb_read :: "nat \<Rightarrow> ('r, 'e) pb_dev \<Rightarrow> ('r, 'e) pb_dev" where
  "pb_read n d = pb_startRead n (d\<lparr>pb_history := pb_history d @ [PbRead n]\<rparr>)"

definition pb_unread :: "u8 list \<Rightarrow> ('r, 'e) pb_dev \<Rightarrow> ('r, 'e) pb_dev" where
  "pb_unread bytes d = d\<lparr>m_unreadBuf := m_unreadBuf d @ rev bytes, pb_history := pb_history d @ [PbUnread bytes]\<rparr>"

text \<open>The callback given to the origin.\<close>

definition pb_origin_answers :: "('r \<Rightarrow> nat \<Rightarrow> 'r \<times> 'e io_read) \<Rightarrow> nat \<Rightarrow> ('r, 'e) pb_dev \<Rightarrow> ('r, 'e) pb_dev" where
  "pb_origin_answers rd n d =
     (case rd (m_originReader d) n of (origin, res) \<Rightarrow> pb_exec res (d\<lparr>m_originReader := origin\<rparr>))"

definition pb_call_handler :: "'e io_read \<Rightarrow> ('r, 'e) pb_dev \<Rightarrow> ('r, 'e) pb_dev" where
  "pb_call_handler res d = d\<lparr>pb_pc := PB_Idle, pb_answers := pb_answers d @ [res]\<rparr>"

definition pb_destroy :: "('r, 'e) pb_dev \<Rightarrow> ('r, 'e) pb_dev" where
  "pb_destroy d = d\<lparr>pb_ctx := CtxClosed, pb_pc := (case pb_pc d of PB_Job res \<Rightarrow> PB_Gone | p \<Rightarrow> p)\<rparr>"

inductive pb_step :: "('r \<Rightarrow> nat \<Rightarrow> 'r \<times> 'e io_read) \<Rightarrow> ('r, 'e) pb_dev \<Rightarrow> ('r, 'e) pb_dev \<Rightarrow> bool" for rd where
  pb_origin: "pb_pc d = PB_Asked n \<Longrightarrow> pb_step rd d (pb_origin_answers rd n d)"
| pb_job: "pb_pc d = PB_Job res \<Longrightarrow> pb_ctx d = CtxOpen \<Longrightarrow> pb_step rd d (pb_call_handler res d)"

inductive pb_reachable :: "('r \<Rightarrow> nat \<Rightarrow> 'r \<times> 'e io_read) \<Rightarrow> 'r \<Rightarrow> ('r, 'e) pb_dev \<Rightarrow> bool" for rd origin where
  pb_reach_make: "pb_reachable rd origin (pb_make origin)"
| pb_reach_read: "pb_reachable rd origin d \<Longrightarrow> pb_pc d = PB_Idle \<Longrightarrow> pb_reachable rd origin (pb_read n d)"
| pb_reach_unread: "pb_reachable rd origin d \<Longrightarrow> pb_reachable rd origin (pb_unread bytes d)"
| pb_reach_step: "pb_reachable rd origin d \<Longrightarrow> pb_step rd d d' \<Longrightarrow> pb_reachable rd origin d'"
| pb_reach_destroy: "pb_reachable rd origin d \<Longrightarrow> pb_reachable rd origin (pb_destroy d)"

text \<open>The calls, done one after the other by the reader as a function.\<close>

fun pb_spec :: "('r \<Rightarrow> nat \<Rightarrow> 'r \<times> 'e io_read) \<Rightarrow> 'r reader \<Rightarrow> pb_event \<Rightarrow> 'r reader \<times> 'e io_read list" where
  "pb_spec rd r (PbRead n) = (case reader_read rd r n of (r, res) \<Rightarrow> (r, [res]))"
| "pb_spec rd r (PbUnread bytes) = (unread r bytes, [])"

definition pb_specs :: "('r \<Rightarrow> nat \<Rightarrow> 'r \<times> 'e io_read) \<Rightarrow> 'r \<Rightarrow> pb_event list \<Rightarrow> 'r reader \<times> 'e io_read list" where
  "pb_specs rd origin evs = (case run_ops (pb_spec rd) (PushbackReader (Device origin) []) evs of (r, as) \<Rightarrow> (r, concat as))"

lemma pb_specs_snoc:
  "pb_specs rd origin (evs @ [ev]) = (case pb_specs rd origin evs of (r, as) \<Rightarrow>
     case pb_spec rd r ev of (r, bs) \<Rightarrow> (r, as @ bs))"
  by (simp add: pb_specs_def run_ops_snoc Let_def split: prod.splits)

text \<open>
  The function has answered what the handlers got and, while a read is in progress, what its handler will get; its
  state is the reader's, with the origin as it will be after it was asked.
\<close>

definition pb_inv :: "('r \<Rightarrow> nat \<Rightarrow> 'r \<times> 'e io_read) \<Rightarrow> 'r \<Rightarrow> ('r, 'e) pb_dev \<Rightarrow> bool" where
  "pb_inv rd origin d \<longleftrightarrow>
     (case pb_pc d of
        PB_Idle \<Rightarrow> pb_specs rd origin (pb_history d) = (PushbackReader (Device (m_originReader d)) (m_unreadBuf d), pb_answers d)
      | PB_Job res \<Rightarrow> pb_ctx d = CtxOpen \<and>
          pb_specs rd origin (pb_history d) = (PushbackReader (Device (m_originReader d)) (m_unreadBuf d), pb_answers d @ [res])
      | PB_Asked n \<Rightarrow> (case rd (m_originReader d) n of (r, res) \<Rightarrow>
          pb_specs rd origin (pb_history d) = (PushbackReader (Device r) (m_unreadBuf d), pb_answers d @ [res]))
      | PB_Gone \<Rightarrow> pb_ctx d = CtxClosed \<and> (\<exists>res. snd (pb_specs rd origin (pb_history d)) = pb_answers d @ [res])) \<and>
     pb_ctx d \<noteq> CtxClosing"

lemmas pb_op_defs = pb_make_def pb_exec_def pb_startRead_def pb_read_def pb_unread_def pb_origin_answers_def
  pb_call_handler_def pb_destroy_def

lemma pb_phase: "pb_inv rd origin d \<Longrightarrow> pb_ctx d \<noteq> CtxOpen \<Longrightarrow> pb_ctx d = CtxClosed"
  by (cases "pb_ctx d") (auto simp: pb_inv_def)

lemma pb_inv_read:
  assumes "pb_inv rd origin d" and "pb_pc d = PB_Idle"
  shows "pb_inv rd origin (pb_read n d)"
proof (cases "m_unreadBuf d = []")
  case True
  then show ?thesis using assms
    by (auto simp: pb_inv_def pb_op_defs pb_specs_snoc split: prod.splits)
next
  case False
  then show ?thesis using assms pb_phase[OF assms(1)]
    by (cases "pb_ctx d = CtxOpen") (auto simp: pb_inv_def pb_op_defs pb_specs_snoc split: prod.splits)
qed

lemma pb_inv_unread: "pb_inv rd origin d \<Longrightarrow> pb_inv rd origin (pb_unread bytes d)"
  by (cases "pb_pc d") (auto simp: pb_inv_def pb_op_defs pb_specs_snoc unread_def split: prod.splits)

lemma pb_inv_step:
  assumes "pb_step rd d d'" and "pb_inv rd origin d"
  shows "pb_inv rd origin d'"
  using assms
proof cases
  case (pb_origin n)
  then show ?thesis using assms(2) pb_phase[OF assms(2)]
    by (cases "pb_ctx d = CtxOpen") (auto simp: pb_inv_def pb_op_defs split: prod.splits)
next
  case (pb_job res)
  then show ?thesis using assms(2) by (auto simp: pb_inv_def pb_op_defs)
qed

lemma pb_inv_destroy: "pb_inv rd origin d \<Longrightarrow> pb_inv rd origin (pb_destroy d)"
  by (cases "pb_pc d") (auto simp: pb_inv_def pb_op_defs)

lemma pb_reachable_inv: "pb_reachable rd origin d \<Longrightarrow> pb_inv rd origin d"
proof (induction rule: pb_reachable.induct)
  case pb_reach_make
  show ?case by (simp add: pb_inv_def pb_op_defs pb_specs_def)
qed (blast intro: pb_inv_read pb_inv_unread pb_inv_step pb_inv_destroy)+

fun pb_rank :: "'e pb_pc \<Rightarrow> nat" where
  "pb_rank (PB_Asked n) = 2"
| "pb_rank (PB_Job res) = 1"
| "pb_rank p = 0"

text \<open>
  The reads of a PushbackReader, each after the one before was answered, with bytes given back at any time, also while
  the origin is asked: the handlers get, in order, what the reader as a function answers to the same calls; all of
  it but the read in progress, if there is one. While the reader is there, a read goes on to its
  answer in at most two steps.
\<close>

theorem pushback_answers:
  assumes "pb_reachable rd origin d"
  shows "\<exists>rest. snd (pb_specs rd origin (pb_history d)) = pb_answers d @ rest \<and> length rest = (if pb_pc d = PB_Idle then 0 else 1)"
    and "pb_ctx d = CtxOpen \<and> pb_pc d \<noteq> PB_Idle \<longrightarrow> (\<exists>d'. pb_step rd d d')"
    and "pb_step rd d d' \<Longrightarrow> pb_rank (pb_pc d') < pb_rank (pb_pc d)"
proof -
  note inv = pb_reachable_inv[OF assms]
  show "\<exists>rest. snd (pb_specs rd origin (pb_history d)) = pb_answers d @ rest \<and>
      length rest = (if pb_pc d = PB_Idle then 0 else 1)"
    using inv by (cases "pb_pc d") (auto simp: pb_inv_def split: prod.splits)
  show "pb_ctx d = CtxOpen \<and> pb_pc d \<noteq> PB_Idle \<longrightarrow> (\<exists>d'. pb_step rd d d')"
    using inv by (cases "pb_pc d") (auto simp: pb_inv_def intro: pb_origin pb_job)
  show "pb_rank (pb_pc d') < pb_rank (pb_pc d)" if "pb_step rd d d'"
    using that by cases (auto simp: pb_op_defs split: prod.splits)
qed

text \<open>Three bytes given back, of which two are read at once.\<close>

lemma pushback_example:
  "pb_read 2 (pb_unread [1, 2, 3] (pb_make ([], 0))) =
     \<lparr>m_originReader = ([] :: u8 list, 0 :: nat), m_unreadBuf = [3], pb_pc = PB_Job (Inr [1, 2] :: nat io_read), pb_ctx = CtxOpen,
      pb_history = [PbUnread [1, 2, 3], PbRead 2], pb_answers = []\<rparr>"
  by (simp add: pb_op_defs take_unread_def span_last_def)

end
