(* ===== verification/Platform.thy ===== *)
theory Platform
  imports Network Executors
begin

text \<open>
  specific/windows (network-win.cpp, serial-port-win.cpp, serial-port-detail.cpp, thread-name-win.cpp), thread-name-linux.cpp
  with the names that the executors give their threads, and include/nhope/utils/scope-exit.h, which the code
  on the operating system uses. What Windows answers is a parameter; GetAdaptersInfo and RegEnumValueA are written out as
  their documentation has them: which sizes they read and write.
\<close>

section \<open>ScopeExit\<close>

text \<open>The body, then fn in the destructor, whose exception is swallowed; the body's result goes on.\<close>

definition scope_exit :: "('s \<Rightarrow> 's \<times> 'e option) \<Rightarrow> ('s \<Rightarrow> 's \<times> 'r) \<Rightarrow> 's \<Rightarrow> 's \<times> 'r" where
  "scope_exit fn body s = (let (s, r) = body s; (s, exn) = fn s in (s, r))"

section \<open>The heap of the process\<close>

text \<open>The blocks that are allocated, with their sizes; using or freeing any other address is None.\<close>

record win_heap =
  wh_live :: "nat \<rightharpoonup> nat"
  wh_next :: nat

definition heap_alloc :: "nat \<Rightarrow> win_heap \<Rightarrow> win_heap \<times> nat" where
  "heap_alloc sz h = (h\<lparr>wh_live := (wh_live h)(wh_next h \<mapsto> sz), wh_next := wh_next h + 1\<rparr>, wh_next h)"

definition heap_free :: "nat \<Rightarrow> win_heap \<Rightarrow> win_heap option" where
  "heap_free p h = (if wh_live h p = None then None else Some (h\<lparr>wh_live := (wh_live h)(p := None)\<rparr>))"

section \<open>addressEntries\<close>

text \<open>
  An adapter as GetAdaptersInfo lists it: the first address of its lists, its index and its name. The size that a
  list of n adapters takes is n blocks of adapter_size bytes.
\<close>

record adapter =
  ad_index :: nat
  ad_name :: string
  ad_ip :: string
  ad_mask :: string
  ad_gateway :: string

definition adapter_size :: nat where "adapter_size = 704"

definition adapters_size :: "adapter list \<Rightarrow> nat" where
  "adapters_size adapters = adapter_size * length adapters"

datatype adapters_result = NO_ERROR "adapter list" | ERROR_BUFFER_OVERFLOW | ERROR_OTHER nat

text \<open>
  With the buffer p of ulOutBufLen bytes: too short a length is answered with the length that is needed; otherwise the
  list is written to the buffer, which must be that long. system is what there is to list, or an error.
\<close>

definition GetAdaptersInfo :: "nat + adapter list \<Rightarrow> nat \<Rightarrow> nat \<Rightarrow> win_heap \<Rightarrow> (nat \<times> adapters_result) option" where
  "GetAdaptersInfo system p ulOutBufLen h = (case wh_live h p of
     None \<Rightarrow> None
   | Some sz \<Rightarrow> (case system of
       Inl err \<Rightarrow> Some (ulOutBufLen, ERROR_OTHER err)
     | Inr adapters \<Rightarrow>
         if ulOutBufLen < adapters_size adapters then Some (adapters_size adapters, ERROR_BUFFER_OVERFLOW)
         else if sz < adapters_size adapters then None
         else Some (ulOutBufLen, NO_ERROR adapters)))"

text \<open>luidName: the name that ConvertInterfaceLuidToNameA finds for an index.\<close>

definition ifaceName :: "(nat \<Rightarrow> string option) \<Rightarrow> adapter \<Rightarrow> string" where
  "ifaceName luidName ptr = (case luidName (ad_index ptr) of Some buf \<Rightarrow> buf | None \<Rightarrow> ad_name ptr)"

definition adapter_entry :: "(nat \<Rightarrow> string option) \<Rightarrow> adapter \<Rightarrow> address_entry" where
  "adapter_entry luidName a =
     \<lparr>iface = ifaceName luidName a, ip = ad_ip a, mask = ad_mask a, gateway = ad_gateway a\<rparr>"

fun adapters_loop :: "(nat \<Rightarrow> string option) \<Rightarrow> adapter list \<Rightarrow> address_entry list \<Rightarrow> address_entry list" where
  "adapters_loop luidName [] result = result"
| "adapters_loop luidName (pAdapter # pNext) result =
     (let entry = adapter_entry luidName pAdapter;
          it = lower_bound (\<lambda>l. iface l < iface entry) result
      in adapters_loop luidName pNext (insert_at it entry result))"

text \<open>
  addressEntries: system1 and system2 are what the two calls find; mallocs says whether an allocation
  succeeds, as the asserts demand. The block that is current at the end is freed by the ScopeExit.
\<close>

definition win_malloc :: "(nat \<Rightarrow> bool) \<Rightarrow> nat \<Rightarrow> win_heap \<Rightarrow> (win_heap \<times> nat) option" where
  "win_malloc mallocs sz h = (if mallocs sz then Some (heap_alloc sz h) else None)"

definition grow_buffer :: "(nat \<Rightarrow> bool) \<Rightarrow> nat \<Rightarrow> nat \<times> adapters_result \<Rightarrow> win_heap \<Rightarrow> (win_heap \<times> nat) option" where
  "grow_buffer mallocs p answer h = (case answer of
     (ulOutBufLen, ERROR_BUFFER_OVERFLOW) \<Rightarrow> Option.bind (heap_free p h) (win_malloc mallocs ulOutBufLen)
   | _ \<Rightarrow> Some (h, p))"

definition addressEntries_win :: "(nat \<Rightarrow> bool) \<Rightarrow> (nat \<Rightarrow> string option) \<Rightarrow> nat + adapter list \<Rightarrow> nat + adapter list \<Rightarrow>
    win_heap \<Rightarrow> (win_heap \<times> address_entry list) option" where
  "addressEntries_win mallocs luidName system1 system2 h =
     Option.bind (win_malloc mallocs adapter_size h) (\<lambda>(h, p).
     Option.bind (GetAdaptersInfo system1 p adapter_size h) (\<lambda>answer1.
     Option.bind (grow_buffer mallocs p answer1 h) (\<lambda>(h, p).
     Option.bind (GetAdaptersInfo system2 p (fst answer1) h) (\<lambda>answer2.
       let result = (case snd answer2 of NO_ERROR adapters \<Rightarrow> adapters_loop luidName adapters [] | _ \<Rightarrow> []) in
       map_option (\<lambda>h. (h, result)) (heap_free p h)))))"

lemma adapters_loop_spec:
  "sorted (map iface result) \<Longrightarrow> sorted (map iface (adapters_loop luidName adapters result)) \<and>
    mset (adapters_loop luidName adapters result) = mset result + mset (map (adapter_entry luidName) adapters)"
proof (induction adapters arbitrary: result)
  case (Cons a rest)
  let ?e = "adapter_entry luidName a"
  let ?r = "insert_at (lower_bound (\<lambda>l. iface l < iface ?e) result) ?e result"
  have "sorted (map iface ?r)" by (rule sorted_insert_lower_bound[OF Cons.prems])
  from Cons.IH[OF this] show ?case by (simp add: Let_def mset_insert_at)
qed simp

text \<open>The length with which the second call is made.\<close>

definition offered :: "nat + adapter list \<Rightarrow> nat" where
  "offered system1 = (case system1 of Inl _ \<Rightarrow> adapter_size | Inr adapters \<Rightarrow> max adapter_size (adapters_size adapters))"

text \<open>
  As long as memory can be had, addressEntries writes only to memory that it owns, frees every block once and
  leaves none; it lists the adapters of the second call, sorted by name, if they fit in what the first call asked for,
  and answers an empty list when there have become more of them in between.
\<close>

theorem addressEntries_win_frees:
  assumes "\<And>sz. mallocs sz" and fresh: "\<forall>p\<ge>wh_next h. wh_live h p = None"
  shows "\<exists>h' es. addressEntries_win mallocs luidName system1 system2 h = Some (h', es) \<and> wh_live h' = wh_live h \<and>
    (case system2 of
       Inr adapters \<Rightarrow> if adapters_size adapters \<le> offered system1
         then sorted (map iface es) \<and> mset es = mset (map (adapter_entry luidName) adapters) else es = []
     | Inl _ \<Rightarrow> es = [])"
proof -
  let ?h1 = "fst (heap_alloc adapter_size h)"
  have live: "wh_live h (wh_next h) = None" "wh_live h (Suc (wh_next h)) = None" using fresh by auto
  have "\<exists>res. GetAdaptersInfo system1 (wh_next h) adapter_size ?h1 = Some (offered system1, res)"
    by (auto simp: GetAdaptersInfo_def heap_alloc_def offered_def max_def not_less split: sum.split)
  then obtain len res where a: "GetAdaptersInfo system1 (wh_next h) adapter_size ?h1 = Some (len, res)"
    and len: "len = offered system1" by blast
  obtain h2 p where g: "grow_buffer mallocs (wh_next h) (len, res) ?h1 = Some (h2, p)" "wh_live h2 p = Some len"
    "(wh_live h2)(p := None) = wh_live h"
  proof (cases "res = ERROR_BUFFER_OVERFLOW")
    case True
    then show thesis using that[of "fst (heap_alloc len (?h1\<lparr>wh_live := wh_live h\<rparr>))" "Suc (wh_next h)"] live assms(1)
      by (auto simp: grow_buffer_def heap_free_def win_malloc_def heap_alloc_def fun_upd_idem)
  next
    case False
    then have "len = adapter_size" using a by (cases system1) (auto simp: GetAdaptersInfo_def heap_alloc_def split: if_splits)
    then show thesis using that[of ?h1 "wh_next h"] False live
      by (cases res) (auto simp: grow_buffer_def heap_alloc_def fun_upd_idem)
  qed
  have "\<exists>ans2. GetAdaptersInfo system2 p len h2 = Some ans2 \<and> (case system2 of
      Inr adapters \<Rightarrow> if adapters_size adapters \<le> len then snd ans2 = NO_ERROR adapters else snd ans2 = ERROR_BUFFER_OVERFLOW
    | Inl err \<Rightarrow> snd ans2 = ERROR_OTHER err)"
    using g(2) by (auto simp: GetAdaptersInfo_def not_less split: sum.split)
  then obtain ans2 where b: "GetAdaptersInfo system2 p len h2 = Some ans2" "case system2 of
      Inr adapters \<Rightarrow> if adapters_size adapters \<le> len then snd ans2 = NO_ERROR adapters else snd ans2 = ERROR_BUFFER_OVERFLOW
    | Inl err \<Rightarrow> snd ans2 = ERROR_OTHER err" by blast
  have "addressEntries_win mallocs luidName system1 system2 h =
      Some (h2\<lparr>wh_live := wh_live h\<rparr>, case snd ans2 of NO_ERROR adapters \<Rightarrow> adapters_loop luidName adapters [] | _ \<Rightarrow> [])"
    using a b(1) g assms(1) by (simp add: addressEntries_win_def win_malloc_def heap_alloc_def heap_free_def Let_def)
  then show ?thesis using b(2) adapters_loop_spec[of "[]" luidName] unfolding len
    by (auto split: sum.splits if_splits)
qed

text \<open>One adapter when the size was asked for, two when the list was made.\<close>

lemma addressEntries_win_grown:
  "map_option snd (addressEntries_win (\<lambda>_. True) luidName (Inr [a]) (Inr [a, b]) \<lparr>wh_live = Map.empty, wh_next = 0\<rparr>) = Some []"
  by (simp add: addressEntries_win_def win_malloc_def heap_alloc_def GetAdaptersInfo_def adapters_size_def adapter_size_def
    grow_buffer_def heap_free_def Let_def)

section \<open>getLocalIp\<close>

text \<open>
  ent is what gethostbyname answers for the machine's name: no pointer, or the addresses. The first one
  is read without a check. wsa counts the uses of Winsock.
\<close>

definition getLocalIp_win :: "(8 word list \<Rightarrow> string) \<Rightarrow> 8 word list list option \<Rightarrow> nat \<Rightarrow> (nat \<times> string) option" where
  "getLocalIp_win inet_ntop ent wsa = (let wsa = wsa + 1 in
     case ent of
       Some (h_addr # _) \<Rightarrow> Some (wsa - 1, inet_ntop h_addr)
     | _ \<Rightarrow> None)"

lemma getLocalIp_win_defined: "getLocalIp_win inet_ntop ent wsa \<noteq> None \<longleftrightarrow> (\<exists>a as. ent = Some (a # as))"
  by (auto simp: getLocalIp_win_def split: option.splits list.splits)

section \<open>The search for serial ports\<close>

text \<open>
  RegEnumValueA on the values of the key: their data, with the terminating zero. lpcbData is the size of the buffer going in,
  and the size of the data coming out, also when they do not fit.
\<close>

datatype reg_result = ERROR_SUCCESS | ERROR_MORE_DATA | ERROR_NO_MORE_ITEMS

definition RegEnumValueA :: "8 word list list \<Rightarrow> nat \<Rightarrow> 8 word list \<Rightarrow> nat \<Rightarrow> 8 word list \<times> nat \<times> reg_result" where
  "RegEnumValueA hKey dwIndex lpData lpcbData =
     (if length hKey \<le> dwIndex then (lpData, lpcbData, ERROR_NO_MORE_ITEMS)
      else let data = hKey ! dwIndex in
        if lpcbData < length data then (lpData, length data, ERROR_MORE_DATA)
        else (data @ drop (length data) lpData, length data, ERROR_SUCCESS))"

definition MAX_PATH :: nat where "MAX_PATH = 260"

text \<open>A C string in a buffer.\<close>

definition cstring :: "8 word list \<Rightarrow> 8 word list" where
  "cstring buf = takeWhile (\<lambda>c. c \<noteq> 0) buf"

function devices_loop :: "8 word list list \<Rightarrow> nat \<Rightarrow> 8 word list \<Rightarrow> nat \<Rightarrow> 8 word list list \<Rightarrow> 8 word list list" where
  "devices_loop hKey index outputBuffer bytesRequired devices =
     (case RegEnumValueA hKey index outputBuffer bytesRequired of
        (outputBuffer, bytesRequired, ERROR_SUCCESS) \<Rightarrow>
          devices_loop hKey (index + 1) outputBuffer bytesRequired (devices @ [cstring outputBuffer])
      | _ \<Rightarrow> devices)"
  by pat_completeness auto
termination
  by (relation "measure (\<lambda>(hKey, index, _). length hKey - index)")
    (auto simp: RegEnumValueA_def Let_def split: if_splits)

declare devices_loop.simps [simp del]

text \<open>hKey is None when the key cannot be opened.\<close>

definition availableDevices_win :: "8 word list list option \<Rightarrow> 8 word list list" where
  "availableDevices_win hKey = (case hKey of
     None \<Rightarrow> []
   | Some values \<Rightarrow> devices_loop values 0 (replicate (MAX_PATH + 1) 0) MAX_PATH [])"

text \<open>
  bytesRequired is not set again for the next value, so that the loop ends at the first one that is longer than
  the one before.
\<close>

fun not_longer :: "nat \<Rightarrow> 'a list list \<Rightarrow> 'a list list" where
  "not_longer n [] = []"
| "not_longer n (x # xs) = (if length x < n then x # not_longer (Suc (length x)) xs else [])"

lemma cstring_append: "0 \<notin> set s \<Longrightarrow> cstring (s @ rest) = s @ cstring rest"
  by (induction s) (auto simp: cstring_def)

lemma cstring_data: "0 \<notin> set s \<Longrightarrow> cstring ((s @ [0]) @ rest) = s"
  by (simp add: cstring_append) (simp add: cstring_def)

lemma devices_loop_names:
  assumes "\<forall>s\<in>set names. 0 \<notin> set s" and "hKey = map (\<lambda>s. s @ [0]) (done @ names)"
  shows "devices_loop hKey (length done) buf n devices = devices @ not_longer n names"
  using assms
proof (induction names arbitrary: "done" buf n devices)
  case Nil
  then show ?case by (subst devices_loop.simps) (simp add: RegEnumValueA_def)
next
  case (Cons s names)
  have at: "hKey ! length done = s @ [0]" "length done < length hKey" using Cons.prems(2) by (simp_all add: nth_append)
  show ?case
  proof (cases "length s < n")
    case True
    then have "RegEnumValueA hKey (length done) buf n = ((s @ [0]) @ drop (Suc (length s)) buf, Suc (length s), ERROR_SUCCESS)"
      using at by (simp add: RegEnumValueA_def Let_def)
    moreover have "devices_loop hKey (length (done @ [s])) ((s @ [0]) @ drop (Suc (length s)) buf) (Suc (length s)) (devices @ [s]) =
        (devices @ [s]) @ not_longer (Suc (length s)) names"
      by (rule Cons.IH) (use Cons.prems in auto)
    moreover have "cstring ((s @ [0]) @ drop (Suc (length s)) buf) = s" using Cons.prems(1) by (intro cstring_data) simp
    ultimately show ?thesis using True by (subst devices_loop.simps) simp
  next
    case False
    then have "RegEnumValueA hKey (length done) buf n = (buf, Suc (length s), ERROR_MORE_DATA)"
      using at by (simp add: RegEnumValueA_def Let_def)
    then show ?thesis using False by (subst devices_loop.simps) simp
  qed
qed

text \<open>
  Of the names in the registry, none of them longer than a path, the list has those before the first one that is
  longer than the name before it: all of them when they do not get longer, but COM9 hides a COM10 behind it.
\<close>

theorem availableDevices_win_lists:
  assumes "\<forall>s\<in>set names. 0 \<notin> set s"
  shows "availableDevices_win (Some (map (\<lambda>s. s @ [0]) names)) = not_longer MAX_PATH names"
  using devices_loop_names[OF assms, of "map (\<lambda>s. s @ [0]) names" "[]"] by (simp add: availableDevices_win_def)

lemma not_longer_all: "sorted_wrt (\<lambda>x y. length y \<le> length x) names \<Longrightarrow> \<forall>s\<in>set names. length s < n \<Longrightarrow> not_longer n names = names"
  by (induction n names rule: not_longer.induct) (auto simp: le_imp_less_Suc)

lemma availableDevices_win_hides:
  "availableDevices_win (Some [[67, 79, 77, 57, 0], [67, 79, 77, 49, 48, 0]]) = [[67, 79, 77, 57]]"
  using availableDevices_win_lists[of "[[67, 79, 77, 57], [67, 79, 77, 49, 48]]"] by (simp add: MAX_PATH_def)

section \<open>Modem lines\<close>

text \<open>serial-port-detail.cpp: there is no access to the lines.\<close>

definition setRTS_win :: "'d \<Rightarrow> bool \<Rightarrow> string + 'd" where
  "setRTS_win serialPort state = Inl ''serial-port: platform don't support modem control''"

definition setDTR_win :: "'d \<Rightarrow> bool \<Rightarrow> string + 'd" where
  "setDTR_win serialPort state = Inl ''serial-port: platform don't support modem control''"

definition getModemControl_win :: "'d \<Rightarrow> string + nat" where
  "getModemControl_win serialPort = Inl ''serial-port: platform don't support modem control''"

section \<open>The names of threads\<close>

text \<open>Linux: strncpy into a buffer of sixteen zeros, from the C string of the name.\<close>

definition maxThreadNameLen :: nat where "maxThreadNameLen = 15"

definition strncpy :: "8 word list \<Rightarrow> 8 word list \<Rightarrow> nat \<Rightarrow> 8 word list" where
  "strncpy dest src n = (let s = take n (cstring src) in s @ replicate (n - length s) 0 @ drop n dest)"

definition setThreadName :: "8 word list \<Rightarrow> 8 word list" where
  "setThreadName name = (let buf = replicate (maxThreadNameLen + 1) 0 in strncpy buf name (length buf - 1))"

theorem setThreadName_cut:
  "length (setThreadName name) = 16" "last (setThreadName name) = 0"
  "cstring (setThreadName name) = take 15 (cstring name)"
proof -
  let ?s = "take 15 (cstring name)"
  have eq: "setThreadName name = ?s @ replicate (15 - length ?s) 0 @ [0]"
    by (simp add: setThreadName_def strncpy_def maxThreadNameLen_def Let_def)
  show "length (setThreadName name) = 16" "last (setThreadName name) = 0" by (simp_all add: eq)
  have "0 \<notin> set ?s" by (auto simp: cstring_def dest!: in_set_takeD set_takeWhileD)
  moreover have "cstring (replicate (15 - length ?s) 0 @ [0]) = []"
    by (cases "15 - length ?s") (simp_all add: cstring_def)
  ultimately show "cstring (setThreadName name) = ?s" unfolding eq by (simp add: cstring_append del: append_assoc)
qed

text \<open>Windows: the record that the exception carries; the pointer is the name that it points to.\<close>

record thread_name_info =
  dwType :: "32 word"
  szName :: "8 word list"
  dwThreadID :: "32 word"
  dwFlags :: "32 word"

definition MS_VC_EXCEPTION :: "32 word" where "MS_VC_EXCEPTION = 0x406D1388"

definition setThreadName_win :: "32 word \<Rightarrow> 8 word list \<Rightarrow> 32 word \<times> thread_name_info" where
  "setThreadName_win currentThreadId name =
     (MS_VC_EXCEPTION, \<lparr>dwType = 0x1000, szName = cstring name, dwThreadID = currentThreadId, dwFlags = 0\<rparr>)"

text \<open>The threads of a pool are called name[i].\<close>

definition bytes_of :: "string \<Rightarrow> 8 word list" where
  "bytes_of s = map (\<lambda>c. of_nat (of_char c)) s"

definition pool_thread_name :: "string \<Rightarrow> nat \<Rightarrow> 8 word list" where
  "pool_thread_name name i = setThreadName (bytes_of (name @ ''['' @ decimal i @ '']''))"

text \<open>The names of the default pool's threads are cut from its hundredth thread on.\<close>

lemma default_pool_names: "pool_thread_name ''DftThrPoolEx'' 100 = pool_thread_name ''DftThrPoolEx'' 10"
proof -
  have "decimal 100 = ''100''" "decimal 10 = ''10''" by (simp_all add: decimal.simps char_of_def bit_0)
  then show ?thesis
    by (simp add: pool_thread_name_def bytes_of_def setThreadName_def strncpy_def cstring_def maxThreadNameLen_def Let_def)
qed

end
