(* ===== verification/LockThreads.thy ===== *)
theory LockThreads
  imports Locks
begin

text \<open>
  RecursiveLock and ReverseLock (include/nhope/async/recursive-lock.h, reverse-lock.h) in many threads that share a
  mutex. Locks has what a thread's nested scopes do to its own unique_lock, as one function; here the threads run in
  small steps, and a lock of the mutex waits until no other thread has it.
\<close>

section \<open>One thread\<close>

text \<open>
  The scopes that a thread is in, the innermost first, each with what its destructor needs and the operations
  behind it.
\<close>

datatype frame =
    InScope bool bool "lock_op list"   \<comment> \<open>isFirst, m_wasLocked\<close>
  | InReverse "lock_op list"

record lock_thread =
  t_code :: "lock_op list"
  t_frames :: "frame list"
  t_lock :: "bool option"            \<comment> \<open>the unique_lock in the stack storage\<close>
  t_exn :: "lock_exn option"         \<comment> \<open>an exception in flight\<close>

datatype mutex_call = NoCall | LockMutex | UnlockMutex

definition thread_start :: "lock_op list \<Rightarrow> lock_thread" where
  "thread_start ps = \<lparr>t_code = ps, t_frames = [], t_lock = None, t_exn = None\<rparr>"

definition thread_finished :: "lock_thread \<Rightarrow> bool" where
  "thread_finished t \<longleftrightarrow> t_frames t = [] \<and> (t_code t = [] \<or> t_exn t \<noteq> None)"

text \<open>What one operation does: the call of the mutex, and the thread after it.\<close>

definition thread_throw :: "lock_exn \<Rightarrow> lock_thread \<Rightarrow> mutex_call \<times> lock_thread" where
  "thread_throw e t = (NoCall, t\<lparr>t_exn := Some e\<rparr>)"

fun thread_op :: "lock_op \<Rightarrow> lock_op list \<Rightarrow> lock_thread \<Rightarrow> mutex_call \<times> lock_thread" where
  "thread_op LLock ps t =
     (if t_lock t = Some False then (LockMutex, t\<lparr>t_lock := Some True, t_code := ps\<rparr>) else thread_throw LockError t)"
| "thread_op LUnlock ps t =
     (if t_lock t = Some True then (UnlockMutex, t\<lparr>t_lock := Some False, t_code := ps\<rparr>) else thread_throw LockError t)"
| "thread_op LThrow ps t = thread_throw UserExn t"
| "thread_op (Scope qs) ps t =
     (let (st, isFirst, wasLocked) = rl_enter (t_lock t) in
      (if wasLocked then NoCall else LockMutex,
       t\<lparr>t_lock := st, t_code := qs, t_frames := InScope isFirst wasLocked ps # t_frames t\<rparr>))"
| "thread_op (ReverseScope qs) ps t =
     (if t_lock t = Some True
      then (UnlockMutex, t\<lparr>t_lock := Some False, t_code := qs, t_frames := InReverse ps # t_frames t\<rparr>)
      else thread_throw LockError t)"

text \<open>The destructor at the end of a scope, reached with an exception or without; None is std::terminate.\<close>

fun thread_leave :: "frame \<Rightarrow> frame list \<Rightarrow> lock_thread \<Rightarrow> (mutex_call \<times> lock_thread) option" where
  "thread_leave (InScope isFirst wasLocked ps) fs t =
     Some (if wasLocked = (t_lock t = Some True) then NoCall else if wasLocked then LockMutex else UnlockMutex,
       t\<lparr>t_lock := rl_leave (t_lock t) isFirst wasLocked, t_code := ps, t_frames := fs\<rparr>)"
| "thread_leave (InReverse ps) fs t =
     (if t_lock t = Some False then Some (LockMutex, t\<lparr>t_lock := Some True, t_code := ps, t_frames := fs\<rparr>) else None)"

definition thread_next :: "lock_thread \<Rightarrow> (mutex_call \<times> lock_thread) option" where
  "thread_next t = (case (t_exn t, t_code t) of
     (None, p # ps) \<Rightarrow> Some (thread_op p ps t)
   | _ \<Rightarrow> (case t_frames t of [] \<Rightarrow> Some (NoCall, t) | f # fs \<Rightarrow> thread_leave f fs t))"

section \<open>Threads and the mutex\<close>

record lock_system =
  ls_threads :: "lock_thread list"
  ls_owner :: "nat option"

text \<open>
  A call by thread i. Locking waits for the mutex, so it is no step while another thread has it; locking what one has already
  and unlocking what one does not have are undefined behaviour of std::mutex: the result None.
\<close>

inductive mutex_step :: "nat \<Rightarrow> mutex_call \<Rightarrow> nat option \<Rightarrow> nat option option \<Rightarrow> bool" where
  mutex_none: "mutex_step i NoCall owner (Some owner)"
| mutex_lock: "mutex_step i LockMutex None (Some (Some i))"
| mutex_relock: "mutex_step i LockMutex (Some i) None"
| mutex_unlock: "mutex_step i UnlockMutex (Some i) (Some None)"
| mutex_misused: "owner \<noteq> Some i \<Longrightarrow> mutex_step i UnlockMutex owner None"

datatype lock_outcome = Running lock_system | Terminated | Undefined

inductive lock_step :: "lock_system \<Rightarrow> lock_outcome \<Rightarrow> bool" where
  ls_next: "i < length (ls_threads s) \<Longrightarrow> \<not> thread_finished (ls_threads s ! i) \<Longrightarrow>
    thread_next (ls_threads s ! i) = Some (call, t) \<Longrightarrow> mutex_step i call (ls_owner s) (Some owner) \<Longrightarrow>
    lock_step s (Running (s\<lparr>ls_threads := (ls_threads s)[i := t], ls_owner := owner\<rparr>))"
| ls_undefined: "i < length (ls_threads s) \<Longrightarrow> \<not> thread_finished (ls_threads s ! i) \<Longrightarrow>
    thread_next (ls_threads s ! i) = Some (call, t) \<Longrightarrow> mutex_step i call (ls_owner s) None \<Longrightarrow> lock_step s Undefined"
| ls_terminate: "i < length (ls_threads s) \<Longrightarrow> \<not> thread_finished (ls_threads s ! i) \<Longrightarrow>
    thread_next (ls_threads s ! i) = None \<Longrightarrow> lock_step s Terminated"

inductive lock_reachable :: "lock_op list list \<Rightarrow> lock_system \<Rightarrow> bool" for progs where
  lr_start: "lock_reachable progs \<lparr>ls_threads = map thread_start progs, ls_owner = None\<rparr>"
| lr_step: "lock_reachable progs s \<Longrightarrow> lock_step s (Running s') \<Longrightarrow> lock_reachable progs s'"

section \<open>A thread comes to what its program comes to alone\<close>

text \<open>The rest of a thread as the function of Locks: the code, then each scope's end and what stands behind it.\<close>

fun unwind :: "frame list \<Rightarrow> lock_result \<Rightarrow> lock_result" where
  "unwind fs Terminate = Terminate"
| "unwind [] (Ended st e) = Ended st e"
| "unwind (InScope isFirst wasLocked ps # fs) (Ended st e) =
     unwind fs (case e of
       None \<Rightarrow> run_ops ps (rl_leave st isFirst wasLocked)
     | Some e \<Rightarrow> Ended (rl_leave st isFirst wasLocked) (Some e))"
| "unwind (InReverse ps # fs) (Ended st e) =
     (if st = Some False then unwind fs (case e of None \<Rightarrow> run_ops ps (Some True) | Some e \<Rightarrow> Ended (Some True) (Some e))
      else Terminate)"

definition thread_rest :: "lock_thread \<Rightarrow> lock_result" where
  "thread_rest t = unwind (t_frames t)
     (case t_exn t of None \<Rightarrow> run_ops (t_code t) (t_lock t) | Some e \<Rightarrow> Ended (t_lock t) (Some e))"

lemma unwind_cases: "unwind fs (case r of Terminate \<Rightarrow> Terminate | Ended st e \<Rightarrow> f st e) =
    (case r of Terminate \<Rightarrow> Terminate | Ended st e \<Rightarrow> unwind fs (f st e))"
  by (cases r) simp_all

lemma thread_op_rest:
  assumes "thread_op p ps t = (call, t')" and "t_exn t = None"
  shows "thread_rest t' = unwind (t_frames t) (run_ops (p # ps) (t_lock t))"
proof (cases p)
  case (Scope qs)
  then show ?thesis using assms
    by (cases "run_ops qs (Some True)") (auto simp: thread_rest_def rl_enter_def Let_def split: option.splits)
next
  case (ReverseScope qs)
  then show ?thesis using assms
    by (cases "run_ops qs (Some False)") (auto simp: thread_rest_def thread_throw_def split: if_splits option.splits)
qed (use assms in \<open>auto simp: thread_rest_def thread_throw_def split: if_splits\<close>)

lemma thread_next_rest:
  assumes "\<not> thread_finished t"
  shows "thread_next t = Some (call, t') \<Longrightarrow> thread_rest t' = thread_rest t"
    and "thread_next t = None \<Longrightarrow> thread_rest t = Terminate"
proof -
  show "thread_rest t' = thread_rest t" if n: "thread_next t = Some (call, t')"
  proof (cases "t_exn t = None \<and> t_code t \<noteq> []")
    case True
    then obtain p ps where "t_code t = p # ps" "t_exn t = None" by (cases "t_code t") auto
    then show ?thesis using n thread_op_rest[of p ps t call t'] by (simp add: thread_next_def thread_rest_def)
  next
    case False
    then obtain f fs where "t_frames t = f # fs" using assms by (cases "t_frames t") (auto simp: thread_finished_def)
    then show ?thesis using n False
      by (cases f) (auto simp: thread_next_def thread_rest_def split: option.splits list.splits if_splits)
  qed
  show "thread_rest t = Terminate" if n: "thread_next t = None"
  proof (cases "t_exn t = None \<and> t_code t \<noteq> []")
    case True
    then show ?thesis using n by (auto simp: thread_next_def neq_Nil_conv)
  next
    case False
    then obtain f fs where "t_frames t = f # fs" using assms by (cases "t_frames t") (auto simp: thread_finished_def)
    then show ?thesis using n False
      by (cases f) (auto simp: thread_next_def thread_rest_def split: option.splits list.splits if_splits)
  qed
qed

lemma thread_finished_rest: "thread_finished t \<Longrightarrow> thread_rest t = Ended (t_lock t) (t_exn t)"
  by (auto simp: thread_finished_def thread_rest_def split: option.splits)

section \<open>Invariant\<close>

text \<open>A scope that made the unique_lock found it not locked.\<close>

fun frame_ok :: "frame \<Rightarrow> bool" where
  "frame_ok (InScope isFirst wasLocked ps) \<longleftrightarrow> \<not> (isFirst \<and> wasLocked)"
| "frame_ok (InReverse ps) \<longleftrightarrow> True"

text \<open>How a call changes whether the thread has the mutex.\<close>

definition call_ok :: "mutex_call \<Rightarrow> bool \<Rightarrow> bool \<Rightarrow> bool" where
  "call_ok call before after = (case call of
     NoCall \<Rightarrow> after = before | LockMutex \<Rightarrow> \<not> before \<and> after | UnlockMutex \<Rightarrow> before \<and> \<not> after)"

lemma thread_next_ok:
  assumes "thread_next t = Some (call, t')" and "\<forall>f\<in>set (t_frames t). frame_ok f"
  shows "call_ok call (t_lock t = Some True) (t_lock t' = Some True) \<and> (\<forall>f\<in>set (t_frames t'). frame_ok f)"
proof (cases "t_exn t = None \<and> t_code t \<noteq> []")
  case True
  then obtain p ps where "t_code t = p # ps" "t_exn t = None" by (cases "t_code t") auto
  then show ?thesis using assms
    by (cases p) (auto simp: thread_next_def thread_throw_def call_ok_def rl_enter_def Let_def split: if_splits option.splits)
next
  case False
  show ?thesis
  proof (cases "t_frames t")
    case Nil
    then show ?thesis using assms False
      by (auto simp: thread_next_def call_ok_def split: option.splits list.splits)
  next
    case (Cons f fs)
    then show ?thesis using assms False
      by (cases f) (auto simp: thread_next_def call_ok_def rl_leave_def Let_def split: option.splits list.splits if_splits)
  qed
qed

definition lock_inv :: "lock_op list list \<Rightarrow> lock_system \<Rightarrow> bool" where
  "lock_inv progs s \<longleftrightarrow> length (ls_threads s) = length progs \<and>
     (\<forall>i<length progs. thread_rest (ls_threads s ! i) = run_ops (progs ! i) None \<and>
       (t_lock (ls_threads s ! i) = Some True \<longleftrightarrow> ls_owner s = Some i) \<and>
       (\<forall>f\<in>set (t_frames (ls_threads s ! i)). frame_ok f)) \<and>
     (\<forall>i. ls_owner s = Some i \<longrightarrow> i < length progs)"

lemma lock_step_inv:
  assumes inv: "lock_inv progs s" and "lock_step s r"
  shows "case r of
      Running s' \<Rightarrow> lock_inv progs s'
    | Terminated \<Rightarrow> \<exists>i<length progs. run_ops (progs ! i) None = Terminate
    | Undefined \<Rightarrow> False"
  using assms(2)
proof cases
  case (ls_next i call t owner)
  have i: "i < length progs" using ls_next(2) inv by (simp add: lock_inv_def)
  have ok: "call_ok call (ls_owner s = Some i) (t_lock t = Some True)" "\<forall>f\<in>set (t_frames t). frame_ok f"
    "thread_rest t = run_ops (progs ! i) None"
    using thread_next_ok[OF ls_next(4)] thread_next_rest(1)[OF ls_next(3,4)] inv i by (auto simp: lock_inv_def)
  have own: "owner = Some i \<longleftrightarrow> t_lock t = Some True" "\<And>j. j \<noteq> i \<Longrightarrow> owner = Some j \<longleftrightarrow> ls_owner s = Some j"
    using ls_next(5) ok(1) by (cases; auto simp: call_ok_def)+
  then show ?thesis using inv ok i ls_next(1)
    by (auto simp: lock_inv_def nth_list_update) (metis own)+
next
  case (ls_undefined i call t)
  have "i < length progs" using ls_undefined(2) inv by (simp add: lock_inv_def)
  then have ok: "call_ok call (ls_owner s = Some i) (t_lock t = Some True)"
    using thread_next_ok[OF ls_undefined(4)] inv by (auto simp: lock_inv_def)
  from ls_undefined(5) show ?thesis using ok by cases (auto simp: call_ok_def)
next
  case (ls_terminate i)
  have i: "i < length progs" using ls_terminate(2) inv by (simp add: lock_inv_def)
  then have "run_ops (progs ! i) None = Terminate"
    using thread_next_rest(2)[OF ls_terminate(3,4)] inv by (simp add: lock_inv_def)
  then show ?thesis using i ls_terminate(1) by auto
qed

lemma lock_reachable_inv: "lock_reachable progs s \<Longrightarrow> lock_inv progs s"
proof (induction rule: lock_reachable.induct)
  case lr_start
  have "unwind [] r = r" for r by (cases r) simp_all
  then show ?case by (simp add: lock_inv_def thread_start_def thread_rest_def)
next
  case (lr_step s s')
  from lock_step_inv[OF lr_step.IH lr_step.hyps(2)] show ?case by simp
qed

section \<open>Progress\<close>

fun op_work :: "lock_op \<Rightarrow> nat" where
  "op_work (Scope qs) = 3 + sum_list (map op_work qs)"
| "op_work (ReverseScope qs) = 3 + sum_list (map op_work qs)"
| "op_work _ = 1"

definition code_work :: "lock_op list \<Rightarrow> nat" where
  "code_work ps = sum_list (map op_work ps)"

fun frame_work :: "frame \<Rightarrow> nat" where
  "frame_work (InScope isFirst wasLocked ps) = 1 + code_work ps"
| "frame_work (InReverse ps) = 1 + code_work ps"

text \<open>An exception leaves the code of the scope it is thrown in.\<close>

definition thread_work :: "lock_thread \<Rightarrow> nat" where
  "thread_work t = (if t_exn t = None then code_work (t_code t) else 0) + sum_list (map frame_work (t_frames t))"

lemma thread_next_work:
  assumes "\<not> thread_finished t" and "thread_next t = Some (call, t')"
  shows "thread_work t' < thread_work t"
proof (cases "t_exn t = None \<and> t_code t \<noteq> []")
  case True
  then obtain p ps where "t_code t = p # ps" "t_exn t = None" by (cases "t_code t") auto
  then show ?thesis using assms(2)
    by (cases p) (auto simp: thread_next_def thread_throw_def thread_work_def code_work_def rl_enter_def Let_def
      split: if_splits option.splits)
next
  case False
  then obtain f fs where "t_frames t = f # fs" using assms(1) by (cases "t_frames t") (auto simp: thread_finished_def)
  then show ?thesis using assms(2) False
    by (cases f) (auto simp: thread_next_def thread_work_def code_work_def split: option.splits list.splits if_splits)
qed

definition system_work :: "lock_system \<Rightarrow> nat" where
  "system_work s = sum_list (map thread_work (ls_threads s))"

lemma lock_step_work:
  assumes "lock_step s (Running s')"
  shows "system_work s' < system_work s"
  using assms
proof cases
  case (ls_next i call t owner)
  let ?ws = "map thread_work (ls_threads s)"
  have "thread_work t < ?ws ! i" using thread_next_work[OF ls_next(3,4)] ls_next(2) by simp
  moreover have "?ws ! i \<le> sum_list ?ws" using ls_next(2) by (intro elem_le_sum_list) simp
  ultimately show ?thesis using ls_next(1,2) sum_list_update[of i ?ws "thread_work t"]
    by (simp add: system_work_def map_update)
qed

text \<open>The operations of a scope leave a thread without a unique_lock without one.\<close>

lemma run_ops_none:
  "run_ops ps st = Ended st' e \<Longrightarrow> st' = None \<longleftrightarrow> st = None"
  "run_op p st = Ended st' e \<Longrightarrow> st' = None \<longleftrightarrow> st = None"
proof -
  have "case run_ops ps st of Terminate \<Rightarrow> True | Ended st' e \<Rightarrow> st' = None \<longleftrightarrow> st = None"
    and "case run_op p st of Terminate \<Rightarrow> True | Ended st' e \<Rightarrow> st' = None \<longleftrightarrow> st = None"
    by (induction ps st and p st rule: run_ops_run_op.induct)
      (auto simp: rl_enter_def rl_leave_def Let_def split: lock_result.splits option.splits if_splits)
  then show "run_ops ps st = Ended st' e \<Longrightarrow> st' = None \<longleftrightarrow> st = None"
    "run_op p st = Ended st' e \<Longrightarrow> st' = None \<longleftrightarrow> st = None" by simp_all
qed

lemma finished_lock:
  assumes "lock_inv progs s" and "i < length progs" and "thread_finished (ls_threads s ! i)"
  shows "run_ops (progs ! i) None = Ended None (t_exn (ls_threads s ! i))" and "ls_owner s \<noteq> Some i"
proof -
  have eq: "run_ops (progs ! i) None = Ended (t_lock (ls_threads s ! i)) (t_exn (ls_threads s ! i))"
    using thread_finished_rest[OF assms(3)] assms(1,2) by (simp add: lock_inv_def)
  then have "t_lock (ls_threads s ! i) = None" using run_ops_none(1) by blast
  then show "run_ops (progs ! i) None = Ended None (t_exn (ls_threads s ! i))" "ls_owner s \<noteq> Some i"
    using eq assms(1,2) by (auto simp: lock_inv_def)
qed

text \<open>The thread that has the mutex never waits; while none has it, no thread does.\<close>

lemma thread_can_step:
  assumes inv: "lock_inv progs s" and i: "i < length progs" and live: "\<not> thread_finished (ls_threads s ! i)"
    and "ls_owner s = None \<or> ls_owner s = Some i"
  shows "\<exists>r. lock_step s r"
proof (cases "thread_next (ls_threads s ! i)")
  case None
  then show ?thesis using ls_terminate[OF _ live] i inv by (auto simp: lock_inv_def)
next
  case (Some ct)
  then obtain call t where n: "thread_next (ls_threads s ! i) = Some (call, t)" by (cases ct) auto
  have l: "i < length (ls_threads s)" using i inv by (simp add: lock_inv_def)
  have "call_ok call (ls_owner s = Some i) (t_lock t = Some True)"
    using thread_next_ok[OF n] inv i by (auto simp: lock_inv_def)
  then have "\<exists>owner. mutex_step i call (ls_owner s) (Some owner)"
    using assms(4) by (cases call) (auto simp: call_ok_def intro: mutex_step.intros)
  then show ?thesis using ls_next[OF l live n] by blast
qed

lemma lock_progress:
  assumes inv: "lock_inv progs s" and i: "i < length progs" and live: "\<not> thread_finished (ls_threads s ! i)"
  shows "\<exists>r. lock_step s r"
proof (cases "ls_owner s")
  case (Some j)
  then have j: "j < length progs" using inv by (simp add: lock_inv_def)
  then have "\<not> thread_finished (ls_threads s ! j)" using finished_lock(2)[OF inv j] Some by blast
  from thread_can_step[OF inv j this] show ?thesis using Some by simp
qed (use thread_can_step[OF inv i live] in simp)

text \<open>
  C26: Any number of threads with any nested scopes, locks, unlocks and exceptions over one mutex: at most one thread has it at a
  time; no thread locks what it has or unlocks what it has not; the program ends in std::terminate only if a
  thread's own program would; while a thread is not finished some thread goes on, and every step leaves less to do, so that
  all finish; and a finished thread has come to what its program comes to alone, without the mutex.
\<close>

theorem recursive_lock_threads:
  assumes "lock_reachable progs s" and "i < length progs"
  shows "(\<forall>j<length progs. t_lock (ls_threads s ! i) = Some True \<and> t_lock (ls_threads s ! j) = Some True \<longrightarrow> i = j) \<and>
    \<not> lock_step s Undefined \<and>
    (lock_step s Terminated \<longrightarrow> (\<exists>ps\<in>set progs. run_ops ps None = Terminate)) \<and>
    (\<forall>s'. lock_step s (Running s') \<longrightarrow> system_work s' < system_work s) \<and>
    (if thread_finished (ls_threads s ! i)
     then run_ops (progs ! i) None = Ended None (t_exn (ls_threads s ! i)) \<and> ls_owner s \<noteq> Some i
     else \<exists>r. lock_step s r)"
proof -
  note inv = lock_reachable_inv[OF assms(1)]
  have "\<not> lock_step s Undefined" "lock_step s Terminated \<longrightarrow> (\<exists>ps\<in>set progs. run_ops ps None = Terminate)"
    using lock_step_inv[OF inv] by (force dest: nth_mem)+
  moreover have "t_lock (ls_threads s ! i) = Some True \<and> t_lock (ls_threads s ! j) = Some True \<longrightarrow> i = j" if "j < length progs" for j
    using inv assms(2) that by (auto simp: lock_inv_def)
  ultimately show ?thesis
    using lock_step_work finished_lock[OF inv assms(2)] lock_progress[OF inv assms(2)] by auto
qed

text \<open>One thread in a scope in which it has unlocked the mutex, so that the other could enter its own.\<close>

theorem recursive_lock_threads_witness:
  "\<exists>r. lock_step \<lparr>ls_threads = [\<lparr>t_code = [LLock], t_frames = [InScope True False []], t_lock = Some False, t_exn = None\<rparr>,
    \<lparr>t_code = [], t_frames = [InScope True False []], t_lock = Some True, t_exn = None\<rparr>], ls_owner = Some 1\<rparr> r"
proof -
  let ?t = "\<lambda>ps fs l. \<lparr>t_code = ps, t_frames = fs, t_lock = l, t_exn = None\<rparr>"
  let ?in = "[InScope True False []]"
  let ?progs = "[[Scope [LUnlock, LLock]], [Scope []]]"
  have next_state: "lock_reachable ?progs \<lparr>ls_threads = ts[i := t], ls_owner = owner'\<rparr>"
    if "lock_reachable ?progs \<lparr>ls_threads = ts, ls_owner = owner\<rparr>" "i < length ts" "\<not> thread_finished (ts ! i)"
      "thread_next (ts ! i) = Some (call, t)" "mutex_step i call owner (Some owner')" for ts owner owner' i call t
    using lr_step[OF that(1) ls_next[of i "\<lparr>ls_threads = ts, ls_owner = owner\<rparr>" call t owner']] that(2-5) by simp
  note th = thread_finished_def thread_next_def rl_enter_def Let_def
  have "lock_reachable ?progs \<lparr>ls_threads = [?t [Scope [LUnlock, LLock]] [] None, ?t [Scope []] [] None], ls_owner = None\<rparr>"
    using lr_start[of ?progs] by (simp add: thread_start_def)
  from next_state[OF this, where i = 0 and owner' = "Some 0" and call = LockMutex and t = "?t [LUnlock, LLock] ?in (Some True)"]
  have "lock_reachable ?progs \<lparr>ls_threads = [?t [LUnlock, LLock] ?in (Some True), ?t [Scope []] [] None], ls_owner = Some 0\<rparr>"
    by (simp add: th mutex_lock)
  from next_state[OF this, where i = 0 and owner' = None and call = UnlockMutex and t = "?t [LLock] ?in (Some False)"]
  have "lock_reachable ?progs \<lparr>ls_threads = [?t [LLock] ?in (Some False), ?t [Scope []] [] None], ls_owner = None\<rparr>"
    by (simp add: th mutex_unlock)
  from next_state[OF this, where i = 1 and owner' = "Some 1" and call = LockMutex and t = "?t [] ?in (Some True)"]
  have "lock_reachable ?progs \<lparr>ls_threads = [?t [LLock] ?in (Some False), ?t [] ?in (Some True)], ls_owner = Some 1\<rparr>"
    by (simp add: th mutex_lock)
  from recursive_lock_threads[OF this, of 0] show ?thesis by (simp add: thread_finished_def)
qed

end
