(* ===== verification/TaskClient.thy ===== *)
theory TaskClient
  imports ManageableTask
begin

text \<open>
  The operations of ManageableTask (lib/async/manageable-task.cpp) that wait: pause, resume, stop, waitForStopped, the
  destructor, and create and start. Any number of threads call them, each waiting for the future that the
  asynchronous operation gave it, while others use the asynchronous operations and the worker runs as in ManageableTask. A thread
  other than the worker resolves the outdated promises.
\<close>

section \<open>create and start\<close>

definition create :: "'e mt_sys" where
  "create = mt_init"

definition do_resume :: "'e mt_sys \<Rightarrow> 'e mt_sys \<times> mt_future" where
  "do_resume s = (case asyncResume (task s) of
     (t, f, od, nt) \<Rightarrow> (s\<lparr>task := t, worker := wake nt (worker s), outdated := outdated s @ od\<rparr>, f))"

text \<open>resume waits for a future that is ready when the task has not been started.\<close>

definition start_task :: "'e mt_sys \<times> mt_future" where
  "start_task = do_resume create"

lemma start_task_running:
  "start_task = (\<lparr>task = mt_new\<lparr>m_state := Running\<rparr>, worker = PC_RunWait, outdated = [], resolved = []\<rparr>, ReadyFuture)"
  by (simp add: start_task_def do_resume_def create_def mt_init_def mt_new_def asyncResume_def)

section \<open>Threads that wait\<close>

datatype task_call = CallPause | CallResume | CallStop | CallWait | CallDestroy

datatype client_pc =
    Begin task_call
  | Waiting task_call mt_future
  | Joining
  | Returned task_call

text \<open>wait on the future: the promise has been resolved, or there was none.\<close>

fun future_ready :: "mt_future \<Rightarrow> nat list \<Rightarrow> bool" where
  "future_ready ReadyFuture done_ps \<longleftrightarrow> True"
| "future_ready (PromiseFuture p) done_ps \<longleftrightarrow> p \<in> set done_ps"

definition do_pause :: "'e mt_sys \<Rightarrow> 'e mt_sys \<times> mt_future" where
  "do_pause s = (case asyncPause (task s) of
     (t, f, od, nt) \<Rightarrow> (s\<lparr>task := t, worker := wake nt (worker s), outdated := outdated s @ od\<rparr>, f))"

definition do_stop :: "'e mt_sys \<Rightarrow> 'e mt_sys" where
  "do_stop s = (case asyncStop (task s) of (t, nt) \<Rightarrow> s\<lparr>task := t, worker := wake nt (worker s)\<rparr>)"

definition do_wait :: "'e mt_sys \<Rightarrow> 'e mt_sys \<times> mt_future" where
  "do_wait s = (case asyncWaitForStopped (task s) of (t, f) \<Rightarrow> (s\<lparr>task := t\<rparr>, f))"

text \<open>The destructor joins the worker's thread.\<close>

definition worker_joined :: "'e mt_sys \<Rightarrow> bool" where
  "worker_joined s \<longleftrightarrow> worker s = PC_Done"

text \<open>
  The next step of a call; stop goes on as waitForStopped. None: the thread waits.
\<close>

fun client_next :: "client_pc \<Rightarrow> 'e mt_sys \<Rightarrow> ('e mt_sys \<times> client_pc) option" where
  "client_next (Begin CallPause) s = (case do_pause s of (s, f) \<Rightarrow> Some (s, Waiting CallPause f))"
| "client_next (Begin CallResume) s = (case do_resume s of (s, f) \<Rightarrow> Some (s, Waiting CallResume f))"
| "client_next (Begin CallStop) s = Some (do_stop s, Begin CallWait)"
| "client_next (Begin CallWait) s = (case do_wait s of (s, f) \<Rightarrow> Some (s, Waiting CallWait f))"
| "client_next (Begin CallDestroy) s = Some (do_stop s, Joining)"
| "client_next (Waiting call f) s = (if future_ready f (resolved s) then Some (s, Returned call) else None)"
| "client_next Joining s = (if worker_joined s then Some (s, Returned CallDestroy) else None)"
| "client_next (Returned call) s = None"

record 'e tc_sys =
  tc_task :: "'e mt_sys"
  tc_clients :: "client_pc list"

inductive tc_step :: "'e tc_sys \<Rightarrow> 'e tc_sys \<Rightarrow> bool" where
  tc_client: "i < length (tc_clients c) \<Longrightarrow> client_next (tc_clients c ! i) (tc_task c) = Some (s, p) \<Longrightarrow>
    tc_step c (c\<lparr>tc_task := s, tc_clients := (tc_clients c)[i := p]\<rparr>)"
| tc_other: "ctl_step (tc_task c) s \<Longrightarrow> tc_step c (c\<lparr>tc_task := s\<rparr>)"
| tc_worker: "worker_step (tc_task c) s \<Longrightarrow> tc_step c (c\<lparr>tc_task := s\<rparr>)"

inductive tc_reachable :: "task_call list \<Rightarrow> 'e tc_sys \<Rightarrow> bool" for calls where
  tc_start: "tc_reachable calls \<lparr>tc_task = create, tc_clients = map Begin calls\<rparr>"
| tc_more: "tc_reachable calls c \<Longrightarrow> tc_step c c' \<Longrightarrow> tc_reachable calls c'"

section \<open>What they have seen\<close>

text \<open>The asynchronous operations are the steps of ManageableTask.\<close>

lemma do_steps:
  "ctl_step s (fst (do_pause s))" "ctl_step s (fst (do_resume s))" "ctl_step s (do_stop s)" "ctl_step s (fst (do_wait s))"
  by (auto simp: do_pause_def do_resume_def do_stop_def do_wait_def split: prod.splits intro: ctl_step.intros)

lemma client_next_task:
  assumes "client_next p s = Some (s', p')"
  shows "s' = s \<or> ctl_step s s'"
  using assms do_steps[of s] by (cases "(p, s)" rule: client_next.cases) (auto split: prod.splits if_splits)

lemma stopped_stays:
  assumes "ctl_step s s' \<or> worker_step s s'" and "m_state (task s) \<in> pc_states (worker s)"
  shows "m_state (task s) = Stopped \<Longrightarrow> m_state (task s') = Stopped"
    and "m_state (task s) = Stopping \<Longrightarrow> m_state (task s') \<in> {Stopping, Stopped}"
proof -
  have ctl: "m_state (task s') = m_state (task s)" if "ctl_step s s'" "m_state (task s) \<in> {Stopping, Stopped}"
    using ctl_step_stopping[OF that] .
  have worker: "m_state (task s') \<in> {Stopping, Stopped} \<and> (m_state (task s) = Stopped \<longrightarrow> m_state (task s') = Stopped)"
    if "worker_step s s'" "m_state (task s) \<in> {Stopping, Stopped}"
    using that assms(2)
  proof cases
    case (check_pause first r t ps)
    then show ?thesis using that(2) checkPoint_pause_state[OF check_pause(3)] by auto
  qed (auto simp: endPause_def stopped_def Let_def split: if_splits)
  show "m_state (task s) = Stopped \<Longrightarrow> m_state (task s') = Stopped"
    "m_state (task s) = Stopping \<Longrightarrow> m_state (task s') \<in> {Stopping, Stopped}"
    using assms(1) ctl worker by auto
qed

lemma stopPromises_kept:
  assumes "ctl_step s s' \<or> worker_step s s'" and "p \<in> set (m_stopPromises (task s))"
  shows "p \<in> set (m_stopPromises (task s')) \<or> m_state (task s') = Stopped"
proof -
  have "set (m_stopPromises (task s)) \<subseteq> set (m_stopPromises (task s'))" if "ctl_step s s'"
    using that by cases (auto simp: ctl_defs split: mt_state.splits if_splits)
  moreover have "m_stopPromises (task s') = m_stopPromises (task s) \<or> m_state (task s') = Stopped" if "worker_step s s'"
    using that
  proof cases
    case (check_pause first r t ps)
    then show ?thesis using checkPoint_pause_lists[OF check_pause(3)] by simp
  qed (auto simp: endPause_def stopped_def Let_def)
  ultimately show ?thesis using assms by auto
qed

lemma promises_stay:
  assumes "ctl_step s s' \<or> worker_step s s'"
  shows "next_promise (task s) \<le> next_promise (task s')"
proof -
  have "next_promise (task s) \<le> next_promise (task s')" if "ctl_step s s'"
    using that by cases (auto simp: ctl_defs split: mt_state.splits if_splits)
  moreover have "next_promise (task s) \<le> next_promise (task s')" if "worker_step s s'"
    using that
  proof cases
    case (check_pause first r t ps)
    then show ?thesis using checkPoint_pause_lists[OF check_pause(3)] by simp
  qed (auto simp: endPause_def stopped_def Let_def)
  ultimately show ?thesis using assms by blast
qed

lemma do_stop_state: "m_state (task (do_stop s)) \<in> {Stopping, Stopped}"
  by (cases "m_state (task s)") (simp_all add: do_stop_def asyncStop_def)

text \<open>What the caller of each operation knows at each of its points.\<close>

fun client_inv :: "'e mt_sys \<Rightarrow> client_pc \<Rightarrow> bool" where
  "client_inv s (Waiting call (PromiseFuture p)) \<longleftrightarrow> p < next_promise (task s) \<and>
     (call \<in> {CallWait, CallDestroy} \<longrightarrow> p \<in> set (m_stopPromises (task s)) \<or> m_state (task s) = Stopped)"
| "client_inv s (Waiting call ReadyFuture) \<longleftrightarrow> (call \<in> {CallWait, CallDestroy} \<longrightarrow> m_state (task s) = Stopped)"
| "client_inv s (Returned CallWait) \<longleftrightarrow> m_state (task s) = Stopped"
| "client_inv s (Returned CallDestroy) \<longleftrightarrow> m_state (task s) = Stopped"
| "client_inv s (Returned call) \<longleftrightarrow> True"
| "client_inv s Joining \<longleftrightarrow> m_state (task s) \<in> {Stopping, Stopped}"
| "client_inv s (Begin call) \<longleftrightarrow> True"

lemma client_inv_kept:
  assumes "ctl_step s s' \<or> worker_step s s'" and "m_state (task s) \<in> pc_states (worker s)" and "client_inv s p"
  shows "client_inv s' p"
  using assms(3) stopped_stays[OF assms(1,2)] stopPromises_kept[OF assms(1)] promises_stay[OF assms(1)]
  by (cases "(s, p)" rule: client_inv.cases) auto

lemma promises_ok_distinct:
  assumes "promises_ok s"
  shows "distinct (pending (task s) @ pc_promises (worker s) @ outdated s @ resolved s)"
    and "set (pending (task s) @ pc_promises (worker s) @ outdated s @ resolved s) = {0..<next_promise (task s)}"
proof -
  have m: "mset (pending (task s) @ pc_promises (worker s) @ outdated s @ resolved s) = mset [0..<next_promise (task s)]"
    using assms by (simp only: promises_ok_def mset_append ac_simps)
  show "distinct (pending (task s) @ pc_promises (worker s) @ outdated s @ resolved s)"
    using mset_eq_imp_distinct_iff[OF m] by simp
  show "set (pending (task s) @ pc_promises (worker s) @ outdated s @ resolved s) = {0..<next_promise (task s)}"
    using mset_eq_setD[OF m] by simp
qed

lemma client_inv_next:
  assumes "client_next p s = Some (s', p')" and "client_inv s p"
    and "m_state (task s) \<in> pc_states (worker s)" and "promises_ok s"
  shows "client_inv s' p'"
proof (cases "(p, s)" rule: client_next.cases)
  case (6 call f s0)
  show ?thesis
  proof (cases f)
    case ReadyFuture
    then show ?thesis using 6 assms(1,2) by (cases call) auto
  next
    case (PromiseFuture q)
    then have r: "q \<in> set (resolved s)" "s' = s" "p' = Returned call" using 6 assms(1) by (auto split: if_splits)
    have "q \<notin> set (m_stopPromises (task s))"
      using promises_ok_distinct[OF assms(4)] r(1) by (auto simp: pending_def)
    then show ?thesis using 6 assms(2) PromiseFuture r by (cases call) auto
  qed
next
  case (5 s0)
  then show ?thesis using assms(1) do_stop_state[of s] by auto
qed (use assms in \<open>auto simp: do_pause_def do_resume_def do_wait_def worker_joined_def ctl_defs
    split: prod.splits if_splits mt_state.splits\<close>)

definition tc_inv :: "'e tc_sys \<Rightarrow> bool" where
  "tc_inv c \<longleftrightarrow> mt_reachable (tc_task c) \<and> (\<forall>p\<in>set (tc_clients c). client_inv (tc_task c) p)"

lemma tc_step_inv:
  assumes "tc_step c c'" and "tc_inv c"
  shows "tc_inv c' \<and> length (tc_clients c') = length (tc_clients c)"
  using assms(1)
proof cases
  case (tc_client i s p)
  have inv: "mt_reachable (tc_task c)" "\<And>q. q \<in> set (tc_clients c) \<Longrightarrow> client_inv (tc_task c) q"
    using assms(2) by (auto simp: tc_inv_def)
  note mt = mt_reachable_inv[OF inv(1)]
  have "client_inv s p" using client_inv_next[OF tc_client(3)] inv(2) tc_client(2) mt by simp
  moreover have "client_inv s q" if "q \<in> set (tc_clients c)" for q
    using client_next_task[OF tc_client(3)] client_inv_kept[of "tc_task c" s q] inv(2)[OF that] mt by auto
  moreover have "mt_reachable s" using client_next_task[OF tc_client(3)] inv(1) mt_reach_ctl by blast
  ultimately show ?thesis using tc_client(1) by (auto simp: tc_inv_def dest: set_update_subset_insert[THEN subsetD])
next
  case (tc_other s)
  then show ?thesis using assms(2) client_inv_kept[of "tc_task c" s] mt_reachable_inv[of "tc_task c"]
    by (auto simp: tc_inv_def intro: mt_reach_ctl)
next
  case (tc_worker s)
  then show ?thesis using assms(2) client_inv_kept[of "tc_task c" s] mt_reachable_inv[of "tc_task c"]
    by (auto simp: tc_inv_def intro: mt_reach_worker)
qed

lemma tc_reachable_inv: "tc_reachable calls c \<Longrightarrow> tc_inv c \<and> length (tc_clients c) = length calls"
proof (induction rule: tc_reachable.induct)
  case tc_start
  show ?case by (auto simp: tc_inv_def create_def mt_reach_init)
next
  case (tc_more c c')
  then show ?case using tc_step_inv by metis
qed

text \<open>A thread that waits for a task whose worker has ended, with nothing left to resolve, waits no longer.\<close>

lemma client_done:
  assumes "mt_reachable s" and "client_inv s p" and "worker s = PC_Done" and "outdated s = []" and "\<forall>call. p \<noteq> Returned call"
  shows "client_next p s \<noteq> None"
proof (cases p)
  case (Begin call)
  then show ?thesis by (cases call) (simp_all split: prod.splits)
next
  case (Waiting call f)
  have ok: "promises_ok s" "m_state (task s) = Stopped" using mt_reachable_inv[OF assms(1)] assms(3) by auto
  have "{0..<next_promise (task s)} = set (resolved s)"
    using promises_ok_distinct(2)[OF ok(1)] ok assms(3,4) by (simp add: promises_ok_def)
  then have "q \<in> set (resolved s)" if "q < next_promise (task s)" for q using that by (metis atLeastLessThan_iff le0)
  then have "future_ready f (resolved s)" using Waiting assms(2) by (cases f) simp_all
  then show ?thesis using Waiting by simp
qed (use assms(3,5) in \<open>simp_all add: worker_joined_def\<close>)

text \<open>
  C3: any threads that pause, resume, stop, wait for and destroy a task: a stop, a waitForStopped or a destructor
  returns only when the task has stopped; a promise that somebody waits for is never lost; and once the task has been
  told to stop nobody waits for good: a thread that has not returned can go on, or the worker, which is not asleep, can, each
  of whose steps but the task function's own brings it nearer its end, or an outdated promise is still to be resolved.
\<close>

theorem blocking_calls_return:
  assumes "tc_reachable calls c" and "i < length calls"
  defines "s \<equiv> tc_task c" and "p \<equiv> tc_clients c ! i"
  shows "(p = Returned CallWait \<or> p = Returned CallDestroy \<longrightarrow> m_state (task s) = Stopped) \<and>
    (\<forall>call q. p = Waiting call (PromiseFuture q) \<longrightarrow>
      q \<in> set (pending (task s) @ pc_promises (worker s) @ outdated s @ resolved s)) \<and>
    (m_state (task s) \<in> {Stopping, Stopped} \<and> (\<forall>call. p \<noteq> Returned call) \<longrightarrow>
      client_next p s \<noteq> None \<or> outdated s \<noteq> [] \<or> (\<exists>s'. worker_step s s' \<and> worker s' \<noteq> worker s)) \<and>
    (m_state (task s) \<in> {Stopping, Stopped} \<longrightarrow> worker s \<noteq> PC_RunSleep \<and> (\<forall>b. worker s \<noteq> PC_PauseSleep b)) \<and>
    (m_state (task s) \<in> {Stopping, Stopped} \<longrightarrow> (\<forall>s'. worker_step s s' \<longrightarrow> worker s' = worker s \<or>
      (pc_rank (worker s'), pc_rank (worker s)) \<in> less_than <*lex*> less_than))"
proof -
  have inv: "mt_reachable s" "client_inv s p"
    using tc_reachable_inv[OF assms(1)] assms(2) by (auto simp: tc_inv_def s_def p_def)
  note mt = mt_reachable_inv[OF inv(1)]
  have "q \<in> set (pending (task s) @ pc_promises (worker s) @ outdated s @ resolved s)"
    if "p = Waiting call (PromiseFuture q)" for call q
    using inv(2) promises_ok_distinct(2)[of s] mt that by auto
  moreover have "client_next p s \<noteq> None \<or> outdated s \<noteq> [] \<or> (\<exists>s'. worker_step s s' \<and> worker s' \<noteq> worker s)"
    if "m_state (task s) \<in> {Stopping, Stopped}" "\<forall>call. p \<noteq> Returned call"
    using client_done[OF inv _ _ that(2)] worker_stop_enabled[of s] mt that(1) by blast
  moreover have "worker s \<noteq> PC_RunSleep \<and> (\<forall>b. worker s \<noteq> PC_PauseSleep b)" if "m_state (task s) \<in> {Stopping, Stopped}"
    using mt that by auto
  ultimately show ?thesis using inv(2) worker_stop_rank[of s] mt by auto
qed

text \<open>A thread that stops a task that was never started.\<close>

lemma tc_example:
  "tc_reachable [CallStop] \<lparr>tc_task = \<lparr>task = mt_new\<lparr>m_state := Stopping\<rparr>, worker = PC_RunWait, outdated = [], resolved = []\<rparr>,
    tc_clients = [Begin CallWait]\<rparr>"
proof -
  let ?c = "\<lparr>tc_task = create, tc_clients = map Begin [CallStop]\<rparr>"
  have "client_next (tc_clients ?c ! 0) (tc_task ?c) = Some (do_stop create, Begin CallWait)" by simp
  from tc_more[OF tc_start tc_client[OF _ this]] show ?thesis
    by (simp add: do_stop_def create_def mt_init_def mt_new_def asyncStop_def)
qed

theorem blocking_calls_return_witness:
  "\<exists>s'. worker_step (\<lparr>task = mt_new\<lparr>m_state := Stopping, m_stopPromises := [0], next_promise := 1\<rparr>, worker = PC_RunWait,
     outdated = [], resolved = []\<rparr> :: nat mt_sys) s' \<and> worker s' \<noteq> PC_RunWait"
proof -
  let ?s = "\<lparr>task = mt_new\<lparr>m_state := Stopping, m_stopPromises := [0], next_promise := 1\<rparr>, worker = PC_RunWait,
     outdated = [], resolved = []\<rparr> :: nat mt_sys"
  have "tc_reachable [CallStop] \<lparr>tc_task = ?s, tc_clients = [Waiting CallWait (PromiseFuture 0)]\<rparr>"
  proof -
    let ?c = "\<lparr>tc_task = ?s\<lparr>task := mt_new\<lparr>m_state := Stopping\<rparr>\<rparr>, tc_clients = [Begin CallWait]\<rparr>"
    have "client_next (tc_clients ?c ! 0) (tc_task ?c) = Some (?s, Waiting CallWait (PromiseFuture 0))"
      by (simp add: do_wait_def asyncWaitForStopped_def add_stopPromise_def mt_new_def)
    from tc_client[OF _ this] have "tc_step ?c (?c\<lparr>tc_task := ?s, tc_clients := [Waiting CallWait (PromiseFuture 0)]\<rparr>)" by simp
    from tc_more[OF _ this, of "[CallStop]"] tc_example show ?thesis by simp
  qed
  from blocking_calls_return[OF this, of 0] show ?thesis by simp
qed

end
