(* ===== verification/DelayedWait.thy ===== *)
theory DelayedWait
  imports DelayedProperty
begin

text \<open>
  Waiting for a new value (include/nhope/async/delayed-property.h): waitNewValue with and without a time-out, on the
  condition variable that setNewValue notifies, and the rest of the public interface.
\<close>

section \<open>The interface\<close>

definition getCurrentValue :: "('v, 'e) delayed \<Rightarrow> 'v" where
  "getCurrentValue d = currentValue d"

text \<open>setNewValue notifies all waiting threads when it makes a promise.\<close>

definition set_notifies :: "'v \<Rightarrow> ('v, 'e) delayed \<Rightarrow> bool" where
  "set_notifies v d \<longleftrightarrow> currentValue d \<noteq> v"

definition consume_notifies :: "'v \<Rightarrow> ('v, 'e) delayed \<Rightarrow> bool" where
  "consume_notifies v d \<longleftrightarrow> \<not> prop_closed d \<and> set_notifies v d"

section \<open>Waiting threads\<close>

text \<open>A thread that is about to look at the condition, asleep, or back with an answer; the flag says whether it has a time-out.\<close>

datatype waiter = Looking bool | Asleep bool | Back bool

definition wait_look :: "bool \<Rightarrow> ('v, 'e) delayed \<Rightarrow> waiter" where
  "wait_look timed d = (if waitNewValue_ready d then Back True else Asleep timed)"

text \<open>wait_for answers the condition when the time is over.\<close>

definition wait_timeout :: "('v, 'e) delayed \<Rightarrow> waiter" where
  "wait_timeout d = Back (waitNewValue_ready d)"

fun wake_waiter :: "bool \<Rightarrow> waiter \<Rightarrow> waiter" where
  "wake_waiter True (Asleep timed) = Looking timed"
| "wake_waiter _ w = w"

record ('v, 'e) delayed_waiters =
  dw_prop :: "('v, 'e) delayed"
  dw_threads :: "waiter list"

inductive dw_step :: "('v, 'e) delayed_waiters \<Rightarrow> ('v, 'e) delayed_waiters \<Rightarrow> bool" where
  dw_look: "i < length (dw_threads c) \<Longrightarrow> dw_threads c ! i = Looking timed \<Longrightarrow>
    dw_step c (c\<lparr>dw_threads := (dw_threads c)[i := wait_look timed (dw_prop c)]\<rparr>)"
| dw_spurious: "i < length (dw_threads c) \<Longrightarrow>
    dw_step c (c\<lparr>dw_threads := (dw_threads c)[i := wake_waiter True (dw_threads c ! i)]\<rparr>)"
| dw_timeout: "i < length (dw_threads c) \<Longrightarrow> dw_threads c ! i = Asleep True \<Longrightarrow>
    dw_step c (c\<lparr>dw_threads := (dw_threads c)[i := wait_timeout (dw_prop c)]\<rparr>)"
| dw_set: "dw_step c (c\<lparr>dw_prop := fst (setNewValue v (dw_prop c)),
    dw_threads := map (wake_waiter (set_notifies v (dw_prop c))) (dw_threads c)\<rparr>)"
| dw_consume: "dw_step c (c\<lparr>dw_prop := fst (input_consume v (dw_prop c)),
    dw_threads := map (wake_waiter (consume_notifies v (dw_prop c))) (dw_threads c)\<rparr>)"
| dw_take: "apply_take (dw_prop c) = Some (d, r) \<Longrightarrow> dw_step c (c\<lparr>dw_prop := d\<rparr>)"
| dw_done: "vp \<in> set (in_handler (dw_prop c)) \<Longrightarrow> dw_step c (c\<lparr>dw_prop := apply_done vp thrown (dw_prop c)\<rparr>)"
| dw_arrive: "dw_step c (c\<lparr>dw_threads := dw_threads c @ [Looking timed]\<rparr>)"

inductive dw_reachable :: "'v \<Rightarrow> ('v, 'e) delayed_waiters \<Rightarrow> bool" for v0 where
  dw_start: "dw_reachable v0 \<lparr>dw_prop = delayed_make v0, dw_threads = []\<rparr>"
| dw_more: "dw_reachable v0 c \<Longrightarrow> dw_step c c' \<Longrightarrow> dw_reachable v0 c'"

definition dw_inv :: "'v \<Rightarrow> ('v, 'e) delayed_waiters \<Rightarrow> bool" where
  "dw_inv v0 c \<longleftrightarrow> delayed_reachable v0 (dw_prop c) \<and>
     (hasNewValue (dw_prop c) \<longrightarrow> (\<forall>timed. Asleep timed \<notin> set (dw_threads c)))"

lemma set_has_value: "hasNewValue (fst (setNewValue v d)) \<longleftrightarrow> hasNewValue d \<or> set_notifies v d"
  by (auto simp: hasNewValue_def setNewValue_def set_notifies_def Let_def split: option.splits)

lemma wake_waiter_asleep: "wake_waiter b w = Asleep timed \<longleftrightarrow> w = Asleep timed \<and> \<not> b"
  by (cases "(b, w)" rule: wake_waiter.cases) auto

lemma dw_inv_notify:
  assumes "dw_inv v0 c" and "delayed_step (dw_prop c) (Some d)" and "hasNewValue d \<longleftrightarrow> hasNewValue (dw_prop c) \<or> b"
  shows "dw_inv v0 (c\<lparr>dw_prop := d, dw_threads := map (wake_waiter b) (dw_threads c)\<rparr>)"
  using assms(1,3) delayed_reach_step[OF _ assms(2)]
  by (auto simp: dw_inv_def image_iff) (metis wake_waiter_asleep)+

lemma dw_inv_less:
  assumes "dw_inv v0 c" and "delayed_step (dw_prop c) (Some d)" and "hasNewValue d \<Longrightarrow> hasNewValue (dw_prop c)"
  shows "dw_inv v0 (c\<lparr>dw_prop := d\<rparr>)"
  using assms(1,3) delayed_reach_step[OF _ assms(2)] by (auto simp: dw_inv_def)

lemma dw_step_inv:
  assumes "dw_step c c'" and inv: "dw_inv v0 c"
  shows "dw_inv v0 c'"
  using assms(1)
proof cases
  case (dw_look i timed)
  then show ?thesis using inv
    by (auto simp: dw_inv_def wait_look_def waitNewValue_ready_def hasNewValue_def dest!: set_update_subset_insert[THEN subsetD])
next
  case (dw_spurious i)
  then have "Asleep timed \<in> set (dw_threads c') \<Longrightarrow> Asleep timed \<in> set (dw_threads c)" for timed
    using wake_waiter_asleep[of True "dw_threads c ! i" timed] dw_spurious(1)
    by (auto dest!: set_update_subset_insert[THEN subsetD])
  then show ?thesis using inv dw_spurious(1) by (auto simp: dw_inv_def)
next
  case (dw_timeout i)
  then show ?thesis using inv
    by (auto simp: dw_inv_def wait_timeout_def dest!: set_update_subset_insert[THEN subsetD])
next
  case (dw_set v)
  show ?thesis unfolding dw_set by (rule dw_inv_notify[OF inv d_set set_has_value])
next
  case (dw_consume v)
  have "hasNewValue (fst (input_consume v (dw_prop c))) \<longleftrightarrow> hasNewValue (dw_prop c) \<or> consume_notifies v (dw_prop c)"
    by (simp add: input_consume_def consume_notifies_def set_has_value)
  then show ?thesis unfolding dw_consume by (rule dw_inv_notify[OF inv d_consume])
next
  case (dw_take d r)
  then have "delayed_step (dw_prop c) (Some d)" using d_take[of "dw_prop c"] by simp
  moreover have "hasNewValue d \<Longrightarrow> hasNewValue (dw_prop c)"
    using dw_take(2) by (auto simp: apply_take_def hasNewValue_def split: option.splits)
  ultimately show ?thesis unfolding dw_take(1) by (rule dw_inv_less[OF inv])
next
  case (dw_done vp thrown)
  have "hasNewValue (apply_done vp thrown (dw_prop c)) \<longleftrightarrow> hasNewValue (dw_prop c)"
    by (auto simp: apply_done_def hasNewValue_def Let_def split: prod.splits option.splits)
  then show ?thesis unfolding dw_done(1) by (intro dw_inv_less[OF inv d_done[OF dw_done(2)]]) simp
next
  case (dw_arrive timed)
  then show ?thesis using inv by (auto simp: dw_inv_def)
qed

text \<open>
  No value is overlooked: a thread sleeps in waitNewValue only while there is no new value; one that
  comes back with the answer yes has seen one, and the answer no is only given by a time-out without one; and a thread that
  is not asleep, or has a time-out, can go on.
\<close>

theorem wait_new_value:
  assumes "dw_reachable v0 c" and "i < length (dw_threads c)"
  shows "(\<forall>timed. dw_threads c ! i = Asleep timed \<longrightarrow> \<not> hasNewValue (dw_prop c)) \<and>
    (wait_look timed (dw_prop c) = Back b \<longrightarrow> b \<and> hasNewValue (dw_prop c)) \<and>
    (wait_timeout (dw_prop c) = Back (hasNewValue (dw_prop c))) \<and>
    (dw_threads c ! i = Looking timed \<or> dw_threads c ! i = Asleep True \<longrightarrow>
      (\<exists>c'. dw_step c c' \<and> dw_threads c' ! i \<noteq> dw_threads c ! i))"
proof -
  have inv: "dw_inv v0 c" using assms(1)
  proof (induction rule: dw_reachable.induct)
    case dw_start
    show ?case by (simp add: dw_inv_def delayed_reach_make)
  qed (rule dw_step_inv)
  have "\<exists>c'. dw_step c c' \<and> dw_threads c' ! i \<noteq> dw_threads c ! i" if "dw_threads c ! i = Looking timed"
    using dw_look[OF assms(2) that] that assms(2) by (auto simp: wait_look_def split: if_splits intro!: exI)
  moreover have "\<exists>c'. dw_step c c' \<and> dw_threads c' ! i \<noteq> dw_threads c ! i" if "dw_threads c ! i = Asleep True"
    using dw_timeout[OF assms(2) that] that assms(2) by (auto simp: wait_timeout_def intro!: exI)
  ultimately show ?thesis using inv assms(2)
    by (auto simp: dw_inv_def wait_look_def wait_timeout_def waitNewValue_ready_def hasNewValue_def in_set_conv_nth split: if_splits)
qed

text \<open>A new value wakes every thread that waits.\<close>

lemma set_wakes_all:
  "set_notifies v (dw_prop c) \<Longrightarrow> Asleep timed \<notin> set (map (wake_waiter (set_notifies v (dw_prop c))) (dw_threads c))"
  by (auto simp: wake_waiter_asleep dest!: sym[of "Asleep timed"])

end
