(* ===== verification/WeakListThreads.thy ===== *)
theory WeakListThreads
  imports WeakList
begin

text \<open>
  TSWeakList (include/nhope/seq/weak_list.h) in many threads, while the objects lose their last owner at any
  moment. forEach releases the shared lock while it calls its function, so that the list changes under its iterator,
  and other threads, or the function itself, may clear the list. Every run of forEach or clearExpired is an activity;
  one that a function starts is an activity of its own, since its caller has no lock. The continuations of the
  promises that clearExpired fulfils leave the list alone.
\<close>

section \<open>Activities\<close>

text \<open>
  A position is named by the promise of its entry. FE_Clear has whether forEach called clearExpired, and the index of
  it; FE_Call and FE_Relock have the position and the object that m_current holds, FE_Next the position from which
  operator++ goes on and what m_current still holds. FE_Leave is a function that threw. FE_Done has how many promises
  were made when the iteration met the end, FE_Cut ended because its first object was gone.
\<close>

datatype loop_pc =
    FE_Idle
  | FE_Clear bool nat
  | FE_Want
  | FE_Begin
  | FE_Call nat nat
  | FE_Relock nat nat
  | FE_Next nat "nat option"
  | FE_Leave nat
  | FE_Done nat
  | FE_Cut

record fe_activity =
  fe_pc :: loop_pc
  fe_visited :: "nat list"         \<comment> \<open>ghost: the entries for which this run called the function\<close>

record ts_weak_list =
  m_list :: weak_list
  ts_owned :: "nat set"            \<comment> \<open>the objects with an owner other than the iterators\<close>
  ts_run :: "fe_activity list"

definition ts_make :: "nat \<Rightarrow> nat set \<Rightarrow> ts_weak_list" where
  "ts_make n owned = \<lparr>m_list = wl_make, ts_owned = owned, ts_run = replicate n \<lparr>fe_pc = FE_Idle, fe_visited = []\<rparr>\<rparr>"

fun holds_object :: "loop_pc \<Rightarrow> nat option" where
  "holds_object (FE_Call n obj) = Some obj"
| "holds_object (FE_Relock n obj) = Some obj"
| "holds_object (FE_Next n cur) = cur"
| "holds_object (FE_Leave obj) = Some obj"
| "holds_object _ = None"

text \<open>Whether weak_ptr::lock finds the object.\<close>

definition alive :: "ts_weak_list \<Rightarrow> nat \<Rightarrow> bool" where
  "alive s obj \<longleftrightarrow> obj \<in> ts_owned s \<or> (\<exists>a \<in> set (ts_run s). holds_object (fe_pc a) = Some obj)"

fun exclusive :: "loop_pc \<Rightarrow> bool" where
  "exclusive (FE_Clear each i) = True"
| "exclusive _ = False"

fun shared :: "loop_pc \<Rightarrow> bool" where
  "shared FE_Begin = True"
| "shared (FE_Next n cur) = True"
| "shared _ = False"

text \<open>When the shared_mutex lets a thread in, alone or as a reader.\<close>

definition free_exclusive :: "ts_weak_list \<Rightarrow> bool" where
  "free_exclusive s \<longleftrightarrow> (\<forall>a \<in> set (ts_run s). \<not> exclusive (fe_pc a) \<and> \<not> shared (fe_pc a))"

definition free_shared :: "ts_weak_list \<Rightarrow> bool" where
  "free_shared s \<longleftrightarrow> (\<forall>a \<in> set (ts_run s). \<not> exclusive (fe_pc a))"

section \<open>The steps of an activity\<close>

definition go :: "nat \<Rightarrow> loop_pc \<Rightarrow> ts_weak_list \<Rightarrow> ts_weak_list" where
  "go i pc s = s\<lparr>ts_run := (ts_run s)[i := \<lparr>fe_pc = pc, fe_visited = fe_visited (ts_run s ! i) @
     (case pc of FE_Call n obj \<Rightarrow> [n] | _ \<Rightarrow> [])\<rparr>]\<rparr>"

text \<open>One turn of the loop of clearExpired.\<close>

definition clear_at :: "bool \<Rightarrow> nat \<Rightarrow> ts_weak_list \<Rightarrow> weak_list \<times> loop_pc" where
  "clear_at each k s = (let l = m_list s; xs = w_list l in
     if length xs \<le> k then (l, if each then FE_Want else FE_Idle)
     else if alive s (w_weak (xs ! k)) then (l, FE_Clear each (k + 1))
     else (l\<lparr>w_list := take k xs @ drop (k + 1) xs, w_expired := w_expired l @ [expirePromise (xs ! k)]\<rparr>,
           FE_Clear each k))"

text \<open>begin, and the first look at end.\<close>

definition begin_at :: "ts_weak_list \<Rightarrow> loop_pc" where
  "begin_at s = (case w_list (m_list s) of
     [] \<Rightarrow> FE_Done (w_promises (m_list s))
   | x # _ \<Rightarrow> if alive s (w_weak x) then FE_Call (expirePromise x) (w_weak x) else FE_Cut)"

text \<open>next and the look at end; None for a position whose entry was erased.\<close>

definition next_at :: "nat \<Rightarrow> ts_weak_list \<Rightarrow> loop_pc option" where
  "next_at n s = (case dropWhile (\<lambda>x. expirePromise x \<noteq> n) (w_list (m_list s)) of
     [] \<Rightarrow> None
   | x # ys \<Rightarrow> (case ys of
       [] \<Rightarrow> Some (FE_Done (w_promises (m_list s)))
     | y # _ \<Rightarrow> Some (if alive s (w_weak y) then FE_Call (expirePromise y) (w_weak y)
                      else FE_Next (expirePromise y) None)))"

inductive fe_step :: "nat \<Rightarrow> ts_weak_list \<Rightarrow> ts_weak_list option \<Rightarrow> bool" for i s where
  fe_clear: "i < length (ts_run s) \<Longrightarrow> fe_pc (ts_run s ! i) = FE_Clear each k \<Longrightarrow> clear_at each k s = (l, pc) \<Longrightarrow>
    fe_step i s (Some (go i pc (s\<lparr>m_list := l\<rparr>)))"
| fe_want: "i < length (ts_run s) \<Longrightarrow> fe_pc (ts_run s ! i) = FE_Want \<Longrightarrow> free_shared s \<Longrightarrow>
    fe_step i s (Some (go i FE_Begin s))"
| fe_begin: "i < length (ts_run s) \<Longrightarrow> fe_pc (ts_run s ! i) = FE_Begin \<Longrightarrow>
    fe_step i s (Some (go i (begin_at s) s))"
| fe_called: "i < length (ts_run s) \<Longrightarrow> fe_pc (ts_run s ! i) = FE_Call n obj \<Longrightarrow>
    pc \<in> {FE_Relock n obj, FE_Leave obj} \<Longrightarrow> fe_step i s (Some (go i pc s))"
| fe_relock: "i < length (ts_run s) \<Longrightarrow> fe_pc (ts_run s ! i) = FE_Relock n obj \<Longrightarrow> free_shared s \<Longrightarrow>
    fe_step i s (Some (go i (FE_Next n (Some obj)) s))"
| fe_next: "i < length (ts_run s) \<Longrightarrow> fe_pc (ts_run s ! i) = FE_Next n cur \<Longrightarrow>
    fe_step i s (map_option (\<lambda>pc. go i pc s) (next_at n s))"
| fe_leave: "i < length (ts_run s) \<Longrightarrow> fe_pc (ts_run s ! i) = FE_Leave obj \<Longrightarrow> free_shared s \<Longrightarrow>
    fe_step i s (Some (go i FE_Idle s))"

fun at_rest :: "loop_pc \<Rightarrow> bool" where
  "at_rest FE_Idle = True"
| "at_rest (FE_Done k) = True"
| "at_rest FE_Cut = True"
| "at_rest _ = False"

text \<open>The scoped_lock of emplace_back and clearExpired waits for all others.\<close>

definition ts_emplace_back :: "nat \<Rightarrow> ts_weak_list \<Rightarrow> ts_weak_list" where
  "ts_emplace_back weak s = s\<lparr>m_list := fst (wl_emplace_back weak (m_list s))\<rparr>"

definition ts_clearExpired :: "bool \<Rightarrow> nat \<Rightarrow> ts_weak_list \<Rightarrow> ts_weak_list" where
  "ts_clearExpired each i s = s\<lparr>ts_run := (ts_run s)[i := \<lparr>fe_pc = FE_Clear each 0, fe_visited = []\<rparr>]\<rparr>"

text \<open>
  The owners: one goes, one gets its pointer from a living object (find, or a copy), a new object appears, which is
  not one that the list knows.
\<close>

inductive tsl_step :: "ts_weak_list \<Rightarrow> ts_weak_list option \<Rightarrow> bool" for s where
  tsl_activity: "fe_step i s r \<Longrightarrow> tsl_step s r"
| tsl_start: "i < length (ts_run s) \<Longrightarrow> at_rest (fe_pc (ts_run s ! i)) \<Longrightarrow> free_exclusive s \<Longrightarrow>
    tsl_step s (Some (ts_clearExpired each i s))"
| tsl_emplace: "free_exclusive s \<Longrightarrow> tsl_step s (Some (ts_emplace_back weak s))"
| tsl_drop: "tsl_step s (Some (s\<lparr>ts_owned := ts_owned s - {obj}\<rparr>))"
| tsl_keep: "alive s obj \<Longrightarrow> tsl_step s (Some (s\<lparr>ts_owned := insert obj (ts_owned s)\<rparr>))"
| tsl_new: "obj \<notin> w_weak ` set (w_list (m_list s)) \<Longrightarrow> tsl_step s (Some (s\<lparr>ts_owned := insert obj (ts_owned s)\<rparr>))"

inductive tsl_reachable :: "ts_weak_list \<Rightarrow> bool" where
  tsl_init: "tsl_reachable (ts_make n owned)"
| tsl_next: "tsl_reachable s \<Longrightarrow> tsl_step s (Some s') \<Longrightarrow> tsl_reachable s'"

section \<open>The invariant\<close>

text \<open>
  How far an iteration has come, as a bound on the promises of the entries behind it; and the bound below which its
  visits are.
\<close>

fun reached :: "loop_pc \<Rightarrow> nat" where
  "reached (FE_Call n obj) = Suc n"
| "reached (FE_Relock n obj) = Suc n"
| "reached (FE_Next n cur) = Suc n"
| "reached (FE_Done k) = k"
| "reached _ = 0"

fun before_visits :: "loop_pc \<Rightarrow> bool" where
  "before_visits (FE_Clear each i) = True"
| "before_visits FE_Want = True"
| "before_visits FE_Begin = True"
| "before_visits FE_Cut = True"
| "before_visits _ = False"

fun has_position :: "loop_pc \<Rightarrow> nat \<Rightarrow> weak_entry list \<Rightarrow> bool" where
  "has_position (FE_Call n obj) _ xs = (\<exists>x \<in> set xs. expirePromise x = n \<and> w_weak x = obj)"
| "has_position (FE_Relock n obj) _ xs = (\<exists>x \<in> set xs. expirePromise x = n \<and> w_weak x = obj)"
| "has_position (FE_Next n cur) _ xs = (\<exists>x \<in> set xs. expirePromise x = n)"
| "has_position (FE_Done k) m _ = (k \<le> m)"
| "has_position _ _ _ = True"

definition seen_below :: "(nat \<Rightarrow> bool) \<Rightarrow> weak_entry list \<Rightarrow> nat \<Rightarrow> nat list \<Rightarrow> bool" where
  "seen_below A xs k visited \<longleftrightarrow>
     (\<forall>x \<in> set xs. expirePromise x < k \<longrightarrow> A (w_weak x) \<longrightarrow> expirePromise x \<in> set visited)"

lemma seen_below_0 [simp]: "seen_below A xs 0 visited"
  by (simp add: seen_below_def)

definition fe_ok :: "weak_list \<Rightarrow> (nat \<Rightarrow> bool) \<Rightarrow> fe_activity \<Rightarrow> bool" where
  "fe_ok l A a \<longleftrightarrow> sorted_wrt (<) (fe_visited a) \<and> (before_visits (fe_pc a) \<longrightarrow> fe_visited a = []) \<and>
     (0 < reached (fe_pc a) \<longrightarrow> (\<forall>v \<in> set (fe_visited a). v < reached (fe_pc a))) \<and>
     seen_below A (w_list l) (reached (fe_pc a)) (fe_visited a) \<and>
     has_position (fe_pc a) (w_promises l) (w_list l)"

definition list_ok :: "weak_list \<Rightarrow> bool" where
  "list_ok l \<longleftrightarrow> sorted_wrt (<) (map expirePromise (w_list l)) \<and> wl_inv l"

definition excluded :: "fe_activity list \<Rightarrow> bool" where
  "excluded run \<longleftrightarrow> (\<forall>i < length run. \<forall>j < length run. i \<noteq> j \<longrightarrow> exclusive (fe_pc (run ! i)) \<longrightarrow>
     \<not> exclusive (fe_pc (run ! j)) \<and> \<not> shared (fe_pc (run ! j)))"

definition tsl_inv :: "ts_weak_list \<Rightarrow> bool" where
  "tsl_inv s \<longleftrightarrow> list_ok (m_list s) \<and> excluded (ts_run s) \<and>
     (\<forall>a \<in> set (ts_run s). fe_ok (m_list s) (alive s) a)"

lemma list_ok_promises: "list_ok l \<Longrightarrow> x \<in> set (w_list l) \<Longrightarrow> expirePromise x < w_promises l"
  by (auto simp: list_ok_def wl_inv_def dest!: arg_cong[where f = set_mset])

subsection \<open>What other activities do to one\<close>

lemma fe_ok_objects:
  "fe_ok l A a \<Longrightarrow> (\<And>x. x \<in> set (w_list l) \<Longrightarrow> A' (w_weak x) \<Longrightarrow> A (w_weak x)) \<Longrightarrow> fe_ok l A' a"
  by (auto simp: fe_ok_def seen_below_def)

lemma has_position_mono:
  "has_position pc m xs \<Longrightarrow> set xs \<subseteq> set ys \<Longrightarrow> m \<le> m' \<Longrightarrow> has_position pc m' ys"
  by (cases pc) auto

lemma reached_le: "list_ok l \<Longrightarrow> has_position pc (w_promises l) (w_list l) \<Longrightarrow> reached pc \<le> w_promises l"
  by (cases pc) (auto simp: Suc_le_eq dest: list_ok_promises)

lemma fe_ok_emplace:
  assumes "list_ok l" "fe_ok l A a"
  shows "fe_ok (fst (wl_emplace_back weak l)) A a"
proof -
  have "has_position (fe_pc a) (Suc (w_promises l)) (w_list l @ [x])" for x
    using assms(2) by (auto simp: fe_ok_def elim!: has_position_mono)
  moreover have "reached (fe_pc a) \<le> w_promises l" using assms by (auto simp: fe_ok_def intro: reached_le)
  ultimately show ?thesis using assms(2) by (auto simp: fe_ok_def seen_below_def wl_emplace_back_def)
qed

lemma list_ok_emplace: "list_ok l \<Longrightarrow> list_ok (fst (wl_emplace_back weak l))"
  using list_ok_promises[of l]
  by (auto simp: list_ok_def sorted_wrt_append wl_emplace_back_def wl_inv_def)

lemma split_at: "k < length xs \<Longrightarrow> xs = take k xs @ xs ! k # drop (k + 1) xs"
  by (simp add: id_take_nth_drop)

lemma list_ok_erase:
  assumes "list_ok l" "k < length (w_list l)"
  shows "list_ok (l\<lparr>w_list := take k (w_list l) @ drop (k + 1) (w_list l),
    w_expired := w_expired l @ [expirePromise (w_list l ! k)]\<rparr>)"
proof -
  obtain ys x zs where l: "w_list l = ys @ x # zs" and k: "k = length ys"
    using assms(2) split_at[of k "w_list l"] by (metis length_take min.absorb4)
  show ?thesis using assms(1) by (auto simp: list_ok_def wl_inv_def l k sorted_wrt_append)
qed

lemma fe_ok_erase:
  assumes "fe_ok l A a" "k < length (w_list l)" "\<not> A (w_weak (w_list l ! k))" "\<not> shared (fe_pc a)"
    "\<And>obj. holds_object (fe_pc a) = Some obj \<Longrightarrow> A obj"
  shows "fe_ok (l\<lparr>w_list := take k (w_list l) @ drop (k + 1) (w_list l),
    w_expired := w_expired l @ [expirePromise (w_list l ! k)]\<rparr>) A a"
proof -
  obtain ys x zs where l: "w_list l = ys @ x # zs" and k: "k = length ys"
    using assms(2) split_at[of k "w_list l"] by (metis length_take min.absorb4)
  have "has_position (fe_pc a) (w_promises l) (ys @ zs)"
    using assms by (cases "fe_pc a") (auto simp: fe_ok_def l k)
  then show ?thesis using assms(1) by (auto simp: fe_ok_def seen_below_def l k)
qed

subsection \<open>The activity itself\<close>

definition may_be :: "nat \<Rightarrow> loop_pc \<Rightarrow> fe_activity list \<Rightarrow> bool" where
  "may_be i pc run \<longleftrightarrow> (\<forall>j < length run. j \<noteq> i \<longrightarrow>
     (exclusive pc \<longrightarrow> \<not> exclusive (fe_pc (run ! j)) \<and> \<not> shared (fe_pc (run ! j))) \<and>
     (shared pc \<longrightarrow> \<not> exclusive (fe_pc (run ! j))))"

lemma excluded_update:
  "excluded run \<Longrightarrow> may_be i (fe_pc b) run \<Longrightarrow> excluded (run[i := b])"
  unfolding excluded_def may_be_def length_list_update
proof (intro allI impI)
  fix j k
  assume run: "\<forall>i < length run. \<forall>j < length run. i \<noteq> j \<longrightarrow> exclusive (fe_pc (run ! i)) \<longrightarrow>
      \<not> exclusive (fe_pc (run ! j)) \<and> \<not> shared (fe_pc (run ! j))"
    and b: "\<forall>j < length run. j \<noteq> i \<longrightarrow>
      (exclusive (fe_pc b) \<longrightarrow> \<not> exclusive (fe_pc (run ! j)) \<and> \<not> shared (fe_pc (run ! j))) \<and>
      (shared (fe_pc b) \<longrightarrow> \<not> exclusive (fe_pc (run ! j)))"
    and jk: "j < length run" "k < length run" "j \<noteq> k" "exclusive (fe_pc (run[i := b] ! j))"
  show "\<not> exclusive (fe_pc (run[i := b] ! k)) \<and> \<not> shared (fe_pc (run[i := b] ! k))"
    using run[rule_format, of j k] b[rule_format, of k] b[rule_format, of j] jk
    by (cases "j = i"; cases "k = i") auto
qed

lemma may_be_same:
  "excluded run \<Longrightarrow> i < length run \<Longrightarrow>
    (exclusive pc \<Longrightarrow> exclusive (fe_pc (run ! i))) \<Longrightarrow>
    (shared pc \<Longrightarrow> shared (fe_pc (run ! i)) \<or> exclusive (fe_pc (run ! i))) \<Longrightarrow> may_be i pc run"
  unfolding excluded_def may_be_def by blast

lemma may_be_free:
  "free_exclusive s \<Longrightarrow> may_be i pc (ts_run s)"
  "free_shared s \<Longrightarrow> \<not> exclusive pc \<Longrightarrow> may_be i pc (ts_run s)"
  by (auto simp: may_be_def free_exclusive_def free_shared_def)

lemma alive_simps [simp]:
  "alive (s\<lparr>m_list := l\<rparr>) = alive s"
  "alive (s\<lparr>ts_owned := w\<rparr>) obj \<longleftrightarrow> obj \<in> w \<or> (\<exists>a \<in> set (ts_run s). holds_object (fe_pc a) = Some obj)"
  by (auto simp: alive_def fun_eq_iff)

lemma alive_update:
  assumes "alive (s\<lparr>ts_run := (ts_run s)[i := a]\<rparr>) obj" "\<And>o'. holds_object (fe_pc a) = Some o' \<Longrightarrow> alive s o'"
  shows "alive s obj"
  using assms set_update_subset_insert[of "ts_run s" i a] by (auto simp: alive_def)

lemma tsl_inv_update:
  assumes "tsl_inv s" "list_ok l" "\<And>a. a \<in> set (ts_run s) \<Longrightarrow> fe_ok l (alive s) a"
    "may_be i (fe_pc b) (ts_run s)" "fe_ok l (alive s) b" "\<And>obj. holds_object (fe_pc b) = Some obj \<Longrightarrow> alive s obj"
  shows "tsl_inv (s\<lparr>m_list := l, ts_run := (ts_run s)[i := b]\<rparr>)"
proof -
  let ?s = "s\<lparr>m_list := l, ts_run := (ts_run s)[i := b]\<rparr>"
  have shrinks: "alive ?s obj \<Longrightarrow> alive s obj" for obj
    using alive_update[of "s\<lparr>m_list := l\<rparr>" i b obj] assms(6) by simp
  have "excluded (ts_run ?s)"
    using excluded_update assms(1,4) by (simp add: tsl_inv_def)
  moreover have "fe_ok l (alive ?s) a" if "a \<in> set (ts_run ?s)" for a
  proof (rule fe_ok_objects)
    show "fe_ok l (alive s) a"
      using that assms(3,5) set_update_subset_insert[of "ts_run s" i b] by auto
  qed (rule shrinks)
  ultimately show ?thesis using assms(2) by (simp add: tsl_inv_def)
qed

lemma tsl_inv_D:
  assumes "tsl_inv s"
  shows "list_ok (m_list s)" "excluded (ts_run s)" "a \<in> set (ts_run s) \<Longrightarrow> fe_ok (m_list s) (alive s) a"
  using assms by (auto simp: tsl_inv_def)

text \<open>A step that leaves the list alone.\<close>

lemma tsl_inv_go:
  assumes "tsl_inv s" "may_be i pc (ts_run s)" "\<And>obj. holds_object pc = Some obj \<Longrightarrow> alive s obj"
    "fe_ok (m_list s) (alive s) \<lparr>fe_pc = pc, fe_visited = fe_visited (ts_run s ! i) @
       (case pc of FE_Call n obj \<Rightarrow> [n] | _ \<Rightarrow> [])\<rparr>"
  shows "tsl_inv (go i pc s)"
  using tsl_inv_update[OF assms(1) tsl_inv_D(1)[OF assms(1)] tsl_inv_D(3)[OF assms(1)], where i = i, OF _ _ assms(4)]
    assms(2,3) by (simp add: go_def)

lemma held_alive:
  "i < length (ts_run s) \<Longrightarrow> holds_object (fe_pc (ts_run s ! i)) = Some obj \<Longrightarrow> alive s obj"
  by (auto simp: alive_def)

lemma fe_ok_nth: "tsl_inv s \<Longrightarrow> i < length (ts_run s) \<Longrightarrow> fe_ok (m_list s) (alive s) (ts_run s ! i)"
  by (rule tsl_inv_D) simp_all

text \<open>One turn of clearExpired: the entry that goes has no living object, so no iterator stands on it.\<close>

lemma clear_at_inv:
  assumes inv: "tsl_inv s" and i: "i < length (ts_run s)" and pc: "fe_pc (ts_run s ! i) = FE_Clear each k"
    and step: "clear_at each k s = (l, pc')"
  shows "tsl_inv (go i pc' (s\<lparr>m_list := l\<rparr>))"
proof -
  have "fe_visited (ts_run s ! i) = []" using fe_ok_nth[OF inv i] pc by (simp add: fe_ok_def)
  moreover have "exclusive (fe_pc (ts_run s ! i))" by (simp add: pc)
  moreover have here: "pc' \<in> {FE_Want, FE_Idle} \<or> (\<exists>k. pc' = FE_Clear each k)"
    using step by (auto simp: clear_at_def Let_def split: if_splits)
  ultimately have new: "fe_ok l (alive s) \<lparr>fe_pc = pc', fe_visited = []\<rparr>" "may_be i pc' (ts_run s)"
    "go i pc' (s\<lparr>m_list := l\<rparr>) = s\<lparr>m_list := l, ts_run := (ts_run s)[i := \<lparr>fe_pc = pc', fe_visited = []\<rparr>]\<rparr>"
    "holds_object pc' = None"
    using may_be_same[OF tsl_inv_D(2)[OF inv] i, of pc'] by (auto simp: fe_ok_def seen_below_def go_def)
  have kept: "list_ok l \<and> (\<forall>a \<in> set (ts_run s) - {ts_run s ! i}. fe_ok l (alive s) a)"
  proof (cases "k < length (w_list (m_list s)) \<and> \<not> alive s (w_weak (w_list (m_list s) ! k))")
    case True
    have "\<not> shared (fe_pc (ts_run s ! j))" if "j < length (ts_run s)" for j
      using tsl_inv_D(2)[OF inv] that i pc by (cases "j = i") (auto simp: excluded_def)
    then have "\<not> shared (fe_pc a)" if "a \<in> set (ts_run s)" for a using that by (metis in_set_conv_nth)
    moreover have "alive s obj" if "a \<in> set (ts_run s)" "holds_object (fe_pc a) = Some obj" for a obj
      using that by (auto simp: alive_def)
    moreover have "l = m_list s\<lparr>w_list := take k (w_list (m_list s)) @ drop (k + 1) (w_list (m_list s)),
        w_expired := w_expired (m_list s) @ [expirePromise (w_list (m_list s) ! k)]\<rparr>"
      using True step by (auto simp: clear_at_def Let_def)
    ultimately show ?thesis
      using True list_ok_erase[OF tsl_inv_D(1)[OF inv]] fe_ok_erase[OF tsl_inv_D(3)[OF inv]] by blast
  next
    case False
    then show ?thesis using step tsl_inv_D[OF inv] by (auto simp: clear_at_def Let_def split: if_splits)
  qed
  have "fe_ok l (alive s) (ts_run s ! i)" using new(1) pc \<open>fe_visited (ts_run s ! i) = []\<close> here
    by (auto simp: fe_ok_def seen_below_def)
  with kept have "fe_ok l (alive s) a" if "a \<in> set (ts_run s)" for a using that by auto
  then show ?thesis unfolding new(3) using kept new by (intro tsl_inv_update[OF inv]) auto
qed

text \<open>The iterator: what lives up to its position has been visited.\<close>

lemma begin_at_ok:
  assumes "fe_ok l A a" "fe_pc a = FE_Begin" "list_ok l" "l = m_list s" "A = alive s"
  shows "fe_ok l A \<lparr>fe_pc = begin_at s, fe_visited = fe_visited a @ (case begin_at s of FE_Call n obj \<Rightarrow> [n] | _ \<Rightarrow> [])\<rparr>"
proof (cases "w_list l")
  case Nil
  then show ?thesis using assms by (simp add: fe_ok_def begin_at_def seen_below_def)
next
  case (Cons x xs)
  then show ?thesis using assms by (auto simp: fe_ok_def begin_at_def seen_below_def list_ok_def)
qed

lemma position_split:
  assumes "list_ok l" "x \<in> set (w_list l)" "n = expirePromise x"
  obtains ys zs where "w_list l = ys @ x # zs" "dropWhile (\<lambda>x. expirePromise x \<noteq> n) (w_list l) = x # zs"
    "\<forall>y \<in> set ys. expirePromise y < n" "\<forall>z \<in> set zs. n < expirePromise z"
    "sorted_wrt (<) (map expirePromise zs)"
proof -
  obtain ys zs where l: "w_list l = ys @ x # zs" using assms(2) by (auto dest: split_list)
  then have ids: "\<forall>y \<in> set ys. expirePromise y < n" "\<forall>z \<in> set zs. n < expirePromise z"
    "sorted_wrt (<) (map expirePromise zs)"
    using assms(1,3) by (auto simp: list_ok_def sorted_wrt_append)
  then have rest: "dropWhile (\<lambda>x. expirePromise x \<noteq> n) (w_list l) = x # zs"
    using assms(3) unfolding l by (subst dropWhile_append2) auto
  show thesis by (rule that[OF l rest ids])
qed

lemma next_at_ok:
  assumes a: "fe_ok l A a" and pc: "fe_pc a = FE_Next n cur" and l: "list_ok l" "l = m_list s" "A = alive s"
  obtains pc' where "next_at n s = Some pc'" "\<not> exclusive pc'"
    "fe_ok l A \<lparr>fe_pc = pc', fe_visited = fe_visited a @ (case pc' of FE_Call n obj \<Rightarrow> [n] | _ \<Rightarrow> [])\<rparr>"
    "\<And>obj. holds_object pc' = Some obj \<Longrightarrow> A obj"
proof -
  from a pc obtain x where x: "x \<in> set (w_list l)" "n = expirePromise x" by (auto simp: fe_ok_def)
  obtain ys zs where xs: "w_list l = ys @ x # zs" and rest: "dropWhile (\<lambda>x. expirePromise x \<noteq> n) (w_list l) = x # zs"
    and ids: "\<forall>y \<in> set ys. expirePromise y < n" "\<forall>z \<in> set zs. n < expirePromise z" "sorted_wrt (<) (map expirePromise zs)"
    by (rule position_split[OF l(1) x])
  have "seen_below A (w_list l) (Suc n) (fe_visited a)" using a pc by (simp add: fe_ok_def)
  then have seen: "seen_below A (ys @ [x]) (Suc n) (fe_visited a)" "\<forall>v \<in> set (fe_visited a). v < Suc n"
    "sorted_wrt (<) (fe_visited a)" "n < w_promises l"
    using a pc list_ok_promises[OF l(1) x(1)] x(2) by (simp_all add: fe_ok_def seen_below_def xs)
  show thesis
  proof (cases zs)
    case Nil
    have "\<forall>v \<in> set (fe_visited a). v < w_promises l" using seen(2,4) by (meson less_Suc_eq_le le_less_trans)
    moreover have "\<forall>y \<in> set (ys @ [x]). expirePromise y < Suc n" using ids(1) x(2) by (auto intro: less_SucI)
    then have "seen_below A (w_list l) m (fe_visited a)" for m
      using seen(1) by (simp add: seen_below_def xs Nil)
    ultimately have "fe_ok l A \<lparr>fe_pc = FE_Done (w_promises l), fe_visited = fe_visited a\<rparr>"
      using seen(3) by (simp add: fe_ok_def)
    then show thesis using rest Nil l(2) by (intro that[of "FE_Done (w_promises l)"]) (simp_all add: next_at_def)
  next
    case (Cons z zs')
    have z: "n < expirePromise z" "\<forall>w \<in> set zs'. expirePromise z < expirePromise w" using ids Cons by auto
    show thesis
    proof (rule that)
      show "next_at n s = Some (if A (w_weak z) then FE_Call (expirePromise z) (w_weak z) else FE_Next (expirePromise z) None)"
        using rest Cons l(2,3) by (simp add: next_at_def)
    qed (use seen ids z x in \<open>auto simp: fe_ok_def seen_below_def xs Cons sorted_wrt_append less_Suc_eq_le
        split: if_splits\<close>)
  qed
qed

lemma fe_step_inv:
  assumes "fe_step i s r" "tsl_inv s"
  obtains s' where "r = Some s'" "tsl_inv s'"
  using assms(1)
proof cases
  case (fe_clear each k l pc)
  then show thesis using clear_at_inv[OF assms(2)] that by blast
next
  case fe_want
  have "tsl_inv (go i FE_Begin s)"
    using may_be_free(2) fe_ok_nth[OF assms(2)] fe_want by (intro tsl_inv_go[OF assms(2)]) (auto simp: fe_ok_def)
  with fe_want(1) show thesis by (rule that)
next
  case fe_begin
  note ok = fe_ok_nth[OF assms(2) fe_begin(2)]
  have "tsl_inv (go i (begin_at s) s)"
  proof (rule tsl_inv_go[OF assms(2)])
    show "may_be i (begin_at s) (ts_run s)" using fe_begin(2,3) tsl_inv_D(2)[OF assms(2)]
      by (intro may_be_same) (auto simp: begin_at_def split: list.splits if_splits)
  qed (use begin_at_ok[OF ok fe_begin(3) tsl_inv_D(1)[OF assms(2)] refl refl] in
      \<open>auto simp: begin_at_def split: list.splits if_splits\<close>)
  with fe_begin(1) show thesis by (rule that)
next
  case (fe_called n obj pc)
  have "tsl_inv (go i pc s)"
    using fe_called fe_ok_nth[OF assms(2) fe_called(2)] held_alive[OF fe_called(2)]
    by (intro tsl_inv_go[OF assms(2)]) (auto simp: fe_ok_def may_be_def seen_below_def)
  with fe_called(1) show thesis by (rule that)
next
  case (fe_relock n obj)
  have "tsl_inv (go i (FE_Next n (Some obj)) s)"
    using fe_relock may_be_free(2) fe_ok_nth[OF assms(2) fe_relock(2)] held_alive[OF fe_relock(2)]
    by (intro tsl_inv_go[OF assms(2)]) (auto simp: fe_ok_def)
  with fe_relock(1) show thesis by (rule that)
next
  case (fe_next n cur)
  obtain pc where pc: "next_at n s = Some pc" "\<not> exclusive pc" "holds_object pc = Some obj \<Longrightarrow> alive s obj"
    "fe_ok (m_list s) (alive s) \<lparr>fe_pc = pc, fe_visited = fe_visited (ts_run s ! i) @ (case pc of FE_Call n obj \<Rightarrow> [n] | _ \<Rightarrow> [])\<rparr>"
    for obj
    by (rule next_at_ok[OF fe_ok_nth[OF assms(2) fe_next(2)] fe_next(3) tsl_inv_D(1)[OF assms(2)] refl refl]) blast
  have "tsl_inv (go i pc s)"
    using fe_next(2,3) tsl_inv_D(2)[OF assms(2)] pc
    by (intro tsl_inv_go[OF assms(2)] may_be_same) auto
  moreover have "r = Some (go i pc s)" using fe_next(1) pc(1) by simp
  ultimately show thesis by (rule that[rotated])
next
  case (fe_leave obj)
  have "tsl_inv (go i FE_Idle s)"
    using fe_leave fe_ok_nth[OF assms(2) fe_leave(2)]
    by (intro tsl_inv_go[OF assms(2)]) (auto simp: fe_ok_def may_be_def seen_below_def)
  with fe_leave(1) show thesis by (rule that)
qed

text \<open>What the owners do shows to the activities only as objects that are gone.\<close>

lemma tsl_inv_owners:
  assumes "tsl_inv s" "w \<subseteq> ts_owned s \<union> {obj. alive s obj \<or> obj \<notin> w_weak ` set (w_list (m_list s))}"
  shows "tsl_inv (s\<lparr>ts_owned := w\<rparr>)"
proof -
  have "alive s (w_weak x)" if "x \<in> set (w_list (m_list s))" "alive (s\<lparr>ts_owned := w\<rparr>) (w_weak x)" for x
    using that assms(2) by (auto simp: alive_def)
  then have "fe_ok (m_list s) (alive (s\<lparr>ts_owned := w\<rparr>)) a" if "a \<in> set (ts_run s)" for a
    using tsl_inv_D(3)[OF assms(1) that] by (blast intro: fe_ok_objects)
  then show ?thesis using assms(1) by (simp add: tsl_inv_def)
qed

lemma tsl_step_inv:
  assumes "tsl_step s r" "tsl_inv s"
  obtains s' where "r = Some s'" "tsl_inv s'"
  using assms(1)
proof cases
  case (tsl_activity i)
  then show thesis using fe_step_inv[OF _ assms(2)] that by blast
next
  case (tsl_start i each)
  have "tsl_inv (ts_clearExpired each i s)"
    using tsl_inv_update[OF assms(2) tsl_inv_D(1)[OF assms(2)] tsl_inv_D(3)[OF assms(2)],
        of i "\<lparr>fe_pc = FE_Clear each 0, fe_visited = []\<rparr>"] may_be_free(1)[OF tsl_start(4)]
    by (simp add: ts_clearExpired_def fe_ok_def seen_below_def)
  with tsl_start(1) show thesis by (rule that)
next
  case (tsl_emplace weak)
  have "tsl_inv (ts_emplace_back weak s)"
    using tsl_inv_D[OF assms(2)] list_ok_emplace fe_ok_emplace by (auto simp: tsl_inv_def ts_emplace_back_def)
  with tsl_emplace(1) show thesis by (rule that)
next
  case (tsl_drop obj)
  show thesis by (rule that[OF tsl_drop tsl_inv_owners[OF assms(2)]]) blast
next
  case (tsl_keep obj)
  show thesis by (rule that[OF tsl_keep(1) tsl_inv_owners[OF assms(2)]]) (use tsl_keep(2) in blast)
next
  case (tsl_new obj)
  show thesis by (rule that[OF tsl_new(1) tsl_inv_owners[OF assms(2)]]) (use tsl_new(2) in blast)
qed

lemma tsl_reachable_inv: "tsl_reachable s \<Longrightarrow> tsl_inv s"
proof (induction rule: tsl_reachable.induct)
  case (tsl_init n owned)
  show ?case by (auto simp: tsl_inv_def ts_make_def list_ok_def wl_inv_def wl_make_def excluded_def fe_ok_def seen_below_def)
next
  case (tsl_next s s')
  then show ?case using tsl_step_inv by blast
qed

section \<open>What holds in every interleaving\<close>

text \<open>No lock is held by one that waits: whenever an activity is not at rest, one of them can go on.\<close>

lemma fe_goes_on:
  assumes inv: "tsl_inv s" and busy: "a \<in> set (ts_run s)" "\<not> at_rest (fe_pc a)"
  shows "\<exists>i s'. fe_step i s (Some s')"
proof (cases "free_exclusive s")
  case True
  then have free: "free_shared s" by (simp add: free_shared_def free_exclusive_def)
  obtain i where i: "i < length (ts_run s)" "ts_run s ! i = a" using busy(1) by (auto simp: in_set_conv_nth)
  have "\<not> exclusive (fe_pc a) \<and> \<not> shared (fe_pc a)" using True busy(1) by (simp add: free_exclusive_def)
  then show ?thesis
    using busy(2) i fe_want[OF i(1) _ free] fe_called[OF i(1)] fe_relock[OF i(1) _ free] fe_leave[OF i(1) _ free]
    by (cases "fe_pc a") (simp; blast)+
next
  case False
  then obtain i where i: "i < length (ts_run s)" and holds: "exclusive (fe_pc (ts_run s ! i)) \<or> shared (fe_pc (ts_run s ! i))"
    by (auto simp: free_exclusive_def in_set_conv_nth)
  then obtain r where "fe_step i s r"
    using fe_clear[OF i] fe_begin[OF i] fe_next[OF i] by (cases "fe_pc (ts_run s ! i)") (auto, metis surj_pair)
  then show ?thesis using fe_step_inv[OF _ inv] by metis
qed

text \<open>
  C11: In any interleaving of forEach, clearExpired and emplace_back on a TSWeakList whose objects lose their owners at
  any moment, and whose promises have continuations that leave the list alone: no iterator is left on an entry that
  was erased, and the entry whose object a function looks at is in the list. A run of forEach visits entries in the
  order of the list and none twice. It ends in one of three ways: at the end of the list, where it has visited every entry from
  before whose object still lives; at its first look, which finds the first object gone, and then it has visited nothing,
  whatever lives (forEach_cut_short); or because its function threw. Every promise belongs to an entry or was fulfilled,
  once, and the activities cannot block each other.
\<close>

theorem weak_list_threads:
  assumes "tsl_reachable s"
  shows "\<not> tsl_step s None \<and>
    (\<forall>a \<in> set (ts_run s). sorted_wrt (<) (fe_visited a) \<and>
      (case fe_pc a of
         FE_Call n obj \<Rightarrow> \<exists>x \<in> set (w_list (m_list s)). expirePromise x = n \<and> w_weak x = obj
       | FE_Done k \<Rightarrow> \<forall>x \<in> set (w_list (m_list s)).
           expirePromise x < k \<longrightarrow> alive s (w_weak x) \<longrightarrow> expirePromise x \<in> set (fe_visited a)
       | FE_Cut \<Rightarrow> fe_visited a = []
       | _ \<Rightarrow> True)) \<and>
    mset (map expirePromise (w_list (m_list s))) + mset (w_expired (m_list s)) + mset (w_broken (m_list s)) =
      mset [0..<w_promises (m_list s)] \<and>
    ((\<exists>a \<in> set (ts_run s). \<not> at_rest (fe_pc a)) \<longrightarrow> (\<exists>i s'. fe_step i s (Some s')))"
proof (intro conjI)
  note inv = tsl_reachable_inv[OF assms]
  show "\<not> tsl_step s None" using tsl_step_inv[OF _ inv] by blast
  show "\<forall>a \<in> set (ts_run s). sorted_wrt (<) (fe_visited a) \<and>
      (case fe_pc a of
         FE_Call n obj \<Rightarrow> \<exists>x \<in> set (w_list (m_list s)). expirePromise x = n \<and> w_weak x = obj
       | FE_Done k \<Rightarrow> \<forall>x \<in> set (w_list (m_list s)).
           expirePromise x < k \<longrightarrow> alive s (w_weak x) \<longrightarrow> expirePromise x \<in> set (fe_visited a)
       | FE_Cut \<Rightarrow> fe_visited a = []
       | _ \<Rightarrow> True)" (is "\<forall>a \<in> _. ?ok a")
  proof
    fix a assume "a \<in> set (ts_run s)"
    from tsl_inv_D(3)[OF inv this] show "?ok a" by (cases "fe_pc a") (simp_all add: fe_ok_def seen_below_def)
  qed
  show "mset (map expirePromise (w_list (m_list s))) + mset (w_expired (m_list s)) + mset (w_broken (m_list s)) =
      mset [0..<w_promises (m_list s)]" using tsl_inv_D(1)[OF inv] by (simp add: list_ok_def wl_inv_def)
  show "(\<exists>a \<in> set (ts_run s). \<not> at_rest (fe_pc a)) \<longrightarrow> (\<exists>i s'. fe_step i s (Some s'))"
    using fe_goes_on[OF inv] by blast
qed

text \<open>A list of the objects 7 and 8 in the hands of one activity.\<close>

definition two_objects :: "nat set \<Rightarrow> loop_pc \<Rightarrow> nat list \<Rightarrow> ts_weak_list" where
  "two_objects owned pc visited =
     \<lparr>m_list = \<lparr>w_list = [\<lparr>w_weak = 7, expirePromise = 0\<rparr>, \<lparr>w_weak = 8, expirePromise = 1\<rparr>], w_promises = 2,
        w_expired = [], w_broken = []\<rparr>, ts_owned = owned, ts_run = [\<lparr>fe_pc = pc, fe_visited = visited\<rparr>]\<rparr>"

lemma two_objects_step:
  "tsl_reachable (two_objects w pc vs) \<Longrightarrow> tsl_step (two_objects w pc vs) (Some (two_objects w' pc' vs')) \<Longrightarrow>
    tsl_reachable (two_objects w' pc' vs')"
  by (rule tsl_next)

lemma two_objects_begin: "tsl_reachable (two_objects {7, 8} FE_Begin [])"
proof -
  have free: "free_exclusive (ts_make 1 {7, 8})" "free_exclusive (ts_emplace_back 7 (ts_make 1 {7, 8}))"
    by (auto simp: free_exclusive_def ts_make_def ts_emplace_back_def)
  have "tsl_reachable (ts_emplace_back 8 (ts_emplace_back 7 (ts_make 1 {7, 8})))"
    by (rule tsl_next[OF tsl_next[OF tsl_init tsl_emplace[OF free(1)]] tsl_emplace[OF free(2)]])
  then have "tsl_reachable (two_objects {7, 8} FE_Idle [])"
    by (simp add: two_objects_def ts_emplace_back_def ts_make_def wl_emplace_back_def wl_make_def numeral_2_eq_2)
  then have "tsl_reachable (two_objects {7, 8} (FE_Clear True 0) [])"
    by (rule two_objects_step)
      (use tsl_start[of 0 "two_objects {7, 8} FE_Idle []" True] in
        \<open>simp add: two_objects_def free_exclusive_def ts_clearExpired_def\<close>)
  moreover have "tsl_step (two_objects {7, 8} (FE_Clear True k) [])
      (Some (two_objects {7, 8} (if 2 \<le> k then FE_Want else FE_Clear True (k + 1)) []))" if "k \<le> 2" for k
    using tsl_activity[OF fe_clear[of 0 "two_objects {7, 8} (FE_Clear True k) []" True k]] that
    by (cases "k = 0"; cases "k = 1") (simp_all add: two_objects_def clear_at_def alive_def go_def)
  from this[of 0] this[of 1] this[of 2] calculation have "tsl_reachable (two_objects {7, 8} FE_Want [])"
    by (simp add: two_objects_step numeral_2_eq_2) (metis two_objects_step)
  then show ?thesis
    by (rule two_objects_step)
      (use tsl_activity[OF fe_want[of 0 "two_objects {7, 8} FE_Want []"]] in
        \<open>simp add: two_objects_def go_def free_shared_def\<close>)
qed

text \<open>The function looks at 7 while its last owner goes: the entry stays.\<close>

theorem weak_list_threads_witness:
  "\<not> tsl_step (two_objects {8} (FE_Call 0 7) [0]) None \<and> alive (two_objects {8} (FE_Call 0 7) [0]) 7"
proof -
  have "tsl_reachable (two_objects {7, 8} (FE_Call 0 7) [0])"
    by (rule two_objects_step[OF two_objects_begin])
      (use tsl_activity[OF fe_begin[of 0 "two_objects {7, 8} FE_Begin []"]] in
        \<open>simp add: two_objects_def go_def begin_at_def alive_def\<close>)
  then have "tsl_reachable (two_objects {8} (FE_Call 0 7) [0])"
    by (rule two_objects_step)
      (use tsl_drop[of "two_objects {7, 8} (FE_Call 0 7) [0]" 7] in \<open>simp add: two_objects_def\<close>)
  from weak_list_threads[OF this] show ?thesis by (simp add: two_objects_def alive_def)
qed

text \<open>
  forEach clears the list before it locks it for the iteration. When the first object goes in between, begin finds it
  gone, and forEach returns without a call though another object lives.
\<close>

lemma forEach_cut_short:
  "tsl_reachable (two_objects {8} FE_Cut []) \<and> alive (two_objects {8} FE_Cut []) 8"
proof -
  have "tsl_reachable (two_objects {8} FE_Begin [])"
    by (rule two_objects_step[OF two_objects_begin])
      (use tsl_drop[of "two_objects {7, 8} FE_Begin []" 7] in \<open>simp add: two_objects_def\<close>)
  then have "tsl_reachable (two_objects {8} FE_Cut [])"
    by (rule two_objects_step)
      (use tsl_activity[OF fe_begin[of 0 "two_objects {8} FE_Begin []"]] in
        \<open>simp add: two_objects_def go_def begin_at_def alive_def\<close>)
  then show ?thesis by (simp add: two_objects_def alive_def)
qed

end
