(* ===== verification/FastPimpl.thy ===== *)
theory FastPimpl
  imports Prelude
begin

text \<open>
  include/nhope/utils/detail/fast-pimpl.h: an object in the storage of its holder, which the destructor's static
  assertions compare with the size and the alignment of the type. The constructors and the assignment of the type are
  parameters.
\<close>

section \<open>FastPimpl\<close>

text \<open>m_data is raw until the constructor of the object returns, and again after its destructor.\<close>

record 'v fast_pimpl =
  fp_size :: nat
  alignmentSize :: nat
  m_data :: "'v option"

definition defaultAlign :: nat where
  "defaultAlign = 8"

definition validate :: "nat \<Rightarrow> nat \<Rightarrow> 'v fast_pimpl \<Rightarrow> bool" where
  "validate actualSize actualAlignment p \<longleftrightarrow> actualSize \<le> fp_size p \<and> actualAlignment \<le> alignmentSize p"

text \<open>The constructor: when the object's throws, there is no holder, and no destructor will run.\<close>

definition fp_construct :: "nat \<Rightarrow> nat \<Rightarrow> 'e + 'v \<Rightarrow> 'e + 'v fast_pimpl" where
  "fp_construct sz al made = map_sum id (\<lambda>v. \<lparr>fp_size = sz, alignmentSize = al, m_data = Some v\<rparr>) made"

definition fp_destruct :: "'v fast_pimpl \<Rightarrow> 'v fast_pimpl option" where
  "fp_destruct p = (case m_data p of None \<Rightarrow> None | Some v \<Rightarrow> Some (p\<lparr>m_data := None\<rparr>))"

definition fp_get :: "'v fast_pimpl \<Rightarrow> 'v option" where
  "fp_get p = m_data p"

definition fp_put :: "'v \<Rightarrow> 'v fast_pimpl \<Rightarrow> 'v fast_pimpl option" where
  "fp_put v p = (case m_data p of None \<Rightarrow> None | Some u \<Rightarrow> Some (p\<lparr>m_data := Some v\<rparr>))"

text \<open>
  Move assignment, with move as the type's own: from the object and the source to what both are then. Self
  assignment is the type's as well.
\<close>

definition fp_move_assign ::
  "('v \<Rightarrow> 'v \<Rightarrow> 'v \<times> 'v) \<Rightarrow> 'v fast_pimpl \<Rightarrow> 'v fast_pimpl \<Rightarrow> ('v fast_pimpl \<times> 'v fast_pimpl) option" where
  "fp_move_assign move p rhs = (case (fp_get p, fp_get rhs) of
     (Some v, Some w) \<Rightarrow> (case move v w of (v', w') \<Rightarrow>
       (case (fp_put v' p, fp_put w' rhs) of (Some p', Some rhs') \<Rightarrow> Some (p', rhs') | _ \<Rightarrow> None))
   | _ \<Rightarrow> None)"

text \<open>swap swaps the objects and leaves the holders where they are.\<close>

definition fp_swap :: "'v fast_pimpl \<Rightarrow> 'v fast_pimpl \<Rightarrow> ('v fast_pimpl \<times> 'v fast_pimpl) option" where
  "fp_swap = fp_move_assign (\<lambda>v w. (w, v))"

definition makeFastPimpl :: "nat \<Rightarrow> nat \<Rightarrow> 'e + 'v \<Rightarrow> 'e + 'v fast_pimpl" where
  "makeFastPimpl sizeofT alignofT made = fp_construct sizeofT alignofT made"

section \<open>The lives of the objects\<close>

text \<open>
  The holders of one type in a program, with how many objects were constructed and destroyed; a holder leaves when its
  destructor has run. Holders that the destructor rejects do not compile.
\<close>

record 'v pimpl_heap =
  holders :: "'v fast_pimpl list"
  constructed :: nat
  destroyed :: nat

inductive pimpl_step ::
  "nat \<Rightarrow> nat \<Rightarrow> ('v \<Rightarrow> 'v \<Rightarrow> 'v \<times> 'v) \<Rightarrow> 'v pimpl_heap \<Rightarrow> 'v pimpl_heap option \<Rightarrow> bool" for szT alT move h where
  pimpl_make: "fp_construct sz al (made :: unit + 'v) = Inr p \<Longrightarrow> validate szT alT p \<Longrightarrow>
    pimpl_step szT alT move h (Some (h\<lparr>holders := holders h @ [p], constructed := constructed h + 1\<rparr>))"
| pimpl_throws: "fp_construct sz al (made :: unit + 'v) = Inl e \<Longrightarrow> pimpl_step szT alT move h (Some h)"
| pimpl_assign: "i < length (holders h) \<Longrightarrow> j < length (holders h) \<Longrightarrow> i \<noteq> j \<Longrightarrow> f \<in> {move, \<lambda>v w. (w, v)} \<Longrightarrow>
    pimpl_step szT alT move h (map_option (\<lambda>(p, q). h\<lparr>holders := (holders h)[i := p, j := q]\<rparr>)
      (fp_move_assign f (holders h ! i) (holders h ! j)))"
| pimpl_gone: "holders h = xs @ p # ys \<Longrightarrow>
    pimpl_step szT alT move h (map_option (\<lambda>_. h\<lparr>holders := xs @ ys, destroyed := destroyed h + 1\<rparr>) (fp_destruct p))"

inductive pimpl_reachable :: "nat \<Rightarrow> nat \<Rightarrow> ('v \<Rightarrow> 'v \<Rightarrow> 'v \<times> 'v) \<Rightarrow> 'v pimpl_heap \<Rightarrow> bool" for szT alT move where
  pimpl_start: "pimpl_reachable szT alT move \<lparr>holders = [], constructed = 0, destroyed = 0\<rparr>"
| pimpl_next: "pimpl_reachable szT alT move h \<Longrightarrow> pimpl_step szT alT move h (Some h') \<Longrightarrow> pimpl_reachable szT alT move h'"

definition holder_ok :: "nat \<Rightarrow> nat \<Rightarrow> 'v fast_pimpl \<Rightarrow> bool" where
  "holder_ok szT alT p \<longleftrightarrow> validate szT alT p \<and> m_data p \<noteq> None"

definition pimpl_inv :: "nat \<Rightarrow> nat \<Rightarrow> 'v pimpl_heap \<Rightarrow> bool" where
  "pimpl_inv szT alT h \<longleftrightarrow> (\<forall>p \<in> set (holders h). holder_ok szT alT p) \<and>
     constructed h = destroyed h + length (holders h)"

lemma fp_move_assign_ok:
  assumes "holder_ok szT alT p" "holder_ok szT alT q"
  shows "\<exists>p' q'. fp_move_assign f p q = Some (p', q') \<and> holder_ok szT alT p' \<and> holder_ok szT alT q' \<and>
    (fp_get p', fp_get q') = map_prod Some Some (f (the (fp_get p)) (the (fp_get q)))"
  using assms
  by (auto simp: fp_move_assign_def fp_get_def fp_put_def holder_ok_def validate_def split: prod.splits option.splits)

lemma pimpl_step_inv:
  assumes "pimpl_step szT alT move h r" "pimpl_inv szT alT h"
  shows "\<exists>h'. r = Some h' \<and> pimpl_inv szT alT h'"
  using assms(1)
proof cases
  case (pimpl_make sz al made p)
  then show ?thesis using assms(2)
    by (cases made) (auto simp: pimpl_inv_def fp_construct_def holder_ok_def)
next
  case (pimpl_assign i j f)
  have ok: "holder_ok szT alT (holders h ! i)" "holder_ok szT alT (holders h ! j)"
    using pimpl_assign(2,3) assms(2) by (simp_all add: pimpl_inv_def)
  obtain p q where pq: "fp_move_assign f (holders h ! i) (holders h ! j) = Some (p, q)"
    "holder_ok szT alT p" "holder_ok szT alT q"
    using fp_move_assign_ok[OF ok, of f] by blast
  have "set ((holders h)[i := p, j := q]) \<subseteq> insert q (insert p (set (holders h)))"
    by (meson set_update_subset_insert insert_mono subset_trans)
  then show ?thesis using pimpl_assign(1) pq assms(2) by (auto simp: pimpl_inv_def)
next
  case (pimpl_gone xs p ys)
  then show ?thesis using assms(2) by (auto simp: pimpl_inv_def holder_ok_def fp_destruct_def)
qed (use assms(2) in auto)

text \<open>
  Whatever a program does with its holders, each has a living object that fits into its storage, no operation touches
  raw storage, and every object that was constructed is in a holder or was destroyed, once.
\<close>

theorem pimpl_objects_live:
  assumes "pimpl_reachable szT alT move h"
  shows "\<not> pimpl_step szT alT move h None \<and>
    (\<forall>p \<in> set (holders h). fp_get p \<noteq> None \<and> szT \<le> fp_size p \<and> alT \<le> alignmentSize p) \<and>
    constructed h = destroyed h + length (holders h)"
proof -
  from assms have inv: "pimpl_inv szT alT h"
  proof (induction rule: pimpl_reachable.induct)
    case pimpl_start
    show ?case by (simp add: pimpl_inv_def)
  next
    case (pimpl_next h h')
    then show ?case using pimpl_step_inv by blast
  qed
  moreover from inv have "\<not> pimpl_step szT alT move h None" using pimpl_step_inv by blast
  ultimately show ?thesis by (auto simp: pimpl_inv_def holder_ok_def validate_def fp_get_def)
qed

text \<open>makeFastPimpl needs no check: its storage is the type's.\<close>

lemma makeFastPimpl_valid: "makeFastPimpl szT alT made = Inr p \<Longrightarrow> validate szT alT p"
  by (cases made) (auto simp: makeFastPimpl_def fp_construct_def validate_def)

lemma fp_swap_get:
  "holder_ok szT alT p \<Longrightarrow> holder_ok szT alT q \<Longrightarrow>
    \<exists>p' q'. fp_swap p q = Some (p', q') \<and> fp_get p' = fp_get q \<and> fp_get q' = fp_get p"
  using fp_move_assign_ok[of szT alT p q "\<lambda>v w. (w, v)"] by (auto simp: fp_swap_def fp_get_def holder_ok_def)

end
