(* ===== verification/ConsumerThreads.thy ===== *)
theory ConsumerThreads
  imports Consumers "HOL-Library.Multiset"
begin

text \<open>
  ConsumerList (include/nhope/seq/consumer-list.h) under any number of calls of consume, from many threads or
  from a consumer that is being served: consume gives the mutex back while it walks over the list it has
  spliced out, so that other calls of consume, addConsumer and close come in between. Each of these holds the mutex
  for what it does to m_list, which is one step here; a consumer's own consume is a step where it is
  called and one where it returns.

  The consumers are objects with numbers. A call remembers which it took, and of each consumer we remember
  its first state and the values it was given; the code does not look at these.
\<close>

section \<open>The list and its calls\<close>

text \<open>A call walks over its list: whether the consumer at the iterator is being called; or has returned.\<close>

datatype cs_pc = CS_Walks bool | CS_Returned consume_status

record 'v cs_call =
  cs_value :: 'v
  cs_took :: "nat list"      \<comment> \<open>ghost: the list as it was spliced out\<close>
  cs_front :: "nat list"     \<comment> \<open>list before the iterator\<close>
  cs_rest :: "nat list"      \<comment> \<open>list from the iterator on\<close>
  cs_pc :: cs_pc

record ('c, 'v) cs_sys =
  cs_closed :: bool
  cs_list :: "nat list"      \<comment> \<open>m_list\<close>
  cs_object :: "nat \<Rightarrow> 'c option"
  cs_next :: nat
  cs_calls :: "'v cs_call list"
  cs_made :: "nat \<Rightarrow> 'c"       \<comment> \<open>ghost\<close>
  cs_received :: "nat \<Rightarrow> 'v list"  \<comment> \<open>ghost\<close>

definition cs_init :: "'c \<Rightarrow> ('c, 'v) cs_sys" where
  "cs_init c = \<lparr>cs_closed = False, cs_list = [], cs_object = Map.empty, cs_next = 0, cs_calls = [],
     cs_made = (\<lambda>_. c), cs_received = (\<lambda>_. [])\<rparr>"

definition cs_addConsumer :: "'c \<Rightarrow> ('c, 'v) cs_sys \<Rightarrow> ('c, 'v) cs_sys" where
  "cs_addConsumer c s =
     (let x = cs_next s; s = s\<lparr>cs_next := Suc x, cs_made := (cs_made s)(x := c)\<rparr> in
      if cs_closed s then s
      else s\<lparr>cs_list := cs_list s @ [x], cs_object := (cs_object s)(x \<mapsto> c)\<rparr>)"

definition cs_close :: "('c, 'v) cs_sys \<Rightarrow> ('c, 'v) cs_sys" where
  "cs_close s = s\<lparr>cs_closed := True, cs_list := [],
     cs_object := (\<lambda>x. if x \<in> set (cs_list s) then None else cs_object s x)\<rparr>"

definition cs_consume :: "'v \<Rightarrow> ('c, 'v) cs_sys \<Rightarrow> ('c, 'v) cs_sys" where
  "cs_consume v s =
     (if cs_closed s
      then s\<lparr>cs_calls := cs_calls s @ [\<lparr>cs_value = v, cs_took = [], cs_front = [], cs_rest = [], cs_pc = CS_Returned Status_Closed\<rparr>]\<rparr>
      else s\<lparr>cs_list := [], cs_calls := cs_calls s @
        [\<lparr>cs_value = v, cs_took = cs_list s, cs_front = [], cs_rest = cs_list s, cs_pc = CS_Walks False\<rparr>]\<rparr>)"

text \<open>The call number k calls the consumer at its iterator, and goes on when that returns. None: it is gone.\<close>

definition cs_calls_it :: "nat \<Rightarrow> nat \<Rightarrow> ('c, 'v) cs_sys \<Rightarrow> ('c, 'v) cs_sys option" where
  "cs_calls_it k x s =
     (if cs_object s x = None then None
      else Some (s\<lparr>cs_calls := (cs_calls s)[k := (cs_calls s ! k)\<lparr>cs_pc := CS_Walks True\<rparr>],
        cs_received := (cs_received s)(x := cs_received s x @ [cs_value (cs_calls s ! k)])\<rparr>))"

definition cs_it_returns :: "('c, 'v, 'e) consume_fn \<Rightarrow> nat \<Rightarrow> nat \<Rightarrow> nat list \<Rightarrow> ('c, 'v) cs_sys \<Rightarrow> ('c, 'v) cs_sys option" where
  "cs_it_returns consume k x rest s =
     (let call = cs_calls s ! k in
      case cs_object s x of
        None \<Rightarrow> None
      | Some c \<Rightarrow> Some (case exceptionSafeConsume consume c (cs_value call) of
          (c', Status_Ok) \<Rightarrow> s\<lparr>cs_object := (cs_object s)(x \<mapsto> c'),
            cs_calls := (cs_calls s)[k := call\<lparr>cs_front := cs_front call @ [x], cs_rest := rest, cs_pc := CS_Walks False\<rparr>]\<rparr>
        | (c', Status_Closed) \<Rightarrow> s\<lparr>cs_object := (cs_object s)(x := None),
            cs_calls := (cs_calls s)[k := call\<lparr>cs_rest := rest, cs_pc := CS_Walks False\<rparr>]\<rparr>))"

definition cs_splices_back :: "nat \<Rightarrow> ('c, 'v) cs_sys \<Rightarrow> ('c, 'v) cs_sys" where
  "cs_splices_back k s =
     (let call = cs_calls s ! k in
      s\<lparr>cs_list := cs_front call @ cs_list s,
        cs_calls := (cs_calls s)[k := call\<lparr>cs_front := [], cs_pc := CS_Returned Status_Ok\<rparr>]\<rparr>)"

inductive cs_step :: "('c, 'v, 'e) consume_fn \<Rightarrow> ('c, 'v) cs_sys \<Rightarrow> ('c, 'v) cs_sys option \<Rightarrow> bool" for consume where
  cs_adds: "cs_step consume s (Some (cs_addConsumer c s))"
| cs_closes: "cs_step consume s (Some (cs_close s))"
| cs_consumes: "cs_step consume s (Some (cs_consume v s))"
| cs_delivers: "k < length (cs_calls s) \<Longrightarrow> cs_pc (cs_calls s ! k) = CS_Walks False \<Longrightarrow>
    cs_rest (cs_calls s ! k) = x # rest \<Longrightarrow> cs_step consume s (cs_calls_it k x s)"
| cs_returns: "k < length (cs_calls s) \<Longrightarrow> cs_pc (cs_calls s ! k) = CS_Walks True \<Longrightarrow>
    cs_rest (cs_calls s ! k) = x # rest \<Longrightarrow> cs_step consume s (cs_it_returns consume k x rest s)"
| cs_splices: "k < length (cs_calls s) \<Longrightarrow> cs_pc (cs_calls s ! k) = CS_Walks False \<Longrightarrow>
    cs_rest (cs_calls s ! k) = [] \<Longrightarrow> cs_step consume s (Some (cs_splices_back k s))"

inductive cs_reachable :: "('c, 'v, 'e) consume_fn \<Rightarrow> ('c, 'v) cs_sys \<Rightarrow> bool" for consume where
  cs_reach_init: "cs_reachable consume (cs_init c)"
| cs_reach_step: "cs_reachable consume s \<Longrightarrow> cs_step consume s (Some s') \<Longrightarrow> cs_reachable consume s'"

section \<open>Where the consumers are, and what they have been given\<close>

definition hands :: "'v cs_call \<Rightarrow> nat list" where
  "hands call = cs_front call @ cs_rest call"

definition places :: "('c, 'v) cs_sys \<Rightarrow> nat multiset" where
  "places s = mset (cs_list s) + mset (concat (map hands (cs_calls s)))"

text \<open>The calls that have been through with a consumer, that which is calling it, and both.\<close>

definition has_served :: "nat \<Rightarrow> 'v cs_call \<Rightarrow> bool" where
  "has_served x call \<longleftrightarrow> x \<in> set (cs_took call) \<and> x \<notin> set (cs_rest call)"

definition serving :: "nat \<Rightarrow> 'v cs_call \<Rightarrow> bool" where
  "serving x call \<longleftrightarrow> cs_pc call = CS_Walks True \<and> x \<in> set (take 1 (cs_rest call))"

definition reached :: "nat \<Rightarrow> 'v cs_call \<Rightarrow> bool" where
  "reached x call \<longleftrightarrow> x \<in> set (cs_took call) \<and> (x \<in> set (cs_rest call) \<longrightarrow> serving x call)"

definition values_of :: "(nat \<Rightarrow> 'v cs_call \<Rightarrow> bool) \<Rightarrow> nat \<Rightarrow> ('c, 'v) cs_sys \<Rightarrow> 'v list" where
  "values_of P x s = map cs_value (filter (P x) (cs_calls s))"

text \<open>What a call took when it began is in no call's hands from an earlier one.\<close>

definition in_turn :: "'v cs_call \<Rightarrow> 'v cs_call \<Rightarrow> bool" where
  "in_turn call later \<longleftrightarrow> set (hands call) \<inter> set (cs_took later) = {}"

definition call_ok :: "'v cs_call \<Rightarrow> bool" where
  "call_ok call \<longleftrightarrow> set (hands call) \<subseteq> set (cs_took call) \<and>
     (\<forall>st. cs_pc call = CS_Returned st \<longrightarrow> hands call = [])"

definition fed_ok :: "('c, 'v, 'e) consume_fn \<Rightarrow> ('c, 'v) cs_sys \<Rightarrow> nat \<Rightarrow> bool" where
  "fed_ok consume s x \<longleftrightarrow> (case cs_object s x of
     None \<Rightarrow> cs_closed s \<or> feed consume (cs_made s x) (values_of has_served x s) = None
   | Some c \<Rightarrow> feed consume (cs_made s x) (values_of has_served x s) = Some c)"

definition cs_inv :: "('c, 'v, 'e) consume_fn \<Rightarrow> ('c, 'v) cs_sys \<Rightarrow> bool" where
  "cs_inv consume s \<longleftrightarrow>
     (\<forall>x. count (places s) x = (if cs_object s x = None then 0 else 1)) \<and>
     (\<forall>x\<ge>cs_next s. cs_object s x = None \<and> (\<forall>call\<in>set (cs_calls s). x \<notin> set (cs_took call))) \<and>
     (\<forall>call\<in>set (cs_calls s). call_ok call) \<and> sorted_wrt in_turn (cs_calls s) \<and>
     (\<forall>x. cs_received s x = values_of has_served x s @ values_of serving x s) \<and>
     (\<forall>x<cs_next s. fed_ok consume s x)"

lemma feed_append:
  "feed consume c (vs @ ws) = (case feed consume c vs of None \<Rightarrow> None | Some c' \<Rightarrow> feed consume c' ws)"
  by (induction vs arbitrary: c) (auto split: prod.splits consume_status.splits)

lemma split_call:
  assumes "k < length (cs_calls s)"
  obtains xs call ys where "cs_calls s = xs @ call # ys" and "cs_calls s ! k = call" and "k = length xs"
proof -
  have "cs_calls s = take k (cs_calls s) @ cs_calls s ! k # drop (Suc k) (cs_calls s)" by (rule id_take_nth_drop[OF assms])
  from that[OF this refl] assms show thesis by simp
qed

lemma values_of_split:
  assumes "cs_calls s = xs @ call # ys"
  shows "values_of P x s = map cs_value (filter (P x) xs) @ (if P x call then [cs_value call] else []) @
    map cs_value (filter (P x) ys)"
  using assms by (simp add: values_of_def)

text \<open>A consumer in a call's hands: nobody else has it, and no later call took it.\<close>

lemma in_hands:
  assumes inv: "cs_inv consume s" and calls: "cs_calls s = xs @ call # ys" and x: "x \<in> set (hands call)"
  shows "cs_object s x \<noteq> None" and "x \<notin> set (cs_list s)" and "count (mset (hands call)) x = 1"
    and "\<And>d. d \<in> set xs \<union> set ys \<Longrightarrow> x \<notin> set (hands d)" and "\<And>d. d \<in> set ys \<Longrightarrow> x \<notin> set (cs_took d)"
proof -
  let ?n = "count (places s) x"
  have n: "?n = count (mset (cs_list s)) x + count (mset (concat (map hands xs))) x + count (mset (hands call)) x +
      count (mset (concat (map hands ys))) x"
    by (simp add: places_def calls)
  have pos: "count (mset (hands call)) x \<ge> 1" using x by (simp add: Suc_le_eq)
  have le: "?n = (if cs_object s x = None then 0 else 1)" using inv by (simp add: cs_inv_def)
  show "cs_object s x \<noteq> None" using n pos le by (auto split: if_splits)
  then have one: "?n = 1" using le by simp
  show "count (mset (hands call)) x = 1" using n pos one by simp
  have zero: "count (mset (cs_list s)) x = 0" "count (mset (concat (map hands xs))) x = 0"
    "count (mset (concat (map hands ys))) x = 0" using n pos one by simp_all
  from zero(1) show "x \<notin> set (cs_list s)" by (simp add: count_eq_zero_iff)
  show "x \<notin> set (hands d)" if "d \<in> set xs \<union> set ys" for d
    using zero(2,3) that by (auto simp: count_eq_zero_iff)
  show "x \<notin> set (cs_took d)" if "d \<in> set ys" for d
    using inv that x by (auto simp: cs_inv_def calls sorted_wrt_append in_turn_def)
qed

lemma later_unreached:
  assumes "cs_inv consume s" and "cs_calls s = xs @ call # ys" and "x \<in> set (hands call)"
  shows "filter (has_served x) ys = []" and "filter (serving x) xs = []" and "filter (serving x) ys = []"
proof -
  note h = in_hands[OF assms]
  have rest: "serving x d \<Longrightarrow> x \<in> set (hands d)" for d :: "'b cs_call"
    by (auto simp: serving_def hands_def dest: in_set_takeD)
  show "filter (has_served x) ys = []" using h(5) by (auto simp: filter_empty_conv has_served_def)
  show "filter (serving x) xs = []" "filter (serving x) ys = []" using h(4) rest by (auto simp: filter_empty_conv)
qed

text \<open>The operations on the list as a whole.\<close>

lemma cs_inv_init: "cs_inv consume (cs_init c)"
  by (simp add: cs_inv_def cs_init_def places_def values_of_def)

lemma places_object: "cs_inv consume s \<Longrightarrow> x \<in># places s \<longleftrightarrow> cs_object s x \<noteq> None"
  by (auto simp: cs_inv_def count_greater_zero_iff[symmetric] simp del: count_greater_zero_iff)

lemma list_object: "cs_inv consume s \<Longrightarrow> x \<in> set (cs_list s) \<Longrightarrow> cs_object s x \<noteq> None"
  using places_object[of consume s x] by (simp add: places_def)

lemma list_not_in_hands:
  assumes inv: "cs_inv consume s" and x: "x \<in> set (cs_list s)" and call: "call \<in> set (cs_calls s)"
  shows "x \<notin> set (hands call)"
proof -
  obtain xs ys where "cs_calls s = xs @ call # ys" using call by (meson split_list)
  then show ?thesis using in_hands(2)[OF inv] x by blast
qed

lemma cs_inv_add:
  assumes inv: "cs_inv consume s"
  shows "cs_inv consume (cs_addConsumer c s)"
proof -
  let ?x = "cs_next s"
  have new: "cs_object s ?x = None" "values_of has_served ?x s = []"
    using inv by (auto simp: cs_inv_def values_of_def filter_empty_conv has_served_def)
  have "values_of P y (s\<lparr>cs_next := n, cs_made := f, cs_list := l, cs_object := m\<rparr>) = values_of P y s"
    "values_of P y (s\<lparr>cs_next := n, cs_made := f\<rparr>) = values_of P y s" for P y n f l m by (simp_all add: values_of_def)
  note v = this
  let ?s = "cs_addConsumer c s"
  have val: "values_of P y ?s = values_of P y s" for P y by (simp add: cs_addConsumer_def Let_def v)
  have fields: "cs_calls ?s = cs_calls s" "cs_received ?s = cs_received s" "cs_next ?s = Suc ?x"
    "cs_made ?s = (cs_made s)(?x := c)" "cs_closed ?s = cs_closed s"
    "cs_object ?s = (if cs_closed s then cs_object s else (cs_object s)(?x \<mapsto> c))"
    by (simp_all add: cs_addConsumer_def Let_def)
  show ?thesis
    unfolding cs_inv_def val fields
  proof (intro conjI)
    show "\<forall>y. count (places ?s) y = (if (if cs_closed s then cs_object s else (cs_object s)(?x \<mapsto> c)) y = None then 0 else 1)"
    proof
      fix y
      have "count (places s) y = (if cs_object s y = None then 0 else 1)" using inv by (simp add: cs_inv_def)
      moreover have "count (places ?s) y = count (places s) y + (if \<not> cs_closed s \<and> y = ?x then 1 else 0)"
        by (simp add: places_def cs_addConsumer_def Let_def)
      ultimately show "count (places ?s) y = (if (if cs_closed s then cs_object s else (cs_object s)(?x \<mapsto> c)) y = None then 0 else 1)"
        using new(1) by auto
    qed
    have "fed_ok consume ?s y" if "y < ?x" for y
      using inv that by (auto simp: cs_inv_def fed_ok_def val fields split: option.splits)
    moreover have "fed_ok consume ?s ?x" using new by (simp add: fed_ok_def val fields)
    ultimately show "\<forall>y<Suc ?x. fed_ok consume ?s y" by (simp add: less_Suc_eq)
  qed (use inv in \<open>auto simp: cs_inv_def\<close>)
qed

lemma cs_inv_close:
  assumes inv: "cs_inv consume s"
  shows "cs_inv consume (cs_close s)"
proof -
  let ?s = "cs_close s"
  have v: "values_of P y ?s = values_of P y s" for P y by (simp add: values_of_def cs_close_def)
  have "count (places ?s) x = (if cs_object ?s x = None then 0 else 1)" for x
  proof -
    have n: "count (places s) x = (if cs_object s x = None then 0 else 1)" using inv by (simp add: cs_inv_def)
    have p: "count (places s) x = count (mset (cs_list s)) x + count (places ?s) x"
      by (simp add: places_def cs_close_def)
    show ?thesis
    proof (cases "x \<in> set (cs_list s)")
      case True
      then have "count (mset (cs_list s)) x \<ge> 1" by (simp add: Suc_le_eq)
      moreover have "count (places s) x \<le> 1" using n by simp
      ultimately have "count (places ?s) x = 0" using p by linarith
      then show ?thesis using True by (simp add: cs_close_def)
    next
      case False
      then have "count (mset (cs_list s)) x = 0" by (simp add: count_eq_zero_iff)
      moreover have "cs_object ?s x = cs_object s x" using False by (simp add: cs_close_def)
      ultimately show ?thesis using n p by (metis add_0)
    qed
  qed
  then show ?thesis using inv unfolding cs_inv_def v fed_ok_def by (auto simp: cs_close_def split: option.splits)
qed

lemma cs_inv_consume:
  assumes inv: "cs_inv consume s"
  shows "cs_inv consume (cs_consume v s)"
proof -
  let ?s = "cs_consume v s"
  have val: "values_of has_served x ?s = values_of has_served x s" "values_of serving x ?s = values_of serving x s" for x
    by (auto simp: values_of_def cs_consume_def has_served_def serving_def)
  have "places ?s = places s" by (simp add: places_def cs_consume_def hands_def)
  moreover have "\<forall>call\<in>set (cs_calls ?s). call_ok call"
    using inv by (auto simp: cs_inv_def cs_consume_def call_ok_def hands_def)
  moreover have "sorted_wrt in_turn (cs_calls ?s)"
    using inv list_not_in_hands[OF inv] by (auto simp: cs_inv_def cs_consume_def sorted_wrt_append in_turn_def)
  moreover have "x \<notin> set (cs_took call)" if "x \<ge> cs_next s" "call \<in> set (cs_calls ?s)" for x call
    using inv that list_object[OF inv, of x] by (auto simp: cs_inv_def cs_consume_def split: if_splits)
  moreover have "cs_next ?s = cs_next s" "cs_object ?s = cs_object s" "cs_closed ?s = cs_closed s" "cs_made ?s = cs_made s"
    "cs_received ?s = cs_received s"
    by (simp_all add: cs_consume_def)
  ultimately show ?thesis using inv unfolding cs_inv_def fed_ok_def val by (simp only:) blast
qed

text \<open>The steps of a call that walks: what it has in its hands can only become less.\<close>

lemma replace_call:
  assumes "cs_inv consume s" and "cs_calls s = xs @ call # ys" and "set (hands c) \<subseteq> set (hands call)"
    and "cs_took c = cs_took call" and "\<And>st. cs_pc c = CS_Returned st \<Longrightarrow> hands c = []"
  shows "\<forall>d\<in>set (xs @ c # ys). call_ok d" and "sorted_wrt in_turn (xs @ c # ys)"
    and "\<forall>y\<ge>cs_next s. cs_object s y = None \<and> (\<forall>d\<in>set (xs @ c # ys). y \<notin> set (cs_took d))"
proof -
  have old: "\<forall>d\<in>set (xs @ call # ys). call_ok d" "sorted_wrt in_turn (xs @ call # ys)"
    "\<forall>y\<ge>cs_next s. cs_object s y = None \<and> (\<forall>d\<in>set (xs @ call # ys). y \<notin> set (cs_took d))"
    using assms(1) by (simp_all add: cs_inv_def assms(2))
  show "\<forall>d\<in>set (xs @ c # ys). call_ok d" using old(1) assms(3-5) by (auto simp: call_ok_def)
  have "in_turn c d" if "in_turn call d" for d using that assms(3) by (auto simp: in_turn_def)
  moreover have "in_turn d c = in_turn d call" for d by (simp add: in_turn_def assms(4))
  ultimately show "sorted_wrt in_turn (xs @ c # ys)" using old(2) by (simp add: sorted_wrt_append)
  show "\<forall>y\<ge>cs_next s. cs_object s y = None \<and> (\<forall>d\<in>set (xs @ c # ys). y \<notin> set (cs_took d))"
    using old(3) assms(4) by simp
qed

lemma cs_inv_call:
  assumes inv: "cs_inv consume s" and k: "k < length (cs_calls s)" and pc: "cs_pc (cs_calls s ! k) = CS_Walks False"
    and rest: "cs_rest (cs_calls s ! k) = x # rest"
  shows "\<exists>s'. cs_calls_it k x s = Some s' \<and> cs_inv consume s'"
proof -
  obtain xs call ys where calls: "cs_calls s = xs @ call # ys" and c: "cs_calls s ! k = call" "k = length xs" using split_call[OF k] .
  let ?c = "call\<lparr>cs_pc := CS_Walks True\<rparr>"
  let ?s = "s\<lparr>cs_calls := xs @ ?c # ys, cs_received := (cs_received s)(x := cs_received s x @ [cs_value call])\<rparr>"
  have x: "x \<in> set (hands call)" using rest c by (simp add: hands_def)
  note h = in_hands[OF inv calls x] and later = later_unreached[OF inv calls x]
  have s': "cs_calls_it k x s = Some ?s" using h(1) c by (simp add: cs_calls_it_def calls)
  have hands: "hands ?c = hands call" by (simp add: hands_def)
  have calls': "cs_calls ?s = xs @ ?c # ys" by simp
  have gave: "values_of has_served y ?s = values_of has_served y s" for y
    unfolding values_of_split[OF calls] values_of_split[OF calls'] by (simp add: has_served_def)
  have serving: "values_of serving y ?s = values_of serving y s @ (if y = x then [cs_value call] else [])" for y
    unfolding values_of_split[OF calls] values_of_split[OF calls'] using later rest pc c by (simp add: serving_def)
  have ok: "\<forall>d\<in>set (cs_calls ?s). call_ok d" "sorted_wrt in_turn (cs_calls ?s)"
    "\<forall>y\<ge>cs_next s. cs_object s y = None \<and> (\<forall>d\<in>set (cs_calls ?s). y \<notin> set (cs_took d))"
    unfolding calls' by (rule replace_call[OF inv calls]; simp add: hands pc[unfolded c])+
  have "places ?s = places s" by (simp add: places_def calls hands)
  moreover have "fed_ok consume ?s y = fed_ok consume s y" for y by (simp add: fed_ok_def gave split: option.split)
  moreover have "cs_received ?s y = values_of has_served y s @ values_of serving y ?s" for y
  proof -
    have "cs_received s y = values_of has_served y s @ values_of serving y s" using inv by (simp add: cs_inv_def)
    then show ?thesis unfolding serving by (cases "y = x") simp_all
  qed
  ultimately have "cs_inv consume ?s"
    using inv ok unfolding cs_inv_def gave by simp
  then show ?thesis using s' by blast
qed

lemma moved: "a = b + x \<Longrightarrow> a + p = b + q \<Longrightarrow> (q :: nat multiset) = p + x"
  by (simp add: ac_simps)

lemma cs_inv_return:
  assumes inv: "cs_inv consume s" and k: "k < length (cs_calls s)" and pc: "cs_pc (cs_calls s ! k) = CS_Walks True"
    and rest: "cs_rest (cs_calls s ! k) = x # rest"
  shows "\<exists>s'. cs_it_returns consume k x rest s = Some s' \<and> cs_inv consume s'"
proof -
  obtain xs call ys where calls: "cs_calls s = xs @ call # ys" and c: "cs_calls s ! k = call" "k = length xs" using split_call[OF k] .
  have r: "cs_rest call = x # rest" "cs_pc call = CS_Walks True" using rest pc c by simp_all
  have x: "x \<in> set (hands call)" using r by (simp add: hands_def)
  note h = in_hands[OF inv calls x] and later = later_unreached[OF inv calls x]
  have once: "x \<notin> set (cs_front call)" "x \<notin> set rest"
    using h(3) by (simp_all add: hands_def r count_eq_zero_iff[symmetric] del: count_eq_zero_iff)
  have took: "x \<in> set (cs_took call)" using inv x by (auto simp: cs_inv_def calls call_ok_def)
  obtain obj where obj: "cs_object s x = Some obj" using h(1) by blast
  obtain obj' st where e: "exceptionSafeConsume consume obj (cs_value call) = (obj', st)" by fastforce
  let ?front = "if st = Status_Ok then cs_front call @ [x] else cs_front call"
  let ?c = "call\<lparr>cs_front := ?front, cs_rest := rest, cs_pc := CS_Walks False\<rparr>"
  let ?s = "s\<lparr>cs_object := (cs_object s)(x := if st = Status_Ok then Some obj' else None), cs_calls := xs @ ?c # ys\<rparr>"
  have s': "cs_it_returns consume k x rest s = Some ?s"
    using obj e c by (cases st) (simp_all add: cs_it_returns_def calls)
  have hands: "mset (hands call) = mset (hands ?c) + (if st = Status_Ok then {#} else {#x#})"
    by (simp add: hands_def r)
  then have sub: "set (hands ?c) \<subseteq> set (hands call)" by (metis mset_subset_eq_add_left set_mset_mono set_mset_mset)
  have calls': "cs_calls ?s = xs @ ?c # ys" by simp
  have gave: "values_of has_served y ?s = values_of has_served y s @ (if y = x then [cs_value call] else [])" for y
    unfolding values_of_split[OF calls] values_of_split[OF calls'] using later took once by (auto simp: has_served_def r)
  have serving: "values_of serving y s = values_of serving y ?s @ (if y = x then [cs_value call] else [])"
    "values_of serving x ?s = []" for y
    unfolding values_of_split[OF calls] values_of_split[OF calls'] using later by (simp_all add: serving_def r)
  have ok: "\<forall>d\<in>set (cs_calls ?s). call_ok d" "sorted_wrt in_turn (cs_calls ?s)"
    "\<forall>y\<ge>cs_next s. cs_object s y = None \<and> (\<forall>d\<in>set (cs_calls ?s). y \<notin> set (cs_took d))"
    unfolding calls' by (rule replace_call[OF inv calls]; use sub in simp)+
  have next': "x < cs_next s" using ok(3) obj by (metis not_le option.distinct(1))
  have "mset (hands call) + places ?s = mset (hands ?c) + places s" by (simp add: places_def calls)
  then have p: "places s = places ?s + (if st = Status_Ok then {#} else {#x#})"
    by (rule moved[OF hands])
  have "count (places ?s) y = (if cs_object ?s y = None then 0 else 1)" for y
  proof -
    have "count (places s) y = (if cs_object s y = None then 0 else 1)" using inv by (simp add: cs_inv_def)
    then show ?thesis unfolding p using obj by (auto split: if_splits)
  qed
  moreover have "fed_ok consume ?s y" if "y < cs_next s" for y
  proof (cases "y = x")
    case True
    have "fed_ok consume s x" using inv next' by (simp add: cs_inv_def)
    then show ?thesis using e obj True unfolding fed_ok_def gave by (cases st) (simp_all add: feed_append)
  next
    case False
    have "fed_ok consume s y" using inv that by (simp add: cs_inv_def)
    then show ?thesis using False unfolding fed_ok_def gave by (simp split: option.splits)
  qed
  moreover have "cs_received s y = values_of has_served y ?s @ values_of serving y ?s" for y
    using inv serving(1)[of y] serving(2) by (simp add: cs_inv_def gave)
  moreover have "\<forall>y\<ge>cs_next s. cs_object ?s y = None \<and> (\<forall>d\<in>set (cs_calls ?s). y \<notin> set (cs_took d))"
    using ok(3) next' by auto
  ultimately have "cs_inv consume ?s" using ok(1,2) unfolding cs_inv_def by simp
  then show ?thesis using s' by blast
qed

lemma cs_inv_splice:
  assumes inv: "cs_inv consume s" and k: "k < length (cs_calls s)" and pc: "cs_pc (cs_calls s ! k) = CS_Walks False"
    and rest: "cs_rest (cs_calls s ! k) = []"
  shows "cs_inv consume (cs_splices_back k s)"
proof -
  obtain xs call ys where calls: "cs_calls s = xs @ call # ys" and c: "cs_calls s ! k = call" "k = length xs" using split_call[OF k] .
  let ?c = "call\<lparr>cs_front := [], cs_pc := CS_Returned Status_Ok\<rparr>"
  let ?s = "s\<lparr>cs_list := cs_front call @ cs_list s, cs_calls := xs @ ?c # ys\<rparr>"
  have r: "cs_rest call = []" "cs_pc call = CS_Walks False" using rest pc c by simp_all
  have s': "cs_splices_back k s = ?s" using c by (simp add: cs_splices_back_def calls)
  have hands: "hands call = cs_front call" "hands ?c = []" using r by (simp_all add: hands_def)
  have calls': "cs_calls ?s = xs @ ?c # ys" by simp
  have gave: "values_of has_served y ?s = values_of has_served y s" "values_of serving y ?s = values_of serving y s" for y
    unfolding values_of_split[OF calls] values_of_split[OF calls'] using r by (simp_all add: has_served_def serving_def)
  have "places ?s = places s" by (simp add: places_def calls hands)
  moreover have "fed_ok consume ?s y = fed_ok consume s y" for y by (simp add: fed_ok_def gave split: option.split)
  moreover have "\<forall>d\<in>set (cs_calls ?s). call_ok d" "sorted_wrt in_turn (cs_calls ?s)"
    "\<forall>y\<ge>cs_next s. cs_object s y = None \<and> (\<forall>d\<in>set (cs_calls ?s). y \<notin> set (cs_took d))"
    unfolding calls' by (rule replace_call[OF inv calls]; simp add: hands)+
  ultimately show ?thesis using inv unfolding s' cs_inv_def gave by simp
qed

lemma cs_inv_step:
  assumes "cs_step consume s t" and inv: "cs_inv consume s"
  shows "\<exists>s'. t = Some s' \<and> cs_inv consume s'"
  using assms(1)
  by cases (use inv in \<open>auto intro: cs_inv_add cs_inv_close cs_inv_consume cs_inv_splice cs_inv_call cs_inv_return\<close>)

lemma cs_reachable_inv: "cs_reachable consume s \<Longrightarrow> cs_inv consume s"
proof (induction rule: cs_reachable.induct)
  case (cs_reach_step s s')
  then show ?case using cs_inv_step[OF cs_reach_step.hyps(2)] by simp
qed (rule cs_inv_init)

section \<open>Who gets what\<close>

lemma reached_split:
  assumes "sorted_wrt in_turn calls" and "\<forall>call\<in>set calls. call_ok call"
  shows "filter (reached x) calls = filter (has_served x) calls @ filter (serving x) calls"
  using assms
proof (induction calls)
  case (Cons call calls)
  have r: "reached x call \<longleftrightarrow> has_served x call \<or> serving x call" "has_served x call \<Longrightarrow> \<not> serving x call"
    using Cons.prems(2) by (auto simp: reached_def has_served_def serving_def call_ok_def hands_def dest: in_set_takeD)
  have later: "has_served x d \<Longrightarrow> x \<in> set (cs_took d)" for d :: "'a cs_call" by (simp add: has_served_def)
  have "filter (has_served x) calls = []" if "serving x call"
  proof -
    have "x \<in> set (hands call)" using that by (auto simp: serving_def hands_def dest: in_set_takeD)
    then show ?thesis using Cons.prems(1) later by (auto simp: filter_empty_conv in_turn_def)
  qed
  then show ?case using Cons r by auto
qed simp

lemma list_is_rest:
  assumes inv: "cs_inv consume s"
  shows "set (cs_list s) = {x. cs_object s x \<noteq> None \<and> (\<forall>call\<in>set (cs_calls s). x \<notin> set (hands call))}"
proof -
  have "x \<in> set (cs_list s)" if "cs_object s x \<noteq> None" "\<forall>call\<in>set (cs_calls s). x \<notin> set (hands call)" for x
  proof -
    have "x \<in># places s" using places_object[OF inv] that(1) by blast
    then show ?thesis using that(2) by (auto simp: places_def)
  qed
  then show ?thesis using list_object[OF inv] list_not_in_hands[OF inv] by blast
qed

lemma gone_received:
  assumes "cs_inv consume s" and "cs_object s x = None"
  shows "cs_received s x = values_of has_served x s"
proof -
  have "\<not> serving x call" if "call \<in> set (cs_calls s)" for call
    using places_object[OF assms(1), of x] assms(2) that
    by (auto simp: serving_def places_def hands_def dest: in_set_takeD)
  then have "values_of serving x s = []" by (auto simp: values_of_def filter_empty_conv)
  then show ?thesis using assms(1) by (simp add: cs_inv_def)
qed

text \<open>
  C10: however calls of consume, addConsumer and close overlap: a call never uses a consumer that is gone,
  and every living consumer is in exactly one place, m_list or one call's hands, so that no two
  calls serve it at once. It gets exactly the values of the calls that took it, in the order in which these began and none
  twice, apart from that of a call that has not come to it yet; a call that has returned has come to all it took. Its state is what these
  values make of it. Until the list is closed, it goes only when it has answered Closed; one that throws stays.
  A call on an open list takes all the attached consumers but those that another call has in its hands:
  all of them when no other call is under way. Those in other hands miss its value (overlapping_consume_misses).
\<close>

theorem consumer_list_delivers:
  assumes "cs_reachable consume s"
  shows "\<not> cs_step consume s None \<and>
    (\<forall>x. count (places s) x = (if cs_object s x = None then 0 else 1)) \<and>
    (\<forall>x. cs_received s x = values_of reached x s) \<and>
    (\<forall>call\<in>set (cs_calls s). \<forall>st. cs_pc call = CS_Returned st \<longrightarrow> (\<forall>x\<in>set (cs_took call). reached x call)) \<and>
    (\<forall>x<cs_next s. case cs_object s x of
       None \<Rightarrow> cs_closed s \<or> feed consume (cs_made s x) (cs_received s x) = None
     | Some c \<Rightarrow> feed consume (cs_made s x) (values_of has_served x s) = Some c) \<and>
    (\<not> cs_closed s \<longrightarrow> (\<forall>v. cs_took (last (cs_calls (cs_consume v s))) = cs_list s) \<and>
       set (cs_list s) = {x. cs_object s x \<noteq> None \<and> (\<forall>call\<in>set (cs_calls s). x \<notin> set (hands call))})"
proof (intro conjI)
  note inv = cs_reachable_inv[OF assms]
  show "\<not> cs_step consume s None" using cs_inv_step[OF _ inv] by blast
  show "\<forall>x. count (places s) x = (if cs_object s x = None then 0 else 1)" using inv by (simp add: cs_inv_def)
  show "\<forall>x. cs_received s x = values_of reached x s"
    using inv reached_split[of "cs_calls s"] by (auto simp: cs_inv_def values_of_def)
  show "\<forall>call\<in>set (cs_calls s). \<forall>st. cs_pc call = CS_Returned st \<longrightarrow> (\<forall>x\<in>set (cs_took call). reached x call)"
    using inv by (auto simp: cs_inv_def call_ok_def reached_def hands_def)
  show "\<forall>x<cs_next s. case cs_object s x of
       None \<Rightarrow> cs_closed s \<or> feed consume (cs_made s x) (cs_received s x) = None
     | Some c \<Rightarrow> feed consume (cs_made s x) (values_of has_served x s) = Some c"
    using inv gone_received[OF inv] by (auto simp: cs_inv_def fed_ok_def split: option.splits)
  show "\<not> cs_closed s \<longrightarrow> (\<forall>v. cs_took (last (cs_calls (cs_consume v s))) = cs_list s) \<and>
      set (cs_list s) = {x. cs_object s x \<noteq> None \<and> (\<forall>call\<in>set (cs_calls s). x \<notin> set (hands call))}"
    using list_is_rest[OF inv] by (simp add: cs_consume_def)
qed

text \<open>One consumer and two calls of consume, the second while the first has the consumer in its hands.\<close>

definition all_ok :: "(unit, nat, unit) consume_fn" where
  "all_ok c v = (c, Inr Status_Ok)"

definition overlap_demo :: "bool \<Rightarrow> nat list \<Rightarrow> nat list \<Rightarrow> nat list \<Rightarrow> cs_pc \<Rightarrow> cs_pc option \<Rightarrow> (unit, nat) cs_sys" where
  "overlap_demo given l front rest pc pc2 =
     \<lparr>cs_closed = False, cs_list = l, cs_object = [0 \<mapsto> ()], cs_next = 1,
      cs_calls = \<lparr>cs_value = 7, cs_took = [0], cs_front = front, cs_rest = rest, cs_pc = pc\<rparr> #
        (case pc2 of None \<Rightarrow> [] | Some pc \<Rightarrow> [\<lparr>cs_value = 8, cs_took = [], cs_front = [], cs_rest = [], cs_pc = pc\<rparr>]),
      cs_made = (\<lambda>_. ()), cs_received = (if given then (\<lambda>_. [])(0 := [7]) else (\<lambda>_. []))\<rparr>"

lemmas overlap_eval = overlap_demo_def cs_init_def cs_addConsumer_def cs_consume_def cs_calls_it_def cs_it_returns_def
  cs_splices_back_def exceptionSafeConsume_def all_ok_def Let_def

lemma overlap_demo_reachable:
  "cs_reachable all_ok (overlap_demo True [0] [] [] (CS_Returned Status_Ok) (Some (CS_Returned Status_Ok)))"
proof -
  let ?w = "CS_Walks False" and ?r = "CS_Returned Status_Ok"
  note step = cs_reach_step[where consume = all_ok]
  have "cs_reachable all_ok (overlap_demo False [] [] [0] ?w None)"
    by (rule step[OF step[OF cs_reach_init[of all_ok "()"] cs_adds[of all_ok _ "()"]]])
      (use cs_consumes[of all_ok "cs_addConsumer () (cs_init ())" 7] in \<open>simp add: overlap_eval fun_upd_idem\<close>)
  from step[OF this, of "overlap_demo True [] [] [0] (CS_Walks True) None"]
  have "cs_reachable all_ok (overlap_demo True [] [] [0] (CS_Walks True) None)"
    using cs_delivers[of 0 "overlap_demo False [] [] [0] ?w None" 0 "[]" all_ok] by (simp add: overlap_eval)
  from step[OF this, of "overlap_demo True [] [] [0] (CS_Walks True) (Some ?w)"]
  have "cs_reachable all_ok (overlap_demo True [] [] [0] (CS_Walks True) (Some ?w))"
    using cs_consumes[of all_ok "overlap_demo True [] [] [0] (CS_Walks True) None" 8] by (simp add: overlap_eval)
  from step[OF this, of "overlap_demo True [] [] [0] (CS_Walks True) (Some ?r)"]
  have "cs_reachable all_ok (overlap_demo True [] [] [0] (CS_Walks True) (Some ?r))"
    using cs_splices[of 1 "overlap_demo True [] [] [0] (CS_Walks True) (Some ?w)" all_ok] by (simp add: overlap_eval)
  from step[OF this, of "overlap_demo True [] [0] [] ?w (Some ?r)"]
  have "cs_reachable all_ok (overlap_demo True [] [0] [] ?w (Some ?r))"
    using cs_returns[of 0 "overlap_demo True [] [] [0] (CS_Walks True) (Some ?r)" 0 "[]" all_ok] by (simp add: overlap_eval)
  from step[OF this, of "overlap_demo True [0] [] [] ?r (Some ?r)"] show ?thesis
    using cs_splices[of 0 "overlap_demo True [] [0] [] ?w (Some ?r)" all_ok] by (simp add: overlap_eval)
qed

theorem consumer_list_delivers_witness:
  "cs_received (overlap_demo True [0] [] [] (CS_Returned Status_Ok) (Some (CS_Returned Status_Ok))) 0 = [7]"
  using consumer_list_delivers[OF overlap_demo_reachable]
  by (simp add: overlap_demo_def values_of_def reached_def)

text \<open>The consumer was attached all the time, both calls have answered Ok, and it was given one of the two values.\<close>

theorem overlapping_consume_misses:
  "\<exists>s. cs_reachable all_ok s \<and> map cs_value (cs_calls s) = [7, 8] \<and>
    map cs_pc (cs_calls s) = [CS_Returned Status_Ok, CS_Returned Status_Ok] \<and> cs_list s = [0] \<and> cs_received s 0 = [7]"
  by (rule exI[where x = "overlap_demo True [0] [] [] (CS_Returned Status_Ok) (Some (CS_Returned Status_Ok))"])
    (use overlap_demo_reachable in \<open>simp add: overlap_demo_def\<close>)

end
