(* ===== verification/Spec2Isabelle.thy ===== *)
theory Spec2Isabelle
  imports Bytes StringUtils Hex Base64 Md5 Fifo PriorityQueue TSQueue Consumers ManageableTask
    SchedulerClear AOContext Strand Promise IoDevice AllOp DelayedProperty Timers
    CtxCallback CallQueue StateObserver WeakList RefCount Network SerialPort Sync
    ContextTree Servers Executors FutureOnContext IoCancel FutureTypes TypeTraits
    ContextTimeout Files ProducerLife ConcatOnContext TempDir ThreadExec DeviceOps UdpPeers
    AllStart ReaderOnContext Platform LockThreads TaskClient DelayedWait WeakListThreads
    FastPimpl ConsumerThreads
begin

text \<open>
  nhope is a C++17 library for asynchronous programs: contexts that own asynchronous work and end
  it when they close (AOContext), futures, executors, queues and producers, timers, I/O on
  devices, and some codecs. This development models its core in HOL and proves what each part
  promises. Paths are relative to the repository's src/ directory.

  The parts and their theories

  Work and its end. An AOContext runs work on a strand and calls close handlers when it closes.
  AOContextState is the packed 64-bit word of include/nhope/async/detail/ao-context-state.h,
  refined by a record of flags and counters. CloseHandlers is the intrusive list of handlers in
  ao-context-impl.h, refined by a list of addresses, with callCloseHandlers and
  startCancellableTask. Locks holds the thread-local stacks (stack-storage.h, stack-set.h),
  RecursiveLock and ReverseLock as a thread sees them, LockThreads any number of threads with nested
  scopes over one mutex. AOContext puts them together: the protocol of close against other
  threads and the counters of exec. ContextTree is a parent and a child that any threads close at
  once. ContextClient joins the protocol with the objects of Timers, which see of it only the
  order of their phases, and ContextTimeout with the timer of the constructors with a time-out
  (ao-context.cpp). Strand is strand-executor.cpp; Executors has what the executors on threads
  hand to asio, the pool of threads, and which executor a context and its children own
  (make-strand.h, ao-context-impl.h); ThreadExec is the life of thread-executor.cpp.

  Futures. FutureState is the race of result and callback on the flags of future-state.h, in the
  steps of its memory accesses. Future has the states in a store, then, fail, unwrap, wait and get
  of future.h as operations on it; FutureChain what chains of them compute; FutureTypes the types
  that then, fail and unwrap give them, over programs that use futures; Promise the promises' flags,
  moves and destructors. CtxCallback is a callback bound to an AOContext, with asyncInvoke, invoke
  and safe callbacks; FutureOnContext joins both: then and fail on a context, waitFor, makePromise
  and toThread. AllOp (all.h, its runs over a vector and over a tuple) with AllStart (whole starts,
  and the void operation as a refinement), CallQueue (call-queue.h), DelayedProperty
  (delayed-property.h, and the state it shares with its inputs until the last of them goes) with
  DelayedWait (the threads that wait for a value), StateObserver
  (state-observer.h) and Timers (timer.cpp and the connection attempts of tcp.cpp and
  local-socket.cpp) are built on contexts and futures; each uses of them what those theories prove
  and says so in its opening text.

  Tasks. ManageableTask (manageable-task.cpp) is a worker thread that others pause, resume and stop,
  TaskClient the threads that call its waiting operations; Scheduler (scheduler.cpp) lets one task
  run at a time, by priority; SchedulerClear has its public interface, a whole run of clear, and
  what remains of the scheduler's assertions when clears come in between.

  Data between threads and tasks. QueueSpec is the contract of a bounded queue, a locale; Fifo
  (fifo.h) and TSQueue (ts-queue.h) provide it. PriorityQueue, Consumers (consumer-list.h, chan.h,
  func-producer.h and the consumers around them), with ConsumerThreads for a list whose consumes
  overlap, ProducerLife (the producer's thread and a notifier on its context) and WeakList
  (weak_list.h), with WeakListThreads for the list that threads share while its objects go, are
  the sequences of include/nhope/seq. RefCount has RefPtr and SharedFlag; Sync has Event and
  LockableValue.

  I/O. Readers has the readers and writers of lib/io under the contracts of io-device.h, two
  locales; IoDevice the loops of io-device.cpp over any of them, IoCancel what they answer when
  the device drops their handler, ConcatOnContext the concatenating reader with the jobs of its
  context, ReaderOnContext the other readers and writers with theirs. AsioDevice is
  asio-device-wrapper.h, the base of the sockets and the serial port, and DeviceOps the loops on
  such a device while it goes away, over a locale of what a loop promises its device. Files is
  file.cpp with its two contexts. Network (sock-addr.cpp, network.cpp), Sockets (the translation
  of parameters, options and errors in tcp.cpp, udp.cpp, file.cpp and asio-device-wrapper.h),
  Servers (listening and accepting, the UDP endpoints), UdpPeers (the works on the peers of a
  multi-peer socket) and SerialPort (settings and modem lines) are what the code does around the
  operating system; Platform has the same for Windows (network-win.cpp, serial-port-win.cpp,
  serial-port-detail.cpp), the names of threads on both systems and scope-exit.h.

  Codecs and helpers. Bytes (bits.h, bytes.h), StringUtils (string-utils.cpp, array.h), Hex,
  Base64, Md5, TempDir (filesystem.cpp), TypeTraits (type.h) and FastPimpl (fast-pimpl.h) are
  lib/utils and include/nhope/utils.

  Prelude has what they share: words, memcpy with its bounds, std::lower_bound, the phases of a
  context.

  How the code is modelled

  An object is a record with the members' names, an operation a function from the state to the new
  state and its result, in the order of the source. Exceptions are values of a sum. None stands
  for what the code must not do: a failed assertion, memory out of bounds, a deleted object, a
  second result for a promise; that it does not happen is part of the theorems. Where threads
  interleave, a critical section, an atomic operation or a job of a strand is one step of an
  inductive relation, and the theorems hold for all reachable states, by invariants. Spurious
  wake-ups, time-outs and the moment at which an asynchronous operation completes are free choices
  of that relation. Ghost fields (logs of what was called or delivered) are marked as such.

  What the lemmas show, by kind. Types: the states of futures keep the types of their futures.
  Invariants: the states of tasks, the places of promises, counters and their references.
  Refinements: packed words, linked lists, the ring buffer, chains of futures, the observer's
  protocol, objects on the detailed context. Functional behaviour: codecs, digests, what consumers
  and readers get. Safety and liveness under interleaving: no lost wake-up, no deadlock of closing
  threads, handlers called once, one result for a future, no operation on a device left without an
  answer. Round trips: base64, hex, lines, socket addresses. Termination: the worker's end, the
  loops of reads, callCloseHandlers. Lemmas whose text says what goes wrong document behaviour
  that the code hardly means to have; they are listed with the findings. Where a property holds
  under a condition (no clear, no other call under way, no context that closes), its text names
  it, and where the code breaks the property without it, the lemma that shows so.

  Bounds and fuel. callCloseHandlers takes more steps than the list has handlers, readOp and the
  copy loop more than the reader's measure, a run of clear at most 6 steps for each task and one
  more; the theorems give the numbers and show them to be enough. A stopped producer's thread
  takes at most 4 more steps, a read of a concatenation at most 3 for each reader and one. The
  counters of an AOContext hold 32 and 24 bits, the theorems ask that they do not overflow.
  Reference counters are words of 64 bits used below 2^62.

  Not modelled. asio, the operating system and the C library are parameters with named hypotheses.
  The memory order of atomics is sequential consistency. Exceptions thrown while memory is
  allocated are left out. Not modelled at all: the loops that run an io_context on a thread,
  waiting by spinning, and traits that only ask the compiler whether an expression is valid
  (EnableFunc, HasEqual). Accessors that only forward to asio or to another object have no
  definition of their own. The void template of future.h is the general one with a value of one
  element. The project's tests and benchmarks are programs that use the library and are not part
  of it.
\<close>

end
